(* ===== verification/Prelude.thy ===== *)
theory Prelude
  imports Main "HOL-Library.Word" "HOL-Library.Monad_Syntax" "HOL-Library.Signed_Division"
begin

text \<open>
  Shared vocabulary of the development: the machine types of the C code, the memory
  operations of the C library the components use (\<open>memcpy\<close>, \<open>memset\<close>, the allocator),
  and the list, word and modular-arithmetic lemmas their proofs share.

  A C object of bytes is a list of bytes; a pointer into it is the list and an offset.
  An access outside the object is undefined behaviour in C; in the model it is the value
  \<^const>\<open>None\<close> of an option, so that a theorem that an operation returns \<open>Some\<close> is
  also a theorem that every access it makes is in bounds.
\<close>

section \<open>Machine types\<close>

type_synonym u8 = "8 word"
type_synonym u16 = "16 word"
type_synonym u32 = "32 word"
type_synonym u64 = "64 word"

text \<open>The lemma collections of the development.\<close>

named_theorems mem_simps \<open>evaluation of the memory operations\<close>
named_theorems bound_intros \<open>introduction rules for bounds\<close>

section \<open>Signed machine integers\<close>

text \<open>
  The C type \<open>int\<close> is modelled by \<^typ>\<open>int\<close>; signed overflow is undefined behaviour, so an
  operation whose result may leave the range of \<open>int\<close> checks it with \<open>int32_ok\<close>.
\<close>

definition INT_MAX :: int where
  "INT_MAX = 2147483647"

definition INT_MIN :: int where
  "INT_MIN = -2147483648"

definition int32_ok :: "int \<Rightarrow> bool" where
  "int32_ok x \<longleftrightarrow> INT_MIN \<le> x \<and> x \<le> INT_MAX"

lemma mod_wrap:
  fixes x c :: int
  assumes "0 \<le> x" and "x < 2 * c"
  shows "x mod c = (if x < c then x else x - c)"
proof (cases "x < c")
  case True
  with assms show ?thesis by simp
next
  case False
  have "x mod c = (x - c) mod c" by (simp add: mod_diff_right_eq [symmetric] mod_diff_eq [symmetric])
  also have "\<dots> = x - c" using False assms by (intro mod_pos_pos_trivial) auto
  finally show ?thesis using False by simp
qed

lemma smod_nonneg [simp]:
  fixes x c :: int
  assumes "0 \<le> x" and "0 < c"
  shows "x smod c = x mod c"
  using assms by (cases "x = 0") (auto simp: smod_int_alt_def)

section \<open>Blocks of memory\<close>

definition memcpy :: "'a list \<Rightarrow> int \<Rightarrow> 'a list \<Rightarrow> int \<Rightarrow> int \<Rightarrow> 'a list option" where
  "memcpy dst d src s n =
     (if 0 \<le> n \<and> 0 \<le> d \<and> 0 \<le> s \<and> d + n \<le> int (length dst) \<and> s + n \<le> int (length src)
      then Some (take (nat d) dst @ take (nat n) (drop (nat s) src) @ drop (nat (d + n)) dst)
      else None)"

definition load :: "'a list \<Rightarrow> int \<Rightarrow> 'a option" where
  "load blk i = (if 0 \<le> i \<and> i < int (length blk) then Some (blk ! nat i) else None)"

definition store :: "'a list \<Rightarrow> int \<Rightarrow> 'a \<Rightarrow> 'a list option" where
  "store blk i v = (if 0 \<le> i \<and> i < int (length blk) then Some (blk[nat i := v]) else None)"

text \<open>
  The allocator is a function from the requested size to a block, \<^const>\<open>None\<close> when
  \<open>malloc\<close> returns \<open>NULL\<close>. The contents of a fresh block are indeterminate: any function
  that returns blocks of the requested length is an allocator.
\<close>

type_synonym allocator = "int \<Rightarrow> u8 list option"

definition allocator_ok :: "allocator \<Rightarrow> bool" where
  "allocator_ok alloc \<longleftrightarrow> (\<forall>n blk. alloc n = Some blk \<longrightarrow> int (length blk) = n)"

definition calloc_all :: allocator where
  "calloc_all n = (if 0 \<le> n then Some (replicate (nat n) 0) else None)"

lemma allocator_ok_calloc [simp, intro]: "allocator_ok calloc_all"
  by (simp add: allocator_ok_def calloc_all_def)

lemma allocator_ok_length: "allocator_ok alloc \<Longrightarrow> alloc n = Some blk \<Longrightarrow> int (length blk) = n"
  by (simp add: allocator_ok_def)

lemma memcpy_eq_Some [mem_simps]:
  "0 \<le> n \<Longrightarrow> 0 \<le> d \<Longrightarrow> 0 \<le> s \<Longrightarrow> d + n \<le> int (length dst) \<Longrightarrow> s + n \<le> int (length src) \<Longrightarrow>
   memcpy dst d src s n =
     Some (take (nat d) dst @ take (nat n) (drop (nat s) src) @ drop (nat (d + n)) dst)"
  by (simp add: memcpy_def)

lemma memcpy_NoneD: "n < 0 \<Longrightarrow> memcpy dst d src s n = None"
  by (simp add: memcpy_def)

lemma memcpy_length: "memcpy dst d src s n = Some r \<Longrightarrow> length r = length dst"
  by (auto simp: memcpy_def split: if_splits)

lemma memcpy_SomeE:
  assumes "memcpy dst d src s n = Some r"
  obtains d' s' n' where "d = int d'" and "s = int s'" and "n = int n'"
    and "d' + n' \<le> length dst" and "s' + n' \<le> length src"
    and "r = take d' dst @ take n' (drop s' src) @ drop (d' + n') dst"
proof (rule that [of "nat d" "nat s" "nat n"])
qed (use assms in \<open>auto simp: memcpy_def nat_add_distrib split: if_splits\<close>)

lemma memcpy_nth:
  assumes "memcpy dst d src s n = Some r" and "i < length dst"
  shows "r ! i = (if d \<le> int i \<and> int i < d + n then src ! nat (s + int i - d) else dst ! i)"
  using assms
proof (elim memcpy_SomeE)
  fix d' s' n'
  assume d: "d = int d'" and s: "s = int s'" and n: "n = int n'"
    and b: "d' + n' \<le> length dst" "s' + n' \<le> length src"
    and r: "r = take d' dst @ take n' (drop s' src) @ drop (d' + n') dst"
  have "d' \<le> i \<Longrightarrow> nat (int s' + int i - int d') = s' + (i - d')" by auto
  moreover have "min (length src - s') n' = n'" using b by auto
  ultimately show ?thesis
    using b assms(2) by (auto simp: r d s n nth_append)
qed

lemma load_Some [mem_simps]: "0 \<le> i \<Longrightarrow> i < int (length blk) \<Longrightarrow> load blk i = Some (blk ! nat i)"
  by (simp add: load_def)

lemma store_Some [mem_simps]: "0 \<le> i \<Longrightarrow> i < int (length blk) \<Longrightarrow> store blk i v = Some (blk[nat i := v])"
  by (simp add: store_def)

text \<open>A block with the bytes from offset \<open>off\<close> on replaced.\<close>

definition overwrite :: "'a list \<Rightarrow> nat \<Rightarrow> 'a list \<Rightarrow> 'a list" where
  "overwrite blk off xs = take off blk @ xs @ drop (off + length xs) blk"

lemma overwrite_length [simp]:
  "off + length xs \<le> length blk \<Longrightarrow> length (overwrite blk off xs) = length blk"
  by (simp add: overwrite_def)

lemma overwrite_nth:
  "off + length xs \<le> length blk \<Longrightarrow> i < length blk \<Longrightarrow>
   overwrite blk off xs ! i = (if off \<le> i \<and> i < off + length xs then xs ! (i - off) else blk ! i)"
  by (auto simp: overwrite_def nth_append)

lemma overwrite_eqI:
  assumes "length r = length blk" and "off + length xs \<le> length blk"
    and "\<And>i. i < length blk \<Longrightarrow>
           r ! i = (if off \<le> i \<and> i < off + length xs then xs ! (i - off) else blk ! i)"
  shows "r = overwrite blk off xs"
  using assms by (intro nth_equalityI) (auto simp: overwrite_nth)

lemma overwrite_Nil [simp]: "overwrite blk off [] = blk"
  by (simp add: overwrite_def)

lemma memcpy_overwrite:
  "0 \<le> n \<Longrightarrow> 0 \<le> d \<Longrightarrow> 0 \<le> s \<Longrightarrow> d + n \<le> int (length dst) \<Longrightarrow> s + n \<le> int (length src) \<Longrightarrow>
   memcpy dst d src s n = Some (overwrite dst (nat d) (take (nat n) (drop (nat s) src)))"
  by (subgoal_tac "min (length src - nat s) (nat n) = nat n")
    (auto simp: memcpy_def overwrite_def nat_add_distrib)

end
