(* ===== verification/Circular_Buffer.thy ===== *)
theory Circular_Buffer
  imports Prelude
begin

text \<open>
  The byte ring buffer of \<open>src/udp_piece/circular_buffer.c\<close>: its record, its operations
  and the refinement to a first-in first-out queue of bytes.

  The locale \<open>byte_fifo\<close> is the contract the reassembly code relies on: what a write, a
  read, a peek and a pop do to the queue of bytes the buffer stands for. The locale proves
  the facts the clients need once; the interpretation at the end discharges the contract
  for the ring buffer.
\<close>

section \<open>The structure and its operations\<close>

record circular_buffer =
  cb_beg_index :: int
  cb_end_index :: int
  cb_size :: int
  cb_capacity :: int
  cb_data :: "u8 list"

definition C_MIN :: "int \<Rightarrow> int \<Rightarrow> int" where
  "C_MIN a b = (if a < b then a else b)"

text \<open>
  \<open>hdr_ok\<close> is the outcome of the first \<open>malloc\<close> (for the structure itself), \<open>alloc\<close> the
  allocator of the data area.
\<close>

definition circular_buffer_init :: "bool \<Rightarrow> allocator \<Rightarrow> int \<Rightarrow> circular_buffer option" where
  "circular_buffer_init hdr_ok alloc capacity =
     (if \<not> hdr_ok then None
      else (case alloc capacity of
              None \<Rightarrow> None
            | Some blk \<Rightarrow>
                Some \<lparr>cb_beg_index = 0, cb_end_index = 0, cb_size = 0,
                      cb_capacity = capacity, cb_data = blk\<rparr>))"

text \<open>A null buffer is left alone; the pointer is an option.\<close>

definition circular_buffer_reset :: "circular_buffer option \<Rightarrow> circular_buffer option" where
  "circular_buffer_reset cb =
     (case cb of
        None \<Rightarrow> None
      | Some b \<Rightarrow> Some (b\<lparr>cb_beg_index := 0, cb_end_index := 0, cb_size := 0\<rparr>))"

text \<open>Releasing a buffer: whatever the pointer was, no live buffer is left behind it.\<close>

definition circular_buffer_deinit :: "circular_buffer option \<Rightarrow> circular_buffer option" where
  "circular_buffer_deinit cb = (case cb of None \<Rightarrow> None | Some b \<Rightarrow> None)"

definition circular_buffer_write ::
  "circular_buffer \<Rightarrow> u8 list \<Rightarrow> int \<Rightarrow> (circular_buffer \<times> int) option" where
  "circular_buffer_write cb data bytes =
     (if bytes = 0 then Some (cb, 0)
      else
        let capacity = cb_capacity cb;
            bytes_to_write = C_MIN bytes (capacity - cb_size cb)
        in if bytes_to_write \<le> capacity - cb_end_index cb
           then do {
             d \<leftarrow> memcpy (cb_data cb) (cb_end_index cb) data 0 bytes_to_write;
             let e = cb_end_index cb + bytes_to_write;
             let e' = (if e = capacity then 0 else e);
             Some (cb\<lparr>cb_end_index := e', cb_size := cb_size cb + bytes_to_write, cb_data := d\<rparr>,
                   bytes_to_write)
           }
           else do {
             let size_1 = capacity - cb_end_index cb;
             d1 \<leftarrow> memcpy (cb_data cb) (cb_end_index cb) data 0 size_1;
             let size_2 = bytes_to_write - size_1;
             d2 \<leftarrow> memcpy d1 0 data size_1 size_2;
             Some (cb\<lparr>cb_end_index := size_2, cb_size := cb_size cb + bytes_to_write, cb_data := d2\<rparr>,
                   bytes_to_write)
           })"

text \<open>
  \<open>circular_buffer_read\<close> copies into the block \<open>out\<close> from offset \<open>off\<close> on, where the
  caller's pointer points; the result is the buffer, that block and the number of bytes.
\<close>

definition circular_buffer_read ::
  "circular_buffer \<Rightarrow> u8 list \<Rightarrow> int \<Rightarrow> int \<Rightarrow> (circular_buffer \<times> u8 list \<times> int) option" where
  "circular_buffer_read cb out off bytes =
     (if bytes = 0 then Some (cb, out, 0)
      else
        let capacity = cb_capacity cb;
            bytes_to_read = C_MIN bytes (cb_size cb)
        in if bytes_to_read \<le> capacity - cb_beg_index cb
           then do {
             out1 \<leftarrow> memcpy out off (cb_data cb) (cb_beg_index cb) bytes_to_read;
             let b = cb_beg_index cb + bytes_to_read;
             let b' = (if b = capacity then 0 else b);
             Some (cb\<lparr>cb_beg_index := b', cb_size := cb_size cb - bytes_to_read\<rparr>,
                   out1, bytes_to_read)
           }
           else do {
             let size_1 = capacity - cb_beg_index cb;
             out1 \<leftarrow> memcpy out off (cb_data cb) (cb_beg_index cb) size_1;
             let size_2 = bytes_to_read - size_1;
             out2 \<leftarrow> memcpy out1 (off + size_1) (cb_data cb) 0 size_2;
             Some (cb\<lparr>cb_beg_index := size_2, cb_size := cb_size cb - bytes_to_read\<rparr>,
                   out2, bytes_to_read)
           })"

text \<open>
  The outer option is a fault (an overflowing index, or a read outside the data area), the
  inner one the value stored through \<open>value\<close>: \<^const>\<open>None\<close> for the return code \<open>-1\<close>,
  where \<open>*value\<close> is left unchanged.
\<close>

definition circular_buffer_get :: "circular_buffer \<Rightarrow> int \<Rightarrow> u8 option option" where
  "circular_buffer_get cb index =
     (if index \<ge> cb_size cb then Some None
      else if \<not> int32_ok (index + cb_beg_index cb) \<or> cb_capacity cb = 0 then None
      else do {
        let temp_index = (index + cb_beg_index cb) smod cb_capacity cb;
        v \<leftarrow> load (cb_data cb) temp_index;
        Some (Some v)
      })"

definition circular_buffer_pop_front :: "circular_buffer \<Rightarrow> int \<Rightarrow> circular_buffer" where
  "circular_buffer_pop_front cb pop_size =
     (let capacity = cb_capacity cb;
          pop_bytes = C_MIN pop_size (cb_size cb)
      in if pop_bytes \<le> capacity - cb_beg_index cb
         then let b = cb_beg_index cb + pop_bytes
              in cb\<lparr>cb_beg_index := (if b = capacity then 0 else b),
                    cb_size := cb_size cb - pop_bytes\<rparr>
         else let size_1 = capacity - cb_beg_index cb;
                  size_2 = pop_bytes - size_1
              in cb\<lparr>cb_beg_index := size_2, cb_size := cb_size cb - pop_bytes\<rparr>)"

definition circular_buffer_size :: "circular_buffer \<Rightarrow> int" where
  "circular_buffer_size cb = cb_size cb"

definition circular_buffer_capacity :: "circular_buffer \<Rightarrow> int" where
  "circular_buffer_capacity cb = cb_capacity cb"

section \<open>Well-formed buffers and the queue they stand for\<close>

definition cb_wf :: "circular_buffer \<Rightarrow> bool" where
  "cb_wf cb \<longleftrightarrow>
     0 < cb_capacity cb \<and> int (length (cb_data cb)) = cb_capacity cb \<and>
     0 \<le> cb_beg_index cb \<and> cb_beg_index cb < cb_capacity cb \<and>
     0 \<le> cb_size cb \<and> cb_size cb \<le> cb_capacity cb \<and>
     cb_end_index cb = (cb_beg_index cb + cb_size cb) mod cb_capacity cb"

definition cb_slot :: "circular_buffer \<Rightarrow> nat \<Rightarrow> nat" where
  "cb_slot cb i = nat ((cb_beg_index cb + int i) mod cb_capacity cb)"

definition cb_contents :: "circular_buffer \<Rightarrow> u8 list" where
  "cb_contents cb = map (\<lambda>i. cb_data cb ! cb_slot cb i) [0..<nat (cb_size cb)]"

lemma cb_contents_length [simp]: "length (cb_contents cb) = nat (cb_size cb)"
  by (simp add: cb_contents_def)

lemma cb_contents_nth: "i < nat (cb_size cb) \<Longrightarrow> cb_contents cb ! i = cb_data cb ! cb_slot cb i"
  by (simp add: cb_contents_def)

lemma cb_contents_eqI:
  assumes "nat (cb_size cb) = length xs"
    and "\<And>i. i < length xs \<Longrightarrow> cb_data cb ! cb_slot cb i = xs ! i"
  shows "cb_contents cb = xs"
  using assms by (intro nth_equalityI) (auto simp: cb_contents_nth)

lemma cb_wf_bounds:
  assumes "cb_wf cb"
  shows "0 < cb_capacity cb" and "int (length (cb_data cb)) = cb_capacity cb"
    and "0 \<le> cb_beg_index cb" and "cb_beg_index cb < cb_capacity cb"
    and "0 \<le> cb_size cb" and "cb_size cb \<le> cb_capacity cb"
    and "0 \<le> cb_end_index cb" and "cb_end_index cb < cb_capacity cb"
    and "cb_end_index cb = (if cb_beg_index cb + cb_size cb < cb_capacity cb
           then cb_beg_index cb + cb_size cb else cb_beg_index cb + cb_size cb - cb_capacity cb)"
  using assms mod_wrap [of "cb_beg_index cb + cb_size cb" "cb_capacity cb"]
  by (auto simp: cb_wf_def)

lemma cb_slot_wrap:
  assumes "cb_wf cb" and "int i < cb_capacity cb"
  shows "cb_slot cb i = nat (if cb_beg_index cb + int i < cb_capacity cb
           then cb_beg_index cb + int i else cb_beg_index cb + int i - cb_capacity cb)"
  using cb_wf_bounds [OF assms(1)] assms(2) by (subst cb_slot_def, subst mod_wrap) auto

lemma cb_slot_less:
  assumes "cb_wf cb"
  shows "cb_slot cb i < length (cb_data cb)"
proof -
  have "(cb_beg_index cb + int i) mod cb_capacity cb < int (length (cb_data cb))"
    using cb_wf_bounds(1,2) [OF assms] by simp
  then show ?thesis
    using cb_wf_bounds(1) [OF assms] by (simp add: cb_slot_def nat_less_iff)
qed

lemma cb_wf_init:
  "allocator_ok alloc \<Longrightarrow> 0 < capacity \<Longrightarrow> circular_buffer_init hdr_ok alloc capacity = Some cb \<Longrightarrow>
   cb_wf cb \<and> cb_contents cb = [] \<and> cb_capacity cb = capacity"
  by (auto simp: circular_buffer_init_def cb_wf_def cb_contents_def allocator_ok_length
      split: if_splits option.splits)

lemma cb_wf_reset:
  "cb_wf cb \<Longrightarrow> circular_buffer_reset (Some cb) = Some cb' \<Longrightarrow>
   cb_wf cb' \<and> cb_contents cb' = [] \<and> cb_capacity cb' = cb_capacity cb"
  by (auto simp: circular_buffer_reset_def cb_wf_def cb_contents_def)

section \<open>The operations on the queue\<close>

text \<open>
  A write leaves the slots of the old contents alone and fills the slots after them: the
  two cases of the code are two ways to reach the same picture.
\<close>

lemma cb_appendI:
  assumes wf: "cb_wf cb" and n: "0 \<le> n" "n \<le> cb_capacity cb - cb_size cb" "n \<le> int (length xs)"
    and d: "length d = length (cb_data cb)"
    and old: "\<And>i. i < nat (cb_size cb) \<Longrightarrow> d ! cb_slot cb i = cb_data cb ! cb_slot cb i"
    and new: "\<And>j. j < nat n \<Longrightarrow> d ! cb_slot cb (nat (cb_size cb) + j) = xs ! j"
    and e: "e = (cb_beg_index cb + cb_size cb + n) mod cb_capacity cb"
  shows "cb_wf (cb\<lparr>cb_end_index := e, cb_size := cb_size cb + n, cb_data := d\<rparr>) \<and>
         cb_contents (cb\<lparr>cb_end_index := e, cb_size := cb_size cb + n, cb_data := d\<rparr>) =
           cb_contents cb @ take (nat n) xs" (is "cb_wf ?cb \<and> _ = ?ys")
proof
  show "cb_wf ?cb" using wf n d e by (simp add: cb_wf_def add.assoc)
  show "cb_contents ?cb = ?ys"
  proof (rule cb_contents_eqI)
    show "nat (cb_size ?cb) = length ?ys"
      using cb_wf_bounds [OF wf] n by auto
    fix i assume "i < length ?ys"
    then have i: "i < nat (cb_size cb) \<or> (nat (cb_size cb) \<le> i \<and> i - nat (cb_size cb) < nat n)"
      using n by auto
    have slot: "cb_slot ?cb i = cb_slot cb i" by (simp add: cb_slot_def)
    from i show "cb_data ?cb ! cb_slot ?cb i = ?ys ! i"
      using old [of i] new [of "i - nat (cb_size cb)"]
      by (auto simp: slot nth_append cb_contents_nth)
  qed
qed

lemma cb_write_one_step:
  assumes wf: "cb_wf cb"
    and n: "0 \<le> n" "n \<le> cb_capacity cb - cb_size cb" "n \<le> int (length xs)"
    and fits: "n \<le> cb_capacity cb - cb_end_index cb"
  shows "\<exists>d. memcpy (cb_data cb) (cb_end_index cb) xs 0 n = Some d \<and>
           (let cb' = cb\<lparr>cb_end_index := (if cb_end_index cb + n = cb_capacity cb then 0
                                           else cb_end_index cb + n),
                         cb_size := cb_size cb + n, cb_data := d\<rparr>
            in cb_wf cb' \<and> cb_contents cb' = cb_contents cb @ take (nat n) xs)"
proof -
  note b = cb_wf_bounds [OF wf]
  let ?e = "cb_end_index cb" and ?c = "cb_capacity cb" and ?s = "cb_size cb" and ?b = "cb_beg_index cb"
  note slot = cb_slot_wrap [OF wf] cb_slot_less [OF wf]
  obtain d where d: "memcpy (cb_data cb) ?e xs 0 n = Some d"
    using fits n b by (simp add: memcpy_def)
  have e': "(if ?e + n = ?c then 0 else ?e + n) = (?b + ?s + n) mod ?c"
    using fits n b mod_wrap [of "?b + ?s + n" ?c] by (auto split: if_splits)
  have "d ! cb_slot cb i = cb_data cb ! cb_slot cb i" if "i < nat ?s" for i
    using that fits n b slot [of i] memcpy_nth [OF d, of "cb_slot cb i"]
    by (auto split: if_splits)
  moreover have "d ! cb_slot cb (nat ?s + j) = xs ! j" if "j < nat n" for j
    using that fits n b slot [of "nat ?s + j"] memcpy_nth [OF d, of "cb_slot cb (nat ?s + j)"]
    by (auto split: if_splits)
  ultimately show ?thesis
    using cb_appendI [OF wf n memcpy_length [OF d] _ _ e'] d by (simp add: Let_def)
qed

lemma cb_write_two_steps:
  assumes wf: "cb_wf cb"
    and n: "0 \<le> n" "n \<le> cb_capacity cb - cb_size cb" "n \<le> int (length xs)"
    and over: "cb_capacity cb - cb_end_index cb < n"
  defines "s1 \<equiv> cb_capacity cb - cb_end_index cb"
  shows "\<exists>d1 d2. memcpy (cb_data cb) (cb_end_index cb) xs 0 s1 = Some d1 \<and>
           memcpy d1 0 xs s1 (n - s1) = Some d2 \<and>
           (let cb' = cb\<lparr>cb_end_index := n - s1, cb_size := cb_size cb + n, cb_data := d2\<rparr>
            in cb_wf cb' \<and> cb_contents cb' = cb_contents cb @ take (nat n) xs)"
proof -
  note b = cb_wf_bounds [OF wf]
  let ?e = "cb_end_index cb" and ?c = "cb_capacity cb" and ?s = "cb_size cb" and ?b = "cb_beg_index cb"
  note slot = cb_slot_wrap [OF wf] cb_slot_less [OF wf]
  obtain d1 where d1: "memcpy (cb_data cb) ?e xs 0 s1 = Some d1"
    using over n b by (simp add: memcpy_def s1_def)
  note l1 = memcpy_length [OF d1]
  obtain d2 where d2: "memcpy d1 0 xs s1 (n - s1) = Some d2"
    using over n b l1 by (simp add: memcpy_def s1_def)
  have e': "n - s1 = (?b + ?s + n) mod ?c"
    using over n b mod_wrap [of "?b + ?s + n" ?c] by (auto simp: s1_def split: if_splits)
  have "d2 ! cb_slot cb i = cb_data cb ! cb_slot cb i" if "i < nat ?s" for i
    using that over n b slot [of i] l1 memcpy_nth [OF d1, of "cb_slot cb i"]
      memcpy_nth [OF d2, of "cb_slot cb i"]
    by (auto simp: s1_def split: if_splits)
  moreover have "d2 ! cb_slot cb (nat ?s + j) = xs ! j" if "j < nat n" for j
    using that over n b slot [of "nat ?s + j"] l1 memcpy_nth [OF d1, of "cb_slot cb (nat ?s + j)"]
      memcpy_nth [OF d2, of "cb_slot cb (nat ?s + j)"]
    by (auto simp: s1_def split: if_splits)
  ultimately show ?thesis
    using cb_appendI [OF wf n _ _ _ e', of d2] l1 memcpy_length [OF d2] d1 d2 by (simp add: Let_def)
qed

lemma circular_buffer_write_correct:
  assumes wf: "cb_wf cb" and bytes: "0 \<le> bytes" "bytes \<le> int (length xs)"
  defines "n \<equiv> min bytes (cb_capacity cb - cb_size cb)"
  shows "\<exists>cb'. circular_buffer_write cb xs bytes = Some (cb', n) \<and> cb_wf cb' \<and>
               cb_contents cb' = cb_contents cb @ take (nat n) xs \<and>
               cb_capacity cb' = cb_capacity cb"
proof -
  note b = cb_wf_bounds [OF wf]
  have n: "0 \<le> n" "n \<le> cb_capacity cb - cb_size cb" "n \<le> int (length xs)"
    and MIN_n: "C_MIN bytes (cb_capacity cb - cb_size cb) = n"
    using b bytes by (auto simp: n_def C_MIN_def)
  consider "bytes = 0" | "bytes \<noteq> 0" "n \<le> cb_capacity cb - cb_end_index cb"
    | "bytes \<noteq> 0" "cb_capacity cb - cb_end_index cb < n"
    by linarith
  then show ?thesis
  proof cases
    case 1
    then show ?thesis using wf b by (simp add: circular_buffer_write_def n_def)
  next
    case 2
    then show ?thesis
      using cb_write_one_step [OF wf n 2(2)] by (auto simp: circular_buffer_write_def Let_def MIN_n)
  next
    case 3
    then show ?thesis
      using cb_write_two_steps [OF wf n 3(2)] by (auto simp: circular_buffer_write_def Let_def MIN_n)
  qed
qed

text \<open>Taking bytes off the front moves the first slot; the slots of the rest are unchanged.\<close>

lemma circular_buffer_pop_front_correct:
  assumes wf: "cb_wf cb" and k: "0 \<le> k"
  shows "cb_wf (circular_buffer_pop_front cb k)"
    and "cb_contents (circular_buffer_pop_front cb k) = drop (nat k) (cb_contents cb)"
    and "cb_capacity (circular_buffer_pop_front cb k) = cb_capacity cb"
proof -
  note b = cb_wf_bounds [OF wf]
  let ?c = "cb_capacity cb" and ?s = "cb_size cb" and ?b = "cb_beg_index cb"
  define n where "n = min k ?s"
  have n: "0 \<le> n" "n \<le> ?s" "C_MIN k ?s = n" using b k by (auto simp: n_def C_MIN_def)
  have pop: "circular_buffer_pop_front cb k =
               cb\<lparr>cb_beg_index := (?b + n) mod ?c, cb_size := ?s - n\<rparr>" (is "_ = ?cb")
    using n b mod_wrap [of "?b + n" ?c] by (auto simp: circular_buffer_pop_front_def Let_def)
  have slot: "cb_slot ?cb i = cb_slot cb (nat n + i)" for i
    using n by (simp add: cb_slot_def mod_add_left_eq add.assoc)
  have "((?b + n) mod ?c + (?s - n)) mod ?c = (?b + ?s) mod ?c"
    by (simp add: mod_add_left_eq)
  then show "cb_wf (circular_buffer_pop_front cb k)"
    using wf n b by (simp add: pop cb_wf_def)
  show "cb_contents (circular_buffer_pop_front cb k) = drop (nat k) (cb_contents cb)"
    unfolding pop
  proof (rule cb_contents_eqI)
    show "nat (cb_size ?cb) = length (drop (nat k) (cb_contents cb))"
      using k b by (auto simp: n_def)
    fix i assume "i < length (drop (nat k) (cb_contents cb))"
    then have i: "i < nat ?s - nat k" by simp
    then have "nat n = nat k" by (auto simp: n_def)
    moreover have "nat k \<le> length (cb_contents cb)" "nat k + i < nat ?s" using i by auto
    ultimately show "cb_data ?cb ! cb_slot ?cb i = drop (nat k) (cb_contents cb) ! i"
      unfolding slot by (simp add: nth_drop cb_contents_nth)
  qed
  show "cb_capacity (circular_buffer_pop_front cb k) = ?c" by (simp add: pop)
qed

lemma cb_read_one_step:
  assumes wf: "cb_wf cb" and n: "0 \<le> n" "n \<le> cb_size cb"
    and off: "0 \<le> off" "off + n \<le> int (length out)"
    and fits: "n \<le> cb_capacity cb - cb_beg_index cb"
  shows "memcpy out off (cb_data cb) (cb_beg_index cb) n =
           Some (overwrite out (nat off) (take (nat n) (cb_contents cb)))"
proof -
  note b = cb_wf_bounds [OF wf]
  have "take (nat n) (drop (nat (cb_beg_index cb)) (cb_data cb)) = take (nat n) (cb_contents cb)"
  proof (rule nth_equalityI)
    show "length (take (nat n) (drop (nat (cb_beg_index cb)) (cb_data cb))) =
          length (take (nat n) (cb_contents cb))"
      using n b fits by auto
    fix i assume "i < length (take (nat n) (drop (nat (cb_beg_index cb)) (cb_data cb)))"
    then show "take (nat n) (drop (nat (cb_beg_index cb)) (cb_data cb)) ! i =
               take (nat n) (cb_contents cb) ! i"
      using n b fits cb_slot_wrap [OF wf, of i]
      by (auto simp: cb_contents_nth nat_add_distrib)
  qed
  then show ?thesis using n b off fits by (simp add: memcpy_overwrite)
qed

lemma cb_read_two_steps:
  assumes wf: "cb_wf cb" and n: "0 \<le> n" "n \<le> cb_size cb"
    and off: "0 \<le> off" "off + n \<le> int (length out)"
    and over: "cb_capacity cb - cb_beg_index cb < n"
  defines "s1 \<equiv> cb_capacity cb - cb_beg_index cb"
  shows "\<exists>out1. memcpy out off (cb_data cb) (cb_beg_index cb) s1 = Some out1 \<and>
           memcpy out1 (off + s1) (cb_data cb) 0 (n - s1) =
             Some (overwrite out (nat off) (take (nat n) (cb_contents cb)))"
proof -
  note b = cb_wf_bounds [OF wf]
  obtain out1 where o1: "memcpy out off (cb_data cb) (cb_beg_index cb) s1 = Some out1"
    using over n b off by (simp add: memcpy_def s1_def)
  note l1 = memcpy_length [OF o1]
  obtain out2 where o2: "memcpy out1 (off + s1) (cb_data cb) 0 (n - s1) = Some out2"
    using over n b off l1 by (simp add: memcpy_def s1_def)
  have "out2 = overwrite out (nat off) (take (nat n) (cb_contents cb))"
  proof (rule overwrite_eqI)
    show "length out2 = length out" using l1 memcpy_length [OF o2] by simp
    show "nat off + length (take (nat n) (cb_contents cb)) \<le> length out" using n off b by auto
    fix i assume i: "i < length out"
    let ?j = "i - nat off"
    have "nat off \<le> i \<Longrightarrow> i < nat off + nat n \<Longrightarrow>
            cb_contents cb ! ?j = cb_data cb ! cb_slot cb ?j"
      using n b by (intro cb_contents_nth) auto
    then show "out2 ! i = (if nat off \<le> i \<and> i < nat off + length (take (nat n) (cb_contents cb))
                           then take (nat n) (cb_contents cb) ! ?j else out ! i)"
      using i l1 over n b off memcpy_nth [OF o1, of i] memcpy_nth [OF o2, of i]
        cb_slot_wrap [OF wf, of ?j]
      by (auto simp: s1_def nat_le_iff algebra_simps split: if_splits)
  qed
  with o1 o2 show ?thesis by blast
qed

lemma circular_buffer_read_correct:
  assumes wf: "cb_wf cb" and bytes: "0 \<le> bytes"
  defines "n \<equiv> min bytes (cb_size cb)"
  assumes off: "0 \<le> off" "off + n \<le> int (length out)"
  shows "circular_buffer_read cb out off bytes =
           Some (circular_buffer_pop_front cb bytes,
                 overwrite out (nat off) (take (nat n) (cb_contents cb)), n)"
proof -
  note b = cb_wf_bounds [OF wf]
  have n: "0 \<le> n" "n \<le> cb_size cb" "C_MIN bytes (cb_size cb) = n"
    using b bytes by (auto simp: n_def C_MIN_def)
  consider "bytes = 0" | "bytes \<noteq> 0" "n \<le> cb_capacity cb - cb_beg_index cb"
    | "bytes \<noteq> 0" "cb_capacity cb - cb_beg_index cb < n"
    by linarith
  then show ?thesis
  proof cases
    case 1
    then show ?thesis
      using b by (simp add: circular_buffer_read_def circular_buffer_pop_front_def n_def C_MIN_def)
  next
    case 2
    then show ?thesis
      using cb_read_one_step [OF wf n(1,2) off 2(2)] n(3)
      by (simp add: circular_buffer_read_def circular_buffer_pop_front_def Let_def)
  next
    case 3
    then show ?thesis
      using cb_read_two_steps [OF wf n(1,2) off 3(2)] n(3)
      by (auto simp: circular_buffer_read_def circular_buffer_pop_front_def Let_def)
  qed
qed

lemma circular_buffer_get_correct:
  assumes wf: "cb_wf cb" and small: "2 * cb_capacity cb \<le> INT_MAX" and i: "0 \<le> i"
  shows "circular_buffer_get cb i =
           Some (if i < cb_size cb then Some (cb_contents cb ! nat i) else None)"
proof (cases "i < cb_size cb")
  case True
  note b = cb_wf_bounds [OF wf]
  have "int32_ok (i + cb_beg_index cb)"
    using True i b small by (simp add: int32_ok_def INT_MIN_def)
  moreover have "0 \<le> (i + cb_beg_index cb) mod cb_capacity cb"
    "(i + cb_beg_index cb) mod cb_capacity cb < int (length (cb_data cb))"
    using b by auto
  moreover have "cb_contents cb ! nat i = cb_data cb ! nat ((i + cb_beg_index cb) mod cb_capacity cb)"
    using True i by (simp add: cb_contents_nth cb_slot_def add.commute)
  ultimately show ?thesis
    using True i b by (simp add: circular_buffer_get_def load_def)
next
  case False
  then show ?thesis by (simp add: circular_buffer_get_def)
qed

section \<open>The contract of a byte queue\<close>

text \<open>
  A run of writes and reads against a queue: the bytes the writes accepted, in order, and
  the bytes the reads delivered, in order. A read of \<open>n\<close> bytes gets a block of \<open>n\<close> bytes
  to copy into.
\<close>

datatype 'b fifo_op = FWrite "'b list" | FRead nat

fun fifo_run ::
  "('q \<Rightarrow> 'b list \<Rightarrow> int \<Rightarrow> ('q \<times> int) option) \<Rightarrow>
   ('q \<Rightarrow> 'b list \<Rightarrow> int \<Rightarrow> int \<Rightarrow> ('q \<times> 'b list \<times> int) option) \<Rightarrow>
   'b \<Rightarrow> 'q \<Rightarrow> 'b fifo_op list \<Rightarrow> ('q \<times> 'b list \<times> 'b list) option" where
  "fifo_run wr rd z q [] = Some (q, [], [])"
| "fifo_run wr rd z q (FWrite xs # ops) = do {
     (q', m) \<leftarrow> wr q xs (int (length xs));
     (q'', ins, outs) \<leftarrow> fifo_run wr rd z q' ops;
     Some (q'', take (nat m) xs @ ins, outs)
   }"
| "fifo_run wr rd z q (FRead n # ops) = do {
     (q', blk, m) \<leftarrow> rd q (replicate n z) 0 (int n);
     (q'', ins, outs) \<leftarrow> fifo_run wr rd z q' ops;
     Some (q'', ins, take (nat m) blk @ outs)
   }"

locale byte_fifo =
  fixes wr :: "'q \<Rightarrow> 'b list \<Rightarrow> int \<Rightarrow> ('q \<times> int) option"
    and rd :: "'q \<Rightarrow> 'b list \<Rightarrow> int \<Rightarrow> int \<Rightarrow> ('q \<times> 'b list \<times> int) option"
    and peek :: "'q \<Rightarrow> int \<Rightarrow> 'b option option"
    and pop :: "'q \<Rightarrow> int \<Rightarrow> 'q"
    and sz :: "'q \<Rightarrow> int"
    and cap :: "'q \<Rightarrow> int"
    and contents :: "'q \<Rightarrow> 'b list"
    and ok :: "'q \<Rightarrow> bool"
  assumes sz_law: "ok q \<Longrightarrow> sz q = int (length (contents q))"
    and cap_law: "ok q \<Longrightarrow> int (length (contents q)) \<le> cap q"
    and wr_law: "ok q \<Longrightarrow> 0 \<le> n \<Longrightarrow> n \<le> int (length xs) \<Longrightarrow>
      \<exists>q'. wr q xs n = Some (q', min n (cap q - sz q)) \<and> ok q' \<and> cap q' = cap q \<and>
           contents q' = contents q @ take (nat (min n (cap q - sz q))) xs"
    and rd_law: "ok q \<Longrightarrow> 0 \<le> n \<Longrightarrow> 0 \<le> off \<Longrightarrow> off + min n (sz q) \<le> int (length out) \<Longrightarrow>
      rd q out off n =
        Some (pop q n, overwrite out (nat off) (take (nat (min n (sz q))) (contents q)), min n (sz q))"
    and peek_law: "ok q \<Longrightarrow> 0 \<le> i \<Longrightarrow>
      peek q i = Some (if i < sz q then Some (contents q ! nat i) else None)"
    and pop_law: "ok q \<Longrightarrow> 0 \<le> n \<Longrightarrow>
      ok (pop q n) \<and> cap (pop q n) = cap q \<and> contents (pop q n) = drop (nat n) (contents q)"
begin

lemma write_fits:
  assumes "ok q" and "n \<le> length buf" and "int (length (contents q)) + int n \<le> cap q"
  shows "\<exists>q'. wr q buf (int n) = Some (q', int n) \<and> ok q' \<and> cap q' = cap q \<and>
              contents q' = contents q @ take n buf"
  using wr_law [OF assms(1), of "int n" buf] assms by (simp add: sz_law min_def)

lemma write_overflow:
  assumes "ok q" and "cap q < int (length (contents q)) + int (length xs)"
  shows "\<exists>q' m. wr q xs (int (length xs)) = Some (q', m) \<and> m \<noteq> int (length xs) \<and> ok q' \<and>
              int (length (contents q')) = cap q"
  using wr_law [OF assms(1), of "int (length xs)" xs] cap_law [OF assms(1)] assms
  by (auto simp: sz_law min_def)

lemma peek_at: "ok q \<Longrightarrow> i < length (contents q) \<Longrightarrow> peek q (int i) = Some (Some (contents q ! i))"
  by (simp add: peek_law sz_law)

lemma read_all:
  assumes "ok q" and "n \<le> length (contents q)" and "off + n \<le> length out"
  shows "rd q out (int off) (int n) = Some (pop q (int n), overwrite out off (take n (contents q)), int n)"
  using rd_law [OF assms(1), of "int n" "int off" out] assms by (simp add: sz_law)

lemma pop_ok: "ok q \<Longrightarrow> ok (pop q (int n))"
  and pop_contents: "ok q \<Longrightarrow> contents (pop q (int n)) = drop n (contents q)"
  and pop_cap: "ok q \<Longrightarrow> cap (pop q (int n)) = cap q"
  using pop_law [of q "int n"] by auto

lemma run_stream:
  assumes "ok q"
  shows "\<exists>q' ins outs. fifo_run wr rd z q ops = Some (q', ins, outs) \<and> ok q' \<and> cap q' = cap q \<and>
           contents q @ ins = outs @ contents q'"
  using assms
proof (induction ops arbitrary: q)
  case Nil
  then show ?case by simp
next
  case (Cons opn ops)
  show ?case
  proof (cases opn)
    case (FWrite xs)
    obtain q1 m where 1: "wr q xs (int (length xs)) = Some (q1, m)" "ok q1" "cap q1 = cap q"
      "contents q1 = contents q @ take (nat m) xs"
      using wr_law [OF Cons.prems, of "int (length xs)" xs] by auto
    obtain q2 ins outs where 2: "fifo_run wr rd z q1 ops = Some (q2, ins, outs)" "ok q2"
      "cap q2 = cap q1" "contents q1 @ ins = outs @ contents q2"
      using Cons.IH [OF 1(2)] by blast
    from 1 2 FWrite show ?thesis by simp
  next
    case (FRead n)
    let ?m = "min n (length (contents q))"
    have 1: "rd q (replicate n z) 0 (int n) =
        Some (pop q (int n), overwrite (replicate n z) 0 (take ?m (contents q)), int ?m)"
      using rd_law [OF Cons.prems, of "int n" 0 "replicate n z"] Cons.prems
      by (simp add: sz_law flip: of_nat_min)
    have "take ?m (overwrite (replicate n z) 0 (take ?m (contents q))) @ drop n (contents q) = contents q"
      by (simp add: overwrite_def min_def)
    moreover obtain q2 ins outs where 2: "fifo_run wr rd z (pop q (int n)) ops = Some (q2, ins, outs)"
      "ok q2" "cap q2 = cap q" "drop n (contents q) @ ins = outs @ contents q2"
      using Cons.IH [OF pop_ok [OF Cons.prems, of n]] Cons.prems by (auto simp: pop_contents pop_cap)
    ultimately have "contents q @ ins =
        take ?m (overwrite (replicate n z) 0 (take ?m (contents q))) @ outs @ contents q2"
      by (metis append_assoc)
    with 1 2 FRead show ?thesis by simp
  qed
qed

end

text \<open>
  The ring buffer meets the contract as long as twice its capacity is an \<open>int\<close>, which
  \<open>circular_buffer_get\<close> needs for the sum of two indices.
\<close>

definition cb_ok :: "circular_buffer \<Rightarrow> bool" where
  "cb_ok cb \<longleftrightarrow> cb_wf cb \<and> 2 * cb_capacity cb \<le> INT_MAX"

lemma cb_size_contents: "cb_wf cb \<Longrightarrow> circular_buffer_size cb = int (length (cb_contents cb))"
  by (simp add: circular_buffer_size_def cb_wf_def)

interpretation cbq: byte_fifo circular_buffer_write circular_buffer_read circular_buffer_get
  circular_buffer_pop_front circular_buffer_size circular_buffer_capacity cb_contents cb_ok
proof
  fix q :: circular_buffer and n off i :: int and xs out :: "u8 list"
  assume ok: "cb_ok q"
  then have wf: "cb_wf q" by (simp add: cb_ok_def)
  note b = cb_wf_bounds [OF wf]
  show "circular_buffer_size q = int (length (cb_contents q))"
    using wf by (rule cb_size_contents)
  show "int (length (cb_contents q)) \<le> circular_buffer_capacity q"
    using b by (simp add: circular_buffer_capacity_def)
  show "\<exists>q'. circular_buffer_write q xs n =
           Some (q', min n (circular_buffer_capacity q - circular_buffer_size q)) \<and>
         cb_ok q' \<and> circular_buffer_capacity q' = circular_buffer_capacity q \<and>
         cb_contents q' = cb_contents q @
           take (nat (min n (circular_buffer_capacity q - circular_buffer_size q))) xs"
    if "0 \<le> n" "n \<le> int (length xs)"
    using circular_buffer_write_correct [OF wf that] ok
    by (auto simp: cb_ok_def circular_buffer_capacity_def circular_buffer_size_def)
  show "circular_buffer_read q out off n =
          Some (circular_buffer_pop_front q n,
            overwrite out (nat off) (take (nat (min n (circular_buffer_size q))) (cb_contents q)),
            min n (circular_buffer_size q))"
    if "0 \<le> n" "0 \<le> off" "off + min n (circular_buffer_size q) \<le> int (length out)"
    using circular_buffer_read_correct [OF wf that(1,2)] that(3)
    by (simp add: circular_buffer_size_def)
  show "circular_buffer_get q i =
          Some (if i < circular_buffer_size q then Some (cb_contents q ! nat i) else None)"
    if "0 \<le> i"
    using circular_buffer_get_correct [OF wf _ that] ok
    by (simp add: cb_ok_def circular_buffer_size_def)
  show "cb_ok (circular_buffer_pop_front q n) \<and>
        circular_buffer_capacity (circular_buffer_pop_front q n) = circular_buffer_capacity q \<and>
        cb_contents (circular_buffer_pop_front q n) = drop (nat n) (cb_contents q)"
    if "0 \<le> n"
    using circular_buffer_pop_front_correct [OF wf that] ok
    by (simp add: cb_ok_def circular_buffer_capacity_def)
qed

section \<open>Property\<close>

text \<open>
  C1. First in, first out: over any interleaving of writes and reads on a well-formed
  buffer no operation faults, and the bytes the reads delivered followed by the bytes still
  in the buffer are the bytes that were in it at the start followed by the bytes the writes
  accepted. Nothing is lost, repeated or reordered when the indices wrap around.
\<close>

theorem circular_buffer_fifo:
  assumes "cb_ok cb"
  shows "\<exists>cb' ins outs.
           fifo_run circular_buffer_write circular_buffer_read 0 cb ops = Some (cb', ins, outs) \<and>
           cb_ok cb' \<and> circular_buffer_capacity cb' = circular_buffer_capacity cb \<and>
           cb_contents cb @ ins = outs @ cb_contents cb'"
  using assms by (rule cbq.run_stream)

theorem circular_buffer_fifo_witness:
  "\<exists>cb' ins outs.
     fifo_run circular_buffer_write circular_buffer_read 0
       \<lparr>cb_beg_index = 2, cb_end_index = 0, cb_size = 1, cb_capacity = 3, cb_data = [7, 8, 9]\<rparr>
       [FWrite [1, 2, 3], FRead 2, FWrite [4], FRead 2] = Some (cb', ins, outs) \<and>
     ins = [1, 2, 4] \<and> outs = [9, 1, 2, 4] \<and> [9] @ ins = outs @ cb_contents cb'"
proof -
  let ?cb = "\<lparr>cb_beg_index = 2, cb_end_index = 0, cb_size = 1, cb_capacity = 3, cb_data = [7, 8, 9 :: u8]\<rparr>"
  let ?ops = "[FWrite [1, 2, 3], FRead 2, FWrite [4], FRead 2] :: u8 fifo_op list"
  have "cb_ok ?cb" by (simp add: cb_ok_def cb_wf_def INT_MAX_def)
  from circular_buffer_fifo [OF this, of ?ops]
  obtain cb' ins outs where run: "fifo_run circular_buffer_write circular_buffer_read 0 ?cb ?ops =
      Some (cb', ins, outs)" "cb_contents ?cb @ ins = outs @ cb_contents cb'"
    by blast
  moreover from run(1) have "ins = [1, 2, 4]" "outs = [9, 1, 2, 4]"
    by (auto simp: circular_buffer_write_def circular_buffer_read_def C_MIN_def memcpy_def Let_def
        numeral_2_eq_2)
  moreover have "cb_contents ?cb = [9]" by (simp add: cb_contents_def cb_slot_def)
  ultimately show ?thesis by auto
qed

end
