(* ===== verification/Udp_Piece.thy ===== *)
theory Udp_Piece
  imports Circular_Buffer
begin

text \<open>
  Cutting a message into pieces that fit one UDP datagram and putting it together again:
  \<open>src/udp_piece/udp-piece.c\<close>, with the loops of its demo client and server.

  \<open>udp_piece_merge\<close> works on one datagram at a time, \<open>udp_piece_merge_ex\<close> on the stream of
  bytes kept in the ring buffer. Both share the bookkeeping of a group of pieces, written
  here once as \<open>group_start\<close>, \<open>group_switch\<close> and \<open>group_account\<close>.

  An operation returns \<^const>\<open>None\<close> when it accesses memory outside an object. A returned
  state and an \<open>int\<close> are the structure after the call and the C return value.
\<close>

unbundle bit_operations_syntax

section \<open>The frame header\<close>

definition HEAD_POS_SYNC_WORD :: int where "HEAD_POS_SYNC_WORD = 0"
definition HEAD_POS_TOTAL_SIZE :: int where "HEAD_POS_TOTAL_SIZE = 2"
definition HEAD_POS_TOTAL_PIECES :: int where "HEAD_POS_TOTAL_PIECES = 4"
definition HEAD_POS_P_INDEX :: int where "HEAD_POS_P_INDEX = 6"
definition HEAD_POS_P_LENGTH :: int where "HEAD_POS_P_LENGTH = 8"
definition HEAD_SIZE :: int where "HEAD_SIZE = 12"
definition PIECE_FIX_SIZE :: int where "PIECE_FIX_SIZE = 576 - 8 - 20 - 12"

record udp_piece =
  recv_pieces :: int
  total_size :: int
  total_pieces :: int
  left :: int
  piece_size :: int
  recv_len :: int
  recv_buf :: "u8 list option"
  send_ptr :: "u8 list option"
  piece_buf :: "u8 list"
  ring :: "circular_buffer option"

text \<open>The assignment of an \<open>int\<close> to a byte keeps its low eight bits.\<close>

definition byte_hi :: "int \<Rightarrow> u8" where
  "byte_hi x = word_of_int (drop_bit 8 x)"

definition byte_lo :: "int \<Rightarrow> u8" where
  "byte_lo x = word_of_int (x AND 0xff)"

definition be16 :: "u8 \<Rightarrow> u8 \<Rightarrow> nat" where
  "be16 hi lo = unat hi * 2 ^ 8 + unat lo"

section \<open>Life cycle\<close>

definition udp_piece_init :: "bool \<Rightarrow> bool \<Rightarrow> allocator \<Rightarrow> int \<Rightarrow> udp_piece option" where
  "udp_piece_init ok ring_ok alloc buf_size =
     (if \<not> ok then None
      else (case circular_buffer_init ring_ok alloc buf_size of
              None \<Rightarrow> None
            | Some cb \<Rightarrow>
                Some \<lparr>recv_pieces = 0, total_size = 0, total_pieces = 0, left = 0, piece_size = 0,
                      recv_len = 0, recv_buf = None, send_ptr = None,
                      piece_buf = replicate (nat (PIECE_FIX_SIZE + HEAD_SIZE + 1)) 0,
                      ring = Some cb\<rparr>))"

definition udp_piece_deinit :: "udp_piece option \<Rightarrow> udp_piece option" where
  "udp_piece_deinit up =
     (case up of
        None \<Rightarrow> None
      | Some u \<Rightarrow>
          Some (u\<lparr>recv_buf := None, recv_pieces := 0, total_size := 0, total_pieces := 0,
                  left := 0, piece_size := 0, recv_len := 0,
                  ring := circular_buffer_deinit (ring u)\<rparr>))"

definition udp_piece_reset :: "udp_piece option \<Rightarrow> udp_piece option" where
  "udp_piece_reset up =
     (case up of
        None \<Rightarrow> None
      | Some u \<Rightarrow>
          Some (u\<lparr>recv_buf := None, send_ptr := None, recv_pieces := 0, total_size := 0,
                  total_pieces := 0, left := 0, piece_size := 0, recv_len := 0,
                  ring := circular_buffer_reset (ring u)\<rparr>))"

section \<open>Cutting\<close>

definition udp_piece_cut :: "udp_piece option \<Rightarrow> u8 list \<Rightarrow> int \<Rightarrow> udp_piece option \<times> int" where
  "udp_piece_cut up buf sz =
     (case up of
        None \<Rightarrow> (None, 0)
      | Some u \<Rightarrow>
          if sz < 0 then (Some u, 0)
          else
            let l = sz mod PIECE_FIX_SIZE;
                n = (if l > 0 then sz div PIECE_FIX_SIZE + 1 else sz div PIECE_FIX_SIZE)
            in (Some (u\<lparr>send_ptr := Some buf, total_size := sz, left := l, total_pieces := n\<rparr>), n))"

text \<open>
  The size of the piece, its header, then the user data. \<open>got\<close> says whether the caller
  passed a result pointer; the guard \<open>!got_piece_size < 0\<close> of the code compares a truth
  value with 0 and never holds, so a null pointer is dereferenced.
\<close>

definition piece_size_of :: "udp_piece \<Rightarrow> int \<Rightarrow> int" where
  "piece_size_of u index =
     (if total_pieces u - 1 = index \<and> left u > 0 then left u else PIECE_FIX_SIZE)"

definition piece_header :: "udp_piece \<Rightarrow> int \<Rightarrow> int \<Rightarrow> u8 list" where
  "piece_header u index psize =
     (replicate (nat (PIECE_FIX_SIZE + HEAD_SIZE + 1)) 0)
       [nat HEAD_POS_SYNC_WORD := 0xAF,
        nat HEAD_POS_SYNC_WORD + 1 := 0xAE,
        nat HEAD_POS_TOTAL_SIZE := byte_hi (total_size u),
        nat HEAD_POS_TOTAL_SIZE + 1 := byte_lo (total_size u),
        nat HEAD_POS_TOTAL_PIECES := byte_hi (total_pieces u),
        nat HEAD_POS_TOTAL_PIECES + 1 := byte_lo (total_pieces u),
        nat HEAD_POS_P_INDEX := byte_hi index,
        nat HEAD_POS_P_INDEX + 1 := byte_lo index,
        nat HEAD_POS_P_LENGTH := byte_hi psize,
        nat HEAD_POS_P_LENGTH + 1 := byte_lo psize]"

definition udp_piece_get :: "udp_piece option \<Rightarrow> int \<Rightarrow> bool \<Rightarrow> (udp_piece \<times> int) option option" where
  "udp_piece_get up index got =
     (case up of
        None \<Rightarrow> Some None
      | Some u \<Rightarrow>
          if \<not> got then None
          else do {
            let psize = piece_size_of u index;
            src \<leftarrow> send_ptr u;
            pb \<leftarrow> memcpy (piece_header u index psize) HEAD_SIZE src (PIECE_FIX_SIZE * index) psize;
            Some (Some (u\<lparr>piece_buf := pb\<rparr>, psize + HEAD_SIZE))
          })"

section \<open>The bookkeeping of a group of pieces\<close>

text \<open>
  \<open>group_alloc\<close> starts a group: the counters and a receive buffer of one byte more than the
  data. The Boolean is false when the allocation failed.
\<close>

definition group_alloc :: "allocator \<Rightarrow> int \<Rightarrow> int \<Rightarrow> int \<Rightarrow> udp_piece \<Rightarrow> udp_piece \<times> bool" where
  "group_alloc alloc ts tp rp u =
     (let b = alloc (ts + 1)
      in (u\<lparr>total_size := ts, total_pieces := tp, recv_len := 0, recv_pieces := rp, recv_buf := b\<rparr>,
          b \<noteq> None))"

text \<open>First piece after a reset.\<close>

definition group_start :: "allocator \<Rightarrow> int \<Rightarrow> int \<Rightarrow> udp_piece \<Rightarrow> udp_piece \<times> bool" where
  "group_start alloc ts tp u = (if total_size u = 0 then group_alloc alloc ts tp 0 u else (u, True))"

text \<open>One more piece; a piece of another group discards the current one.\<close>

definition group_switch :: "allocator \<Rightarrow> int \<Rightarrow> int \<Rightarrow> udp_piece \<Rightarrow> udp_piece \<times> bool" where
  "group_switch alloc ts tp u =
     (if ts \<noteq> total_size u \<or> tp \<noteq> total_pieces u
      then group_alloc alloc ts tp 1 u
      else (u\<lparr>recv_pieces := recv_pieces u + 1\<rparr>, True))"

text \<open>
  After the data of a piece is stored. \<open>bad\<close> is what a complete group with a wrong length
  makes of the return value: \<open>-1\<close> in \<open>udp_piece_merge\<close>; in \<open>udp_piece_merge_ex\<close> the
  statement \<open>get_all_pieces - 1;\<close> has no effect.
\<close>

definition group_account :: "(int \<Rightarrow> int) \<Rightarrow> int \<Rightarrow> udp_piece \<Rightarrow> int \<Rightarrow> udp_piece \<times> int" where
  "group_account bad data_len u got =
     (let u1 = u\<lparr>recv_len := recv_len u + data_len\<rparr>
      in if recv_pieces u1 = total_pieces u1
         then (u1\<lparr>total_pieces := 0, recv_pieces := 0\<rparr>,
               if recv_len u1 = total_size u1 then 1 else bad got)
         else (u1, got))"

section \<open>Merging one datagram\<close>

text \<open>
  \<open>buf\<close> is the block the datagram was received into; \<open>p\<close> is the offset \<open>piece_buf\<close> points
  to. The scan for the sync word runs at most \<open>size\<close> times and reads \<open>piece_buf[1]\<close> only when
  \<open>piece_buf[0]\<close> matches.
\<close>

fun merge_scan :: "u8 list \<Rightarrow> nat \<Rightarrow> int \<Rightarrow> int \<Rightarrow> (int \<times> int) option" where
  "merge_scan buf 0 p temp_size = Some (p, temp_size)"
| "merge_scan buf (Suc n) p temp_size = do {
     b0 \<leftarrow> load buf p;
     hit \<leftarrow> (if b0 = 0xAF then do { b1 \<leftarrow> load buf (p + 1); Some (b1 = 0xAE) } else Some False);
     if hit then Some (p, temp_size) else merge_scan buf n (p + 1) (temp_size - 1)
   }"

definition load16 :: "u8 list \<Rightarrow> int \<Rightarrow> nat option" where
  "load16 buf p = do { hi \<leftarrow> load buf p; lo \<leftarrow> load buf (p + 1); Some (be16 hi lo) }"

text \<open>
  One piece at offset \<open>p\<close>, complete in the buffer: \<open>Inl\<close> is the early return of \<open>-1\<close> on a
  failed allocation, \<open>Inr\<close> the state and the pending return value.
\<close>

definition merge_piece ::
  "allocator \<Rightarrow> udp_piece \<Rightarrow> u8 list \<Rightarrow> int \<Rightarrow> nat \<Rightarrow> int \<Rightarrow> (udp_piece + udp_piece \<times> int) option" where
  "merge_piece alloc u buf p data_len got = do {
     p_index \<leftarrow> load16 buf (p + HEAD_POS_P_INDEX);
     ts \<leftarrow> load16 buf (p + HEAD_POS_TOTAL_SIZE);
     tp \<leftarrow> load16 buf (p + HEAD_POS_TOTAL_PIECES);
     let (u1, ok1) = group_start alloc (int ts) (int tp) u;
     if \<not> ok1 then Some (Inl u1)
     else do {
       let (u2, ok2) = group_switch alloc (int ts) (int tp) u1;
       if \<not> ok2 then Some (Inl u2)
       else do {
         rb \<leftarrow> recv_buf u2;
         rb' \<leftarrow> memcpy rb (PIECE_FIX_SIZE * int p_index) buf (p + HEAD_SIZE) (int data_len);
         Some (Inr (group_account (\<lambda>_. -1) (int data_len) (u2\<lparr>recv_buf := Some rb'\<rparr>) got))
       }
     }
   }"

function merge_loop ::
  "allocator \<Rightarrow> udp_piece \<Rightarrow> u8 list \<Rightarrow> int \<Rightarrow> int \<Rightarrow> int \<Rightarrow> (udp_piece \<times> int) option" where
  "merge_loop alloc u buf p temp_size got =
     (if temp_size > HEAD_SIZE
      then (case load16 buf (p + HEAD_POS_P_LENGTH) of
              None \<Rightarrow> None
            | Some data_len \<Rightarrow>
                if temp_size \<ge> HEAD_SIZE + int data_len
                then (case merge_piece alloc u buf p data_len got of
                        None \<Rightarrow> None
                      | Some (Inl u') \<Rightarrow> Some (u', -1)
                      | Some (Inr (u', got')) \<Rightarrow>
                          merge_loop alloc u' buf (p + HEAD_SIZE + int data_len)
                            (temp_size - HEAD_SIZE - int data_len) got')
                else Some (u, got))
      else Some (u, got))"
  by pat_completeness auto
termination
  by (relation "measure (\<lambda>(alloc, u, buf, p, temp_size, got). nat temp_size)")
    (auto simp: HEAD_SIZE_def)

definition udp_piece_merge :: "allocator \<Rightarrow> udp_piece \<Rightarrow> u8 list \<Rightarrow> int \<Rightarrow> (udp_piece \<times> int) option" where
  "udp_piece_merge alloc u buf sz = do {
     (p, temp_size) \<leftarrow> merge_scan buf (nat sz) 0 sz;
     merge_loop alloc u buf p temp_size 0
   }"

section \<open>Merging through the ring buffer\<close>

text \<open>
  \<open>circular_buffer_get(cb, i, &value)\<close>: the variable keeps its old value when the index is
  out of range.
\<close>

definition ring_get :: "circular_buffer \<Rightarrow> int \<Rightarrow> u8 \<Rightarrow> u8 option" where
  "ring_get cb i old = do { r \<leftarrow> circular_buffer_get cb i; Some (case r of None \<Rightarrow> old | Some v \<Rightarrow> v) }"

definition ring_get16 :: "circular_buffer \<Rightarrow> int \<Rightarrow> u8 \<times> u8 \<Rightarrow> (u8 \<times> u8) option" where
  "ring_get16 cb i vs = do {
     v0 \<leftarrow> ring_get cb i (fst vs);
     v1 \<leftarrow> ring_get cb (i + 1) (snd vs);
     Some (v0, v1)
   }"

lemma pop_front_size: "0 \<le> k \<Longrightarrow> k \<le> cb_size cb \<Longrightarrow> cb_size (circular_buffer_pop_front cb k) = cb_size cb - k"
  by (auto simp: circular_buffer_pop_front_def C_MIN_def Let_def)

function ring_sync :: "circular_buffer \<Rightarrow> u8 \<times> u8 \<Rightarrow> (circular_buffer \<times> (u8 \<times> u8)) option" where
  "ring_sync cb vs =
     (if circular_buffer_size cb \<ge> 2
      then (case ring_get16 cb 0 vs of
              None \<Rightarrow> None
            | Some (v0, v1) \<Rightarrow>
                if v0 = 0xAF \<and> v1 = 0xAE then Some (cb, (v0, v1))
                else ring_sync (circular_buffer_pop_front cb 1) (v0, v1))
      else Some (cb, vs))"
  by pat_completeness auto
termination
  by (relation "measure (\<lambda>(cb, vs). nat (cb_size cb))")
    (auto simp: circular_buffer_size_def pop_front_size)

text \<open>
  One complete piece at the front of the ring; the fault, the early return and the result
  as for \<open>merge_piece\<close>.
\<close>

definition merge_piece_ex ::
  "allocator \<Rightarrow> udp_piece \<Rightarrow> circular_buffer \<Rightarrow> u8 \<times> u8 \<Rightarrow> nat \<Rightarrow> int \<Rightarrow>
   ((udp_piece \<times> circular_buffer) + (udp_piece \<times> circular_buffer \<times> (u8 \<times> u8) \<times> int)) option" where
  "merge_piece_ex alloc u cb vs data_len got = do {
     vi \<leftarrow> ring_get16 cb HEAD_POS_P_INDEX vs;
     let p_index = be16 (fst vi) (snd vi);
     vs1 \<leftarrow> ring_get16 cb HEAD_POS_TOTAL_SIZE vi;
     let ts = int (be16 (fst vs1) (snd vs1));
     vp1 \<leftarrow> ring_get16 cb HEAD_POS_TOTAL_PIECES vs1;
     let tp = int (be16 (fst vp1) (snd vp1));
     let (u1, ok1) = group_start alloc ts tp u;
     if \<not> ok1 then Some (Inl (u1, cb))
     else do {
       let (u2, ok2) = group_switch alloc ts tp u1;
       if \<not> ok2 then Some (Inl (u2, cb))
       else do {
         let cb1 = circular_buffer_pop_front cb HEAD_SIZE;
         rb \<leftarrow> recv_buf u2;
         (cb2, rb', bytes_to_read) \<leftarrow>
           circular_buffer_read cb1 rb (PIECE_FIX_SIZE * int p_index) (int data_len);
         let u3 = u2\<lparr>recv_buf := Some rb'\<rparr>;
         if bytes_to_read \<noteq> int data_len then Some (Inl (u3, cb2))
         else do {
           let (u4, got') = group_account (\<lambda>g. g) (int data_len) u3 got;
           Some (Inr (u4, cb2, vp1, got'))
         }
       }
     }
   }"

lemma circular_buffer_read_size:
  "circular_buffer_read cb out off n = Some (cb', out', m) \<Longrightarrow> 0 \<le> n \<Longrightarrow> 0 \<le> cb_size cb \<Longrightarrow>
   cb_size cb' \<le> cb_size cb"
  by (auto simp: circular_buffer_read_def C_MIN_def Let_def bind_eq_Some_conv split: if_splits)

lemma merge_piece_ex_size:
  assumes "merge_piece_ex alloc u cb vs data_len got = Some (Inr (u', cb', vs', got'))"
    and "cb_size cb > HEAD_SIZE"
  shows "cb_size cb' \<le> cb_size cb - HEAD_SIZE"
proof -
  obtain out off out' m where
    "circular_buffer_read (circular_buffer_pop_front cb HEAD_SIZE) out off (int data_len) = Some (cb', out', m)"
    using assms(1)
    by (auto simp: merge_piece_ex_def bind_eq_Some_conv Let_def split_def split: if_splits)
  from circular_buffer_read_size [OF this] show ?thesis
    using assms(2) by (simp add: pop_front_size HEAD_SIZE_def)
qed

function merge_loop_ex ::
  "allocator \<Rightarrow> udp_piece \<Rightarrow> circular_buffer \<Rightarrow> u8 \<times> u8 \<Rightarrow> int \<Rightarrow> (udp_piece \<times> circular_buffer \<times> int) option" where
  "merge_loop_ex alloc u cb vs got =
     (if circular_buffer_size cb > HEAD_SIZE
      then (case ring_get16 cb HEAD_POS_P_LENGTH vs of
              None \<Rightarrow> None
            | Some vl \<Rightarrow>
                let data_len = be16 (fst vl) (snd vl) in
                if circular_buffer_size cb \<ge> HEAD_SIZE + int data_len
                then (case merge_piece_ex alloc u cb vl data_len got of
                        None \<Rightarrow> None
                      | Some (Inl (u', cb')) \<Rightarrow> Some (u', cb', -1)
                      | Some (Inr (u', cb', vs', got')) \<Rightarrow> merge_loop_ex alloc u' cb' vs' got')
                else Some (u, cb, got))
      else Some (u, cb, got))"
  by pat_completeness auto
termination
proof (relation "measure (\<lambda>(alloc, u, cb, vs, got). nat (cb_size cb))", goal_cases)
  case 1
  show ?case by simp
next
  case (2 alloc u cb vs got vl data_len)
  then show ?case
    by (auto simp: circular_buffer_size_def HEAD_SIZE_def dest!: merge_piece_ex_size)
qed

definition udp_piece_merge_ex ::
  "allocator \<Rightarrow> udp_piece \<Rightarrow> u8 list \<Rightarrow> int \<Rightarrow> (udp_piece \<times> int) option" where
  "udp_piece_merge_ex alloc u buf sz = do {
     cb \<leftarrow> ring u;
     (cb1, bytes_to_write) \<leftarrow> circular_buffer_write cb buf sz;
     if bytes_to_write \<noteq> sz then Some (u\<lparr>ring := Some cb1\<rparr>, -1)
     else do {
       (cb2, vs) \<leftarrow> ring_sync cb1 (0, 0);
       (u', cb3, got) \<leftarrow> merge_loop_ex alloc u cb2 vs 0;
       Some (u'\<lparr>ring := Some cb3\<rparr>, got)
     }
   }"

declare merge_loop.simps [simp del] ring_sync.simps [simp del] merge_loop_ex.simps [simp del]

section \<open>The demo client and server\<close>

text \<open>
  The client cuts its message and sends every piece as two datagrams, the first five bytes
  and the rest. \<open>client_send u i n\<close> is the loop from piece \<open>i\<close> on, for \<open>n\<close> more pieces; its
  result is the list of datagrams.
\<close>

fun client_send :: "udp_piece \<Rightarrow> nat \<Rightarrow> nat \<Rightarrow> (udp_piece \<times> u8 list list) option" where
  "client_send u i 0 = Some (u, [])"
| "client_send u i (Suc n) =
     (case udp_piece_get (Some u) (int i) True of
        Some (Some (u', sz)) \<Rightarrow>
          let buf = piece_buf u';
              d1 = take 5 buf;
              d2 = take (nat (sz - 5)) (drop 5 buf)
          in (case client_send u' (Suc i) n of
                None \<Rightarrow> None
              | Some (u'', ds) \<Rightarrow> Some (u'', d1 # d2 # ds))
      | _ \<Rightarrow> None)"

definition echo_client_round :: "udp_piece \<Rightarrow> u8 list \<Rightarrow> (udp_piece \<times> u8 list list) option" where
  "echo_client_round u msg =
     (case udp_piece_cut (Some u) msg (int (length msg)) of
        (Some u', pieces) \<Rightarrow> client_send u' 0 (nat pieces)
      | (None, pieces) \<Rightarrow> None)"

text \<open>
  What \<open>recvfrom\<close> returns: a datagram, or an error with whether \<open>errno\<close> is \<open>EINTR\<close>; an
  empty datagram is handled as an error is, with whatever \<open>errno\<close> holds.
\<close>

datatype recv_event = Received "u8 list" bool | RecvError bool

definition RECVBUF_SIZE :: nat where "RECVBUF_SIZE = 1024"

text \<open>
  The server's loop over the datagrams. The state is \<^const>\<open>None\<close> once the server has left
  through \<open>ERR_EXIT\<close>. A complete message is printed with \<open>%s\<close>, so \<open>printf\<close> reads the receive buffer up to
  the first zero byte; when there is none it reads behind the block. The messages are what the
  server printed: the receive buffer it passed to \<open>printf\<close>, the length, and the text that came out.
\<close>

definition printf_s :: "u8 list \<Rightarrow> u8 list option" where
  "printf_s blk = (if 0 \<in> set blk then Some (takeWhile (\<lambda>b. b \<noteq> 0) blk) else None)"

type_synonym printed = "u8 list \<times> int \<times> u8 list"

definition echo_server_merge ::
  "allocator \<Rightarrow> udp_piece \<Rightarrow> u8 list \<Rightarrow> (udp_piece \<times> printed list) option" where
  "echo_server_merge alloc u d = do {
     let n = min (length d) RECVBUF_SIZE;
     let recvbuf = overwrite (replicate RECVBUF_SIZE 0) 0 (take n d);
     (u', ret) \<leftarrow> udp_piece_merge_ex alloc u recvbuf (int n);
     let reset = the (udp_piece_reset (Some u'));
     if ret = 1 then do {
       rb \<leftarrow> recv_buf u';
       str \<leftarrow> printf_s rb;
       Some (reset, [(rb, recv_len u', str)])
     }
     else Some (if ret = -1 then (reset, []) else if ret = 0 then (u', []) else (reset, []))
   }"

fun echo_server ::
  "allocator \<Rightarrow> udp_piece \<Rightarrow> recv_event list \<Rightarrow> (udp_piece option \<times> printed list) option" where
  "echo_server alloc u [] = Some (Some u, [])"
| "echo_server alloc u (RecvError eintr # evs) =
     (if eintr then echo_server alloc u evs else Some (None, []))"
| "echo_server alloc u (Received d eintr # evs) =
     (if d = [] then (if eintr then echo_server alloc u evs else Some (None, []))
      else do {
        (u', out) \<leftarrow> echo_server_merge alloc u d;
        (st, outs) \<leftarrow> echo_server alloc u' evs;
        Some (st, out @ outs)
      })"

section \<open>Pieces of a message\<close>

text \<open>
  The specification of the wire format: how many pieces a message has, the data of a piece,
  its header and its bytes.
\<close>

definition num_pieces :: "u8 list \<Rightarrow> nat" where
  "num_pieces msg = (length msg + 535) div 536"

definition chunk :: "u8 list \<Rightarrow> nat \<Rightarrow> u8 list" where
  "chunk msg i = take 536 (drop (536 * i) msg)"

definition header :: "u8 list \<Rightarrow> nat \<Rightarrow> u8 list" where
  "header msg i =
     [0xAF, 0xAE,
      byte_hi (int (length msg)), byte_lo (int (length msg)),
      byte_hi (int (num_pieces msg)), byte_lo (int (num_pieces msg)),
      byte_hi (int i), byte_lo (int i),
      byte_hi (int (length (chunk msg i))), byte_lo (int (length (chunk msg i))), 0, 0]"

definition piece :: "u8 list \<Rightarrow> nat \<Rightarrow> u8 list" where
  "piece msg i = header msg i @ chunk msg i"

lemmas head_defs = HEAD_POS_SYNC_WORD_def HEAD_POS_TOTAL_SIZE_def HEAD_POS_TOTAL_PIECES_def
  HEAD_POS_P_INDEX_def HEAD_POS_P_LENGTH_def HEAD_SIZE_def PIECE_FIX_SIZE_def

lemma be16_bytes:
  assumes "0 \<le> x" and "x < 65536"
  shows "int (be16 (byte_hi x) (byte_lo x)) = x"
proof -
  have hi: "uint (byte_hi x) = x div 256"
    using assms by (simp add: byte_hi_def drop_bit_eq_div uint_word_of_int take_bit_eq_mod)
  have "x AND 0xff = x mod 256"
    using take_bit_eq_mask [of 8 x] by (simp add: take_bit_eq_mod mask_eq_exp_minus_1)
  then have lo: "uint (byte_lo x) = x mod 256"
    by (simp add: byte_lo_def uint_word_of_int take_bit_eq_mod)
  have "int (be16 (byte_hi x) (byte_lo x)) = x div 256 * 256 + x mod 256"
    unfolding be16_def by (simp add: hi lo)
  then show ?thesis by simp
qed

lemma be16_bytes_nat: "n < 65536 \<Longrightarrow> be16 (byte_hi (int n)) (byte_lo (int n)) = n"
  using be16_bytes [of "int n"] by simp

lemma header_length [simp]: "length (header msg i) = 12"
  by (simp add: header_def)

lemma chunk_length_le: "length (chunk msg i) \<le> 536"
  by (simp add: chunk_def)

lemma num_pieces_le: "536 * (num_pieces msg - 1) \<le> length msg" "length msg \<le> 536 * num_pieces msg"
  unfolding num_pieces_def by auto

lemma index_bounds:
  assumes "i < num_pieces msg"
  shows "536 * i < length msg" and "length (chunk msg i) = min 536 (length msg - 536 * i)"
    and "0 < length (chunk msg i)" and "536 * i + length (chunk msg i) \<le> length msg"
  using assms unfolding num_pieces_def chunk_def by auto

section \<open>What the sender produces\<close>

definition cut_state :: "u8 list \<Rightarrow> udp_piece \<Rightarrow> bool" where
  "cut_state msg u \<longleftrightarrow> send_ptr u = Some msg \<and> total_size u = int (length msg) \<and>
     left u = int (length msg mod 536) \<and> total_pieces u = int (num_pieces msg)"

lemma num_pieces_cases:
  "num_pieces msg = (if length msg mod 536 > 0 then length msg div 536 + 1 else length msg div 536)"
proof -
  define q r where "q = length msg div 536" and "r = length msg mod 536"
  have "length msg + 535 = 536 * q + (r + 535)" and r: "r < 536"
    by (simp_all add: q_def r_def)
  then have "num_pieces msg = q + (r + 535) div 536"
    unfolding num_pieces_def by (metis div_mult_self2 numeral_neq_zero add.commute)
  moreover have "(r + 535) div 536 = (if r > 0 then 1 else 0)"
    using r by auto
  ultimately show ?thesis by (simp add: q_def r_def)
qed

lemma udp_piece_cut_correct:
  "\<exists>u'. udp_piece_cut (Some u) msg (int (length msg)) = (Some u', int (num_pieces msg)) \<and> cut_state msg u'"
proof -
  let ?n = "length msg"
  note num_pieces_cases [of msg]
  moreover have "int ?n mod 536 = int (?n mod 536)" "int ?n div 536 = int (?n div 536)"
    by (simp_all add: zmod_int zdiv_int)
  ultimately show ?thesis
    by (simp add: udp_piece_cut_def cut_state_def PIECE_FIX_SIZE_def Let_def)
qed

lemma piece_size_of_eq:
  assumes "cut_state msg u" and "i < num_pieces msg"
  shows "piece_size_of u (int i) = int (length (chunk msg i))"
proof -
  define q r where "q = length msg div 536" and "r = length msg mod 536"
  have msg: "length msg = 536 * q + r" by (simp add: q_def r_def)
  have n: "num_pieces msg = (if r > 0 then q + 1 else q)"
    by (simp add: num_pieces_cases q_def r_def)
  have "i = num_pieces msg - 1 \<Longrightarrow> length msg mod 536 > 0 \<Longrightarrow> length msg - 536 * i = length msg mod 536"
    using msg n unfolding r_def [symmetric] by (auto simp: algebra_simps)
  moreover have "536 \<le> length msg - 536 * i" if "\<not> (i = num_pieces msg - 1 \<and> length msg mod 536 > 0)"
  proof -
    have "i < q" using that assms(2) n by (auto simp: r_def [symmetric] split: if_splits)
    then have "536 * i + 536 \<le> 536 * q" by simp
    then show ?thesis using msg by linarith
  qed
  moreover have "length msg mod 536 < 536" by simp
  moreover have "int (num_pieces msg) - 1 = int i \<longleftrightarrow> i = num_pieces msg - 1"
    using assms(2) by auto
  ultimately show ?thesis
    using assms index_bounds(2) [OF assms(2)]
    by (auto simp: piece_size_of_def cut_state_def PIECE_FIX_SIZE_def)
qed

lemma piece_header_eq:
  assumes "cut_state msg u"
  shows "piece_header u (int i) (int (length (chunk msg i))) = header msg i @ replicate 537 0"
proof -
  have "replicate (nat (PIECE_FIX_SIZE + HEAD_SIZE + 1)) (0::u8) = replicate 12 0 @ replicate 537 0"
    by (simp add: PIECE_FIX_SIZE_def HEAD_SIZE_def flip: replicate_add)
  moreover have "replicate 12 (0::u8) = [0, 0, 0, 0, 0, 0, 0, 0, 0, 0, 0, 0]"
    by (simp add: numeral_eq_Suc)
  ultimately show ?thesis
    using assms by (simp add: piece_header_def header_def cut_state_def head_defs)
qed

lemma udp_piece_get_correct:
  assumes "cut_state msg u" and "i < num_pieces msg"
  shows "\<exists>u'. udp_piece_get (Some u) (int i) True = Some (Some (u', 12 + int (length (chunk msg i)))) \<and>
              cut_state msg u' \<and> take (length (piece msg i)) (piece_buf u') = piece msg i"
proof -
  let ?l = "length (chunk msg i)"
  note b = index_bounds [OF assms(2)] and l = chunk_length_le [of msg i]
  have "take ?l (drop (536 * i) msg) = chunk msg i"
    unfolding chunk_def by (simp add: min_def)
  then have "memcpy (header msg i @ replicate 537 0) 12 msg (536 * int i) (int ?l) =
        Some (header msg i @ chunk msg i @ replicate (537 - ?l) 0)"
    using b l by (simp add: memcpy_def nat_mult_distrib nat_add_distrib)
  then show ?thesis
    using assms by (simp add: udp_piece_get_def piece_size_of_eq piece_header_eq piece_def
        cut_state_def HEAD_SIZE_def PIECE_FIX_SIZE_def)
qed

lemma client_send_correct:
  assumes "cut_state msg u" and "i + n \<le> num_pieces msg"
  shows "\<exists>u'. client_send u i n =
           Some (u', concat (map (\<lambda>j. [take 5 (piece msg j), drop 5 (piece msg j)]) [i..<i + n]))"
  using assms
proof (induction n arbitrary: i u)
  case 0
  then show ?case by simp
next
  case (Suc n)
  from udp_piece_get_correct [OF Suc.prems(1), of i] Suc.prems(2)
  obtain u' where get: "udp_piece_get (Some u) (int i) True =
      Some (Some (u', 12 + int (length (chunk msg i))))"
    and u': "cut_state msg u'" "take (length (piece msg i)) (piece_buf u') = piece msg i"
    by auto
  have "length (piece msg i) = 12 + length (chunk msg i)" by (simp add: piece_def)
  then have "take 5 (piece_buf u') = take 5 (piece msg i)"
    "take (nat (12 + int (length (chunk msg i)) - 5)) (drop 5 (piece_buf u')) = drop 5 (piece msg i)"
    by (subst u'(2) [symmetric], simp add: min_def)
      (subst u'(2) [symmetric], simp add: drop_take piece_def nat_diff_distrib nat_add_distrib)
  moreover have "[i..<i + Suc n] = i # [Suc i..<Suc i + n]"
    by (simp add: upt_conv_Cons del: upt_Suc)
  ultimately show ?case
    using get Suc.IH [OF u'(1), of "Suc i"] Suc.prems(2) by (auto simp: Let_def simp del: upt_Suc)
qed

section \<open>What the receiver knows\<close>

definition alloc_total :: "allocator \<Rightarrow> bool" where
  "alloc_total alloc \<longleftrightarrow> allocator_ok alloc \<and> (\<forall>n\<ge>0. alloc n \<noteq> None)"

text \<open>The receive buffer holds the bytes of the pieces in \<open>is\<close>.\<close>

definition agrees :: "u8 list \<Rightarrow> u8 list \<Rightarrow> nat list \<Rightarrow> bool" where
  "agrees rb msg is \<longleftrightarrow> (\<forall>x<length msg. x div 536 \<in> set is \<longrightarrow> rb ! x = msg ! x)"

definition receiving :: "u8 list \<Rightarrow> nat list \<Rightarrow> udp_piece \<Rightarrow> bool" where
  "receiving msg is u \<longleftrightarrow>
     (if is = [] then total_size u = 0
      else total_size u = int (length msg) \<and> total_pieces u = int (num_pieces msg) \<and>
           recv_pieces u = int (length is) \<and>
           recv_len u = int (\<Sum>i\<leftarrow>is. length (chunk msg i)) \<and>
           (\<exists>rb. recv_buf u = Some rb \<and> length rb = length msg + 1 \<and> agrees rb msg is))"

definition complete :: "u8 list \<Rightarrow> udp_piece \<Rightarrow> bool" where
  "complete msg u \<longleftrightarrow> recv_len u = int (length msg) \<and>
     (\<exists>rb. recv_buf u = Some rb \<and> length rb = length msg + 1 \<and> take (length msg) rb = msg)"

text \<open>The outcome of one more piece \<open>i\<close> when the pieces in \<open>is\<close> have been received.\<close>

definition piece_done :: "u8 list \<Rightarrow> nat list \<Rightarrow> nat \<Rightarrow> int \<Rightarrow> udp_piece \<Rightarrow> int \<Rightarrow> bool" where
  "piece_done msg is i got u g \<longleftrightarrow>
     (if length is + 1 = num_pieces msg then g = 1 \<and> complete msg u
      else g = got \<and> receiving msg (i # is) u)"

lemma alloc_totalE:
  assumes "alloc_total alloc" and "0 \<le> n"
  obtains blk where "alloc n = Some blk" and "int (length blk) = n"
proof -
  from assms obtain blk where blk: "alloc n = Some blk" by (auto simp: alloc_total_def)
  moreover have "int (length blk) = n"
    using assms(1) blk unfolding alloc_total_def by (blast intro: allocator_ok_length)
  ultimately show thesis by (rule that)
qed

lemma sum_chunk_lengths: "(\<Sum>i<k. length (chunk msg i)) = min (536 * k) (length msg)"
  by (induction k) (auto simp: chunk_def)

lemma sum_all_chunks:
  assumes "distinct is" and "set is \<subseteq> {..<num_pieces msg}" and "length is = num_pieces msg"
  shows "set is = {..<num_pieces msg}" and "(\<Sum>i\<leftarrow>is. length (chunk msg i)) = length msg"
proof -
  show s: "set is = {..<num_pieces msg}"
    using assms by (intro card_subset_eq) (auto simp: distinct_card)
  have "(\<Sum>i\<leftarrow>is. length (chunk msg i)) = (\<Sum>i<num_pieces msg. length (chunk msg i))"
    using assms(1) by (simp add: sum_list_distinct_conv_sum_set s)
  then show "(\<Sum>i\<leftarrow>is. length (chunk msg i)) = length msg"
    using num_pieces_le(2) [of msg] by (simp add: sum_chunk_lengths min_def)
qed

lemma agrees_overwrite:
  assumes "agrees rb msg is" and "length rb = length msg + 1" and "i < num_pieces msg"
  shows "agrees (overwrite rb (536 * i) (chunk msg i)) msg (i # is)"
  unfolding agrees_def
proof (intro allI impI)
  fix x assume x: "x < length msg" "x div 536 \<in> set (i # is)"
  note b = index_bounds [OF assms(3)]
  have r: "536 * i \<le> x \<and> x < 536 * i + length (chunk msg i) \<longleftrightarrow> x div 536 = i"
  proof -
    define q m where "q = x div 536" and "m = x mod 536"
    have q: "x = 536 * q + m" "m < 536" by (simp_all add: q_def m_def)
    have "536 * i \<le> x \<Longrightarrow> x < 536 * i + 536 \<Longrightarrow> q = i"
      unfolding q_def by (rule div_nat_eqI) simp_all
    moreover have "q = i \<Longrightarrow> 536 * i \<le> x \<and> x < 536 * i + min 536 (length msg - 536 * i)"
      using q x(1) by auto
    ultimately show ?thesis using b(2) chunk_length_le [of msg i] by (auto simp: q_def [symmetric])
  qed
  have "chunk msg i ! (x - 536 * i) = msg ! x" if "x div 536 = i"
    using that r x b by (simp add: chunk_def)
  then show "overwrite rb (536 * i) (chunk msg i) ! x = msg ! x"
    using x r b assms by (auto simp: overwrite_nth agrees_def)
qed

lemma agrees_all:
  assumes "agrees rb msg is" and "length rb = length msg + 1" and "set is = {..<num_pieces msg}"
  shows "take (length msg) rb = msg"
proof (rule nth_equalityI)
  show "length (take (length msg) rb) = length msg" using assms by simp
  fix x assume "x < length (take (length msg) rb)"
  then have x: "x < length msg" using assms by simp
  then have "x div 536 < num_pieces msg"
    using num_pieces_le(2) [of msg] by (intro less_mult_imp_div_less) (simp add: mult.commute)
  with x assms show "take (length msg) rb ! x = msg ! x"
    by (auto simp: agrees_def)
qed

lemma group_enter:
  assumes rec: "receiving msg is u" and alloc: "alloc_total alloc" and msg: "msg \<noteq> []"
  shows "\<exists>u1 u2 rb. group_start alloc (int (length msg)) (int (num_pieces msg)) u = (u1, True) \<and>
           group_switch alloc (int (length msg)) (int (num_pieces msg)) u1 = (u2, True) \<and>
           total_size u2 = int (length msg) \<and> total_pieces u2 = int (num_pieces msg) \<and>
           recv_pieces u2 = int (length is) + 1 \<and>
           recv_len u2 = int (\<Sum>i\<leftarrow>is. length (chunk msg i)) \<and>
           recv_buf u2 = Some rb \<and> length rb = length msg + 1 \<and> agrees rb msg is"
proof (cases "is = []")
  case True
  obtain blk where "alloc (int (length msg) + 1) = Some blk" "int (length blk) = int (length msg) + 1"
    by (rule alloc_totalE [OF alloc, of "int (length msg) + 1"]) simp_all
  with True rec show ?thesis
    by (simp add: receiving_def group_start_def group_switch_def group_alloc_def Let_def agrees_def)
next
  case False
  with rec msg show ?thesis
    by (auto simp: receiving_def group_start_def group_switch_def)
qed

lemma group_leave:
  assumes u2: "total_size u2 = int (length msg)" "total_pieces u2 = int (num_pieces msg)"
      "recv_pieces u2 = int (length is) + 1" "recv_len u2 = int (\<Sum>i\<leftarrow>is. length (chunk msg i))"
    and rb: "length rb = length msg + 1" "agrees rb msg is"
    and i: "distinct (i # is)" "set (i # is) \<subseteq> {..<num_pieces msg}"
  shows "\<exists>u' g. group_account bad (int (length (chunk msg i)))
             (u2\<lparr>recv_buf := Some (overwrite rb (536 * i) (chunk msg i))\<rparr>) got = (u', g) \<and>
           piece_done msg is i got u' g \<and> ring u' = ring u2"
proof -
  have n: "i < num_pieces msg" using i by simp
  note b = index_bounds [OF n] and ag = agrees_overwrite [OF rb(2,1) n]
  have len: "length (overwrite rb (536 * i) (chunk msg i)) = length msg + 1"
    using b rb by (subst overwrite_length) auto
  show ?thesis
  proof (cases "length is + 1 = num_pieces msg")
    case True
    then have "length (i # is) = num_pieces msg" by simp
    note all = sum_all_chunks [OF i this]
    from True u2 len agrees_all [OF ag len all(1)] all(2) show ?thesis
      by (simp add: group_account_def piece_done_def complete_def Let_def add.commute)
  next
    case False
    with u2 len ag show ?thesis
      by (simp add: group_account_def piece_done_def receiving_def Let_def)
  qed
qed

section \<open>Reassembly through the ring buffer\<close>

lemma ring_get16_at:
  assumes "cb_ok cb" and "Suc k < length (cb_contents cb)"
  shows "ring_get16 cb (int k) vs = Some (cb_contents cb ! k, cb_contents cb ! Suc k)"
  using cbq.peek_at [OF assms(1), of k] cbq.peek_at [OF assms(1), of "Suc k"] assms(2)
  by (simp add: ring_get16_def ring_get_def add.commute)

text \<open>The header of a piece at the front of the ring.\<close>

lemma ring_header:
  assumes ok: "cb_ok cb" and front: "cb_contents cb = piece msg i @ rest"
  shows "ring_get16 cb 0 vs = Some (0xAF, 0xAE)"
    and "ring_get16 cb HEAD_POS_TOTAL_SIZE vs =
           Some (byte_hi (int (length msg)), byte_lo (int (length msg)))"
    and "ring_get16 cb HEAD_POS_TOTAL_PIECES vs =
           Some (byte_hi (int (num_pieces msg)), byte_lo (int (num_pieces msg)))"
    and "ring_get16 cb HEAD_POS_P_INDEX vs = Some (byte_hi (int i), byte_lo (int i))"
    and "ring_get16 cb HEAD_POS_P_LENGTH vs =
           Some (byte_hi (int (length (chunk msg i))), byte_lo (int (length (chunk msg i))))"
  using ring_get16_at [OF ok, of 0] ring_get16_at [OF ok, of 2] ring_get16_at [OF ok, of 4]
    ring_get16_at [OF ok, of 6] ring_get16_at [OF ok, of 8]
  unfolding front by (simp_all add: piece_def header_def head_defs del: cb_contents_length)

lemma num_pieces_small: "length msg < 65536 \<Longrightarrow> num_pieces msg < 65536"
  unfolding num_pieces_def by auto

lemma merge_piece_ex_correct:
  assumes ok: "cb_ok cb" and front: "cb_contents cb = piece msg i @ rest"
    and msg: "msg \<noteq> []" "length msg < 65536"
    and rec: "receiving msg is u" and alloc: "alloc_total alloc"
    and i: "distinct (i # is)" "set (i # is) \<subseteq> {..<num_pieces msg}"
  shows "\<exists>u' cb' vs' g. merge_piece_ex alloc u cb vs (length (chunk msg i)) got =
           Some (Inr (u', cb', vs', g)) \<and> piece_done msg is i got u' g \<and>
           cb_ok cb' \<and> cb_contents cb' = rest \<and> cb_capacity cb' = cb_capacity cb"
proof -
  have n: "i < num_pieces msg" using i by simp
  note b = index_bounds [OF n]
  obtain u1 u2 rb where e: "group_start alloc (int (length msg)) (int (num_pieces msg)) u = (u1, True)"
      "group_switch alloc (int (length msg)) (int (num_pieces msg)) u1 = (u2, True)"
    and u2: "total_size u2 = int (length msg)" "total_pieces u2 = int (num_pieces msg)"
      "recv_pieces u2 = int (length is) + 1" "recv_len u2 = int (\<Sum>i\<leftarrow>is. length (chunk msg i))"
    and rb: "recv_buf u2 = Some rb" "length rb = length msg + 1" "agrees rb msg is"
    using group_enter [OF rec alloc msg(1)] by blast
  define cb1 where "cb1 = circular_buffer_pop_front cb (int 12)"
  have ok1: "cb_ok cb1" and c1: "cb_contents cb1 = chunk msg i @ rest"
    using cbq.pop_ok [OF ok] cbq.pop_contents [OF ok, of 12]
    by (simp_all add: cb1_def front piece_def del: of_nat_numeral)
  have rd: "circular_buffer_read cb1 rb (int (536 * i)) (int (length (chunk msg i))) =
      Some (circular_buffer_pop_front cb1 (int (length (chunk msg i))),
            overwrite rb (536 * i) (chunk msg i), int (length (chunk msg i)))"
    using cbq.read_all [OF ok1, of "length (chunk msg i)" "536 * i" rb] b rb
    by (simp add: c1 del: cb_contents_length)
  obtain u' g where g: "group_account (\<lambda>g. g) (int (length (chunk msg i)))
      (u2\<lparr>recv_buf := Some (overwrite rb (536 * i) (chunk msg i))\<rparr>) got = (u', g)"
    "piece_done msg is i got u' g"
    using group_leave [OF u2 rb(2,3) i] by blast
  have cap: "cb_capacity cb1 = cb_capacity cb"
    using cbq.pop_cap [OF ok, of 12] by (simp add: cb1_def circular_buffer_capacity_def)
  have "be16 (byte_hi (int i)) (byte_lo (int i)) = i"
    using n num_pieces_small [OF msg(2)] by (intro be16_bytes_nat) simp
  then have "\<exists>vs'. merge_piece_ex alloc u cb vs (length (chunk msg i)) got =
      Some (Inr (u', circular_buffer_pop_front cb1 (int (length (chunk msg i))), vs', g))"
    using rd g(1) e rb(1) msg(2)
    by (simp add: merge_piece_ex_def ring_header [OF ok front] be16_bytes_nat num_pieces_small
        cb1_def HEAD_SIZE_def PIECE_FIX_SIZE_def Let_def)
  moreover note cbq.pop_ok [OF ok1] cbq.pop_contents [OF ok1] cbq.pop_cap [OF ok1]
  ultimately show ?thesis
    using g(2) c1 cap by (fastforce simp: circular_buffer_capacity_def)
qed

text \<open>The ring of a receiver: the bytes not yet consumed and the capacity.\<close>

definition ring_holds :: "u8 list \<Rightarrow> int \<Rightarrow> udp_piece \<Rightarrow> bool" where
  "ring_holds q c u \<longleftrightarrow> (\<exists>cb. ring u = Some cb \<and> cb_ok cb \<and> cb_contents cb = q \<and> cb_capacity cb = c)"

lemma receiving_ring [simp]: "receiving msg is (u\<lparr>ring := r\<rparr>) = receiving msg is u"
  by (simp add: receiving_def)

lemma complete_ring [simp]: "complete msg (u\<lparr>ring := r\<rparr>) = complete msg u"
  by (simp add: complete_def)

lemma piece_done_ring [simp]: "piece_done msg is i got (u\<lparr>ring := r\<rparr>) g = piece_done msg is i got u g"
  by (simp add: piece_done_def)

lemma ring_sync_front:
  assumes "cb_ok cb" and "length (cb_contents cb) \<ge> 2 \<Longrightarrow> take 2 (cb_contents cb) = [0xAF, 0xAE]"
  shows "\<exists>vs'. ring_sync cb vs = Some (cb, vs')"
proof (cases "length (cb_contents cb) \<ge> 2")
  case True
  then have "ring_get16 cb (int 0) vs = Some (cb_contents cb ! 0, cb_contents cb ! Suc 0)"
    using assms(1) by (intro ring_get16_at) auto
  moreover have "cb_contents cb ! 0 = 0xAF" "cb_contents cb ! Suc 0 = 0xAE"
    using arg_cong [OF assms(2) [OF True], of "\<lambda>xs. xs ! 0"]
      arg_cong [OF assms(2) [OF True], of "\<lambda>xs. xs ! Suc 0"] by simp_all
  ultimately show ?thesis by (simp add: ring_sync.simps [of cb vs])
next
  case False
  then have "\<not> circular_buffer_size cb \<ge> 2"
    using assms(1) by (simp add: cbq.sz_law del: cb_contents_length)
  then show ?thesis by (simp add: ring_sync.simps [of cb vs])
qed

lemma piece_sync: "k \<ge> 2 \<Longrightarrow> take 2 (take k (piece msg i)) = [0xAF, 0xAE]"
  by (simp add: piece_def header_def min_def)

text \<open>A proper prefix of a piece stays in the ring.\<close>

lemma merge_loop_ex_waits:
  assumes ok: "cb_ok cb" and front: "cb_contents cb = take k (piece msg i)"
    and k: "k < length (piece msg i)"
  shows "merge_loop_ex alloc u cb vs got = Some (u, cb, got)"
proof (cases "k > 12")
  case True
  have sz: "circular_buffer_size cb = int k"
    using cbq.sz_law [OF ok] front k by (simp del: cb_contents_length)
  have "length (cb_contents cb) = k" using front k by (simp del: cb_contents_length)
  moreover have "piece msg i ! 8 = byte_hi (int (length (chunk msg i)))"
    "piece msg i ! 9 = byte_lo (int (length (chunk msg i)))"
    by (simp_all add: piece_def header_def)
  ultimately have "ring_get16 cb HEAD_POS_P_LENGTH vs =
      Some (byte_hi (int (length (chunk msg i))), byte_lo (int (length (chunk msg i))))"
    using ring_get16_at [OF ok, of 8 vs] True k by (simp add: front head_defs del: cb_contents_length)
  moreover have "be16 (byte_hi (int (length (chunk msg i)))) (byte_lo (int (length (chunk msg i)))) =
      length (chunk msg i)"
    using chunk_length_le [of msg i] by (intro be16_bytes_nat) simp
  moreover have "int k < 12 + int (length (chunk msg i))" using k by (simp add: piece_def)
  ultimately show ?thesis
    by (simp add: merge_loop_ex.simps [of alloc u cb vs got] sz HEAD_SIZE_def Let_def)
next
  case False
  then have "\<not> circular_buffer_size cb > HEAD_SIZE"
    using cbq.sz_law [OF ok] front by (simp add: HEAD_SIZE_def del: cb_contents_length)
  then show ?thesis by (simp add: merge_loop_ex.simps [of alloc u cb vs got])
qed

lemma merge_ex_partial:
  assumes ring: "ring_holds (take k (piece msg i)) c u"
    and xs: "take (k + n) (piece msg i) = take k (piece msg i) @ take n buf" "n \<le> length buf"
      "k + n < length (piece msg i)"
    and fits: "int (length (piece msg i)) \<le> c"
  shows "\<exists>u'. udp_piece_merge_ex alloc u buf (int n) = Some (u', 0) \<and>
              ring_holds (take (k + n) (piece msg i)) c u' \<and> (\<exists>r. u' = u\<lparr>ring := r\<rparr>)"
proof -
  obtain cb where cb: "ring u = Some cb" "cb_ok cb" "cb_contents cb = take k (piece msg i)"
    "cb_capacity cb = c"
    using ring by (auto simp: ring_holds_def)
  have "int (length (cb_contents cb)) + int n \<le> circular_buffer_capacity cb"
    using xs fits cb by (simp add: circular_buffer_capacity_def del: cb_contents_length)
  from cbq.write_fits [OF cb(2) xs(2) this] obtain cb1
    where w: "circular_buffer_write cb buf (int n) = Some (cb1, int n)" "cb_ok cb1"
      "cb_capacity cb1 = c" "cb_contents cb1 = take (k + n) (piece msg i)"
    using cb xs(1) by (auto simp: circular_buffer_capacity_def)
  obtain vs where sync: "ring_sync cb1 (0, 0) = Some (cb1, vs)"
    using ring_sync_front [OF w(2), of "(0, 0)"] piece_sync [of "k + n" msg i] w(4) by auto
  note merge_loop_ex_waits [OF w(2,4) xs(3), of alloc u vs 0]
  with cb(1) w sync show ?thesis
    by (auto simp: udp_piece_merge_ex_def ring_holds_def)
qed

lemma merge_ex_complete:
  assumes ring: "ring_holds (take k (piece msg i)) c u"
    and xs: "piece msg i = take k (piece msg i) @ take n buf" "n \<le> length buf" "k + n = length (piece msg i)"
    and fits: "int (length (piece msg i)) \<le> c"
    and msg: "msg \<noteq> []" "length msg < 65536"
    and rec: "receiving msg is u" and alloc: "alloc_total alloc"
    and i: "distinct (i # is)" "set (i # is) \<subseteq> {..<num_pieces msg}"
  shows "\<exists>u' g. udp_piece_merge_ex alloc u buf (int n) = Some (u', g) \<and>
              ring_holds [] c u' \<and> piece_done msg is i 0 u' g"
proof -
  obtain cb where cb: "ring u = Some cb" "cb_ok cb" "cb_contents cb = take k (piece msg i)"
    "cb_capacity cb = c"
    using ring by (auto simp: ring_holds_def)
  have "int (length (cb_contents cb)) + int n \<le> circular_buffer_capacity cb"
    using xs fits cb by (simp add: circular_buffer_capacity_def del: cb_contents_length)
  from cbq.write_fits [OF cb(2) xs(2) this] obtain cb1
    where w: "circular_buffer_write cb buf (int n) = Some (cb1, int n)" "cb_ok cb1"
      "cb_capacity cb1 = c" and c1: "cb_contents cb1 = piece msg i @ []"
    using cb xs(1) by (auto simp: circular_buffer_capacity_def)
  obtain vs where sync: "ring_sync cb1 (0, 0) = Some (cb1, vs)"
    using ring_sync_front [OF w(2), of "(0, 0)"] piece_sync [of "length (piece msg i)" msg i] c1 by auto
  let ?l = "length (chunk msg i)"
  have l: "be16 (byte_hi (int ?l)) (byte_lo (int ?l)) = ?l"
    using chunk_length_le [of msg i] by (intro be16_bytes_nat) simp
  obtain u' cb' vs' g where m: "merge_piece_ex alloc u cb1 (byte_hi (int ?l), byte_lo (int ?l)) ?l 0 =
      Some (Inr (u', cb', vs', g))" "piece_done msg is i 0 u' g" "cb_ok cb'" "cb_contents cb' = []"
      "cb_capacity cb' = c"
    using merge_piece_ex_correct [OF w(2) c1 msg rec alloc i] w(3) by blast
  have sz: "circular_buffer_size cb1 = 12 + int ?l" "circular_buffer_size cb' = 0"
    using cbq.sz_law [OF w(2)] cbq.sz_law [OF m(3)] c1 m(4) by (simp_all add: piece_def del: cb_contents_length)
  have "0 < ?l" using i by (intro index_bounds(3)) simp
  then have "merge_loop_ex alloc u cb1 vs 0 = Some (u', cb', g)"
    using m(1) ring_header(5) [OF w(2) c1] l sz
    by (subst merge_loop_ex.simps) (simp add: HEAD_SIZE_def merge_loop_ex.simps [of alloc u' cb'])
  with cb(1) w sync m show ?thesis
    by (auto simp: udp_piece_merge_ex_def ring_holds_def)
qed

section \<open>The server on the datagrams of a message\<close>

definition rx :: "u8 list list \<Rightarrow> recv_event list" where
  "rx ds = map (\<lambda>d. Received d False) ds"

text \<open>Datagrams that arrive whole: not empty, and no longer than the server's buffer.\<close>

definition datagrams_ok :: "u8 list list \<Rightarrow> bool" where
  "datagrams_ok ds \<longleftrightarrow> (\<forall>d\<in>set ds. d \<noteq> [] \<and> length d \<le> RECVBUF_SIZE)"

text \<open>A server between two messages.\<close>

definition idle :: "int \<Rightarrow> udp_piece \<Rightarrow> bool" where
  "idle c u \<longleftrightarrow> total_size u = 0 \<and> ring_holds [] c u"

text \<open>
  \<open>delivers alloc u evs msg txt u'\<close>: on the events \<open>evs\<close> the server prints exactly once, from a receive
  buffer that starts with \<open>msg\<close>, the text \<open>txt\<close> and the length of \<open>msg\<close>, and goes on as \<open>u'\<close>.
\<close>

definition delivers :: "allocator \<Rightarrow> udp_piece \<Rightarrow> recv_event list \<Rightarrow> u8 list \<Rightarrow> u8 list \<Rightarrow> udp_piece \<Rightarrow> bool" where
  "delivers alloc u evs msg txt u' \<longleftrightarrow>
     (\<exists>rb. length rb = length msg + 1 \<and> take (length msg) rb = msg \<and>
        (\<forall>more. echo_server alloc u (evs @ more) =
           map_option (map_prod id (\<lambda>outs. (rb, int (length msg), txt) # outs))
             (echo_server alloc u' more)))"

text \<open>The text of a message with a zero byte, whatever the byte behind the message is.\<close>

definition text_of :: "u8 list \<Rightarrow> u8 list" where
  "text_of msg = takeWhile (\<lambda>b. b \<noteq> 0) msg"

lemma printf_s_msg: "take (length msg) rb = msg \<Longrightarrow> 0 \<in> set msg \<Longrightarrow> printf_s rb = Some (text_of msg)"
proof -
  assume t: "take (length msg) rb = msg" "0 \<in> set msg"
  have rb: "rb = msg @ drop (length msg) rb" using t(1) append_take_drop_id [of "length msg" rb] by simp
  then have "takeWhile (\<lambda>b. b \<noteq> 0) rb = takeWhile (\<lambda>b. b \<noteq> 0) msg" using takeWhile_append1 [OF t(2), of "\<lambda>b. b \<noteq> 0"] by (metis (full_types))
  moreover have "0 \<in> set rb" using rb t(2) by (metis UnI1 set_append)
  ultimately show ?thesis by (simp add: printf_s_def text_of_def)
qed

lemma recvbuf_prefix:
  "length d \<le> RECVBUF_SIZE \<Longrightarrow>
   take (length d) (overwrite (replicate RECVBUF_SIZE 0) 0 d) = d"
  by (simp add: overwrite_def)

lemma idle_reset:
  assumes "ring_holds [] c u"
  shows "idle c (the (udp_piece_reset (Some u)))"
proof -
  obtain cb where cb: "ring u = Some cb" "cb_ok cb" "cb_capacity cb = c"
    using assms by (auto simp: ring_holds_def)
  then have "cb_wf cb" by (simp add: cb_ok_def)
  from cb_wf_reset [OF this] cb show ?thesis
    by (auto simp: idle_def ring_holds_def udp_piece_reset_def circular_buffer_reset_def cb_ok_def)
qed

lemma echo_server_received:
  "d \<noteq> [] \<Longrightarrow> echo_server_merge alloc u d = Some (u', out) \<Longrightarrow>
   echo_server alloc u (Received d e # evs) =
     map_option (map_prod id (\<lambda>outs. out @ outs)) (echo_server alloc u' evs)"
  by (cases "echo_server alloc u' evs") auto

lemma map_out_id [simp]: "map_option (map_prod id (\<lambda>outs. outs)) r = r"
  by (cases r) auto

lemma server_partial:
  assumes ring: "ring_holds (take k (piece msg i)) c u"
    and d: "drop k (piece msg i) = d @ rest" "rest \<noteq> []" "d \<noteq> []" "length d \<le> RECVBUF_SIZE"
    and fits: "int (length (piece msg i)) \<le> c"
  shows "\<exists>r. ring_holds (take (k + length d) (piece msg i)) c (u\<lparr>ring := r\<rparr>) \<and>
             echo_server_merge alloc u d = Some (u\<lparr>ring := r\<rparr>, [])"
proof -
  let ?buf = "overwrite (replicate RECVBUF_SIZE 0) 0 d"
  have len: "length d \<le> length ?buf" using d(4) by simp
  have "k + length d < length (piece msg i)"
    using arg_cong [OF d(1), of length] d(2,3) by (cases rest) auto
  moreover have "take (k + length d) (piece msg i) = take k (piece msg i) @ take (length d) ?buf"
    using d(1) by (simp add: take_add recvbuf_prefix [OF d(4)])
  ultimately show ?thesis
    using merge_ex_partial [OF ring _ len _ fits, of alloc] d(4)
    by (auto simp: echo_server_merge_def Let_def)
qed

lemma server_last:
  assumes ring: "ring_holds (take k (piece msg i)) c u"
    and d: "drop k (piece msg i) = d" "d \<noteq> []" "length d \<le> RECVBUF_SIZE"
    and fits: "int (length (piece msg i)) \<le> c"
    and msg: "msg \<noteq> []" "length msg < 65536" and zero: "0 \<in> set msg"
    and rec: "receiving msg is u" and alloc: "alloc_total alloc"
    and i: "distinct (i # is)" "set (i # is) \<subseteq> {..<num_pieces msg}"
  shows "if length is + 1 = num_pieces msg
         then \<exists>u' rb. idle c u' \<and> length rb = length msg + 1 \<and> take (length msg) rb = msg \<and>
                echo_server_merge alloc u d = Some (u', [(rb, int (length msg), text_of msg)])
         else \<exists>u'. receiving msg (i # is) u' \<and> ring_holds [] c u' \<and>
                echo_server_merge alloc u d = Some (u', [])"
proof -
  let ?buf = "overwrite (replicate RECVBUF_SIZE 0) 0 d"
  have len: "length d \<le> length ?buf" using d(3) by simp
  have "k + length d = length (piece msg i)"
    using arg_cong [OF d(1), of length] d(2) by (cases d) auto
  moreover have "piece msg i = take k (piece msg i) @ take (length d) ?buf"
    using append_take_drop_id [of k "piece msg i"] d(1) by (simp add: recvbuf_prefix [OF d(3)])
  ultimately obtain u' g where m: "udp_piece_merge_ex alloc u ?buf (int (length d)) = Some (u', g)"
    "ring_holds [] c u'" "piece_done msg is i 0 u' g"
    using merge_ex_complete [OF ring _ len _ fits msg rec alloc i] by blast
  show ?thesis
  proof (cases "length is + 1 = num_pieces msg")
    case True
    then have "g = 1" "complete msg u'" using m(3) by (auto simp: piece_done_def)
    with True m idle_reset [OF m(2)] d(3) printf_s_msg [OF _ zero] show ?thesis
      by (auto simp: echo_server_merge_def Let_def complete_def)
  next
    case False
    then have "g = 0" "receiving msg (i # is) u'" using m(3) by (auto simp: piece_done_def)
    with False m d(3) show ?thesis by (auto simp: echo_server_merge_def Let_def)
  qed
qed

lemma server_piece:
  assumes ring: "ring_holds (take k (piece msg i)) c u" and k: "k < length (piece msg i)"
    and ds: "concat ds = drop k (piece msg i)" "datagrams_ok ds"
    and fits: "int (length (piece msg i)) \<le> c"
    and msg: "msg \<noteq> []" "length msg < 65536" and zero: "0 \<in> set msg"
    and rec: "receiving msg is u" and alloc: "alloc_total alloc"
    and i: "distinct (i # is)" "set (i # is) \<subseteq> {..<num_pieces msg}"
  shows "if length is + 1 = num_pieces msg
         then \<exists>u'. idle c u' \<and> delivers alloc u (rx ds) msg (text_of msg) u'
         else \<exists>u'. receiving msg (i # is) u' \<and> ring_holds [] c u' \<and>
                (\<forall>more. echo_server alloc u (rx ds @ more) = echo_server alloc u' more)"
  using ring k ds rec
proof (induction ds arbitrary: k u)
  case Nil
  then show ?case by simp
next
  case (Cons d ds)
  have d: "d \<noteq> []" "length d \<le> RECVBUF_SIZE" "datagrams_ok ds"
    using Cons.prems(4) by (auto simp: datagrams_ok_def)
  have split: "drop k (piece msg i) = d @ concat ds" using Cons.prems(3) by simp
  show ?case
  proof (cases "ds = []")
    case True
    with split have "drop k (piece msg i) = d" by simp
    note last = server_last [OF Cons.prems(1) this d(1,2) fits msg zero Cons.prems(5) alloc i]
    show ?thesis
    proof (cases "length is + 1 = num_pieces msg")
      case True
      with last obtain u' rb where u': "idle c u'" "length rb = length msg + 1"
        "take (length msg) rb = msg"
        "echo_server_merge alloc u d = Some (u', [(rb, int (length msg), text_of msg)])" by auto
      then have "delivers alloc u (rx [d]) msg (text_of msg) u'"
        using echo_server_received [OF d(1) u'(4)] by (auto simp: delivers_def rx_def)
      with True u'(1) \<open>ds = []\<close> show ?thesis by auto
    next
      case False
      with last obtain u' where u': "receiving msg (i # is) u'" "ring_holds [] c u'"
        "echo_server_merge alloc u d = Some (u', [])" by auto
      then have "\<forall>more. echo_server alloc u (rx [d] @ more) = echo_server alloc u' more"
        using echo_server_received [OF d(1) u'(3)] by (simp add: rx_def)
      with False u' \<open>ds = []\<close> show ?thesis by auto
    qed
  next
    case False
    then have ne: "concat ds \<noteq> []" using d(3) by (cases ds) (auto simp: datagrams_ok_def)
    obtain r where r: "ring_holds (take (k + length d) (piece msg i)) c (u\<lparr>ring := r\<rparr>)"
      "echo_server_merge alloc u d = Some (u\<lparr>ring := r\<rparr>, [])"
      using server_partial [OF Cons.prems(1) split ne d(1,2) fits] by blast
    have k': "k + length d < length (piece msg i)"
      using arg_cong [OF split, of length] ne Cons.prems(2) by (cases "concat ds") auto
    have "concat ds = drop (k + length d) (piece msg i)"
      using arg_cong [OF split, of "drop (length d)"] by (simp add: add.commute)
    note IH = Cons.IH [OF r(1) k' this d(3)]
    have "echo_server alloc u (rx (d # ds) @ more) = echo_server alloc (u\<lparr>ring := r\<rparr>) (rx ds @ more)" for more
      using echo_server_received [OF d(1) r(2)] by (simp add: rx_def)
    moreover from this have "delivers alloc u (rx (d # ds)) msg (text_of msg) = delivers alloc (u\<lparr>ring := r\<rparr>) (rx ds) msg (text_of msg)"
      by (simp add: delivers_def fun_eq_iff)
    ultimately show ?thesis using IH Cons.prems(5) by simp
  qed
qed

text \<open>All pieces, in any order, each in any split into datagrams.\<close>

lemma server_pieces:
  assumes "receiving msg is u" and "ring_holds [] c u" and "js \<noteq> []"
    and all: "distinct (js @ is)" "set (js @ is) \<subseteq> {..<num_pieces msg}" "length js + length is = num_pieces msg"
    and frs: "\<And>j. j < num_pieces msg \<Longrightarrow> concat (frs j) = piece msg j \<and> datagrams_ok (frs j)"
    and c: "548 \<le> c" and msg: "msg \<noteq> []" "length msg < 65536" and zero: "0 \<in> set msg" and alloc: "alloc_total alloc"
  shows "\<exists>u'. idle c u' \<and> delivers alloc u (rx (concat (map frs js))) msg (text_of msg) u'"
  using assms(1-6)
proof (induction js arbitrary: "is" u)
  case Nil
  then show ?case by simp
next
  case (Cons j js)
  have j: "j < num_pieces msg" using Cons.prems by simp
  have k: "0 < length (piece msg j)" by (simp add: piece_def)
  have fits: "int (length (piece msg j)) \<le> c"
    using c chunk_length_le [of msg j] by (simp add: piece_def)
  have j': "distinct (j # is)" "set (j # is) \<subseteq> {..<num_pieces msg}"
    using Cons.prems by auto
  have p: "ring_holds (take 0 (piece msg j)) c u" "concat (frs j) = drop 0 (piece msg j)" "datagrams_ok (frs j)"
    using Cons.prems frs [OF j] by auto
  note step = server_piece [OF p(1) k p(2,3) fits msg zero Cons.prems(1) alloc j']
  show ?case
  proof (cases "js = []")
    case True
    with step Cons.prems show ?thesis by simp
  next
    case False
    then have "length is + 1 \<noteq> num_pieces msg" using Cons.prems by (cases js) auto
    with step obtain u' where u': "receiving msg (j # is) u'" "ring_holds [] c u'"
      "\<And>more. echo_server alloc u (rx (frs j) @ more) = echo_server alloc u' more"
      by auto
    have "distinct (js @ j # is)" "set (js @ j # is) \<subseteq> {..<num_pieces msg}"
      "length js + length (j # is) = num_pieces msg" using Cons.prems by auto
    from Cons.IH [OF u'(1,2) False this] obtain u''
      where "idle c u''" "delivers alloc u' (rx (concat (map frs js))) msg (text_of msg) u''" by auto
    with u'(3) show ?thesis by (auto simp: delivers_def rx_def)
  qed
qed

section \<open>Reassembly of one datagram per piece\<close>

lemma load_nth: "i < length buf \<Longrightarrow> load buf (int i) = Some (buf ! i)"
  by (simp add: load_def)

lemma load16_at: "Suc k < length buf \<Longrightarrow> load16 buf (int k) = Some (be16 (buf ! k) (buf ! Suc k))"
  using load_nth [of k buf] load_nth [of "Suc k" buf] by (simp add: load16_def add.commute)

lemma load16_header:
  assumes "length msg < 65536" and "i < num_pieces msg"
  shows "load16 (piece msg i) HEAD_POS_TOTAL_SIZE = Some (length msg)"
    and "load16 (piece msg i) HEAD_POS_TOTAL_PIECES = Some (num_pieces msg)"
    and "load16 (piece msg i) HEAD_POS_P_INDEX = Some i"
    and "load16 (piece msg i) HEAD_POS_P_LENGTH = Some (length (chunk msg i))"
  using load16_at [of 2 "piece msg i"] load16_at [of 4 "piece msg i"]
    load16_at [of 6 "piece msg i"] load16_at [of 8 "piece msg i"]
    be16_bytes_nat [of "length msg"] be16_bytes_nat [of "num_pieces msg"] be16_bytes_nat [of i]
    be16_bytes_nat [of "length (chunk msg i)"] assms num_pieces_small [OF assms(1)]
    chunk_length_le [of msg i]
  by (simp_all add: piece_def header_def head_defs)

lemma merge_piece_correct:
  assumes msg: "msg \<noteq> []" "length msg < 65536"
    and rec: "receiving msg is u" and alloc: "alloc_total alloc"
    and i: "distinct (i # is)" "set (i # is) \<subseteq> {..<num_pieces msg}"
  shows "\<exists>u' g. merge_piece alloc u (piece msg i) 0 (length (chunk msg i)) got = Some (Inr (u', g)) \<and>
           piece_done msg is i got u' g"
proof -
  have n: "i < num_pieces msg" using i by simp
  note b = index_bounds [OF n]
  obtain u1 u2 rb where e: "group_start alloc (int (length msg)) (int (num_pieces msg)) u = (u1, True)"
      "group_switch alloc (int (length msg)) (int (num_pieces msg)) u1 = (u2, True)"
    and u2: "total_size u2 = int (length msg)" "total_pieces u2 = int (num_pieces msg)"
      "recv_pieces u2 = int (length is) + 1" "recv_len u2 = int (\<Sum>i\<leftarrow>is. length (chunk msg i))"
    and rb: "recv_buf u2 = Some rb" "length rb = length msg + 1" "agrees rb msg is"
    using group_enter [OF rec alloc msg(1)] by blast
  have "memcpy rb (536 * int i) (piece msg i) 12 (int (length (chunk msg i))) =
      Some (overwrite rb (536 * i) (chunk msg i))"
    using b rb by (subst memcpy_overwrite) (auto simp: piece_def nat_mult_distrib)
  moreover obtain u' g where "group_account (\<lambda>_. -1) (int (length (chunk msg i)))
      (u2\<lparr>recv_buf := Some (overwrite rb (536 * i) (chunk msg i))\<rparr>) got = (u', g)"
    "piece_done msg is i got u' g"
    using group_leave [OF u2 rb(2,3) i] by blast
  ultimately show ?thesis
    using e rb(1) by (simp add: merge_piece_def load16_header [OF msg(2) n] head_defs(6,7))
qed

lemma merge_scan_piece:
  "merge_scan (piece msg i) (length (piece msg i)) 0 sz = Some (0, sz)"
proof -
  obtain n where "length (piece msg i) = Suc n" by (simp add: piece_def)
  then show ?thesis by (simp add: load_def) (simp add: piece_def header_def)
qed

lemma udp_piece_merge_correct:
  assumes msg: "msg \<noteq> []" "length msg < 65536"
    and rec: "receiving msg is u" and alloc: "alloc_total alloc"
    and i: "distinct (i # is)" "set (i # is) \<subseteq> {..<num_pieces msg}"
  shows "\<exists>u' g. udp_piece_merge alloc u (piece msg i) (int (length (piece msg i))) = Some (u', g) \<and>
           piece_done msg is i 0 u' g"
proof -
  have n: "i < num_pieces msg" using i by simp
  obtain u' g where m: "merge_piece alloc u (piece msg i) 0 (length (chunk msg i)) 0 = Some (Inr (u', g))"
    "piece_done msg is i 0 u' g"
    using merge_piece_correct [OF assms] by blast
  have "merge_loop alloc u (piece msg i) 0 (int (length (piece msg i))) 0 = Some (u', g)"
    using m(1) load16_header(4) [OF msg(2) n] index_bounds(3) [OF n]
    by (subst merge_loop.simps)
      (simp add: HEAD_SIZE_def piece_def merge_loop.simps [of alloc u'])
  with m(2) show ?thesis
    by (simp add: udp_piece_merge_def merge_scan_piece)
qed

section \<open>Properties\<close>

lemma alloc_total_calloc: "alloc_total calloc_all"
  by (auto simp: alloc_total_def) (simp add: calloc_all_def)

lemma udp_piece_init_idle:
  assumes "alloc_total alloc" and "0 < c" and "2 * c \<le> INT_MAX"
  shows "\<exists>u. udp_piece_init True True alloc c = Some u \<and> idle c u"
proof -
  obtain blk where "alloc c = Some blk" "int (length blk) = c"
    by (rule alloc_totalE [OF assms(1), of c]) (use assms(2) in auto)
  then show ?thesis
    using assms cb_wf_init [of alloc c True]
    by (auto simp: udp_piece_init_def circular_buffer_init_def idle_def ring_holds_def cb_ok_def
        alloc_total_def)
qed

text \<open>
  C2. Reassembly does not depend on the network: whatever the order in which the pieces of
  a message of fewer than 65536 bytes with a zero byte in it arrive, and however each piece is split into
  datagrams, the server prints exactly once, from a receive buffer that starts with
  the bytes of the message, the text of the message up to its first zero byte and the length of the message, and it is
  idle again afterwards. No access is out of bounds.
\<close>

theorem reassembly_any_order:
  assumes "idle c u" and "548 \<le> c" and "0 \<in> set msg" and "length msg < 65536" and "alloc_total alloc"
    and "distinct js" and "set js = {..<num_pieces msg}"
    and "\<And>j. j < num_pieces msg \<Longrightarrow> concat (frs j) = piece msg j \<and> datagrams_ok (frs j)"
  shows "\<exists>u'. idle c u' \<and> delivers alloc u (rx (concat (map frs js))) msg (text_of msg) u'"
proof -
  have "msg \<noteq> []" using assms(3) by auto
  have "length js = num_pieces msg"
    using distinct_card [OF assms(6)] assms(7) by simp
  moreover have "num_pieces msg > 0"
    using num_pieces_le(2) [of msg] \<open>msg \<noteq> []\<close> by (cases "num_pieces msg") auto
  ultimately show ?thesis
    using assms \<open>msg \<noteq> []\<close> by (intro server_pieces [of msg "[]"]) (auto simp: receiving_def idle_def)
qed

theorem reassembly_any_order_witness:
  "\<exists>u u'. idle 1024 u \<and> delivers calloc_all u
     (rx [[0xAF], [0xAE, 0, 2, 0], [1, 0, 0, 0, 2, 0, 0, 7, 0]]) [7, 0] [7] u'"
proof -
  have np: "num_pieces [7, 0] = 1" by (simp add: num_pieces_def)
  have p: "piece [7, 0] 0 = [0xAF, 0xAE, 0, 2, 0, 1, 0, 0, 0, 2, 0, 0, 7, 0]"
    by (simp add: piece_def header_def chunk_def np byte_hi_def byte_lo_def)
  obtain u where u: "idle 1024 u"
    using udp_piece_init_idle [OF alloc_total_calloc, of 1024] by (auto simp: INT_MAX_def)
  let ?frs = "\<lambda>_::nat. [[0xAF], [0xAE, 0, 2, 0], [1, 0, 0, 0, 2, 0, 0, 7, 0 :: u8]]"
  have "\<exists>u'. idle 1024 u' \<and> delivers calloc_all u (rx (concat (map ?frs [0]))) [7, 0] (text_of [7, 0]) u'"
    by (rule reassembly_any_order [OF u _ _ _ alloc_total_calloc])
      (auto simp: np p datagrams_ok_def RECVBUF_SIZE_def)
  with u show ?thesis by (auto simp: text_of_def)
qed

text \<open>
  C3. The demo client against the demo server: what one round of the client sends for a C string
  of fewer than 65535 characters with its terminating zero (every piece as two datagrams, five bytes and the rest)
  makes a freshly started server with its 64 KiB ring print exactly that string, once.
\<close>

theorem client_to_server:
  assumes "0 \<notin> set str" and "length str < 65535" and "alloc_total alloc"
  shows "\<exists>us uc ds u'. udp_piece_init True True alloc (64 * 1024) = Some us \<and>
           echo_client_round u0 (str @ [0]) = Some (uc, ds) \<and>
           delivers alloc us (rx ds) (str @ [0]) str u' \<and> idle (64 * 1024) u'"
proof -
  let ?msg = "str @ [0]"
  have tx: "text_of ?msg = str" unfolding text_of_def using assms(1) by (subst takeWhile_append2) auto
  have msg: "?msg \<noteq> []" "length ?msg < 65536" "0 \<in> set ?msg" using assms(2) by auto
  obtain us where us: "udp_piece_init True True alloc (64 * 1024) = Some us" "idle (64 * 1024) us"
    using udp_piece_init_idle [OF assms(3), of "64 * 1024"] by (auto simp: INT_MAX_def)
  let ?n = "num_pieces ?msg" and ?frs = "\<lambda>j. [take 5 (piece ?msg j), drop 5 (piece ?msg j)]"
  obtain u1 where "udp_piece_cut (Some u0) ?msg (int (length ?msg)) = (Some u1, int ?n)" "cut_state ?msg u1"
    using udp_piece_cut_correct by blast
  with client_send_correct [of ?msg u1 0 ?n]
  obtain uc where uc: "echo_client_round u0 ?msg = Some (uc, concat (map ?frs [0..<?n]))"
    by (auto simp: echo_client_round_def)
  have frs: "concat (?frs j) = piece ?msg j \<and> datagrams_ok (?frs j)" if "j < ?n" for j
    using chunk_length_le [of ?msg j] by (auto simp: datagrams_ok_def piece_def header_def RECVBUF_SIZE_def)
  have "length [0..<?n] + length ([]::nat list) = ?n" by simp
  moreover have "?n > 0" using num_pieces_le(2) [of ?msg] by (cases ?n) auto
  ultimately obtain u' where "idle (64 * 1024) u'" "delivers alloc us (rx (concat (map ?frs [0..<?n]))) ?msg (text_of ?msg) u'"
    using server_pieces [of ?msg "[]" us "64 * 1024" "[0..<?n]" ?frs, OF _ _ _ _ _ _ frs _ msg assms(3)] us(2)
    by (auto simp: receiving_def idle_def atLeast0LessThan)
  with us uc show ?thesis unfolding tx by blast
qed

theorem client_to_server_witness:
  "\<exists>us uc ds u'. udp_piece_init True True calloc_all (64 * 1024) = Some us \<and>
     echo_client_round us ([1, 2, 3] @ [0]) = Some (uc, ds) \<and>
     delivers calloc_all us (rx ds) ([1, 2, 3] @ [0]) [1, 2, 3] u' \<and> idle (64 * 1024) u'"
proof -
  obtain us where us: "udp_piece_init True True calloc_all (64 * 1024) = Some us"
    using udp_piece_init_idle [OF alloc_total_calloc, of "64 * 1024"] by (auto simp: INT_MAX_def)
  have "\<exists>us' uc ds u'. udp_piece_init True True calloc_all (64 * 1024) = Some us' \<and>
     echo_client_round us ([1, 2, 3] @ [0]) = Some (uc, ds) \<and>
     delivers calloc_all us' (rx ds) ([1, 2, 3] @ [0]) [1, 2, 3] u' \<and> idle (64 * 1024) u'"
    by (rule client_to_server) (simp_all add: alloc_total_calloc)
  with us show ?thesis by auto
qed

text \<open>
  A message without a zero byte makes the server print from an unterminated buffer: nobody writes the byte
  that \<open>malloc\<close> adds behind the message, and when it is not zero \<open>printf\<close> reads behind the block.
\<close>

lemma print_unterminated:
  assumes "udp_piece_merge_ex alloc u (overwrite (replicate RECVBUF_SIZE 0) 0 (take (min (length d) RECVBUF_SIZE) d)) (int (min (length d) RECVBUF_SIZE)) = Some (u1, 1)"
    and "recv_buf u1 = Some rb" and "0 \<notin> set rb" and "d \<noteq> []"
  shows "echo_server alloc u (Received d e # evs) = None"
  using assms by (simp add: echo_server_merge_def printf_s_def)

text \<open>Merging a sequence of datagrams, with the return value of every call.\<close>

fun merge_seq :: "allocator \<Rightarrow> udp_piece \<Rightarrow> u8 list list \<Rightarrow> (udp_piece \<times> int list) option" where
  "merge_seq alloc u [] = Some (u, [])"
| "merge_seq alloc u (d # ds) = do {
     (u', r) \<leftarrow> udp_piece_merge alloc u d (int (length d));
     (u'', rs) \<leftarrow> merge_seq alloc u' ds;
     Some (u'', r # rs)
   }"

lemma merge_seq_pieces:
  assumes "receiving msg is u" and "js \<noteq> []"
    and "distinct (js @ is)" "set (js @ is) \<subseteq> {..<num_pieces msg}"
      "length js + length is = num_pieces msg"
    and msg: "msg \<noteq> []" "length msg < 65536" and alloc: "alloc_total alloc"
  shows "\<exists>u'. merge_seq alloc u (map (piece msg) js) =
           Some (u', replicate (length js - 1) 0 @ [1]) \<and> complete msg u'"
  using assms(1-5)
proof (induction js arbitrary: "is" u)
  case Nil
  then show ?case by simp
next
  case (Cons j js)
  have j: "distinct (j # is)" "set (j # is) \<subseteq> {..<num_pieces msg}" using Cons.prems by auto
  obtain u1 g where m: "udp_piece_merge alloc u (piece msg j) (int (length (piece msg j))) = Some (u1, g)"
    "piece_done msg is j 0 u1 g"
    using udp_piece_merge_correct [OF msg Cons.prems(1) alloc j] by blast
  show ?case
  proof (cases "js = []")
    case True
    with m Cons.prems show ?thesis by (simp add: piece_done_def)
  next
    case False
    then have "g = 0" and rec: "receiving msg (j # is) u1"
      using m(2) Cons.prems by (cases js; simp add: piece_done_def)+
    moreover have "distinct (js @ j # is)" "set (js @ j # is) \<subseteq> {..<num_pieces msg}"
      "length js + length (j # is) = num_pieces msg" using Cons.prems by auto
    moreover have "0 # replicate (length js - 1) 0 = (replicate (length js) 0 :: int list)"
      using False by (cases js) auto
    ultimately show ?thesis
      using Cons.IH [OF rec False] m(1) by (auto simp flip: append_Cons)
  qed
qed

text \<open>
  C4. With one datagram per piece, \<open>udp_piece_merge\<close> on the pieces of a message in any
  order returns 0 for all but the last of them and 1 for the last; the receive buffer then
  starts with the message and \<open>recv_len\<close> is its length.
\<close>

theorem merge_any_order:
  assumes "total_size u = 0" and "msg \<noteq> []" and "length msg < 65536" and "alloc_total alloc"
    and "distinct js" and "set js = {..<num_pieces msg}"
  shows "\<exists>u'. merge_seq alloc u (map (piece msg) js) =
           Some (u', replicate (num_pieces msg - 1) 0 @ [1]) \<and> complete msg u'"
proof -
  have n: "length js = num_pieces msg" using distinct_card [OF assms(5)] assms(6) by simp
  have "num_pieces msg > 0" using num_pieces_le(2) [of msg] assms(2) by (cases "num_pieces msg") auto
  then have "js \<noteq> []" using n by auto
  then show ?thesis
    using merge_seq_pieces [of msg "[]" u js alloc] n assms by (auto simp: receiving_def)
qed

theorem merge_any_order_witness:
  "\<exists>u u'. merge_seq calloc_all u [piece (replicate 600 5) 1, piece (replicate 600 5) 0] =
     Some (u', [0, 1]) \<and> complete (replicate 600 5) u'"
proof -
  obtain u :: udp_piece where u: "total_size u = 0"
    using udp_piece_init_idle [OF alloc_total_calloc, of 1024] by (auto simp: INT_MAX_def idle_def)
  have np: "num_pieces (replicate 600 5) = 2" by (simp add: num_pieces_def)
  have "\<exists>u'. merge_seq calloc_all u (map (piece (replicate 600 5)) [1, 0]) =
      Some (u', replicate (num_pieces (replicate 600 5) - 1) 0 @ [1]) \<and> complete (replicate 600 5) u'"
    by (rule merge_any_order [OF u _ _ alloc_total_calloc]) (auto simp: np)
  then show ?thesis by (auto simp: np)
qed

text \<open>A piece as any sender may write it, with arbitrary header fields.\<close>

definition raw_piece :: "nat \<Rightarrow> nat \<Rightarrow> nat \<Rightarrow> u8 list \<Rightarrow> u8 list" where
  "raw_piece ts tp p_index data =
     [0xAF, 0xAE, byte_hi (int ts), byte_lo (int ts), byte_hi (int tp), byte_lo (int tp),
      byte_hi (int p_index), byte_lo (int p_index),
      byte_hi (int (length data)), byte_lo (int (length data)), 0, 0] @ data"

text \<open>
  The index of a piece is not checked: a datagram whose piece lies beyond the announced
  total size makes \<open>udp_piece_merge\<close> write outside the receive buffer it has just allocated.
\<close>

lemma merge_index_unchecked:
  assumes "total_size u = 0" and "alloc_total alloc"
    and "ts < 65536" and "tp < 65536" and "p_index < 65536" and "0 < length data" and "length data < 65536"
    and "ts + 1 < 536 * p_index + length data"
  shows "udp_piece_merge alloc u (raw_piece ts tp p_index data) (12 + int (length data)) = None"
proof -
  let ?b = "raw_piece ts tp p_index data"
  have f: "load16 ?b 2 = Some ts" "load16 ?b 4 = Some tp" "load16 ?b 6 = Some p_index"
    "load16 ?b 8 = Some (length data)"
    using load16_at [of 2 ?b] load16_at [of 4 ?b] load16_at [of 6 ?b] load16_at [of 8 ?b] assms(3-7)
    by (simp_all add: raw_piece_def be16_bytes_nat)
  obtain rb where rb: "alloc (int ts + 1) = Some rb" "int (length rb) = int ts + 1"
    by (rule alloc_totalE [OF assms(2), of "int ts + 1"]) auto
  have "memcpy rb (536 * int p_index) ?b 12 (int (length data)) = None"
    using assms(8) rb(2) by (auto simp: memcpy_def)
  then have mp: "merge_piece alloc u ?b 0 (length data) 0 = None"
    using f rb assms(1)
    by (cases "ts = 0") (simp_all add: merge_piece_def group_start_def group_switch_def group_alloc_def
        head_defs Let_def)
  obtain n where n: "nat (12 + int (length data)) = Suc n"
    by (cases "nat (12 + int (length data))") auto
  have "merge_scan ?b (Suc n) 0 sz = Some (0, sz)" for sz
    by (simp add: raw_piece_def load_def)
  moreover have "merge_loop alloc u ?b 0 (12 + int (length data)) 0 = None"
    using f(4) mp assms(6) by (subst merge_loop.simps) (simp add: head_defs)
  ultimately show ?thesis by (simp add: udp_piece_merge_def n)
qed

lemma merge_index_unchecked_witness:
  "\<exists>u. total_size u = 0 \<and> udp_piece_merge calloc_all u (raw_piece 1 1 3 [42]) 13 = None"
proof -
  obtain u :: udp_piece where u: "total_size u = 0"
    using udp_piece_init_idle [OF alloc_total_calloc, of 1024] by (auto simp: INT_MAX_def idle_def)
  have "udp_piece_merge calloc_all u (raw_piece 1 1 3 [42]) (12 + int (length [42 :: u8])) = None"
    by (rule merge_index_unchecked [OF u alloc_total_calloc]) simp_all
  with u show ?thesis by auto
qed

end
