(* ===== verification/Rbtree.thy ===== *)
theory Rbtree
  imports Prelude
begin

text \<open>
  The red-black tree of \<open>src/heartbeat/ngx_rbtree.c\<close> on an explicit heap: a partial map from
  addresses to nodes, with 0 the null address. Every dereference of the code is a lookup in
  the heap, so that a dereference of an invalid pointer is \<^const>\<open>None\<close>; loops that need
  not stop on an arbitrary heap are \<^theory_text>\<open>partial_function (option)\<close>, and their termination
  on well-formed trees is proved in \<open>Rbtree_Insert\<close> and \<open>Rbtree_Delete\<close>.

  The colour of a node (a \<open>char\<close> that is 1 for red and 0 for black) is a Boolean, true for
  red. The unused field \<open>data\<close> is left out.
\<close>

section \<open>Nodes, heaps and trees\<close>

record rbnode =
  rb_key :: u64
  rb_left :: nat
  rb_right :: nat
  rb_parent :: nat
  rb_color :: bool

type_synonym rbheap = "nat \<rightharpoonup> rbnode"

record rbtree =
  rbt_root :: nat
  rbt_sentinel :: nat
  rbt_insert :: "rbheap \<Rightarrow> nat \<Rightarrow> nat \<Rightarrow> nat \<Rightarrow> rbheap option"

abbreviation NULL :: nat where "NULL \<equiv> 0"

definition rd :: "rbheap \<Rightarrow> nat \<Rightarrow> (rbnode \<Rightarrow> 'a) \<Rightarrow> 'a option" where
  "rd h p f = (case h p of None \<Rightarrow> None | Some n \<Rightarrow> Some (f n))"

definition wr :: "rbheap \<Rightarrow> nat \<Rightarrow> (rbnode \<Rightarrow> rbnode) \<Rightarrow> rbheap option" where
  "wr h p f = (case h p of None \<Rightarrow> None | Some n \<Rightarrow> Some (h(p \<mapsto> f n)))"

definition set_left :: "rbheap \<Rightarrow> nat \<Rightarrow> nat \<Rightarrow> rbheap option" where
  "set_left h p v = wr h p (\<lambda>n. n\<lparr>rb_left := v\<rparr>)"

definition set_right :: "rbheap \<Rightarrow> nat \<Rightarrow> nat \<Rightarrow> rbheap option" where
  "set_right h p v = wr h p (\<lambda>n. n\<lparr>rb_right := v\<rparr>)"

definition set_parent :: "rbheap \<Rightarrow> nat \<Rightarrow> nat \<Rightarrow> rbheap option" where
  "set_parent h p v = wr h p (\<lambda>n. n\<lparr>rb_parent := v\<rparr>)"

definition set_key :: "rbheap \<Rightarrow> nat \<Rightarrow> u64 \<Rightarrow> rbheap option" where
  "set_key h p v = wr h p (\<lambda>n. n\<lparr>rb_key := v\<rparr>)"

definition ngx_rbt_red :: "rbheap \<Rightarrow> nat \<Rightarrow> rbheap option" where
  "ngx_rbt_red h p = wr h p (\<lambda>n. n\<lparr>rb_color := True\<rparr>)"

definition ngx_rbt_black :: "rbheap \<Rightarrow> nat \<Rightarrow> rbheap option" where
  "ngx_rbt_black h p = wr h p (\<lambda>n. n\<lparr>rb_color := False\<rparr>)"

definition ngx_rbt_is_red :: "rbheap \<Rightarrow> nat \<Rightarrow> bool option" where
  "ngx_rbt_is_red h p = rd h p rb_color"

definition ngx_rbt_is_black :: "rbheap \<Rightarrow> nat \<Rightarrow> bool option" where
  "ngx_rbt_is_black h p = do { c \<leftarrow> ngx_rbt_is_red h p; Some (\<not> c) }"

definition ngx_rbt_copy_color :: "rbheap \<Rightarrow> nat \<Rightarrow> nat \<Rightarrow> rbheap option" where
  "ngx_rbt_copy_color h n1 n2 = do { c \<leftarrow> rd h n2 rb_color; wr h n1 (\<lambda>n. n\<lparr>rb_color := c\<rparr>) }"

definition ngx_rbtree_init ::
  "rbheap \<Rightarrow> nat \<Rightarrow> (rbheap \<Rightarrow> nat \<Rightarrow> nat \<Rightarrow> nat \<Rightarrow> rbheap option) \<Rightarrow> (rbheap \<times> rbtree) option" where
  "ngx_rbtree_init h s i = do {
     h1 \<leftarrow> ngx_rbt_black h s;
     Some (h1, \<lparr>rbt_root = s, rbt_sentinel = s, rbt_insert = i\<rparr>)
   }"

partial_function (option) ngx_rbtree_min :: "rbheap \<Rightarrow> nat \<Rightarrow> nat \<Rightarrow> nat option" where
  "ngx_rbtree_min h node sentinel =
     (if node = NULL then Some NULL
      else do {
        l \<leftarrow> rd h node rb_left;
        if l \<noteq> sentinel then ngx_rbtree_min h l sentinel else Some node
      })"

section \<open>Rotations\<close>

definition ngx_rbtree_left_rotate :: "rbheap \<Rightarrow> nat \<Rightarrow> nat \<Rightarrow> nat \<Rightarrow> (rbheap \<times> nat) option" where
  "ngx_rbtree_left_rotate h root sentinel node = do {
     temp \<leftarrow> rd h node rb_right;
     tl \<leftarrow> rd h temp rb_left;
     h1 \<leftarrow> set_right h node tl;
     tl1 \<leftarrow> rd h1 temp rb_left;
     h2 \<leftarrow> (if tl1 \<noteq> sentinel then set_parent h1 tl1 node else Some h1);
     np \<leftarrow> rd h2 node rb_parent;
     h3 \<leftarrow> set_parent h2 temp np;
     (h4, root1) \<leftarrow>
       (if node = root then Some (h3, temp)
        else do {
          np3 \<leftarrow> rd h3 node rb_parent;
          pl \<leftarrow> rd h3 np3 rb_left;
          h4 \<leftarrow> (if node = pl then set_left h3 np3 temp else set_right h3 np3 temp);
          Some (h4, root)
        });
     h5 \<leftarrow> set_left h4 temp node;
     h6 \<leftarrow> set_parent h5 node temp;
     Some (h6, root1)
   }"

definition ngx_rbtree_right_rotate :: "rbheap \<Rightarrow> nat \<Rightarrow> nat \<Rightarrow> nat \<Rightarrow> (rbheap \<times> nat) option" where
  "ngx_rbtree_right_rotate h root sentinel node = do {
     temp \<leftarrow> rd h node rb_left;
     tr \<leftarrow> rd h temp rb_right;
     h1 \<leftarrow> set_left h node tr;
     tr1 \<leftarrow> rd h1 temp rb_right;
     h2 \<leftarrow> (if tr1 \<noteq> sentinel then set_parent h1 tr1 node else Some h1);
     np \<leftarrow> rd h2 node rb_parent;
     h3 \<leftarrow> set_parent h2 temp np;
     (h4, root1) \<leftarrow>
       (if node = root then Some (h3, temp)
        else do {
          np3 \<leftarrow> rd h3 node rb_parent;
          pr \<leftarrow> rd h3 np3 rb_right;
          h4 \<leftarrow> (if node = pr then set_right h3 np3 temp else set_left h3 np3 temp);
          Some (h4, root)
        });
     h5 \<leftarrow> set_right h4 temp node;
     h6 \<leftarrow> set_parent h5 node temp;
     Some (h6, root1)
   }"

section \<open>Insertion\<close>

text \<open>
  The binary-tree insertion below a node: \<open>lt\<close> is the comparison of the two variants. The
  loop finds the parent and the side (true for the left) of the new leaf.
\<close>

partial_function (option) insert_position ::
  "(u64 \<Rightarrow> u64 \<Rightarrow> bool) \<Rightarrow> rbheap \<Rightarrow> nat \<Rightarrow> nat \<Rightarrow> nat \<Rightarrow> (nat \<times> bool) option" where
  "insert_position lt h temp node sentinel = do {
     nk \<leftarrow> rd h node rb_key;
     tk \<leftarrow> rd h temp rb_key;
     p \<leftarrow> rd h temp (if lt nk tk then rb_left else rb_right);
     if p = sentinel then Some (temp, lt nk tk)
     else insert_position lt h p node sentinel
   }"

definition insert_below ::
  "(u64 \<Rightarrow> u64 \<Rightarrow> bool) \<Rightarrow> rbheap \<Rightarrow> nat \<Rightarrow> nat \<Rightarrow> nat \<Rightarrow> rbheap option" where
  "insert_below lt h temp node sentinel = do {
     (t, is_left) \<leftarrow> insert_position lt h temp node sentinel;
     h1 \<leftarrow> (if is_left then set_left h t node else set_right h t node);
     h2 \<leftarrow> set_parent h1 node t;
     h3 \<leftarrow> set_left h2 node sentinel;
     h4 \<leftarrow> set_right h3 node sentinel;
     ngx_rbt_red h4 node
   }"

definition ngx_rbtree_insert_value :: "rbheap \<Rightarrow> nat \<Rightarrow> nat \<Rightarrow> nat \<Rightarrow> rbheap option" where
  "ngx_rbtree_insert_value = insert_below (\<lambda>nk tk. nk < tk)"

text \<open>
  Timer keys are milliseconds that wrap around: the difference is read as a signed number.
\<close>

definition timer_less :: "u64 \<Rightarrow> u64 \<Rightarrow> bool" where
  "timer_less nk tk \<longleftrightarrow> sint (nk - tk) < 0"

definition ngx_rbtree_insert_timer_value :: "rbheap \<Rightarrow> nat \<Rightarrow> nat \<Rightarrow> nat \<Rightarrow> rbheap option" where
  "ngx_rbtree_insert_timer_value = insert_below timer_less"

text \<open>One iteration of the re-balancing loop, for a node whose parent is red.\<close>

definition insert_fix_body :: "rbheap \<Rightarrow> nat \<Rightarrow> nat \<Rightarrow> nat \<Rightarrow> (rbheap \<times> nat \<times> nat) option" where
  "insert_fix_body h root sentinel node = do {
     p \<leftarrow> rd h node rb_parent;
     g \<leftarrow> rd h p rb_parent;
     gl \<leftarrow> rd h g rb_left;
     if p = gl then do {
       temp \<leftarrow> rd h g rb_right;
       tred \<leftarrow> ngx_rbt_is_red h temp;
       if tred then do {
         h1 \<leftarrow> ngx_rbt_black h p;
         h2 \<leftarrow> ngx_rbt_black h1 temp;
         h3 \<leftarrow> ngx_rbt_red h2 g;
         Some (h3, root, g)
       } else do {
         pr \<leftarrow> rd h p rb_right;
         (h1, root1, node1) \<leftarrow>
           (if node = pr then do {
              (h1, root1) \<leftarrow> ngx_rbtree_left_rotate h root sentinel p;
              Some (h1, root1, p)
            } else Some (h, root, node));
         p1 \<leftarrow> rd h1 node1 rb_parent;
         h2 \<leftarrow> ngx_rbt_black h1 p1;
         g1 \<leftarrow> rd h2 p1 rb_parent;
         h3 \<leftarrow> ngx_rbt_red h2 g1;
         (h4, root2) \<leftarrow> ngx_rbtree_right_rotate h3 root1 sentinel g1;
         Some (h4, root2, node1)
       }
     } else do {
       temp \<leftarrow> rd h g rb_left;
       tred \<leftarrow> ngx_rbt_is_red h temp;
       if tred then do {
         h1 \<leftarrow> ngx_rbt_black h p;
         h2 \<leftarrow> ngx_rbt_black h1 temp;
         h3 \<leftarrow> ngx_rbt_red h2 g;
         Some (h3, root, g)
       } else do {
         pl \<leftarrow> rd h p rb_left;
         (h1, root1, node1) \<leftarrow>
           (if node = pl then do {
              (h1, root1) \<leftarrow> ngx_rbtree_right_rotate h root sentinel p;
              Some (h1, root1, p)
            } else Some (h, root, node));
         p1 \<leftarrow> rd h1 node1 rb_parent;
         h2 \<leftarrow> ngx_rbt_black h1 p1;
         g1 \<leftarrow> rd h2 p1 rb_parent;
         h3 \<leftarrow> ngx_rbt_red h2 g1;
         (h4, root2) \<leftarrow> ngx_rbtree_left_rotate h3 root1 sentinel g1;
         Some (h4, root2, node1)
       }
     }
   }"

partial_function (option) insert_fix :: "rbheap \<Rightarrow> nat \<Rightarrow> nat \<Rightarrow> nat \<Rightarrow> (rbheap \<times> nat) option" where
  "insert_fix h root sentinel node =
     (if node = root then Some (h, root)
      else do {
        p \<leftarrow> rd h node rb_parent;
        pred \<leftarrow> ngx_rbt_is_red h p;
        if pred then do {
          (h1, root1, node1) \<leftarrow> insert_fix_body h root sentinel node;
          insert_fix h1 root1 sentinel node1
        } else Some (h, root)
      })"

definition ngx_rbtree_insert :: "rbheap \<Rightarrow> rbtree \<Rightarrow> nat \<Rightarrow> (rbheap \<times> rbtree) option" where
  "ngx_rbtree_insert h tree node = do {
     let root = rbt_root tree;
     let sentinel = rbt_sentinel tree;
     if root = sentinel then do {
       h1 \<leftarrow> set_parent h node NULL;
       h2 \<leftarrow> set_left h1 node sentinel;
       h3 \<leftarrow> set_right h2 node sentinel;
       h4 \<leftarrow> ngx_rbt_black h3 node;
       Some (h4, tree\<lparr>rbt_root := node\<rparr>)
     } else do {
       h1 \<leftarrow> rbt_insert tree h root node sentinel;
       (h2, root2) \<leftarrow> insert_fix h1 root sentinel node;
       h3 \<leftarrow> ngx_rbt_black h2 root2;
       Some (h3, tree\<lparr>rbt_root := root2\<rparr>)
     }
   }"

section \<open>Deletion\<close>

text \<open>The fields of a removed node are cleared.\<close>

definition clear_node :: "rbheap \<Rightarrow> nat \<Rightarrow> rbheap option" where
  "clear_node h node = do {
     h1 \<leftarrow> set_left h node NULL;
     h2 \<leftarrow> set_right h1 node NULL;
     h3 \<leftarrow> set_parent h2 node NULL;
     set_key h3 node 0
   }"

text \<open>The node that leaves its place, \<open>subst\<close>, and the child \<open>temp\<close> that takes it.\<close>

definition delete_choose :: "rbheap \<Rightarrow> nat \<Rightarrow> nat \<Rightarrow> (nat \<times> nat) option" where
  "delete_choose h sentinel node = do {
     l \<leftarrow> rd h node rb_left;
     r \<leftarrow> rd h node rb_right;
     if l = sentinel then Some (node, r)
     else if r = sentinel then Some (node, l)
     else do {
       subst \<leftarrow> ngx_rbtree_min h r sentinel;
       sl \<leftarrow> rd h subst rb_left;
       temp \<leftarrow> (if sl \<noteq> sentinel then Some sl else rd h subst rb_right);
       Some (subst, temp)
     }
   }"

text \<open>\<open>subst\<close> takes the place of \<open>node\<close>: its links, its colour, and the links to it.\<close>

definition delete_transplant ::
  "rbheap \<Rightarrow> nat \<Rightarrow> nat \<Rightarrow> nat \<Rightarrow> nat \<Rightarrow> (rbheap \<times> nat) option" where
  "delete_transplant h root sentinel node subst = do {
     nl \<leftarrow> rd h node rb_left;
     h1 \<leftarrow> set_left h subst nl;
     nr \<leftarrow> rd h1 node rb_right;
     h2 \<leftarrow> set_right h1 subst nr;
     np \<leftarrow> rd h2 node rb_parent;
     h3 \<leftarrow> set_parent h2 subst np;
     h4 \<leftarrow> ngx_rbt_copy_color h3 subst node;
     (h5, root1) \<leftarrow>
       (if node = root then Some (h4, subst)
        else do {
          np4 \<leftarrow> rd h4 node rb_parent;
          pl \<leftarrow> rd h4 np4 rb_left;
          h5 \<leftarrow> (if node = pl then set_left h4 np4 subst else set_right h4 np4 subst);
          Some (h5, root)
        });
     sl \<leftarrow> rd h5 subst rb_left;
     h6 \<leftarrow> (if sl \<noteq> sentinel then set_parent h5 sl subst else Some h5);
     sr \<leftarrow> rd h6 subst rb_right;
     h7 \<leftarrow> (if sr \<noteq> sentinel then set_parent h6 sr subst else Some h6);
     Some (h7, root1)
   }"

text \<open>\<open>temp\<close> is hung below the parent of \<open>subst\<close>.\<close>

definition delete_splice :: "rbheap \<Rightarrow> nat \<Rightarrow> nat \<Rightarrow> nat \<Rightarrow> rbheap option" where
  "delete_splice h node subst temp = do {
     sp \<leftarrow> rd h subst rb_parent;
     spl \<leftarrow> rd h sp rb_left;
     h1 \<leftarrow> (if subst = spl then set_left h sp temp else set_right h sp temp);
     sp1 \<leftarrow> rd h1 subst rb_parent;
     set_parent h1 temp (if subst \<noteq> node \<and> sp1 = node then subst else sp1)
   }"

text \<open>
  One iteration of the fix-up loop, for a black node that is not the root: its two halves, for
  a left and for a right child, each with the step for a red sibling and what follows for a
  black one.
\<close>

definition delete_red_sibling_left ::
  "rbheap \<Rightarrow> nat \<Rightarrow> nat \<Rightarrow> nat \<Rightarrow> nat \<Rightarrow> nat \<Rightarrow> (rbheap \<times> nat \<times> nat) option" where
  "delete_red_sibling_left h root sentinel temp p w = do {
     h1 \<leftarrow> ngx_rbt_black h w;
     h2 \<leftarrow> ngx_rbt_red h1 p;
     (h3, root1) \<leftarrow> ngx_rbtree_left_rotate h2 root sentinel p;
     p1 \<leftarrow> rd h3 temp rb_parent;
     w1 \<leftarrow> rd h3 p1 rb_right;
     Some (h3, root1, w1)
   }"

definition delete_black_sibling_left ::
  "rbheap \<Rightarrow> nat \<Rightarrow> nat \<Rightarrow> nat \<Rightarrow> nat \<Rightarrow> (rbheap \<times> nat \<times> nat) option" where
  "delete_black_sibling_left h root sentinel temp w = do {
     wl \<leftarrow> rd h w rb_left;
     wlb \<leftarrow> ngx_rbt_is_black h wl;
     wr' \<leftarrow> rd h w rb_right;
     wrb \<leftarrow> ngx_rbt_is_black h wr';
     if wlb \<and> wrb then do {
       h1 \<leftarrow> ngx_rbt_red h w;
       p \<leftarrow> rd h1 temp rb_parent;
       Some (h1, root, p)
     } else do {
       (h1, root1, w1) \<leftarrow>
         (if wrb then do {
            h2 \<leftarrow> ngx_rbt_black h wl;
            h3 \<leftarrow> ngx_rbt_red h2 w;
            (h4, root2) \<leftarrow> ngx_rbtree_right_rotate h3 root sentinel w;
            p \<leftarrow> rd h4 temp rb_parent;
            w2 \<leftarrow> rd h4 p rb_right;
            Some (h4, root2, w2)
          } else Some (h, root, w));
       p \<leftarrow> rd h1 temp rb_parent;
       h2 \<leftarrow> ngx_rbt_copy_color h1 w1 p;
       h3 \<leftarrow> ngx_rbt_black h2 p;
       w1r \<leftarrow> rd h3 w1 rb_right;
       h4 \<leftarrow> ngx_rbt_black h3 w1r;
       (h5, root2) \<leftarrow> ngx_rbtree_left_rotate h4 root1 sentinel p;
       Some (h5, root2, root2)
     }
   }"

definition delete_red_sibling_right ::
  "rbheap \<Rightarrow> nat \<Rightarrow> nat \<Rightarrow> nat \<Rightarrow> nat \<Rightarrow> nat \<Rightarrow> (rbheap \<times> nat \<times> nat) option" where
  "delete_red_sibling_right h root sentinel temp p w = do {
     h1 \<leftarrow> ngx_rbt_black h w;
     h2 \<leftarrow> ngx_rbt_red h1 p;
     (h3, root1) \<leftarrow> ngx_rbtree_right_rotate h2 root sentinel p;
     p1 \<leftarrow> rd h3 temp rb_parent;
     w1 \<leftarrow> rd h3 p1 rb_left;
     Some (h3, root1, w1)
   }"

definition delete_black_sibling_right ::
  "rbheap \<Rightarrow> nat \<Rightarrow> nat \<Rightarrow> nat \<Rightarrow> nat \<Rightarrow> (rbheap \<times> nat \<times> nat) option" where
  "delete_black_sibling_right h root sentinel temp w = do {
     wl \<leftarrow> rd h w rb_left;
     wlb \<leftarrow> ngx_rbt_is_black h wl;
     wrb \<leftarrow> (if wlb then do { wr' \<leftarrow> rd h w rb_right; ngx_rbt_is_black h wr' } else Some False);
     if wlb \<and> wrb then do {
       h1 \<leftarrow> ngx_rbt_red h w;
       p \<leftarrow> rd h1 temp rb_parent;
       Some (h1, root, p)
     } else do {
       (h1, root1, w1) \<leftarrow>
         (if wlb then do {
            wr' \<leftarrow> rd h w rb_right;
            h2 \<leftarrow> ngx_rbt_black h wr';
            h3 \<leftarrow> ngx_rbt_red h2 w;
            (h4, root2) \<leftarrow> ngx_rbtree_left_rotate h3 root sentinel w;
            p \<leftarrow> rd h4 temp rb_parent;
            w2 \<leftarrow> rd h4 p rb_left;
            Some (h4, root2, w2)
          } else Some (h, root, w));
       p \<leftarrow> rd h1 temp rb_parent;
       h2 \<leftarrow> ngx_rbt_copy_color h1 w1 p;
       h3 \<leftarrow> ngx_rbt_black h2 p;
       w1l \<leftarrow> rd h3 w1 rb_left;
       h4 \<leftarrow> ngx_rbt_black h3 w1l;
       (h5, root2) \<leftarrow> ngx_rbtree_right_rotate h4 root1 sentinel p;
       Some (h5, root2, root2)
     }
   }"

definition delete_fix_body :: "rbheap \<Rightarrow> nat \<Rightarrow> nat \<Rightarrow> nat \<Rightarrow> (rbheap \<times> nat \<times> nat) option" where
  "delete_fix_body h root sentinel temp = do {
     p \<leftarrow> rd h temp rb_parent;
     pl \<leftarrow> rd h p rb_left;
     if temp = pl then do {
       w \<leftarrow> rd h p rb_right;
       wred \<leftarrow> ngx_rbt_is_red h w;
       (h1, root1, w1) \<leftarrow>
         (if wred then delete_red_sibling_left h root sentinel temp p w else Some (h, root, w));
       delete_black_sibling_left h1 root1 sentinel temp w1
     } else do {
       w \<leftarrow> rd h p rb_left;
       wred \<leftarrow> ngx_rbt_is_red h w;
       (h1, root1, w1) \<leftarrow>
         (if wred then delete_red_sibling_right h root sentinel temp p w else Some (h, root, w));
       delete_black_sibling_right h1 root1 sentinel temp w1
     }
   }"

partial_function (option) delete_fix :: "rbheap \<Rightarrow> nat \<Rightarrow> nat \<Rightarrow> nat \<Rightarrow> (rbheap \<times> nat \<times> nat) option" where
  "delete_fix h root sentinel temp =
     (if temp = root then Some (h, root, temp)
      else do {
        black \<leftarrow> ngx_rbt_is_black h temp;
        if black then do {
          (h1, root1, temp1) \<leftarrow> delete_fix_body h root sentinel temp;
          delete_fix h1 root1 sentinel temp1
        } else Some (h, root, temp)
      })"

definition ngx_rbtree_delete :: "rbheap \<Rightarrow> rbtree \<Rightarrow> nat \<Rightarrow> (rbheap \<times> rbtree) option" where
  "ngx_rbtree_delete h tree node = do {
     let root = rbt_root tree;
     let sentinel = rbt_sentinel tree;
     (subst, temp) \<leftarrow> delete_choose h sentinel node;
     if subst = root then do {
       h1 \<leftarrow> ngx_rbt_black h temp;
       h2 \<leftarrow> clear_node h1 node;
       Some (h2, tree\<lparr>rbt_root := temp\<rparr>)
     } else do {
       red \<leftarrow> ngx_rbt_is_red h subst;
       h1 \<leftarrow> delete_splice h node subst temp;
       (h2, root2) \<leftarrow>
         (if subst = node then Some (h1, root) else delete_transplant h1 root sentinel node subst);
       h3 \<leftarrow> clear_node h2 node;
       if red then Some (h3, tree\<lparr>rbt_root := root2\<rparr>)
       else do {
         (h4, root4, temp4) \<leftarrow> delete_fix h3 root2 sentinel temp;
         h5 \<leftarrow> ngx_rbt_black h4 temp4;
         Some (h5, tree\<lparr>rbt_root := root4\<rparr>)
       }
     }
   }"

section \<open>In-order successor\<close>

partial_function (option) next_up :: "rbheap \<Rightarrow> nat \<Rightarrow> nat \<Rightarrow> nat option" where
  "next_up h root node = do {
     parent \<leftarrow> rd h node rb_parent;
     if node = root then Some NULL
     else do {
       pl \<leftarrow> rd h parent rb_left;
       if node = pl then Some parent else next_up h root parent
     }
   }"

definition ngx_rbtree_next :: "rbheap \<Rightarrow> rbtree \<Rightarrow> nat \<Rightarrow> nat option" where
  "ngx_rbtree_next h tree node = do {
     r \<leftarrow> rd h node rb_right;
     if r \<noteq> rbt_sentinel tree then ngx_rbtree_min h r (rbt_sentinel tree)
     else next_up h (rbt_root tree) node
   }"

end
