(* ===== verification/Rbtree_Shape.thy ===== *)
theory Rbtree_Shape
  imports Rbtree "HOL-Library.Multiset"
begin

text \<open>
  The trees a heap represents. \<open>tree_at h s par t\<close> says that the nodes of the abstract tree
  \<open>t\<close> are in the heap at their addresses with the right links, keys and colours, that the
  root's parent is \<open>par\<close> and that the sentinel \<open>s\<close> stands for every leaf. A context is the
  path from a subtree up to the root; \<open>tree_at_fill\<close> splits a represented tree at any
  subtree. The lemmas of this theory compute the effect of the heap updates of the code on
  a represented tree; the rotations are the main examples.
\<close>

section \<open>Abstract trees and contexts\<close>

datatype tree = Lf | Nd tree nat u64 bool tree

fun rt :: "nat \<Rightarrow> tree \<Rightarrow> nat" where
  "rt s Lf = s"
| "rt s (Nd l a k c r) = a"

fun addrs :: "tree \<Rightarrow> nat list" where
  "addrs Lf = []"
| "addrs (Nd l a k c r) = addrs l @ a # addrs r"

fun red :: "tree \<Rightarrow> bool" where
  "red Lf = False"
| "red (Nd l a k c r) = c"

fun paint :: "bool \<Rightarrow> tree \<Rightarrow> tree" where
  "paint c Lf = Lf"
| "paint c (Nd l a k c' r) = Nd l a k c r"

text \<open>The addresses and keys of the nodes, in order.\<close>

fun inorder :: "tree \<Rightarrow> (nat \<times> u64) list" where
  "inorder Lf = []"
| "inorder (Nd l a k c r) = inorder l @ (a, k) # inorder r"

datatype frame = FL nat u64 bool tree | FR tree nat u64 bool

type_synonym ctx = "frame list"

fun plug :: "frame \<Rightarrow> tree \<Rightarrow> tree" where
  "plug (FL a k c r) t = Nd t a k c r"
| "plug (FR l a k c) t = Nd l a k c t"

fun fill :: "ctx \<Rightarrow> tree \<Rightarrow> tree" where
  "fill [] t = t"
| "fill (f # z) t = fill z (plug f t)"

fun faddr :: "frame \<Rightarrow> nat" where
  "faddr (FL a k c r) = a"
| "faddr (FR l a k c) = a"

fun fred :: "frame \<Rightarrow> bool" where
  "fred (FL a k c r) = c"
| "fred (FR l a k c) = c"

fun sibling :: "frame \<Rightarrow> tree" where
  "sibling (FL a k c r) = r"
| "sibling (FR l a k c) = l"

fun par :: "nat \<Rightarrow> ctx \<Rightarrow> nat" where
  "par tp [] = tp"
| "par tp (f # z) = faddr f"

fun ctx_addrs :: "ctx \<Rightarrow> nat list" where
  "ctx_addrs [] = []"
| "ctx_addrs (f # z) = faddr f # addrs (sibling f) @ ctx_addrs z"

section \<open>Representation\<close>

fun tree_at :: "rbheap \<Rightarrow> nat \<Rightarrow> nat \<Rightarrow> tree \<Rightarrow> bool" where
  "tree_at h s p Lf = True"
| "tree_at h s p (Nd l a k c r) \<longleftrightarrow>
     h a = Some \<lparr>rb_key = k, rb_left = rt s l, rb_right = rt s r, rb_parent = p, rb_color = c\<rparr> \<and>
     tree_at h s a l \<and> tree_at h s a r"

fun frame_at :: "rbheap \<Rightarrow> nat \<Rightarrow> nat \<Rightarrow> nat \<Rightarrow> frame \<Rightarrow> bool" where
  "frame_at h s p q (FL a k c r) \<longleftrightarrow>
     h a = Some \<lparr>rb_key = k, rb_left = q, rb_right = rt s r, rb_parent = p, rb_color = c\<rparr> \<and>
     tree_at h s a r"
| "frame_at h s p q (FR l a k c) \<longleftrightarrow>
     h a = Some \<lparr>rb_key = k, rb_left = rt s l, rb_right = q, rb_parent = p, rb_color = c\<rparr> \<and>
     tree_at h s a l"

fun ctx_at :: "rbheap \<Rightarrow> nat \<Rightarrow> nat \<Rightarrow> nat \<Rightarrow> ctx \<Rightarrow> bool" where
  "ctx_at h s tp q [] = True"
| "ctx_at h s tp q (f # z) \<longleftrightarrow> frame_at h s (par tp z) q f \<and> ctx_at h s tp (faddr f) z"

lemma rt_plug [simp]: "rt s (plug f t) = faddr f"
  by (cases f) auto

lemma tree_at_plug: "tree_at h s p (plug f t) \<longleftrightarrow> frame_at h s p (rt s t) f \<and> tree_at h s (faddr f) t"
  by (cases f) auto

lemma tree_at_fill:
  "tree_at h s tp (fill z t) \<longleftrightarrow> tree_at h s (par tp z) t \<and> ctx_at h s tp (rt s t) z"
  by (induction z arbitrary: t) (auto simp: tree_at_plug)

lemma set_addrs_plug: "mset (addrs (plug f t)) = mset (addrs t) + mset (faddr f # addrs (sibling f))"
  by (cases f) auto

lemma mset_addrs_fill: "mset (addrs (fill z t)) = mset (addrs t) + mset (ctx_addrs z)"
  by (induction z arbitrary: t) (auto simp: set_addrs_plug)

lemma distinct_fill:
  "distinct (addrs (fill z t)) \<longleftrightarrow>
     distinct (addrs t) \<and> distinct (ctx_addrs z) \<and> set (addrs t) \<inter> set (ctx_addrs z) = {}"
proof -
  have "mset (addrs (fill z t)) = mset (addrs t @ ctx_addrs z)"
    by (simp add: mset_addrs_fill)
  then have "distinct (addrs (fill z t)) = distinct (addrs t @ ctx_addrs z)"
    by (metis mset_eq_imp_distinct_iff)
  then show ?thesis by simp
qed

lemma set_addrs_fill: "set (addrs (fill z t)) = set (addrs t) \<union> set (ctx_addrs z)"
  using arg_cong [OF mset_addrs_fill, of set_mset] by simp

lemma tree_at_cong: "(\<And>a. a \<in> set (addrs t) \<Longrightarrow> h' a = h a) \<Longrightarrow> tree_at h' s p t = tree_at h s p t"
proof (induction t arbitrary: p)
  case (Nd l a k c r)
  have "h' a = h a" by (rule Nd.prems) simp
  moreover have "tree_at h' s a l = tree_at h s a l" by (rule Nd.IH(1)) (simp add: Nd.prems)
  moreover have "tree_at h' s a r = tree_at h s a r" by (rule Nd.IH(2)) (simp add: Nd.prems)
  ultimately show ?case by simp
qed simp

lemma frame_at_cong:
  assumes "\<And>a. a \<in> insert (faddr f) (set (addrs (sibling f))) \<Longrightarrow> h' a = h a"
  shows "frame_at h' s p q f = frame_at h s p q f"
proof -
  have "h' (faddr f) = h (faddr f)" by (rule assms) simp
  moreover have "tree_at h' s (faddr f) (sibling f) = tree_at h s (faddr f) (sibling f)"
    by (rule tree_at_cong, rule assms) simp
  ultimately show ?thesis by (cases f) simp_all
qed

lemma ctx_at_cong: "(\<And>a. a \<in> set (ctx_addrs z) \<Longrightarrow> h' a = h a) \<Longrightarrow> ctx_at h' s tp q z = ctx_at h s tp q z"
proof (induction z arbitrary: q)
  case (Cons f z)
  then have "frame_at h' s (par tp z) q f = frame_at h s (par tp z) q f"
    by (intro frame_at_cong) auto
  moreover have "ctx_at h' s tp (faddr f) z = ctx_at h s tp (faddr f) z"
    by (rule Cons.IH) (simp add: Cons.prems)
  ultimately show ?case by simp
qed simp

lemma tree_at_upd [simp]: "a \<notin> set (addrs t) \<Longrightarrow> tree_at (h(a \<mapsto> n)) s p t = tree_at h s p t"
  by (rule tree_at_cong) auto

lemma ctx_at_upd [simp]: "a \<notin> set (ctx_addrs z) \<Longrightarrow> ctx_at (h(a \<mapsto> n)) s tp q z = ctx_at h s tp q z"
  by (rule ctx_at_cong) auto

section \<open>Represented trees\<close>

text \<open>
  \<open>rep h s tp t\<close>: the heap represents \<open>t\<close> with a black sentinel \<open>s\<close>; \<open>tp\<close> is whatever the
  root's parent field holds, which the code never reads.
\<close>

definition rep :: "rbheap \<Rightarrow> nat \<Rightarrow> nat \<Rightarrow> tree \<Rightarrow> bool" where
  "rep h s tp t \<longleftrightarrow> tree_at h s tp t \<and> distinct (addrs t) \<and> s \<notin> set (addrs t) \<and>
     NULL \<notin> set (addrs t) \<and> s \<noteq> NULL \<and> (\<exists>n. h s = Some n \<and> \<not> rb_color n)"

text \<open>The heap outside a set of addresses is untouched.\<close>

definition same_outside :: "nat set \<Rightarrow> rbheap \<Rightarrow> rbheap \<Rightarrow> bool" where
  "same_outside A h h' \<longleftrightarrow> (\<forall>x. x \<notin> A \<longrightarrow> h' x = h x)"

text \<open>Execution of the heap operations where the node is known.\<close>

lemma rd_Some: "h p = Some n \<Longrightarrow> rd h p f = Some (f n)"
  by (simp add: rd_def)

lemma wr_Some: "h p = Some n \<Longrightarrow> wr h p f = Some (h(p \<mapsto> f n))"
  by (simp add: wr_def)

lemmas heap_exec = rd_Some wr_Some set_left_def set_right_def set_parent_def set_key_def
  ngx_rbt_red_def ngx_rbt_black_def ngx_rbt_is_red_def ngx_rbt_is_black_def ngx_rbt_copy_color_def

lemma rt_fill: "rt s (fill z t) = (if z = [] then rt s t else faddr (last z))"
  by (induction z arbitrary: t) auto

lemma faddr_last_in: "z \<noteq> [] \<Longrightarrow> faddr (last z) \<in> set (ctx_addrs z)"
  by (induction z) auto

lemma same_outside_refl [simp]: "same_outside A h h"
  by (simp add: same_outside_def)

lemma same_outside_trans:
  "same_outside A h h1 \<Longrightarrow> same_outside B h1 h2 \<Longrightarrow> A \<subseteq> C \<Longrightarrow> B \<subseteq> C \<Longrightarrow> same_outside C h h2"
  unfolding same_outside_def by (metis subsetD)

lemma same_outside_upd: "same_outside A h h' \<Longrightarrow> x \<in> A \<Longrightarrow> same_outside A h (h'(x \<mapsto> n))"
  by (auto simp: same_outside_def)

lemmas rep_simps = rep_def tree_at_fill distinct_fill set_addrs_fill

lemma rt_cases: "rt s t = s \<or> rt s t \<in> set (addrs t)"
  by (cases t) auto

lemma rt_neq [simp]:
  assumes "a \<notin> set (addrs t)" and "a \<noteq> s"
  shows "rt s t \<noteq> a" and "a \<noteq> rt s t"
  using rt_cases [of s t] assms by auto

lemma hole_not_root:
  assumes "rep h s tp (fill z t)" and "z \<noteq> []" and "t \<noteq> Lf"
  shows "rt s t \<noteq> rt s (fill z t)"
  using assms faddr_last_in [OF assms(2)] by (cases t) (auto simp: rep_simps rt_fill)

lemma left_rotate_FL:
  assumes "rep h s tp (fill (FL p kp cp w # z) (Nd l a k c (Nd rl b kb cb rr)))" (is "rep _ _ _ ?t") and "root \<noteq> a"
  shows "\<exists>h'. ngx_rbtree_left_rotate h root s a = Some (h', root) \<and>
              rep h' s tp (fill (FL p kp cp w # z) (Nd (Nd l a k c rl) b kb cb rr)) \<and>
              same_outside (set (addrs ?t)) h h'"
  using assms
  by (cases rl) (auto simp: rep_simps ngx_rbtree_left_rotate_def heap_exec same_outside_def)

lemma left_rotate_FR:
  assumes "rep h s tp (fill (FR w p kp cp # z) (Nd l a k c (Nd rl b kb cb rr)))" (is "rep _ _ _ ?t") and "root \<noteq> a"
  shows "\<exists>h'. ngx_rbtree_left_rotate h root s a = Some (h', root) \<and>
              rep h' s tp (fill (FR w p kp cp # z) (Nd (Nd l a k c rl) b kb cb rr)) \<and>
              same_outside (set (addrs ?t)) h h'"
  using assms
  by (cases rl) (auto simp: rep_simps ngx_rbtree_left_rotate_def heap_exec same_outside_def)

lemma left_rotate_rep:
  assumes "rep h s tp (fill z (Nd l a k c (Nd rl b kb cb rr)))" (is "rep _ _ _ ?t")
  shows "\<exists>h'. ngx_rbtree_left_rotate h (rt s ?t) s a =
                Some (h', rt s (fill z (Nd (Nd l a k c rl) b kb cb rr))) \<and>
              rep h' s tp (fill z (Nd (Nd l a k c rl) b kb cb rr)) \<and> same_outside (set (addrs ?t)) h h'"
proof (cases z)
  case Nil
  with assms show ?thesis
    by (cases rl) (auto simp: rep_simps ngx_rbtree_left_rotate_def heap_exec same_outside_def)
next
  case (Cons f z')
  have root: "rt s ?t \<noteq> a" using hole_not_root [OF assms] Cons by simp
  have eq: "rt s (fill z (Nd (Nd l a k c rl) b kb cb rr)) = rt s ?t" using Cons by (simp add: rt_fill)
  show ?thesis
  proof (cases f)
    case (FL p kp cp w)
    show ?thesis unfolding eq
      using left_rotate_FL [OF assms [unfolded Cons FL], of "rt s ?t"] root unfolding Cons FL by blast
  next
    case (FR w p kp cp)
    show ?thesis unfolding eq
      using left_rotate_FR [OF assms [unfolded Cons FR], of "rt s ?t"] root unfolding Cons FR by blast
  qed
qed

lemma right_rotate_FL:
  assumes "rep h s tp (fill (FL p kp cp w # z) (Nd (Nd ll b kb cb lr) a k c r))" (is "rep _ _ _ ?t") and "root \<noteq> a"
  shows "\<exists>h'. ngx_rbtree_right_rotate h root s a = Some (h', root) \<and>
              rep h' s tp (fill (FL p kp cp w # z) (Nd ll b kb cb (Nd lr a k c r))) \<and>
              same_outside (set (addrs ?t)) h h'"
  using assms
  by (cases lr) (auto simp: rep_simps ngx_rbtree_right_rotate_def heap_exec same_outside_def)

lemma right_rotate_FR:
  assumes "rep h s tp (fill (FR w p kp cp # z) (Nd (Nd ll b kb cb lr) a k c r))" (is "rep _ _ _ ?t") and "root \<noteq> a"
  shows "\<exists>h'. ngx_rbtree_right_rotate h root s a = Some (h', root) \<and>
              rep h' s tp (fill (FR w p kp cp # z) (Nd ll b kb cb (Nd lr a k c r))) \<and>
              same_outside (set (addrs ?t)) h h'"
  using assms
  by (cases lr) (auto simp: rep_simps ngx_rbtree_right_rotate_def heap_exec same_outside_def)

lemma right_rotate_rep:
  assumes "rep h s tp (fill z (Nd (Nd ll b kb cb lr) a k c r))" (is "rep _ _ _ ?t")
  shows "\<exists>h'. ngx_rbtree_right_rotate h (rt s ?t) s a =
                Some (h', rt s (fill z (Nd ll b kb cb (Nd lr a k c r)))) \<and>
              rep h' s tp (fill z (Nd ll b kb cb (Nd lr a k c r))) \<and> same_outside (set (addrs ?t)) h h'"
proof (cases z)
  case Nil
  with assms show ?thesis
    by (cases lr) (auto simp: rep_simps ngx_rbtree_right_rotate_def heap_exec same_outside_def)
next
  case (Cons f z')
  have root: "rt s ?t \<noteq> a" using hole_not_root [OF assms] Cons by simp
  have eq: "rt s (fill z (Nd ll b kb cb (Nd lr a k c r))) = rt s ?t" using Cons by (simp add: rt_fill)
  show ?thesis
  proof (cases f)
    case (FL p kp cp w)
    show ?thesis unfolding eq
      using right_rotate_FL [OF assms [unfolded Cons FL], of "rt s ?t"] root unfolding Cons FL by blast
  next
    case (FR w p kp cp)
    show ?thesis unfolding eq
      using right_rotate_FR [OF assms [unfolded Cons FR], of "rt s ?t"] root unfolding Cons FR by blast
  qed
qed

section \<open>Reading and painting a represented tree\<close>

lemma rep_node:
  assumes "rep h s tp (fill z (Nd l a k c r))"
  shows "h a = Some \<lparr>rb_key = k, rb_left = rt s l, rb_right = rt s r, rb_parent = par tp z, rb_color = c\<rparr>"
  using assms by (simp add: rep_simps)

lemma rep_color:
  assumes "rep h s tp (fill z t)"
  shows "\<exists>n. h (rt s t) = Some n \<and> rb_color n = red t"
  using assms by (cases t) (auto simp: rep_simps)

lemma is_red_rep: "rep h s tp (fill z t) \<Longrightarrow> ngx_rbt_is_red h (rt s t) = Some (red t)"
  using rep_color [of h s tp z t] by (auto simp: heap_exec)

lemma is_black_rep: "rep h s tp (fill z t) \<Longrightarrow> ngx_rbt_is_black h (rt s t) = Some (\<not> red t)"
  using is_red_rep [of h s tp z t] by (simp add: ngx_rbt_is_black_def)

text \<open>Painting a subtree's root; painting the sentinel black changes nothing.\<close>

lemma paint_rep:
  assumes "rep h s tp (fill z t)" and "t \<noteq> Lf"
  shows "\<exists>h'. wr h (rt s t) (\<lambda>n. n\<lparr>rb_color := c\<rparr>) = Some h' \<and> rep h' s tp (fill z (paint c t)) \<and>
              same_outside (set (addrs (fill z t))) h h'"
  using assms by (cases t) (auto simp: rep_simps heap_exec same_outside_def)

lemma red_rep:
  "rep h s tp (fill z t) \<Longrightarrow> t \<noteq> Lf \<Longrightarrow>
   \<exists>h'. ngx_rbt_red h (rt s t) = Some h' \<and> rep h' s tp (fill z (paint True t)) \<and>
        same_outside (set (addrs (fill z t))) h h'"
  using paint_rep by (simp add: ngx_rbt_red_def)

lemma black_rep:
  assumes "rep h s tp (fill z t)"
  shows "\<exists>h'. ngx_rbt_black h (rt s t) = Some h' \<and> rep h' s tp (fill z (paint False t)) \<and>
              same_outside (set (addrs (fill z t))) h h'"
proof (cases "t = Lf")
  case True
  obtain n where n: "h s = Some n" "\<not> rb_color n" using assms by (auto simp: rep_def)
  then have "n\<lparr>rb_color := False\<rparr> = n" by (cases n) simp
  with n have "h(s \<mapsto> n\<lparr>rb_color := False\<rparr>) = h" by (simp add: fun_upd_idem)
  with n True assms show ?thesis by (simp add: heap_exec)
next
  case False
  with paint_rep [OF assms] show ?thesis by (simp add: ngx_rbt_black_def)
qed

lemma addrs_paint [simp]: "addrs (paint c t) = addrs t"
  by (cases t) auto

lemma rt_paint [simp]: "rt s (paint c t) = rt s t"
  by (cases t) auto

lemma set_addrs_fill_cong: "set (addrs t) = set (addrs t') \<Longrightarrow> set (addrs (fill z t)) = set (addrs (fill z t'))"
  by (simp add: set_addrs_fill)

lemma inorder_plug_cong: "inorder t = inorder t' \<Longrightarrow> inorder (plug f t) = inorder (plug f t')"
  by (cases f) auto

lemma inorder_fill_cong: "inorder t = inorder t' \<Longrightarrow> inorder (fill z t) = inorder (fill z t')"
proof (induction z arbitrary: t t')
  case (Cons f z)
  show ?case using Cons.IH [OF inorder_plug_cong [OF Cons.prems]] by simp
qed simp

lemma inorder_paint [simp]: "inorder (paint c t) = inorder t"
  by (cases t) auto

lemma addrs_inorder: "addrs t = map fst (inorder t)"
  by (induction t) auto

end
