(* ===== verification/Rbtree_Insert.thy ===== *)
theory Rbtree_Insert
  imports Rbtree_Shape
begin

text \<open>
  Insertion into the red-black tree. The colour and height invariants are stated for trees and
  for contexts, so that each iteration of the re-balancing loop is a local change in a
  context. The result: on every heap that represents a red-black tree \<open>ngx_rbtree_insert\<close>
  returns, and represents the red-black tree with the new node at its place in the order.
\<close>

section \<open>The red-black invariants\<close>

text \<open>No red node has a red child.\<close>

fun nrr :: "tree \<Rightarrow> bool" where
  "nrr Lf = True"
| "nrr (Nd l a k c r) \<longleftrightarrow> nrr l \<and> nrr r \<and> (c \<longrightarrow> \<not> red l \<and> \<not> red r)"

text \<open>Every path to a leaf has \<open>n\<close> black nodes.\<close>

fun bhok :: "tree \<Rightarrow> nat \<Rightarrow> bool" where
  "bhok Lf n \<longleftrightarrow> n = 0"
| "bhok (Nd l a k c r) n \<longleftrightarrow>
     (if c then bhok l n \<and> bhok r n else n > 0 \<and> bhok l (n - 1) \<and> bhok r (n - 1))"

definition rb_inv :: "tree \<Rightarrow> bool" where
  "rb_inv t \<longleftrightarrow> \<not> red t \<and> nrr t \<and> (\<exists>n. bhok t n)"

text \<open>The same for a context: the colour of its hole and the black height of its hole.\<close>

fun cctx :: "ctx \<Rightarrow> bool \<Rightarrow> bool" where
  "cctx [] c = True"
| "cctx (f # z) c \<longleftrightarrow> (fred f \<longrightarrow> \<not> c \<and> \<not> red (sibling f)) \<and> nrr (sibling f) \<and> cctx z (fred f)"

fun hctx :: "ctx \<Rightarrow> nat \<Rightarrow> bool" where
  "hctx [] n = True"
| "hctx (f # z) n \<longleftrightarrow> bhok (sibling f) n \<and> hctx z (if fred f then n else Suc n)"

fun root_black :: "ctx \<Rightarrow> bool" where
  "root_black z \<longleftrightarrow> (z \<noteq> [] \<longrightarrow> \<not> fred (last z))"

lemma red_plug [simp]: "red (plug f t) = fred f"
  by (cases f) auto

lemma nrr_plug: "nrr (plug f t) \<longleftrightarrow> nrr t \<and> nrr (sibling f) \<and> (fred f \<longrightarrow> \<not> red t \<and> \<not> red (sibling f))"
  by (cases f) auto

lemma nrr_fill: "nrr (fill z t) \<longleftrightarrow> nrr t \<and> cctx z (red t)"
  by (induction z arbitrary: t) (auto simp: nrr_plug)

lemma red_fill: "red (fill z t) = (if z = [] then red t else fred (last z))"
  by (induction z arbitrary: t) auto

lemma bhok_plug:
  "bhok (plug f t) n \<longleftrightarrow>
     (if fred f then bhok t n \<and> bhok (sibling f) n else n > 0 \<and> bhok t (n - 1) \<and> bhok (sibling f) (n - 1))"
  by (cases f) auto

lemma bhok_fill: "(\<exists>m. bhok (fill z t) m) \<longleftrightarrow> (\<exists>n. bhok t n \<and> hctx z n)"
proof (induction z arbitrary: t)
  case (Cons f z)
  have "(\<exists>m. bhok (fill (f # z) t) m) \<longleftrightarrow> (\<exists>n. bhok (plug f t) n \<and> hctx z n)"
    using Cons.IH [of "plug f t"] by simp
  also have "\<dots> \<longleftrightarrow> (\<exists>n. bhok t n \<and> hctx (f # z) n)"
  proof
    assume "\<exists>n. bhok (plug f t) n \<and> hctx z n"
    then obtain n where "bhok (plug f t) n" "hctx z n" by blast
    then show "\<exists>n. bhok t n \<and> hctx (f # z) n"
      by (intro exI [of _ "if fred f then n else n - 1"]) (auto simp: bhok_plug)
  next
    assume "\<exists>n. bhok t n \<and> hctx (f # z) n"
    then obtain n where "bhok t n" "hctx (f # z) n" by blast
    then show "\<exists>n. bhok (plug f t) n \<and> hctx z n"
      by (intro exI [of _ "if fred f then n else Suc n"]) (auto simp: bhok_plug)
  qed
  finally show ?case .
qed simp

lemma cctx_black: "\<not> fred f \<Longrightarrow> cctx (f # z) c = cctx (f # z) c'"
  by simp

lemma nrr_paint: "nrr t \<Longrightarrow> nrr (paint False t)"
  by (cases t) auto

lemma bhok_paint: "bhok t n \<Longrightarrow> \<exists>m. bhok (paint False t) m"
proof (cases t)
  case (Nd l a k c r)
  moreover assume "bhok t n"
  ultimately show ?thesis by (intro exI [of _ "if c then Suc n else n"]) auto
qed auto

lemma red_paint [simp]: "red (paint c t) \<longleftrightarrow> t \<noteq> Lf \<and> c"
  by (cases t) auto

section \<open>One iteration of the loop\<close>

fun fpaint :: "bool \<Rightarrow> frame \<Rightarrow> frame" where
  "fpaint c (FL a k c' r) = FL a k c r"
| "fpaint c (FR l a k c') = FR l a k c"

lemma recolor_left:
  assumes "rep h s tp (fill (f # FL g kg False u # z) t)" (is "rep _ _ _ ?t") and "t \<noteq> Lf" and "red u"
  shows "\<exists>h'. insert_fix_body h root s (rt s t) = Some (h', root, g) \<and>
              rep h' s tp (fill z (Nd (plug (fpaint False f) t) g kg True (paint False u))) \<and>
              same_outside (set (addrs ?t)) h h'"
  using assms
  by (cases f; cases t; cases u) (auto simp: rep_simps insert_fix_body_def heap_exec same_outside_def)

lemma recolor_right:
  assumes "rep h s tp (fill (f # FR u g kg False # z) t)" (is "rep _ _ _ ?t") and "t \<noteq> Lf" and "red u"
  shows "\<exists>h'. insert_fix_body h root s (rt s t) = Some (h', root, g) \<and>
              rep h' s tp (fill z (Nd (paint False u) g kg True (plug (fpaint False f) t))) \<and>
              same_outside (set (addrs ?t)) h h'"
  using assms
  by (cases f; cases t; cases u) (auto simp: rep_simps insert_fix_body_def heap_exec same_outside_def)


text \<open>The last steps of the outer cases: the grandparent is rotated down.\<close>

lemma outer_left:
  assumes "rep h s tp (fill z (Nd (Nd (Nd x n k c y) p kp True b) g kg False u))" (is "rep _ _ _ ?t")
  shows "\<exists>h'. do {
           p1 \<leftarrow> rd h n rb_parent;
           h2 \<leftarrow> ngx_rbt_black h p1;
           g1 \<leftarrow> rd h2 p1 rb_parent;
           h3 \<leftarrow> ngx_rbt_red h2 g1;
           (h4, root2) \<leftarrow> ngx_rbtree_right_rotate h3 (rt s ?t) s g1;
           Some (h4, root2, n)
         } = Some (h', rt s (fill z (Nd (Nd x n k c y) p kp False (Nd b g kg True u))), n) \<and>
         rep h' s tp (fill z (Nd (Nd x n k c y) p kp False (Nd b g kg True u))) \<and>
         same_outside (set (addrs ?t)) h h'"
proof -
  let ?t3 = "fill z (Nd (Nd (Nd x n k c y) p kp False b) g kg True u)"
  obtain h2 h3 where h23: "ngx_rbt_black h p = Some h2" "ngx_rbt_red h2 g = Some h3"
      "rep h3 s tp ?t3" "same_outside (set (addrs ?t)) h h3" "rd h n rb_parent = Some p"
      "rd h2 p rb_parent = Some g"
    using assms by (auto simp: rep_simps heap_exec same_outside_def)
  obtain h4 where h4: "ngx_rbtree_right_rotate h3 (rt s ?t3) s g =
        Some (h4, rt s (fill z (Nd (Nd x n k c y) p kp False (Nd b g kg True u))))"
      "rep h4 s tp (fill z (Nd (Nd x n k c y) p kp False (Nd b g kg True u)))"
      "same_outside (set (addrs ?t3)) h3 h4"
    using right_rotate_rep [OF h23(3)] by blast
  have eq: "rt s ?t = rt s ?t3" "set (addrs ?t3) = set (addrs ?t)"
    by (auto simp: rt_fill set_addrs_fill)
  have "same_outside (set (addrs ?t)) h h4"
    using same_outside_trans [OF h23(4) h4(3)] eq by simp
  with h23 h4 show ?thesis by (simp add: eq)
qed

lemma outer_right:
  assumes "rep h s tp (fill z (Nd u g kg False (Nd b p kp True (Nd x n k c y))))" (is "rep _ _ _ ?t")
  shows "\<exists>h'. do {
           p1 \<leftarrow> rd h n rb_parent;
           h2 \<leftarrow> ngx_rbt_black h p1;
           g1 \<leftarrow> rd h2 p1 rb_parent;
           h3 \<leftarrow> ngx_rbt_red h2 g1;
           (h4, root2) \<leftarrow> ngx_rbtree_left_rotate h3 (rt s ?t) s g1;
           Some (h4, root2, n)
         } = Some (h', rt s (fill z (Nd (Nd u g kg True b) p kp False (Nd x n k c y))), n) \<and>
         rep h' s tp (fill z (Nd (Nd u g kg True b) p kp False (Nd x n k c y))) \<and>
         same_outside (set (addrs ?t)) h h'"
proof -
  let ?t3 = "fill z (Nd u g kg True (Nd b p kp False (Nd x n k c y)))"
  obtain h2 h3 where h23: "ngx_rbt_black h p = Some h2" "ngx_rbt_red h2 g = Some h3"
      "rep h3 s tp ?t3" "same_outside (set (addrs ?t)) h h3" "rd h n rb_parent = Some p"
      "rd h2 p rb_parent = Some g"
    using assms by (auto simp: rep_simps heap_exec same_outside_def)
  obtain h4 where h4: "ngx_rbtree_left_rotate h3 (rt s ?t3) s g =
        Some (h4, rt s (fill z (Nd (Nd u g kg True b) p kp False (Nd x n k c y))))"
      "rep h4 s tp (fill z (Nd (Nd u g kg True b) p kp False (Nd x n k c y)))"
      "same_outside (set (addrs ?t3)) h3 h4"
    using left_rotate_rep [OF h23(3)] by blast
  have eq: "rt s ?t = rt s ?t3" "set (addrs ?t3) = set (addrs ?t)"
    by (auto simp: rt_fill set_addrs_fill)
  have "same_outside (set (addrs ?t)) h h4"
    using same_outside_trans [OF h23(4) h4(3)] eq by simp
  with h23 h4 show ?thesis by (simp add: eq)
qed

lemma rotate_LL:
  assumes "rep h s tp (fill z (Nd (Nd (Nd x n k c y) p kp True b) g kg False u))" (is "rep _ _ _ ?t") and "\<not> red u"
  shows "\<exists>h'. insert_fix_body h (rt s ?t) s n =
             Some (h', rt s (fill z (Nd (Nd x n k c y) p kp False (Nd b g kg True u))), n) \<and>
           rep h' s tp (fill z (Nd (Nd x n k c y) p kp False (Nd b g kg True u))) \<and>
           same_outside (set (addrs ?t)) h h'"
proof -
  have u: "ngx_rbt_is_red h (rt s u) = Some False"
    using is_red_rep [of h s tp "FR (Nd (Nd x n k c y) p kp True b) g kg False # z" u] assms by simp
  have rds: "rd h n rb_parent = Some p" "rd h p rb_parent = Some g" "rd h g rb_left = Some p"
    "rd h g rb_right = Some (rt s u)" "rd h p rb_right = Some (rt s b)" "n \<noteq> rt s b"
    using assms by (auto simp: rep_simps heap_exec)
  show ?thesis using outer_left [OF assms(1)] by (simp add: insert_fix_body_def rds u)
qed

lemma rotate_RR:
  assumes "rep h s tp (fill z (Nd u g kg False (Nd b p kp True (Nd x n k c y))))" (is "rep _ _ _ ?t") and "\<not> red u"
  shows "\<exists>h'. insert_fix_body h (rt s ?t) s n =
             Some (h', rt s (fill z (Nd (Nd u g kg True b) p kp False (Nd x n k c y))), n) \<and>
           rep h' s tp (fill z (Nd (Nd u g kg True b) p kp False (Nd x n k c y))) \<and>
           same_outside (set (addrs ?t)) h h'"
proof -
  have u: "ngx_rbt_is_red h (rt s u) = Some False"
    using is_red_rep [of h s tp "FL g kg False (Nd b p kp True (Nd x n k c y)) # z" u] assms by simp
  have rds: "rd h n rb_parent = Some p" "rd h p rb_parent = Some g" "rd h g rb_left = Some (rt s u)"
    "p \<noteq> rt s u" "rd h p rb_left = Some (rt s b)" "n \<noteq> rt s b"
    using assms by (auto simp: rep_simps heap_exec)
  show ?thesis using outer_right [OF assms(1)] by (simp add: insert_fix_body_def rds u)
qed

lemma rotate_LR:
  assumes "rep h s tp (fill z (Nd (Nd b p kp True (Nd x n k True y)) g kg False u))" (is "rep _ _ _ ?t") and "\<not> red u"
  shows "\<exists>h'. insert_fix_body h (rt s ?t) s n =
             Some (h', rt s (fill z (Nd (Nd b p kp True x) n k False (Nd y g kg True u))), p) \<and>
           rep h' s tp (fill z (Nd (Nd b p kp True x) n k False (Nd y g kg True u))) \<and>
           same_outside (set (addrs ?t)) h h'"
proof -
  let ?t1 = "fill z (Nd (Nd (Nd b p kp True x) n k True y) g kg False u)"
  have u: "ngx_rbt_is_red h (rt s u) = Some False"
    using is_red_rep [of h s tp "FR (Nd b p kp True (Nd x n k True y)) g kg False # z" u] assms by simp
  have rds: "rd h n rb_parent = Some p" "rd h p rb_parent = Some g" "rd h g rb_left = Some p"
    "rd h g rb_right = Some (rt s u)" "rd h p rb_right = Some n"
    using assms by (auto simp: rep_simps heap_exec)
  have eq: "rt s ?t1 = rt s ?t" "set (addrs ?t1) = set (addrs ?t)" by (auto simp: rt_fill set_addrs_fill)
  obtain h1 where h1: "ngx_rbtree_left_rotate h (rt s ?t) s p = Some (h1, rt s ?t)" "rep h1 s tp ?t1"
      "same_outside (set (addrs ?t)) h h1"
    using left_rotate_rep [of h s tp "FL g kg False u # z" b p kp True x n k True y] assms(1) eq(1) by auto
  show ?thesis
    using outer_left [OF h1(2)] h1(1) same_outside_trans [OF h1(3), of "set (addrs ?t)"]
    by (simp add: insert_fix_body_def rds u eq) blast
qed

lemma rotate_RL:
  assumes "rep h s tp (fill z (Nd u g kg False (Nd (Nd x n k True y) p kp True b)))" (is "rep _ _ _ ?t") and "\<not> red u"
  shows "\<exists>h'. insert_fix_body h (rt s ?t) s n =
             Some (h', rt s (fill z (Nd (Nd u g kg True x) n k False (Nd y p kp True b))), p) \<and>
           rep h' s tp (fill z (Nd (Nd u g kg True x) n k False (Nd y p kp True b))) \<and>
           same_outside (set (addrs ?t)) h h'"
proof -
  let ?t1 = "fill z (Nd u g kg False (Nd x n k True (Nd y p kp True b)))"
  have u: "ngx_rbt_is_red h (rt s u) = Some False"
    using is_red_rep [of h s tp "FL g kg False (Nd (Nd x n k True y) p kp True b) # z" u] assms by simp
  have rds: "rd h n rb_parent = Some p" "rd h p rb_parent = Some g" "rd h g rb_left = Some (rt s u)"
    "p \<noteq> rt s u" "rd h p rb_left = Some n"
    using assms by (auto simp: rep_simps heap_exec)
  have eq: "rt s ?t1 = rt s ?t" "set (addrs ?t1) = set (addrs ?t)" by (auto simp: rt_fill set_addrs_fill)
  obtain h1 where h1: "ngx_rbtree_right_rotate h (rt s ?t) s p = Some (h1, rt s ?t)" "rep h1 s tp ?t1"
      "same_outside (set (addrs ?t)) h h1"
    using right_rotate_rep [of h s tp "FR u g kg False # z" x n k True y p kp True b] assms(1) eq(1) by auto
  show ?thesis
    using outer_right [OF h1(2)] h1(1) same_outside_trans [OF h1(3), of "set (addrs ?t)"]
    by (simp add: insert_fix_body_def rds u eq) blast
qed

section \<open>The loop\<close>

lemma insert_fix_enter:
  assumes "rep h s tp (fill (f # z) t)" and "t \<noteq> Lf" and "fred f"
  shows "insert_fix h (rt s (fill (f # z) t)) s (rt s t) =
    do { (h1, root1, node1) \<leftarrow> insert_fix_body h (rt s (fill (f # z) t)) s (rt s t);
         insert_fix h1 root1 s node1 }"
proof -
  have "rt s t \<noteq> rt s (fill (f # z) t)" using hole_not_root [OF assms(1)] assms(2) by simp
  moreover have "rd h (rt s t) rb_parent = Some (faddr f)" "ngx_rbt_is_red h (faddr f) = Some True"
    using assms by (cases t; cases f; auto simp: rep_simps heap_exec)+
  ultimately show ?thesis by (subst insert_fix.simps) simp
qed

lemma insert_fix_stop:
  assumes "rep h s tp (fill (f # z) t)" and "t \<noteq> Lf" and "\<not> fred f"
  shows "insert_fix h (rt s (fill (f # z) t)) s (rt s t) = Some (h, rt s (fill (f # z) t))"
proof -
  have "rt s t \<noteq> rt s (fill (f # z) t)" using hole_not_root [OF assms(1)] assms(2) by simp
  moreover have "rd h (rt s t) rb_parent = Some (faddr f)" "ngx_rbt_is_red h (faddr f) = Some False"
    using assms by (cases t; cases f; auto simp: rep_simps heap_exec)+
  ultimately show ?thesis by (subst insert_fix.simps) simp
qed

text \<open>A black uncle: after the rotations the loop ends.\<close>

lemma fix_rotate_left:
  assumes rep: "rep h s tp (fill (f # FL g kg False u # z) t)" (is "rep _ _ _ ?t")
    and t: "red t" "nrr t" "bhok t n" and f: "fred f" "nrr (sibling f)" "\<not> red (sibling f)" "bhok (sibling f) n"
    and u: "\<not> red u" "nrr u" "bhok u n"
  shows "\<exists>h' t'. insert_fix h (rt s ?t) s (rt s t) = Some (h', rt s (fill z t')) \<and>
    rep h' s tp (fill z t') \<and> inorder t' = inorder (plug (FL g kg False u) (plug f t)) \<and>
    nrr t' \<and> \<not> red t' \<and> bhok t' (Suc n) \<and> t' \<noteq> Lf \<and> same_outside (set (addrs ?t)) h h'"
proof -
  obtain x a k y where t_def: "t = Nd x a k True y" using t by (cases t) auto
  note enter = insert_fix_enter [OF rep _ f(1)]
  show ?thesis
  proof (cases f)
    case (FL p kp cp b)
    with f have cp: "cp" by simp
    let ?t' = "Nd t p kp False (Nd b g kg True u)"
    obtain h1 where h1: "insert_fix_body h (rt s ?t) s a = Some (h1, rt s (fill z ?t'), a)"
        "rep h1 s tp (fill z ?t')" "same_outside (set (addrs ?t)) h h1"
      using rotate_LL [of h s tp z x a k True y p kp b g kg u] rep u FL cp t_def by auto
    have "insert_fix h1 (rt s (fill z ?t')) s a = Some (h1, rt s (fill z ?t'))"
      using insert_fix_stop [of h1 s tp "FL p kp False (Nd b g kg True u)" z t] h1(2) t_def by simp
    with h1 enter t f u FL show ?thesis
      by (intro exI [of _ h1] exI [of _ ?t']) (simp add: t_def)
  next
    case (FR b p kp cp)
    with f have cp: "cp" by simp
    let ?t' = "Nd (Nd b p kp True x) a k False (Nd y g kg True u)"
    obtain h1 where h1: "insert_fix_body h (rt s ?t) s a = Some (h1, rt s (fill z ?t'), p)"
        "rep h1 s tp (fill z ?t')" "same_outside (set (addrs ?t)) h h1"
      using rotate_LR [of h s tp z b p kp x a k y g kg u] rep u FR cp t_def by auto
    have "insert_fix h1 (rt s (fill z ?t')) s p = Some (h1, rt s (fill z ?t'))"
      using insert_fix_stop [of h1 s tp "FL a k False (Nd y g kg True u)" z "Nd b p kp True x"] h1(2) by simp
    with h1 enter t f u FR show ?thesis
      by (intro exI [of _ h1] exI [of _ ?t']) (simp add: t_def)
  qed
qed

lemma fix_rotate_right:
  assumes rep: "rep h s tp (fill (f # FR u g kg False # z) t)" (is "rep _ _ _ ?t")
    and t: "red t" "nrr t" "bhok t n" and f: "fred f" "nrr (sibling f)" "\<not> red (sibling f)" "bhok (sibling f) n"
    and u: "\<not> red u" "nrr u" "bhok u n"
  shows "\<exists>h' t'. insert_fix h (rt s ?t) s (rt s t) = Some (h', rt s (fill z t')) \<and>
    rep h' s tp (fill z t') \<and> inorder t' = inorder (plug (FR u g kg False) (plug f t)) \<and>
    nrr t' \<and> \<not> red t' \<and> bhok t' (Suc n) \<and> t' \<noteq> Lf \<and> same_outside (set (addrs ?t)) h h'"
proof -
  obtain x a k y where t_def: "t = Nd x a k True y" using t by (cases t) auto
  note enter = insert_fix_enter [OF rep _ f(1)]
  show ?thesis
  proof (cases f)
    case (FR b p kp cp)
    with f have cp: "cp" by simp
    let ?t' = "Nd (Nd u g kg True b) p kp False t"
    obtain h1 where h1: "insert_fix_body h (rt s ?t) s a = Some (h1, rt s (fill z ?t'), a)"
        "rep h1 s tp (fill z ?t')" "same_outside (set (addrs ?t)) h h1"
      using rotate_RR [of h s tp z u g kg b p kp x a k True y] rep u FR cp t_def by auto
    have "insert_fix h1 (rt s (fill z ?t')) s a = Some (h1, rt s (fill z ?t'))"
      using insert_fix_stop [of h1 s tp "FR (Nd u g kg True b) p kp False" z t] h1(2) t_def by simp
    with h1 enter t f u FR show ?thesis
      by (intro exI [of _ h1] exI [of _ ?t']) (simp add: t_def)
  next
    case (FL p kp cp b)
    with f have cp: "cp" by simp
    let ?t' = "Nd (Nd u g kg True x) a k False (Nd y p kp True b)"
    obtain h1 where h1: "insert_fix_body h (rt s ?t) s a = Some (h1, rt s (fill z ?t'), p)"
        "rep h1 s tp (fill z ?t')" "same_outside (set (addrs ?t)) h h1"
      using rotate_RL [of h s tp z u g kg x a k y p kp b] rep u FL cp t_def by auto
    have "insert_fix h1 (rt s (fill z ?t')) s p = Some (h1, rt s (fill z ?t'))"
      using insert_fix_stop [of h1 s tp "FR (Nd u g kg True x) a k False" z "Nd y p kp True b"] h1(2) by simp
    with h1 enter t f u FL show ?thesis
      by (intro exI [of _ h1] exI [of _ ?t']) (simp add: t_def)
  qed
qed

text \<open>A red uncle: the conflict moves up two levels.\<close>

lemma fix_recolor:
  assumes rep: "rep h s tp (fill (f # g # z) t)" (is "rep _ _ _ ?t")
    and t: "red t" "nrr t" "bhok t n" and f: "fred f" "nrr (sibling f)" "\<not> red (sibling f)" "bhok (sibling f) n"
    and g: "\<not> fred g" and u: "red (sibling g)" "nrr (sibling g)" "bhok (sibling g) n"
  shows "\<exists>h' t'. insert_fix h (rt s ?t) s (rt s t) = insert_fix h' (rt s (fill z t')) s (rt s t') \<and>
    rep h' s tp (fill z t') \<and> inorder t' = inorder (plug g (plug f t)) \<and>
    nrr t' \<and> red t' \<and> bhok t' (Suc n) \<and> same_outside (set (addrs ?t)) h h'"
proof -
  have tL: "t \<noteq> Lf" using t by auto
  obtain x a k y where u_def: "sibling g = Nd x a k True y" using u by (cases "sibling g") auto
  show ?thesis
  proof (cases g)
    case (FL ga kg cg v)
    with g u_def have cg: "\<not> cg" "v = Nd x a k True y" by auto
    let ?t' = "Nd (plug (fpaint False f) t) ga kg True (paint False v)"
    obtain h1 where h1: "insert_fix_body h (rt s ?t) s (rt s t) = Some (h1, rt s ?t, ga)"
        "rep h1 s tp (fill z ?t')" "same_outside (set (addrs ?t)) h h1"
      using recolor_left [of h s tp f ga kg v z t "rt s ?t"] rep u FL cg tL by auto
    have "rt s ?t = rt s (fill z ?t')" using FL by (simp add: rt_fill)
    with h1 insert_fix_enter [OF rep tL f(1)] show ?thesis
      using t f u FL cg
      by (intro exI [of _ h1] exI [of _ ?t']) (cases f; simp)
  next
    case (FR v ga kg cg)
    with g u_def have cg: "\<not> cg" "v = Nd x a k True y" by auto
    let ?t' = "Nd (paint False v) ga kg True (plug (fpaint False f) t)"
    obtain h1 where h1: "insert_fix_body h (rt s ?t) s (rt s t) = Some (h1, rt s ?t, ga)"
        "rep h1 s tp (fill z ?t')" "same_outside (set (addrs ?t)) h h1"
      using recolor_right [of h s tp f v ga kg z t "rt s ?t"] rep u FR cg tL by auto
    have "rt s ?t = rt s (fill z ?t')" using FR by (simp add: rt_fill)
    with h1 insert_fix_enter [OF rep tL f(1)] show ?thesis
      using t f u FR cg
      by (intro exI [of _ h1] exI [of _ ?t']) (cases f; simp)
  qed
qed

lemma fix_rotate:
  assumes rep: "rep h s tp (fill (f # g # z) t)" (is "rep _ _ _ ?t")
    and t: "red t" "nrr t" "bhok t n" and f: "fred f" "nrr (sibling f)" "\<not> red (sibling f)" "bhok (sibling f) n"
    and g: "\<not> fred g" and u: "\<not> red (sibling g)" "nrr (sibling g)" "bhok (sibling g) n"
  shows "\<exists>h' t'. insert_fix h (rt s ?t) s (rt s t) = Some (h', rt s (fill z t')) \<and>
    rep h' s tp (fill z t') \<and> inorder t' = inorder (plug g (plug f t)) \<and>
    nrr t' \<and> \<not> red t' \<and> bhok t' (Suc n) \<and> t' \<noteq> Lf \<and> same_outside (set (addrs ?t)) h h'"
proof (cases g)
  case (FL ga kg cg v)
  with g u rep fix_rotate_left [of h s tp f ga kg v z t n] t f show ?thesis by simp
next
  case (FR v ga kg cg)
  with g u rep fix_rotate_right [of h s tp f v ga kg z t n] t f show ?thesis by simp
qed

lemma fill_not_Lf: "t \<noteq> Lf \<Longrightarrow> fill z t \<noteq> Lf"
proof (induction z arbitrary: t)
  case (Cons f z)
  show ?case using Cons.IH [of "plug f t"] by (cases f) auto
qed simp

lemma addrs_same: "inorder t = inorder t' \<Longrightarrow> addrs t = addrs t'"
  by (simp add: addrs_inorder)

lemma insert_fix_rep:
  assumes "rep h s tp (fill z t)" "red t" "nrr t" "bhok t n" "hctx z n" "cctx z False" "root_black z"
  shows "\<exists>h' t'. insert_fix h (rt s (fill z t)) s (rt s t) = Some (h', rt s t') \<and>
    rep h' s tp t' \<and> inorder t' = inorder (fill z t) \<and> nrr t' \<and> (\<exists>m. bhok t' m) \<and> t' \<noteq> Lf \<and>
    same_outside (set (addrs (fill z t))) h h'"
  using assms
proof (induction z arbitrary: h t n rule: induct_list012)
  case 1
  moreover from 1 have "t \<noteq> Lf" by auto
  ultimately show ?case by (subst insert_fix.simps) (auto intro: exI [of _ h] exI [of _ t])
next
  case (2 f)
  then have "t \<noteq> Lf" "\<not> fred f" by auto
  with 2 insert_fix_stop [of h s tp f "[]" t] have "insert_fix h (rt s (fill [f] t)) s (rt s t) = Some (h, rt s (fill [f] t))"
    by simp
  moreover have "nrr (fill [f] t)" using 2 \<open>\<not> fred f\<close> by (simp add: nrr_plug)
  moreover have "\<exists>m. bhok (fill [f] t) m" using 2 bhok_fill [of "[f]" t] by blast
  ultimately show ?case using 2 fill_not_Lf [OF \<open>t \<noteq> Lf\<close>] by (auto intro!: exI [of _ h] exI [of _ "fill [f] t"])
next
  case (3 f g z)
  then have tL: "t \<noteq> Lf" by auto
  have root: "root_black z" using "3.prems"(7) by auto
  show ?case
  proof (cases "fred f")
    case False
    have "insert_fix h (rt s (fill (f # g # z) t)) s (rt s t) = Some (h, rt s (fill (f # g # z) t))"
      by (rule insert_fix_stop [OF "3.prems"(1) tL False])
    moreover have "nrr (fill (f # g # z) t)" using "3.prems" False nrr_fill [of "f # g # z" t] by simp
    moreover have "\<exists>m. bhok (fill (f # g # z) t) m" using "3.prems" bhok_fill by blast
    ultimately show ?thesis using "3.prems"(1) fill_not_Lf [OF tL] by (blast intro: same_outside_refl)
  next
    case True
    from True "3.prems" have g: "\<not> fred g" "nrr (sibling g)" "bhok (sibling g) n" "hctx z (Suc n)" "cctx z False"
      and f: "nrr (sibling f)" "\<not> red (sibling f)" "bhok (sibling f) n" by auto
    show ?thesis
    proof (cases "red (sibling g)")
      case red: True
      obtain h1 t1 where 1: "insert_fix h (rt s (fill (f # g # z) t)) s (rt s t) = insert_fix h1 (rt s (fill z t1)) s (rt s t1)"
          "rep h1 s tp (fill z t1)" "inorder t1 = inorder (plug g (plug f t))" "nrr t1" "red t1" "bhok t1 (Suc n)"
          "same_outside (set (addrs (fill (f # g # z) t))) h h1"
        using fix_recolor [OF "3.prems"(1-4) True f g(1) red g(2,3)] by blast
      obtain h2 t2 where 2: "insert_fix h1 (rt s (fill z t1)) s (rt s t1) = Some (h2, rt s t2)" "rep h2 s tp t2"
          "inorder t2 = inorder (fill z t1)" "nrr t2" "\<exists>m. bhok t2 m" "t2 \<noteq> Lf"
          "same_outside (set (addrs (fill z t1))) h1 h2"
        using "3.IH"(1) [OF 1(2,5,4,6) g(4,5) root] by blast
      have io: "inorder (fill z t1) = inorder (fill (f # g # z) t)" using inorder_fill_cong [OF 1(3)] by simp
      have "same_outside (set (addrs (fill (f # g # z) t))) h h2"
        using same_outside_trans [OF 1(7) 2(7)] addrs_same [OF io] by simp
      with 1 2 io show ?thesis by (intro exI [of _ h2] exI [of _ t2]) simp
    next
      case False
      obtain h1 t1 where 1: "insert_fix h (rt s (fill (f # g # z) t)) s (rt s t) = Some (h1, rt s (fill z t1))"
          "rep h1 s tp (fill z t1)" "inorder t1 = inorder (plug g (plug f t))" "nrr t1" "\<not> red t1" "bhok t1 (Suc n)"
          "t1 \<noteq> Lf" "same_outside (set (addrs (fill (f # g # z) t))) h h1"
        using fix_rotate [OF "3.prems"(1-4) True f g(1) False g(2,3)] by blast
      have "nrr (fill z t1)" using 1 g by (simp add: nrr_fill)
      moreover have "\<exists>m. bhok (fill z t1) m" using 1(6) g(4) bhok_fill by blast
      ultimately show ?thesis using 1 inorder_fill_cong [OF 1(3), of z] fill_not_Lf [OF 1(7), of z]
        by (intro exI [of _ h1] exI [of _ "fill z t1"]) simp
    qed
  qed
qed

section \<open>Finding the place of a new node\<close>

text \<open>The path the search takes, and the tree with \<open>u\<close> in place of the leaf it ends at.\<close>

fun descend :: "(u64 \<Rightarrow> u64 \<Rightarrow> bool) \<Rightarrow> u64 \<Rightarrow> ctx \<Rightarrow> tree \<Rightarrow> ctx" where
  "descend lt k z Lf = z"
| "descend lt k z (Nd l a k' c r) =
     (if lt k k' then descend lt k (FL a k' c r # z) l else descend lt k (FR l a k' c # z) r)"

fun graft :: "(u64 \<Rightarrow> u64 \<Rightarrow> bool) \<Rightarrow> u64 \<Rightarrow> tree \<Rightarrow> tree \<Rightarrow> tree" where
  "graft lt k Lf u = u"
| "graft lt k (Nd l a k' c r) u =
     (if lt k k' then Nd (graft lt k l u) a k' c r else Nd l a k' c (graft lt k r u))"

lemma fill_descend: "fill (descend lt k z t) u = fill z (graft lt k t u)"
  by (induction t arbitrary: z) auto

lemma graft_Lf [simp]: "graft lt k t Lf = t"
  by (induction t) auto

fun is_FL :: "frame \<Rightarrow> bool" where
  "is_FL (FL a k c r) = True"
| "is_FL (FR l a k c) = False"

lemma insert_position_descend:
  assumes "rep h s tp (fill z t)" and "t \<noteq> Lf" and "h node = Some n"
  shows "\<exists>f z'. descend lt (rb_key n) z t = f # z' \<and>
    insert_position lt h (rt s t) node s = Some (faddr f, is_FL f)"
  using assms
proof (induction t arbitrary: z)
  case (Nd l a k c r)
  let ?k = "rb_key n"
  have a: "rd h a rb_key = Some k" "rd h a rb_left = Some (rt s l)" "rd h a rb_right = Some (rt s r)"
    "rd h node rb_key = Some ?k"
    using rep_node [OF Nd.prems(1)] Nd.prems(3) by (auto simp: heap_exec)
  have nz: "rt s t \<noteq> s" if "t \<in> {l, r}" "t \<noteq> Lf" for t
    using that Nd.prems(1) by (cases t) (auto simp: rep_simps)
  show ?case
  proof (cases "lt ?k k")
    case True
    then show ?thesis
      using a Nd.IH(1) [of "FL a k c r # z"] Nd.prems nz [of l]
      by (cases "l = Lf") (subst insert_position.simps, auto)+
  next
    case False
    then show ?thesis
      using a Nd.IH(2) [of "FR l a k c # z"] Nd.prems nz [of r]
      by (cases "r = Lf") (subst insert_position.simps, auto)+
  qed
qed simp

lemma insert_below_rep:
  assumes "rep h s tp t" and "t \<noteq> Lf" and "h node = Some n"
    and "node \<notin> set (addrs t)" and "node \<noteq> s" and "node \<noteq> NULL"
  shows "\<exists>h'. insert_below lt h (rt s t) node s = Some h' \<and>
    rep h' s tp (fill (descend lt (rb_key n) [] t) (Nd Lf node (rb_key n) True Lf)) \<and>
    same_outside (insert node (set (addrs t))) h h'"
proof -
  obtain f z where f: "descend lt (rb_key n) [] t = f # z"
      "insert_position lt h (rt s t) node s = Some (faddr f, is_FL f)"
    using insert_position_descend [of h s tp "[]" t node n lt] assms by auto
  have t: "t = fill (f # z) Lf" using fill_descend [of lt "rb_key n" "[]" t Lf] f(1) by simp
  have "rep h s tp (fill (f # z) Lf)" "node \<notin> set (addrs (fill (f # z) Lf))"
    "set (addrs t) = set (addrs (fill (f # z) Lf))" using assms t by simp_all
  then show ?thesis using assms(3,5,6)
    unfolding insert_below_def f
    by (cases f; cases n) (auto simp: rep_simps heap_exec same_outside_def simp del: fill.simps(2))
qed

section \<open>Insertion\<close>

definition rb_tree :: "rbheap \<Rightarrow> rbtree \<Rightarrow> tree \<Rightarrow> bool" where
  "rb_tree h tree t \<longleftrightarrow>
     (\<exists>tp. rep h (rbt_sentinel tree) tp t) \<and> rbt_root tree = rt (rbt_sentinel tree) t \<and> rb_inv t"

text \<open>The sentinel and the root are told apart as the code does.\<close>

lemma rep_root: "rep h s tp t \<Longrightarrow> rt s t = s \<longleftrightarrow> t = Lf"
  by (cases t) (auto simp: rep_def)

lemma insert_graft_nonempty:
  assumes tree: "rep h s tp t" "rb_inv t" "t \<noteq> Lf"
    and node: "h node = Some n" "node \<notin> set (addrs t)" "node \<noteq> s" "node \<noteq> NULL"
  shows "\<exists>h1 h2 h3 t'. insert_below lt h (rt s t) node s = Some h1 \<and>
    insert_fix h1 (rt s t) s node = Some (h2, rt s t') \<and> ngx_rbt_black h2 (rt s t') = Some h3 \<and>
    rep h3 s tp t' \<and> rb_inv t' \<and>
    inorder t' = inorder (graft lt (rb_key n) t (Nd Lf node (rb_key n) True Lf)) \<and>
    same_outside (insert node (set (addrs t))) h h3"
proof -
  let ?u = "Nd Lf node (rb_key n) True Lf" and ?z = "descend lt (rb_key n) [] t"
  obtain h1 where h1: "insert_below lt h (rt s t) node s = Some h1" "rep h1 s tp (fill ?z ?u)"
      "same_outside (insert node (set (addrs t))) h h1"
    using insert_below_rep [OF tree(1,3) node] by blast
  have fill: "fill ?z Lf = t" "fill ?z ?u = graft lt (rb_key n) t ?u" by (simp_all add: fill_descend)
  then have z: "?z \<noteq> []" using tree(3) by auto
  have "nrr (fill ?z Lf)" "\<exists>m. bhok (fill ?z Lf) m" "\<not> red (fill ?z Lf)"
    using tree(2) fill by (auto simp: rb_inv_def)
  then have inv: "cctx ?z False" "hctx ?z 0" "root_black ?z"
    using bhok_fill [of ?z Lf] z by (auto simp: nrr_fill red_fill)
  have root: "rt s (fill ?z ?u) = rt s t" using rt_fill [of s ?z ?u] rt_fill [of s ?z Lf] fill z by simp
  have addrs: "set (addrs (fill ?z ?u)) = insert node (set (addrs t))"
    using set_addrs_fill [of ?z ?u] set_addrs_fill [of ?z Lf] fill by simp
  obtain h2 t2 where h2: "insert_fix h1 (rt s t) s node = Some (h2, rt s t2)" "rep h2 s tp t2"
      "inorder t2 = inorder (fill ?z ?u)" "nrr t2" "\<exists>m. bhok t2 m" "same_outside (insert node (set (addrs t))) h1 h2"
    using insert_fix_rep [OF h1(2) _ _ _ inv(2,1,3)] root addrs by auto
  obtain h3 where h3: "ngx_rbt_black h2 (rt s t2) = Some h3" "rep h3 s tp (paint False t2)"
      "same_outside (insert node (set (addrs t))) h2 h3"
    using black_rep [of h2 s tp "[]" t2] h2(2) addrs_same [OF h2(3)] addrs by auto
  have "rb_inv (paint False t2)"
    using h2(4,5) bhok_paint nrr_paint by (auto simp: rb_inv_def)
  moreover have "same_outside (insert node (set (addrs t))) h h3"
    using same_outside_trans [OF same_outside_trans [OF h1(3) h2(6)] h3(3)] by blast
  ultimately show ?thesis using h1 h2 h3 fill
    by (intro exI [of _ h1] exI [of _ h2] exI [of _ h3] exI [of _ "paint False t2"]) simp
qed

lemma insert_graft:
  assumes tree: "rb_tree h tree t" "rbt_insert tree = insert_below lt"
    and node: "h node = Some n" "node \<notin> set (addrs t)" "node \<noteq> rbt_sentinel tree" "node \<noteq> NULL"
  shows "\<exists>h' tree' t'. ngx_rbtree_insert h tree node = Some (h', tree') \<and> rb_tree h' tree' t' \<and>
    rbt_sentinel tree' = rbt_sentinel tree \<and> rbt_insert tree' = rbt_insert tree \<and>
    inorder t' = inorder (graft lt (rb_key n) t (Nd Lf node (rb_key n) True Lf)) \<and>
    same_outside (insert node (set (addrs t))) h h'"
proof (cases "t = Lf")
  case True
  let ?s = "rbt_sentinel tree" and ?n = "\<lparr>rb_key = rb_key n, rb_left = rbt_sentinel tree,
      rb_right = rbt_sentinel tree, rb_parent = NULL, rb_color = False\<rparr>"
  let ?h' = "h(node \<mapsto> ?n)" and ?t' = "Nd Lf node (rb_key n) False Lf"
  have "ngx_rbtree_insert h tree node = Some (?h', tree\<lparr>rbt_root := node\<rparr>)"
    using tree node True by (cases n) (auto simp: ngx_rbtree_insert_def rb_tree_def heap_exec Let_def)
  moreover have "rep ?h' ?s NULL ?t'"
    using tree node True by (auto simp: rb_tree_def rep_def)
  moreover have "bhok ?t' 1" by simp
  ultimately show ?thesis using tree node True
    by (intro exI [of _ ?h'] exI [of _ "tree\<lparr>rbt_root := node\<rparr>"] exI [of _ ?t'])
      (auto simp: rb_tree_def rb_inv_def same_outside_def)
next
  case False
  let ?s = "rbt_sentinel tree"
  obtain tp where tp: "rep h ?s tp t" "rbt_root tree = rt ?s t" "rb_inv t"
    using tree by (auto simp: rb_tree_def)
  obtain h1 h2 h3 t' where "insert_below lt h (rt ?s t) node ?s = Some h1"
    "insert_fix h1 (rt ?s t) ?s node = Some (h2, rt ?s t')" "ngx_rbt_black h2 (rt ?s t') = Some h3"
    "rep h3 ?s tp t'" "rb_inv t'" "inorder t' = inorder (graft lt (rb_key n) t (Nd Lf node (rb_key n) True Lf))"
    "same_outside (insert node (set (addrs t))) h h3"
    using insert_graft_nonempty [OF tp(1,3) False node] by blast
  then show ?thesis using tp tree(2) rep_root [OF tp(1)] False
    by (intro exI [of _ h3] exI [of _ "tree\<lparr>rbt_root := rt ?s t'\<rparr>"] exI [of _ t'])
      (auto simp: rb_tree_def ngx_rbtree_insert_def)
qed

section \<open>Key orders\<close>

text \<open>The new element goes behind every element that is not above it.\<close>

definition place :: "(u64 \<Rightarrow> u64 \<Rightarrow> bool) \<Rightarrow> nat \<times> u64 \<Rightarrow> (nat \<times> u64) list \<Rightarrow> (nat \<times> u64) list" where
  "place lt e xs = takeWhile (\<lambda>x. \<not> lt (snd e) (snd x)) xs @ e # dropWhile (\<lambda>x. \<not> lt (snd e) (snd x)) xs"

definition sorted_by :: "(u64 \<Rightarrow> u64 \<Rightarrow> bool) \<Rightarrow> (nat \<times> u64) list \<Rightarrow> bool" where
  "sorted_by lt = sorted_wrt (\<lambda>x y. \<not> lt (snd y) (snd x))"

lemma sorted_wrt_middle:
  "sorted_wrt R (xs @ ys) \<Longrightarrow> (\<And>x. x \<in> set xs \<Longrightarrow> R x e) \<Longrightarrow> (\<And>y. y \<in> set ys \<Longrightarrow> R e y) \<Longrightarrow>
   sorted_wrt R (xs @ e # ys)"
  by (auto simp: sorted_wrt_append)

locale key_order =
  fixes lt :: "u64 \<Rightarrow> u64 \<Rightarrow> bool" and K :: "u64 set"
  assumes asym: "x \<in> K \<Longrightarrow> y \<in> K \<Longrightarrow> lt x y \<Longrightarrow> \<not> lt y x"
    and neg_trans: "x \<in> K \<Longrightarrow> y \<in> K \<Longrightarrow> z \<in> K \<Longrightarrow> lt x z \<Longrightarrow> lt x y \<or> lt y z"
begin

lemma graft_place:
  assumes "sorted_by lt (inorder t)" and "snd ` set (inorder t) \<subseteq> K" and "k \<in> K"
  shows "inorder (graft lt k t (Nd Lf a k True Lf)) = place lt (a, k) (inorder t)"
  using assms
proof (induction t)
  case (Nd l b k' c r)
  have sub: "sorted_by lt (inorder l)" "sorted_by lt (inorder r)"
    "snd ` set (inorder l) \<subseteq> K" "snd ` set (inorder r) \<subseteq> K" "k' \<in> K"
    using Nd.prems by (auto simp: sorted_by_def sorted_wrt_append)
  have "\<not> lt k (snd x)" if "x \<in> set (inorder l)" "\<not> lt k k'" for x
  proof
    assume "lt k (snd x)"
    moreover have "\<not> lt k' (snd x)" using that Nd.prems(1) by (auto simp: sorted_by_def sorted_wrt_append)
    ultimately show False using neg_trans [of k k' "snd x"] that Nd.prems(3) sub by auto
  qed
  with Nd.IH sub Nd.prems show ?case
    by (cases "lt k k'") (simp_all add: place_def takeWhile_append dropWhile_append)
qed (simp add: place_def)

lemma place_sorted:
  assumes "sorted_by lt xs" and "snd ` set xs \<subseteq> K" and "snd e \<in> K"
  shows "sorted_by lt (place lt e xs)"
proof -
  let ?P = "\<lambda>x. \<not> lt (snd e) (snd x)"
  have *: "sorted_by lt (takeWhile ?P xs @ dropWhile ?P xs)" using assms(1) by simp
  have "\<not> lt (snd y) (snd e)" if y: "y \<in> set (dropWhile ?P xs)" for y
  proof -
    obtain d ds where d: "dropWhile ?P xs = d # ds" using y list.set_cases by metis
    then have "lt (snd e) (snd d)" by (metis dropWhile_eq_Cons_conv)
    moreover have "y = d \<or> \<not> lt (snd y) (snd d)"
      using y * d by (auto simp: sorted_by_def sorted_wrt_append)
    moreover have "d \<in> set xs" "y \<in> set xs"
      using y set_dropWhileD [of d ?P xs] set_dropWhileD [of y ?P xs] d by auto
    then have "snd y \<in> K" "snd d \<in> K" using assms(2) by auto
    ultimately show ?thesis using assms(3) neg_trans [of "snd e" "snd y" "snd d"] asym by blast
  qed
  moreover have "?P x" if "x \<in> set (takeWhile ?P xs)" for x using that by (auto dest: set_takeWhileD)
  ultimately show ?thesis unfolding place_def sorted_by_def
    by (intro sorted_wrt_middle * [unfolded sorted_by_def])
qed

end

interpretation value_order: key_order "\<lambda>nk tk. nk < tk" UNIV
  by unfold_locales auto

text \<open>
  Timer keys are ordered as long as they lie in a window of half the range: the distances
  from its start are then ordered as numbers.
\<close>

definition window :: "u64 \<Rightarrow> u64 set" where
  "window b = {k. uint (k - b) < 2 ^ 63}"

lemma window_diff:
  assumes "x \<in> window b" and "y \<in> window b"
  shows "sint (x - y) = uint (x - b) - uint (y - b)"
proof -
  let ?i = "uint (x - b) - uint (y - b)"
  have eq: "x - y = word_of_int ?i" by (simp flip: word_of_int_uint)
  have "- (2 ^ 63) \<le> ?i" "?i < 2 ^ 63"
    using assms uint_ge_0 [of "x - b"] uint_ge_0 [of "y - b"] unfolding window_def mem_Collect_eq by linarith+
  then have "sint (word_of_int ?i :: u64) = ?i"
    unfolding sint_sbintrunc' using signed_take_bit_int_eq_self [of 63 ?i] by simp
  then show ?thesis unfolding eq .
qed

lemma timer_less_window:
  "x \<in> window b \<Longrightarrow> y \<in> window b \<Longrightarrow> timer_less x y \<longleftrightarrow> uint (x - b) < uint (y - b)"
  by (simp add: timer_less_def window_diff)

interpretation timer_order: key_order timer_less "window b" for b
  by unfold_locales (auto simp: timer_less_window)

end
