(* ===== verification/Rbtree_Delete.thy ===== *)
theory Rbtree_Delete
  imports Rbtree_Insert
begin

text \<open>
  Deletion from the red-black tree. The node that leaves is replaced by its in-order
  successor when it has two children; the fix-up loop repairs the missing black node. The
  sentinel's parent field is written on the way, so that the loop can climb from a leaf. The
  result: on every heap that represents a red-black tree \<open>ngx_rbtree_delete\<close> of one of its
  nodes returns, and represents the red-black tree without that node.
\<close>

section \<open>One iteration of the fix-up loop\<close>

text \<open>The parent of the subtree that lacks a black node, also when that is the sentinel.\<close>

abbreviation hole_parent :: "rbheap \<Rightarrow> nat \<Rightarrow> tree \<Rightarrow> nat \<Rightarrow> bool" where
  "hole_parent h s x p \<equiv> rd h (rt s x) rb_parent = Some p"

lemma hole_parent_outside:
  assumes "rep h' s tp (fill (f # z) x)" and "same_outside A h h'" and "s \<notin> A" and "hole_parent h s x (faddr f)"
  shows "hole_parent h' s x (faddr f)"
proof (cases x)
  case Lf
  with assms show ?thesis by (simp add: rd_def same_outside_def)
next
  case (Nd l a k c r)
  with assms show ?thesis using rep_node [of h' s tp "f # z" l a k c r] by (simp add: heap_exec)
qed

lemma rep_sentinel: "rep h s tp t \<Longrightarrow> s \<notin> set (addrs t)"
  by (simp add: rep_def)

lemma red_sibling_left:
  assumes rep: "rep h s tp (fill (FL p kp False (Nd wn w kw True wo) # z) x)" (is "rep _ _ _ ?t")
    and par: "hole_parent h s x p"
  shows "\<exists>h'. delete_red_sibling_left h (rt s ?t) s (rt s x) p w =
      Some (h', rt s (fill (FL p kp True wn # FL w kw False wo # z) x), rt s wn) \<and>
    rep h' s tp (fill (FL p kp True wn # FL w kw False wo # z) x) \<and>
    hole_parent h' s x p \<and> same_outside (set (addrs ?t)) h h'"
proof -
  let ?t2 = "fill z (Nd x p kp True (Nd wn w kw False wo))"
  let ?t3 = "fill (FL p kp True wn # FL w kw False wo # z) x"
  obtain h1 h2 where h12: "ngx_rbt_black h w = Some h1" "ngx_rbt_red h1 p = Some h2"
      "rep h2 s tp ?t2" "same_outside (set (addrs ?t)) h h2"
    using rep by (auto simp: rep_simps heap_exec same_outside_def)
  have eq: "rt s ?t2 = rt s ?t" "set (addrs ?t2) = set (addrs ?t)" by (auto simp: rt_fill set_addrs_fill)
  obtain h3 where h3: "ngx_rbtree_left_rotate h2 (rt s ?t) s p = Some (h3, rt s ?t3)" "rep h3 s tp ?t3"
      "same_outside (set (addrs ?t)) h2 h3"
    using left_rotate_rep [OF h12(3)] unfolding eq by auto
  have out: "same_outside (set (addrs ?t)) h h3" using same_outside_trans [OF h12(4) h3(3)] by blast
  have par3: "hole_parent h3 s x p"
    using hole_parent_outside [OF h3(2) out rep_sentinel [OF rep]] par by simp
  have "rd h3 p rb_right = Some (rt s wn)" using h3(2) by (simp add: rep_simps heap_exec)
  with h12 h3 par3 out show ?thesis by (simp add: delete_red_sibling_left_def)
qed

lemma black_nephews_left:
  assumes rep: "rep h s tp (fill (FL p kp cp (Nd wn w kw False wo) # z) x)" (is "rep _ _ _ ?t")
    and par: "hole_parent h s x p" and black: "\<not> red wn" "\<not> red wo"
  shows "\<exists>h'. delete_black_sibling_left h (rt s ?t) s (rt s x) w = Some (h', rt s ?t, p) \<and>
    rep h' s tp (fill z (Nd x p kp cp (Nd wn w kw True wo))) \<and>
    same_outside (set (addrs ?t)) h h'"
proof -
  let ?t1 = "fill z (Nd x p kp cp (Nd wn w kw True wo))"
  obtain h1 where h1: "ngx_rbt_red h w = Some h1" "rep h1 s tp ?t1" "same_outside (set (addrs ?t)) h h1"
    using rep by (auto simp: rep_simps heap_exec same_outside_def)
  have par1: "hole_parent h1 s x p"
    using hole_parent_outside [of h1 s tp "FL p kp cp (Nd wn w kw True wo)" z x, OF _ h1(3) rep_sentinel [OF rep]] par h1(2) by simp
  have "ngx_rbt_is_black h (rt s wn) = Some True" "ngx_rbt_is_black h (rt s wo) = Some True"
    using black rep
      is_black_rep [of h s tp "FL w kw False wo # FR x p kp cp # z" wn]
      is_black_rep [of h s tp "FR wn w kw False # FR x p kp cp # z" wo] by simp_all
  moreover have "rd h w rb_left = Some (rt s wn)" "rd h w rb_right = Some (rt s wo)"
    using rep by (simp_all add: rep_simps heap_exec)
  ultimately show ?thesis using h1 par1 by (simp add: delete_black_sibling_left_def)
qed

lemma rotate_up_left:
  assumes rep: "rep h s tp (fill (FL p kp cp (Nd wn w kw cw wo) # z) x)" (is "rep _ _ _ ?t")
    and par: "hole_parent h s x p" and wo: "wo \<noteq> Lf"
  shows "\<exists>h'. do {
           p \<leftarrow> rd h (rt s x) rb_parent;
           h2 \<leftarrow> ngx_rbt_copy_color h w p;
           h3 \<leftarrow> ngx_rbt_black h2 p;
           wo \<leftarrow> rd h3 w rb_right;
           h4 \<leftarrow> ngx_rbt_black h3 wo;
           (h5, root2) \<leftarrow> ngx_rbtree_left_rotate h4 (rt s ?t) s p;
           Some (h5, root2, root2)
         } = Some (h', rt s (fill z (Nd (Nd x p kp False wn) w kw cp (paint False wo))), rt s (fill z (Nd (Nd x p kp False wn) w kw cp (paint False wo)))) \<and>
    rep h' s tp (fill z (Nd (Nd x p kp False wn) w kw cp (paint False wo))) \<and> same_outside (set (addrs ?t)) h h'"
proof -
  let ?t2 = "fill z (Nd x p kp False (Nd wn w kw cp (paint False wo)))" and ?t3 = "fill z (Nd (Nd x p kp False wn) w kw cp (paint False wo))"
  obtain h2 h3 h4 where h24: "ngx_rbt_copy_color h w p = Some h2" "ngx_rbt_black h2 p = Some h3"
      "rd h3 w rb_right = Some (rt s wo)" "ngx_rbt_black h3 (rt s wo) = Some h4"
      "rep h4 s tp ?t2" "same_outside (set (addrs ?t)) h h4"
    using rep wo by (cases wo) (auto simp: rep_simps heap_exec same_outside_def)
  have eq: "rt s ?t2 = rt s ?t" "set (addrs ?t2) = set (addrs ?t)" by (auto simp: rt_fill set_addrs_fill)
  obtain h5 where h5: "ngx_rbtree_left_rotate h4 (rt s ?t) s p = Some (h5, rt s ?t3)" "rep h5 s tp ?t3"
      "same_outside (set (addrs ?t)) h4 h5"
    using left_rotate_rep [OF h24(5)] unfolding eq by auto
  have "same_outside (set (addrs ?t)) h h5" using same_outside_trans [OF h24(6) h5(3)] by blast
  with h24 h5 par show ?thesis by simp
qed

lemma red_far_nephew_left:
  assumes rep: "rep h s tp (fill (FL p kp cp (Nd wn w kw False wo) # z) x)" (is "rep _ _ _ ?t")
    and par: "hole_parent h s x p" and red: "red wo"
  shows "\<exists>h'. delete_black_sibling_left h (rt s ?t) s (rt s x) w =
      Some (h', rt s (fill z (Nd (Nd x p kp False wn) w kw cp (paint False wo))), rt s (fill z (Nd (Nd x p kp False wn) w kw cp (paint False wo)))) \<and>
    rep h' s tp (fill z (Nd (Nd x p kp False wn) w kw cp (paint False wo))) \<and> same_outside (set (addrs ?t)) h h'"
proof -
  have "ngx_rbt_is_black h (rt s wn) = Some (\<not> red wn)" "ngx_rbt_is_black h (rt s wo) = Some False"
    using red rep
      is_black_rep [of h s tp "FL w kw False wo # FR x p kp cp # z" wn]
      is_black_rep [of h s tp "FR wn w kw False # FR x p kp cp # z" wo] by simp_all
  moreover have "rd h w rb_left = Some (rt s wn)" "rd h w rb_right = Some (rt s wo)"
    using rep by (simp_all add: rep_simps heap_exec)
  moreover have "wo \<noteq> Lf" using red by auto
  ultimately show ?thesis using rotate_up_left [OF rep par] by (simp add: delete_black_sibling_left_def)
qed

lemma red_near_nephew_left:
  assumes rep: "rep h s tp (fill (FL p kp cp (Nd (Nd y v kv True u) w kw False wo) # z) x)" (is "rep _ _ _ ?t")
    and par: "hole_parent h s x p" and black: "\<not> red wo"
  shows "\<exists>h'. delete_black_sibling_left h (rt s ?t) s (rt s x) w =
      Some (h', rt s (fill z (Nd (Nd x p kp False y) v kv cp (Nd u w kw False wo))), rt s (fill z (Nd (Nd x p kp False y) v kv cp (Nd u w kw False wo)))) \<and>
    rep h' s tp (fill z (Nd (Nd x p kp False y) v kv cp (Nd u w kw False wo))) \<and> same_outside (set (addrs ?t)) h h'"
proof -
  let ?g = "FR x p kp cp"
  let ?t3 = "fill (?g # z) (Nd (Nd y v kv False u) w kw True wo)"
  let ?t4 = "fill (FL p kp cp (Nd y v kv False (Nd u w kw True wo)) # z) x"
  have "ngx_rbt_is_black h v = Some False" "ngx_rbt_is_black h (rt s wo) = Some True"
    using black rep
      is_black_rep [of h s tp "FL w kw False wo # ?g # z" "Nd y v kv True u"]
      is_black_rep [of h s tp "FR (Nd y v kv True u) w kw False # ?g # z" wo] by simp_all
  moreover have "rd h w rb_left = Some v" "rd h w rb_right = Some (rt s wo)"
    using rep by (simp_all add: rep_simps heap_exec)
  moreover obtain h2 h3 where h23: "ngx_rbt_black h v = Some h2" "ngx_rbt_red h2 w = Some h3"
      "rep h3 s tp ?t3" "same_outside (set (addrs ?t)) h h3"
    using rep by (auto simp: rep_simps heap_exec same_outside_def)
  have eq: "rt s ?t3 = rt s ?t" "set (addrs ?t3) = set (addrs ?t)" "rt s ?t4 = rt s ?t" "set (addrs ?t4) = set (addrs ?t)"
    by (auto simp: rt_fill set_addrs_fill)
  obtain h4 where h4: "ngx_rbtree_right_rotate h3 (rt s ?t) s w = Some (h4, rt s ?t4)" "rep h4 s tp ?t4"
      "same_outside (set (addrs ?t)) h3 h4"
    using right_rotate_rep [OF h23(3)] unfolding eq(1,2) by auto
  have out: "same_outside (set (addrs ?t)) h h4" using same_outside_trans [OF h23(4) h4(3)] by blast
  have par4: "hole_parent h4 s x p"
    using hole_parent_outside [OF h4(2) out rep_sentinel [OF rep]] par by simp
  have "rd h4 p rb_right = Some v" using h4(2) by (simp add: rep_simps heap_exec)
  moreover obtain h5 where h5: "do {
           p \<leftarrow> rd h4 (rt s x) rb_parent;
           h2 \<leftarrow> ngx_rbt_copy_color h4 v p;
           h3 \<leftarrow> ngx_rbt_black h2 p;
           wo \<leftarrow> rd h3 v rb_right;
           h4 \<leftarrow> ngx_rbt_black h3 wo;
           (h5, root2) \<leftarrow> ngx_rbtree_left_rotate h4 (rt s ?t4) s p;
           Some (h5, root2, root2)
         } = Some (h5, rt s (fill z (Nd (Nd x p kp False y) v kv cp (Nd u w kw False wo))), rt s (fill z (Nd (Nd x p kp False y) v kv cp (Nd u w kw False wo))))"
      "rep h5 s tp (fill z (Nd (Nd x p kp False y) v kv cp (Nd u w kw False wo)))" "same_outside (set (addrs ?t4)) h4 h5"
    using rotate_up_left [OF h4(2) par4] by auto
  moreover have "same_outside (set (addrs ?t)) h h5"
    using same_outside_trans [OF out h5(3)] unfolding eq by blast
  ultimately show ?thesis using par4 h4(1) h23(1,2)
    by (simp add: delete_black_sibling_left_def)
qed

lemma red_sibling_right:
  assumes rep: "rep h s tp (fill (FR (Nd wo w kw True wn) p kp False # z) x)" (is "rep _ _ _ ?t")
    and par: "hole_parent h s x p"
  shows "\<exists>h'. delete_red_sibling_right h (rt s ?t) s (rt s x) p w =
      Some (h', rt s (fill (FR wn p kp True # FR wo w kw False # z) x), rt s wn) \<and>
    rep h' s tp (fill (FR wn p kp True # FR wo w kw False # z) x) \<and>
    hole_parent h' s x p \<and> same_outside (set (addrs ?t)) h h'"
proof -
  let ?t2 = "fill z (Nd (Nd wo w kw False wn) p kp True x)"
  let ?t3 = "fill (FR wn p kp True # FR wo w kw False # z) x"
  obtain h1 h2 where h12: "ngx_rbt_black h w = Some h1" "ngx_rbt_red h1 p = Some h2"
      "rep h2 s tp ?t2" "same_outside (set (addrs ?t)) h h2"
    using rep by (auto simp: rep_simps heap_exec same_outside_def)
  have eq: "rt s ?t2 = rt s ?t" "set (addrs ?t2) = set (addrs ?t)" by (auto simp: rt_fill set_addrs_fill)
  obtain h3 where h3: "ngx_rbtree_right_rotate h2 (rt s ?t) s p = Some (h3, rt s ?t3)" "rep h3 s tp ?t3"
      "same_outside (set (addrs ?t)) h2 h3"
    using right_rotate_rep [OF h12(3)] unfolding eq by auto
  have out: "same_outside (set (addrs ?t)) h h3" using same_outside_trans [OF h12(4) h3(3)] by blast
  have par3: "hole_parent h3 s x p"
    using hole_parent_outside [OF h3(2) out rep_sentinel [OF rep]] par by simp
  have "rd h3 p rb_left = Some (rt s wn)" using h3(2) by (simp add: rep_simps heap_exec)
  with h12 h3 par3 out show ?thesis by (simp add: delete_red_sibling_right_def)
qed

lemma black_nephews_right:
  assumes rep: "rep h s tp (fill (FR (Nd wo w kw False wn) p kp cp # z) x)" (is "rep _ _ _ ?t")
    and par: "hole_parent h s x p" and black: "\<not> red wn" "\<not> red wo"
  shows "\<exists>h'. delete_black_sibling_right h (rt s ?t) s (rt s x) w = Some (h', rt s ?t, p) \<and>
    rep h' s tp (fill z (Nd (Nd wo w kw True wn) p kp cp x)) \<and>
    same_outside (set (addrs ?t)) h h'"
proof -
  let ?t1 = "fill z (Nd (Nd wo w kw True wn) p kp cp x)"
  obtain h1 where h1: "ngx_rbt_red h w = Some h1" "rep h1 s tp ?t1" "same_outside (set (addrs ?t)) h h1"
    using rep by (auto simp: rep_simps heap_exec same_outside_def)
  have par1: "hole_parent h1 s x p"
    using hole_parent_outside [of h1 s tp "FR (Nd wo w kw True wn) p kp cp" z x, OF _ h1(3) rep_sentinel [OF rep]] par h1(2) by simp
  have "ngx_rbt_is_black h (rt s wn) = Some True" "ngx_rbt_is_black h (rt s wo) = Some True"
    using black rep
      is_black_rep [of h s tp "FR wo w kw False # FL p kp cp x # z" wn]
      is_black_rep [of h s tp "FL w kw False wn # FL p kp cp x # z" wo] by simp_all
  moreover have "rd h w rb_right = Some (rt s wn)" "rd h w rb_left = Some (rt s wo)"
    using rep by (simp_all add: rep_simps heap_exec)
  ultimately show ?thesis using h1 par1 by (simp add: delete_black_sibling_right_def)
qed

lemma rotate_up_right:
  assumes rep: "rep h s tp (fill (FR (Nd wo w kw cw wn) p kp cp # z) x)" (is "rep _ _ _ ?t")
    and par: "hole_parent h s x p" and wo: "wo \<noteq> Lf"
  shows "\<exists>h'. do {
           p \<leftarrow> rd h (rt s x) rb_parent;
           h2 \<leftarrow> ngx_rbt_copy_color h w p;
           h3 \<leftarrow> ngx_rbt_black h2 p;
           wo \<leftarrow> rd h3 w rb_left;
           h4 \<leftarrow> ngx_rbt_black h3 wo;
           (h5, root2) \<leftarrow> ngx_rbtree_right_rotate h4 (rt s ?t) s p;
           Some (h5, root2, root2)
         } = Some (h', rt s (fill z (Nd (paint False wo) w kw cp (Nd wn p kp False x))), rt s (fill z (Nd (paint False wo) w kw cp (Nd wn p kp False x)))) \<and>
    rep h' s tp (fill z (Nd (paint False wo) w kw cp (Nd wn p kp False x))) \<and> same_outside (set (addrs ?t)) h h'"
proof -
  let ?t2 = "fill z (Nd (Nd (paint False wo) w kw cp wn) p kp False x)" and ?t3 = "fill z (Nd (paint False wo) w kw cp (Nd wn p kp False x))"
  obtain h2 h3 h4 where h24: "ngx_rbt_copy_color h w p = Some h2" "ngx_rbt_black h2 p = Some h3"
      "rd h3 w rb_left = Some (rt s wo)" "ngx_rbt_black h3 (rt s wo) = Some h4"
      "rep h4 s tp ?t2" "same_outside (set (addrs ?t)) h h4"
    using rep wo by (cases wo) (auto simp: rep_simps heap_exec same_outside_def)
  have eq: "rt s ?t2 = rt s ?t" "set (addrs ?t2) = set (addrs ?t)" by (auto simp: rt_fill set_addrs_fill)
  obtain h5 where h5: "ngx_rbtree_right_rotate h4 (rt s ?t) s p = Some (h5, rt s ?t3)" "rep h5 s tp ?t3"
      "same_outside (set (addrs ?t)) h4 h5"
    using right_rotate_rep [OF h24(5)] unfolding eq by auto
  have "same_outside (set (addrs ?t)) h h5" using same_outside_trans [OF h24(6) h5(3)] by blast
  with h24 h5 par show ?thesis by simp
qed

lemma red_far_nephew_right:
  assumes rep: "rep h s tp (fill (FR (Nd wo w kw False wn) p kp cp # z) x)" (is "rep _ _ _ ?t")
    and par: "hole_parent h s x p" and red: "red wo"
  shows "\<exists>h'. delete_black_sibling_right h (rt s ?t) s (rt s x) w =
      Some (h', rt s (fill z (Nd (paint False wo) w kw cp (Nd wn p kp False x))), rt s (fill z (Nd (paint False wo) w kw cp (Nd wn p kp False x)))) \<and>
    rep h' s tp (fill z (Nd (paint False wo) w kw cp (Nd wn p kp False x))) \<and> same_outside (set (addrs ?t)) h h'"
proof -
  have "ngx_rbt_is_black h (rt s wn) = Some (\<not> red wn)" "ngx_rbt_is_black h (rt s wo) = Some False"
    using red rep
      is_black_rep [of h s tp "FR wo w kw False # FL p kp cp x # z" wn]
      is_black_rep [of h s tp "FL w kw False wn # FL p kp cp x # z" wo] by simp_all
  moreover have "rd h w rb_right = Some (rt s wn)" "rd h w rb_left = Some (rt s wo)"
    using rep by (simp_all add: rep_simps heap_exec)
  moreover have "wo \<noteq> Lf" using red by auto
  ultimately show ?thesis using rotate_up_right [OF rep par] by (simp add: delete_black_sibling_right_def)
qed

lemma red_near_nephew_right:
  assumes rep: "rep h s tp (fill (FR (Nd wo w kw False (Nd u v kv True y)) p kp cp # z) x)" (is "rep _ _ _ ?t")
    and par: "hole_parent h s x p" and black: "\<not> red wo"
  shows "\<exists>h'. delete_black_sibling_right h (rt s ?t) s (rt s x) w =
      Some (h', rt s (fill z (Nd (Nd wo w kw False u) v kv cp (Nd y p kp False x))), rt s (fill z (Nd (Nd wo w kw False u) v kv cp (Nd y p kp False x)))) \<and>
    rep h' s tp (fill z (Nd (Nd wo w kw False u) v kv cp (Nd y p kp False x))) \<and> same_outside (set (addrs ?t)) h h'"
proof -
  let ?g = "FL p kp cp x"
  let ?t3 = "fill (?g # z) (Nd wo w kw True (Nd u v kv False y))"
  let ?t4 = "fill (FR (Nd (Nd wo w kw True u) v kv False y) p kp cp # z) x"
  have "ngx_rbt_is_black h v = Some False" "ngx_rbt_is_black h (rt s wo) = Some True"
    using black rep
      is_black_rep [of h s tp "FR wo w kw False # ?g # z" "Nd u v kv True y"]
      is_black_rep [of h s tp "FL w kw False (Nd u v kv True y) # ?g # z" wo] by simp_all
  moreover have "rd h w rb_right = Some v" "rd h w rb_left = Some (rt s wo)"
    using rep by (simp_all add: rep_simps heap_exec)
  moreover obtain h2 h3 where h23: "ngx_rbt_black h v = Some h2" "ngx_rbt_red h2 w = Some h3"
      "rep h3 s tp ?t3" "same_outside (set (addrs ?t)) h h3"
    using rep by (auto simp: rep_simps heap_exec same_outside_def)
  have eq: "rt s ?t3 = rt s ?t" "set (addrs ?t3) = set (addrs ?t)" "rt s ?t4 = rt s ?t" "set (addrs ?t4) = set (addrs ?t)"
    by (auto simp: rt_fill set_addrs_fill)
  obtain h4 where h4: "ngx_rbtree_left_rotate h3 (rt s ?t) s w = Some (h4, rt s ?t4)" "rep h4 s tp ?t4"
      "same_outside (set (addrs ?t)) h3 h4"
    using left_rotate_rep [OF h23(3)] unfolding eq(1,2) by auto
  have out: "same_outside (set (addrs ?t)) h h4" using same_outside_trans [OF h23(4) h4(3)] by blast
  have par4: "hole_parent h4 s x p"
    using hole_parent_outside [OF h4(2) out rep_sentinel [OF rep]] par by simp
  have "rd h4 p rb_left = Some v" using h4(2) by (simp add: rep_simps heap_exec)
  moreover obtain h5 where h5: "do {
           p \<leftarrow> rd h4 (rt s x) rb_parent;
           h2 \<leftarrow> ngx_rbt_copy_color h4 v p;
           h3 \<leftarrow> ngx_rbt_black h2 p;
           wo \<leftarrow> rd h3 v rb_left;
           h4 \<leftarrow> ngx_rbt_black h3 wo;
           (h5, root2) \<leftarrow> ngx_rbtree_right_rotate h4 (rt s ?t4) s p;
           Some (h5, root2, root2)
         } = Some (h5, rt s (fill z (Nd (Nd wo w kw False u) v kv cp (Nd y p kp False x))), rt s (fill z (Nd (Nd wo w kw False u) v kv cp (Nd y p kp False x))))"
      "rep h5 s tp (fill z (Nd (Nd wo w kw False u) v kv cp (Nd y p kp False x)))" "same_outside (set (addrs ?t4)) h4 h5"
    using rotate_up_right [OF h4(2) par4] by auto
  moreover have "same_outside (set (addrs ?t)) h h5"
    using same_outside_trans [OF out h5(3)] unfolding eq by blast
  ultimately show ?thesis using par4 h4(1) h23(1,2)
    by (simp add: delete_black_sibling_right_def)
qed

text \<open>
  What follows for a black sibling: either the tree is repaired and the loop is sent to the
  root, or the missing black node moves up to the parent.
\<close>

definition black_sibling_step :: "frame \<Rightarrow> rbheap \<Rightarrow> nat \<Rightarrow> nat \<Rightarrow> nat \<Rightarrow> nat \<Rightarrow> (rbheap \<times> nat \<times> nat) option" where
  "black_sibling_step f = (if is_FL f then delete_black_sibling_left else delete_black_sibling_right)"

definition repaired :: "(rbheap \<times> nat \<times> nat) option \<Rightarrow> rbheap \<Rightarrow> nat \<Rightarrow> nat \<Rightarrow> tree \<Rightarrow> ctx \<Rightarrow> bool \<Rightarrow> nat \<Rightarrow> bool" where
  "repaired res h s tp t z c n \<longleftrightarrow> (\<exists>h' t'.
     res = Some (h', rt s (fill z t'), rt s (fill z t')) \<and> rep h' s tp (fill z t') \<and> inorder t' = inorder t \<and>
     nrr t' \<and> red t' = c \<and> bhok t' n \<and> same_outside (set (addrs (fill z t))) h h')"

definition moved_up :: "(rbheap \<times> nat \<times> nat) option \<Rightarrow> rbheap \<Rightarrow> nat \<Rightarrow> nat \<Rightarrow> tree \<Rightarrow> ctx \<Rightarrow> bool \<Rightarrow> nat \<Rightarrow> bool" where
  "moved_up res h s tp t z c n \<longleftrightarrow> (\<exists>h' t'.
     res = Some (h', rt s (fill z t'), rt s t') \<and> rep h' s tp (fill z t') \<and> inorder t' = inorder t \<and>
     nrr (paint False t') \<and> red t' = c \<and> t' \<noteq> Lf \<and> bhok t' n \<and> same_outside (set (addrs (fill z t))) h h')"

lemma black_sibling:
  assumes rep: "rep h s tp (fill (f # z) x)" and par: "hole_parent h s x (faddr f)"
    and x: "nrr x" "\<not> red x" "bhok x n" and w: "\<not> red (sibling f)" "nrr (sibling f)" "bhok (sibling f) (Suc n)"
  defines "res \<equiv> black_sibling_step f h (rt s (fill (f # z) x)) s (rt s x) (rt s (sibling f))"
  shows "repaired res h s tp (plug f x) z (fred f) (if fred f then Suc n else Suc (Suc n)) \<or>
         moved_up res h s tp (plug f x) z (fred f) (if fred f then n else Suc n)"
proof -
  obtain wl w kw wr where w_def: "sibling f = Nd wl w kw False wr" using w by (cases "sibling f") auto
  have wi: "nrr wl" "nrr wr" "bhok wl n" "bhok wr n" using w w_def by auto
  note inv = wi x
  show ?thesis
  proof (cases f)
    case (FL p kp cp w')
    then have f: "f = FL p kp cp (Nd wl w kw False wr)" using w_def by simp
    have res: "res = delete_black_sibling_left h (rt s (fill (f # z) x)) s (rt s x) w"
      by (simp add: res_def black_sibling_step_def f)
    consider "\<not> red wl" "\<not> red wr" | "red wr" | y v kv u where "\<not> red wr" "wl = Nd y v kv True u"
      by (cases wl) auto
    then show ?thesis
    proof cases
      case 1
      have "moved_up res h s tp (plug f x) z (fred f) (if fred f then n else Suc n)"
        using black_nephews_left [OF rep [unfolded f]] par 1 inv unfolding moved_up_def res
        by (auto simp: f rt_fill intro!: exI [of _ "Nd x p kp cp (Nd wl w kw True wr)"])
      then show ?thesis ..
    next
      case 2
      then obtain a b c d where "wr = Nd a b c True d" by (cases wr) auto
      then have "repaired res h s tp (plug f x) z (fred f) (if fred f then Suc n else Suc (Suc n))"
        using red_far_nephew_left [OF rep [unfolded f]] par 2 inv unfolding repaired_def res
        by (auto simp: f intro!: exI [of _ "Nd (Nd x p kp False wl) w kw cp (paint False wr)"])
      then show ?thesis ..
    next
      case 3
      then have "repaired res h s tp (plug f x) z (fred f) (if fred f then Suc n else Suc (Suc n))"
        using red_near_nephew_left [OF rep [unfolded f 3(2)]] par inv unfolding repaired_def res
        by (auto simp: f intro!: exI [of _ "Nd (Nd x p kp False y) v kv cp (Nd u w kw False wr)"])
      then show ?thesis ..
    qed
  next
    case (FR w' p kp cp)
    then have f: "f = FR (Nd wl w kw False wr) p kp cp" using w_def by simp
    have res: "res = delete_black_sibling_right h (rt s (fill (f # z) x)) s (rt s x) w"
      by (simp add: res_def black_sibling_step_def f)
    consider "\<not> red wr" "\<not> red wl" | "red wl" | y v kv u where "\<not> red wl" "wr = Nd u v kv True y"
      by (cases wr) auto
    then show ?thesis
    proof cases
      case 1
      have "moved_up res h s tp (plug f x) z (fred f) (if fred f then n else Suc n)"
        using black_nephews_right [OF rep [unfolded f]] par 1 inv unfolding moved_up_def res
        by (auto simp: f rt_fill intro!: exI [of _ "Nd (Nd wl w kw True wr) p kp cp x"])
      then show ?thesis ..
    next
      case 2
      then obtain a b c d where "wl = Nd a b c True d" by (cases wl) auto
      then have "repaired res h s tp (plug f x) z (fred f) (if fred f then Suc n else Suc (Suc n))"
        using red_far_nephew_right [OF rep [unfolded f]] par 2 inv unfolding repaired_def res
        by (auto simp: f intro!: exI [of _ "Nd (paint False wl) w kw cp (Nd wr p kp False x)"])
      then show ?thesis ..
    next
      case 3
      then have "repaired res h s tp (plug f x) z (fred f) (if fred f then Suc n else Suc (Suc n))"
        using red_near_nephew_right [OF rep [unfolded f 3(2)]] par inv unfolding repaired_def res
        by (auto simp: f intro!: exI [of _ "Nd (Nd wl w kw False u) v kv cp (Nd y p kp False x)"])
      then show ?thesis ..
    qed
  qed
qed

text \<open>The whole iteration: a red sibling is first rotated away.\<close>

lemma body_black:
  assumes rep: "rep h s tp (fill (f # z) x)" and par: "hole_parent h s x (faddr f)"
    and w: "sibling f \<noteq> Lf" "\<not> red (sibling f)"
  shows "delete_fix_body h root s (rt s x) = black_sibling_step f h root s (rt s x) (rt s (sibling f))"
proof (cases f)
  case (FL p kp cp w)
  have "ngx_rbt_is_red h (rt s (sibling f)) = Some False"
    using is_red_rep [of h s tp "FR x p kp cp # z" "sibling f"] rep FL w by simp
  moreover have "rd h p rb_left = Some (rt s x)" "rd h p rb_right = Some (rt s (sibling f))"
    using rep FL by (simp_all add: rep_simps heap_exec)
  ultimately show ?thesis using par FL by (simp add: delete_fix_body_def black_sibling_step_def)
next
  case (FR w p kp cp)
  have "ngx_rbt_is_red h (rt s (sibling f)) = Some False"
    using is_red_rep [of h s tp "FL p kp cp x # z" "sibling f"] rep FR w by simp
  moreover have "rd h p rb_left = Some (rt s (sibling f))"
    using rep FR by (simp add: rep_simps heap_exec)
  moreover have "rt s x \<noteq> rt s (sibling f)"
    using rep FR w(1) by (cases x; cases w) (auto simp: rep_simps)
  ultimately show ?thesis using par FR by (simp add: delete_fix_body_def black_sibling_step_def)
qed

lemma body_red:
  assumes rep: "rep h s tp (fill (f # z) x)" (is "rep _ _ _ ?t") and par: "hole_parent h s x (faddr f)"
    and f: "\<not> fred f" and w: "red (sibling f)" "nrr (sibling f)" "bhok (sibling f) n"
  shows "\<exists>h' f' g. delete_fix_body h (rt s ?t) s (rt s x) =
      black_sibling_step f' h' (rt s (fill (f' # g # z) x)) s (rt s x) (rt s (sibling f')) \<and>
    rep h' s tp (fill (f' # g # z) x) \<and> hole_parent h' s x (faddr f') \<and>
    fred f' \<and> \<not> fred g \<and> \<not> red (sibling f') \<and> nrr (sibling f') \<and> bhok (sibling f') n \<and>
    nrr (sibling g) \<and> bhok (sibling g) n \<and>
    inorder (plug g (plug f' x)) = inorder (plug f x) \<and> same_outside (set (addrs ?t)) h h'"
proof -
  obtain wl w kw wr where w_def: "sibling f = Nd wl w kw True wr" using w by (cases "sibling f") auto
  show ?thesis
  proof (cases f)
    case (FL p kp cp w')
    with w_def f have f_def: "f = FL p kp False (Nd wl w kw True wr)" by simp
    have 1: "ngx_rbt_is_red h w = Some True" "rd h p rb_left = Some (rt s x)" "rd h p rb_right = Some w"
      using rep f_def by (simp_all add: rep_simps heap_exec)
    obtain h' where h': "delete_red_sibling_left h (rt s ?t) s (rt s x) p w =
        Some (h', rt s (fill (FL p kp True wl # FL w kw False wr # z) x), rt s wl)"
      "rep h' s tp (fill (FL p kp True wl # FL w kw False wr # z) x)" "hole_parent h' s x p"
      "same_outside (set (addrs ?t)) h h'"
      using red_sibling_left [OF rep [unfolded f_def]] par f_def by auto
    show ?thesis using h' 1 par w w_def f_def
      by (intro exI [of _ h'] exI [of _ "FL p kp True wl"] exI [of _ "FL w kw False wr"])
        (simp add: delete_fix_body_def black_sibling_step_def)
  next
    case (FR w' p kp cp)
    with w_def f have f_def: "f = FR (Nd wl w kw True wr) p kp False" by simp
    have 1: "ngx_rbt_is_red h w = Some True" "rd h p rb_left = Some w" "rt s x \<noteq> w"
      using rep f_def by (auto simp: rep_simps heap_exec)
    obtain h' where h': "delete_red_sibling_right h (rt s ?t) s (rt s x) p w =
        Some (h', rt s (fill (FR wr p kp True # FR wl w kw False # z) x), rt s wr)"
      "rep h' s tp (fill (FR wr p kp True # FR wl w kw False # z) x)" "hole_parent h' s x p"
      "same_outside (set (addrs ?t)) h h'"
      using red_sibling_right [OF rep [unfolded f_def]] par f_def by auto
    show ?thesis using h' 1 par w w_def f_def
      by (intro exI [of _ h'] exI [of _ "FR wr p kp True"] exI [of _ "FR wl w kw False"])
        (simp add: delete_fix_body_def black_sibling_step_def)
  qed
qed

section \<open>The fix-up loop\<close>

text \<open>The loop and the last assignment after it, on a heap that represents \<open>t\<close>.\<close>

definition fix_ok :: "rbheap \<Rightarrow> nat \<Rightarrow> nat \<Rightarrow> tree \<Rightarrow> nat \<Rightarrow> bool" where
  "fix_ok h s tp t temp \<longleftrightarrow> (\<exists>h1 temp1 h2 t'.
     delete_fix h (rt s t) s temp = Some (h1, rt s t', temp1) \<and> ngx_rbt_black h1 temp1 = Some h2 \<and>
     rep h2 s tp t' \<and> inorder t' = inorder t \<and> rb_inv t' \<and> same_outside (set (addrs t)) h h2)"

lemma fix_ok_end:
  assumes rep: "rep h s tp (fill z t)" and "red t \<or> z = []"
    and inv: "nrr (paint False t)" "bhok t n" "hctx z (Suc n)" "cctx z False" "root_black z"
  shows "fix_ok h s tp (fill z t) (rt s t)"
proof -
  have "ngx_rbt_is_black h (rt s t) = Some (\<not> red t)" using is_black_rep [OF rep] .
  then have loop: "delete_fix h (rt s (fill z t)) s (rt s t) = Some (h, rt s (fill z t), rt s t)"
    using assms(2) by (subst delete_fix.simps) auto
  obtain h2 where h2: "ngx_rbt_black h (rt s t) = Some h2" "rep h2 s tp (fill z (paint False t))"
      "same_outside (set (addrs (fill z t))) h h2"
    using black_rep [OF rep] by blast
  have "\<exists>m. bhok (fill z (paint False t)) m"
  proof (cases "red t")
    case True
    then have "bhok (paint False t) (Suc n)" using inv(2) by (cases t) auto
    then show ?thesis using inv(3) bhok_fill by blast
  next
    case False
    then show ?thesis using assms(2) inv(2) bhok_paint by auto
  qed
  moreover have "nrr (fill z (paint False t))" "\<not> red (fill z (paint False t))"
    using inv by (auto simp: nrr_fill red_fill)
  moreover have "rt s (fill z (paint False t)) = rt s (fill z t)" by (simp add: rt_fill)
  moreover have "inorder (fill z (paint False t)) = inorder (fill z t)" by (rule inorder_fill_cong) simp
  ultimately show ?thesis unfolding fix_ok_def rb_inv_def using loop h2
    by (intro exI [of _ h] exI [of _ "rt s t"] exI [of _ h2] exI [of _ "fill z (paint False t)"]) simp
qed

lemma fix_ok_step:
  assumes "rt s x \<noteq> rt s t" and "ngx_rbt_is_black h (rt s x) = Some True"
    and "delete_fix_body h (rt s t) s (rt s x) = Some (h1, rt s t1, temp1)"
    and "same_outside (set (addrs t)) h h1" and "inorder t1 = inorder t" and "fix_ok h1 s tp t1 temp1"
  shows "fix_ok h s tp t (rt s x)"
proof -
  obtain h2 temp2 h3 t' where f: "delete_fix h1 (rt s t1) s temp1 = Some (h2, rt s t', temp2)"
      "ngx_rbt_black h2 temp2 = Some h3" "rep h3 s tp t'" "inorder t' = inorder t1" "rb_inv t'"
      "same_outside (set (addrs t1)) h1 h3"
    using assms(6) by (auto simp: fix_ok_def)
  have "delete_fix h (rt s t) s (rt s x) = Some (h2, rt s t', temp2)"
    using assms(1-3) f(1) by (subst delete_fix.simps) simp
  moreover have "same_outside (set (addrs t)) h h3"
    using same_outside_trans [OF assms(4) f(6)] addrs_same [OF assms(5)] by simp
  ultimately show ?thesis using f assms(5) unfolding fix_ok_def
    by (intro exI [of _ h2] exI [of _ temp2] exI [of _ h3] exI [of _ t']) simp
qed

lemma cctx_mono: "cctx z c \<Longrightarrow> cctx z False"
  by (cases z) auto

lemma hole_not_root':
  assumes "rep h s tp (fill (f # z) x)"
  shows "rt s x \<noteq> rt s (fill (f # z) x)"
proof (cases "x = Lf")
  case True
  have "fill (f # z) x \<noteq> Lf" using fill_not_Lf [of "plug f x" z] by (cases f) auto
  with True rep_root [OF assms] show ?thesis by auto
qed (use hole_not_root [OF assms] in simp)

lemma after_repaired:
  assumes loop: "rt s x \<noteq> rt s T" "ngx_rbt_is_black h (rt s x) = Some True" "delete_fix_body h (rt s T) s (rt s x) = res"
    and rep: "repaired res h1 s tp t z c m" "same_outside (set (addrs T)) h h1" "inorder (fill z t) = inorder T"
    and inv: "hctx z m" "cctx z c"
  shows "fix_ok h s tp T (rt s x)"
proof -
  obtain h2 t' where t': "res = Some (h2, rt s (fill z t'), rt s (fill z t'))" "rep h2 s tp (fill z t')"
      "inorder t' = inorder t" "nrr t'" "red t' = c" "bhok t' m" "same_outside (set (addrs (fill z t))) h1 h2"
    using rep(1) by (auto simp: repaired_def)
  have io: "inorder (fill z t') = inorder T" using inorder_fill_cong [OF t'(3)] rep(3) by simp
  have "same_outside (set (addrs T)) h h2"
    using same_outside_trans [OF rep(2) t'(7)] addrs_same [OF rep(3)] by simp
  moreover obtain m' where "bhok (fill z t') m'" using t'(6) inv(1) bhok_fill by blast
  moreover have "nrr (fill z t')" using t' inv by (simp add: nrr_fill)
  ultimately have "fix_ok h2 s tp (fill z t') (rt s (fill z t'))"
    using fix_ok_end [of h2 s tp "[]" "fill z t'"] t'(2) nrr_paint by simp
  with fix_ok_step [OF loop(1,2)] loop(3) t'(1) \<open>same_outside (set (addrs T)) h h2\<close> io show ?thesis by blast
qed

lemma after_moved_up:
  assumes loop: "rt s x \<noteq> rt s T" "ngx_rbt_is_black h (rt s x) = Some True" "delete_fix_body h (rt s T) s (rt s x) = res"
    and rep: "moved_up res h1 s tp t z c m" "same_outside (set (addrs T)) h h1" "inorder (fill z t) = inorder T"
    and rest: "\<And>h' t'. rep h' s tp (fill z t') \<Longrightarrow> t' \<noteq> Lf \<Longrightarrow> red t' = c \<Longrightarrow> nrr (paint False t') \<Longrightarrow> bhok t' m \<Longrightarrow>
        fix_ok h' s tp (fill z t') (rt s t')"
  shows "fix_ok h s tp T (rt s x)"
proof -
  obtain h2 t' where t': "res = Some (h2, rt s (fill z t'), rt s t')" "rep h2 s tp (fill z t')"
      "inorder t' = inorder t" "nrr (paint False t')" "red t' = c" "t' \<noteq> Lf" "bhok t' m"
      "same_outside (set (addrs (fill z t))) h1 h2"
    using rep(1) by (auto simp: moved_up_def)
  have io: "inorder (fill z t') = inorder T" using inorder_fill_cong [OF t'(3)] rep(3) by simp
  have "same_outside (set (addrs T)) h h2"
    using same_outside_trans [OF rep(2) t'(8)] addrs_same [OF rep(3)] by simp
  with fix_ok_step [OF loop(1,2)] loop(3) t'(1) io rest [OF t'(2,6,5,4,7)] show ?thesis by blast
qed

lemma paint_black [simp]: "\<not> red t \<Longrightarrow> paint False t = t"
  by (cases t) auto

lemma hole_parent_rep: "rep h s tp (fill (f # z) t) \<Longrightarrow> t \<noteq> Lf \<Longrightarrow> hole_parent h s t (faddr f)"
  using rep_node [of h s tp "f # z"] by (cases t) (auto simp: heap_exec)

lemma hole_parent_hd: "rep h s tp (fill z t) \<Longrightarrow> z \<noteq> [] \<Longrightarrow> t \<noteq> Lf \<Longrightarrow> hole_parent h s t (faddr (hd z))"
  using hole_parent_rep [of h s tp "hd z" "tl z" t] by (cases z) auto

lemma delete_fix_rep:
  assumes "rep h s tp (fill z x)" "z \<noteq> [] \<longrightarrow> hole_parent h s x (faddr (hd z))"
    "nrr (paint False x)" "bhok x n" "hctx z (Suc n)" "cctx z False" "root_black z"
  shows "fix_ok h s tp (fill z x) (rt s x)"
  using assms
proof (induction z arbitrary: h x n)
  case Nil
  then show ?case using fix_ok_end [of h s tp "[]" x n] by simp
next
  case (Cons f z)
  note rep = Cons.prems(1)
  have par: "hole_parent h s x (faddr f)" using Cons.prems(2) by simp
  have inv: "nrr (sibling f)" "bhok (sibling f) (Suc n)" "hctx z (if fred f then Suc n else Suc (Suc n))"
      "cctx z (fred f)" "fred f \<longrightarrow> \<not> red (sibling f)" "root_black z"
    using Cons.prems by auto
  have w: "sibling f \<noteq> Lf" using inv(2) by auto
  show ?case
  proof (cases "red x")
    case True
    with fix_ok_end [OF rep _ Cons.prems(3-7)] show ?thesis by simp
  next
    case False
    then have x: "nrr x" "\<not> red x" "bhok x n" using Cons.prems by auto
    note loop = hole_not_root' [OF rep] is_black_rep [OF rep, simplified False, simplified]
    show ?thesis
    proof (cases "red (sibling f)")
      case False
      note body = body_black [OF rep par w False]
      from black_sibling [OF rep par x False inv(1,2)] show ?thesis
      proof
        assume "repaired (black_sibling_step f h (rt s (fill (f # z) x)) s (rt s x) (rt s (sibling f))) h s tp
          (plug f x) z (fred f) (if fred f then Suc n else Suc (Suc n))"
        from after_repaired [OF loop body this _ _ inv(3,4)] show ?thesis by simp
      next
        assume "moved_up (black_sibling_step f h (rt s (fill (f # z) x)) s (rt s x) (rt s (sibling f))) h s tp
          (plug f x) z (fred f) (if fred f then n else Suc n)"
        from loop body this show ?thesis
        proof (rule after_moved_up)
          fix h' t'
          assume t': "rep h' s tp (fill z t')" "t' \<noteq> Lf" "nrr (paint False t')" "bhok t' (if fred f then n else Suc n)"
          then have "z \<noteq> [] \<longrightarrow> hole_parent h' s t' (faddr (hd z))"
            using hole_parent_hd by blast
          with Cons.IH [OF t'(1) _ t'(3,4) _ cctx_mono [OF inv(4)] inv(6)] inv(3)
          show "fix_ok h' s tp (fill z t') (rt s t')" by (cases "fred f") auto
        qed simp_all
      qed
    next
      case True
      then have f: "\<not> fred f" using inv(5) by simp
      obtain h1 f' g where 1: "delete_fix_body h (rt s (fill (f # z) x)) s (rt s x) =
          black_sibling_step f' h1 (rt s (fill (f' # g # z) x)) s (rt s x) (rt s (sibling f'))"
        "rep h1 s tp (fill (f' # g # z) x)" "hole_parent h1 s x (faddr f')"
        "fred f'" "\<not> fred g" "\<not> red (sibling f')" "nrr (sibling f')" "bhok (sibling f') (Suc n)"
        "nrr (sibling g)" "bhok (sibling g) (Suc n)" "inorder (plug g (plug f' x)) = inorder (plug f x)"
        "same_outside (set (addrs (fill (f # z) x))) h h1"
        using body_red [OF rep par f True inv(1,2)] by blast
      have io: "inorder (fill (g # z) (plug f' x)) = inorder (fill (f # z) x)"
        using inorder_fill_cong [OF 1(11)] by simp
      have ctx: "hctx (g # z) (Suc n)" "cctx (g # z) True" "cctx (g # z) False" "root_black (g # z)"
        using 1 inv f by auto
      from black_sibling [OF 1(2,3) x 1(6-8)] 1(4) show ?thesis
        using after_repaired [OF loop 1(1) _ 1(12) io ctx(1,2)]
          after_moved_up [OF loop 1(1) _ 1(12) io, where c = True and m = n] fix_ok_end [OF _ _ _ _ ctx(1,3,4)]
        by (auto simp del: fill.simps)
    qed
  qed
qed

section \<open>Unlinking a node\<close>

lemma fill_append: "fill (z @ z') t = fill z' (fill z t)"
  by (induction z arbitrary: t) auto

lemma inorder_fill: "\<exists>xs ys. \<forall>t. inorder (fill z t) = xs @ inorder t @ ys"
proof (induction z)
  case Nil
  show ?case by (intro exI [of _ "[]"]) simp
next
  case (Cons f z)
  then obtain xs ys where *: "\<And>t. inorder (fill z t) = xs @ inorder t @ ys" by blast
  show ?case
  proof (cases f)
    case (FL a k c r)
    then show ?thesis
      by (intro exI [of _ xs] exI [of _ "(a, k) # inorder r @ ys"]) (simp add: *)
  next
    case (FR l a k c)
    then show ?thesis
      by (intro exI [of _ "xs @ inorder l @ [(a, k)]"] exI [of _ ys]) (simp add: *)
  qed
qed

lemma inorder_fill_FL:
  "\<forall>f \<in> set z. is_FL f \<Longrightarrow> \<exists>ys. \<forall>t. inorder (fill z t) = inorder t @ ys"
proof (induction z)
  case (Cons f z)
  then obtain ys where "\<And>t. inorder (fill z t) = inorder t @ ys" by auto
  then show ?case using Cons.prems
    by (cases f) (auto intro: exI [of _ "(a, k) # inorder r @ ys" for a k r])
qed simp

lemma find_node: "a \<in> set (addrs t) \<Longrightarrow> \<exists>z l k c r. t = fill z (Nd l a k c r)"
proof (induction t)
  case (Nd l b k c r)
  then consider "a = b" | z l' k' c' r' where "l = fill z (Nd l' a k' c' r')" | z l' k' c' r' where "r = fill z (Nd l' a k' c' r')"
    by auto
  then show ?case
  proof cases
    case 1
    then show ?thesis by (intro exI [of _ "[]"]) simp
  next
    case (2 z)
    then show ?thesis using fill_append [of z "[FL b k c r]"] by (intro exI [of _ "z @ [FL b k c r]"]) auto
  next
    case (3 z)
    then show ?thesis using fill_append [of z "[FR l b k c]"] by (intro exI [of _ "z @ [FR l b k c]"]) auto
  qed
qed simp

lemma min_rep:
  assumes "rep h s tp (fill z t)" and "t \<noteq> Lf"
  shows "\<exists>zm b kb cb br. t = fill zm (Nd Lf b kb cb br) \<and> (\<forall>f \<in> set zm. is_FL f) \<and>
    ngx_rbtree_min h (rt s t) s = Some b"
  using assms
proof (induction t arbitrary: z)
  case (Nd l a k c r)
  have a: "rd h a rb_left = Some (rt s l)" "a \<noteq> NULL"
    using Nd.prems(1) by (auto simp: rep_simps heap_exec)
  show ?case
  proof (cases "l = Lf")
    case True
    with a have "ngx_rbtree_min h a s = Some a" by (subst ngx_rbtree_min.simps) simp
    with True show ?thesis by (intro exI [of _ "[]"]) auto
  next
    case False
    obtain zm b kb cb br where 1: "l = fill zm (Nd Lf b kb cb br)" "\<forall>f \<in> set zm. is_FL f"
        "ngx_rbtree_min h (rt s l) s = Some b"
      using Nd.IH(1) [of "FL a k c r # z"] Nd.prems(1) False by auto
    have "rt s l \<noteq> s" using Nd.prems(1) False by (cases l) (auto simp: rep_simps)
    with a 1 have "ngx_rbtree_min h a s = Some b" by (subst ngx_rbtree_min.simps) simp
    with 1 show ?thesis using fill_append [of zm "[FL a k c r]"]
      by (intro exI [of _ "zm @ [FL a k c r]"]) auto
  qed
qed simp

text \<open>A node with at most one child: the child takes its place.\<close>

lemma splice_single:
  assumes rep: "rep h s tp (fill (f # z) (Nd l a k c r))" (is "rep _ _ _ ?t")
    and x: "l = Lf \<and> x = r \<or> r = Lf \<and> x = l"
  shows "\<exists>h'. delete_splice h a a (rt s x) = Some h' \<and> rep h' s tp (fill (f # z) x) \<and>
    hole_parent h' s x (faddr f) \<and> h' a = h a \<and> same_outside (insert s (set (addrs ?t))) h h'"
  using assms
  by (cases f; cases x) (auto simp: rep_simps delete_splice_def heap_exec same_outside_def)

text \<open>
  A node with two children: its successor is taken out of the right subtree. When the
  successor is the right child itself, the child's parent link is already set for the next
  step, so the parent of the right subtree is a parameter \<open>pr\<close>.
\<close>

definition loose :: "rbheap \<Rightarrow> nat \<Rightarrow> nat \<Rightarrow> ctx \<Rightarrow> tree \<Rightarrow> nat \<Rightarrow> u64 \<Rightarrow> bool \<Rightarrow> tree \<Rightarrow> nat \<Rightarrow> bool" where
  "loose h s tp z l a k c r pr \<longleftrightarrow>
     h a = Some \<lparr>rb_key = k, rb_left = rt s l, rb_right = rt s r, rb_parent = par tp z, rb_color = c\<rparr> \<and>
     tree_at h s a l \<and> tree_at h s pr r \<and> ctx_at h s tp a z \<and> distinct (addrs (fill z (Nd l a k c r))) \<and>
     s \<notin> set (addrs (fill z (Nd l a k c r))) \<and> NULL \<notin> set (addrs (fill z (Nd l a k c r))) \<and> s \<noteq> NULL \<and>
     (\<exists>n. h s = Some n \<and> \<not> rb_color n)"

lemma loose_rep: "rep h s tp (fill z (Nd l a k c r)) \<Longrightarrow> loose h s tp z l a k c r a"
  by (simp add: rep_def loose_def tree_at_fill)

lemma splice_min_child:
  assumes rep: "rep h s tp (fill (FR l a k c # z) (Nd Lf b kb cb br))" (is "rep _ _ _ ?t") and l: "l \<noteq> Lf"
  shows "\<exists>h'. delete_splice h a b (rt s br) = Some h' \<and> loose h' s tp z l a k c br b \<and>
    hole_parent h' s br b \<and> h' b = h b \<and> same_outside (insert s (set (addrs ?t))) h h'"
  using assms
  by (cases br) (auto simp: rep_simps loose_def delete_splice_def heap_exec same_outside_def)

lemma splice_min_below:
  assumes rep: "rep h s tp (fill (FL g kg cg w # zm @ FR l a k c # z) (Nd Lf b kb cb br))" (is "rep _ _ _ ?t")
  shows "\<exists>h'. delete_splice h a b (rt s br) = Some h' \<and>
    loose h' s tp z l a k c (fill (FL g kg cg w # zm) br) a \<and>
    hole_parent h' s br g \<and> h' b = h b \<and> same_outside (insert s (set (addrs ?t))) h h'"
proof -
  let ?z = "zm @ FR l a k c # z"
  have "a \<in> set (ctx_addrs ?z)" by (induction zm) auto
  then have ga: "g \<noteq> a" using rep by (auto simp: rep_simps)
  have "\<exists>h'. delete_splice h a b (rt s br) = Some h' \<and> rep h' s tp (fill (FL g kg cg w # ?z) br) \<and>
      hole_parent h' s br g \<and> h' b = h b \<and> same_outside (insert s (set (addrs ?t))) h h'"
    using rep ga
    by (cases br) (auto simp: rep_simps delete_splice_def heap_exec same_outside_def)
  then show ?thesis using loose_rep [of _ s tp z l a k c "fill (FL g kg cg w # zm) br"]
    by (auto simp: fill_append)
qed

lemma transplant_FL:
  assumes "loose h s tp (FL p kp cp w # z) l a k c r pr" and "l \<noteq> Lf" and "root \<noteq> a"
    and "h b = Some n" "b \<notin> set (addrs (fill (FL p kp cp w # z) (Nd l a k c r)))" "b \<noteq> s" "b \<noteq> NULL"
  shows "\<exists>h'. delete_transplant h root s a b = Some (h', root) \<and>
    rep h' s tp (fill (FL p kp cp w # z) (Nd l b (rb_key n) c r)) \<and> h' a = h a \<and> h' s = h s \<and>
    same_outside (insert b (set (addrs (fill (FL p kp cp w # z) (Nd l a k c r))))) h h'"
  using assms
  by (cases l; cases r) (auto simp: rep_simps loose_def delete_transplant_def heap_exec same_outside_def)

lemma transplant_FR:
  assumes "loose h s tp (FR w p kp cp # z) l a k c r pr" and "l \<noteq> Lf" and "root \<noteq> a"
    and "h b = Some n" "b \<notin> set (addrs (fill (FR w p kp cp # z) (Nd l a k c r)))" "b \<noteq> s" "b \<noteq> NULL"
  shows "\<exists>h'. delete_transplant h root s a b = Some (h', root) \<and>
    rep h' s tp (fill (FR w p kp cp # z) (Nd l b (rb_key n) c r)) \<and> h' a = h a \<and> h' s = h s \<and>
    same_outside (insert b (set (addrs (fill (FR w p kp cp # z) (Nd l a k c r))))) h h'"
  using assms
  by (cases l; cases r) (auto simp: rep_simps loose_def delete_transplant_def heap_exec same_outside_def)

lemma transplant_root:
  assumes "loose h s tp [] l a k c r pr" and "l \<noteq> Lf"
    and "h b = Some n" "b \<notin> set (addrs (Nd l a k c r))" "b \<noteq> s" "b \<noteq> NULL"
  shows "\<exists>h'. delete_transplant h a s a b = Some (h', b) \<and>
    rep h' s tp (Nd l b (rb_key n) c r) \<and> h' a = h a \<and> h' s = h s \<and>
    same_outside (insert b (set (addrs (Nd l a k c r)))) h h'"
  using assms
  by (cases l; cases r) (auto simp: rep_simps loose_def delete_transplant_def heap_exec same_outside_def)

lemma transplant_rep:
  assumes "loose h s tp z l a k c r pr" and "l \<noteq> Lf"
    and "h b = Some n" "b \<notin> set (addrs (fill z (Nd l a k c r)))" "b \<noteq> s" "b \<noteq> NULL"
  shows "\<exists>h'. delete_transplant h (rt s (fill z (Nd l a k c r))) s a b =
      Some (h', rt s (fill z (Nd l b (rb_key n) c r))) \<and>
    rep h' s tp (fill z (Nd l b (rb_key n) c r)) \<and> h' a = h a \<and> h' s = h s \<and>
    same_outside (insert b (set (addrs (fill z (Nd l a k c r))))) h h'"
proof (cases z)
  case Nil
  then show ?thesis using transplant_root [of h s tp l a k c r pr b n] assms by simp
next
  case (Cons f z')
  have eq: "rt s (fill z (Nd l b (rb_key n) c r)) = rt s (fill z (Nd l a k c r))"
    using Cons by (simp add: rt_fill)
  have root: "rt s (fill z (Nd l a k c r)) \<noteq> a"
    using assms(1) faddr_last_in [of z] Cons unfolding loose_def rt_fill distinct_fill by auto
  show ?thesis
  proof (cases f)
    case (FL p kp cp w)
    show ?thesis unfolding eq
      using transplant_FL [OF assms(1) [unfolded Cons FL] assms(2), of "rt s (fill z (Nd l a k c r))" b n]
        root assms(3-6) unfolding Cons FL by blast
  next
    case (FR w p kp cp)
    show ?thesis unfolding eq
      using transplant_FR [OF assms(1) [unfolded Cons FR] assms(2), of "rt s (fill z (Nd l a k c r))" b n]
        root assms(3-6) unfolding Cons FR by blast
  qed
qed

lemma clear_rep:
  assumes "rep h s tp t" and "h a = Some n" and "a \<notin> set (addrs t)" and "a \<noteq> s"
  shows "\<exists>h'. clear_node h a = Some h' \<and> rep h' s tp t \<and> h' s = h s \<and> same_outside {a} h h' \<and>
    h' a = Some \<lparr>rb_key = 0, rb_left = NULL, rb_right = NULL, rb_parent = NULL, rb_color = rb_color n\<rparr>"
  using assms by (cases n) (auto simp: clear_node_def heap_exec rep_def same_outside_def)

text \<open>
  The state before the fix-up loop: the node \<open>a\<close> is out of the tree, which may lack a black
  node above the subtree \<open>x\<close>.
\<close>

definition unlinked :: "rbheap \<Rightarrow> nat \<Rightarrow> nat \<Rightarrow> tree \<Rightarrow> nat \<Rightarrow> bool" where
  "unlinked h s tp t a \<longleftrightarrow> (\<exists>subst rd h1 h2 z x n.
     delete_choose h s a = Some (subst, rt s x) \<and> subst \<noteq> rt s t \<and> ngx_rbt_is_red h subst = Some rd \<and>
     delete_splice h a subst (rt s x) = Some h1 \<and>
     (if subst = a then Some (h1, rt s t) else delete_transplant h1 (rt s t) s a subst) = Some (h2, rt s (fill z x)) \<and>
     rep h2 s tp (fill z x) \<and> z \<noteq> [] \<and> hole_parent h2 s x (faddr (hd z)) \<and> h2 a \<noteq> None \<and>
     same_outside (insert s (set (addrs t))) h h2 \<and>
     inorder (fill z x) = filter (\<lambda>e. fst e \<noteq> a) (inorder t) \<and>
     nrr x \<and> bhok x n \<and> cctx z False \<and> root_black z \<and> hctx z (if rd then n else Suc n) \<and> (rd \<longrightarrow> \<not> red x))"

lemma filter_middle:
  assumes "distinct (map fst (xs @ (a, k) # ys))"
  shows "filter (\<lambda>e. fst e \<noteq> a) (xs @ (a, k) # ys) = xs @ ys"
proof -
  have "filter (\<lambda>e. fst e \<noteq> a) zs = zs" if "a \<notin> fst ` set zs" for zs :: "('a \<times> 'b) list"
    using that by (induction zs) auto
  then show ?thesis using assms by auto
qed

lemma filter_fill:
  assumes "distinct (addrs (fill z (Nd l a k c r)))" and "inorder l @ inorder r = inorder x"
  shows "inorder (fill z x) = filter (\<lambda>e. fst e \<noteq> a) (inorder (fill z (Nd l a k c r)))"
proof -
  obtain xs ys where io: "\<And>t. inorder (fill z t) = xs @ inorder t @ ys" using inorder_fill [of z] by blast
  show ?thesis using assms filter_middle [of "xs @ inorder l" a k "inorder r @ ys"]
    by (simp add: addrs_inorder io flip: assms(2))
qed

lemma unlink_single:
  assumes rep: "rep h s tp (fill (f # z) (Nd l a k c r))" (is "rep _ _ _ ?t")
    and inv: "rb_inv (fill (f # z) (Nd l a k c r))" and x: "l = Lf \<and> x = r \<or> l \<noteq> Lf \<and> r = Lf \<and> x = l"
  shows "unlinked h s tp ?t a"
proof -
  have choose: "delete_choose h s a = Some (a, rt s x)"
    using rep_node [OF rep] x rep_root [of h s tp ?t] rep
    by (cases l) (auto simp: delete_choose_def heap_exec rep_simps)
  obtain h1 where h1: "delete_splice h a a (rt s x) = Some h1" "rep h1 s tp (fill (f # z) x)"
      "hole_parent h1 s x (faddr f)" "h1 a = h a" "same_outside (insert s (set (addrs ?t))) h h1"
    using splice_single [OF rep, of x] x by blast
  have red: "ngx_rbt_is_red h a = Some c" "h a \<noteq> None" using rep_node [OF rep] by (simp_all add: heap_exec)
  obtain m where "nrr (Nd l a k c r)" "bhok (Nd l a k c r) m" "hctx (f # z) m" "cctx (f # z) c" "root_black (f # z)"
    using inv bhok_fill [of "f # z" "Nd l a k c r"] nrr_fill [of "f # z" "Nd l a k c r"]
      red_fill [of "f # z" "Nd l a k c r"] by (auto simp: rb_inv_def simp del: fill.simps nrr.simps bhok.simps hctx.simps cctx.simps)
  then have inv': "nrr x" "bhok x (if c then m else m - 1)" "cctx (f # z) False" "root_black (f # z)"
      "hctx (f # z) (if c then m else Suc (m - 1))" "c \<longrightarrow> \<not> red x"
    using x cctx_mono by (auto split: if_splits simp del: cctx.simps)
  have "inorder (fill (f # z) x) = filter (\<lambda>e. fst e \<noteq> a) (inorder ?t)"
    by (rule filter_fill) (use rep x in \<open>auto simp: rep_def\<close>)
  moreover have "rt s ?t = rt s (fill (f # z) x)" by (simp add: rt_fill)
  moreover have "a \<noteq> rt s ?t" using hole_not_root [OF rep] by simp
  ultimately show ?thesis using h1 red choose inv' unfolding unlinked_def
    by (intro exI [of _ a] exI [of _ c] exI [of _ h1] exI [of _ "f # z"] exI [of _ x] exI [of _ "if c then m else m - 1"])
      (auto simp del: fill.simps hctx.simps cctx.simps)
qed

text \<open>Renaming the node in the middle of a context keeps its invariants.\<close>

lemma ctx_rename:
  "cctx (zm @ FR l a k c # z) q = cctx (zm @ FR l b kb c # z) q"
  "hctx (zm @ FR l a k c # z) n = hctx (zm @ FR l b kb c # z) n"
  "root_black (zm @ FR l a k c # z) = root_black (zm @ FR l b kb c # z)"
  by (induction zm arbitrary: q n) auto

lemma splice_min:
  assumes rep: "rep h s tp (fill z (Nd l a k c (fill zm (Nd Lf b kb cb br))))" (is "rep _ _ _ ?t") and l: "l \<noteq> Lf"
    and zm: "\<forall>f \<in> set zm. is_FL f"
  shows "\<exists>h1 pr. delete_splice h a b (rt s br) = Some h1 \<and> loose h1 s tp z l a k c (fill zm br) pr \<and>
    hole_parent h1 s br (faddr (hd (zm @ [FR l b kb c]))) \<and> h1 b = h b \<and>
    same_outside (insert s (set (addrs ?t))) h h1"
proof (cases zm)
  case Nil
  then show ?thesis using splice_min_child [of h s tp l a k c z b kb cb br] rep l by auto
next
  case (Cons f zm')
  with zm obtain g kg cg w where f: "f = FL g kg cg w" by (cases f) auto
  with Cons have "fill (FL g kg cg w # zm' @ FR l a k c # z) (Nd Lf b kb cb br) = ?t"
    by (simp add: fill_append)
  with splice_min_below [of h s tp g kg cg w zm' l a k c z b kb cb br] rep Cons f show ?thesis by auto
qed

lemma unlink_two:
  assumes rep: "rep h s tp (fill z (Nd l a k c r))" (is "rep _ _ _ ?t")
    and inv: "rb_inv (fill z (Nd l a k c r))" and lr: "l \<noteq> Lf" "r \<noteq> Lf"
  shows "unlinked h s tp ?t a"
proof -
  obtain zm b kb cb br where r: "r = fill zm (Nd Lf b kb cb br)" "\<forall>f \<in> set zm. is_FL f"
      "ngx_rbtree_min h (rt s r) s = Some b"
    using min_rep [of h s tp "FR l a k c # z" r] rep lr by auto
  let ?z = "zm @ FR l b kb c # z" and ?za = "zm @ FR l a k c # z" and ?y = "Nd Lf b kb cb br"
  have t: "?t = fill ?za ?y" by (simp add: r fill_append)
  have b: "h b = Some \<lparr>rb_key = kb, rb_left = s, rb_right = rt s br, rb_parent = par tp ?za, rb_color = cb\<rparr>"
    using rep_node [of h s tp ?za Lf b kb cb br] rep t by simp
  have ne: "rt s l \<noteq> s" "rt s r \<noteq> s" using rep lr by (cases l; cases r; auto simp: rep_simps)+
  have choose: "delete_choose h s a = Some (b, rt s br)"
    using rep_node [OF rep] ne r b by (simp add: delete_choose_def heap_exec)
  have addrs: "set (addrs ?t) = insert b (set (addrs (fill z (Nd l a k c (fill zm br)))))"
      "b \<notin> set (addrs (fill z (Nd l a k c (fill zm br))))" "b \<noteq> s" "b \<noteq> NULL" "b \<noteq> a"
    using rep by (auto simp: r rep_simps)
  obtain h1 pr where h1: "delete_splice h a b (rt s br) = Some h1" "loose h1 s tp z l a k c (fill zm br) pr"
      "hole_parent h1 s br (faddr (hd (zm @ [FR l b kb c])))" "h1 b = h b" "same_outside (insert s (set (addrs ?t))) h h1"
    using splice_min [OF _ lr(1) r(2)] rep r(1) by blast
  obtain h2 where h2: "delete_transplant h1 (rt s (fill z (Nd l a k c (fill zm br)))) s a b = Some (h2, rt s (fill z (Nd l b kb c (fill zm br))))"
      "rep h2 s tp (fill z (Nd l b kb c (fill zm br)))" "h2 a = h1 a" "h2 s = h1 s" "same_outside (set (addrs ?t)) h1 h2"
    using transplant_rep [OF h1(2) lr(1) _ addrs(2-4)] b h1(4) addrs(1) by auto
  have t': "fill ?z br = fill z (Nd l b kb c (fill zm br))" by (simp add: fill_append)
  have "hd ?z = hd (zm @ [FR l b kb c])" by (cases zm) auto
  then have par: "hole_parent h2 s br (faddr (hd ?z))"
    using h1(3) h2(2,4) hole_parent_hd [of h2 s tp ?z br] t' by (cases "br = Lf") (auto simp: rd_def)
  obtain m where m: "nrr ?y" "bhok ?y m" "hctx ?za m" "cctx ?za cb" "root_black ?za"
    using inv bhok_fill [of ?za ?y] nrr_fill [of ?za ?y] red_fill [of ?za ?y] t by (auto simp: rb_inv_def)
  have inv': "nrr br" "bhok br (if cb then m else m - 1)" "cb \<longrightarrow> \<not> red br" "hctx ?z (if cb then m else Suc (m - 1))"
      "cctx ?z False" "root_black ?z"
    using m cctx_mono [OF m(4)] ctx_rename(1,2) [of zm l a k c z _ b kb] ctx_rename(3) [of zm l a k c z b kb] by (auto split: if_splits simp del: root_black.simps)
  obtain ys where "\<And>u. inorder (fill zm u) = inorder u @ ys" using inorder_fill_FL [OF r(2)] by blast
  then have io: "inorder (fill ?z br) = filter (\<lambda>e. fst e \<noteq> a) (inorder ?t)"
    unfolding t' using rep by (intro filter_fill) (auto simp: rep_def r)
  have root: "rt s ?t = rt s (fill z (Nd l a k c (fill zm br)))" "b \<noteq> rt s ?t"
    using hole_not_root [of h s tp ?za ?y] rep t by (auto simp: rt_fill)
  have "same_outside (insert s (set (addrs ?t))) h h2" using same_outside_trans [OF h1(5) h2(5)] by blast
  moreover have "ngx_rbt_is_red h b = Some cb" using b by (simp add: heap_exec)
  moreover have "h2 a \<noteq> None" using h1(2) h2(3) by (simp add: loose_def)
  ultimately show ?thesis unfolding unlinked_def
    using choose root h1(1) h2(1,2) addrs(5) par inv' io t'
    by (intro exI [of _ b] exI [of _ cb] exI [of _ h1] exI [of _ h2] exI [of _ ?z] exI [of _ br] exI [of _ "if cb then m else m - 1"])
      (auto simp del: root_black.simps)
qed

section \<open>Deletion\<close>

definition cleared :: "rbnode option \<Rightarrow> bool" where
  "cleared n \<longleftrightarrow> (\<exists>c. n = Some \<lparr>rb_key = 0, rb_left = NULL, rb_right = NULL, rb_parent = NULL, rb_color = c\<rparr>)"

lemma removed_not_in: "inorder t' = filter (\<lambda>e. fst e \<noteq> a) (inorder t) \<Longrightarrow> a \<notin> set (addrs t')"
  by (auto simp: addrs_inorder)

lemma delete_root:
  assumes rep: "rep h s tp (Nd l a k c r)" and inv: "rb_inv (Nd l a k c r)"
    and x: "l = Lf \<and> x = r \<or> l \<noteq> Lf \<and> r = Lf \<and> x = l"
  shows "\<exists>h1 h2 t'. delete_choose h s a = Some (a, rt s x) \<and> ngx_rbt_black h (rt s x) = Some h1 \<and>
    clear_node h1 a = Some h2 \<and> rep h2 s a t' \<and> rt s x = rt s t' \<and> rb_inv t' \<and>
    inorder t' = filter (\<lambda>e. fst e \<noteq> a) (inorder (Nd l a k c r)) \<and>
    same_outside (insert s (set (addrs (Nd l a k c r)))) h h2 \<and> cleared (h2 a)"
proof -
  have "rt s l = s \<longleftrightarrow> l = Lf" using rep by (cases l) (auto simp: rep_def)
  then have choose: "delete_choose h s a = Some (a, rt s x)"
    using rep_node [of h s tp "[]" l a k c r] rep x by (auto simp: delete_choose_def heap_exec)
  have repx: "rep h s a x" "a \<notin> set (addrs x)" "a \<noteq> s" using rep x by (auto simp: rep_def)
  obtain h1 where h1: "ngx_rbt_black h (rt s x) = Some h1" "rep h1 s a (paint False x)" "same_outside (set (addrs x)) h h1"
    using black_rep [of h s a "[]" x] repx by auto
  have "h1 a = h a" using h1(3) repx(2) by (simp add: same_outside_def)
  then obtain n where "h1 a = Some n" using rep by (auto simp: rep_def)
  then obtain h2 where h2: "clear_node h1 a = Some h2" "rep h2 s a (paint False x)" "same_outside {a} h1 h2" "cleared (h2 a)"
    using clear_rep [OF h1(2), of a n] repx by (auto simp: cleared_def)
  have "nrr x" "\<exists>m. bhok x m" using inv x by (auto simp: rb_inv_def split: if_splits)
  then have "rb_inv (paint False x)" using nrr_paint bhok_paint by (auto simp: rb_inv_def)
  moreover have "inorder (paint False x) = filter (\<lambda>e. fst e \<noteq> a) (inorder (Nd l a k c r))"
    using filter_fill [of "[]" l a k c r "paint False x"] rep x by (auto simp: rep_def)
  moreover have "same_outside (insert s (set (addrs (Nd l a k c r)))) h h2"
    by (rule same_outside_trans [OF h1(3) h2(3)]) (use x in auto)
  ultimately show ?thesis using choose h1 h2 by auto
qed

lemma delete_inner:
  assumes tree: "rbt_root tree = rt (rbt_sentinel tree) t"
    and un: "unlinked h (rbt_sentinel tree) tp t a" and a: "a \<in> set (addrs t)" "a \<noteq> rbt_sentinel tree"
  shows "\<exists>h' t'. ngx_rbtree_delete h tree a = Some (h', tree\<lparr>rbt_root := rt (rbt_sentinel tree) t'\<rparr>) \<and>
    rep h' (rbt_sentinel tree) tp t' \<and> rb_inv t' \<and> inorder t' = filter (\<lambda>e. fst e \<noteq> a) (inorder t) \<and>
    same_outside (insert (rbt_sentinel tree) (set (addrs t))) h h' \<and> cleared (h' a)"
proof -
  let ?s = "rbt_sentinel tree"
  obtain subst rd h1 h2 z x n where u: "delete_choose h ?s a = Some (subst, rt ?s x)" "subst \<noteq> rt ?s t"
      "ngx_rbt_is_red h subst = Some rd" "delete_splice h a subst (rt ?s x) = Some h1"
      "(if subst = a then Some (h1, rt ?s t) else delete_transplant h1 (rt ?s t) ?s a subst) = Some (h2, rt ?s (fill z x))"
      "rep h2 ?s tp (fill z x)" "z \<noteq> []" "hole_parent h2 ?s x (faddr (hd z))" "h2 a \<noteq> None"
      "same_outside (insert ?s (set (addrs t))) h h2" "inorder (fill z x) = filter (\<lambda>e. fst e \<noteq> a) (inorder t)"
      and inv: "nrr x" "bhok x n" "cctx z False" "root_black z" "hctx z (if rd then n else Suc n)" "rd \<longrightarrow> \<not> red x"
    using un by (auto simp: unlinked_def simp del: root_black.simps)
  have a_out: "a \<notin> set (addrs (fill z x))" using removed_not_in [OF u(11)] .
  obtain h3 where h3: "clear_node h2 a = Some h3" "rep h3 ?s tp (fill z x)" "h3 ?s = h2 ?s" "same_outside {a} h2 h3" "cleared (h3 a)"
    using clear_rep [OF u(6) _ a_out a(2)] u(9) by (auto simp: cleared_def)
  have out3: "same_outside (insert ?s (set (addrs t))) h h3"
    by (rule same_outside_trans [OF u(10) h3(4)]) (use a in auto)
  have sub: "set (addrs (fill z x)) \<subseteq> set (addrs t)" using u(11) by (auto simp: addrs_inorder)
  show ?thesis
  proof (cases rd)
    case True
    have "rb_inv (fill z x)" using inv True u(7) bhok_fill [of z x]
      by (auto simp: rb_inv_def nrr_fill red_fill)
    moreover have "ngx_rbtree_delete h tree a = Some (h3, tree\<lparr>rbt_root := rt ?s (fill z x)\<rparr>)"
      using u(1-5) h3(1) True tree by (simp add: ngx_rbtree_delete_def)
    ultimately show ?thesis using u(11) h3 out3 by blast
  next
    case False
    have par: "hole_parent h3 ?s x (faddr (hd z))"
      using hole_parent_hd [OF h3(2) u(7)] u(8) h3(3) by (cases "x = Lf") (auto simp: rd_def)
    obtain h4 temp h5 t' where f: "delete_fix h3 (rt ?s (fill z x)) ?s (rt ?s x) = Some (h4, rt ?s t', temp)"
        "ngx_rbt_black h4 temp = Some h5" "rep h5 ?s tp t'" "inorder t' = inorder (fill z x)" "rb_inv t'"
        "same_outside (set (addrs (fill z x))) h3 h5"
      using delete_fix_rep [OF h3(2) _ nrr_paint [OF inv(1)] inv(2) _ inv(3,4)] par inv(5) False
      by (auto simp: fix_ok_def)
    have "h5 a = h3 a" using f(6) a_out by (simp add: same_outside_def)
    moreover have "same_outside (insert ?s (set (addrs t))) h h5"
      by (rule same_outside_trans [OF out3 f(6)]) (use sub in auto)
    moreover have "ngx_rbtree_delete h tree a = Some (h5, tree\<lparr>rbt_root := rt ?s t'\<rparr>)"
      using u(1-5) h3(1) f(1,2) False tree by (simp add: ngx_rbtree_delete_def)
    ultimately show ?thesis using f(3-5) u(11) h3(5) by auto
  qed
qed

lemma delete_node:
  assumes tree: "rb_tree h tree t" and a: "a \<in> set (addrs t)"
  shows "\<exists>h' tree' t'. ngx_rbtree_delete h tree a = Some (h', tree') \<and> rb_tree h' tree' t' \<and>
    rbt_sentinel tree' = rbt_sentinel tree \<and> rbt_insert tree' = rbt_insert tree \<and>
    inorder t' = filter (\<lambda>e. fst e \<noteq> a) (inorder t) \<and>
    same_outside (insert (rbt_sentinel tree) (set (addrs t))) h h' \<and> cleared (h' a)"
proof -
  let ?s = "rbt_sentinel tree"
  obtain tp where tp: "rep h ?s tp t" "rbt_root tree = rt ?s t" "rb_inv t" using tree by (auto simp: rb_tree_def)
  obtain z l k c r where t: "t = fill z (Nd l a k c r)" using find_node [OF a] by blast
  have as: "a \<noteq> ?s" using tp(1) a by (auto simp: rep_def)
  let ?x = "if l = Lf then r else l"
  show ?thesis
  proof (cases "z = [] \<and> (l = Lf \<or> r = Lf)")
    case True
    then have x: "l = Lf \<and> ?x = r \<or> l \<noteq> Lf \<and> r = Lf \<and> ?x = l" by auto
    have t: "t = Nd l a k c r" using t True by simp
    obtain h1 h2 t' where d: "delete_choose h ?s a = Some (a, rt ?s ?x)" "ngx_rbt_black h (rt ?s ?x) = Some h1"
        "clear_node h1 a = Some h2" "rep h2 ?s a t'" "rt ?s ?x = rt ?s t'" "rb_inv t'"
        "inorder t' = filter (\<lambda>e. fst e \<noteq> a) (inorder t)" "same_outside (insert ?s (set (addrs t))) h h2" "cleared (h2 a)"
      using delete_root [OF tp(1) [unfolded t] tp(3) [unfolded t] x] unfolding t by blast
    have "ngx_rbtree_delete h tree a = Some (h2, tree\<lparr>rbt_root := rt ?s t'\<rparr>)"
      unfolding ngx_rbtree_delete_def Let_def d(1) tp(2) using d(2,3,5) by (simp add: t)
    with d show ?thesis
      by (intro exI [of _ h2] exI [of _ "tree\<lparr>rbt_root := rt ?s t'\<rparr>"] exI [of _ t']) (auto simp: rb_tree_def)
  next
    case False
    have "unlinked h ?s tp t a"
    proof (cases "l = Lf \<or> r = Lf")
      case True
      with False obtain f z' where z: "z = f # z'" by (cases z) auto
      from unlink_single [of h ?s tp f z' l a k c r ?x] tp True show ?thesis unfolding t z by auto
    next
      case False
      with unlink_two [of h ?s tp z l a k c r] tp t show ?thesis by auto
    qed
    from delete_inner [OF tp(2) this a as] obtain h' t' where
      "ngx_rbtree_delete h tree a = Some (h', tree\<lparr>rbt_root := rt ?s t'\<rparr>)" "rep h' ?s tp t'" "rb_inv t'"
      "inorder t' = filter (\<lambda>e. fst e \<noteq> a) (inorder t)" "same_outside (insert ?s (set (addrs t))) h h'" "cleared (h' a)"
      by blast
    then show ?thesis
      by (intro exI [of _ h'] exI [of _ "tree\<lparr>rbt_root := rt ?s t'\<rparr>"] exI [of _ t']) (auto simp: rb_tree_def)
  qed
qed

end
