(* ===== verification/Rbtree_Queue.thy ===== *)
theory Rbtree_Queue
  imports Rbtree_Delete
begin

text \<open>
  The red-black tree as an ordered store: the smallest node, the in-order walk, the height
  bound, and the interface the event timers rely on. The locale \<open>ordered_store\<close> states what a
  client of the tree may use: insertion, deletion and the minimum over the list of the
  stored nodes in order. It is interpreted on the tree for both key orders.
\<close>

section \<open>Minimum and successor\<close>

lemma min_first:
  assumes "rep h s tp (fill z t)" and "t \<noteq> Lf"
  shows "ngx_rbtree_min h (rt s t) s = Some (fst (hd (inorder t)))"
proof -
  obtain zm b kb cb br where t: "t = fill zm (Nd Lf b kb cb br)" "\<forall>f \<in> set zm. is_FL f"
      and min: "ngx_rbtree_min h (rt s t) s = Some b"
    using min_rep [OF assms] by blast
  obtain ys where "inorder (fill zm (Nd Lf b kb cb br)) = inorder (Nd Lf b kb cb br) @ ys"
    using inorder_fill_FL [OF t(2)] by blast
  then have "fst (hd (inorder t)) = b" unfolding t(1) by simp
  with min show ?thesis by simp
qed

text \<open>What follows a subtree in order, read off its context.\<close>

fun after_ctx :: "ctx \<Rightarrow> (nat \<times> u64) list" where
  "after_ctx [] = []"
| "after_ctx (FL a k c r # z) = (a, k) # inorder r @ after_ctx z"
| "after_ctx (FR l a k c # z) = after_ctx z"

lemma after_ctx: "\<exists>xs. \<forall>t. inorder (fill z t) = xs @ inorder t @ after_ctx z"
proof (induction z rule: after_ctx.induct)
  case (3 l a k c z)
  then obtain xs where "\<And>t. inorder (fill z t) = xs @ inorder t @ after_ctx z" by blast
  then show ?case by (intro exI [of _ "xs @ inorder l @ [(a, k)]"]) simp
qed auto

definition first_addr :: "(nat \<times> u64) list \<Rightarrow> nat" where
  "first_addr xs = (case xs of [] \<Rightarrow> NULL | x # _ \<Rightarrow> fst x)"

lemma first_addr_append: "xs \<noteq> [] \<Longrightarrow> first_addr (xs @ ys) = fst (hd xs)"
  by (cases xs) (auto simp: first_addr_def)

lemma next_up_ctx:
  assumes "rep h s tp (fill z t)" and "t \<noteq> Lf"
  shows "next_up h (rt s (fill z t)) (rt s t) = Some (first_addr (after_ctx z))"
  using assms
proof (induction z arbitrary: t)
  case Nil
  then show ?case by (cases t; subst next_up.simps) (auto simp: rep_def rd_Some first_addr_def)
next
  case (Cons f z)
  have root: "rt s t \<noteq> rt s (fill (f # z) t)" using hole_not_root [OF Cons.prems(1)] Cons.prems(2) by simp
  have par: "rd h (rt s t) rb_parent = Some (faddr f)" using hole_parent_rep [OF Cons.prems] .
  show ?case
  proof (cases f)
    case (FL a k c r)
    then have "rd h a rb_left = Some (rt s t)" using Cons.prems by (simp add: rep_simps rd_Some)
    with FL root par show ?thesis by (subst next_up.simps) (simp add: first_addr_def)
  next
    case (FR l a k c)
    then have "rd h a rb_left = Some (rt s l)" "rt s l \<noteq> rt s t"
      using Cons.prems by (cases l; cases t; auto simp: rep_simps rd_Some)+
    moreover have "next_up h (rt s (fill z (plug f t))) a = Some (first_addr (after_ctx z))"
      using Cons.IH [of "plug f t"] Cons.prems FR by simp
    ultimately show ?thesis using FR root par by (subst next_up.simps) simp
  qed
qed

lemma split_unique:
  "distinct (map fst (xs @ (a, k) # ys)) \<Longrightarrow> xs @ (a, k) # ys = us @ (a, k') # vs \<Longrightarrow> ys = vs"
proof (induction xs arbitrary: us)
  case Nil
  then show ?case by (cases us) auto
next
  case (Cons x xs)
  show ?case
  proof (cases us)
    case Nil
    with Cons.prems show ?thesis by auto
  next
    case us: (Cons u us')
    have "distinct (map fst (xs @ (a, k) # ys))" using Cons.prems(1) by simp
    moreover have "xs @ (a, k) # ys = us' @ (a, k') # vs" using Cons.prems(2) us by simp
    ultimately show ?thesis by (rule Cons.IH)
  qed
qed

lemma next_node:
  assumes "rep h s tp t" and "rbt_sentinel tree = s" and "rbt_root tree = rt s t"
    and "inorder t = xs @ (a, k) # ys"
  shows "ngx_rbtree_next h tree a = Some (first_addr ys)"
proof -
  have "a \<in> set (addrs t)" using assms(4) by (simp add: addrs_inorder)
  then obtain z l k' c r where t: "t = fill z (Nd l a k' c r)" using find_node by blast
  obtain us where us: "\<And>t. inorder (fill z t) = us @ inorder t @ after_ctx z" using after_ctx by blast
  have "distinct (map fst (inorder t))" using assms(1) by (simp add: rep_def addrs_inorder)
  moreover have "inorder t = (us @ inorder l) @ (a, k') # inorder r @ after_ctx z"
    using us [of "Nd l a k' c r"] t by simp
  ultimately have ys: "ys = inorder r @ after_ctx z"
    using split_unique [of xs a k ys] assms(4) by metis
  have a: "rd h a rb_right = Some (rt s r)" using rep_node [of h s tp z l a k' c r] assms(1) t by (simp add: rd_Some)
  show ?thesis
  proof (cases "r = Lf")
    case True
    then show ?thesis using a ys next_up_ctx [of h s tp z "Nd l a k' c r"] assms(1-3) t
      by (simp add: ngx_rbtree_next_def)
  next
    case False
    then have "rt s r \<noteq> s" using assms(1) t by (cases r) (auto simp: rep_simps)
    moreover have "ngx_rbtree_min h (rt s r) s = Some (fst (hd (inorder r)))"
      using min_first [of h s tp "FR l a k' c # z" r] assms(1) t False by simp
    moreover have "first_addr ys = fst (hd (inorder r))"
      using False ys first_addr_append [of "inorder r" "after_ctx z"] by (cases r) auto
    ultimately show ?thesis using a assms(2) by (simp add: ngx_rbtree_next_def)
  qed
qed

section \<open>Height\<close>

fun height :: "tree \<Rightarrow> nat" where
  "height Lf = 0"
| "height (Nd l a k c r) = Suc (max (height l) (height r))"

lemma bhok_size: "bhok t n \<Longrightarrow> 2 ^ n \<le> length (inorder t) + 1"
proof (induction t arbitrary: n)
  case (Nd l a k c r)
  show ?case
  proof (cases c)
    case True
    then show ?thesis using Nd.IH(1) [of n] Nd.prems by simp
  next
    case False
    then obtain m where m: "n = Suc m" "bhok l m" "bhok r m" using Nd.prems by (cases n) auto
    then show ?thesis using Nd.IH(1) [of m] Nd.IH(2) [of m] by simp
  qed
qed simp

lemma bhok_height: "bhok t n \<Longrightarrow> nrr t \<Longrightarrow> height t \<le> 2 * n + (if red t then 1 else 0)"
proof (induction t arbitrary: n)
  case (Nd l a k c r)
  show ?case
  proof (cases c)
    case True
    then show ?thesis using Nd.IH(1) [of n] Nd.IH(2) [of n] Nd.prems by simp
  next
    case False
    then obtain m where m: "n = Suc m" "bhok l m" "bhok r m" using Nd.prems by (cases n) auto
    have "height l \<le> 2 * m + 1" "height r \<le> 2 * m + 1"
      using Nd.IH(1) [of m] Nd.IH(2) [of m] Nd.prems m by (auto split: if_splits)
    then show ?thesis using m by simp
  qed
qed simp

lemma rb_height: "rb_inv t \<Longrightarrow> 2 ^ ((height t + 1) div 2) \<le> length (inorder t) + 1"
proof -
  assume "rb_inv t"
  then obtain n where n: "bhok t n" "nrr t" "\<not> red t" by (auto simp: rb_inv_def)
  then have "(height t + 1) div 2 \<le> n" using bhok_height [OF n(1,2)] by simp
  then have "(2::nat) ^ ((height t + 1) div 2) \<le> 2 ^ n" by simp
  also note bhok_size [OF n(1)]
  finally show ?thesis .
qed

section \<open>The interface of an ordered store\<close>

text \<open>
  \<open>contents s xs\<close>: the store \<open>s\<close> holds the elements \<open>xs\<close>, in order; \<open>avail s a k\<close>: the node \<open>a\<close> is
  allocated and carries the key \<open>k\<close>.
\<close>

locale ordered_store = key_order lt K
  for lt :: "u64 \<Rightarrow> u64 \<Rightarrow> bool" and K :: "u64 set" +
  fixes contents :: "'s \<Rightarrow> (nat \<times> u64) list \<Rightarrow> bool" and avail :: "'s \<Rightarrow> nat \<Rightarrow> u64 \<Rightarrow> bool"
    and insert_node :: "'s \<Rightarrow> nat \<Rightarrow> 's option" and delete_node :: "'s \<Rightarrow> nat \<Rightarrow> 's option"
    and first_node :: "'s \<Rightarrow> nat option"
  assumes sorted: "contents s xs \<Longrightarrow> sorted_by lt xs"
    and keys: "contents s xs \<Longrightarrow> snd ` set xs \<subseteq> K"
    and nodes: "contents s xs \<Longrightarrow> distinct (map fst xs)"
    and insert_law: "contents s xs \<Longrightarrow> avail s a k \<Longrightarrow> a \<notin> fst ` set xs \<Longrightarrow> k \<in> K \<Longrightarrow>
      \<exists>s'. insert_node s a = Some s' \<and> contents s' (place lt (a, k) xs)"
    and delete_law: "contents s xs \<Longrightarrow> a \<in> fst ` set xs \<Longrightarrow>
      \<exists>s'. delete_node s a = Some s' \<and> contents s' (filter (\<lambda>e. fst e \<noteq> a) xs)"
    and first_law: "contents s xs \<Longrightarrow> xs \<noteq> [] \<Longrightarrow> first_node s = Some (fst (hd xs))"
begin

text \<open>Taking out the first node again and again.\<close>

primrec drain :: "nat \<Rightarrow> 's \<Rightarrow> (nat list \<times> 's) option" where
  "drain 0 s = Some ([], s)"
| "drain (Suc n) s = do {
     a \<leftarrow> first_node s;
     s1 \<leftarrow> delete_node s a;
     (as, s2) \<leftarrow> drain n s1;
     Some (a # as, s2)
   }"

lemma filter_head:
  assumes "contents s (x # xs)"
  shows "filter (\<lambda>e. fst e \<noteq> fst x) (x # xs) = xs"
proof -
  have "\<forall>e \<in> set xs. fst e \<noteq> fst x" using nodes [OF assms] by simp (metis image_eqI)
  then show ?thesis by simp
qed

lemma delete_first:
  assumes "contents s (x # xs)"
  shows "first_node s = Some (fst x) \<and> (\<exists>s'. delete_node s (fst x) = Some s' \<and> contents s' xs)"
  using first_law [OF assms] delete_law [OF assms, of "fst x"] filter_head [OF assms] by auto

lemma first_least:
  assumes "contents s (x # xs)" and "e \<in> set xs"
  shows "\<not> lt (snd e) (snd x)"
  using sorted [OF assms(1)] assms(2) by (simp add: sorted_by_def)

lemma drain_sorted:
  "contents s xs \<Longrightarrow> n \<le> length xs \<Longrightarrow>
   \<exists>s'. drain n s = Some (map fst (take n xs), s') \<and> contents s' (drop n xs)"
proof (induction n arbitrary: s xs)
  case (Suc n)
  then obtain x xs' where xs: "xs = x # xs'" by (cases xs) auto
  with delete_first [of s x xs'] Suc.prems obtain s1 where
    s1: "first_node s = Some (fst x)" "delete_node s (fst x) = Some s1" "contents s1 xs'" by auto
  with Suc.IH [of s1 xs'] Suc.prems xs show ?case by auto
qed auto

end

text \<open>
  The tree with its heap as such a store. \<open>U\<close> is the set of the addresses that hold nodes, in
  the tree or not; every operation keeps them allocated.
\<close>

definition rb_contents ::
  "(u64 \<Rightarrow> u64 \<Rightarrow> bool) \<Rightarrow> u64 set \<Rightarrow> nat set \<Rightarrow> rbheap \<times> rbtree \<Rightarrow> (nat \<times> u64) list \<Rightarrow> bool" where
  "rb_contents lt K U st xs \<longleftrightarrow> (\<exists>t. rb_tree (fst st) (snd st) t \<and> inorder t = xs) \<and>
     rbt_insert (snd st) = insert_below lt \<and> sorted_by lt xs \<and> snd ` set xs \<subseteq> K \<and>
     fst ` set xs \<subseteq> U \<and> rbt_sentinel (snd st) \<notin> U \<and> NULL \<notin> U \<and> (\<forall>a \<in> U. fst st a \<noteq> None)"

definition rb_avail :: "nat set \<Rightarrow> rbheap \<times> rbtree \<Rightarrow> nat \<Rightarrow> u64 \<Rightarrow> bool" where
  "rb_avail U st a k \<longleftrightarrow> a \<in> U \<and> rd (fst st) a rb_key = Some k"

definition rb_first :: "rbheap \<times> rbtree \<Rightarrow> nat option" where
  "rb_first st = ngx_rbtree_min (fst st) (rbt_root (snd st)) (rbt_sentinel (snd st))"

lemma fst_set_inorder: "fst ` set (inorder t) = set (addrs t)"
  by (simp add: addrs_inorder)

lemma set_place: "set (place lt e xs) = insert e (set xs)"
proof -
  let ?P = "\<lambda>x. \<not> lt (snd e) (snd x)"
  have "set xs = set (takeWhile ?P xs) \<union> set (dropWhile ?P xs)"
    unfolding set_append [symmetric] takeWhile_dropWhile_id ..
  then show ?thesis by (simp add: place_def)
qed

lemma rb_contents_first:
  assumes "rb_contents lt K U st xs" and "xs \<noteq> []"
  shows "rb_first st = Some (fst (hd xs))"
proof -
  obtain t tp where t: "rep (fst st) (rbt_sentinel (snd st)) tp t" "inorder t = xs"
      "rbt_root (snd st) = rt (rbt_sentinel (snd st)) t"
    using assms(1) by (auto simp: rb_contents_def rb_tree_def)
  have "t \<noteq> Lf" using t(2) assms(2) by auto
  with t min_first [of "fst st" "rbt_sentinel (snd st)" tp "[]" t] show ?thesis by (simp add: rb_first_def)
qed

lemma rb_contents_root:
  assumes "rb_contents lt K U st xs"
  shows "rbt_root (snd st) = rbt_sentinel (snd st) \<longleftrightarrow> xs = []"
proof -
  obtain t tp where t: "rep (fst st) (rbt_sentinel (snd st)) tp t" "inorder t = xs"
      "rbt_root (snd st) = rt (rbt_sentinel (snd st)) t"
    using assms by (auto simp: rb_contents_def rb_tree_def)
  have "t = Lf \<longleftrightarrow> xs = []" using t(2) by (cases t) auto
  with t rep_root [OF t(1)] show ?thesis by simp
qed

lemma rb_contents_key:
  assumes "rb_contents lt K U st xs" and "(a, k) \<in> set xs"
  shows "rd (fst st) a rb_key = Some k"
proof -
  obtain t tp where t: "rep (fst st) (rbt_sentinel (snd st)) tp t" "inorder t = xs"
    using assms(1) by (auto simp: rb_contents_def rb_tree_def)
  have "rd (fst st) a rb_key = Some k" if "tree_at (fst st) s p t" "(a, k) \<in> set (inorder t)" for s p t
    using that by (induction t arbitrary: p) (auto simp: rd_Some)
  with t assms(2) show ?thesis by (auto simp: rep_def)
qed

lemma rb_contents_alloc: "rb_contents lt K U st xs \<Longrightarrow> a \<in> U \<Longrightarrow> \<exists>n. fst st a = Some n"
  by (auto simp: rb_contents_def)

text \<open>Deletion keeps the nodes allocated and clears the removed one.\<close>

lemma rb_contents_delete:
  assumes c: "rb_contents lt K U st xs" and a: "a \<in> fst ` set xs"
  shows "\<exists>st'. ngx_rbtree_delete (fst st) (snd st) a = Some st' \<and>
    rb_contents lt K U st' (filter (\<lambda>e. fst e \<noteq> a) xs) \<and> rbt_sentinel (snd st') = rbt_sentinel (snd st) \<and>
    cleared (fst st' a) \<and> (\<forall>b. b \<notin> fst ` set xs \<longrightarrow> b \<noteq> rbt_sentinel (snd st) \<longrightarrow> fst st' b = fst st b)"
proof -
  obtain t where t: "rb_tree (fst st) (snd st) t" "inorder t = xs" using c by (auto simp: rb_contents_def)
  have at: "a \<in> set (addrs t)" using a t(2) by (auto simp: addrs_inorder)
  obtain h' tree' t' where d: "ngx_rbtree_delete (fst st) (snd st) a = Some (h', tree')" "rb_tree h' tree' t'"
      "rbt_sentinel tree' = rbt_sentinel (snd st)" "rbt_insert tree' = rbt_insert (snd st)"
      "inorder t' = filter (\<lambda>e. fst e \<noteq> a) xs"
      "same_outside (insert (rbt_sentinel (snd st)) (set (addrs t))) (fst st) h'" "cleared (h' a)"
    using delete_node [OF t(1) at] t(2) by blast
  have outside: "h' b = fst st b" if "b \<notin> fst ` set xs" "b \<noteq> rbt_sentinel (snd st)" for b
    using d(6) that t(2) by (auto simp: same_outside_def fst_set_inorder)
  have "h' b \<noteq> None" if "b \<in> U" for b
  proof (cases "b \<in> fst ` set (inorder t')")
    case True
    have "h' b \<noteq> None" if "tree_at h' s p t'" "b \<in> set (addrs t')" for s p t'
      using that by (induction t' arbitrary: p) auto
    then show ?thesis using True d(2) by (auto simp: rb_tree_def rep_def fst_set_inorder)
  next
    case False
    show ?thesis
    proof (cases "b = a")
      case True
      then show ?thesis using d(7) by (auto simp: cleared_def)
    next
      case ba: False
      then have "b \<notin> fst ` set xs" using False d(5) by auto
      moreover have "b \<noteq> rbt_sentinel (snd st)" "fst st b \<noteq> None" using that c by (auto simp: rb_contents_def)
      ultimately show ?thesis using outside by simp
    qed
  qed
  then have "rb_contents lt K U (h', tree') (filter (\<lambda>e. fst e \<noteq> a) xs)"
    using c d(2-5) by (auto simp: rb_contents_def sorted_by_def sorted_wrt_filter)
  then show ?thesis using d outside by (intro exI [of _ "(h', tree')"]) auto
qed

lemma tree_at_alloc: "tree_at h s p t \<Longrightarrow> b \<in> set (addrs t) \<Longrightarrow> h b \<noteq> None"
  by (induction t arbitrary: p) auto

context key_order
begin

lemma rb_contents_insert:
  assumes c: "rb_contents lt K U st xs" and a: "a \<in> U" "a \<notin> fst ` set xs" "rd (fst st) a rb_key = Some k" "k \<in> K"
  shows "\<exists>st'. ngx_rbtree_insert (fst st) (snd st) a = Some st' \<and> rb_contents lt K U st' (place lt (a, k) xs) \<and>
    rbt_sentinel (snd st') = rbt_sentinel (snd st) \<and>
    (\<forall>b. b \<noteq> a \<longrightarrow> b \<notin> fst ` set xs \<longrightarrow> fst st' b = fst st b)"
proof -
  obtain t where t: "rb_tree (fst st) (snd st) t" "inorder t = xs" "rbt_insert (snd st) = insert_below lt"
    using c by (auto simp: rb_contents_def)
  obtain n where n: "fst st a = Some n" "rb_key n = k" using a(3) by (auto simp: rd_def split: option.splits)
  have at: "a \<notin> set (addrs t)" "a \<noteq> rbt_sentinel (snd st)" "a \<noteq> NULL"
    using a(1,2) t(2) c by (auto simp: rb_contents_def fst_set_inorder [symmetric])
  obtain h' tree' t' where i: "ngx_rbtree_insert (fst st) (snd st) a = Some (h', tree')" "rb_tree h' tree' t'"
      "rbt_sentinel tree' = rbt_sentinel (snd st)" "rbt_insert tree' = rbt_insert (snd st)"
      "inorder t' = inorder (graft lt k t (Nd Lf a k True Lf))" "same_outside (insert a (set (addrs t))) (fst st) h'"
    using insert_graft [OF t(1,3) n(1) at] n(2) by blast
  have io: "inorder t' = place lt (a, k) xs"
    using graft_place [of t k a] i(5) t(2) c a(4) by (simp add: rb_contents_def)
  have outside: "h' b = fst st b" if "b \<noteq> a" "b \<notin> fst ` set xs" for b
    using i(6) that t(2) by (auto simp: same_outside_def fst_set_inorder)
  have "h' b \<noteq> None" if "b \<in> U" for b
  proof (cases "b \<in> set (addrs t')")
    case True
    then show ?thesis using i(2) tree_at_alloc [of h' _ _ t' b] by (auto simp: rb_tree_def rep_def)
  next
    case False
    then have "b \<noteq> a" "b \<notin> fst ` set xs" using io by (auto simp: set_place fst_set_inorder [symmetric])
    then show ?thesis using outside that c by (auto simp: rb_contents_def)
  qed
  moreover have "sorted_by lt (place lt (a, k) xs)" using place_sorted [of xs "(a, k)"] c a(4) by (simp add: rb_contents_def)
  ultimately have "rb_contents lt K U (h', tree') (place lt (a, k) xs)"
    using c i(2-4) io a(1,4) by (auto simp: rb_contents_def set_place)
  then show ?thesis using i outside by (intro exI [of _ "(h', tree')"]) auto
qed

lemma rb_store:
  "ordered_store lt K (rb_contents lt K U) (rb_avail U) (\<lambda>st. ngx_rbtree_insert (fst st) (snd st))
     (\<lambda>st. ngx_rbtree_delete (fst st) (snd st)) rb_first"
proof unfold_locales
  fix st xs a k
  assume "rb_contents lt K U st xs" "rb_avail U st a k" "a \<notin> fst ` set xs" "k \<in> K"
  then show "\<exists>st'. ngx_rbtree_insert (fst st) (snd st) a = Some st' \<and> rb_contents lt K U st' (place lt (a, k) xs)"
    using rb_contents_insert by (fastforce simp: rb_avail_def)
next
  fix st xs a
  assume "rb_contents lt K U st xs" "a \<in> fst ` set xs"
  then show "\<exists>st'. ngx_rbtree_delete (fst st) (snd st) a = Some st' \<and>
      rb_contents lt K U st' (filter (\<lambda>e. fst e \<noteq> a) xs)"
    using rb_contents_delete by blast
next
  fix st xs
  assume "rb_contents lt K U st xs"
  then show "distinct (map fst xs)" "sorted_by lt xs" "snd ` set xs \<subseteq> K"
    by (auto simp: rb_contents_def rb_tree_def rep_def addrs_inorder)
qed (rule rb_contents_first)

end

interpretation timer_store: ordered_store timer_less "window b" "rb_contents timer_less (window b) U" "rb_avail U"
    "\<lambda>st. ngx_rbtree_insert (fst st) (snd st)" "\<lambda>st. ngx_rbtree_delete (fst st) (snd st)" rb_first for b U
  by (rule timer_order.rb_store)

interpretation value_store: ordered_store "\<lambda>nk tk. nk < tk" UNIV "rb_contents (\<lambda>nk tk. nk < tk) UNIV U" "rb_avail U"
    "\<lambda>st. ngx_rbtree_insert (fst st) (snd st)" "\<lambda>st. ngx_rbtree_delete (fst st) (snd st)" rb_first for U
  by (rule value_order.rb_store)

section \<open>Properties of the tree\<close>

lemma insert_place:
  assumes "key_order lt K" and "rb_tree h tree t" and "rbt_insert tree = insert_below lt"
    and "sorted_by lt (inorder t)" and "snd ` set (inorder t) \<subseteq> K"
    and "h node = Some n" and "node \<notin> set (addrs t)" and "node \<noteq> rbt_sentinel tree" and "node \<noteq> NULL"
    and "rb_key n \<in> K"
  shows "\<exists>h' tree' t'. ngx_rbtree_insert h tree node = Some (h', tree') \<and> rb_tree h' tree' t' \<and>
    inorder t' = place lt (node, rb_key n) (inorder t) \<and> sorted_by lt (inorder t') \<and>
    rbt_sentinel tree' = rbt_sentinel tree \<and> rbt_insert tree' = rbt_insert tree \<and>
    (\<forall>x. x \<noteq> node \<longrightarrow> x \<notin> set (addrs t) \<longrightarrow> h' x = h x)"
  using insert_graft [OF assms(2,3,6-9)] key_order.graft_place [OF assms(1,4,5,10)]
    key_order.place_sorted [OF assms(1,4,5), of "(node, rb_key n)"] assms(10)
  unfolding same_outside_def by fastforce

text \<open>
  C5. Insertion of a timer node. On every heap that represents a red-black tree whose keys lie
  within half the range of the clock, \<open>ngx_rbtree_insert\<close> with
  \<open>ngx_rbtree_insert_timer_value\<close> returns (the search and the re-balancing loop end and no
  invalid pointer is followed), the result is again a red-black tree, its nodes in order are
  the old ones with the new one behind every node that is not later, also when the clock
  wraps around, and nothing else in the heap has changed.
\<close>

theorem rbtree_insert_timer:
  assumes "rb_tree h tree t" and "rbt_insert tree = ngx_rbtree_insert_timer_value"
    and "sorted_by timer_less (inorder t)" and "snd ` set (inorder t) \<subseteq> window b"
    and "h node = Some n" and "node \<notin> set (addrs t)" and "node \<noteq> rbt_sentinel tree" and "node \<noteq> NULL"
    and "rb_key n \<in> window b"
  shows "\<exists>h' tree' t'. ngx_rbtree_insert h tree node = Some (h', tree') \<and> rb_tree h' tree' t' \<and>
    inorder t' = place timer_less (node, rb_key n) (inorder t) \<and> sorted_by timer_less (inorder t') \<and>
    rbt_sentinel tree' = rbt_sentinel tree \<and> rbt_insert tree' = rbt_insert tree \<and>
    (\<forall>x. x \<noteq> node \<longrightarrow> x \<notin> set (addrs t) \<longrightarrow> h' x = h x)"
  using insert_place [OF timer_order.key_order_axioms assms(1) assms(2) [unfolded ngx_rbtree_insert_timer_value_def] assms(3-)] .

text \<open>A heap with a tree of three nodes and a node outside it.\<close>

definition demo_heap :: rbheap where
  "demo_heap = [1 \<mapsto> \<lparr>rb_key = 0, rb_left = 0, rb_right = 0, rb_parent = 0, rb_color = False\<rparr>,
     2 \<mapsto> \<lparr>rb_key = 5, rb_left = 3, rb_right = 4, rb_parent = 0, rb_color = False\<rparr>,
     3 \<mapsto> \<lparr>rb_key = 3, rb_left = 1, rb_right = 1, rb_parent = 2, rb_color = True\<rparr>,
     4 \<mapsto> \<lparr>rb_key = 9, rb_left = 1, rb_right = 1, rb_parent = 2, rb_color = True\<rparr>,
     5 \<mapsto> \<lparr>rb_key = 7, rb_left = 0, rb_right = 0, rb_parent = 0, rb_color = False\<rparr>]"

definition demo_tree :: tree where
  "demo_tree = Nd (Nd Lf 3 3 True Lf) 2 5 False (Nd Lf 4 9 True Lf)"

lemma demo_rep: "rep demo_heap 1 0 demo_tree" "rb_inv demo_tree" "demo_heap 5 \<noteq> None"
proof -
  have "bhok demo_tree 1" by (simp add: demo_tree_def)
  then show "rb_inv demo_tree" unfolding rb_inv_def by (auto simp: demo_tree_def)
qed (simp_all add: demo_heap_def demo_tree_def rep_def)

lemma demo_rb_tree: "rb_tree demo_heap \<lparr>rbt_root = 2, rbt_sentinel = 1, rbt_insert = i\<rparr> demo_tree"
  using demo_rep by (auto simp: rb_tree_def demo_tree_def)

theorem rbtree_insert_timer_witness:
  "\<exists>h' tree' t'. ngx_rbtree_insert demo_heap
      \<lparr>rbt_root = 2, rbt_sentinel = 1, rbt_insert = ngx_rbtree_insert_timer_value\<rparr> 5 = Some (h', tree') \<and>
    rb_tree h' tree' t' \<and> inorder t' = [(3, 3), (2, 5), (5, 7), (4, 9)]"
proof -
  let ?tree = "\<lparr>rbt_root = 2, rbt_sentinel = 1, rbt_insert = ngx_rbtree_insert_timer_value\<rparr>"
  let ?n = "\<lparr>rb_key = 7, rb_left = 0, rb_right = 0, rb_parent = 0, rb_color = False\<rparr>"
  have "timer_less 7 9" "\<not> timer_less 7 5" "\<not> timer_less 7 3" "\<not> timer_less 9 5" "\<not> timer_less 9 3" "\<not> timer_less 5 3"
    by (simp_all add: timer_less_def)
  then show ?thesis
    using rbtree_insert_timer [of demo_heap ?tree demo_tree 0 5 ?n, OF demo_rb_tree]
    by (simp add: demo_heap_def demo_tree_def sorted_by_def window_def place_def) blast
qed

text \<open>
  C6. Insertion with \<open>ngx_rbtree_insert_value\<close>, for arbitrary keys in the order of the unsigned
  numbers: it returns, the result is a red-black tree, the new node stands behind every node whose key
  is not larger, the sentinel and the insert function of the tree and the heap outside the tree
  are as before; and the tree stays shallow: its height \<open>d\<close> and its number \<open>n\<close> of nodes
  satisfy \<open>2 ^ ((d + 1) div 2) \<le> n + 1\<close>.
\<close>

theorem rbtree_insert_by_value:
  assumes "rb_tree h tree t" and "rbt_insert tree = ngx_rbtree_insert_value"
    and "sorted_by (\<lambda>x y. x < y) (inorder t)"
    and "h node = Some n" and "node \<notin> set (addrs t)" and "node \<noteq> rbt_sentinel tree" and "node \<noteq> NULL"
  shows "\<exists>h' tree' t'. ngx_rbtree_insert h tree node = Some (h', tree') \<and> rb_tree h' tree' t' \<and>
    inorder t' = place (\<lambda>x y. x < y) (node, rb_key n) (inorder t) \<and> sorted_by (\<lambda>x y. x < y) (inorder t') \<and>
    rbt_sentinel tree' = rbt_sentinel tree \<and> rbt_insert tree' = rbt_insert tree \<and>
    (\<forall>x. x \<noteq> node \<longrightarrow> x \<notin> set (addrs t) \<longrightarrow> h' x = h x) \<and>
    2 ^ ((height t' + 1) div 2) \<le> length (inorder t) + 2"
proof -
  obtain h' tree' t' where i: "ngx_rbtree_insert h tree node = Some (h', tree')" "rb_tree h' tree' t'"
      "inorder t' = place (\<lambda>x y. x < y) (node, rb_key n) (inorder t)" "sorted_by (\<lambda>x y. x < y) (inorder t')"
      "rbt_sentinel tree' = rbt_sentinel tree" "rbt_insert tree' = rbt_insert tree" "\<forall>x. x \<noteq> node \<longrightarrow> x \<notin> set (addrs t) \<longrightarrow> h' x = h x"
    using insert_place [OF value_order.key_order_axioms assms(1) assms(2) [unfolded ngx_rbtree_insert_value_def] assms(3) _ assms(4-)]
    by auto
  have "length (place lt e xs) = Suc (length xs)" for lt e xs
  proof -
    have "length (takeWhile (\<lambda>x. \<not> lt (snd e) (snd x)) xs) + length (dropWhile (\<lambda>x. \<not> lt (snd e) (snd x)) xs) = length xs"
      by (metis length_append takeWhile_dropWhile_id)
    then show ?thesis by (simp add: place_def)
  qed
  then have "length (inorder t') = Suc (length (inorder t))" unfolding i(3) .
  with rb_height [of t'] i(2) have "2 ^ ((height t' + 1) div 2) \<le> length (inorder t) + 2" by (auto simp: rb_tree_def)
  with i show ?thesis by blast
qed

theorem rbtree_insert_by_value_witness:
  "\<exists>h' tree' t'. ngx_rbtree_insert demo_heap
      \<lparr>rbt_root = 2, rbt_sentinel = 1, rbt_insert = ngx_rbtree_insert_value\<rparr> 5 = Some (h', tree') \<and>
    rb_tree h' tree' t' \<and> inorder t' = [(3, 3), (2, 5), (5, 7), (4, 9)] \<and> 2 ^ ((height t' + 1) div 2) \<le> length (inorder demo_tree) + 2"
proof -
  let ?tree = "\<lparr>rbt_root = 2, rbt_sentinel = 1, rbt_insert = ngx_rbtree_insert_value\<rparr>"
  let ?n = "\<lparr>rb_key = 7, rb_left = 0, rb_right = 0, rb_parent = 0, rb_color = False\<rparr>"
  show ?thesis
    using rbtree_insert_by_value [of demo_heap ?tree demo_tree 5 ?n, OF demo_rb_tree]
    by (simp add: demo_heap_def demo_tree_def sorted_by_def place_def) blast
qed

text \<open>
  C7. Deletion. \<open>ngx_rbtree_delete\<close> of any node of a represented red-black tree returns (the
  fix-up loop ends and follows no invalid pointer), the result is again a red-black tree
  with exactly the other nodes in the same order, the removed node is cleared, and only
  nodes of the tree and the sentinel are written.
\<close>

theorem rbtree_delete:
  assumes "rb_tree h tree t" and "a \<in> set (addrs t)"
  shows "\<exists>h' tree' t'. ngx_rbtree_delete h tree a = Some (h', tree') \<and> rb_tree h' tree' t' \<and>
    inorder t' = filter (\<lambda>e. fst e \<noteq> a) (inorder t) \<and> cleared (h' a) \<and>
    rbt_sentinel tree' = rbt_sentinel tree \<and> rbt_insert tree' = rbt_insert tree \<and>
    (\<forall>x. x \<noteq> rbt_sentinel tree \<longrightarrow> x \<notin> set (addrs t) \<longrightarrow> h' x = h x)"
  using delete_node [OF assms] unfolding same_outside_def by fastforce

theorem rbtree_delete_witness:
  "\<exists>h' tree' t'. ngx_rbtree_delete demo_heap
      \<lparr>rbt_root = 2, rbt_sentinel = 1, rbt_insert = ngx_rbtree_insert_value\<rparr> 2 = Some (h', tree') \<and>
    rb_tree h' tree' t' \<and> inorder t' = [(3, 3), (4, 9)] \<and> cleared (h' 2)"
  using rbtree_delete [OF demo_rb_tree [of ngx_rbtree_insert_value], of 2]
  by (simp add: demo_tree_def) blast

text \<open>
  C8. The in-order walk: \<open>ngx_rbtree_min\<close> returns the first node, and \<open>ngx_rbtree_next\<close> leads
  from each node to the one behind it and from the last one to the null pointer.
\<close>

theorem rbtree_walk:
  assumes "rb_tree h tree t" and "t \<noteq> Lf"
  shows "ngx_rbtree_min h (rbt_root tree) (rbt_sentinel tree) = Some (addrs t ! 0) \<and>
    (\<forall>i < length (addrs t). ngx_rbtree_next h tree (addrs t ! i) =
       Some (if Suc i < length (addrs t) then addrs t ! Suc i else NULL))"
proof -
  let ?s = "rbt_sentinel tree"
  obtain tp where t: "rep h ?s tp t" "rbt_root tree = rt ?s t" using assms(1) by (auto simp: rb_tree_def)
  have ne: "inorder t \<noteq> []" using assms(2) by (cases t) auto
  have "ngx_rbtree_min h (rbt_root tree) ?s = Some (addrs t ! 0)"
    using min_first [of h ?s tp "[]" t] t assms(2) ne by (simp add: addrs_inorder hd_conv_nth)
  moreover have "ngx_rbtree_next h tree (addrs t ! i) = Some (if Suc i < length (addrs t) then addrs t ! Suc i else NULL)"
    if i: "i < length (addrs t)" for i
  proof -
    let ?e = "inorder t ! i"
    have "inorder t = take i (inorder t) @ (fst ?e, snd ?e) # drop (Suc i) (inorder t)"
      using i by (simp add: addrs_inorder id_take_nth_drop)
    from next_node [OF t(1) refl t(2) this] show ?thesis
      using i by (auto simp: addrs_inorder first_addr_def split: list.splits simp: drop_eq_Nil dest: nth_via_drop)
  qed
  ultimately show ?thesis by blast
qed

theorem rbtree_walk_witness:
  "ngx_rbtree_min demo_heap 2 1 = Some 3 \<and>
   ngx_rbtree_next demo_heap \<lparr>rbt_root = 2, rbt_sentinel = 1, rbt_insert = ngx_rbtree_insert_value\<rparr> 2 = Some 4"
proof -
  have "demo_tree \<noteq> Lf" "addrs demo_tree = [3, 2, 4]" by (simp_all add: demo_tree_def)
  with rbtree_walk [OF demo_rb_tree [of ngx_rbtree_insert_value]] show ?thesis
    by (auto dest: spec [of _ "1::nat"])
qed

end
