(* ===== verification/Event_Timer.thy ===== *)
theory Event_Timer
  imports Rbtree_Queue
begin

text \<open>
  The event timers of \<open>src/heartbeat/ngx_event_timer.c\<close> and \<open>ngx_event_timer.h\<close>: a red-black
  tree of the timer nodes embedded in the events, ordered by the millisecond at which they
  expire. An event is named by its index in the array of the reactor; its embedded timer
  node has the address \<open>node_of e\<close>, and the code's way back from the node to the event (the
  subtraction of the offset of the field) is \<open>event_of\<close>. The sentinel is a static variable.

  The proofs use the tree through the interface \<open>ordered_store\<close> and the facts about
  \<open>rb_contents\<close> only. The output of \<open>printf\<close> is left out; the fields it reads must exist.
\<close>

unbundle bit_operations_syntax

section \<open>Events\<close>

text \<open>The handlers of the server and of the client.\<close>

datatype handler = Client_Handler | Reactor_Handler | Handler

record ngx_event =
  ev_fd :: int
  ev_arg :: nat
  ev_what :: u32
  ev_status :: int
  ev_buffer :: "u8 list"
  ev_length :: int
  ev_last_active :: u64
  ev_timer_set :: int
  ev_timedout :: int
  ev_handler :: handler

record ngx_timers =
  nt_heap :: rbheap
  nt_tree :: rbtree
  nt_events :: "nat \<rightharpoonup> ngx_event"
  nt_msec :: u64

definition SENTINEL :: nat where "SENTINEL = 1"

definition node_of :: "nat \<Rightarrow> nat" where
  "node_of e = e + 2"

definition event_of :: "nat \<Rightarrow> nat" where
  "event_of n = n - 2"

definition NGX_TIMER_INFINITE :: u64 where "NGX_TIMER_INFINITE = -1"

definition NGX_TIMER_LAZY_DELAY :: int where "NGX_TIMER_LAZY_DELAY = 300"

definition NGX_EVENT_TIMEOUT :: u32 where "NGX_EVENT_TIMEOUT = 0x40"

text \<open>\<open>ngx_abs\<close> of a signed 64-bit difference; the negation of the smallest number wraps.\<close>

definition ngx_abs :: "u64 \<Rightarrow> int" where
  "ngx_abs d = (if sint d \<ge> 0 then sint d else sint (- d))"

section \<open>Operations\<close>

definition ngx_event_timer_init :: "'a ngx_timers_scheme \<Rightarrow> 'a ngx_timers_scheme option" where
  "ngx_event_timer_init st = do {
     (h, t) \<leftarrow> ngx_rbtree_init (nt_heap st) SENTINEL ngx_rbtree_insert_timer_value;
     Some (st\<lparr>nt_heap := h, nt_tree := t\<rparr>)
   }"

definition ngx_event_find_timer :: "'a ngx_timers_scheme \<Rightarrow> u64 option" where
  "ngx_event_find_timer st =
     (if rbt_root (nt_tree st) = SENTINEL then Some NGX_TIMER_INFINITE
      else do {
        node \<leftarrow> ngx_rbtree_min (nt_heap st) (rbt_root (nt_tree st)) (rbt_sentinel (nt_tree st));
        k \<leftarrow> rd (nt_heap st) node rb_key;
        let timer = k - nt_msec st;
        Some (if sint timer > 0 then timer else 0)
      })"

text \<open>The removal of a timer: the tree, then the links of the node, then the mark of the event.\<close>

definition unset_timer :: "'a ngx_timers_scheme \<Rightarrow> nat \<Rightarrow> 'a ngx_timers_scheme option" where
  "unset_timer st e = do {
     ev \<leftarrow> nt_events st e;
     (h, t) \<leftarrow> ngx_rbtree_delete (nt_heap st) (nt_tree st) (node_of e);
     h1 \<leftarrow> set_left h (node_of e) NULL;
     h2 \<leftarrow> set_right h1 (node_of e) NULL;
     h3 \<leftarrow> set_parent h2 (node_of e) NULL;
     Some (st\<lparr>nt_heap := h3, nt_tree := t, nt_events := (nt_events st)(e \<mapsto> ev\<lparr>ev_timer_set := 0\<rparr>)\<rparr>)
   }"

definition ngx_event_del_timer :: "'a ngx_timers_scheme \<Rightarrow> nat \<Rightarrow> 'a ngx_timers_scheme option" where
  "ngx_event_del_timer st e = do {
     k \<leftarrow> rd (nt_heap st) (node_of e) rb_key;
     unset_timer st e
   }"

definition arm_timer :: "'a ngx_timers_scheme \<Rightarrow> nat \<Rightarrow> u64 \<Rightarrow> 'a ngx_timers_scheme option" where
  "arm_timer st e key = do {
     h1 \<leftarrow> set_key (nt_heap st) (node_of e) key;
     (h2, t) \<leftarrow> ngx_rbtree_insert h1 (nt_tree st) (node_of e);
     ev \<leftarrow> nt_events st e;
     Some (st\<lparr>nt_heap := h2, nt_tree := t, nt_events := (nt_events st)(e \<mapsto> ev\<lparr>ev_timer_set := 1\<rparr>)\<rparr>)
   }"

definition ngx_event_add_timer :: "'a ngx_timers_scheme \<Rightarrow> nat \<Rightarrow> u64 \<Rightarrow> 'a ngx_timers_scheme option" where
  "ngx_event_add_timer st e timer = do {
     let key = nt_msec st + timer;
     ev \<leftarrow> nt_events st e;
     if ev_timer_set ev \<noteq> 0 then do {
       k \<leftarrow> rd (nt_heap st) (node_of e) rb_key;
       if ngx_abs (key - k) < NGX_TIMER_LAZY_DELAY then Some st
       else do {
         st1 \<leftarrow> ngx_event_del_timer st e;
         arm_timer st1 e key
       }
     } else arm_timer st e key
   }"

text \<open>
  The loop that expires timers. \<open>call e st\<close> is the call of the handler of the event \<open>e\<close>, which
  may set timers again.
\<close>

definition expire_event :: "'a ngx_timers_scheme \<Rightarrow> nat \<Rightarrow> 'a ngx_timers_scheme option" where
  "expire_event st e = do {
     st1 \<leftarrow> unset_timer st e;
     ev \<leftarrow> nt_events st1 e;
     Some (st1\<lparr>nt_events := (nt_events st1)(e \<mapsto>
       ev\<lparr>ev_timedout := ev_timedout ev + 1, ev_what := ev_what ev OR NGX_EVENT_TIMEOUT\<rparr>)\<rparr>)
   }"

partial_function (option) ngx_event_expire_timers ::
  "(nat \<Rightarrow> 'a ngx_timers_scheme \<Rightarrow> 'a ngx_timers_scheme option) \<Rightarrow> 'a ngx_timers_scheme \<Rightarrow>
   'a ngx_timers_scheme option" where
  "ngx_event_expire_timers call st =
     (if rbt_root (nt_tree st) = rbt_sentinel (nt_tree st) then Some st
      else do {
        node \<leftarrow> ngx_rbtree_min (nt_heap st) (rbt_root (nt_tree st)) (rbt_sentinel (nt_tree st));
        k \<leftarrow> rd (nt_heap st) node rb_key;
        if sint (k - nt_msec st) > 0 then Some st
        else do {
          st1 \<leftarrow> expire_event st (event_of node);
          st2 \<leftarrow> call (event_of node) st1;
          ngx_event_expire_timers call st2
        }
      })"

datatype ngx_result = NGX_OK | NGX_AGAIN

definition ngx_event_no_timers_left :: "'a ngx_timers_scheme \<Rightarrow> ngx_result option" where
  "ngx_event_no_timers_left st =
     (if rbt_root (nt_tree st) = rbt_sentinel (nt_tree st) then Some NGX_OK
      else do {
        node \<leftarrow> ngx_rbtree_min (nt_heap st) (rbt_root (nt_tree st)) (rbt_sentinel (nt_tree st));
        Some (if node \<noteq> NULL then NGX_AGAIN else NGX_OK)
      })"

section \<open>The invariant\<close>

text \<open>
  \<open>timers_inv b E st xs\<close>: \<open>E\<close> is the set of the events in use (the others may hold anything), their
  nodes are allocated, the tree holds the timers \<open>xs\<close> in order, all within the window that
  starts at \<open>b\<close>, and an event in use is marked as having a timer exactly when its node is in
  the tree.
\<close>

definition timers_inv :: "u64 \<Rightarrow> nat set \<Rightarrow> 'a ngx_timers_scheme \<Rightarrow> (nat \<times> u64) list \<Rightarrow> bool" where
  "timers_inv b E st xs \<longleftrightarrow>
     rb_contents timer_less (window b) (node_of ` E) (nt_heap st, nt_tree st) xs \<and>
     rbt_sentinel (nt_tree st) = SENTINEL \<and> E \<subseteq> dom (nt_events st) \<and>
     (\<forall>e \<in> E. \<forall>ev. nt_events st e = Some ev \<longrightarrow> (ev_timer_set ev \<noteq> 0 \<longleftrightarrow> node_of e \<in> fst ` set xs))"

lemma node_of_inj [simp]: "node_of e = node_of e' \<longleftrightarrow> e = e'"
  by (simp add: node_of_def)

lemma event_of_node [simp]: "event_of (node_of e) = e"
  by (simp add: node_of_def event_of_def)

lemma rb_contents_upd:
  assumes "rb_contents lt K U (h, t) xs" and "a \<in> U" and "a \<notin> fst ` set xs"
  shows "rb_contents lt K U (h(a \<mapsto> n), t) xs"
proof -
  obtain tr tp where tr: "rep h (rbt_sentinel t) tp tr" "inorder tr = xs" "rbt_root t = rt (rbt_sentinel t) tr" "rb_inv tr"
    using assms(1) by (auto simp: rb_contents_def rb_tree_def)
  have "a \<notin> set (addrs tr)" using assms(3) tr(2) by (auto simp: fst_set_inorder [symmetric])
  moreover have "a \<noteq> rbt_sentinel t" using assms(1,2) by (auto simp: rb_contents_def)
  ultimately have "rep (h(a \<mapsto> n)) (rbt_sentinel t) tp tr" using tr(1) by (simp add: rep_def)
  then show ?thesis using assms(1) tr(2-4) by (auto simp: rb_contents_def rb_tree_def)
qed

lemma inv_event: "timers_inv b E st xs \<Longrightarrow> e \<in> E \<Longrightarrow> \<exists>ev. nt_events st e = Some ev"
  by (auto simp: timers_inv_def)

lemma inv_node: "timers_inv b E st xs \<Longrightarrow> x \<in> set xs \<Longrightarrow> \<exists>e \<in> E. x = (node_of e, snd x)"
proof -
  assume "timers_inv b E st xs" "x \<in> set xs"
  then have "fst x \<in> node_of ` E" unfolding timers_inv_def rb_contents_def by (metis imageI subsetD)
  then show ?thesis by (metis imageE prod.collapse)
qed

lemma timers_inv_update:
  assumes "timers_inv b E st xs" and "rb_contents timer_less (window b) (node_of ` E) (h, t) ys"
    and "rbt_sentinel t = SENTINEL" and "ev_timer_set ev \<noteq> 0 \<longleftrightarrow> node_of e \<in> fst ` set ys"
    and "\<And>e'. e' \<noteq> e \<Longrightarrow> node_of e' \<in> fst ` set ys \<longleftrightarrow> node_of e' \<in> fst ` set xs"
  shows "timers_inv b E (st\<lparr>nt_heap := h, nt_tree := t, nt_events := (nt_events st)(e \<mapsto> ev)\<rparr>) ys"
proof -
  have "E \<subseteq> dom (nt_events st)" using assms(1) by (simp add: timers_inv_def)
  then have "E \<subseteq> dom ((nt_events st)(e \<mapsto> ev))" by auto
  moreover have "ev_timer_set ev' \<noteq> 0 \<longleftrightarrow> node_of e' \<in> fst ` set ys"
    if "e' \<in> E" "((nt_events st)(e \<mapsto> ev)) e' = Some ev'" for e' ev'
    using that assms(1,4) assms(5) [of e'] by (cases "e' = e") (auto simp: timers_inv_def)
  ultimately show ?thesis using assms(2,3) by (simp add: timers_inv_def)
qed

lemma unset_timer_ok:
  assumes inv: "timers_inv b E st xs" and ev: "nt_events st e = Some ev" and e: "node_of e \<in> fst ` set xs"
  shows "\<exists>h t. unset_timer st e =
      Some (st\<lparr>nt_heap := h, nt_tree := t, nt_events := (nt_events st)(e \<mapsto> ev\<lparr>ev_timer_set := 0\<rparr>)\<rparr>) \<and>
    timers_inv b E (st\<lparr>nt_heap := h, nt_tree := t, nt_events := (nt_events st)(e \<mapsto> ev\<lparr>ev_timer_set := 0\<rparr>)\<rparr>)
      (filter (\<lambda>x. fst x \<noteq> node_of e) xs)"
proof -
  let ?xs = "filter (\<lambda>x. fst x \<noteq> node_of e) xs" and ?a = "node_of e"
  have eE: "e \<in> E" using e inv by (auto simp: timers_inv_def rb_contents_def)
  obtain h t where d: "ngx_rbtree_delete (nt_heap st) (nt_tree st) ?a = Some (h, t)"
      "rb_contents timer_less (window b) (node_of ` E) (h, t) ?xs" "rbt_sentinel t = SENTINEL" "cleared (h ?a)"
    using rb_contents_delete [of timer_less "window b" "node_of ` E" "(nt_heap st, nt_tree st)" xs ?a] inv e
    by (auto simp: timers_inv_def)
  obtain c where c: "h ?a = Some \<lparr>rb_key = 0, rb_left = NULL, rb_right = NULL, rb_parent = NULL, rb_color = c\<rparr>"
    using d(4) by (auto simp: cleared_def)
  let ?h = "h(?a \<mapsto> \<lparr>rb_key = 0, rb_left = NULL, rb_right = NULL, rb_parent = NULL, rb_color = c\<rparr>)"
  have run: "unset_timer st e = Some (st\<lparr>nt_heap := ?h, nt_tree := t, nt_events := (nt_events st)(e \<mapsto> ev\<lparr>ev_timer_set := 0\<rparr>)\<rparr>)"
    using ev d(1) c by (simp add: unset_timer_def heap_exec)
  have "rb_contents timer_less (window b) (node_of ` E) (?h, t) ?xs"
    by (rule rb_contents_upd [OF d(2)]) (use eE in auto)
  then have "timers_inv b E (st\<lparr>nt_heap := ?h, nt_tree := t, nt_events := (nt_events st)(e \<mapsto> ev\<lparr>ev_timer_set := 0\<rparr>)\<rparr>) ?xs"
    by (intro timers_inv_update [OF inv _ d(3)]) auto
  with run show ?thesis by blast
qed

lemma arm_timer_ok:
  assumes inv: "timers_inv b E st xs" and ev: "nt_events st e = Some ev" "e \<in> E" and e: "node_of e \<notin> fst ` set xs"
    and key: "key \<in> window b"
  shows "\<exists>h t. arm_timer st e key =
      Some (st\<lparr>nt_heap := h, nt_tree := t, nt_events := (nt_events st)(e \<mapsto> ev\<lparr>ev_timer_set := 1\<rparr>)\<rparr>) \<and>
    timers_inv b E (st\<lparr>nt_heap := h, nt_tree := t, nt_events := (nt_events st)(e \<mapsto> ev\<lparr>ev_timer_set := 1\<rparr>)\<rparr>)
      (place timer_less (node_of e, key) xs)"
proof -
  let ?a = "node_of e" and ?U = "node_of ` E"
  have a: "?a \<in> ?U" using ev by simp
  obtain n where n: "nt_heap st ?a = Some n"
    using rb_contents_alloc [OF _ a] inv by (fastforce simp: timers_inv_def)
  let ?h1 = "(nt_heap st)(?a \<mapsto> n\<lparr>rb_key := key\<rparr>)"
  have c: "rb_contents timer_less (window b) ?U (?h1, nt_tree st) xs"
    by (rule rb_contents_upd [OF _ a e]) (use inv in \<open>simp add: timers_inv_def\<close>)
  obtain h t where i: "ngx_rbtree_insert ?h1 (nt_tree st) ?a = Some (h, t)"
      "rb_contents timer_less (window b) ?U (h, t) (place timer_less (?a, key) xs)"
      "rbt_sentinel t = SENTINEL"
    using timer_order.rb_contents_insert [OF c a e _ key] inv by (auto simp: rd_Some timers_inv_def)
  have "arm_timer st e key =
      Some (st\<lparr>nt_heap := h, nt_tree := t, nt_events := (nt_events st)(e \<mapsto> ev\<lparr>ev_timer_set := 1\<rparr>)\<rparr>)"
    using ev n i(1) by (simp add: arm_timer_def heap_exec)
  moreover have "timers_inv b E (st\<lparr>nt_heap := h, nt_tree := t, nt_events := (nt_events st)(e \<mapsto> ev\<lparr>ev_timer_set := 1\<rparr>)\<rparr>)
      (place timer_less (?a, key) xs)"
    by (rule timers_inv_update [OF inv i(2,3)]) (auto simp: set_place)
  ultimately show ?thesis by blast
qed

section \<open>Setting a timer\<close>

definition lazy :: "u64 \<Rightarrow> u64 \<Rightarrow> bool" where
  "lazy key k \<longleftrightarrow> ngx_abs (key - k) < NGX_TIMER_LAZY_DELAY"

text \<open>The timers after \<open>ngx_event_add_timer\<close>: a timer that is set and close to the new one is kept.\<close>

definition add_spec :: "nat \<Rightarrow> u64 \<Rightarrow> (nat \<times> u64) list \<Rightarrow> (nat \<times> u64) list" where
  "add_spec e key xs =
     (if \<exists>x \<in> set xs. fst x = node_of e \<and> lazy key (snd x) then xs
      else place timer_less (node_of e, key) (filter (\<lambda>x. fst x \<noteq> node_of e) xs))"

lemma inv_distinct: "timers_inv b E st xs \<Longrightarrow> distinct (map fst xs)"
  using timer_store.nodes by (auto simp: timers_inv_def)

lemma inv_key: "timers_inv b E st xs \<Longrightarrow> (a, k) \<in> set xs \<Longrightarrow> rd (nt_heap st) a rb_key = Some k"
  using rb_contents_key [of timer_less "window b" "node_of ` E" "(nt_heap st, nt_tree st)" xs a k]
  by (simp add: timers_inv_def)

lemma filter_absent: "a \<notin> fst ` set xs \<Longrightarrow> filter (\<lambda>x. fst x \<noteq> a) xs = xs"
  by (induction xs) auto

lemma add_timer_ok:
  assumes inv: "timers_inv b E st xs" and e: "nt_events st e = Some ev" and eE: "e \<in> E" and key: "nt_msec st + timer \<in> window b"
  shows "\<exists>h t c. ngx_event_add_timer st e timer =
      Some (st\<lparr>nt_heap := h, nt_tree := t, nt_events := (nt_events st)(e \<mapsto> ev\<lparr>ev_timer_set := c\<rparr>)\<rparr>) \<and> c \<noteq> 0 \<and>
    timers_inv b E (st\<lparr>nt_heap := h, nt_tree := t, nt_events := (nt_events st)(e \<mapsto> ev\<lparr>ev_timer_set := c\<rparr>)\<rparr>)
      (add_spec e (nt_msec st + timer) xs)"
proof (cases "node_of e \<in> fst ` set xs")
  case False
  then have "ev_timer_set ev = 0" using inv e eE by (auto simp: timers_inv_def)
  moreover have "\<not> (\<exists>x \<in> set xs. fst x = node_of e \<and> lazy (nt_msec st + timer) (snd x))" using False by force
  then have "add_spec e (nt_msec st + timer) xs = place timer_less (node_of e, nt_msec st + timer) xs"
    using filter_absent [OF False] by (auto simp: add_spec_def)
  moreover obtain h t where "arm_timer st e (nt_msec st + timer) =
        Some (st\<lparr>nt_heap := h, nt_tree := t, nt_events := (nt_events st)(e \<mapsto> ev\<lparr>ev_timer_set := 1\<rparr>)\<rparr>)"
      "timers_inv b E (st\<lparr>nt_heap := h, nt_tree := t, nt_events := (nt_events st)(e \<mapsto> ev\<lparr>ev_timer_set := 1\<rparr>)\<rparr>)
        (place timer_less (node_of e, nt_msec st + timer) xs)"
    using arm_timer_ok [OF inv e eE False key] by blast
  ultimately show ?thesis using e
    by (intro exI [of _ h] exI [of _ t] exI [of _ 1]) (simp add: ngx_event_add_timer_def Let_def)
next
  case True
  then obtain k where k: "(node_of e, k) \<in> set xs" by auto
  have rdk: "rd (nt_heap st) (node_of e) rb_key = Some k" using inv_key [OF inv k] .
  have set: "ev_timer_set ev \<noteq> 0" using inv e eE True by (auto simp: timers_inv_def)
  have uniq: "snd x = k" if "x \<in> set xs" "fst x = node_of e" for x
    using eq_key_imp_eq_value [OF inv_distinct [OF inv] k] that by (metis prod.collapse)
  show ?thesis
  proof (cases "lazy (nt_msec st + timer) k")
    case True
    then have "add_spec e (nt_msec st + timer) xs = xs" using k by (force simp: add_spec_def)
    moreover have "st\<lparr>nt_heap := nt_heap st, nt_tree := nt_tree st, nt_events := (nt_events st)(e \<mapsto> ev\<lparr>ev_timer_set := ev_timer_set ev\<rparr>)\<rparr> = st"
      using e by (simp add: fun_upd_idem)
    moreover have "ngx_event_add_timer st e timer = Some st"
      using True e set rdk by (simp add: ngx_event_add_timer_def Let_def lazy_def)
    ultimately show ?thesis using inv set
      by (intro exI [of _ "nt_heap st"] exI [of _ "nt_tree st"] exI [of _ "ev_timer_set ev"]) simp
  next
    case False
    let ?xs = "filter (\<lambda>x. fst x \<noteq> node_of e) xs" and ?ev = "ev\<lparr>ev_timer_set := 0\<rparr>"
    have spec: "add_spec e (nt_msec st + timer) xs = place timer_less (node_of e, nt_msec st + timer) ?xs"
      using False uniq by (auto simp: add_spec_def)
    obtain h t where u: "unset_timer st e = Some (st\<lparr>nt_heap := h, nt_tree := t, nt_events := (nt_events st)(e \<mapsto> ?ev)\<rparr>)"
        "timers_inv b E (st\<lparr>nt_heap := h, nt_tree := t, nt_events := (nt_events st)(e \<mapsto> ?ev)\<rparr>) ?xs" (is "timers_inv _ _ ?st _")
      using unset_timer_ok [OF inv e True] by blast
    have out: "node_of e \<notin> fst ` set ?xs" by auto
    obtain h' t' where "arm_timer ?st e (nt_msec st + timer) =
          Some (?st\<lparr>nt_heap := h', nt_tree := t', nt_events := (nt_events ?st)(e \<mapsto> ?ev\<lparr>ev_timer_set := 1\<rparr>)\<rparr>)"
        "timers_inv b E (?st\<lparr>nt_heap := h', nt_tree := t', nt_events := (nt_events ?st)(e \<mapsto> ?ev\<lparr>ev_timer_set := 1\<rparr>)\<rparr>)
          (place timer_less (node_of e, nt_msec st + timer) ?xs)"
      using arm_timer_ok [OF u(2) _ eE out key, of ?ev] by auto
    with u e set rdk False spec show ?thesis
      by (intro exI [of _ h'] exI [of _ t'] exI [of _ 1])
        (simp add: ngx_event_add_timer_def ngx_event_del_timer_def Let_def lazy_def)
  qed
qed

section \<open>The next timer\<close>

lemma inv_root: "timers_inv b E st xs \<Longrightarrow> rbt_root (nt_tree st) = SENTINEL \<longleftrightarrow> xs = []"
  using rb_contents_root [of timer_less "window b" "node_of ` E" "(nt_heap st, nt_tree st)" xs]
  by (simp add: timers_inv_def)

lemma inv_min:
  assumes "timers_inv b E st (x # xs)"
  shows "ngx_rbtree_min (nt_heap st) (rbt_root (nt_tree st)) (rbt_sentinel (nt_tree st)) = Some (fst x)"
    and "rd (nt_heap st) (fst x) rb_key = Some (snd x)"
  using timer_store.first_law [of b "node_of ` E" "(nt_heap st, nt_tree st)" "x # xs"] assms
    inv_key [OF assms, of "fst x" "snd x"]
  by (simp_all add: timers_inv_def rb_first_def)

lemma find_timer_ok:
  assumes "timers_inv b E st xs"
  shows "ngx_event_find_timer st = Some (case xs of [] \<Rightarrow> NGX_TIMER_INFINITE
    | x # _ \<Rightarrow> if sint (snd x - nt_msec st) > 0 then snd x - nt_msec st else 0)"
proof (cases xs)
  case Nil
  then show ?thesis using inv_root [OF assms] by (simp add: ngx_event_find_timer_def)
next
  case (Cons x xs')
  then have "rbt_root (nt_tree st) \<noteq> SENTINEL" using inv_root [OF assms] by simp
  then show ?thesis using inv_min [of b E st x xs'] assms Cons by (simp add: ngx_event_find_timer_def Let_def)
qed

section \<open>Expiry\<close>

definition due :: "u64 \<Rightarrow> nat \<times> u64 \<Rightarrow> bool" where
  "due now x \<longleftrightarrow> \<not> sint (snd x - now) > 0"

text \<open>
  What a handler must guarantee: it returns, keeps the timers in order and an invariant \<open>P\<close> of
  its own, and neither sets nor removes a timer that is due.
\<close>

definition handler_ok :: "u64 \<Rightarrow> nat set \<Rightarrow> u64 \<Rightarrow> ('a ngx_timers_scheme \<Rightarrow> bool) \<Rightarrow>
    (nat \<Rightarrow> 'a ngx_timers_scheme \<Rightarrow> 'a ngx_timers_scheme option) \<Rightarrow> bool" where
  "handler_ok b E now P call \<longleftrightarrow>
     (\<forall>st xs e. timers_inv b E st xs \<and> P st \<and> nt_msec st = now \<and> e \<in> E \<and> node_of e \<notin> fst ` set xs \<longrightarrow>
       (\<exists>st' xs'. call e st = Some st' \<and> timers_inv b E st' xs' \<and> P st' \<and> nt_msec st' = now \<and>
          filter (due now) xs' = filter (due now) xs)) \<and>
     (\<forall>st e st'. P st \<and> expire_event st e = Some st' \<longrightarrow> P st')"

definition fire :: "(nat \<Rightarrow> 'a ngx_timers_scheme \<Rightarrow> 'a ngx_timers_scheme option) \<Rightarrow> nat \<Rightarrow>
    'a ngx_timers_scheme \<Rightarrow> 'a ngx_timers_scheme option" where
  "fire call e st = do { st1 \<leftarrow> expire_event st e; call e st1 }"

primrec fire_all :: "(nat \<Rightarrow> 'a ngx_timers_scheme \<Rightarrow> 'a ngx_timers_scheme option) \<Rightarrow> nat list \<Rightarrow>
    'a ngx_timers_scheme \<Rightarrow> 'a ngx_timers_scheme option" where
  "fire_all call [] st = Some st"
| "fire_all call (e # es) st = do { st1 \<leftarrow> fire call e st; fire_all call es st1 }"

lemma inv_sorted: "timers_inv b E st xs \<Longrightarrow> sorted_by timer_less xs"
  and inv_keys: "timers_inv b E st xs \<Longrightarrow> snd ` set xs \<subseteq> window b"
  unfolding timers_inv_def using timer_store.sorted timer_store.keys by blast+

lemma due_sorted:
  assumes "sorted_by timer_less (x # xs)" and "snd ` set (x # xs) \<subseteq> window b" and "now \<in> window b"
    and "\<not> due now x" and "y \<in> set xs"
  shows "\<not> due now y"
proof -
  have w: "snd x \<in> window b" "snd y \<in> window b" using assms by auto
  have "\<not> timer_less (snd y) (snd x)" using assms(1,5) by (simp add: sorted_by_def)
  then show ?thesis using assms(4) w assms(3) by (simp add: due_def window_diff timer_less_window)
qed

lemma expire_event_ok:
  assumes inv: "timers_inv b E st (x # xs)"
  shows "\<exists>e st1. x = (node_of e, snd x) \<and> e \<in> E \<and> expire_event st e = Some st1 \<and> timers_inv b E st1 xs \<and>
    nt_msec st1 = nt_msec st \<and> node_of e \<notin> fst ` set xs"
proof -
  obtain e k where e: "e \<in> E" and x: "x = (node_of e, k)" using inv_node [OF inv, of x] by auto
  obtain ev where ev: "nt_events st e = Some ev" using inv_event [OF inv e] by blast
  have out: "node_of e \<notin> fst ` set xs" using inv_distinct [OF inv [unfolded x]] by simp
  have "filter (\<lambda>y. fst y \<noteq> node_of e) (x # xs) = xs" using filter_absent [OF out] by (simp add: x)
  then obtain h t where u: "unset_timer st e = Some (st\<lparr>nt_heap := h, nt_tree := t, nt_events := (nt_events st)(e \<mapsto> ev\<lparr>ev_timer_set := 0\<rparr>)\<rparr>)"
      "timers_inv b E (st\<lparr>nt_heap := h, nt_tree := t, nt_events := (nt_events st)(e \<mapsto> ev\<lparr>ev_timer_set := 0\<rparr>)\<rparr>) xs"
    using unset_timer_ok [OF inv ev] by (auto simp: x)
  have "timers_inv b E (st\<lparr>nt_heap := h, nt_tree := t, nt_events := (nt_events st)(e \<mapsto> ev\<lparr>ev_timer_set := 0, ev_timedout := ev_timedout ev + 1,
      ev_what := ev_what ev OR NGX_EVENT_TIMEOUT\<rparr>)\<rparr>) xs"
    using u(2) ev unfolding timers_inv_def by (auto simp: dom_def split: if_splits)
  with u(1) e out x show ?thesis by (auto simp: expire_event_def)
qed

lemma expire_ok:
  assumes "handler_ok b E now P call" and "timers_inv b E st xs" and "P st" and "nt_msec st = now" and "now \<in> window b"
  shows "\<exists>st' xs'. ngx_event_expire_timers call st = Some st' \<and>
    fire_all call (map (\<lambda>x. event_of (fst x)) (filter (due now) xs)) st = Some st' \<and>
    timers_inv b E st' xs' \<and> P st' \<and> nt_msec st' = now \<and> (\<forall>x \<in> set xs'. \<not> due now x)"
  using assms
proof (induction "length (filter (due now) xs)" arbitrary: st xs rule: less_induct)
  case less
  note inv = less.prems(2)
  have root: "rbt_root (nt_tree st) = rbt_sentinel (nt_tree st) \<longleftrightarrow> xs = []"
    using inv_root [OF inv] inv by (simp add: timers_inv_def)
  show ?case
  proof (cases xs)
    case Nil
    then show ?thesis using root inv less.prems
      by (intro exI [of _ st] exI [of _ xs]) (subst ngx_event_expire_timers.simps, auto)
  next
    case (Cons x xs1)
    note min = inv_min [OF inv [unfolded Cons]]
    show ?thesis
    proof (cases "due now x")
      case False
      have nd: "\<forall>y \<in> set xs. \<not> due now y"
        using due_sorted [of x xs1 b now] inv_sorted [OF inv] inv_keys [OF inv] less.prems(5) False Cons by auto
      then have "filter (due now) xs = []" by (simp add: filter_empty_conv)
      moreover have "ngx_event_expire_timers call st = Some st"
        using root min False Cons less.prems(4) by (subst ngx_event_expire_timers.simps) (simp add: due_def)
      ultimately show ?thesis using inv nd less.prems(3,4) by (intro exI [of _ st] exI [of _ xs]) simp
    next
      case True
      obtain e st1 where e: "x = (node_of e, snd x)" "e \<in> E" "expire_event st e = Some st1" "timers_inv b E st1 xs1"
          "nt_msec st1 = nt_msec st" "node_of e \<notin> fst ` set xs1"
        using expire_event_ok [OF inv [unfolded Cons]] by blast
      have P: "P st1" using less.prems(1,3) e(3) unfolding handler_ok_def by blast
      obtain st2 xs2 where c: "call e st1 = Some st2" "timers_inv b E st2 xs2" "nt_msec st2 = now"
          "filter (due now) xs2 = filter (due now) xs1" "P st2"
        using less.prems(1,4) e P unfolding handler_ok_def by metis
      have len: "length (filter (due now) xs2) < length (filter (due now) xs)" using c(4) Cons True by simp
      obtain st' xs' where r: "ngx_event_expire_timers call st2 = Some st'"
          "fire_all call (map (\<lambda>x. event_of (fst x)) (filter (due now) xs2)) st2 = Some st'"
          "timers_inv b E st' xs'" "P st'" "nt_msec st' = now" "\<forall>x \<in> set xs'. \<not> due now x"
        using less.hyps [OF len less.prems(1) c(2,5,3) less.prems(5)] by blast
      have ev: "event_of (fst x) = e" using e(1) by (metis event_of_node fst_conv)
      have "ngx_event_expire_timers call st = Some st'"
        using root min True Cons less.prems(4) e(3) c(1) r(1) ev
        by (subst ngx_event_expire_timers.simps) (simp add: due_def)
      moreover have "fire_all call (map (\<lambda>x. event_of (fst x)) (filter (due now) xs)) st = Some st'"
        using True Cons e(3) c(1,4) r(2) ev by (simp add: fire_def)
      ultimately show ?thesis using r(3-6) by blast
    qed
  qed
qed

section \<open>Properties of the timers\<close>

text \<open>A state with four events, three of them with a timer.\<close>

definition demo_event :: "int \<Rightarrow> int \<Rightarrow> ngx_event" where
  "demo_event fd ts = \<lparr>ev_fd = fd, ev_arg = 1, ev_what = 1, ev_status = 1, ev_buffer = [], ev_length = 0,
     ev_last_active = 0, ev_timer_set = ts, ev_timedout = 0, ev_handler = Client_Handler\<rparr>"

definition demo_timers :: "u64 \<Rightarrow> ngx_timers" where
  "demo_timers now = \<lparr>nt_heap = demo_heap,
     nt_tree = \<lparr>rbt_root = 2, rbt_sentinel = 1, rbt_insert = ngx_rbtree_insert_timer_value\<rparr>,
     nt_events = [0 \<mapsto> demo_event 0 1, 1 \<mapsto> demo_event 1 1, 2 \<mapsto> demo_event 2 1, 3 \<mapsto> demo_event 3 0],
     nt_msec = now\<rparr>"

lemma demo_timers_inv: "timers_inv 0 {0, 1, 2, 3} (demo_timers now) [(3, 3), (2, 5), (4, 9)]"
proof -
  have io: "inorder demo_tree = [(3, 3), (2, 5), (4, 9)]" by (simp add: demo_tree_def)
  have "sorted_by timer_less [(3, 3), (2, 5), (4, 9)]"
    by (simp add: sorted_by_def timer_less_def)
  moreover have "node_of ` {0, 1, 2, 3} = {2, 3, 4, 5}" by (auto simp: node_of_def)
  moreover have "\<forall>a \<in> {2, 3, 4, 5}. demo_heap a \<noteq> None" by (simp add: demo_heap_def)
  ultimately have "rb_contents timer_less (window 0) (node_of ` {0, 1, 2, 3})
      (demo_heap, \<lparr>rbt_root = 2, rbt_sentinel = 1, rbt_insert = ngx_rbtree_insert_timer_value\<rparr>) [(3, 3), (2, 5), (4, 9)]"
    using demo_rb_tree [of ngx_rbtree_insert_timer_value] io
    by (auto simp: rb_contents_def window_def ngx_rbtree_insert_timer_value_def)
  then show ?thesis
    by (auto simp: timers_inv_def demo_timers_def SENTINEL_def demo_event_def node_of_def split: if_splits)
qed

text \<open>
  C9. Expiry. Assume the handler keeps an invariant and neither sets nor removes a timer that
  is due. Then
  \<open>ngx_event_expire_timers\<close> returns; it has fired exactly the events whose timers are due,
  each once, in the order of their timers (removal from the tree, the marks, then the
  handler); no timer that is due is left, and the timers are again a red-black tree in order.
\<close>

theorem expire_fires_due:
  assumes "handler_ok b E now P call" and "timers_inv b E st xs" and "P st" and "nt_msec st = now" and "now \<in> window b"
  shows "\<exists>st' xs'. ngx_event_expire_timers call st = Some st' \<and>
    fire_all call (map (\<lambda>x. event_of (fst x)) (filter (due now) xs)) st = Some st' \<and>
    timers_inv b E st' xs' \<and> P st' \<and> (\<forall>x \<in> set xs'. \<not> due now x)"
  using expire_ok [OF assms] by blast

theorem expire_fires_due_witness:
  "\<exists>st' xs'. ngx_event_expire_timers (\<lambda>e. Some) (demo_timers 6) = Some st' \<and>
    fire_all (\<lambda>e. Some) [1, 0] (demo_timers 6) = Some st' \<and>
    timers_inv 0 {0, 1, 2, 3} st' xs' \<and> (\<forall>x \<in> set xs'. \<not> due 6 x)"
proof -
  have "handler_ok 0 {0, 1, 2, 3} 6 (\<lambda>st. True) (\<lambda>e. Some :: ngx_timers \<Rightarrow> ngx_timers option)"
    by (auto simp: handler_ok_def)
  moreover have "map (\<lambda>x. event_of (fst x)) (filter (due 6) [(3, 3), (2, 5), (4, 9)]) = [1, 0]"
    by (simp add: due_def event_of_def)
  moreover have "nt_msec (demo_timers 6) = 6" "6 \<in> window 0" by (simp_all add: demo_timers_def window_def)
  ultimately show ?thesis
    using expire_fires_due [OF _ demo_timers_inv, of 6 "\<lambda>st. True" "\<lambda>e. Some" 6] by simp
qed

text \<open>
  C10. Setting a timer. \<open>ngx_event_add_timer\<close> returns and keeps the invariant. Without a timer
  the event gets one at the current time plus the given time; an older one is replaced,
  except that it is kept when the two are less than 300 ms apart. No other timer changes.
\<close>

theorem add_timer_sets:
  assumes "timers_inv b E st xs" and "e \<in> E" and "nt_msec st + timer \<in> window b"
  shows "\<exists>st'. ngx_event_add_timer st e timer = Some st' \<and>
    timers_inv b E st' (add_spec e (nt_msec st + timer) xs) \<and> nt_msec st' = nt_msec st \<and>
    (\<exists>k. (node_of e, k) \<in> set (add_spec e (nt_msec st + timer) xs) \<and> lazy (nt_msec st + timer) k) \<and>
    (\<forall>e'. e' \<noteq> e \<longrightarrow> nt_events st' e' = nt_events st e')"
proof -
  obtain ev where "nt_events st e = Some ev" using inv_event [OF assms(1,2)] by blast
  then obtain h t c where st': "ngx_event_add_timer st e timer =
      Some (st\<lparr>nt_heap := h, nt_tree := t, nt_events := (nt_events st)(e \<mapsto> ev\<lparr>ev_timer_set := c\<rparr>)\<rparr>)"
      "timers_inv b E (st\<lparr>nt_heap := h, nt_tree := t, nt_events := (nt_events st)(e \<mapsto> ev\<lparr>ev_timer_set := c\<rparr>)\<rparr>)
      (add_spec e (nt_msec st + timer) xs)"
    using add_timer_ok [OF assms(1) _ assms(2,3)] by blast
  have "lazy k k" for k by (simp add: lazy_def ngx_abs_def NGX_TIMER_LAZY_DELAY_def)
  then have "\<exists>k. (node_of e, k) \<in> set (add_spec e (nt_msec st + timer) xs) \<and> lazy (nt_msec st + timer) k"
    by (auto simp: add_spec_def set_place)
  with st' show ?thesis by auto
qed

theorem add_timer_sets_witness:
  "\<exists>st'. ngx_event_add_timer (demo_timers 0) 3 7 = Some st' \<and>
    timers_inv 0 {0, 1, 2, 3} st' [(3, 3), (2, 5), (5, 7), (4, 9)]"
proof -
  have "nt_msec (demo_timers 0) + 7 \<in> window 0" by (simp add: demo_timers_def window_def)
  moreover have "add_spec 3 (nt_msec (demo_timers 0) + 7) [(3, 3), (2, 5), (4, 9)] = [(3, 3), (2, 5), (5, 7), (4, 9)]"
    by (simp add: add_spec_def place_def demo_timers_def node_of_def timer_less_def)
  ultimately show ?thesis using add_timer_sets [OF demo_timers_inv [of 0], of 3 7] by auto
qed

text \<open>
  C11. The time to wait. \<open>ngx_event_find_timer\<close> returns minus one when there is no timer;
  otherwise the time until the earliest timer expires, 0 when one is due: no timer expires
  before that time, and one expires then.
\<close>

theorem find_timer_earliest:
  assumes "timers_inv b E st xs" and "nt_msec st \<in> window b"
  shows "\<exists>r. ngx_event_find_timer st = Some r \<and> (xs = [] \<longrightarrow> r = - 1) \<and>
    (\<forall>x \<in> set xs. sint r \<le> max 0 (sint (snd x - nt_msec st))) \<and>
    (xs \<noteq> [] \<longrightarrow> (\<exists>x \<in> set xs. sint r = max 0 (sint (snd x - nt_msec st))))"
proof (cases xs)
  case Nil
  then show ?thesis using find_timer_ok [OF assms(1)] by (simp add: NGX_TIMER_INFINITE_def)
next
  case (Cons x ys)
  let ?r = "if sint (snd x - nt_msec st) > 0 then snd x - nt_msec st else 0"
  have r: "ngx_event_find_timer st = Some ?r" "sint ?r = max 0 (sint (snd x - nt_msec st))"
    using find_timer_ok [OF assms(1)] Cons by simp_all
  have "sint (snd x - nt_msec st) \<le> sint (snd y - nt_msec st)" if "y \<in> set xs" for y
  proof -
    have w: "snd x \<in> window b" "snd y \<in> window b" using inv_keys [OF assms(1)] that Cons by auto
    have "\<not> timer_less (snd y) (snd x)"
      using inv_sorted [OF assms(1)] that Cons by (auto simp: sorted_by_def timer_less_def)
    then show ?thesis using w assms(2) by (simp add: window_diff timer_less_window)
  qed
  then show ?thesis using r Cons by (intro exI [of _ ?r]) force
qed

theorem find_timer_earliest_witness:
  "\<exists>r. ngx_event_find_timer (demo_timers 1) = Some r \<and> sint r = 2"
proof -
  have "nt_msec (demo_timers 1) = 1" "1 \<in> window 0" by (simp_all add: demo_timers_def window_def)
  then show ?thesis using find_timer_earliest [OF demo_timers_inv [of 1]] by fastforce
qed

end
