(* ===== verification/Reactor.thy ===== *)
theory Reactor
  imports Event_Timer
begin

text \<open>
  The event loop of \<open>src/heartbeat/ngx_reactor.c\<close> and the clock of \<open>ngx_times.c\<close>. The operating
  system is a parameter: a record of functions on a state of their own, one for each system
  call the sources use. An event is named by its index in the array \<open>reactor->ev\<close>; the array
  comes from \<open>malloc\<close>, so its contents before \<open>ngx_event_set\<close> are arbitrary. A function of the
  code that ends without a \<open>return\<close> has no value (\<^const>\<open>None\<close>).
\<close>

unbundle bit_operations_syntax

section \<open>The operating system\<close>

datatype epoll_op = EPOLL_CTL_ADD | EPOLL_CTL_MOD | EPOLL_CTL_DEL

record 'k kernel =
  k_epoll_create :: "'k \<Rightarrow> int \<times> 'k"
  k_epoll_ctl :: "int \<Rightarrow> epoll_op \<Rightarrow> int \<Rightarrow> u32 \<Rightarrow> nat \<Rightarrow> 'k \<Rightarrow> int \<times> 'k"
  k_epoll_wait :: "int \<Rightarrow> int \<Rightarrow> 'k \<Rightarrow> (int \<times> (u32 \<times> nat) list) \<times> 'k"
  k_recv :: "int \<Rightarrow> nat \<Rightarrow> 'k \<Rightarrow> (int \<times> u8 list) \<times> 'k"
  k_send :: "int \<Rightarrow> u8 list \<Rightarrow> 'k \<Rightarrow> int \<times> 'k"
  k_accept :: "int \<Rightarrow> 'k \<Rightarrow> int \<times> 'k"
  k_close :: "int \<Rightarrow> 'k \<Rightarrow> 'k"
  k_set_nonblock :: "int \<Rightarrow> 'k \<Rightarrow> int \<times> 'k"
  k_gettimeofday :: "'k \<Rightarrow> (u64 \<times> u64) \<times> 'k"

record 'k ngx_state = ngx_timers +
  ns_epfd :: int
  ns_kernel :: 'k

section \<open>Constants\<close>

definition NGX_EVENT_READING :: u32 where "NGX_EVENT_READING = 0x01"
definition NGX_EVENT_WRITING :: u32 where "NGX_EVENT_WRITING = 0x02"
definition EPOLLIN :: u32 where "EPOLLIN = 0x001"
definition EPOLLOUT :: u32 where "EPOLLOUT = 0x004"
definition BUFFER_LENGTH :: nat where "BUFFER_LENGTH = 4096"
definition MAX_EPOLL_EVENTS :: nat where "MAX_EPOLL_EVENTS = 1024"

text \<open>The test of a flag.\<close>

definition has :: "u32 \<Rightarrow> u32 \<Rightarrow> bool" where
  "has w f \<longleftrightarrow> w AND f \<noteq> 0"

section \<open>Clock\<close>

definition ngx_time_update :: "'k kernel \<Rightarrow> 'k ngx_state \<Rightarrow> 'k ngx_state" where
  "ngx_time_update K st =
     (case k_gettimeofday K (ns_kernel st) of ((sec, usec), k) \<Rightarrow>
        st\<lparr>ns_kernel := k, nt_msec := sec * 1000 + usec div 1000\<rparr>)"

section \<open>Events\<close>

definition upd_event :: "'k ngx_state \<Rightarrow> nat \<Rightarrow> (ngx_event \<Rightarrow> ngx_event) \<Rightarrow> 'k ngx_state option" where
  "upd_event st e f = (case nt_events st e of None \<Rightarrow> None
     | Some ev \<Rightarrow> Some (st\<lparr>nt_events := (nt_events st)(e \<mapsto> f ev)\<rparr>))"

definition ngx_event_set :: "'k ngx_state \<Rightarrow> nat \<Rightarrow> int \<Rightarrow> handler \<Rightarrow> nat \<Rightarrow> 'k ngx_state option" where
  "ngx_event_set st e fd handler arg =
     upd_event st e (\<lambda>ev. ev\<lparr>ev_fd := fd, ev_handler := handler, ev_what := 0, ev_arg := arg,
       ev_last_active := nt_msec st\<rparr>)"

definition ngx_event_add :: "'k kernel \<Rightarrow> 'k ngx_state \<Rightarrow> u32 \<Rightarrow> u64 \<Rightarrow> nat \<Rightarrow> (int \<times> 'k ngx_state) option" where
  "ngx_event_add K st what timeout e = do {
     st1 \<leftarrow> upd_event st e (\<lambda>ev. ev\<lparr>ev_what := ev_what ev OR what\<rparr>);
     let events = (if has what NGX_EVENT_READING then EPOLLIN else 0) OR (if has what NGX_EVENT_WRITING then EPOLLOUT else 0);
     st2 \<leftarrow> (if has what NGX_EVENT_TIMEOUT then ngx_event_add_timer st1 e timeout else Some st1);
     ev \<leftarrow> nt_events st2 e;
     (op, st3) \<leftarrow>
       (if ev_status ev = 1 then Some (EPOLL_CTL_MOD, st2)
        else do { st3 \<leftarrow> upd_event st2 e (\<lambda>ev. ev\<lparr>ev_status := 1\<rparr>); Some (EPOLL_CTL_ADD, st3) });
     let (r, k) = k_epoll_ctl K (ns_epfd st3) op (ev_fd ev) events e (ns_kernel st3);
     Some (if r < 0 then -1 else 0, st3\<lparr>ns_kernel := k\<rparr>)
   }"

definition ngx_event_del :: "'k kernel \<Rightarrow> 'k ngx_state \<Rightarrow> nat \<Rightarrow> (int \<times> 'k ngx_state) option" where
  "ngx_event_del K st e = do {
     ev \<leftarrow> nt_events st e;
     if ev_status ev \<noteq> 1 then Some (-1, st)
     else do {
       st1 \<leftarrow> upd_event st e (\<lambda>ev. ev\<lparr>ev_status := 0\<rparr>);
       let (r, k) = k_epoll_ctl K (ns_epfd st1) EPOLL_CTL_DEL (ev_fd ev) 0 e (ns_kernel st1);
       Some (0, st1\<lparr>ns_kernel := k\<rparr>)
     }
   }"

section \<open>Accesses shared by the callbacks\<close>

text \<open>The event \<open>reactor->ev + fd\<close>; a negative index is outside the array.\<close>

definition ev_index :: "int \<Rightarrow> nat option" where
  "ev_index fd = (if 0 \<le> fd then Some (nat fd) else None)"

text \<open>What \<open>recv\<close> leaves in the buffer, and the terminating zero at the index \<open>len\<close>.\<close>

definition fill_buffer :: "u8 list \<Rightarrow> u8 list \<Rightarrow> u8 list" where
  "fill_buffer data buf = data @ drop (length data) buf"

definition terminate :: "u8 list \<Rightarrow> int \<Rightarrow> u8 list option" where
  "terminate buf len = (if nat len < length buf then Some (buf[nat len := 0]) else None)"

definition close_ev :: "'k kernel \<Rightarrow> 'k ngx_state \<Rightarrow> nat \<Rightarrow> 'k ngx_state option" where
  "close_ev K st e = do {
     ev \<leftarrow> nt_events st e;
     Some (st\<lparr>ns_kernel := k_close K (ev_fd ev) (ns_kernel st)\<rparr>)
   }"

section \<open>The reactor\<close>

text \<open>
  \<open>memory\<close> is what \<open>malloc\<close> returns for the array of events: a failure, or the contents of the
  events and of the timer nodes embedded in them.
\<close>

definition ngx_reactor_init ::
  "'k kernel \<Rightarrow> nat \<Rightarrow> ((nat \<Rightarrow> ngx_event) \<times> (nat \<Rightarrow> rbnode)) option \<Rightarrow> 'k ngx_state \<Rightarrow> int option \<times> 'k ngx_state" where
  "ngx_reactor_init K reactor memory st =
     (if reactor = NULL then (Some (-1), st)
      else case k_epoll_create K (ns_kernel st) of (epfd, k) \<Rightarrow>
        let st1 = st\<lparr>ns_epfd := epfd, ns_kernel := k, nt_events := Map.empty\<rparr> in
        if epfd \<le> 0 then (Some (-2), st1)
        else (case memory of
            None \<Rightarrow> (Some (-3), st1\<lparr>ns_kernel := k_close K epfd k\<rparr>)
          | Some (evs, nodes) \<Rightarrow>
              (None, st1\<lparr>nt_events := (\<lambda>e. if e < MAX_EPOLL_EVENTS then Some (evs e) else None),
                 nt_heap := (\<lambda>a. if node_of 0 \<le> a \<and> a < node_of MAX_EPOLL_EVENTS then Some (nodes (event_of a)) else nt_heap st1 a)\<rparr>)))"

definition ngx_reactor_destory :: "'k kernel \<Rightarrow> nat \<Rightarrow> 'k ngx_state \<Rightarrow> 'k ngx_state option" where
  "ngx_reactor_destory K reactor st =
     (if reactor = NULL then None
      else Some (st\<lparr>ns_kernel := k_close K (ns_epfd st) (ns_kernel st), nt_events := Map.empty\<rparr>))"

text \<open>
  The loop over the events that are ready. The two updates of \<open>what\<close> before the call set flags
  that the guards have just tested.
\<close>

fun handle_ready :: "(nat \<Rightarrow> 'k ngx_state \<Rightarrow> 'k ngx_state option) \<Rightarrow> (u32 \<times> nat) list \<Rightarrow> 'k ngx_state \<Rightarrow> 'k ngx_state option" where
  "handle_ready call [] st = Some st"
| "handle_ready call ((events, e) # rest) st = do {
     ev \<leftarrow> nt_events st e;
     st1 \<leftarrow> (if has events EPOLLIN \<and> has (ev_what ev) NGX_EVENT_READING
             then upd_event st e (\<lambda>ev. ev\<lparr>ev_what := ev_what ev OR NGX_EVENT_READING\<rparr>) else Some st);
     ev1 \<leftarrow> nt_events st1 e;
     st2 \<leftarrow> (if has events EPOLLOUT \<and> has (ev_what ev1) NGX_EVENT_WRITING
             then upd_event st1 e (\<lambda>ev. ev\<lparr>ev_what := ev_what ev OR NGX_EVENT_WRITING\<rparr>) else Some st1);
     st3 \<leftarrow> call e st2;
     handle_ready call rest st3
   }"

definition loop_body :: "'k kernel \<Rightarrow> (nat \<Rightarrow> 'k ngx_state \<Rightarrow> 'k ngx_state option) \<Rightarrow> 'k ngx_state \<Rightarrow> 'k ngx_state option" where
  "loop_body K call st = do {
     let delta = nt_msec st;
     timer \<leftarrow> ngx_event_find_timer st;
     let ((nready, events), k) = k_epoll_wait K (ns_epfd st) (sint (ucast timer :: u32)) (ns_kernel st);
     let st1 = st\<lparr>ns_kernel := k\<rparr>;
     if nready < 0 then Some st1
     else do {
       let st2 = ngx_time_update K st1;
       st3 \<leftarrow> handle_ready call (take (nat nready) events) st2;
       if nt_msec st3 - delta \<noteq> 0 then ngx_event_expire_timers call st3 else Some st3
     }
   }"

text \<open>
  The loop itself never ends: \<open>n\<close> is the number of iterations observed. The guards before it
  return -1; \<open>alloc\<close> says whether \<open>reactor->ev\<close> is not null.
\<close>

primrec loop_iterations :: "nat \<Rightarrow> 'k kernel \<Rightarrow> (nat \<Rightarrow> 'k ngx_state \<Rightarrow> 'k ngx_state option) \<Rightarrow> 'k ngx_state \<Rightarrow> 'k ngx_state option" where
  "loop_iterations 0 K call st = Some st"
| "loop_iterations (Suc n) K call st = do { st1 \<leftarrow> loop_body K call st; loop_iterations n K call st1 }"

datatype 'k loop_result = Returned int "'k ngx_state" | Running "'k ngx_state"

definition ngx_reactor_loop ::
  "nat \<Rightarrow> nat \<Rightarrow> bool \<Rightarrow> 'k kernel \<Rightarrow> (nat \<Rightarrow> 'k ngx_state \<Rightarrow> 'k ngx_state option) \<Rightarrow> 'k ngx_state \<Rightarrow> 'k loop_result option" where
  "ngx_reactor_loop n reactor alloc K call st =
     (if reactor = NULL then Some (Returned (-1) st)
      else if ns_epfd st < 0 then Some (Returned (-1) st)
      else if \<not> alloc then Some (Returned (-1) st)
      else do {
        st1 \<leftarrow> ngx_event_timer_init st;
        st2 \<leftarrow> loop_iterations n K call st1;
        Some (Running st2)
      })"

section \<open>A kernel for examples\<close>

text \<open>A kernel whose state is the list of the closed descriptors and on which nothing is ever received.\<close>

definition demo_kernel :: "int list kernel" where
  "demo_kernel = \<lparr>k_epoll_create = (\<lambda>k. (7, k)), k_epoll_ctl = (\<lambda>_ _ _ _ _ k. (0, k)), k_epoll_wait = (\<lambda>_ _ k. ((0, []), k)),
     k_recv = (\<lambda>_ _ k. ((-1, []), k)), k_send = (\<lambda>_ d k. (int (length d), k)), k_accept = (\<lambda>_ k. (-1, k)),
     k_close = (\<lambda>fd k. fd # k), k_set_nonblock = (\<lambda>_ k. (0, k)), k_gettimeofday = (\<lambda>k. ((0, 0), k))\<rparr>"

end
