(* ===== verification/Byte_Words.thy ===== *)
theory Byte_Words
  imports Prelude
begin

text \<open>
  Machine words as bytes: the little-endian representation the code relies on when it copies an
  integer with \<open>memcpy\<close>, \<open>fwrite\<close> or a pointer cast, and the byte swap of \<open>htonl\<close> and \<open>htons\<close>.
\<close>

unbundle bit_operations_syntax

section \<open>Little-endian words\<close>

fun le_word :: "u8 list \<Rightarrow> 'a::len word" where
  "le_word [] = 0"
| "le_word (b # bs) = ucast b OR push_bit 8 (le_word bs)"

fun le_bytes :: "nat \<Rightarrow> 'a::len word \<Rightarrow> u8 list" where
  "le_bytes 0 w = []"
| "le_bytes (Suc n) w = ucast w # le_bytes n (drop_bit 8 w)"

lemma le_word_append:
  "le_word (xs @ ys) = (le_word xs :: 'a::len word) OR push_bit (8 * length xs) (le_word ys)"
  by (induction xs) (simp_all add: or.assoc ac_simps)

lemma bit_le_word_high: "8 * length xs \<le> i \<Longrightarrow> \<not> bit (le_word xs :: 'a::len word) i"
proof (induction xs arbitrary: i)
  case (Cons x xs)
  then have "\<not> bit (le_word xs :: 'a word) (i - 8)" and "\<not> bit x i"
    by (auto intro!: Cons.IH dest: bit_imp_le_length)
  with Cons.prems show ?case by (auto simp: bit_or_iff bit_push_bit_iff bit_simps)
qed simp

lemma bit_le_word_less: "bit (le_word xs :: 'a::len word) i \<Longrightarrow> i < 8 * length xs"
  using bit_le_word_high [of xs i] by fastforce

lemma le_word_snoc_xor:
  "(le_word (xs @ [x]) :: 'a::len word) = le_word xs XOR push_bit (8 * length xs) (ucast x)"
  by (rule bit_word_eqI) (auto simp: le_word_append bit_simps dest: bit_le_word_high [rotated])

lemma le_word_le_bytes_take: "(le_word (le_bytes n w) :: 'a::len word) = take_bit (8 * n) w"
proof (induction n arbitrary: w)
  case (Suc n)
  show ?case
    by (rule bit_word_eqI) (auto simp: Suc.IH bit_simps)
qed simp

lemma le_bytes_length [simp]: "length (le_bytes n w) = n"
  by (induction n w rule: le_bytes.induct) simp_all

lemma le_word_le_bytes [simp]:
  "le_word (le_bytes 2 (x :: u16)) = x" "le_word (le_bytes 4 (w :: u32)) = w" "le_word (le_bytes 8 (v :: u64)) = v"
  by (simp_all add: le_word_le_bytes_take take_bit_word_eq_self)

lemma le_bytes_le_word:
  assumes "8 * length bs \<le> LENGTH('a)"
  shows "le_bytes (length bs) (le_word bs :: 'a::len word) = bs"
  using assms
proof (induction bs)
  case (Cons b bs)
  have "ucast (ucast b OR push_bit 8 (le_word bs) :: 'a word) = b"
    using Cons.prems by (intro bit_word_eqI) (auto simp: bit_simps)
  moreover have "drop_bit 8 (ucast b OR push_bit 8 (le_word bs) :: 'a word) = le_word bs"
    using Cons.prems
    by (intro bit_word_eqI) (auto simp: bit_simps dest: bit_le_word_less bit_imp_le_length)
  ultimately show ?case using Cons by simp
qed simp

lemma le_bytes_split: "le_bytes (m + n) w = le_bytes m w @ le_bytes n (drop_bit (8 * m) w)"
  by (induction m arbitrary: w) (simp_all add: drop_bit_drop_bit ac_simps)

lemma le_bytes_nth: "i < n \<Longrightarrow> le_bytes n w ! i = ucast (drop_bit (8 * i) w)"
proof (induction n arbitrary: i w)
  case (Suc n)
  then show ?case by (cases i) (simp_all add: drop_bit_drop_bit ac_simps)
qed simp

lemma le_bytes_ucast:
  assumes "8 * n \<le> LENGTH('b)"
  shows "le_bytes n (ucast (w :: 'a::len word) :: 'b::len word) = le_bytes n w"
proof (rule nth_equalityI)
  fix i assume "i < length (le_bytes n (ucast w :: 'b word))"
  then have "i < n" by simp
  moreover have "(ucast (drop_bit (8 * i) (ucast w :: 'b word)) :: u8) = ucast (drop_bit (8 * i) w)"
    using assms \<open>i < n\<close> by (intro bit_word_eqI) (auto simp: bit_simps)
  ultimately show "le_bytes n (ucast w :: 'b word) ! i = le_bytes n w ! i" by (simp add: le_bytes_nth)
qed simp

section \<open>Network byte order\<close>

text \<open>\<open>htonl\<close> and \<open>htons\<close> on a little-endian machine; \<open>ntohl\<close> and \<open>ntohs\<close> are the same functions.\<close>

definition htonl :: "u32 \<Rightarrow> u32" where
  "htonl w = le_word (rev (le_bytes 4 w))"

definition htons :: "u16 \<Rightarrow> u16" where
  "htons w = le_word (rev (le_bytes 2 w))"

lemma le_bytes_htonl [simp]: "le_bytes 4 (htonl w) = rev (le_bytes 4 w)"
  using le_bytes_le_word [of "rev (le_bytes 4 w)", where 'a = 32] by (simp add: htonl_def)

lemma le_bytes_htons [simp]: "le_bytes 2 (htons w) = rev (le_bytes 2 w)"
  using le_bytes_le_word [of "rev (le_bytes 2 w)", where 'a = 16] by (simp add: htons_def)

lemma htonl_htonl [simp]: "htonl (htonl w) = w"
  unfolding htonl_def [of "htonl w"] by simp

lemma htons_htons [simp]: "htons (htons w) = w"
  unfolding htons_def [of "htons w"] by simp

lemma hton_le_word [simp]:
  "htonl (le_word (rev (le_bytes 4 w))) = w" "htons (le_word (rev (le_bytes 2 v))) = v"
  by (simp_all flip: htonl_def htons_def)

end
