(* ===== verification/Tcp_Reactor.thy ===== *)
theory Tcp_Reactor
  imports Reactor Byte_Words
begin

text \<open>
  The echo server of \<open>src/server-client/reactor.c\<close>: a TCP server on an epoll loop with one event per
  descriptor. The system calls are those of \<open>Reactor\<close> and a few more; the reactor is at the address
  \<open>ts_reactor\<close>, an event is named by its index in \<open>reactor->events\<close>, and the array comes from \<open>malloc\<close>, so its
  contents are arbitrary until \<open>nty_event_set\<close>. \<^const>\<open>None\<close> is an access outside the array or a buffer.

  The loop never ends by itself, so its model takes the number of iterations to observe.
\<close>

unbundle bit_operations_syntax

section \<open>Data\<close>

record 'k tcp_kernel = "'k kernel" +
  k_time :: "'k \<Rightarrow> int"
  k_errno :: "'k \<Rightarrow> int"
  k_socket :: "'k \<Rightarrow> int \<times> 'k"
  k_inet_pton :: "u8 list \<Rightarrow> int \<times> u32"
  k_bind :: "int \<Rightarrow> u32 \<Rightarrow> u16 \<Rightarrow> 'k \<Rightarrow> int \<times> 'k"
  k_listen :: "int \<Rightarrow> int \<Rightarrow> 'k \<Rightarrow> int \<times> 'k"

definition MAX_BUFFER_SIZE :: nat where "MAX_BUFFER_SIZE = 4096"
definition EAGAIN :: int where "EAGAIN = 11"
definition EWOULDBLOCK :: int where "EWOULDBLOCK = EAGAIN"

datatype ncallback = Accept_Callback | Recv_Callback | Send_Callback

record ntyevent =
  nev_fd :: int
  nev_events :: u32
  nev_arg :: nat
  nev_callback :: ncallback
  nev_status :: int
  nev_buffer :: "u8 list"
  nev_length :: int
  nev_last_active :: int

record 'k tcp_state =
  ts_reactor :: nat
  ts_epoll_fd :: int
  ts_events :: "nat \<Rightarrow> ntyevent option"
  ts_kernel :: 'k

definition upd_nty :: "'k tcp_state \<Rightarrow> nat \<Rightarrow> (ntyevent \<Rightarrow> ntyevent) \<Rightarrow> 'k tcp_state option" where
  "upd_nty st e f = (case ts_events st e of None \<Rightarrow> None
     | Some ev \<Rightarrow> Some (st\<lparr>ts_events := (ts_events st)(e \<mapsto> f ev)\<rparr>))"

text \<open>The event \<open>reactor->events + fd\<close> of the reactor that \<open>arg\<close> points to.\<close>

definition nty_at :: "'k tcp_state \<Rightarrow> nat \<Rightarrow> int \<Rightarrow> (nat \<times> ntyevent) option" where
  "nty_at st arg fd =
     (if arg = 0 \<or> arg \<noteq> ts_reactor st then None
      else do { e \<leftarrow> ev_index fd; ev \<leftarrow> ts_events st e; Some (e, ev) })"

section \<open>Events\<close>

definition nty_event_set ::
  "'k tcp_kernel \<Rightarrow> 'k tcp_state \<Rightarrow> nat \<Rightarrow> int \<Rightarrow> u32 \<Rightarrow> int \<Rightarrow> int \<Rightarrow> ncallback \<Rightarrow> nat \<Rightarrow> (int \<times> 'k tcp_state) option" where
  "nty_event_set K st e fd event len status callback arg =
     (if fd < 0 \<or> sint event < 0 \<or> len < 0 \<or> arg = 0 \<or> status < 0 then Some (-1, st)
      else do {
        st1 \<leftarrow> upd_nty st e (\<lambda>ev. ev\<lparr>nev_fd := fd, nev_events := event, nev_arg := arg, nev_callback := callback, nev_status := status,
          nev_length := len, nev_last_active := k_time K (ts_kernel st)\<rparr>);
        Some (0, st1)
      })"

definition nty_event_add :: "'k tcp_kernel \<Rightarrow> 'k tcp_state \<Rightarrow> nat \<Rightarrow> (int \<times> 'k tcp_state) option" where
  "nty_event_add K st e =
     (if ts_epoll_fd st < 0 then Some (-1, st)
      else do {
        ev \<leftarrow> ts_events st e;
        (op, st1) \<leftarrow>
          (if nev_status ev = 0 then do { st1 \<leftarrow> upd_nty st e (\<lambda>ev. ev\<lparr>nev_status := 1\<rparr>); Some (EPOLL_CTL_ADD, st1) }
           else Some (EPOLL_CTL_MOD, st));
        let (r, k) = k_epoll_ctl K (ts_epoll_fd st1) op (nev_fd ev) (nev_events ev) e (ts_kernel st1);
        Some (if r = -1 then -1 else 0, st1\<lparr>ts_kernel := k\<rparr>)
      })"

definition nty_event_del :: "'k tcp_kernel \<Rightarrow> 'k tcp_state \<Rightarrow> nat \<Rightarrow> (int \<times> 'k tcp_state) option" where
  "nty_event_del K st e =
     (if ts_epoll_fd st < 0 then Some (-1, st)
      else do {
        ev \<leftarrow> ts_events st e;
        if nev_status ev \<noteq> 1 then Some (-1, st)
        else do {
          st1 \<leftarrow> upd_nty st e (\<lambda>ev. ev\<lparr>nev_status := 0\<rparr>);
          let (r, k) = k_epoll_ctl K (ts_epoll_fd st1) EPOLL_CTL_DEL (nev_fd ev) 0 e (ts_kernel st1);
          Some (if r = -1 then -1 else 0, st1\<lparr>ts_kernel := k\<rparr>)
        }
      })"

section \<open>Callbacks\<close>

function free_slot :: "'k tcp_state \<Rightarrow> nat \<Rightarrow> nat option" where
  "free_slot st i =
     (if MAX_EPOLL_EVENTS \<le> i then Some i
      else do { ev \<leftarrow> ts_events st i; if nev_status ev = 0 then Some i else free_slot st (i + 1) })"
  by pat_completeness auto
termination by (relation "measure (\<lambda>(st, i). MAX_EPOLL_EVENTS - i)") auto

declare free_slot.simps [simp del]

definition accept_callback :: "'k tcp_kernel \<Rightarrow> 'k tcp_state \<Rightarrow> int \<Rightarrow> nat \<Rightarrow> (int \<times> 'k tcp_state) option" where
  "accept_callback K st fd arg = do {
     (e, ev) \<leftarrow> nty_at st arg fd;
     let (cli_fd, k) = k_accept K (nev_fd ev) (ts_kernel st);
     let st1 = st\<lparr>ts_kernel := k\<rparr>;
     if cli_fd = -1 then Some (-1, st1)
     else do {
       i \<leftarrow> free_slot st1 5;
       if i = MAX_EPOLL_EVENTS then Some (-1, st1)
       else do {
         let (flag, k2) = k_set_nonblock K cli_fd (ts_kernel st1);
         let st2 = st1\<lparr>ts_kernel := k2\<rparr>;
         if flag < 0 then Some (-1, st2)
         else do {
           c \<leftarrow> ev_index cli_fd;
           (r, st3) \<leftarrow> nty_event_set K st2 c cli_fd EPOLLIN 0 0 Recv_Callback arg;
           (r1, st4) \<leftarrow> nty_event_add K st3 c;
           (c', ev') \<leftarrow> nty_at st4 arg cli_fd;
           Some (0, st4)
         }
       }
     }
   }"

definition recv_callback :: "'k tcp_kernel \<Rightarrow> 'k tcp_state \<Rightarrow> int \<Rightarrow> nat \<Rightarrow> (int \<times> 'k tcp_state) option" where
  "recv_callback K st fd arg = do {
     (e, ev) \<leftarrow> nty_at st arg fd;
     (r, st1) \<leftarrow> nty_event_del K st e;
     let ((rc, data), k) = k_recv K (nev_fd ev) MAX_BUFFER_SIZE (ts_kernel st1);
     let st2 = st1\<lparr>ts_kernel := k\<rparr>;
     if rc \<le> 0 then Some (rc, st2\<lparr>ts_kernel := k_close K (nev_fd ev) k\<rparr>)
     else do {
       buf \<leftarrow> terminate (fill_buffer data (nev_buffer ev)) rc;
       st3 \<leftarrow> upd_nty st2 e (\<lambda>ev. ev\<lparr>nev_buffer := buf\<rparr>);
       (r1, st4) \<leftarrow> nty_event_set K st3 e (nev_fd ev) EPOLLOUT rc 0 Send_Callback arg;
       (r2, st5) \<leftarrow> nty_event_add K st4 e;
       Some (rc, st5)
     }
   }"

definition send_callback :: "'k tcp_kernel \<Rightarrow> 'k tcp_state \<Rightarrow> int \<Rightarrow> nat \<Rightarrow> (int \<times> 'k tcp_state) option" where
  "send_callback K st fd arg = do {
     (e, ev) \<leftarrow> nty_at st arg fd;
     if nev_length ev < 0 \<or> int (length (nev_buffer ev)) < nev_length ev then None
     else do {
       let (rc, k) = k_send K (nev_fd ev) (take (nat (nev_length ev)) (nev_buffer ev)) (ts_kernel st);
       let st1 = st\<lparr>ts_kernel := k\<rparr>;
       if rc > 0 then do {
         (r, st2) \<leftarrow> nty_event_del K st1 e;
         (r1, st3) \<leftarrow> nty_event_set K st2 e (nev_fd ev) EPOLLIN 0 0 Recv_Callback arg;
         (r2, st4) \<leftarrow> nty_event_add K st3 e;
         Some (rc, st4)
       }
       else do {
         (r, st2) \<leftarrow> nty_event_del K (st1\<lparr>ts_kernel := k_close K (nev_fd ev) k\<rparr>) e;
         Some (rc, st2)
       }
     }
   }"

definition call_back :: "'k tcp_kernel \<Rightarrow> 'k tcp_state \<Rightarrow> ntyevent \<Rightarrow> (int \<times> 'k tcp_state) option" where
  "call_back K st ev =
     (case nev_callback ev of Accept_Callback \<Rightarrow> accept_callback K st (nev_fd ev) (nev_arg ev)
      | Recv_Callback \<Rightarrow> recv_callback K st (nev_fd ev) (nev_arg ev)
      | Send_Callback \<Rightarrow> send_callback K st (nev_fd ev) (nev_arg ev))"

section \<open>The reactor\<close>

text \<open>
  \<open>ntyreactor_init\<close>: the addresses of the reactor and the contents of the array are what \<open>malloc\<close>
  returned, 0 and \<^const>\<open>None\<close> when it failed. A reactor that was not created is not in the state.
\<close>

definition ntyreactor_init :: "'k tcp_kernel \<Rightarrow> nat \<Rightarrow> (nat \<Rightarrow> ntyevent) option \<Rightarrow> 'k \<Rightarrow> nat \<times> 'k tcp_state" where
  "ntyreactor_init K reactor memory k =
     (let none = (\<lambda>k. (0, \<lparr>ts_reactor = 0, ts_epoll_fd = 0, ts_events = (\<lambda>_. None), ts_kernel = k\<rparr>)) in
      if reactor = 0 then none k
      else let (ep, k1) = k_epoll_create K k in
        if ep = -1 then none k1
        else case memory of None \<Rightarrow> none (k_close K ep k1)
          | Some evs \<Rightarrow> (reactor, \<lparr>ts_reactor = reactor, ts_epoll_fd = ep, ts_events = (\<lambda>e. if e < MAX_EPOLL_EVENTS then Some (evs e) else None), ts_kernel = k1\<rparr>))"

definition ntyreactor_destroy :: "'k tcp_kernel \<Rightarrow> 'k tcp_state \<Rightarrow> nat \<Rightarrow> (int \<times> 'k tcp_state) option" where
  "ntyreactor_destroy K st reactor =
     (if reactor = 0 then Some (-1, st)
      else if reactor \<noteq> ts_reactor st then None
      else Some (0, st\<lparr>ts_kernel := k_close K (ts_epoll_fd st) (ts_kernel st), ts_events := (\<lambda>_. None), ts_reactor := 0\<rparr>))"

definition ntyreactor_addlistener :: "'k tcp_kernel \<Rightarrow> 'k tcp_state \<Rightarrow> nat \<Rightarrow> int \<Rightarrow> ncallback \<Rightarrow> (int \<times> 'k tcp_state) option" where
  "ntyreactor_addlistener K st reactor fd callback =
     (if reactor = 0 \<or> fd < 0 then Some (-1, st)
      else do {
        (e, ev) \<leftarrow> nty_at st reactor fd;
        (r, st1) \<leftarrow> nty_event_set K st e fd EPOLLIN 0 0 callback reactor;
        (r1, st2) \<leftarrow> nty_event_add K st1 e;
        Some (0, st2)
      })"

text \<open>One entry of what \<open>epoll_wait\<close> reports: the event is read again for the second test.\<close>

definition dispatch_ready :: "'k tcp_kernel \<Rightarrow> 'k tcp_state \<Rightarrow> u32 \<times> nat \<Rightarrow> 'k tcp_state option" where
  "dispatch_ready K st re = do {
     let (mask, e) = re;
     ev \<leftarrow> ts_events st e;
     st1 \<leftarrow> (if has mask EPOLLIN \<and> has (nev_events ev) EPOLLIN then map_option snd (call_back K st ev) else Some st);
     ev1 \<leftarrow> ts_events st1 e;
     (if has mask EPOLLOUT \<and> has (nev_events ev1) EPOLLOUT then map_option snd (call_back K st1 ev1) else Some st1)
   }"

primrec dispatch_all :: "'k tcp_kernel \<Rightarrow> 'k tcp_state \<Rightarrow> (u32 \<times> nat) list \<Rightarrow> 'k tcp_state option" where
  "dispatch_all K st [] = Some st"
| "dispatch_all K st (re # res) = do { st1 \<leftarrow> dispatch_ready K st re; dispatch_all K st1 res }"

text \<open>The first component is the return value once the loop has returned.\<close>

primrec run_loop :: "'k tcp_kernel \<Rightarrow> nat \<Rightarrow> 'k tcp_state \<Rightarrow> (int option \<times> 'k tcp_state) option" where
  "run_loop K 0 st = Some (None, st)"
| "run_loop K (Suc n) st =
     (let ((nready, ready), k) = k_epoll_wait K (ts_epoll_fd st) 1000 (ts_kernel st);
          st1 = st\<lparr>ts_kernel := k\<rparr>
      in if nready = -1
         then (if k_errno K k = EAGAIN \<or> k_errno K k = EWOULDBLOCK then run_loop K n st1 else Some (Some (-1), st1))
         else if nready = 0 then run_loop K n st1
         else do { st2 \<leftarrow> dispatch_all K st1 (take (nat nready) ready); run_loop K n st2 })"

definition ntyreactor_run :: "'k tcp_kernel \<Rightarrow> nat \<Rightarrow> 'k tcp_state \<Rightarrow> nat \<Rightarrow> (int option \<times> 'k tcp_state) option" where
  "ntyreactor_run K n st reactor =
     (if reactor = 0 then Some (Some (-1), st)
      else if reactor \<noteq> ts_reactor st then None
      else if ts_epoll_fd st < 0 then Some (Some (-1), st)
      else run_loop K n st)"

section \<open>Start\<close>

definition init_server :: "'k tcp_kernel \<Rightarrow> u8 list \<Rightarrow> u16 \<Rightarrow> 'k \<Rightarrow> int \<times> 'k" where
  "init_server K ip port k =
     (let (sock_fd, k1) = k_socket K k in
      if sock_fd = -1 then (-1, k1)
      else let (r, addr) = k_inet_pton K ip in
        if r = -1 then (-1, k1)
        else let (b, k2) = k_bind K sock_fd addr (htons port) k1 in
          if b = -1 then (-1, k2)
          else let (l, k3) = k_listen K sock_fd 20 k2 in if l = -1 then (-1, k3) else (sock_fd, k3))"

text \<open>\<open>main\<close> after the check of its arguments, with the results of \<open>malloc\<close> and the number of iterations to observe.\<close>

definition tcp_main :: "'k tcp_kernel \<Rightarrow> nat \<Rightarrow> (nat \<Rightarrow> ntyevent) option \<Rightarrow> nat \<Rightarrow> u8 list \<Rightarrow> u16 \<Rightarrow> 'k \<Rightarrow> (int option \<times> 'k tcp_state) option" where
  "tcp_main K address memory n ip port k = do {
     let (sock_fd, k1) = init_server K ip port k;
     let (reactor, st) = ntyreactor_init K address memory k1;
     if reactor = 0 then Some (Some 1, st)
     else do {
       (r, st1) \<leftarrow> ntyreactor_addlistener K st reactor sock_fd Accept_Callback;
       (res, st2) \<leftarrow> ntyreactor_run K n st1 reactor;
       case res of None \<Rightarrow> Some (None, st2)
       | Some _ \<Rightarrow> do {
           (r1, st3) \<leftarrow> ntyreactor_destroy K st2 reactor;
           Some (Some 0, st3\<lparr>ts_kernel := k_close K sock_fd (ts_kernel st3)\<rparr>)
         }
     }
   }"

section \<open>The system calls\<close>

text \<open>
  The documented behaviour of the system calls, for a function \<open>reg\<close> that gives the interest list of the epoll
  instance: which descriptors are registered, with which events and which pointer. A new instance is empty; adding may
  fail; deleting and closing take a descriptor out; \<open>accept\<close> returns a descriptor that was not open; \<open>epoll_wait\<close>
  reports different registered descriptors, each with the pointer it was registered with and only with events that
  were asked for.
\<close>

definition reported :: "(int \<Rightarrow> (u32 \<times> nat) option) \<Rightarrow> u32 \<times> nat \<Rightarrow> int \<Rightarrow> bool" where
  "reported registered re fd \<longleftrightarrow>
     (case registered fd of None \<Rightarrow> False
      | Some (w, p) \<Rightarrow> p = snd re \<and> (has (fst re) EPOLLIN \<longrightarrow> has w EPOLLIN) \<and> (has (fst re) EPOLLOUT \<longrightarrow> has w EPOLLOUT))"

definition epoll_ok :: "'k tcp_kernel \<Rightarrow> ('k \<Rightarrow> int \<Rightarrow> (u32 \<times> nat) option) \<Rightarrow> bool" where
  "epoll_ok K reg \<longleftrightarrow>
     (\<forall>k. reg (snd (k_epoll_create K k)) = Map.empty \<and> -1 \<le> fst (k_epoll_create K k)) \<and>
     (\<forall>ep fd w p k. reg (snd (k_epoll_ctl K ep EPOLL_CTL_ADD fd w p k)) \<in> {reg k, (reg k)(fd \<mapsto> (w, p))}) \<and>
     (\<forall>ep fd w p k. reg (snd (k_epoll_ctl K ep EPOLL_CTL_DEL fd w p k)) = (reg k)(fd := None)) \<and>
     (\<forall>fd k. reg (k_close K fd k) = (reg k)(fd := None)) \<and>
     (\<forall>fd k. reg (snd (k_accept K fd k)) = reg k \<and> (fst (k_accept K fd k) = -1 \<or> 0 \<le> fst (k_accept K fd k) \<and> reg k (fst (k_accept K fd k)) = None)) \<and>
     (\<forall>fd n k. reg (snd (k_recv K fd n k)) = reg k) \<and> (\<forall>fd d k. reg (snd (k_send K fd d k)) = reg k) \<and>
     (\<forall>fd k. reg (snd (k_set_nonblock K fd k)) = reg k) \<and>
     (\<forall>ep tmo k. reg (snd (k_epoll_wait K ep tmo k)) = reg k \<and>
        (\<exists>fds. distinct fds \<and> list_all2 (reported (reg k)) (snd (fst (k_epoll_wait K ep tmo k))) fds))"

lemma epoll_okD:
  assumes "epoll_ok K reg"
  shows "reg (snd (k_epoll_create K k)) = Map.empty \<and> -1 \<le> fst (k_epoll_create K k)"
    "reg (snd (k_epoll_ctl K ep EPOLL_CTL_ADD fd w p k)) = reg k \<or> reg (snd (k_epoll_ctl K ep EPOLL_CTL_ADD fd w p k)) = (reg k)(fd \<mapsto> (w, p))"
    "reg (snd (k_epoll_ctl K ep EPOLL_CTL_DEL fd w p k)) = (reg k)(fd := None)"
    "reg (k_close K fd k) = (reg k)(fd := None)"
    "reg (snd (k_accept K fd k)) = reg k"
    "fst (k_accept K fd k) = -1 \<or> 0 \<le> fst (k_accept K fd k) \<and> reg k (fst (k_accept K fd k)) = None"
    "reg (snd (k_recv K fd n k)) = reg k" "reg (snd (k_send K fd d k)) = reg k" "reg (snd (k_set_nonblock K fd k)) = reg k"
    "reg (snd (k_epoll_wait K ep tmo k)) = reg k" "\<exists>fds. distinct fds \<and> list_all2 (reported (reg k)) (snd (fst (k_epoll_wait K ep tmo k))) fds"
  using assms by (simp_all add: epoll_ok_def)

text \<open>\<open>recv\<close> stores at most as many bytes as it was asked for, and its result is their number.\<close>

definition recv_ok :: "'k tcp_kernel \<Rightarrow> bool" where
  "recv_ok K \<longleftrightarrow> (\<forall>fd n k. 0 < fst (fst (k_recv K fd n k)) \<longrightarrow>
     fst (fst (k_recv K fd n k)) \<le> int n \<and> int (length (snd (fst (k_recv K fd n k)))) = fst (fst (k_recv K fd n k)))"

text \<open>
  The two results that the callbacks use without a check: \<open>accept\<close> returns a descriptor that is not below the
  size of the array, or \<open>recv\<close> fills the whole buffer. \<open>overruns\<close> looks for the first such call among the ready
  events of one iteration, \<open>oversized_call\<close> in the iteration that starts in the given state.
\<close>

definition oversized :: "'k tcp_kernel \<Rightarrow> 'k tcp_state \<Rightarrow> ntyevent \<Rightarrow> bool" where
  "oversized K st ev =
     (case nev_callback ev of
        Accept_Callback \<Rightarrow> int MAX_EPOLL_EVENTS \<le> fst (k_accept K (nev_fd ev) (ts_kernel st))
      | Recv_Callback \<Rightarrow> fst (fst (k_recv K (nev_fd ev) MAX_BUFFER_SIZE
          (snd (k_epoll_ctl K (ts_epoll_fd st) EPOLL_CTL_DEL (nev_fd ev) 0 (nat (nev_fd ev)) (ts_kernel st))))) = int MAX_BUFFER_SIZE
      | Send_Callback \<Rightarrow> False)"

definition oversized_at :: "'k tcp_kernel \<Rightarrow> 'k tcp_state \<Rightarrow> u32 \<times> nat \<Rightarrow> bool" where
  "oversized_at K st re = (case ts_events st (snd re) of None \<Rightarrow> False | Some ev \<Rightarrow> has (fst re) (nev_events ev) \<and> oversized K st ev)"

primrec overruns :: "'k tcp_kernel \<Rightarrow> 'k tcp_state \<Rightarrow> (u32 \<times> nat) list \<Rightarrow> bool" where
  "overruns K st [] = False"
| "overruns K st (re # res) = (oversized_at K st re \<or> (case dispatch_ready K st re of None \<Rightarrow> False | Some st1 \<Rightarrow> overruns K st1 res))"

definition oversized_call :: "'k tcp_kernel \<Rightarrow> 'k tcp_state \<Rightarrow> bool" where
  "oversized_call K st =
     (let ((nready, ready), k) = k_epoll_wait K (ts_epoll_fd st) 1000 (ts_kernel st)
      in nready \<noteq> -1 \<and> overruns K (st\<lparr>ts_kernel := k\<rparr>) (take (nat nready) ready))"

section \<open>The invariant\<close>

text \<open>
  A registered descriptor has its event at its own index: the event says that it is registered, carries the
  same interest, and its callback fits that interest. Nothing is said of events that were never set.
\<close>

definition entry_ok :: "nat \<Rightarrow> int \<Rightarrow> u32 \<Rightarrow> ntyevent \<Rightarrow> bool" where
  "entry_ok a fd w ev \<longleftrightarrow> nev_fd ev = fd \<and> nev_events ev = w \<and> nev_arg ev = a \<and> nev_status ev = 1 \<and>
     (w = EPOLLIN \<and> nev_callback ev \<noteq> Send_Callback \<or>
      w = EPOLLOUT \<and> nev_callback ev = Send_Callback \<and> 0 < nev_length ev \<and> nev_length ev < int MAX_BUFFER_SIZE)"

definition tcp_inv :: "('k \<Rightarrow> int \<Rightarrow> (u32 \<times> nat) option) \<Rightarrow> 'k tcp_state \<Rightarrow> bool" where
  "tcp_inv reg st \<longleftrightarrow> ts_reactor st \<noteq> 0 \<and> 0 \<le> ts_epoll_fd st \<and> dom (ts_events st) = {..<MAX_EPOLL_EVENTS} \<and>
     (\<forall>e ev. ts_events st e = Some ev \<longrightarrow> length (nev_buffer ev) = MAX_BUFFER_SIZE) \<and>
     (\<forall>fd w p. reg (ts_kernel st) fd = Some (w, p) \<longrightarrow> 0 \<le> fd \<and> p = nat fd \<and>
        (\<exists>ev. ts_events st p = Some ev \<and> entry_ok (ts_reactor st) fd w ev))"

text \<open>A step that may change the descriptor \<open>fd\<close>: every other registered descriptor keeps its registration and its event.\<close>

definition keeps_fds :: "('k \<Rightarrow> int \<Rightarrow> (u32 \<times> nat) option) \<Rightarrow> 'k tcp_state \<Rightarrow> 'k tcp_state \<Rightarrow> int \<Rightarrow> bool" where
  "keeps_fds reg st st1 fd \<longleftrightarrow> tcp_inv reg st1 \<and> ts_reactor st1 = ts_reactor st \<and>
     (\<forall>fd'. fd' \<noteq> fd \<longrightarrow> reg (ts_kernel st) fd' \<noteq> None \<longrightarrow>
        reg (ts_kernel st1) fd' = reg (ts_kernel st) fd' \<and> ts_events st1 (nat fd') = ts_events st (nat fd'))"

lemma inv_entry:
  assumes "tcp_inv reg st" and "reg (ts_kernel st) fd = Some (w, p)"
  obtains ev where "0 \<le> fd" and "p = nat fd" and "ts_events st (nat fd) = Some ev" and "entry_ok (ts_reactor st) fd w ev"
    and "length (nev_buffer ev) = MAX_BUFFER_SIZE" and "ts_reactor st \<noteq> 0" and "0 \<le> ts_epoll_fd st" and "fd < int MAX_EPOLL_EVENTS"
proof -
  have "0 \<le> fd \<and> p = nat fd \<and> (\<exists>ev. ts_events st p = Some ev \<and> entry_ok (ts_reactor st) fd w ev)" using assms unfolding tcp_inv_def by blast
  then obtain ev where ev: "0 \<le> fd" "p = nat fd" "ts_events st (nat fd) = Some ev" "entry_ok (ts_reactor st) fd w ev" by blast
  have "nat fd \<in> {..<MAX_EPOLL_EVENTS}" using assms(1) ev(3) unfolding tcp_inv_def by blast
  then have "fd < int MAX_EPOLL_EVENTS" by (simp add: nat_less_iff ev(1))
  moreover have "length (nev_buffer ev) = MAX_BUFFER_SIZE" "ts_reactor st \<noteq> 0" "0 \<le> ts_epoll_fd st"
    using assms(1) ev(3) unfolding tcp_inv_def by blast+
  ultimately show ?thesis using that ev by blast
qed

text \<open>Every step changes one event and, with it, the registration of its descriptor.\<close>

lemma inv_upd:
  assumes inv: "tcp_inv reg st" and fd: "0 \<le> fd" "fd < int MAX_EPOLL_EVENTS" and len: "length (nev_buffer ev) = MAX_BUFFER_SIZE"
    and reg: "reg k = (reg (ts_kernel st))(fd := None) \<or> (\<exists>w. reg k = (reg (ts_kernel st))(fd \<mapsto> (w, nat fd)) \<and> entry_ok (ts_reactor st) fd w ev)"
  shows "keeps_fds reg st (st\<lparr>ts_events := (ts_events st)(nat fd \<mapsto> ev), ts_kernel := k\<rparr>) fd"
proof -
  let ?st = "st\<lparr>ts_events := (ts_events st)(nat fd \<mapsto> ev), ts_kernel := k\<rparr>"
  have other: "0 \<le> fd' \<and> nat fd' \<noteq> nat fd \<and> reg k fd' = reg (ts_kernel st) fd'" if "fd' \<noteq> fd" "reg (ts_kernel st) fd' \<noteq> None" for fd'
  proof -
    from that(2) obtain w p where "reg (ts_kernel st) fd' = Some (w, p)" by auto
    with inv have "0 \<le> fd'" by (blast elim: inv_entry)
    with that fd(1) reg show ?thesis by auto
  qed
  have "dom (ts_events ?st) = {..<MAX_EPOLL_EVENTS}" using inv fd by (auto simp: tcp_inv_def nat_less_iff)
  moreover have "\<forall>e ev. ts_events ?st e = Some ev \<longrightarrow> length (nev_buffer ev) = MAX_BUFFER_SIZE" using inv len by (simp add: tcp_inv_def)
  moreover have "0 \<le> fd' \<and> p = nat fd' \<and> (\<exists>ev. ts_events ?st p = Some ev \<and> entry_ok (ts_reactor ?st) fd' w ev)" if "reg k fd' = Some (w, p)" for fd' w p
  proof (cases "fd' = fd")
    case True
    with that reg fd show ?thesis by auto
  next
    case False
    then have r: "reg (ts_kernel st) fd' = Some (w, p)" using that reg by auto
    from inv r show ?thesis
    proof (rule inv_entry)
      fix ev
      assume e: "0 \<le> fd'" "p = nat fd'" "ts_events st (nat fd') = Some ev" "entry_ok (ts_reactor st) fd' w ev"
      have "nat fd' \<noteq> nat fd" using other [OF False] r by blast
      with e show ?thesis by simp
    qed
  qed
  ultimately have "tcp_inv reg ?st" using inv by (simp add: tcp_inv_def)
  with other show ?thesis by (simp add: keeps_fds_def)
qed

lemma keeps_fds_other:
  assumes "keeps_fds reg st st1 c" and "reg (ts_kernel st) c = None"
  shows "keeps_fds reg st st1 fd"
proof -
  have "reg (ts_kernel st1) x = reg (ts_kernel st) x \<and> ts_events st1 (nat x) = ts_events st (nat x)" if x: "reg (ts_kernel st) x \<noteq> None" for x
  proof -
    have "x \<noteq> c" using x assms(2) by blast
    with assms(1) x show ?thesis unfolding keeps_fds_def by blast
  qed
  with assms(1) show ?thesis unfolding keeps_fds_def by blast
qed

lemma inv_kernel:
  assumes "tcp_inv reg st" and "reg k = reg (ts_kernel st)"
  shows "keeps_fds reg st (st\<lparr>ts_kernel := k\<rparr>) fd"
  using assms by (simp add: keeps_fds_def tcp_inv_def)

lemma epoll_bits [simp]: "has EPOLLIN EPOLLIN" "has EPOLLOUT EPOLLOUT" "\<not> has EPOLLIN EPOLLOUT" "\<not> has EPOLLOUT EPOLLIN" "EPOLLIN \<noteq> EPOLLOUT" "EPOLLOUT \<noteq> EPOLLIN"
    "0 \<le> sint EPOLLIN" "0 \<le> sint EPOLLOUT"
  by (simp_all add: has_def EPOLLIN_def EPOLLOUT_def)

section \<open>The callbacks keep it\<close>

lemma nty_at_entry:
  "0 \<le> fd \<Longrightarrow> a \<noteq> 0 \<Longrightarrow> a = ts_reactor st \<Longrightarrow> ts_events st (nat fd) = Some ev \<Longrightarrow> nty_at st a fd = Some (nat fd, ev)"
  by (simp add: nty_at_def ev_index_def)

text \<open>Setting an event with the status 0 and adding it, and deleting one.\<close>

definition armed :: "'k tcp_kernel \<Rightarrow> 'k \<Rightarrow> ntyevent \<Rightarrow> int \<Rightarrow> u32 \<Rightarrow> int \<Rightarrow> ncallback \<Rightarrow> nat \<Rightarrow> ntyevent" where
  "armed K k ev fd w len cb a = ev\<lparr>nev_fd := fd, nev_events := w, nev_arg := a, nev_callback := cb, nev_length := len,
     nev_last_active := k_time K k, nev_status := 1\<rparr>"

lemma arm_run:
  assumes "0 \<le> fd" and "0 \<le> sint w" and "0 \<le> len" and "a \<noteq> 0" and "0 \<le> ts_epoll_fd st" and "ts_events st e = Some ev"
  shows "\<exists>st1 r. nty_event_set K st e fd w len 0 cb a = Some (0, st1) \<and> nty_event_add K st1 e =
    Some (r, st\<lparr>ts_events := (ts_events st)(e \<mapsto> armed K (ts_kernel st) ev fd w len cb a),
      ts_kernel := snd (k_epoll_ctl K (ts_epoll_fd st) EPOLL_CTL_ADD fd w e (ts_kernel st))\<rparr>)"
  using assms by (auto simp: nty_event_set_def nty_event_add_def upd_nty_def armed_def split_def Let_def)

lemma del_run:
  assumes "0 \<le> ts_epoll_fd st" and "ts_events st e = Some ev" and "nev_status ev = 1"
  shows "\<exists>r. nty_event_del K st e = Some (r, st\<lparr>ts_events := (ts_events st)(e \<mapsto> ev\<lparr>nev_status := 0\<rparr>),
    ts_kernel := snd (k_epoll_ctl K (ts_epoll_fd st) EPOLL_CTL_DEL (nev_fd ev) 0 e (ts_kernel st))\<rparr>)"
  using assms by (auto simp: nty_event_del_def upd_nty_def split_def Let_def)

lemma armed_entry:
  "a \<noteq> 0 \<Longrightarrow> w = EPOLLIN \<and> cb \<noteq> Send_Callback \<or> w = EPOLLOUT \<and> cb = Send_Callback \<and> 0 < len \<and> len < int MAX_BUFFER_SIZE \<Longrightarrow>
    entry_ok a fd w (armed K k ev fd w len cb a)"
  by (auto simp: entry_ok_def armed_def)

text \<open>What the callbacks do with an event that is registered.\<close>

definition received :: "u8 list \<Rightarrow> ntyevent \<Rightarrow> u8 list" where
  "received data ev = (fill_buffer data (nev_buffer ev))[length data := 0]"

lemma received_simps:
  assumes "length (nev_buffer ev) = MAX_BUFFER_SIZE" and "length data < MAX_BUFFER_SIZE"
  shows "length (received data ev) = MAX_BUFFER_SIZE" "take (length data) (received data ev) = data"
    "terminate (fill_buffer data (nev_buffer ev)) (int (length data)) = Some (received data ev)"
  using assms by (simp_all add: received_def fill_buffer_def terminate_def)

lemma recv_run:
  assumes ev: "0 \<le> fd" "ts_events st (nat fd) = Some ev" "nev_fd ev = fd" "nev_status ev = 1" "length (nev_buffer ev) = MAX_BUFFER_SIZE"
    and st: "ts_reactor st \<noteq> 0" "0 \<le> ts_epoll_fd st"
    and rv: "k_recv K fd MAX_BUFFER_SIZE (snd (k_epoll_ctl K (ts_epoll_fd st) EPOLL_CTL_DEL fd 0 (nat fd) (ts_kernel st))) = ((rc, data), k2)"
  shows "rc \<le> 0 \<Longrightarrow> recv_callback K st fd (ts_reactor st) =
      Some (rc, st\<lparr>ts_events := (ts_events st)(nat fd \<mapsto> ev\<lparr>nev_status := 0\<rparr>), ts_kernel := k_close K fd k2\<rparr>)"
    and "0 < rc \<Longrightarrow> rc < int MAX_BUFFER_SIZE \<Longrightarrow> int (length data) = rc \<Longrightarrow> recv_callback K st fd (ts_reactor st) =
      Some (rc, st\<lparr>ts_events := (ts_events st)(nat fd \<mapsto> armed K k2 (ev\<lparr>nev_status := 0, nev_buffer := received data ev\<rparr>) fd EPOLLOUT rc Send_Callback (ts_reactor st)),
        ts_kernel := snd (k_epoll_ctl K (ts_epoll_fd st) EPOLL_CTL_ADD fd EPOLLOUT (nat fd) k2)\<rparr>)"
proof -
  let ?e = "nat fd" and ?a = "ts_reactor st" and ?ev0 = "ev\<lparr>nev_status := 0\<rparr>"
  obtain r0 where del: "nty_event_del K st ?e = Some (r0, st\<lparr>ts_events := (ts_events st)(?e \<mapsto> ?ev0),
      ts_kernel := snd (k_epoll_ctl K (ts_epoll_fd st) EPOLL_CTL_DEL fd 0 (nat fd) (ts_kernel st))\<rparr>)"
    using del_run [OF st(2) ev(2,4), of K] ev(3) by auto
  note at = nty_at_entry [OF ev(1) st(1) refl ev(2)]
  show "recv_callback K st fd ?a = Some (rc, st\<lparr>ts_events := (ts_events st)(?e \<mapsto> ?ev0), ts_kernel := k_close K fd k2\<rparr>)" if "rc \<le> 0"
    using at del rv that ev(3) by (simp add: recv_callback_def)
  assume rc: "0 < rc" "rc < int MAX_BUFFER_SIZE" "int (length data) = rc"
  let ?ev1 = "?ev0\<lparr>nev_buffer := received data ev\<rparr>"
  let ?st3 = "st\<lparr>ts_kernel := k2, ts_events := (ts_events st)(?e \<mapsto> ?ev1)\<rparr>"
  have t: "terminate (fill_buffer data (nev_buffer ev)) rc = Some (received data ev)" using received_simps(3) [OF ev(5), of data] rc by simp
  obtain sx r1 where arm: "nty_event_set K ?st3 ?e fd EPOLLOUT rc 0 Send_Callback ?a = Some (0, sx)" "nty_event_add K sx ?e =
      Some (r1, st\<lparr>ts_events := (ts_events st)(?e \<mapsto> armed K k2 ?ev1 fd EPOLLOUT rc Send_Callback ?a),
        ts_kernel := snd (k_epoll_ctl K (ts_epoll_fd st) EPOLL_CTL_ADD fd EPOLLOUT ?e k2)\<rparr>)"
    using arm_run [of fd EPOLLOUT rc ?a ?st3 ?e ?ev1 K Send_Callback] ev(1) rc st by auto
  show "recv_callback K st fd ?a = Some (rc, st\<lparr>ts_events := (ts_events st)(?e \<mapsto> armed K k2 ?ev1 fd EPOLLOUT rc Send_Callback ?a),
      ts_kernel := snd (k_epoll_ctl K (ts_epoll_fd st) EPOLL_CTL_ADD fd EPOLLOUT ?e k2)\<rparr>)"
    using at del rv rc ev(3) t arm by (simp add: recv_callback_def upd_nty_def)
qed

text \<open>A read that fills the buffer makes the callback write the terminating zero behind it.\<close>

lemma tcp_recv_overflow:
  assumes "nty_at st a fd = Some (e, ev)" and "length (nev_buffer ev) = MAX_BUFFER_SIZE" and "nty_event_del K st e = Some (r, st1)"
    and "k_recv K (nev_fd ev) MAX_BUFFER_SIZE (ts_kernel st1) = ((int MAX_BUFFER_SIZE, data), k)" and "length data = MAX_BUFFER_SIZE"
  shows "recv_callback K st fd a = None"
proof -
  have "terminate (fill_buffer data (nev_buffer ev)) (int MAX_BUFFER_SIZE) = None" using assms(2,5) by (simp add: terminate_def fill_buffer_def)
  with assms show ?thesis by (simp add: recv_callback_def MAX_BUFFER_SIZE_def)
qed

lemma recv_full:
  assumes ev: "0 \<le> fd" "ts_events st (nat fd) = Some ev" "nev_fd ev = fd" "nev_status ev = 1" "length (nev_buffer ev) = MAX_BUFFER_SIZE"
    and st: "ts_reactor st \<noteq> 0" "0 \<le> ts_epoll_fd st"
    and rv: "k_recv K fd MAX_BUFFER_SIZE (snd (k_epoll_ctl K (ts_epoll_fd st) EPOLL_CTL_DEL fd 0 (nat fd) (ts_kernel st))) = ((int MAX_BUFFER_SIZE, data), k2)"
    and len: "length data = MAX_BUFFER_SIZE"
  shows "recv_callback K st fd (ts_reactor st) = None"
proof -
  obtain r where del: "nty_event_del K st (nat fd) = Some (r, st\<lparr>ts_events := (ts_events st)(nat fd \<mapsto> ev\<lparr>nev_status := 0\<rparr>),
      ts_kernel := snd (k_epoll_ctl K (ts_epoll_fd st) EPOLL_CTL_DEL fd 0 (nat fd) (ts_kernel st))\<rparr>)"
    using del_run [OF st(2) ev(2,4), of K] ev(3) by auto
  show ?thesis by (rule tcp_recv_overflow [OF nty_at_entry [OF ev(1) st(1) refl ev(2)] ev(5) del _ len]) (use rv ev(3) in simp)
qed

lemma send_run:
  fixes st :: "'k tcp_state" and K :: "'k tcp_kernel"
  defines "unreg \<equiv> \<lambda>fd k. snd (k_epoll_ctl K (ts_epoll_fd st) EPOLL_CTL_DEL fd 0 (nat fd) k)"
  assumes ev: "0 \<le> fd" "ts_events st (nat fd) = Some ev" "nev_fd ev = fd" "nev_status ev = 1" "0 \<le> nev_length ev" "nev_length ev \<le> int (length (nev_buffer ev))"
    and st: "ts_reactor st \<noteq> 0" "0 \<le> ts_epoll_fd st"
    and sd: "k_send K fd (take (nat (nev_length ev)) (nev_buffer ev)) (ts_kernel st) = (rc, k1)"
  shows "rc \<le> 0 \<Longrightarrow> send_callback K st fd (ts_reactor st) =
      Some (rc, st\<lparr>ts_events := (ts_events st)(nat fd \<mapsto> ev\<lparr>nev_status := 0\<rparr>), ts_kernel := unreg fd (k_close K fd k1)\<rparr>)"
    and "0 < rc \<Longrightarrow> send_callback K st fd (ts_reactor st) =
      Some (rc, st\<lparr>ts_events := (ts_events st)(nat fd \<mapsto> armed K (unreg fd k1) (ev\<lparr>nev_status := 0\<rparr>) fd EPOLLIN 0 Recv_Callback (ts_reactor st)),
        ts_kernel := snd (k_epoll_ctl K (ts_epoll_fd st) EPOLL_CTL_ADD fd EPOLLIN (nat fd) (unreg fd k1))\<rparr>)"
proof -
  let ?e = "nat fd" and ?a = "ts_reactor st" and ?ev0 = "ev\<lparr>nev_status := 0\<rparr>"
  note at = nty_at_entry [OF ev(1) st(1) refl ev(2)]
  have del: "\<exists>r0. nty_event_del K (st\<lparr>ts_kernel := k\<rparr>) ?e = Some (r0, st\<lparr>ts_events := (ts_events st)(?e \<mapsto> ?ev0), ts_kernel := unreg fd k\<rparr>)" for k
    using del_run [of "st\<lparr>ts_kernel := k\<rparr>" ?e ev K] st(2) ev by (auto simp: unreg_def)
  show "send_callback K st fd ?a = Some (rc, st\<lparr>ts_events := (ts_events st)(?e \<mapsto> ?ev0), ts_kernel := unreg fd (k_close K fd k1)\<rparr>)" if "rc \<le> 0"
    using at sd that ev del [of "k_close K fd k1"] by (auto simp: send_callback_def)
  assume rc: "0 < rc"
  let ?st2 = "st\<lparr>ts_events := (ts_events st)(?e \<mapsto> ?ev0), ts_kernel := unreg fd k1\<rparr>"
  obtain sx r1 where arm: "nty_event_set K ?st2 ?e fd EPOLLIN 0 0 Recv_Callback ?a = Some (0, sx)" "nty_event_add K sx ?e =
      Some (r1, st\<lparr>ts_events := (ts_events st)(?e \<mapsto> armed K (unreg fd k1) ?ev0 fd EPOLLIN 0 Recv_Callback ?a),
        ts_kernel := snd (k_epoll_ctl K (ts_epoll_fd st) EPOLL_CTL_ADD fd EPOLLIN ?e (unreg fd k1))\<rparr>)"
    using arm_run [of fd EPOLLIN 0 ?a ?st2 ?e ?ev0 K Recv_Callback] ev(1) st by auto
  obtain r0 where "nty_event_del K (st\<lparr>ts_kernel := k1\<rparr>) ?e = Some (r0, ?st2)" using del [of k1] by blast
  then show "send_callback K st fd ?a = Some (rc, st\<lparr>ts_events := (ts_events st)(?e \<mapsto> armed K (unreg fd k1) ?ev0 fd EPOLLIN 0 Recv_Callback ?a),
      ts_kernel := snd (k_epoll_ctl K (ts_epoll_fd st) EPOLL_CTL_ADD fd EPOLLIN ?e (unreg fd k1))\<rparr>)"
    using at sd rc ev arm by (simp add: send_callback_def)
qed

lemma armed_keeps:
  assumes "epoll_ok K reg" and "tcp_inv reg st" and "0 \<le> fd" "fd < int MAX_EPOLL_EVENTS" and "length (nev_buffer ev) = MAX_BUFFER_SIZE"
    and "reg k = (reg (ts_kernel st))(fd := None)"
    and "w = EPOLLIN \<and> cb \<noteq> Send_Callback \<or> w = EPOLLOUT \<and> cb = Send_Callback \<and> 0 < len \<and> len < int MAX_BUFFER_SIZE"
  shows "keeps_fds reg st (st\<lparr>ts_events := (ts_events st)(nat fd \<mapsto> armed K k' ev fd w len cb (ts_reactor st)),
    ts_kernel := snd (k_epoll_ctl K ep EPOLL_CTL_ADD fd w (nat fd) k)\<rparr>) fd"
proof (rule inv_upd [OF assms(2-4)])
  let ?ev = "armed K k' ev fd w len cb (ts_reactor st)" and ?k = "snd (k_epoll_ctl K ep EPOLL_CTL_ADD fd w (nat fd) k)"
  show "length (nev_buffer ?ev) = MAX_BUFFER_SIZE" using assms(5) by (simp add: armed_def)
  have "entry_ok (ts_reactor st) fd w ?ev" using assms(2,7) by (intro armed_entry) (simp_all add: tcp_inv_def)
  then show "reg ?k = (reg (ts_kernel st))(fd := None) \<or> (\<exists>w. reg ?k = (reg (ts_kernel st))(fd \<mapsto> (w, nat fd)) \<and> entry_ok (ts_reactor st) fd w ?ev)"
    using epoll_okD(2) [OF assms(1), of ep fd w "nat fd" k] assms(6) by auto
qed

lemma recv_keeps:
  assumes ok: "epoll_ok K reg" "recv_ok K" and inv: "tcp_inv reg st" and r: "reg (ts_kernel st) fd = Some (EPOLLIN, p)"
  shows "(\<exists>rc st1. recv_callback K st fd (ts_reactor st) = Some (rc, st1) \<and> keeps_fds reg st st1 fd) \<or>
    recv_callback K st fd (ts_reactor st) = None \<and>
    fst (fst (k_recv K fd MAX_BUFFER_SIZE (snd (k_epoll_ctl K (ts_epoll_fd st) EPOLL_CTL_DEL fd 0 (nat fd) (ts_kernel st))))) = int MAX_BUFFER_SIZE"
proof -
  obtain ev where ev: "0 \<le> fd" "ts_events st (nat fd) = Some ev" "entry_ok (ts_reactor st) fd EPOLLIN ev" "length (nev_buffer ev) = MAX_BUFFER_SIZE"
    and st: "ts_reactor st \<noteq> 0" "0 \<le> ts_epoll_fd st" "fd < int MAX_EPOLL_EVENTS" using inv r by (rule inv_entry) blast
  have e: "nev_fd ev = fd" "nev_status ev = 1" using ev(3) by (simp_all add: entry_ok_def)
  let ?k1 = "snd (k_epoll_ctl K (ts_epoll_fd st) EPOLL_CTL_DEL fd 0 (nat fd) (ts_kernel st))"
  obtain rc data k2 where rv: "k_recv K fd MAX_BUFFER_SIZE ?k1 = ((rc, data), k2)" by (metis surj_pair)
  have k2: "reg k2 = (reg (ts_kernel st))(fd := None)" using epoll_okD(7) [OF ok(1), of fd MAX_BUFFER_SIZE ?k1] epoll_okD(3) [OF ok(1)] rv by simp
  note run = recv_run [OF ev(1,2) e ev(4) st(1,2) rv]
  have "0 < rc \<Longrightarrow> rc \<le> int MAX_BUFFER_SIZE \<and> int (length data) = rc" using ok(2) rv unfolding recv_ok_def by (metis fst_conv snd_conv)
  then consider "rc \<le> 0" | "rc = int MAX_BUFFER_SIZE" "length data = MAX_BUFFER_SIZE" | "0 < rc" "rc < int MAX_BUFFER_SIZE" "int (length data) = rc" by linarith
  then show ?thesis
  proof cases
    case 1
    have "keeps_fds reg st (st\<lparr>ts_events := (ts_events st)(nat fd \<mapsto> ev\<lparr>nev_status := 0\<rparr>), ts_kernel := k_close K fd k2\<rparr>) fd"
      by (rule inv_upd [OF inv ev(1) st(3)]) (use ev(4) k2 epoll_okD(4) [OF ok(1)] in simp_all)
    with run(1) [OF 1] show ?thesis by blast
  next
    case 2
    then show ?thesis using recv_full [OF ev(1,2) e ev(4) st(1,2)] rv by simp
  next
    case l: 3
    have "keeps_fds reg st (st\<lparr>ts_events := (ts_events st)(nat fd \<mapsto> armed K k2 (ev\<lparr>nev_status := 0, nev_buffer := received data ev\<rparr>) fd EPOLLOUT rc Send_Callback (ts_reactor st)),
        ts_kernel := snd (k_epoll_ctl K (ts_epoll_fd st) EPOLL_CTL_ADD fd EPOLLOUT (nat fd) k2)\<rparr>) fd"
      by (rule armed_keeps [OF ok(1) inv ev(1) st(3) _ k2]) (use l received_simps(1) [OF ev(4), of data] in simp_all)
    with run(2) [OF l] show ?thesis by blast
  qed
qed

lemma send_keeps:
  assumes ok: "epoll_ok K reg" and inv: "tcp_inv reg st" and r: "reg (ts_kernel st) fd = Some (EPOLLOUT, p)"
  shows "\<exists>rc st1. send_callback K st fd (ts_reactor st) = Some (rc, st1) \<and> keeps_fds reg st st1 fd"
proof -
  obtain ev where ev: "0 \<le> fd" "ts_events st (nat fd) = Some ev" "entry_ok (ts_reactor st) fd EPOLLOUT ev" "length (nev_buffer ev) = MAX_BUFFER_SIZE"
    and st: "ts_reactor st \<noteq> 0" "0 \<le> ts_epoll_fd st" "fd < int MAX_EPOLL_EVENTS" using inv r by (rule inv_entry) blast
  have e: "nev_fd ev = fd" "nev_status ev = 1" "0 \<le> nev_length ev" "nev_length ev \<le> int (length (nev_buffer ev))"
    using ev(3,4) by (auto simp: entry_ok_def)
  obtain rc k1 where sd: "k_send K fd (take (nat (nev_length ev)) (nev_buffer ev)) (ts_kernel st) = (rc, k1)" by (metis surj_pair)
  have k1: "reg k1 = reg (ts_kernel st)" using epoll_okD(8) [OF ok, of fd "take (nat (nev_length ev)) (nev_buffer ev)" "ts_kernel st"] sd by simp
  let ?drop = "\<lambda>k. snd (k_epoll_ctl K (ts_epoll_fd st) EPOLL_CTL_DEL fd 0 (nat fd) k)"
  note run = send_run [OF ev(1,2) e st(1,2) sd]
  show ?thesis
  proof (cases "rc \<le> 0")
    case True
    have "keeps_fds reg st (st\<lparr>ts_events := (ts_events st)(nat fd \<mapsto> ev\<lparr>nev_status := 0\<rparr>), ts_kernel := ?drop (k_close K fd k1)\<rparr>) fd"
      by (rule inv_upd [OF inv ev(1) st(3)]) (use ev(4) k1 epoll_okD(3,4) [OF ok] in simp_all)
    with run(1) [OF True] show ?thesis by blast
  next
    case False
    have k2: "reg (?drop k1) = (reg (ts_kernel st))(fd := None)" using epoll_okD(3) [OF ok] k1 by simp
    have "keeps_fds reg st (st\<lparr>ts_events := (ts_events st)(nat fd \<mapsto> armed K (?drop k1) (ev\<lparr>nev_status := 0\<rparr>) fd EPOLLIN 0 Recv_Callback (ts_reactor st)),
        ts_kernel := snd (k_epoll_ctl K (ts_epoll_fd st) EPOLL_CTL_ADD fd EPOLLIN (nat fd) (?drop k1))\<rparr>) fd"
      by (rule armed_keeps [OF ok inv ev(1) st(3) _ k2]) (use ev(4) in simp_all)
    with run(2) False show ?thesis by fastforce
  qed
qed

lemma free_slot_total:
  assumes "dom (ts_events st) = {..<MAX_EPOLL_EVENTS}" and "i \<le> MAX_EPOLL_EVENTS"
  shows "\<exists>j. free_slot st i = Some j \<and> j \<le> MAX_EPOLL_EVENTS"
  using assms(2)
proof (induction "MAX_EPOLL_EVENTS - i" arbitrary: i)
  case 0
  then show ?case by (subst free_slot.simps) simp
next
  case (Suc n)
  then have "i < MAX_EPOLL_EVENTS" by simp
  then obtain ev where ev: "ts_events st i = Some ev" using assms(1) by blast
  have "n = MAX_EPOLL_EVENTS - (i + 1)" "i + 1 \<le> MAX_EPOLL_EVENTS" using Suc.hyps(2) \<open>i < MAX_EPOLL_EVENTS\<close> by simp_all
  from Suc.hyps(1) [OF this] ev \<open>i < MAX_EPOLL_EVENTS\<close> show ?case by (subst free_slot.simps) auto
qed

lemma accept_keeps:
  assumes ok: "epoll_ok K reg" and inv: "tcp_inv reg st" and r: "reg (ts_kernel st) fd = Some (EPOLLIN, p)"
  shows "(\<exists>rc st1. accept_callback K st fd (ts_reactor st) = Some (rc, st1) \<and> keeps_fds reg st st1 fd) \<or>
    accept_callback K st fd (ts_reactor st) = None \<and> int MAX_EPOLL_EVENTS \<le> fst (k_accept K fd (ts_kernel st))"
proof -
  obtain ev where ev: "0 \<le> fd" "ts_events st (nat fd) = Some ev" "entry_ok (ts_reactor st) fd EPOLLIN ev"
    and st: "ts_reactor st \<noteq> 0" "0 \<le> ts_epoll_fd st" using inv r by (rule inv_entry) blast
  have e: "nev_fd ev = fd" using ev(3) by (simp add: entry_ok_def)
  let ?a = "ts_reactor st"
  note at = nty_at_entry [OF ev(1) st(1) refl ev(2)]
  obtain c k1 where ac: "k_accept K fd (ts_kernel st) = (c, k1)" by (metis surj_pair)
  have k1: "reg k1 = reg (ts_kernel st)" using epoll_okD(5) [OF ok, of fd "ts_kernel st"] ac by simp
  have c: "c = -1 \<or> 0 \<le> c \<and> reg (ts_kernel st) c = None" using epoll_okD(6) [OF ok, of fd "ts_kernel st"] ac by simp
  let ?st1 = "st\<lparr>ts_kernel := k1\<rparr>"
  have keep1: "keeps_fds reg st ?st1 fd" by (rule inv_kernel [OF inv k1])
  show ?thesis
  proof (cases "c = -1")
    case True
    with at ac e keep1 show ?thesis by (simp add: accept_callback_def)
  next
    case False
    with c have c0: "0 \<le> c" "reg (ts_kernel st) c = None" by simp_all
    have dom: "dom (ts_events ?st1) = {..<MAX_EPOLL_EVENTS}" using inv by (simp add: tcp_inv_def)
    obtain i where i: "free_slot ?st1 5 = Some i" using free_slot_total [OF dom, of 5] by (auto simp: MAX_EPOLL_EVENTS_def)
    obtain fl k2 where nb: "k_set_nonblock K c k1 = (fl, k2)" by (metis surj_pair)
    have k2: "reg k2 = reg (ts_kernel st)" using epoll_okD(9) [OF ok, of c k1] nb k1 by simp
    let ?st2 = "st\<lparr>ts_kernel := k2\<rparr>"
    show ?thesis
    proof (cases "i = MAX_EPOLL_EVENTS \<or> fl < 0")
      case True
      have keep2: "keeps_fds reg st ?st2 fd" by (rule inv_kernel [OF inv k2])
      show ?thesis
      proof (cases "i = MAX_EPOLL_EVENTS")
        case True
        with at ac e False i keep1 show ?thesis by (simp add: accept_callback_def)
      next
        case ni: False
        with True have "fl < 0" by simp
        with at ac e False i ni nb keep2 show ?thesis by (simp add: accept_callback_def)
      qed
    next
      case go: False
      show ?thesis
      proof (cases "c < int MAX_EPOLL_EVENTS")
        case cm: True
        have "nat c < MAX_EPOLL_EVENTS" using cm c0(1) by (simp add: nat_less_iff)
        then obtain cev where cev: "ts_events st (nat c) = Some cev" using dom by auto
        let ?ev1 = "armed K k2 cev c EPOLLIN 0 Recv_Callback ?a" and ?k3 = "snd (k_epoll_ctl K (ts_epoll_fd st) EPOLL_CTL_ADD c EPOLLIN (nat c) k2)"
        let ?st4 = "st\<lparr>ts_events := (ts_events st)(nat c \<mapsto> ?ev1), ts_kernel := ?k3\<rparr>"
        obtain sx r1 where arm: "nty_event_set K ?st2 (nat c) c EPOLLIN 0 0 Recv_Callback ?a = Some (0, sx)" "nty_event_add K sx (nat c) = Some (r1, ?st4)"
          using arm_run [of c EPOLLIN 0 ?a ?st2 "nat c" cev K Recv_Callback] c0 st cev by auto
        have at4: "nty_at ?st4 ?a c = Some (nat c, ?ev1)" by (rule nty_at_entry) (use c0 st in simp_all)
        have "accept_callback K st fd ?a = Some (0, ?st4)"
          using at ac e False i go nb c0(1) arm at4 by (simp add: accept_callback_def ev_index_def)
        moreover have "keeps_fds reg st ?st4 c"
          by (rule armed_keeps [OF ok inv c0(1) cm]) (use inv cev k2 c0(2) in \<open>simp_all add: tcp_inv_def fun_upd_idem\<close>)
        ultimately show ?thesis using keeps_fds_other [of reg st ?st4 c fd] c0(2) by blast
      next
        case far: False
        then have "nat c \<notin> dom (ts_events ?st1)" unfolding dom by simp
        then have "ts_events st (nat c) = None" by (simp add: domIff)
        then have "accept_callback K st fd ?a = None"
          using at ac e False i go nb c0(1) st leD [OF epoll_bits(7)]
          by (simp add: accept_callback_def ev_index_def nty_event_set_def upd_nty_def Let_def)
        with far ac show ?thesis by simp
      qed
    qed
  qed
qed

section \<open>The loop\<close>

lemma keeps_fds_refl: "tcp_inv reg st \<Longrightarrow> keeps_fds reg st st fd"
  by (simp add: keeps_fds_def)

lemma call_back_keeps:
  assumes ok: "epoll_ok K reg" "recv_ok K" and inv: "tcp_inv reg st" and r: "reg (ts_kernel st) fd = Some (w, p)" and ev: "ts_events st (nat fd) = Some ev"
  shows "(\<exists>rc st1. call_back K st ev = Some (rc, st1) \<and> keeps_fds reg st st1 fd) \<or> call_back K st ev = None \<and> oversized K st ev"
proof -
  have e: "entry_ok (ts_reactor st) fd w ev" using inv r by (rule inv_entry) (use ev in simp)
  then have f: "nev_fd ev = fd" "nev_arg ev = ts_reactor st" by (simp_all add: entry_ok_def)
  consider "w = EPOLLIN" "nev_callback ev = Accept_Callback" | "w = EPOLLIN" "nev_callback ev = Recv_Callback" | "w = EPOLLOUT" "nev_callback ev = Send_Callback"
    using e by (cases "nev_callback ev") (auto simp: entry_ok_def)
  then show ?thesis
  proof cases
    case 1
    with accept_keeps [OF ok(1) inv] r f show ?thesis by (simp add: call_back_def oversized_def)
  next
    case 2
    with recv_keeps [OF ok inv] r f show ?thesis by (simp add: call_back_def oversized_def)
  next
    case 3
    with send_keeps [OF ok(1) inv] r f show ?thesis by (simp add: call_back_def)
  qed
qed

lemma dispatch_keeps:
  assumes ok: "epoll_ok K reg" "recv_ok K" and inv: "tcp_inv reg st" and r: "reg (ts_kernel st) fd = Some (w, p)"
    and m: "has m EPOLLIN \<longrightarrow> has w EPOLLIN" "has m EPOLLOUT \<longrightarrow> has w EPOLLOUT"
  shows "(\<exists>st1. dispatch_ready K st (m, p) = Some st1 \<and> keeps_fds reg st st1 fd) \<or> dispatch_ready K st (m, p) = None \<and> oversized_at K st (m, p)"
proof -
  obtain ev where ev: "p = nat fd" "ts_events st (nat fd) = Some ev" "entry_ok (ts_reactor st) fd w ev" "fd < int MAX_EPOLL_EVENTS" "0 \<le> fd"
    using inv r by (rule inv_entry) blast
  have w: "w = EPOLLIN \<or> w = EPOLLOUT" "nev_events ev = w" using ev(3) by (auto simp: entry_ok_def)
  show ?thesis
  proof (cases "has m w")
    case True
    from call_back_keeps [OF ok inv r ev(2)] show ?thesis
    proof (elim disjE exE conjE)
      fix rc st1
      assume c: "call_back K st ev = Some (rc, st1)" "keeps_fds reg st st1 fd"
      have "nat fd \<in> dom (ts_events st1)" using c(2) ev(4,5) by (simp add: keeps_fds_def tcp_inv_def nat_less_iff)
      then obtain ev1 where ev1: "ts_events st1 (nat fd) = Some ev1" by blast
      from w(1) show ?thesis
      proof
        assume "w = EPOLLIN"
        with m w(2) True c ev ev1 show ?thesis by (auto simp: dispatch_ready_def)
      next
        assume "w = EPOLLOUT"
        with m w(2) True c ev ev1 show ?thesis by (auto simp: dispatch_ready_def)
      qed
    next
      assume "call_back K st ev = None" "oversized K st ev"
      with w m ev True show ?thesis by (auto simp: dispatch_ready_def oversized_at_def)
    qed
  next
    case False
    with w m ev keeps_fds_refl [OF inv, of fd] show ?thesis by (auto simp: dispatch_ready_def)
  qed
qed

text \<open>A report stays true while the events before it are handled, since they are about other descriptors.\<close>

lemma reported_kept:
  assumes k: "keeps_fds reg st st1 fd" and re: "reported (reg (ts_kernel st)) re fd'" "fd' \<noteq> fd"
  shows "reported (reg (ts_kernel st1)) re fd'"
proof -
  have "reg (ts_kernel st) fd' \<noteq> None" using re(1) by (auto simp: reported_def split: option.splits)
  then have "reg (ts_kernel st1) fd' = reg (ts_kernel st) fd'" using k re(2) unfolding keeps_fds_def by blast
  with re(1) show ?thesis by (simp add: reported_def)
qed

lemma dispatch_all_keeps:
  assumes ok: "epoll_ok K reg" "recv_ok K"
  shows "tcp_inv reg st \<Longrightarrow> list_all2 (reported (reg (ts_kernel st))) res fds \<Longrightarrow> distinct fds \<Longrightarrow>
    (\<exists>st1. dispatch_all K st res = Some st1 \<and> tcp_inv reg st1 \<and> ts_reactor st1 = ts_reactor st) \<or> dispatch_all K st res = None \<and> overruns K st res"
proof (induction res arbitrary: st fds)
  case (Cons re res)
  then obtain fd fds' where fds: "fds = fd # fds'" "reported (reg (ts_kernel st)) re fd" "list_all2 (reported (reg (ts_kernel st))) res fds'"
    by (auto simp: list_all2_Cons1)
  obtain m p where mp: "re = (m, p)" by (metis surj_pair)
  obtain w where r: "reg (ts_kernel st) fd = Some (w, p)" "has m EPOLLIN \<longrightarrow> has w EPOLLIN" "has m EPOLLOUT \<longrightarrow> has w EPOLLOUT"
    using fds(2) mp by (auto simp: reported_def split: option.splits)
  from dispatch_keeps [OF ok Cons.prems(1) r] show ?case
  proof (elim disjE exE conjE)
    fix st1
    assume st1: "dispatch_ready K st (m, p) = Some st1" "keeps_fds reg st st1 fd"
    have "fds' ! i \<noteq> fd" if "i < length fds'" for i using that Cons.prems(3) fds(1) nth_mem by force
    then have "list_all2 (reported (reg (ts_kernel st1))) res fds'"
      using fds(3) reported_kept [OF st1(2)] unfolding list_all2_conv_all_nth by metis
    moreover have "distinct fds'" "tcp_inv reg st1" using Cons.prems(3) st1(2) fds(1) by (simp_all add: keeps_fds_def)
    ultimately show ?thesis using Cons.IH [of st1 fds'] st1 mp by (auto simp: keeps_fds_def)
  next
    assume "dispatch_ready K st (m, p) = None" "oversized_at K st (m, p)"
    with mp show ?thesis by simp
  qed
qed simp

text \<open>
  The loop keeps the invariant for the iterations observed, or it comes, with the invariant, to an iteration
  with an unchecked call.
\<close>

lemma run_keeps:
  assumes ok: "epoll_ok K reg" "recv_ok K"
  shows "tcp_inv reg st \<Longrightarrow> (\<exists>res st1. run_loop K n st = Some (res, st1) \<and> tcp_inv reg st1 \<and> ts_reactor st1 = ts_reactor st) \<or>
    run_loop K n st = None \<and> (\<exists>m<n. \<exists>st1. run_loop K m st = Some (None, st1) \<and> tcp_inv reg st1 \<and> oversized_call K st1)"
proof (induction n arbitrary: st)
  case (Suc n)
  obtain nready ready k where w: "k_epoll_wait K (ts_epoll_fd st) 1000 (ts_kernel st) = ((nready, ready), k)" by (metis surj_pair)
  have k: "reg k = reg (ts_kernel st)" using epoll_okD(10) [OF ok(1), of "ts_epoll_fd st" 1000 "ts_kernel st"] w by simp
  let ?st = "st\<lparr>ts_kernel := k\<rparr>" and ?ready = "take (nat nready) ready"
  have inv: "tcp_inv reg ?st" using inv_kernel [OF Suc.prems k, of 0] by (simp add: keeps_fds_def)
  obtain fds where "distinct fds" "list_all2 (reported (reg k)) ready fds"
    using epoll_okD(11) [OF ok(1), of "ts_kernel st" "ts_epoll_fd st" 1000] w k by auto
  then have fds: "distinct (take (nat nready) fds)" "list_all2 (reported (reg (ts_kernel ?st))) ?ready (take (nat nready) fds)"
    by (simp_all add: list_all2_takeI)
  have continue: ?case if step: "\<And>m. run_loop K (Suc m) st = run_loop K m st1" and st1: "tcp_inv reg st1" "ts_reactor st1 = ts_reactor st" for st1
    using Suc.IH [OF st1(1)] st1(2) unfolding step by (metis Suc_less_eq step)
  show ?case
  proof (cases "nready = -1")
    case True
    show ?thesis
    proof (cases "k_errno K k = EAGAIN \<or> k_errno K k = EWOULDBLOCK")
      case again: True
      show ?thesis by (rule continue [OF _ inv]) (use True again w in auto)
    next
      case False
      with True w inv show ?thesis by (intro disjI1) auto
    qed
  next
    case live: False
    from dispatch_all_keeps [OF ok inv fds(2,1)] show ?thesis
    proof (elim disjE exE conjE)
      fix st1
      assume st1: "dispatch_all K ?st ?ready = Some st1" "tcp_inv reg st1" "ts_reactor st1 = ts_reactor ?st"
      have "run_loop K (Suc m) st = run_loop K m st1" for m using w live st1(1) by (cases "nready = 0") simp_all
      then show ?thesis using st1(2,3) by (intro continue [of st1]) simp_all
    next
      assume over: "dispatch_all K ?st ?ready = None" "overruns K ?st ?ready"
      then have "oversized_call K st" using w live by (simp add: oversized_call_def)
      moreover have "run_loop K (Suc n) st = None" using over(1) w live by (cases "nready = 0") auto
      ultimately show ?thesis using Suc.prems by (intro disjI2 conjI exI [of _ 0]) simp_all
    qed
  qed
qed simp

lemma listener_inv:
  assumes "epoll_ok K reg" and "tcp_inv reg st" and "fd < int MAX_EPOLL_EVENTS" and "reg (ts_kernel st) fd = None"
  shows "\<exists>r st1. ntyreactor_addlistener K st (ts_reactor st) fd Accept_Callback = Some (r, st1) \<and> tcp_inv reg st1 \<and> ts_reactor st1 = ts_reactor st"
proof (cases "fd < 0")
  case True
  with assms(2) show ?thesis by (simp add: ntyreactor_addlistener_def)
next
  case False
  have st: "ts_reactor st \<noteq> 0" "0 \<le> ts_epoll_fd st" using assms(2) by (simp_all add: tcp_inv_def)
  have "nat fd \<in> dom (ts_events st)" using assms(2,3) False by (simp add: tcp_inv_def nat_less_iff)
  then obtain ev where ev: "ts_events st (nat fd) = Some ev" by blast
  let ?st = "st\<lparr>ts_events := (ts_events st)(nat fd \<mapsto> armed K (ts_kernel st) ev fd EPOLLIN 0 Accept_Callback (ts_reactor st)),
      ts_kernel := snd (k_epoll_ctl K (ts_epoll_fd st) EPOLL_CTL_ADD fd EPOLLIN (nat fd) (ts_kernel st))\<rparr>"
  obtain sx r1 where arm: "nty_event_set K st (nat fd) fd EPOLLIN 0 0 Accept_Callback (ts_reactor st) = Some (0, sx)" "nty_event_add K sx (nat fd) = Some (r1, ?st)"
    using arm_run [of fd EPOLLIN 0 "ts_reactor st" st "nat fd" ev K Accept_Callback] False st ev by auto
  have "nty_at st (ts_reactor st) fd = Some (nat fd, ev)" using nty_at_entry [OF _ st(1) refl ev] False by simp
  then have "ntyreactor_addlistener K st (ts_reactor st) fd Accept_Callback = Some (0, ?st)" using arm False st by (simp add: ntyreactor_addlistener_def)
  moreover have "keeps_fds reg st ?st fd"
    by (rule armed_keeps [OF assms(1,2) _ assms(3)]) (use False assms(2,4) ev in \<open>simp_all add: tcp_inv_def fun_upd_idem\<close>)
  ultimately show ?thesis by (auto simp: keeps_fds_def)
qed

section \<open>Where the server relies on its environment\<close>

text \<open>When no event is free, the descriptor that was accepted is neither registered nor closed.\<close>

lemma accept_full_leaks:
  assumes "nty_at st a fd = Some (e, ev)" and "k_accept K (nev_fd ev) (ts_kernel st) = (c, k)" and "c \<noteq> -1"
    and "free_slot (st\<lparr>ts_kernel := k\<rparr>) 5 = Some MAX_EPOLL_EVENTS"
  shows "accept_callback K st fd a = Some (-1, st\<lparr>ts_kernel := k\<rparr>)"
  using assms by (simp add: accept_callback_def)

text \<open>A part of the data that \<open>send\<close> did not take is forgotten: the event waits for input with an empty buffer.\<close>

lemma partial_send_lost:
  assumes "0 \<le> fd" and "ts_events st (nat fd) = Some ev" and "nev_fd ev = fd" and "nev_status ev = 1" and "0 \<le> nev_length ev"
    and "nev_length ev \<le> int (length (nev_buffer ev))" and "ts_reactor st \<noteq> 0" and "0 \<le> ts_epoll_fd st"
    and "k_send K fd (take (nat (nev_length ev)) (nev_buffer ev)) (ts_kernel st) = (rc, k)" and "0 < rc" and "rc < nev_length ev"
  shows "\<exists>st1 ev1. send_callback K st fd (ts_reactor st) = Some (rc, st1) \<and> ts_events st1 (nat fd) = Some ev1 \<and> nev_length ev1 = 0 \<and> nev_callback ev1 = Recv_Callback"
  using send_run(2) [OF assms(1-9) assms(10)] by (auto simp: armed_def)

section \<open>Properties\<close>

text \<open>
  C16. The echo server keeps its invariant in every iteration that is observed: every registered descriptor has
  its event at its own index, with the same interest and a callback that fits it, although the array of events is
  never initialised. It can access memory outside the array or a buffer only for one of two reasons, both results that
  the code does not check: a descriptor that is not below the size of the array, from \<open>socket\<close> or \<open>accept\<close>,
  or a \<open>recv\<close> that fills the whole buffer. In the latter cases the server was in a state with the invariant before
  the iteration of that call.
\<close>

theorem tcp_server_invariant:
  assumes "epoll_ok K reg" and "recv_ok K" and "pred_option (\<lambda>evs. \<forall>e. length (nev_buffer (evs e)) = MAX_BUFFER_SIZE) memory"
  shows "case tcp_main K address memory n ip port k of
      Some (res, st) \<Rightarrow> res = None \<longrightarrow> tcp_inv reg st
    | None \<Rightarrow> int MAX_EPOLL_EVENTS \<le> fst (init_server K ip port k) \<or>
        (\<exists>m<n. \<exists>st. tcp_main K address memory m ip port k = Some (None, st) \<and> tcp_inv reg st \<and> oversized_call K st)"
proof -
  obtain fd k1 where s: "init_server K ip port k = (fd, k1)" by (metis surj_pair)
  obtain reactor st where i: "ntyreactor_init K address memory k1 = (reactor, st)" by (metis surj_pair)
  consider "int MAX_EPOLL_EVENTS \<le> fd" "reactor \<noteq> 0" | "reactor = 0" | "fd < int MAX_EPOLL_EVENTS" "reactor \<noteq> 0" by linarith
  then show ?thesis
  proof cases
    case 1
    have "nty_at st reactor fd = None"
      using i 1 by (auto simp: ntyreactor_init_def nty_at_def ev_index_def Let_def split: if_splits option.splits prod.splits)
    with s i 1 show ?thesis by (simp add: tcp_main_def ntyreactor_addlistener_def)
  next
    case 2
    with s i show ?thesis by (simp add: tcp_main_def)
  next
    case 3
    then have inv: "tcp_inv reg st" and re: "reactor = ts_reactor st" and new: "reg (ts_kernel st) = Map.empty"
      using i assms(3) epoll_okD(1) [OF assms(1), of k1]
      by (auto simp: ntyreactor_init_def tcp_inv_def Let_def split: if_splits option.splits prod.splits)
    have "\<exists>r st1. ntyreactor_addlistener K st reactor fd Accept_Callback = Some (r, st1) \<and> tcp_inv reg st1 \<and> ts_reactor st1 = reactor"
      using listener_inv [OF assms(1) inv] 3 re new by simp
    then obtain r st1 where l: "ntyreactor_addlistener K st reactor fd Accept_Callback = Some (r, st1)" "tcp_inv reg st1" "ts_reactor st1 = reactor" by blast
    have run: "ntyreactor_run K m st1 reactor = run_loop K m st1" for m using 3 l(2,3) by (simp add: ntyreactor_run_def tcp_inv_def)
    have main: "tcp_main K address memory m ip port k = Some (None, st2)" if "run_loop K m st1 = Some (None, st2)" for m st2
      using that s i 3 l(1) by (simp add: tcp_main_def run)
    from run_keeps [OF assms(1,2) l(2), of n] show ?thesis
    proof (elim disjE exE conjE)
      fix res st2
      assume r2: "run_loop K n st1 = Some (res, st2)" "tcp_inv reg st2" "ts_reactor st2 = ts_reactor st1"
      then show ?thesis using s i 3 l main [of n st2] by (cases res) (simp_all add: tcp_main_def run ntyreactor_destroy_def)
    next
      fix m st2
      assume m: "run_loop K n st1 = None" "m < n" "run_loop K m st1 = Some (None, st2)" "tcp_inv reg st2" "oversized_call K st2"
      have "tcp_main K address memory n ip port k = None" using m(1) s i 3 l(1) by (simp add: tcp_main_def run)
      with m main [OF m(3)] show ?thesis by auto
    qed
  qed
qed

text \<open>
  C17. What the server receives on a connection is what it sends back. When \<open>recv\<close> returns data and leaves room in
  the buffer, \<open>send_callback\<close> later hands exactly these bytes to \<open>send\<close>, whatever happened to other events in
  between, and when \<open>send\<close> succeeds the connection waits for data again. When \<open>recv\<close> fills the buffer, the
  terminating zero is written behind it.
\<close>

theorem echo_sends_received:
  assumes "epoll_ok K reg" and "tcp_inv reg st" and "reg (ts_kernel st) fd = Some (EPOLLIN, p)" and "0 < rc" and "rc \<le> int MAX_BUFFER_SIZE"
    and "int (length data) = rc"
    and "k_recv K fd MAX_BUFFER_SIZE (snd (k_epoll_ctl K (ts_epoll_fd st) EPOLL_CTL_DEL fd 0 (nat fd) (ts_kernel st))) = ((rc, data), k)"
  shows "if rc = int MAX_BUFFER_SIZE then recv_callback K st fd (ts_reactor st) = None
    else \<exists>st1. recv_callback K st fd (ts_reactor st) = Some (rc, st1) \<and>
    (\<forall>st2. ts_reactor st2 = ts_reactor st \<and> 0 \<le> ts_epoll_fd st2 \<and> ts_events st2 (nat fd) = ts_events st1 (nat fd) \<longrightarrow>
      (\<exists>st3 ev. send_callback K st2 fd (ts_reactor st) = Some (fst (k_send K fd data (ts_kernel st2)), st3) \<and> ts_events st3 (nat fd) = Some ev \<and>
        (0 < fst (k_send K fd data (ts_kernel st2)) \<longrightarrow> nev_callback ev = Recv_Callback \<and> nev_events ev = EPOLLIN \<and> nev_status ev = 1)))"
proof -
  obtain ev where ev: "0 \<le> fd" "ts_events st (nat fd) = Some ev" "entry_ok (ts_reactor st) fd EPOLLIN ev" "length (nev_buffer ev) = MAX_BUFFER_SIZE"
    and st: "ts_reactor st \<noteq> 0" "0 \<le> ts_epoll_fd st" using assms(2,3) by (rule inv_entry) blast
  have e: "nev_fd ev = fd" "nev_status ev = 1" using ev(3) by (simp_all add: entry_ok_def)
  show ?thesis
  proof (cases "rc = int MAX_BUFFER_SIZE")
    case True
    then show ?thesis using recv_full [OF ev(1,2) e ev(4) st] assms(6,7) by simp
  next
    case False
    with assms(5) have l: "rc < int MAX_BUFFER_SIZE" by simp
    let ?ev1 = "armed K k (ev\<lparr>nev_status := 0, nev_buffer := received data ev\<rparr>) fd EPOLLOUT rc Send_Callback (ts_reactor st)"
    note B = received_simps [OF ev(4), of data]
    have f: "nev_fd ?ev1 = fd" "nev_status ?ev1 = 1" "0 \<le> nev_length ?ev1" "nev_length ?ev1 \<le> int (length (nev_buffer ?ev1))"
      "take (nat (nev_length ?ev1)) (nev_buffer ?ev1) = data"
      using l assms(4,6) B by (auto simp: armed_def)
    have send: "\<exists>st3 ev'. send_callback K st2 fd (ts_reactor st) = Some (fst (k_send K fd data (ts_kernel st2)), st3) \<and> ts_events st3 (nat fd) = Some ev' \<and>
        (0 < fst (k_send K fd data (ts_kernel st2)) \<longrightarrow> nev_callback ev' = Recv_Callback \<and> nev_events ev' = EPOLLIN \<and> nev_status ev' = 1)"
      if st2: "ts_reactor st2 = ts_reactor st" "0 \<le> ts_epoll_fd st2" "ts_events st2 (nat fd) = Some ?ev1" for st2
    proof -
      obtain rs k1 where sd: "k_send K fd data (ts_kernel st2) = (rs, k1)" by (metis surj_pair)
      have r2: "ts_reactor st2 \<noteq> 0" using st2(1) st(1) by simp
      have "k_send K fd (take (nat (nev_length ?ev1)) (nev_buffer ?ev1)) (ts_kernel st2) = (rs, k1)" using sd f(5) by simp
      note run = send_run [OF ev(1) st2(3) f(1-4) r2 st2(2) this]
      show ?thesis using run sd st2(1) by (cases "rs \<le> 0") (auto simp: armed_def)
    qed
    show ?thesis using recv_run(2) [OF ev(1,2) e ev(4) st assms(7,4) l assms(6)] send False by auto
  qed
qed

section \<open>A kernel for the witnesses\<close>

text \<open>
  Its state is the interest list itself. One client connects and gets the descriptor 5, sends two bytes whenever it is
  asked, and takes what is sent.
\<close>

definition echo_kernel :: "(int \<Rightarrow> (u32 \<times> nat) option) tcp_kernel" where
  "echo_kernel = \<lparr>k_epoll_create = (\<lambda>k. (7, Map.empty)),
     k_epoll_ctl = (\<lambda>_ op fd w p k. (0, if op = EPOLL_CTL_DEL then k(fd := None) else k(fd \<mapsto> (w, p)))),
     k_epoll_wait = (\<lambda>_ _ k. ((1, if k 5 = Some (EPOLLIN, 5) then [(EPOLLIN, 5)] else if k 5 = Some (EPOLLOUT, 5) then [(EPOLLOUT, 5)]
       else if k 4 = Some (EPOLLIN, 4) then [(EPOLLIN, 4)] else []), k)),
     k_recv = (\<lambda>_ n k. ((min 2 (int n), take n [104, 105]), k)), k_send = (\<lambda>_ d k. (int (length d), k)), k_accept = (\<lambda>_ k. (if k 5 = None then 5 else -1, k)),
     k_close = (\<lambda>fd k. k(fd := None)), k_set_nonblock = (\<lambda>_ k. (0, k)), k_gettimeofday = (\<lambda>k. ((0, 0), k)),
     k_time = (\<lambda>_. 0), k_errno = (\<lambda>_. 4), k_socket = (\<lambda>k. (4, k)), k_inet_pton = (\<lambda>_. (1, 0)), k_bind = (\<lambda>_ _ _ k. (0, k)), k_listen = (\<lambda>_ _ k. (0, k))\<rparr>"

lemma echo_kernel_waits: "\<exists>fds. distinct fds \<and> list_all2 (reported k) (snd (fst (k_epoll_wait echo_kernel ep tmo k))) fds"
proof -
  consider "k 5 = Some (EPOLLIN, 5)" | "k 5 = Some (EPOLLOUT, 5)" | "k 5 \<noteq> Some (EPOLLIN, 5)" "k 5 \<noteq> Some (EPOLLOUT, 5)" "k 4 = Some (EPOLLIN, 4)"
    | "k 5 \<noteq> Some (EPOLLIN, 5)" "k 5 \<noteq> Some (EPOLLOUT, 5)" "k 4 \<noteq> Some (EPOLLIN, 4)" by blast
  then show ?thesis
  proof cases
    case 1
    then show ?thesis by (intro exI [of _ "[5]"]) (simp add: echo_kernel_def reported_def)
  next
    case 2
    then show ?thesis by (intro exI [of _ "[5]"]) (simp add: echo_kernel_def reported_def)
  next
    case 3
    then show ?thesis by (intro exI [of _ "[4]"]) (simp add: echo_kernel_def reported_def)
  next
    case 4
    then show ?thesis by (intro exI [of _ "[]"]) (simp add: echo_kernel_def)
  qed
qed

lemma echo_kernel_ok: "epoll_ok echo_kernel (\<lambda>k. k)" "recv_ok echo_kernel"
proof -
  have "\<forall>ep tmo k. snd (k_epoll_wait echo_kernel ep tmo k) = k \<and>
      (\<exists>fds. distinct fds \<and> list_all2 (reported k) (snd (fst (k_epoll_wait echo_kernel ep tmo k))) fds)"
    using echo_kernel_waits by (simp add: echo_kernel_def)
  then show "epoll_ok echo_kernel (\<lambda>k. k)" unfolding epoll_ok_def by (intro conjI) (simp_all add: echo_kernel_def)
  show "recv_ok echo_kernel" by (auto simp: recv_ok_def echo_kernel_def min_def)
qed

lemma echo_calls: "k_recv echo_kernel fd MAX_BUFFER_SIZE k = ((2, [104, 105]), k)" "k_send echo_kernel fd d k = (int (length d), k)"
  by (simp_all add: echo_kernel_def MAX_BUFFER_SIZE_def)

definition junk_event :: ntyevent where
  "junk_event = \<lparr>nev_fd = 99, nev_events = 3, nev_arg = 1, nev_callback = Send_Callback, nev_status = 0, nev_buffer = replicate MAX_BUFFER_SIZE 170,
     nev_length = 7, nev_last_active = 0\<rparr>"

theorem tcp_server_invariant_witness:
  "case tcp_main echo_kernel 1 (Some (\<lambda>_. junk_event)) 3 [49] 80 Map.empty of
     Some (res, st) \<Rightarrow> res = None \<longrightarrow> tcp_inv (\<lambda>k. k) st
   | None \<Rightarrow> \<exists>m<3. \<exists>st. tcp_main echo_kernel 1 (Some (\<lambda>_. junk_event)) m [49] 80 Map.empty = Some (None, st) \<and> tcp_inv (\<lambda>k. k) st \<and> oversized_call echo_kernel st"
proof -
  have "pred_option (\<lambda>evs. \<forall>e. length (nev_buffer (evs e)) = MAX_BUFFER_SIZE) (Some (\<lambda>_. junk_event))" by (simp add: junk_event_def)
  note tcp_server_invariant [OF echo_kernel_ok this, where address = 1 and n = 3 and ip = "[49]" and port = 80 and k = Map.empty]
  moreover have "\<not> int MAX_EPOLL_EVENTS \<le> fst (init_server echo_kernel [49] 80 Map.empty)" by (simp add: init_server_def echo_kernel_def MAX_EPOLL_EVENTS_def)
  ultimately show ?thesis by (auto split: option.splits)
qed

definition echo_state :: "(int \<Rightarrow> (u32 \<times> nat) option) tcp_state" where
  "echo_state = \<lparr>ts_reactor = 1, ts_epoll_fd = 7,
     ts_events = (\<lambda>e. if e < MAX_EPOLL_EVENTS then Some (if e = 5 then armed echo_kernel Map.empty junk_event 5 EPOLLIN 0 Recv_Callback 1 else junk_event) else None),
     ts_kernel = [5 \<mapsto> (EPOLLIN, 5)]\<rparr>"

lemma echo_state_inv: "tcp_inv (\<lambda>k. k) echo_state"
proof -
  have "entry_ok 1 5 EPOLLIN (armed echo_kernel Map.empty junk_event 5 EPOLLIN 0 Recv_Callback 1)" by (rule armed_entry) simp_all
  moreover have "(5 :: nat) < MAX_EPOLL_EVENTS" by (simp add: MAX_EPOLL_EVENTS_def)
  ultimately show ?thesis unfolding tcp_inv_def echo_state_def
    by (auto simp: armed_def junk_event_def split: if_splits)
qed

theorem echo_sends_received_witness:
  "\<exists>st1. recv_callback echo_kernel echo_state 5 1 = Some (2, st1) \<and>
    (\<exists>st3. send_callback echo_kernel st1 5 1 = Some (int (length [104, 105 :: u8]), st3))"
proof -
  have r: "ts_kernel echo_state 5 = Some (EPOLLIN, 5)" and a: "ts_reactor echo_state = 1" by (simp_all add: echo_state_def)
  let ?k = "snd (k_epoll_ctl echo_kernel (ts_epoll_fd echo_state) EPOLL_CTL_DEL 5 0 (nat 5) (ts_kernel echo_state))"
  have "k_recv echo_kernel 5 MAX_BUFFER_SIZE ?k = ((2, [104, 105]), ?k)" by (rule echo_calls)
  note echo_sends_received [OF echo_kernel_ok(1) echo_state_inv r _ _ _ this]
  then obtain st1 where st1: "recv_callback echo_kernel echo_state 5 1 = Some (2, st1)"
    "\<And>st2. ts_reactor st2 = 1 \<Longrightarrow> 0 \<le> ts_epoll_fd st2 \<Longrightarrow> ts_events st2 (nat 5) = ts_events st1 (nat 5) \<Longrightarrow>
      \<exists>st3. send_callback echo_kernel st2 5 1 = Some (int (length [104, 105 :: u8]), st3)"
    unfolding a echo_calls fst_conv by (simp add: MAX_BUFFER_SIZE_def) blast
  have "keeps_fds (\<lambda>k. k) echo_state st1 5"
    using recv_keeps [OF echo_kernel_ok echo_state_inv, where fd = 5 and p = 5] r st1(1) unfolding a by simp
  then have "ts_reactor st1 = 1" "0 \<le> ts_epoll_fd st1" using a by (simp_all add: keeps_fds_def tcp_inv_def)
  with st1(2) [of st1] st1(1) show ?thesis by blast
qed

end
