(* ===== verification/Cas_Queue.thy ===== *)
theory Cas_Queue
  imports Prelude
begin

text \<open>
  The lock-free queue of \<open>src/cas_queue/queue_cas.h\<close> and the program \<open>queue_cas.cpp\<close> that pushes in one thread and pops in
  another. The nodes are a partial map from addresses to nodes; 0 is the null pointer. Every access to shared memory is
  a step of its own, and the steps of the threads are interleaved in any order (sequential consistency). An access to a
  node that is not allocated is the fault \<^const>\<open>None\<close>. \<open>new\<close> returns any address that is not in use, so an address may come
  back after its release; that memory is exhausted is not modelled.

  The events of a run are the points at which the operations take effect: the successful exchange of \<open>_next\<close> or
  \<open>_head\<close>, and the test that finds the queue empty.
\<close>

section \<open>Nodes and operations\<close>

record 'e qnode =
  qn_elem :: 'e
  qn_next :: nat

record 'e queue =
  q_nodes :: "nat \<rightharpoonup> 'e qnode"
  q_head :: nat
  q_tail :: nat

definition new_queue :: "nat \<Rightarrow> 'e \<Rightarrow> 'e queue" where
  "new_queue a junk = \<lparr>q_nodes = [a \<mapsto> \<lparr>qn_elem = junk, qn_next = 0\<rparr>], q_head = a, q_tail = a\<rparr>"

text \<open>The places of \<open>push\<close> and \<open>pop\<close> between two accesses, with the local variables that are still used.\<close>

datatype 'e task = Idle
  | PushNew 'e | PushP nat | PushOldp nat nat | PushTest nat nat nat | PushAdvance nat nat nat | PushLink nat nat nat | PushSwing nat nat
  | PopHead | PopTest nat | PopArg nat | PopCas nat nat | PopFree nat

datatype 'e qevent = Enq 'e | Deq 'e | DeqEmpty

definition elem_at :: "'e queue \<Rightarrow> nat \<Rightarrow> 'e list" where
  "elem_at q a = (case q_nodes q a of Some x \<Rightarrow> [qn_elem x] | None \<Rightarrow> [])"

text \<open>One access of a thread; \<open>a\<close> is the address that \<open>new\<close> returns.\<close>

fun thread_step :: "nat \<Rightarrow> 'e queue \<Rightarrow> 'e task \<Rightarrow> ('e queue \<times> 'e task \<times> 'e qevent list) option" where
  "thread_step a q Idle = Some (q, Idle, [])"
| "thread_step a q (PushNew e) = Some (q\<lparr>q_nodes := (q_nodes q)(a \<mapsto> \<lparr>qn_elem = e, qn_next = 0\<rparr>)\<rparr>, PushP a, [])"
| "thread_step a q (PushP nw) = Some (q, PushOldp nw (q_tail q), [])"
| "thread_step a q (PushOldp nw p) = Some (q, PushTest nw p (q_tail q), [])"
| "thread_step a q (PushTest nw p oldp) = do {
     x \<leftarrow> q_nodes q p;
     Some (q, if qn_next x \<noteq> 0 then PushAdvance nw p oldp else PushLink nw p oldp, []) }"
| "thread_step a q (PushAdvance nw p oldp) = do { x \<leftarrow> q_nodes q p; Some (q, PushTest nw (qn_next x) oldp, []) }"
| "thread_step a q (PushLink nw p oldp) = do {
     x \<leftarrow> q_nodes q p;
     if qn_next x = 0 then Some (q\<lparr>q_nodes := (q_nodes q)(p \<mapsto> x\<lparr>qn_next := nw\<rparr>)\<rparr>, PushSwing nw oldp, map Enq (elem_at q nw))
     else Some (q, PushTest nw p oldp, []) }"
| "thread_step a q (PushSwing nw oldp) = Some (if q_tail q = oldp then q\<lparr>q_tail := nw\<rparr> else q, Idle, [])"
| "thread_step a q PopHead = Some (q, PopTest (q_head q), [])"
| "thread_step a q (PopTest p) = do {
     x \<leftarrow> q_nodes q p;
     Some (if qn_next x = 0 then (q, Idle, [DeqEmpty]) else (q, PopArg p, [])) }"
| "thread_step a q (PopArg p) = do { x \<leftarrow> q_nodes q p; Some (q, PopCas p (qn_next x), []) }"
| "thread_step a q (PopCas p n) =
     Some (if q_head q = p then (q\<lparr>q_head := n\<rparr>, PopFree p, map Deq (elem_at q n)) else (q, PopHead, []))"
| "thread_step a q (PopFree p) = do { x \<leftarrow> q_nodes q p; Some (q\<lparr>q_nodes := (q_nodes q)(p := None)\<rparr>, Idle, []) }"

text \<open>The loops of the destructor and of \<open>show\<close>, which run when no other thread uses the queue.\<close>

partial_function (option) delete_nodes :: "(nat \<rightharpoonup> 'e qnode) \<Rightarrow> nat \<Rightarrow> (nat \<rightharpoonup> 'e qnode) option" where
  "delete_nodes h a = (if a = 0 then Some h else do { x \<leftarrow> h a; delete_nodes (h(a := None)) (qn_next x) })"

definition delete_queue :: "'e queue \<Rightarrow> (nat \<rightharpoonup> 'e qnode) option" where
  "delete_queue q = delete_nodes (q_nodes q) (q_head q)"

partial_function (option) show_nodes :: "(nat \<rightharpoonup> 'e qnode) \<Rightarrow> nat \<Rightarrow> 'e list option" where
  "show_nodes h a = (if a = 0 then Some [] else do { x \<leftarrow> h a; es \<leftarrow> show_nodes h (qn_next x); Some (qn_elem x # es) })"

definition show_queue :: "'e queue \<Rightarrow> 'e list option" where
  "show_queue q = do { x \<leftarrow> q_nodes q (q_head q); show_nodes (q_nodes q) (qn_next x) }"

section \<open>Interleaved runs\<close>

text \<open>
  The threads of \<open>producers\<close> call \<open>push\<close> and those of \<open>consumers\<close> call \<open>pop\<close>, each as often as it likes. The result is
  \<^const>\<open>None\<close> after an access to a node that is not allocated.
\<close>

inductive queue_run :: "nat set \<Rightarrow> nat set \<Rightarrow> 'e queue \<Rightarrow> 'e qevent list \<Rightarrow> ('e queue \<times> (nat \<Rightarrow> 'e task)) option \<Rightarrow> bool"
  for producers consumers q0 where
  run_start: "queue_run producers consumers q0 [] (Some (q0, \<lambda>_. Idle))"
| run_push: "queue_run producers consumers q0 es (Some (q, ts)) \<Longrightarrow> t \<in> producers \<Longrightarrow> ts t = Idle \<Longrightarrow>
    queue_run producers consumers q0 es (Some (q, ts(t := PushNew e)))"
| run_pop: "queue_run producers consumers q0 es (Some (q, ts)) \<Longrightarrow> t \<in> consumers \<Longrightarrow> ts t = Idle \<Longrightarrow>
    queue_run producers consumers q0 es (Some (q, ts(t := PopHead)))"
| run_step: "queue_run producers consumers q0 es (Some (q, ts)) \<Longrightarrow> a \<noteq> 0 \<Longrightarrow> q_nodes q a = None \<Longrightarrow>
    thread_step a q (ts t) = Some (q1, k, ev) \<Longrightarrow> queue_run producers consumers q0 (es @ ev) (Some (q1, ts(t := k)))"
| run_fault: "queue_run producers consumers q0 es (Some (q, ts)) \<Longrightarrow> a \<noteq> 0 \<Longrightarrow> q_nodes q a = None \<Longrightarrow>
    thread_step a q (ts t) = None \<Longrightarrow> queue_run producers consumers q0 es None"

text \<open>The abstract queue: what a sequence of operations may report.\<close>

fun legal_run :: "'e list \<Rightarrow> 'e qevent list \<Rightarrow> 'e list option" where
  "legal_run xs [] = Some xs"
| "legal_run xs (Enq e # es) = legal_run (xs @ [e]) es"
| "legal_run [] (Deq e # es) = None"
| "legal_run (x # xs) (Deq e # es) = (if x = e then legal_run xs es else None)"
| "legal_run xs (DeqEmpty # es) = (if xs = [] then legal_run xs es else None)"

lemma legal_append: "legal_run xs (es @ fs) = Option.bind (legal_run xs es) (\<lambda>ys. legal_run ys fs)"
  by (induction xs es rule: legal_run.induct) auto

section \<open>Chains of nodes\<close>

fun qchain :: "(nat \<rightharpoonup> 'e qnode) \<Rightarrow> nat \<Rightarrow> nat list \<Rightarrow> bool" where
  "qchain h a [] \<longleftrightarrow> a = 0"
| "qchain h a (b # bs) \<longleftrightarrow> a = b \<and> b \<noteq> 0 \<and> (\<exists>x. h b = Some x \<and> qchain h (qn_next x) bs)"

definition chain_elems :: "(nat \<rightharpoonup> 'e qnode) \<Rightarrow> nat list \<Rightarrow> 'e list" where
  "chain_elems h bs = map (\<lambda>a. qn_elem (the (h a))) bs"

lemma qchain_frame: "\<forall>b\<in>set bs. h' b = h b \<Longrightarrow> qchain h' a bs \<longleftrightarrow> qchain h a bs"
  by (induction bs arbitrary: a) auto

lemma elems_frame: "\<forall>b\<in>set bs. h' b = h b \<Longrightarrow> chain_elems h' bs = chain_elems h bs"
  by (simp add: chain_elems_def)

lemma qchain_alloc: "qchain h a bs \<Longrightarrow> b \<in> set bs \<Longrightarrow> b \<noteq> 0 \<and> (\<exists>x. h b = Some x)"
  by (induction bs arbitrary: a) auto

lemma qchain_next: "qchain h a bs \<Longrightarrow> b \<in> set bs \<Longrightarrow> h b = Some x \<Longrightarrow> qn_next x \<in> insert 0 (set bs)"
proof (induction bs arbitrary: a)
  case (Cons c cs)
  then obtain y where y: "h c = Some y" "qchain h (qn_next y) cs" by auto
  show ?case
  proof (cases "b = c")
    case True
    with y Cons.prems(3) show ?thesis by (cases cs) auto
  next
    case False
    with Cons.prems have "b \<in> set cs" by simp
    with Cons.IH [OF y(2)] Cons.prems(3) show ?thesis by auto
  qed
qed simp

lemma qchain_end: "qchain h a bs \<Longrightarrow> distinct bs \<Longrightarrow> b \<in> set bs \<Longrightarrow> h b = Some x \<Longrightarrow> qn_next x = 0 \<longleftrightarrow> b = last bs"
proof (induction bs arbitrary: a)
  case (Cons c cs)
  then obtain y where y: "h c = Some y" "qchain h (qn_next y) cs" by auto
  show ?case
  proof (cases "b = c")
    case True
    with y Cons.prems show ?thesis by (cases cs) auto
  next
    case False
    with Cons.prems have "b \<in> set cs" by simp
    with Cons.IH [OF y(2)] Cons.prems show ?thesis by auto
  qed
qed simp

lemma qchain_link:
  "qchain h a bs \<Longrightarrow> bs \<noteq> [] \<Longrightarrow> distinct bs \<Longrightarrow> h (last bs) = Some x \<Longrightarrow> nw \<notin> set bs \<Longrightarrow> nw \<noteq> 0 \<Longrightarrow> h nw = Some y \<Longrightarrow> qn_next y = 0 \<Longrightarrow>
    qchain (h(last bs \<mapsto> x\<lparr>qn_next := nw\<rparr>)) a (bs @ [nw])"
proof (induction bs arbitrary: a)
  case (Cons c cs)
  then obtain z where z: "h c = Some z" "qchain h (qn_next z) cs" by auto
  show ?case
  proof (cases "cs = []")
    case True
    with Cons.prems show ?thesis by auto
  next
    case False
    with Cons.prems have "c \<noteq> last cs" by auto
    with Cons.IH [OF z(2) False] Cons.prems z False show ?thesis by auto
  qed
qed simp

lemma elems_link:
  assumes "h p = Some x" and "nw \<noteq> p" and "h nw = Some y"
  shows "chain_elems (h(p \<mapsto> x\<lparr>qn_next := nw\<rparr>)) (bs @ [nw]) = chain_elems h bs @ [qn_elem y]"
  using assms by (auto simp: chain_elems_def)

lemma delete_chain: "qchain h a bs \<Longrightarrow> distinct bs \<Longrightarrow> delete_nodes h a = Some (h |` (- set bs))"
proof (induction bs arbitrary: h a)
  case Nil
  then show ?case by (subst delete_nodes.simps) (simp add: restrict_map_def)
next
  case (Cons c cs)
  then obtain y where y: "h c = Some y" "qchain h (qn_next y) cs" by auto
  have "qchain (h(c := None)) (qn_next y) cs" using y(2) Cons.prems(2) by (subst qchain_frame [of cs _ h]) auto
  moreover have "h(c := None) |` (- set cs) = h |` (- set (c # cs))" by (auto simp: restrict_map_def)
  ultimately have "delete_nodes (h(c := None)) (qn_next y) = Some (h |` (- set (c # cs)))" using Cons.IH [of "h(c := None)"] Cons.prems(2) by (metis distinct.simps(2))
  then show ?case using Cons.prems(1) y(1) by (subst delete_nodes.simps) simp
qed

lemma show_chain: "qchain h a bs \<Longrightarrow> show_nodes h a = Some (chain_elems h bs)"
proof (induction bs arbitrary: a)
  case Nil
  then show ?case by (subst show_nodes.simps) (simp add: chain_elems_def)
next
  case (Cons c cs)
  then obtain y where "h c = Some y" "qchain h (qn_next y) cs" by auto
  with Cons show ?case by (subst show_nodes.simps) (simp add: chain_elems_def)
qed

lemma show_content: "qchain (q_nodes q) (q_head q) bs \<Longrightarrow> bs \<noteq> [] \<Longrightarrow> show_queue q = Some (chain_elems (q_nodes q) (tl bs))"
  using show_chain [of "q_nodes q" _ "tl bs"] by (cases bs) (auto simp: show_queue_def)

section \<open>One producer and one consumer\<close>

text \<open>The node a thread has not linked yet, or has taken out and not released yet.\<close>

fun own_node :: "'e task \<Rightarrow> nat set" where
  "own_node (PushP nw) = {nw}"
| "own_node (PushOldp nw p) = {nw}"
| "own_node (PushTest nw p oldp) = {nw}"
| "own_node (PushAdvance nw p oldp) = {nw}"
| "own_node (PushLink nw p oldp) = {nw}"
| "own_node (PopFree p) = {p}"
| "own_node _ = {}"

fun producer_at :: "'e queue \<Rightarrow> nat list \<Rightarrow> 'e task \<Rightarrow> bool" where
  "producer_at q bs Idle \<longleftrightarrow> q_tail q = last bs"
| "producer_at q bs (PushNew e) \<longleftrightarrow> q_tail q = last bs"
| "producer_at q bs (PushP nw) \<longleftrightarrow> q_tail q = last bs"
| "producer_at q bs (PushOldp nw p) \<longleftrightarrow> q_tail q = last bs \<and> p = last bs"
| "producer_at q bs (PushTest nw p oldp) \<longleftrightarrow> q_tail q = last bs \<and> p = last bs \<and> oldp = last bs"
| "producer_at q bs (PushLink nw p oldp) \<longleftrightarrow> q_tail q = last bs \<and> p = last bs \<and> oldp = last bs"
| "producer_at q bs (PushSwing nw oldp) \<longleftrightarrow> nw = last bs \<and> oldp = q_tail q"
| "producer_at q bs _ \<longleftrightarrow> False"

fun consumer_at :: "nat list \<Rightarrow> 'e task \<Rightarrow> bool" where
  "consumer_at bs Idle \<longleftrightarrow> True"
| "consumer_at bs PopHead \<longleftrightarrow> True"
| "consumer_at bs (PopTest p) \<longleftrightarrow> p = hd bs"
| "consumer_at bs (PopArg p) \<longleftrightarrow> p = hd bs \<and> tl bs \<noteq> []"
| "consumer_at bs (PopCas p n) \<longleftrightarrow> p = hd bs \<and> tl bs \<noteq> [] \<and> n = hd (tl bs)"
| "consumer_at bs (PopFree p) \<longleftrightarrow> True"
| "consumer_at bs _ \<longleftrightarrow> False"

text \<open>The nodes in use are those of the chain and those the threads own; a new node has no successor.\<close>

definition spsc :: "'e queue \<Rightarrow> 'e task \<Rightarrow> 'e task \<Rightarrow> nat list \<Rightarrow> bool" where
  "spsc q k c bs \<longleftrightarrow> bs \<noteq> [] \<and> distinct bs \<and> qchain (q_nodes q) (q_head q) bs \<and> dom (q_nodes q) = set bs \<union> own_node k \<union> own_node c \<and>
     set bs \<inter> own_node k = {} \<and> set bs \<inter> own_node c = {} \<and> own_node k \<inter> own_node c = {} \<and> 0 \<notin> own_node k \<and>
     (\<forall>a\<in>own_node k. \<forall>x. q_nodes q a = Some x \<longrightarrow> qn_next x = 0) \<and> producer_at q bs k \<and> consumer_at bs c"

fun task_rank :: "'e task \<Rightarrow> nat" where
  "task_rank Idle = 0"
| "task_rank (PushNew e) = 6"
| "task_rank (PushP nw) = 5"
| "task_rank (PushOldp nw p) = 4"
| "task_rank (PushTest nw p oldp) = 3"
| "task_rank (PushAdvance nw p oldp) = 4"
| "task_rank (PushLink nw p oldp) = 2"
| "task_rank (PushSwing nw oldp) = 1"
| "task_rank PopHead = 5"
| "task_rank (PopTest p) = 4"
| "task_rank (PopArg p) = 3"
| "task_rank (PopCas p n) = 2"
| "task_rank (PopFree p) = 1"

lemma consumer_at_append: "bs \<noteq> [] \<Longrightarrow> consumer_at bs c \<Longrightarrow> consumer_at (bs @ [nw]) c"
  by (cases c) (auto simp: hd_append)

text \<open>In this configuration no exchange fails, so each operation ends after a fixed number of steps of its thread.\<close>

lemma producer_step:
  assumes I: "spsc q k c bs" and a: "a \<noteq> 0" "q_nodes q a = None" and k: "k \<noteq> Idle"
  shows "\<exists>q1 k1 ev bs1. thread_step a q k = Some (q1, k1, ev) \<and> spsc q1 k1 c bs1 \<and> task_rank k1 < task_rank k \<and>
    legal_run (chain_elems (q_nodes q) (tl bs)) ev = Some (chain_elems (q_nodes q1) (tl bs1))"
proof -
  have bs: "bs \<noteq> []" "distinct bs" "qchain (q_nodes q) (q_head q) bs" and at: "producer_at q bs k" and c: "consumer_at bs c"
    and dom: "dom (q_nodes q) = set bs \<union> own_node k \<union> own_node c" and own: "set bs \<inter> own_node k = {}" "set bs \<inter> own_node c = {}"
      "own_node k \<inter> own_node c = {}" "0 \<notin> own_node k" "\<forall>a\<in>own_node k. \<forall>x. q_nodes q a = Some x \<longrightarrow> qn_next x = 0"
    using I by (auto simp: spsc_def)
  have l: "last bs \<in> set bs" using bs(1) by simp
  obtain x where x: "q_nodes q (last bs) = Some x" "qn_next x = 0" using qchain_alloc [OF bs(3) l] qchain_end [OF bs(3,2) l] by auto
  show ?thesis
  proof (cases k)
    case (PushNew e)
    let ?h = "(q_nodes q)(a \<mapsto> \<lparr>qn_elem = e, qn_next = 0\<rparr>)"
    have na: "a \<notin> set bs" "a \<notin> own_node c" using a(2) dom by auto
    then have "qchain ?h (q_head q) bs" "chain_elems ?h (tl bs) = chain_elems (q_nodes q) (tl bs)"
      using bs(3) by (subst qchain_frame [of bs _ "q_nodes q"]; force) (rule elems_frame, use na(1) bs(1) in \<open>auto dest: list.set_sel(2) [rotated]\<close>)
    moreover have "dom ?h = set bs \<union> {a} \<union> own_node c" using dom PushNew by auto
    ultimately have "spsc (q\<lparr>q_nodes := ?h\<rparr>) (PushP a) c bs" "legal_run (chain_elems (q_nodes q) (tl bs)) [] = Some (chain_elems ?h (tl bs))"
      using bs c own na a at PushNew by (simp_all add: spsc_def)
    then show ?thesis unfolding PushNew by (intro exI [of _ bs] exI) auto
  next
    case (PushLink nw p oldp)
    let ?h = "(q_nodes q)(last bs \<mapsto> x\<lparr>qn_next := nw\<rparr>)"
    obtain y where y: "q_nodes q nw = Some y" using dom PushLink by auto
    have nw: "nw \<notin> set bs" "nw \<noteq> 0" "qn_next y = 0" using own y PushLink by auto
    have "qchain ?h (q_head q) (bs @ [nw])" by (rule qchain_link [OF bs(3,1,2) x(1) nw(1,2) y nw(3)])
    moreover have "dom ?h = set (bs @ [nw]) \<union> own_node c" using dom PushLink l by auto
    ultimately have "spsc (q\<lparr>q_nodes := ?h\<rparr>) (PushSwing nw oldp) c (bs @ [nw])"
      using bs(1,2) nw own at PushLink consumer_at_append [OF bs(1) c] by (simp add: spsc_def)
    moreover have "chain_elems ?h (tl (bs @ [nw])) = chain_elems (q_nodes q) (tl bs) @ [qn_elem y]"
      using elems_link [of "q_nodes q" "last bs" x nw y "tl bs"] x(1) y nw(1) l bs(1) by (metis tl_append2)
    ultimately show ?thesis using at x y unfolding PushLink by (intro exI [of _ "bs @ [nw]"] exI) (auto simp: elem_at_def)
  qed (use at x k I in \<open>force simp: spsc_def\<close>)+
qed

lemma consumer_step:
  assumes I: "spsc q k c bs" and c: "c \<noteq> Idle"
  shows "\<exists>q1 c1 ev bs1. thread_step a q c = Some (q1, c1, ev) \<and> spsc q1 k c1 bs1 \<and> task_rank c1 < task_rank c \<and>
    legal_run (chain_elems (q_nodes q) (tl bs)) ev = Some (chain_elems (q_nodes q1) (tl bs1))"
proof -
  have bs: "bs \<noteq> []" "distinct bs" "qchain (q_nodes q) (q_head q) bs" and k: "producer_at q bs k" and at: "consumer_at bs c"
    and dom: "dom (q_nodes q) = set bs \<union> own_node k \<union> own_node c" and own: "set bs \<inter> own_node k = {}" "set bs \<inter> own_node c = {}"
      "own_node k \<inter> own_node c = {}" "0 \<notin> own_node k" "\<forall>a\<in>own_node k. \<forall>x. q_nodes q a = Some x \<longrightarrow> qn_next x = 0"
    using I by (auto simp: spsc_def)
  obtain b bs' where b: "bs = b # bs'" using bs(1) by (cases bs) auto
  then obtain x where x: "q_nodes q b = Some x" "qchain (q_nodes q) (qn_next x) bs'" "q_head q = b" "b \<noteq> 0" using bs(3) by auto
  have nx: "qn_next x = 0 \<longleftrightarrow> bs' = []" using x(2) by (cases bs') auto
  show ?thesis
  proof (cases c)
    case (PopTest p)
    show ?thesis
    proof (cases "bs' = []")
      case True
      have "spsc q k Idle bs" using I PopTest by (simp add: spsc_def)
      with True PopTest at b x nx show ?thesis by (intro exI [of _ bs] exI) (auto simp: chain_elems_def)
    next
      case False
      have "spsc q k (PopArg p) bs" using I PopTest False b by (simp add: spsc_def)
      with False PopTest at b x nx show ?thesis by (intro exI [of _ bs] exI) auto
    qed
  next
    case (PopCas p n)
    then obtain bs'' where bs'': "bs' = n # bs''" using at b by (cases bs') auto
    then obtain y where y: "q_nodes q n = Some y" "qn_next x = n" using x(2) by auto
    have "producer_at (q\<lparr>q_head := n\<rparr>) bs' k" using k b bs'' by (cases k) auto
    then have "spsc (q\<lparr>q_head := n\<rparr>) k (PopFree p) bs'" using PopCas at b bs'' bs x y dom own by (auto simp: spsc_def)
    moreover have "legal_run (chain_elems (q_nodes q) (tl bs)) [Deq (qn_elem y)] = Some (chain_elems (q_nodes q) (tl bs'))"
      using b bs'' y by (simp add: chain_elems_def)
    ultimately show ?thesis using PopCas at b x y by (intro exI [of _ bs'] exI) (auto simp: elem_at_def)
  next
    case (PopFree p)
    let ?h = "(q_nodes q)(p := None)"
    have p: "p \<notin> set bs" "p \<notin> own_node k" "\<exists>z. q_nodes q p = Some z" using own dom PopFree by auto
    have "qchain ?h (q_head q) bs" using bs(3) p(1) by (subst qchain_frame [of bs _ "q_nodes q"]) auto
    moreover have "dom ?h = set bs \<union> own_node k" using dom PopFree p by auto
    moreover have "producer_at (q\<lparr>q_nodes := ?h\<rparr>) bs k" using k by (cases k) auto
    ultimately have "spsc (q\<lparr>q_nodes := ?h\<rparr>) k Idle bs" using bs own p by (auto simp: spsc_def)
    moreover have "chain_elems ?h (tl bs) = chain_elems (q_nodes q) (tl bs)" by (rule elems_frame) (use p(1) b in auto)
    ultimately show ?thesis using PopFree p(3) by (intro exI [of _ bs] exI) auto
  next
    case PopHead
    have "spsc q k (PopTest b) bs" using I PopHead b by (simp add: spsc_def)
    with PopHead x(3) show ?thesis by (intro exI [of _ bs] exI) auto
  next
    case (PopArg p)
    have "qn_next x = hd bs'" using PopArg at b x(2) by (cases bs') auto
    then have "spsc q k (PopCas p (qn_next x)) bs" using I PopArg b by (simp add: spsc_def)
    with PopArg at b x(1) show ?thesis by (intro exI [of _ bs] exI) auto
  qed (use at c in auto)
qed

lemma spsc_start: "a \<noteq> 0 \<Longrightarrow> spsc (new_queue a junk) Idle Idle [a]"
  by (simp add: spsc_def new_queue_def)

lemma spsc_run:
  assumes "queue_run {s} {t} q0 es st" and "s \<noteq> t" and "q0 = new_queue a junk" and "a \<noteq> 0"
  shows "\<exists>q ts bs. st = Some (q, ts) \<and> spsc q (ts s) (ts t) bs \<and> (\<forall>u. u \<noteq> s \<and> u \<noteq> t \<longrightarrow> ts u = Idle) \<and>
    legal_run [] es = Some (chain_elems (q_nodes q) (tl bs))"
  using assms(1)
proof (induction rule: queue_run.induct)
  case run_start
  then show ?case using spsc_start [OF assms(4)] assms(3) by (force simp: chain_elems_def)
next
  case (run_push es q ts u e)
  then show ?case using assms(2) by (auto simp: spsc_def)
next
  case (run_pop es q ts u)
  then show ?case using assms(2) by (auto simp: spsc_def)
next
  case (run_step es q ts b u q1 k ev)
  then obtain bs where bs: "spsc q (ts s) (ts t) bs" "\<forall>u. u \<noteq> s \<and> u \<noteq> t \<longrightarrow> ts u = Idle" "legal_run [] es = Some (chain_elems (q_nodes q) (tl bs))"
    by auto
  show ?case
  proof (cases "ts u = Idle")
    case True
    with run_step.hyps(4) have "q1 = q" "ts(u := k) = ts" "ev = []" by auto
    with bs show ?thesis by auto
  next
    case False
    then consider "u = s" | "u = t" using bs(2) by blast
    then show ?thesis
    proof cases
      case 1
      then show ?thesis using producer_step [OF bs(1) run_step.hyps(2,3)] run_step.hyps(4) False bs(2,3) assms(2) by (force simp: legal_append)
    next
      case 2
      then show ?thesis using consumer_step [OF bs(1), of b] run_step.hyps(4) False bs(2,3) assms(2) by (force simp: legal_append)
    qed
  qed
next
  case (run_fault es q ts b u)
  then obtain bs where bs: "spsc q (ts s) (ts t) bs" "\<forall>u. u \<noteq> s \<and> u \<noteq> t \<longrightarrow> ts u = Idle" by auto
  have "ts u \<noteq> Idle" using run_fault.hyps(4) by auto
  with bs(2) consider "u = s" | "u = t" by blast
  then have False
  proof cases
    case 1
    with producer_step [OF bs(1) run_fault.hyps(2,3)] run_fault.hyps(4) \<open>ts u \<noteq> Idle\<close> show ?thesis by auto
  next
    case 2
    with consumer_step [OF bs(1), of b] run_fault.hyps(4) \<open>ts u \<noteq> Idle\<close> show ?thesis by auto
  qed
  then show ?case ..
qed

section \<open>Producers only\<close>

fun pusher_at :: "'e queue \<Rightarrow> nat list \<Rightarrow> 'e task \<Rightarrow> bool" where
  "pusher_at q bs (PushOldp nw p) \<longleftrightarrow> p \<in> set bs"
| "pusher_at q bs (PushTest nw p oldp) \<longleftrightarrow> p \<in> set bs"
| "pusher_at q bs (PushAdvance nw p oldp) \<longleftrightarrow> p \<in> set bs \<and> p \<noteq> last bs"
| "pusher_at q bs (PushLink nw p oldp) \<longleftrightarrow> p \<in> set bs"
| "pusher_at q bs (PushSwing nw oldp) \<longleftrightarrow> nw \<in> set bs"
| "pusher_at q bs k \<longleftrightarrow> k = Idle \<or> (\<exists>e. k = PushNew e) \<or> (\<exists>nw. k = PushP nw)"

definition pushers :: "'e queue \<Rightarrow> (nat \<Rightarrow> 'e task) \<Rightarrow> nat list \<Rightarrow> bool" where
  "pushers q ts bs \<longleftrightarrow> bs \<noteq> [] \<and> distinct bs \<and> qchain (q_nodes q) (q_head q) bs \<and> q_tail q \<in> set bs \<and> (\<forall>t. pusher_at q bs (ts t)) \<and>
     (\<forall>t. \<forall>a\<in>own_node (ts t). a \<notin> set bs \<and> a \<noteq> 0 \<and> (\<exists>x. q_nodes q a = Some x \<and> qn_next x = 0)) \<and>
     (\<forall>t u. t \<noteq> u \<longrightarrow> own_node (ts t) \<inter> own_node (ts u) = {})"

lemma pusher_at_append: "nw \<notin> set bs \<Longrightarrow> bs \<noteq> [] \<Longrightarrow> pusher_at q bs k \<Longrightarrow> pusher_at q1 (bs @ [nw]) k"
  by (cases k) auto

lemma pusher_at_queue: "pusher_at q bs k \<Longrightarrow> pusher_at q1 bs k"
  by (cases k) auto

text \<open>A step that leaves the nodes alone.\<close>

lemma pushers_local:
  assumes "pushers q ts bs" and "pusher_at q bs k" and "own_node k \<subseteq> own_node (ts t)" and "q_nodes q1 = q_nodes q" and "q_head q1 = q_head q" and "q_tail q1 \<in> set bs"
  shows "pushers q1 (ts(t := k)) bs"
  using assms unfolding pushers_def by (auto intro: pusher_at_queue) (metis disjoint_iff subsetD)+

lemma pusher_step:
  assumes I: "pushers q ts bs" and a: "a \<noteq> 0" "q_nodes q a = None"
  shows "\<exists>q1 k1 ev bs1. thread_step a q (ts t) = Some (q1, k1, ev) \<and> pushers q1 (ts(t := k1)) bs1 \<and>
    legal_run (chain_elems (q_nodes q) (tl bs)) ev = Some (chain_elems (q_nodes q1) (tl bs1))"
proof -
  have bs: "bs \<noteq> []" "distinct bs" "qchain (q_nodes q) (q_head q) bs" "q_tail q \<in> set bs" and at: "pusher_at q bs (ts u)"
    and own: "b \<in> own_node (ts u) \<Longrightarrow> b \<notin> set bs \<and> b \<noteq> 0 \<and> (\<exists>x. q_nodes q b = Some x \<and> qn_next x = 0)"
    and dis: "u \<noteq> v \<Longrightarrow> own_node (ts u) \<inter> own_node (ts v) = {}" for u v b
    using I by (auto simp: pushers_def)
  have nd: "\<exists>x. q_nodes q p = Some x \<and> (qn_next x = 0 \<longleftrightarrow> p = last bs) \<and> (qn_next x \<noteq> 0 \<longrightarrow> qn_next x \<in> set bs)" if "p \<in> set bs" for p
    using qchain_alloc [OF bs(3) that] qchain_end [OF bs(3,2) that] qchain_next [OF bs(3) that] by auto
  show ?thesis
  proof (cases "ts t")
    case (PushNew e)
    let ?h = "(q_nodes q)(a \<mapsto> \<lparr>qn_elem = e, qn_next = 0\<rparr>)"
    have na: "a \<notin> set bs" "a \<notin> own_node (ts u)" for u using a(2) qchain_alloc [OF bs(3)] own by fastforce+
    then have ch: "qchain ?h (q_head q) bs" and el: "chain_elems ?h (tl bs) = chain_elems (q_nodes q) (tl bs)"
      using bs(3) by (subst qchain_frame [of bs _ "q_nodes q"]; force) (rule elems_frame, use na(1) bs(1) in \<open>auto dest: list.set_sel(2) [rotated]\<close>)
    have "pushers (q\<lparr>q_nodes := ?h\<rparr>) (ts(t := PushP a)) bs"
      unfolding pushers_def using bs(1,2,4) ch at na own dis a(1) by (auto intro: pusher_at_queue)
    then show ?thesis using el unfolding PushNew by (intro exI [of _ bs] exI) auto
  next
    case (PushP nw)
    have "pushers q (ts(t := PushOldp nw (q_tail q))) bs" by (rule pushers_local [OF I]) (use PushP bs in auto)
    then show ?thesis unfolding PushP by (intro exI [of _ bs] exI) auto
  next
    case (PushOldp nw p)
    have "pushers q (ts(t := PushTest nw p (q_tail q))) bs" by (rule pushers_local [OF I]) (use PushOldp bs at [of t] in auto)
    then show ?thesis unfolding PushOldp by (intro exI [of _ bs] exI) auto
  next
    case (PushTest nw p oldp)
    then obtain x where x: "p \<in> set bs" "q_nodes q p = Some x" "qn_next x = 0 \<longleftrightarrow> p = last bs" using at [of t] nd [of p] by auto
    have "pushers q (ts(t := (if qn_next x \<noteq> 0 then PushAdvance nw p oldp else PushLink nw p oldp))) bs"
      by (rule pushers_local [OF I]) (use PushTest bs x in auto)
    then show ?thesis using x(2) unfolding PushTest by (simp split del: if_split) blast
  next
    case (PushAdvance nw p oldp)
    then obtain x where x: "q_nodes q p = Some x" "qn_next x \<in> set bs" using at [of t] nd [of p] by auto
    have "pushers q (ts(t := PushTest nw (qn_next x) oldp)) bs" by (rule pushers_local [OF I]) (use PushAdvance bs x in auto)
    then show ?thesis using x(1) unfolding PushAdvance by (intro exI [of _ bs] exI) auto
  next
    case (PushLink nw p oldp)
    then obtain x where x: "p \<in> set bs" "q_nodes q p = Some x" "qn_next x = 0 \<longleftrightarrow> p = last bs" using at [of t] nd [of p] by auto
    show ?thesis
    proof (cases "p = last bs")
      case False
      have "pushers q (ts(t := PushTest nw p oldp)) bs" by (rule pushers_local [OF I]) (use PushLink bs x in auto)
      then show ?thesis using x False unfolding PushLink by (intro exI [of _ bs] exI) auto
    next
      case True
      let ?h = "(q_nodes q)(p \<mapsto> x\<lparr>qn_next := nw\<rparr>)"
      obtain y where y: "q_nodes q nw = Some y" "qn_next y = 0" and nw: "nw \<notin> set bs" "nw \<noteq> 0" using own [of nw t] PushLink by auto
      have ch: "qchain ?h (q_head q) (bs @ [nw])" using qchain_link [OF bs(3,1,2) _ nw y] x(2) True by simp
      have "own_node (ts u) \<inter> {nw} = {}" if "u \<noteq> t" for u using dis [OF that] PushLink by auto
      then have "pushers (q\<lparr>q_nodes := ?h\<rparr>) (ts(t := PushSwing nw oldp)) (bs @ [nw])"
        unfolding pushers_def using bs(1,2,4) ch nw own dis x(1) by (auto intro: pusher_at_append [OF nw(1) bs(1) at])
      moreover have "chain_elems ?h (tl (bs @ [nw])) = chain_elems (q_nodes q) (tl bs) @ [qn_elem y]"
        using elems_link [of "q_nodes q" p x nw y "tl bs"] x(1,2) y nw(1) bs(1) by (metis tl_append2)
      ultimately show ?thesis using x True y unfolding PushLink by (intro exI [of _ "bs @ [nw]"] exI) (auto simp: elem_at_def)
    qed
  next
    case (PushSwing nw oldp)
    let ?q = "if q_tail q = oldp then q\<lparr>q_tail := nw\<rparr> else q"
    have "pushers ?q (ts(t := Idle)) bs" by (rule pushers_local [OF I]) (use PushSwing bs at [of t] in auto)
    then show ?thesis unfolding PushSwing by (intro exI [of _ ?q] exI [of _ Idle] exI [of _ "[]"] exI [of _ bs]) simp
  qed (use at [of t] I in \<open>auto intro!: exI [of _ bs] simp: fun_upd_idem\<close>)
qed

lemma pushers_run:
  assumes "queue_run producers {} q0 es st" and "q0 = new_queue a junk" and "a \<noteq> 0"
  shows "\<exists>q ts bs. st = Some (q, ts) \<and> pushers q ts bs \<and> legal_run [] es = Some (chain_elems (q_nodes q) (tl bs))"
  using assms(1)
proof (induction rule: queue_run.induct)
  case run_start
  have "pushers q0 (\<lambda>_. Idle) [a]" using assms(2,3) by (simp add: pushers_def new_queue_def)
  then show ?case by (force simp: chain_elems_def)
next
  case (run_push es q ts u e)
  then obtain bs where bs: "pushers q ts bs" "legal_run [] es = Some (chain_elems (q_nodes q) (tl bs))" by auto
  have "pushers q (ts(u := PushNew e)) bs" by (rule pushers_local [OF bs(1)]) (use bs(1) in \<open>auto simp: pushers_def\<close>)
  with bs(2) show ?case by auto
next
  case (run_step es q ts b u q1 k ev)
  then obtain bs where bs: "pushers q ts bs" "legal_run [] es = Some (chain_elems (q_nodes q) (tl bs))" by auto
  from pusher_step [OF bs(1) run_step.hyps(2,3), of u] run_step.hyps(4) bs(2) show ?case by (auto simp: legal_append)
next
  case (run_fault es q ts b u)
  then obtain bs where "pushers q ts bs" by auto
  from pusher_step [OF this run_fault.hyps(2,3), of u] run_fault.hyps(4) show ?case by auto
qed simp

section \<open>Schedules\<close>

text \<open>A run that is given by the choices of the scheduler.\<close>

datatype 'e action = StartPush nat 'e | StartPop nat | Access nat nat

fun schedule :: "nat set \<Rightarrow> nat set \<Rightarrow> 'e action list \<Rightarrow> 'e queue \<times> (nat \<Rightarrow> 'e task) \<Rightarrow> ('e qevent list \<times> ('e queue \<times> (nat \<Rightarrow> 'e task)) option) option" where
  "schedule P C [] s = Some ([], Some s)"
| "schedule P C (StartPush t e # acts) (q, ts) = (if t \<in> P \<and> ts t = Idle then schedule P C acts (q, ts(t := PushNew e)) else None)"
| "schedule P C (StartPop t # acts) (q, ts) = (if t \<in> C \<and> ts t = Idle then schedule P C acts (q, ts(t := PopHead)) else None)"
| "schedule P C (Access t a # acts) (q, ts) =
     (if a = 0 \<or> q_nodes q a \<noteq> None then None
      else case thread_step a q (ts t) of
        None \<Rightarrow> if acts = [] then Some ([], None) else None
      | Some (q1, k, ev) \<Rightarrow> map_option (\<lambda>(es, st). (ev @ es, st)) (schedule P C acts (q1, ts(t := k))))"

lemma schedule_run:
  "schedule P C acts (q, ts) = Some (ev, st) \<Longrightarrow> queue_run P C q0 es (Some (q, ts)) \<Longrightarrow> queue_run P C q0 (es @ ev) st"
proof (induction P C acts "(q, ts)" arbitrary: q ts es ev rule: schedule.induct)
  case (2 P C t e acts q ts)
  then show ?case by (auto split: if_splits intro: run_push)
next
  case (3 P C t acts q ts)
  then show ?case by (auto split: if_splits intro: run_pop)
next
  case (4 P C t a acts q ts)
  then have a: "a \<noteq> 0" "q_nodes q a = None" by (auto split: if_splits)
  show ?case
  proof (cases "thread_step a q (ts t)")
    case None
    then have "ev = [] \<and> st = None" using 4(2) a by (auto split: if_splits)
    then show ?thesis using run_fault [OF 4(3) a None] by simp
  next
    case (Some r)
    then obtain q1 k ev1 where r: "thread_step a q (ts t) = Some (q1, k, ev1)" by (cases r) auto
    then obtain ev2 where ev: "schedule P C acts (q1, ts(t := k)) = Some (ev2, st)" "ev = ev1 @ ev2" using 4(2) a by auto
    have "queue_run P C q0 ((es @ ev1) @ ev2) st"
      by (rule "4.hyps" [OF _ r _ _ ev(1) run_step [OF 4(3) a r]]) (use a in auto)
    then show ?thesis using ev(2) by simp
  qed
qed simp

section \<open>The program\<close>

text \<open>
  The two threads of \<open>queue_cas.cpp\<close>; \<open>n\<close> is the number of rounds, \<open>FOR_LOOP_NUM\<close>. Only its own thread uses each of the
  counters, so they are updated together with the return of the operation. \<open>queue_pop\<close> counts its calls of \<open>pop\<close>, those
  that find the queue empty included.
\<close>

datatype push_thread = PushLoop nat | InPush nat "int task" | PushDone

datatype pop_thread = PopLoop | InPop "int task" | PopDone

record demo =
  d_queue :: "int queue"
  d_push :: push_thread
  d_pop :: pop_thread
  push_count :: nat
  pop_count :: nat

definition new_demo :: "int queue \<Rightarrow> demo" where
  "new_demo q0 = \<lparr>d_queue = q0, d_push = PushLoop 0, d_pop = PopLoop, push_count = 0, pop_count = 0\<rparr>"

definition queue_push :: "nat \<Rightarrow> nat \<Rightarrow> demo \<Rightarrow> (demo \<times> int qevent list) option" where
  "queue_push n a d =
     (case d_push d of
        PushLoop i \<Rightarrow> Some (d\<lparr>d_push := if i < n then InPush i (PushNew (int i)) else PushDone\<rparr>, [])
      | InPush i k \<Rightarrow> do {
          (q, k1, ev) \<leftarrow> thread_step a (d_queue d) k;
          Some (if k1 = Idle then d\<lparr>d_queue := q, d_push := PushLoop (i + 1), push_count := push_count d + 1\<rparr>
                else d\<lparr>d_queue := q, d_push := InPush i k1\<rparr>, ev) }
      | PushDone \<Rightarrow> Some (d, []))"

definition queue_pop :: "nat \<Rightarrow> nat \<Rightarrow> demo \<Rightarrow> (demo \<times> int qevent list) option" where
  "queue_pop n a d =
     (case d_pop d of
        PopLoop \<Rightarrow> Some (d\<lparr>d_pop := InPop PopHead\<rparr>, [])
      | InPop k \<Rightarrow> do {
          (q, k1, ev) \<leftarrow> thread_step a (d_queue d) k;
          Some (if k1 = Idle then d\<lparr>d_queue := q, d_pop := if pop_count d + 1 \<ge> n then PopDone else PopLoop, pop_count := pop_count d + 1\<rparr>
                else d\<lparr>d_queue := q, d_pop := InPop k1\<rparr>, ev) }
      | PopDone \<Rightarrow> Some (d, []))"

text \<open>\<open>test_queue\<close> waits for both threads; at the end of the program the queue is destroyed.\<close>

inductive demo_run :: "nat \<Rightarrow> int queue \<Rightarrow> nat \<Rightarrow> int qevent list \<Rightarrow> demo option \<Rightarrow> bool" for n q0 where
  demo_start: "demo_run n q0 0 [] (Some (new_demo q0))"
| demo_push: "demo_run n q0 m es (Some d) \<Longrightarrow> d_push d \<noteq> PushDone \<Longrightarrow> a \<noteq> 0 \<Longrightarrow> q_nodes (d_queue d) a = None \<Longrightarrow>
    queue_push n a d = r \<Longrightarrow> demo_run n q0 (m + 1) (es @ (case r of Some (d1, ev) \<Rightarrow> ev | None \<Rightarrow> [])) (map_option fst r)"
| demo_pop: "demo_run n q0 m es (Some d) \<Longrightarrow> d_pop d \<noteq> PopDone \<Longrightarrow> a \<noteq> 0 \<Longrightarrow> q_nodes (d_queue d) a = None \<Longrightarrow>
    queue_pop n a d = r \<Longrightarrow> demo_run n q0 (m + 1) (es @ (case r of Some (d1, ev) \<Rightarrow> ev | None \<Rightarrow> [])) (map_option fst r)"

definition demo_finished :: "demo \<Rightarrow> bool" where
  "demo_finished d \<longleftrightarrow> d_push d = PushDone \<and> d_pop d = PopDone"

fun enqueued :: "'e qevent list \<Rightarrow> 'e list" where
  "enqueued [] = []"
| "enqueued (Enq e # es) = e # enqueued es"
| "enqueued (_ # es) = enqueued es"

lemma enqueued_append [simp]: "enqueued (es @ fs) = enqueued es @ enqueued fs"
  by (induction es rule: enqueued.induct) auto

text \<open>The invariant of the program: the queue, the values pushed so far, the counters, and a bound of the remaining steps.\<close>

fun push_task :: "push_thread \<Rightarrow> int task" where
  "push_task (InPush i k) = k"
| "push_task _ = Idle"

fun pop_task :: "pop_thread \<Rightarrow> int task" where
  "pop_task (InPop k) = k"
| "pop_task _ = Idle"

definition linked :: "'e task \<Rightarrow> bool" where
  "linked k \<longleftrightarrow> (\<exists>nw oldp. k = PushSwing nw oldp)"

definition pushes :: "'e queue \<Rightarrow> 'e \<Rightarrow> 'e task \<Rightarrow> bool" where
  "pushes q e k \<longleftrightarrow> k = PushNew e \<or> linked k \<or> (\<exists>nw x. own_node k = {nw} \<and> q_nodes q nw = Some x \<and> qn_elem x = e)"

fun push_state_ok :: "nat \<Rightarrow> demo \<Rightarrow> int qevent list \<Rightarrow> push_thread \<Rightarrow> bool" where
  "push_state_ok n d es (PushLoop i) \<longleftrightarrow> i \<le> n \<and> push_count d = i \<and> enqueued es = map int [0..<i]"
| "push_state_ok n d es (InPush i k) \<longleftrightarrow> i < n \<and> push_count d = i \<and> k \<noteq> Idle \<and> pushes (d_queue d) (int i) k \<and> enqueued es = map int [0..<(if linked k then i + 1 else i)]"
| "push_state_ok n d es PushDone \<longleftrightarrow> push_count d = n \<and> enqueued es = map int [0..<n]"

fun pop_state_ok :: "nat \<Rightarrow> demo \<Rightarrow> pop_thread \<Rightarrow> bool" where
  "pop_state_ok n d PopLoop \<longleftrightarrow> pop_count d < n"
| "pop_state_ok n d (InPop k) \<longleftrightarrow> pop_count d < n \<and> k \<noteq> Idle"
| "pop_state_ok n d PopDone \<longleftrightarrow> pop_count d = n"

fun push_rank :: "nat \<Rightarrow> push_thread \<Rightarrow> nat" where
  "push_rank n (PushLoop i) = (n - i) * 8 + 1"
| "push_rank n (InPush i k) = (n - i) * 8 - 6 + task_rank k"
| "push_rank n PushDone = 0"

fun pop_rank :: "nat \<Rightarrow> nat \<Rightarrow> pop_thread \<Rightarrow> nat" where
  "pop_rank n c PopLoop = (n - c) * 7 + 1"
| "pop_rank n c (InPop k) = (n - c) * 7 - 5 + task_rank k"
| "pop_rank n c PopDone = 0"

definition demo_ok :: "nat \<Rightarrow> nat \<Rightarrow> int qevent list \<Rightarrow> demo \<Rightarrow> bool" where
  "demo_ok n m es d \<longleftrightarrow> push_state_ok n d es (d_push d) \<and> pop_state_ok n d (d_pop d) \<and> m + push_rank n (d_push d) + pop_rank n (pop_count d) (d_pop d) \<le> 15 * n + 2 \<and>
     (\<exists>bs. spsc (d_queue d) (push_task (d_push d)) (pop_task (d_pop d)) bs \<and> legal_run [] es = Some (chain_elems (q_nodes (d_queue d)) (tl bs)))"

lemma producer_event:
  assumes "spsc q k c bs" and "pushes q e k" and "a \<noteq> 0" and "q_nodes q a = None" and "thread_step a q k = Some (q1, k1, ev)"
  shows "enqueued ev = (if linked k1 then [e] else []) \<and> (k1 = Idle \<longleftrightarrow> linked k) \<and> (k1 = Idle \<or> pushes q1 e k1)"
  using assms by (cases k) (auto simp: pushes_def linked_def spsc_def elem_at_def split: bind_splits if_splits)

lemma consumer_event:
  assumes "spsc q k c bs" and "thread_step a q c = Some (q1, c1, ev)" and "c \<noteq> Idle"
  shows "enqueued ev = [] \<and> (pushes q e k \<longrightarrow> pushes q1 e k)"
proof -
  have "enqueued (map Deq xs) = []" for xs :: "'a list" by (induction xs) auto
  then show ?thesis using assms by (cases c) (auto simp: pushes_def linked_def spsc_def split: bind_splits if_splits)
qed

lemma demo_push_ok:
  assumes ok: "demo_ok n m es d" and run: "d_push d \<noteq> PushDone" and a: "a \<noteq> 0" "q_nodes (d_queue d) a = None"
  shows "\<exists>d1 ev. queue_push n a d = Some (d1, ev) \<and> demo_ok n (m + 1) (es @ ev) d1"
proof (cases "d_push d")
  case (PushLoop i)
  from ok obtain bs where bs: "spsc (d_queue d) Idle (pop_task (d_pop d)) bs" "legal_run [] es = Some (chain_elems (q_nodes (d_queue d)) (tl bs))"
    using PushLoop by (auto simp: demo_ok_def)
  from bs(1) have "spsc (d_queue d) (PushNew e) (pop_task (d_pop d)) bs" for e by (simp add: spsc_def)
  with bs ok PushLoop show ?thesis by (cases "d_pop d") (auto simp: queue_push_def demo_ok_def pushes_def linked_def)
next
  case (InPush i k)
  from ok obtain bs where bs: "spsc (d_queue d) k (pop_task (d_pop d)) bs" "legal_run [] es = Some (chain_elems (q_nodes (d_queue d)) (tl bs))"
    using InPush by (auto simp: demo_ok_def)
  have k: "k \<noteq> Idle" "pushes (d_queue d) (int i) k" using ok InPush by (auto simp: demo_ok_def)
  obtain q1 k1 ev bs1 where st: "thread_step a (d_queue d) k = Some (q1, k1, ev)" "spsc q1 k1 (pop_task (d_pop d)) bs1" "task_rank k1 < task_rank k"
    "legal_run (chain_elems (q_nodes (d_queue d)) (tl bs)) ev = Some (chain_elems (q_nodes q1) (tl bs1))"
    using producer_step [OF bs(1) a k(1)] by blast
  note E = producer_event [OF bs(1) k(2) a st(1)]
  show ?thesis
  proof (cases "k1 = Idle")
    case True
    with E have "linked k" "ev = [] \<or> enqueued ev = []" by (auto simp: linked_def)
    with True st bs(2) ok InPush E show ?thesis by (cases "d_pop d") (auto simp: queue_push_def demo_ok_def legal_append)
  next
    case False
    with st bs(2) ok InPush E show ?thesis by (cases "d_pop d") (auto simp: queue_push_def demo_ok_def legal_append split: if_splits)
  qed
qed (use run in simp)

lemma push_ok_frame:
  "push_state_ok n d es k \<Longrightarrow> push_count d1 = push_count d \<Longrightarrow> enqueued fs = enqueued es \<Longrightarrow> (\<And>e. pushes (d_queue d) e (push_task k) \<Longrightarrow> pushes (d_queue d1) e (push_task k)) \<Longrightarrow>
    push_state_ok n d1 fs k"
  by (cases k) auto

lemma demo_pop_ok:
  assumes ok: "demo_ok n m es d" and run: "d_pop d \<noteq> PopDone" and a: "a \<noteq> 0" "q_nodes (d_queue d) a = None"
  shows "\<exists>d1 ev. queue_pop n a d = Some (d1, ev) \<and> demo_ok n (m + 1) (es @ ev) d1"
proof (cases "d_pop d")
  case PopLoop
  from ok obtain bs where bs: "spsc (d_queue d) (push_task (d_push d)) Idle bs" "legal_run [] es = Some (chain_elems (q_nodes (d_queue d)) (tl bs))"
    using PopLoop by (auto simp: demo_ok_def)
  let ?d = "d\<lparr>d_pop := InPop PopHead\<rparr>"
  from bs(1) have "spsc (d_queue d) (push_task (d_push d)) PopHead bs" by (simp add: spsc_def)
  moreover have "push_state_ok n ?d es (d_push d)" by (rule push_ok_frame [of n d]) (use ok in \<open>auto simp: demo_ok_def\<close>)
  ultimately show ?thesis using bs ok PopLoop by (auto simp: queue_pop_def demo_ok_def)
next
  case (InPop k)
  from ok obtain bs where bs: "spsc (d_queue d) (push_task (d_push d)) k bs" "legal_run [] es = Some (chain_elems (q_nodes (d_queue d)) (tl bs))"
    using InPop by (auto simp: demo_ok_def)
  have k: "k \<noteq> Idle" using ok InPop by (auto simp: demo_ok_def)
  obtain q1 k1 ev bs1 where st: "thread_step a (d_queue d) k = Some (q1, k1, ev)" "spsc q1 (push_task (d_push d)) k1 bs1" "task_rank k1 < task_rank k"
    "legal_run (chain_elems (q_nodes (d_queue d)) (tl bs)) ev = Some (chain_elems (q_nodes q1) (tl bs1))"
    using consumer_step [OF bs(1) k] by blast
  note E = consumer_event [OF bs(1) st(1) k]
  let ?d = "if k1 = Idle then d\<lparr>d_queue := q1, d_pop := if pop_count d + 1 \<ge> n then PopDone else PopLoop, pop_count := pop_count d + 1\<rparr>
      else d\<lparr>d_queue := q1, d_pop := InPop k1\<rparr>"
  have "queue_pop n a d = Some (?d, ev)" using InPop st(1) by (simp add: queue_pop_def)
  moreover have "push_state_ok n ?d (es @ ev) (d_push d)" by (rule push_ok_frame [of n d es]) (use ok E in \<open>auto simp: demo_ok_def\<close>)
  then have "demo_ok n (m + 1) (es @ ev) ?d" using st bs(2) ok InPop by (cases "k1 = Idle") (auto simp: demo_ok_def legal_append)
  ultimately show ?thesis by blast
qed (use run in simp)

lemma demo_run_ok:
  assumes "demo_run n q0 m es st" and "q0 = new_queue a junk" and "a \<noteq> 0" and "0 < n"
  shows "\<exists>d. st = Some d \<and> demo_ok n m es d"
  using assms(1)
proof (induction rule: demo_run.induct)
  case demo_start
  then show ?case using spsc_start [OF assms(3), of junk] assms(2,4) by (force simp: demo_ok_def new_demo_def chain_elems_def)
next
  case (demo_push m es d b r)
  then show ?case using demo_push_ok [of n m es d b] by auto
next
  case (demo_pop m es d b r)
  then show ?case using demo_pop_ok [of n m es d b] by auto
qed

lemma spsc_finite: "spsc q k c bs \<Longrightarrow> \<exists>a. a \<noteq> 0 \<and> q_nodes q a = None"
proof -
  assume I: "spsc q k c bs"
  have "finite (own_node t)" for t :: "'a task" by (cases t) auto
  then have "finite (insert 0 (dom (q_nodes q)))" using I by (simp add: spsc_def)
  then obtain a where "a \<notin> insert 0 (dom (q_nodes q))" using ex_new_if_finite [OF infinite_UNIV_nat] by blast
  then show ?thesis by (auto simp: dom_def)
qed

text \<open>A run of the program that is given by the thread of each step and the address \<open>new\<close> would return.\<close>

fun demo_schedule :: "nat \<Rightarrow> (bool \<times> nat) list \<Rightarrow> demo \<Rightarrow> (int qevent list \<times> demo) option" where
  "demo_schedule n [] d = Some ([], d)"
| "demo_schedule n ((b, a) # acts) d =
     (if a = 0 \<or> q_nodes (d_queue d) a \<noteq> None \<or> (if b then d_push d = PushDone else d_pop d = PopDone) then None
      else do {
        (d1, ev) \<leftarrow> (if b then queue_push n a d else queue_pop n a d);
        (es, d2) \<leftarrow> demo_schedule n acts d1;
        Some (ev @ es, d2) })"

lemma demo_schedule_run:
  "demo_schedule n acts d = Some (ev, d1) \<Longrightarrow> demo_run n q0 m es (Some d) \<Longrightarrow> demo_run n q0 (m + length acts) (es @ ev) (Some d1)"
proof (induction acts arbitrary: d m es ev)
  case (Cons act acts)
  obtain b a where act: "act = (b, a)" by (cases act)
  note S = Cons.prems(1) [unfolded act]
  from S have a: "a \<noteq> 0" "q_nodes (d_queue d) a = None" and live: "if b then d_push d \<noteq> PushDone else d_pop d \<noteq> PopDone" by (auto split: if_splits)
  from S obtain d2 ev1 ev2 where st: "(if b then queue_push n a d else queue_pop n a d) = Some (d2, ev1)" "demo_schedule n acts d2 = Some (ev2, d1)" "ev = ev1 @ ev2"
    by (auto split: if_splits bind_splits)
  have "demo_run n q0 (m + 1) (es @ ev1) (Some d2)"
    using demo_push [OF Cons.prems(2) _ a, of "Some (d2, ev1)"] demo_pop [OF Cons.prems(2) _ a, of "Some (d2, ev1)"] live st(1) by (cases b) auto
  then have "demo_run n q0 ((m + 1) + length acts) ((es @ ev1) @ ev2) (Some d1)" by (rule Cons.IH [OF st(2)])
  then show ?case using st(3) by simp
qed simp

section \<open>Properties\<close>

text \<open>
  C18. The queue is a first-in first-out queue under every interleaving when it is used by one producer and one consumer,
  or by any number of producers without a consumer: no access reaches a node that is not allocated, the operations
  take effect in an order that an abstract queue allows, and the nodes behind the head hold its elements.
\<close>

theorem cas_queue_fifo:
  assumes "queue_run producers consumers (new_queue a junk) es st" and "a \<noteq> 0"
    and "consumers = {} \<or> (\<exists>s t. s \<noteq> t \<and> producers = {s} \<and> consumers = {t})"
  shows "\<exists>q ts xs. st = Some (q, ts) \<and> legal_run [] es = Some xs \<and> show_queue q = Some xs"
proof -
  from assms(3) consider "consumers = {}" | s t where "s \<noteq> t" "producers = {s}" "consumers = {t}" by blast
  then show ?thesis
  proof cases
    case 1
    obtain q ts bs where "st = Some (q, ts)" "pushers q ts bs" "legal_run [] es = Some (chain_elems (q_nodes q) (tl bs))"
      using pushers_run [OF assms(1) [unfolded 1] refl assms(2)] by blast
    then show ?thesis using show_content [of q bs] by (auto simp: pushers_def)
  next
    case 2
    obtain q ts bs where "st = Some (q, ts)" "spsc q (ts s) (ts t) bs" "legal_run [] es = Some (chain_elems (q_nodes q) (tl bs))"
      using spsc_run [OF assms(1) [unfolded 2(2,3)] 2(1) refl assms(2)] by blast
    then show ?thesis using show_content [of q bs] by (auto simp: spsc_def)
  qed
qed

theorem cas_queue_fifo_witness:
  "\<exists>q ts xs. queue_run {1} {2} (new_queue 1 (0 :: int)) [Enq 5, Deq 5] (Some (q, ts)) \<and> legal_run [] [Enq 5, Deq (5 :: int)] = Some xs \<and> show_queue q = Some xs"
proof -
  have "\<exists>q ts. schedule {1} {2} [StartPush 1 5, StartPop 2, Access 1 2, Access 1 3, Access 1 3, Access 1 3, Access 1 3, Access 2 3, Access 2 3, Access 2 3, Access 2 3, Access 1 3, Access 2 3]
      (new_queue 1 (0 :: int), \<lambda>_. Idle) = Some ([Enq 5, Deq 5], Some (q, ts))"
    by (simp add: new_queue_def elem_at_def)
  then obtain q ts where run: "queue_run {1} {2} (new_queue 1 (0 :: int)) [Enq 5, Deq 5] (Some (q, ts))" using schedule_run [OF _ run_start] by fastforce
  have "(1 :: nat) \<noteq> 0" "{2} = {} \<or> (\<exists>s t. s \<noteq> t \<and> {1 :: nat} = {s} \<and> {2 :: nat} = {t})" by auto
  from cas_queue_fifo [OF run this] run show ?thesis by auto
qed

text \<open>
  C19. The program ends: under every interleaving it takes at most 15 steps per round and two more, as long as a thread has
  not finished there is a next step, and no step is a fault. At the end every number has been pushed once and in order,
  both counters have the number of rounds, and the destructor releases all memory.
\<close>

theorem cas_demo_ends:
  assumes "demo_run n (new_queue a junk) m es st" and "a \<noteq> 0" and "0 < n"
  shows "\<exists>d. st = Some d \<and> m \<le> 15 * n + 2 \<and> (\<not> demo_finished d \<longrightarrow> (\<exists>es1 st1. demo_run n (new_queue a junk) (m + 1) es1 st1)) \<and>
    (demo_finished d \<longrightarrow> push_count d = n \<and> pop_count d = n \<and> enqueued es = map int [0..<n] \<and>
      legal_run [] es = show_queue (d_queue d) \<and> delete_queue (d_queue d) = Some Map.empty)"
proof -
  obtain d where d: "st = Some d" "demo_ok n m es d" using demo_run_ok [OF assms(1) refl assms(2,3)] by blast
  then obtain bs where bs: "spsc (d_queue d) (push_task (d_push d)) (pop_task (d_pop d)) bs" "legal_run [] es = Some (chain_elems (q_nodes (d_queue d)) (tl bs))"
    by (auto simp: demo_ok_def)
  obtain b where b: "b \<noteq> 0" "q_nodes (d_queue d) b = None" using spsc_finite [OF bs(1)] by blast
  have "\<exists>es1 st1. demo_run n (new_queue a junk) (m + 1) es1 st1" if "\<not> demo_finished d"
    using that demo_push [OF assms(1) [unfolded d(1)] _ b refl] demo_pop [OF assms(1) [unfolded d(1)] _ b refl] by (auto simp: demo_finished_def)
  moreover have "push_count d = n \<and> pop_count d = n \<and> enqueued es = map int [0..<n] \<and> legal_run [] es = show_queue (d_queue d) \<and> delete_queue (d_queue d) = Some Map.empty"
    if "demo_finished d"
  proof -
    have I: "qchain (q_nodes (d_queue d)) (q_head (d_queue d)) bs" "bs \<noteq> []" "distinct bs" "dom (q_nodes (d_queue d)) = set bs"
      using bs(1) that by (auto simp: spsc_def demo_finished_def)
    have "delete_queue (d_queue d) = Some Map.empty" using delete_chain [OF I(1,3)] I(4) by (auto simp: delete_queue_def restrict_map_def fun_eq_iff)
    moreover have "legal_run [] es = show_queue (d_queue d)" using show_content [OF I(1,2)] bs(2) by simp
    ultimately show ?thesis using d(2) that by (auto simp: demo_ok_def demo_finished_def)
  qed
  ultimately show ?thesis using d by (auto simp: demo_ok_def)
qed

theorem cas_demo_ends_witness:
  "\<exists>d. demo_run 1 (new_queue 1 0) 11 [DeqEmpty, Enq 0] (Some d) \<and> demo_finished d \<and> push_count d = 1 \<and> delete_queue (d_queue d) = Some Map.empty"
proof -
  let ?acts = "[(True, 2), (True, 2), (False, 3), (False, 3), (False, 3), (True, 3), (True, 3), (True, 3), (True, 3), (True, 3), (True, 3)]"
  have "\<exists>d. demo_schedule 1 ?acts (new_demo (new_queue 1 0)) = Some ([DeqEmpty, Enq 0], d) \<and> demo_finished d"
    by (simp add: new_demo_def new_queue_def queue_push_def queue_pop_def elem_at_def demo_finished_def)
  then obtain d where d: "demo_schedule 1 ?acts (new_demo (new_queue 1 0)) = Some ([DeqEmpty, Enq 0], d)" "demo_finished d" by blast
  have "demo_run 1 (new_queue 1 0) 11 [DeqEmpty, Enq 0] (Some d)" using demo_schedule_run [OF d(1) demo_start] by (simp add: eval_nat_numeral)
  with d(2) cas_demo_ends [of 1 1 0 11 "[DeqEmpty, Enq 0]" "Some d"] show ?thesis by auto
qed

text \<open>Two threads of one kind beside one of the other are not safe: both runs reach a released node.\<close>

lemma two_consumers_fault:
  "queue_run {1} {2, 3} (new_queue 1 (0 :: int)) [Enq 5, Deq 5] None"
proof -
  have "schedule {1} {2, 3} [StartPush 1 5, Access 1 2, Access 1 3, Access 1 3, Access 1 3, Access 1 3, StartPop 2, Access 2 3, StartPop 3, Access 3 3, Access 3 3, Access 3 3, Access 3 3, Access 3 3, Access 2 3]
    (new_queue 1 (0 :: int), \<lambda>_. Idle) = Some ([Enq 5, Deq 5], None)"
    by (simp add: new_queue_def elem_at_def)
  from schedule_run [OF this run_start] show ?thesis by simp
qed

lemma two_producers_fault:
  "queue_run {1, 2} {3} (new_queue 1 (0 :: int)) [Enq 5, Deq 5] None"
proof -
  have "schedule {1, 2} {3} [StartPush 1 5, Access 1 2, Access 1 3, Access 1 3, Access 1 3, Access 1 3, StartPop 3, Access 3 3, Access 3 3, Access 3 3, Access 3 3, Access 3 3,
      StartPush 2 6, Access 2 3, Access 2 4, Access 2 4, Access 2 4]
    (new_queue 1 (0 :: int), \<lambda>_. Idle) = Some ([Enq 5, Deq 5], None)"
    by (simp add: new_queue_def elem_at_def)
  from schedule_run [OF this run_start] show ?thesis by simp
qed

end
