(* ===== verification/Heartbeat_Server.thy ===== *)
theory Heartbeat_Server
  imports Reactor
begin

text \<open>
  The heartbeat server of \<open>src/heartbeat/ngx_server.c\<close>: the callbacks, the handlers the reactor
  calls, and the start-up. The reactor pointer passed around as \<open>arg\<close> is null (0) or not. An
  access to \<open>reactor->ev[i]\<close> outside the array is \<^const>\<open>None\<close>. The output of \<open>printf\<close> is left out,
  but the array element it reads is accessed.
\<close>

unbundle bit_operations_syntax

section \<open>Callbacks\<close>

definition KEEPALIVE_INTVAL_MSEC :: u64 where "KEEPALIVE_INTVAL_MSEC = 5000"
definition KEEPALIVE_INTVAL_PROBES :: u64 where "KEEPALIVE_INTVAL_PROBES = 3"

definition recv_cb :: "'k kernel \<Rightarrow> 'k ngx_state \<Rightarrow> int \<Rightarrow> nat \<Rightarrow> (int \<times> 'k ngx_state) option" where
  "recv_cb K st fd arg = do {
     e \<leftarrow> ev_index fd;
     let ((len, data), k) = k_recv K fd BUFFER_LENGTH (ns_kernel st);
     st1 \<leftarrow> upd_event (st\<lparr>ns_kernel := k\<rparr>) e (\<lambda>ev. ev\<lparr>ev_buffer := fill_buffer data (ev_buffer ev)\<rparr>);
     (r, st2) \<leftarrow> ngx_event_del K st1 e;
     if len > 0 then do {
       ev \<leftarrow> nt_events st2 e;
       buf \<leftarrow> terminate (ev_buffer ev) len;
       st3 \<leftarrow> upd_event st2 e (\<lambda>ev. ev\<lparr>ev_length := len, ev_buffer := buf, ev_last_active := nt_msec st2\<rparr>);
       st4 \<leftarrow> ngx_event_set st3 e fd Client_Handler arg;
       (r, st5) \<leftarrow> ngx_event_add K st4 NGX_EVENT_READING KEEPALIVE_INTVAL_MSEC e;
       Some (len, st5)
     } else do {
       st3 \<leftarrow> close_ev K st2 e;
       Some (len, st3)
     }
   }"

definition send_cb :: "'k kernel \<Rightarrow> 'k ngx_state \<Rightarrow> int \<Rightarrow> nat \<Rightarrow> (int \<times> 'k ngx_state) option" where
  "send_cb K st fd arg = do {
     e \<leftarrow> ev_index fd;
     ev \<leftarrow> nt_events st e;
     data \<leftarrow> (if 0 \<le> ev_length ev \<and> nat (ev_length ev) \<le> length (ev_buffer ev)
              then Some (take (nat (ev_length ev)) (ev_buffer ev)) else None);
     let (len, k) = k_send K fd data (ns_kernel st);
     let st1 = st\<lparr>ns_kernel := k\<rparr>;
     if len > 0 then do {
       (r, st2) \<leftarrow> ngx_event_del K st1 e;
       st3 \<leftarrow> ngx_event_set st2 e fd Client_Handler arg;
       (r, st4) \<leftarrow> ngx_event_add K st3 NGX_EVENT_WRITING KEEPALIVE_INTVAL_MSEC e;
       Some (len, st4)
     } else do {
       st2 \<leftarrow> close_ev K st1 e;
       (r, st3) \<leftarrow> ngx_event_del K st2 e;
       Some (len, st3)
     }
   }"

text \<open>The first free entry of the array at or behind \<open>i\<close>, or the length of the array.\<close>

function find_free :: "'k ngx_state \<Rightarrow> nat \<Rightarrow> nat option" where
  "find_free st i =
     (if i < MAX_EPOLL_EVENTS
      then do { ev \<leftarrow> nt_events st i; if ev_status ev = 0 then Some i else find_free st (Suc i) }
      else Some i)"
  by pat_completeness auto
termination by (relation "measure (\<lambda>(st, i). MAX_EPOLL_EVENTS - i)") auto

definition accept_cb :: "'k kernel \<Rightarrow> 'k ngx_state \<Rightarrow> int \<Rightarrow> nat \<Rightarrow> (int \<times> 'k ngx_state) option" where
  "accept_cb K st fd arg =
     (if arg = 0 then Some (-1, st)
      else do {
        let (clientfd, k) = k_accept K fd (ns_kernel st);
        let st1 = st\<lparr>ns_kernel := k\<rparr>;
        if clientfd = -1 then Some (-1, st1)
        else do {
          i \<leftarrow> find_free st1 0;
          st2 \<leftarrow>
            (if i = MAX_EPOLL_EVENTS then Some st1
             else do {
               let (flag, k) = k_set_nonblock K clientfd (ns_kernel st1);
               let st2 = st1\<lparr>ns_kernel := k\<rparr>;
               if flag < 0 then Some st2
               else do {
                 e \<leftarrow> ev_index clientfd;
                 st3 \<leftarrow> ngx_event_set st2 e clientfd Client_Handler arg;
                 (r, st4) \<leftarrow> ngx_event_add K st3 (NGX_EVENT_READING OR NGX_EVENT_TIMEOUT) KEEPALIVE_INTVAL_MSEC e;
                 Some st4
               }
             });
          ev \<leftarrow> nt_events st2 i;
          Some (0, st2)
        }
      })"

definition timeout_cb :: "'k kernel \<Rightarrow> 'k ngx_state \<Rightarrow> int \<Rightarrow> u64 \<Rightarrow> int \<times> 'k ngx_state" where
  "timeout_cb K st fd last_active =
     (let delta = nt_msec st - last_active in
      if delta \<ge> KEEPALIVE_INTVAL_MSEC * KEEPALIVE_INTVAL_PROBES
      then (0, st\<lparr>ns_kernel := k_close K fd (ns_kernel st)\<rparr>) else (0, st))"

section \<open>Handlers\<close>

text \<open>
  The flags are read again from the event before each of the three steps, after the earlier
  ones have changed them.
\<close>

definition client_handler :: "'k kernel \<Rightarrow> nat \<Rightarrow> 'k ngx_state \<Rightarrow> (int \<times> 'k ngx_state) option" where
  "client_handler K e st = do {
     ev \<leftarrow> nt_events st e;
     (ret1, st1) \<leftarrow>
       (if has (ev_what ev) NGX_EVENT_READING then recv_cb K st (ev_fd ev) (ev_arg ev) else Some (0, st));
     ev1 \<leftarrow> nt_events st1 e;
     (ret2, st2) \<leftarrow>
       (if has (ev_what ev1) NGX_EVENT_WRITING then send_cb K st1 (ev_fd ev1) (ev_arg ev1) else Some (ret1, st1));
     ev2 \<leftarrow> nt_events st2 e;
     if has (ev_what ev2) NGX_EVENT_TIMEOUT then do {
       let (ret3, st3) = timeout_cb K st2 (ev_fd ev2) (ev_last_active ev2);
       if ev_arg ev2 = 0 then Some (-1, st3)
       else do {
         (r, st4) \<leftarrow> ngx_event_add K st3 (NGX_EVENT_READING OR NGX_EVENT_TIMEOUT) KEEPALIVE_INTVAL_MSEC e;
         Some (ret3, st4)
       }
     } else Some (ret2, st2)
   }"

definition ngx_reactor_handler :: "'k kernel \<Rightarrow> nat \<Rightarrow> 'k ngx_state \<Rightarrow> (int \<times> 'k ngx_state) option" where
  "ngx_reactor_handler K e st = do {
     ev \<leftarrow> nt_events st e;
     st1 \<leftarrow> (if has (ev_what ev) NGX_EVENT_READING
             then do { (r, st1) \<leftarrow> accept_cb K st (ev_fd ev) (ev_arg ev); Some st1 } else Some st);
     Some (0, st1)
   }"

text \<open>The call \<open>ev->handler(ev)\<close>; the reactor ignores the result.\<close>

definition server_call :: "'k kernel \<Rightarrow> nat \<Rightarrow> 'k ngx_state \<Rightarrow> 'k ngx_state option" where
  "server_call K e st = do {
     ev \<leftarrow> nt_events st e;
     (r, st1) \<leftarrow>
       (case ev_handler ev of
          Client_Handler \<Rightarrow> client_handler K e st
        | Reactor_Handler \<Rightarrow> ngx_reactor_handler K e st
        | Handler \<Rightarrow> None);
     Some st1
   }"

section \<open>Start-up\<close>

definition ngx_reactor_addlistener :: "'k kernel \<Rightarrow> 'k ngx_state \<Rightarrow> nat \<Rightarrow> bool \<Rightarrow> int \<Rightarrow> handler \<Rightarrow> (int \<times> 'k ngx_state) option" where
  "ngx_reactor_addlistener K st reactor alloc sockfd handler =
     (if reactor = 0 then Some (-1, st)
      else if \<not> alloc then Some (-1, st)
      else do {
        e \<leftarrow> ev_index sockfd;
        st1 \<leftarrow> ngx_event_set st e sockfd handler reactor;
        (r, st2) \<leftarrow> ngx_event_add K st1 NGX_EVENT_READING 0 e;
        Some (0, st2)
      })"

text \<open>
  \<open>main\<close> from the creation of the reactor on, for a listening socket \<open>sockfd\<close> and an address
  \<open>reactor\<close> of the reactor; \<open>n\<close> bounds the iterations of the endless loop.
\<close>

definition server_main ::
  "nat \<Rightarrow> 'k kernel \<Rightarrow> ((nat \<Rightarrow> ngx_event) \<times> (nat \<Rightarrow> rbnode)) option \<Rightarrow> int \<Rightarrow> nat \<Rightarrow> 'k ngx_state \<Rightarrow> 'k loop_result option" where
  "server_main n K memory sockfd reactor st = do {
     let st1 = ngx_time_update K st;
     let (r, st2) = ngx_reactor_init K reactor memory st1;
     let alloc = (memory \<noteq> None \<and> ns_epfd st2 > 0);
     (r, st3) \<leftarrow> ngx_reactor_addlistener K st2 reactor alloc sockfd Reactor_Handler;
     res \<leftarrow> ngx_reactor_loop n reactor alloc K (server_call K) st3;
     case res of
       Running st4 \<Rightarrow> Some (Running st4)
     | Returned r st4 \<Rightarrow> do {
         st5 \<leftarrow> ngx_reactor_destory K reactor st4;
         Some (Returned 0 (st5\<lparr>ns_kernel := k_close K sockfd (ns_kernel st5)\<rparr>))
       }
   }"

section \<open>Steps that leave the timers alone\<close>

text \<open>An event of an accepted connection.\<close>

definition conn :: "nat \<Rightarrow> ngx_event \<Rightarrow> bool" where
  "conn e ev \<longleftrightarrow> ev_handler ev = Client_Handler \<and> ev_fd ev = int e \<and> ev_arg ev \<noteq> 0 \<and>
     length (ev_buffer ev) = BUFFER_LENGTH \<and> 0 \<le> ev_length ev \<and> ev_length ev \<le> int BUFFER_LENGTH"

definition keeps :: "nat \<Rightarrow> 'k ngx_state \<Rightarrow> 'k ngx_state \<Rightarrow> bool" where
  "keeps e st st' \<longleftrightarrow> nt_heap st' = nt_heap st \<and> nt_tree st' = nt_tree st \<and> nt_msec st' = nt_msec st \<and>
     (\<exists>ev ev'. nt_events st e = Some ev \<and> nt_events st' = (nt_events st)(e \<mapsto> ev') \<and>
        ev_timer_set ev' = ev_timer_set ev \<and> (conn e ev \<longrightarrow> conn e ev'))"

lemma keeps_trans: "keeps e st st1 \<Longrightarrow> keeps e st1 st2 \<Longrightarrow> keeps e st st2"
  unfolding keeps_def by auto

lemma keeps_refl: "nt_events st e = Some ev \<Longrightarrow> keeps e st st"
  unfolding keeps_def by (auto simp: fun_upd_idem intro!: exI [of _ ev])

lemma keeps_kernel: "nt_events st e = Some ev \<Longrightarrow> keeps e st (st\<lparr>ns_kernel := k\<rparr>)"
  unfolding keeps_def by (auto simp: fun_upd_idem intro!: exI [of _ ev])

lemma keeps_conn: "keeps e st st' \<Longrightarrow> nt_events st e = Some ev \<Longrightarrow> conn e ev \<Longrightarrow> \<exists>ev'. nt_events st' e = Some ev' \<and> conn e ev'"
  by (auto simp: keeps_def)

lemma keeps_inv:
  assumes inv: "timers_inv b E st xs" and "keeps e st st'"
  shows "timers_inv b E st' xs"
proof -
  obtain ev ev' where k: "nt_events st e = Some ev" "nt_events st' = (nt_events st)(e \<mapsto> ev')" "ev_timer_set ev' = ev_timer_set ev"
      "nt_heap st' = nt_heap st" "nt_tree st' = nt_tree st"
    using assms(2) by (auto simp: keeps_def)
  have "E \<subseteq> dom (nt_events st')" using inv k by (auto simp: timers_inv_def)
  moreover have "\<forall>e \<in> E. \<forall>ev. nt_events st' e = Some ev \<longrightarrow> (ev_timer_set ev \<noteq> 0 \<longleftrightarrow> node_of e \<in> fst ` set xs)"
    using inv k by (auto simp: timers_inv_def)
  ultimately show ?thesis using inv k by (simp add: timers_inv_def)
qed

lemma upd_event_keeps:
  assumes "nt_events st e = Some ev" and "ev_timer_set (f ev) = ev_timer_set ev" and "conn e ev \<Longrightarrow> conn e (f ev)"
  shows "\<exists>st'. upd_event st e f = Some st' \<and> keeps e st st' \<and> nt_events st' e = Some (f ev) \<and> ns_kernel st' = ns_kernel st \<and> ns_epfd st' = ns_epfd st"
  using assms by (auto simp: upd_event_def keeps_def)

lemma event_set_keeps:
  assumes "nt_events st e = Some ev" and "arg \<noteq> 0"
  shows "\<exists>st'. ngx_event_set st e (int e) Client_Handler arg = Some st' \<and> keeps e st st'"
  using upd_event_keeps [OF assms(1), of "\<lambda>ev. ev\<lparr>ev_fd := int e, ev_handler := Client_Handler, ev_what := 0,
      ev_arg := arg, ev_last_active := nt_msec st\<rparr>"] assms(2)
  unfolding ngx_event_set_def by (auto simp: conn_def)

lemma event_del_keeps:
  assumes "nt_events st e = Some ev"
  shows "\<exists>r st'. ngx_event_del K st e = Some (r, st') \<and> keeps e st st'"
proof (cases "ev_status ev = 1")
  case False
  then show ?thesis using assms keeps_refl by (auto simp: ngx_event_del_def)
next
  case True
  obtain st1 where st1: "upd_event st e (\<lambda>ev. ev\<lparr>ev_status := 0\<rparr>) = Some st1" "keeps e st st1" "nt_events st1 e = Some (ev\<lparr>ev_status := 0\<rparr>)"
    using upd_event_keeps [OF assms, of "\<lambda>ev. ev\<lparr>ev_status := 0\<rparr>"] by (auto simp: conn_def)
  with True assms keeps_trans [OF st1(2) keeps_kernel [OF st1(3)]] show ?thesis
    by (simp add: ngx_event_del_def split_def Let_def)
qed

lemma event_del_run:
  assumes "nt_events st e = Some ev"
  shows "\<exists>r k c. ngx_event_del K st e = Some (r, st\<lparr>nt_events := (nt_events st)(e \<mapsto> ev\<lparr>ev_status := c\<rparr>), ns_kernel := k\<rparr>)"
proof (cases "ev_status ev = 1")
  case False
  then show ?thesis using assms
    by (intro exI [of _ "-1"] exI [of _ "ns_kernel st"] exI [of _ "ev_status ev"]) (simp add: ngx_event_del_def fun_upd_idem)
next
  case True
  then show ?thesis using assms by (auto simp: ngx_event_del_def upd_event_def split_def Let_def)
qed

text \<open>The last part of \<open>ngx_event_add\<close>, behind the timer.\<close>

lemma event_add_epoll:
  assumes "nt_events st e = Some ev"
  shows "\<exists>r st'. do {
       ev \<leftarrow> nt_events st e;
       (op, st3) \<leftarrow>
         (if ev_status ev = 1 then Some (EPOLL_CTL_MOD, st)
          else do { st3 \<leftarrow> upd_event st e (\<lambda>ev. ev\<lparr>ev_status := 1\<rparr>); Some (EPOLL_CTL_ADD, st3) });
       let (r, k) = k_epoll_ctl K (ns_epfd st3) op (ev_fd ev) events e (ns_kernel st3);
       Some (if r < 0 then -1 else 0 :: int, st3\<lparr>ns_kernel := k\<rparr>)
     } = Some (r, st') \<and> keeps e st st' \<and>
     (\<exists>op. ns_kernel st' = snd (k_epoll_ctl K (ns_epfd st) op (ev_fd ev) events e (ns_kernel st)))"
proof (cases "ev_status ev = 1")
  case True
  then show ?thesis using assms keeps_kernel [OF assms] by (auto simp: split_def Let_def)
next
  case False
  obtain st1 where st1: "upd_event st e (\<lambda>ev. ev\<lparr>ev_status := 1\<rparr>) = Some st1" "keeps e st st1" "nt_events st1 e = Some (ev\<lparr>ev_status := 1\<rparr>)"
      "ns_kernel st1 = ns_kernel st" "ns_epfd st1 = ns_epfd st"
    using upd_event_keeps [OF assms, of "\<lambda>ev. ev\<lparr>ev_status := 1\<rparr>"] by (auto simp: conn_def)
  with False assms keeps_trans [OF st1(2) keeps_kernel [OF st1(3)]] show ?thesis by (auto simp: split_def Let_def)
qed

lemma event_add_keeps:
  assumes "nt_events st e = Some ev" and "\<not> has what NGX_EVENT_TIMEOUT"
  shows "\<exists>r st'. ngx_event_add K st what timeout e = Some (r, st') \<and> keeps e st st'"
proof -
  obtain st1 where st1: "upd_event st e (\<lambda>ev. ev\<lparr>ev_what := ev_what ev OR what\<rparr>) = Some st1" "keeps e st st1"
      "nt_events st1 e = Some (ev\<lparr>ev_what := ev_what ev OR what\<rparr>)"
    using upd_event_keeps [OF assms(1), of "\<lambda>ev. ev\<lparr>ev_what := ev_what ev OR what\<rparr>"] by (auto simp: conn_def)
  show ?thesis using event_add_epoll [OF st1(3)] st1(1) assms(2) keeps_trans [OF st1(2)]
    by (simp add: ngx_event_add_def Let_def) blast
qed

lemma close_ev_keeps:
  assumes "nt_events st e = Some ev"
  shows "\<exists>st'. close_ev K st e = Some st' \<and> keeps e st st'"
  using assms keeps_kernel [OF assms] by (auto simp: close_ev_def)

lemma flag_tests: "\<not> has NGX_EVENT_READING NGX_EVENT_TIMEOUT" "\<not> has NGX_EVENT_WRITING NGX_EVENT_TIMEOUT"
  "has (NGX_EVENT_READING OR NGX_EVENT_TIMEOUT) NGX_EVENT_TIMEOUT"
  by (simp_all add: has_def NGX_EVENT_READING_def NGX_EVENT_WRITING_def NGX_EVENT_TIMEOUT_def)

section \<open>The handler of a connection\<close>

text \<open>
  What the server relies on: \<open>recv\<close> reports the number of bytes it has written, and less than
  the whole buffer. The second half is not guaranteed by the system call.
\<close>

definition short_reads :: "'k kernel \<Rightarrow> bool" where
  "short_reads K \<longleftrightarrow> (\<forall>fd k. case k_recv K fd BUFFER_LENGTH k of ((len, data), k') \<Rightarrow>
     len < int BUFFER_LENGTH \<and> length data = nat len)"

lemma recv_cb_keeps:
  assumes K: "short_reads K" and ev: "nt_events st e = Some ev" "conn e ev" and arg: "arg \<noteq> 0"
  shows "\<exists>r st'. recv_cb K st (int e) arg = Some (r, st') \<and> keeps e st st'"
proof -
  obtain len data k where r: "k_recv K (int e) BUFFER_LENGTH (ns_kernel st) = ((len, data), k)" by (metis prod.exhaust)
  have "case k_recv K (int e) BUFFER_LENGTH (ns_kernel st) of ((len, data), k') \<Rightarrow> len < int BUFFER_LENGTH \<and> length data = nat len"
    using K [unfolded short_reads_def, THEN spec, THEN spec] .
  then have len: "len < int BUFFER_LENGTH" "length data = nat len" by (simp_all add: r)
  let ?st = "st\<lparr>ns_kernel := k\<rparr>" and ?f = "\<lambda>ev. ev\<lparr>ev_buffer := fill_buffer data (ev_buffer ev)\<rparr>"
  have conn1: "conn e (?f ev)" using ev(2) len by (auto simp: conn_def fill_buffer_def)
  obtain st1 where st1: "upd_event ?st e ?f = Some st1" "keeps e ?st st1" "nt_events st1 e = Some (?f ev)"
    using upd_event_keeps [of ?st e ev ?f] ev(1) conn1 by auto
  obtain r2 st2 where st2: "ngx_event_del K st1 e = Some (r2, st2)" "keeps e st1 st2" using event_del_keeps [OF st1(3)] by blast
  have k2: "keeps e st st2" using keeps_trans [OF keeps_kernel [OF ev(1)] keeps_trans [OF st1(2) st2(2)]] .
  obtain ev2 where ev2: "nt_events st2 e = Some ev2" "conn e ev2" using keeps_conn [OF k2 ev] by blast
  note run = recv_cb_def ev_index_def r st1(1) st2(1)
  show ?thesis
  proof (cases "len > 0")
    case False
    then show ?thesis using close_ev_keeps [OF ev2(1), of K] keeps_trans [OF k2] by (auto simp: run)
  next
    case True
    let ?buf = "(ev_buffer ev2)[nat len := 0]"
    let ?g = "\<lambda>ev. ev\<lparr>ev_length := len, ev_buffer := ?buf, ev_last_active := nt_msec st2\<rparr>"
    have "terminate (ev_buffer ev2) len = Some ?buf" using ev2(2) len True by (auto simp: terminate_def conn_def)
    moreover have "conn e (?g ev2)" using ev2(2) len True by (auto simp: conn_def)
    then obtain st3 where st3: "upd_event st2 e ?g = Some st3" "keeps e st2 st3" "nt_events st3 e = Some (?g ev2)"
      using upd_event_keeps [of st2 e ev2 ?g] ev2(1) by auto
    moreover obtain st4 where st4: "ngx_event_set st3 e (int e) Client_Handler arg = Some st4" "keeps e st3 st4"
      using event_set_keeps [OF st3(3) arg] by blast
    moreover obtain ev4 where "nt_events st4 e = Some ev4" using st4(2) by (auto simp: keeps_def)
    then obtain r5 st5 where st5: "ngx_event_add K st4 NGX_EVENT_READING KEEPALIVE_INTVAL_MSEC e = Some (r5, st5)" "keeps e st4 st5"
      using event_add_keeps flag_tests(1) by blast
    moreover have "keeps e st st5" using keeps_trans [OF k2 keeps_trans [OF st3(2) keeps_trans [OF st4(2) st5(2)]]] .
    ultimately show ?thesis using True ev2(1) by (simp add: run)
  qed
qed

lemma send_cb_keeps:
  assumes ev: "nt_events st e = Some ev" "conn e ev" and arg: "arg \<noteq> 0"
  shows "\<exists>r st'. send_cb K st (int e) arg = Some (r, st') \<and> keeps e st st'"
proof -
  let ?data = "take (nat (ev_length ev)) (ev_buffer ev)"
  obtain len k where s: "k_send K (int e) ?data (ns_kernel st) = (len, k)" by (metis prod.exhaust)
  let ?st = "st\<lparr>ns_kernel := k\<rparr>"
  have "0 \<le> ev_length ev \<and> nat (ev_length ev) \<le> length (ev_buffer ev)" using ev(2) by (auto simp: conn_def)
  note run = send_cb_def ev_index_def ev(1) this s
  have k1: "keeps e st ?st" "nt_events ?st e = Some ev" using keeps_kernel [OF ev(1)] ev(1) by auto
  show ?thesis
  proof (cases "len > 0")
    case True
    obtain r2 st2 where st2: "ngx_event_del K ?st e = Some (r2, st2)" "keeps e ?st st2" using event_del_keeps [OF k1(2)] by blast
    obtain ev2 where "nt_events st2 e = Some ev2" using st2(2) by (auto simp: keeps_def)
    then obtain st3 where st3: "ngx_event_set st2 e (int e) Client_Handler arg = Some st3" "keeps e st2 st3"
      using event_set_keeps arg by blast
    obtain ev3 where "nt_events st3 e = Some ev3" using st3(2) by (auto simp: keeps_def)
    then obtain r4 st4 where st4: "ngx_event_add K st3 NGX_EVENT_WRITING KEEPALIVE_INTVAL_MSEC e = Some (r4, st4)" "keeps e st3 st4"
      using event_add_keeps flag_tests(2) by blast
    have "keeps e st st4" using keeps_trans [OF k1(1) keeps_trans [OF st2(2) keeps_trans [OF st3(2) st4(2)]]] .
    with True st2(1) st3(1) st4(1) show ?thesis by (simp add: run)
  next
    case False
    obtain st2 where st2: "close_ev K ?st e = Some st2" "keeps e ?st st2" using close_ev_keeps [OF k1(2)] by blast
    obtain ev2 where "nt_events st2 e = Some ev2" using st2(2) by (auto simp: keeps_def)
    then obtain r3 st3 where st3: "ngx_event_del K st2 e = Some (r3, st3)" "keeps e st2 st3" using event_del_keeps by blast
    have "keeps e st st3" using keeps_trans [OF k1(1) keeps_trans [OF st2(2) st3(2)]] .
    with False st2(1) st3(1) show ?thesis by (simp add: run)
  qed
qed

lemma timeout_cb_keeps:
  assumes "nt_events st e = Some ev"
  shows "\<exists>r st'. timeout_cb K st fd la = (r, st') \<and> keeps e st st'"
  using keeps_kernel [OF assms] keeps_refl [OF assms] by (auto simp: timeout_cb_def Let_def)

text \<open>Re-arming: \<open>ngx_event_add\<close> with a timeout for an event without a timer.\<close>

lemma event_add_timeout:
  assumes inv: "timers_inv b E st xs" and ev: "nt_events st e = Some ev" "conn e ev" "e \<in> E"
    and e: "node_of e \<notin> fst ` set xs" and what: "has what NGX_EVENT_TIMEOUT" and key: "nt_msec st + timeout \<in> window b"
  shows "\<exists>r st' ev'. ngx_event_add K st what timeout e = Some (r, st') \<and>
    timers_inv b E st' (place timer_less (node_of e, nt_msec st + timeout) xs) \<and> nt_msec st' = nt_msec st \<and>
    nt_events st' = (nt_events st)(e \<mapsto> ev') \<and> conn e ev' \<and>
    (\<exists>op. ns_kernel st' = snd (k_epoll_ctl K (ns_epfd st) op (int e)
      ((if has what NGX_EVENT_READING then EPOLLIN else 0) OR (if has what NGX_EVENT_WRITING then EPOLLOUT else 0)) e (ns_kernel st)))"
proof -
  let ?f = "\<lambda>ev. ev\<lparr>ev_what := ev_what ev OR what\<rparr>"
  obtain st1 where st1: "upd_event st e ?f = Some st1" "keeps e st st1" "nt_events st1 e = Some (?f ev)"
      "ns_kernel st1 = ns_kernel st" "ns_epfd st1 = ns_epfd st"
    using upd_event_keeps [OF ev(1), of ?f] by (auto simp: conn_def)
  have same: "nt_msec st1 = nt_msec st" "nt_events st1 = (nt_events st)(e \<mapsto> ?f ev)"
    using st1 ev by (auto simp: keeps_def)
  have inv1: "timers_inv b E st1 xs" using keeps_inv [OF inv st1(2)] .
  have unset: "ev_timer_set (?f ev) = 0" using inv1 st1(3) ev(3) e by (auto simp: timers_inv_def)
  obtain h t where st2: "arm_timer st1 e (nt_msec st + timeout) =
      Some (st1\<lparr>nt_heap := h, nt_tree := t, nt_events := (nt_events st1)(e \<mapsto> (?f ev)\<lparr>ev_timer_set := 1\<rparr>)\<rparr>)"
      "timers_inv b E (st1\<lparr>nt_heap := h, nt_tree := t, nt_events := (nt_events st1)(e \<mapsto> (?f ev)\<lparr>ev_timer_set := 1\<rparr>)\<rparr>)
        (place timer_less (node_of e, nt_msec st + timeout) xs)"
    using arm_timer_ok [OF inv1 st1(3) ev(3) e key] by blast
  let ?st2 = "st1\<lparr>nt_heap := h, nt_tree := t, nt_events := (nt_events st1)(e \<mapsto> (?f ev)\<lparr>ev_timer_set := 1\<rparr>)\<rparr>"
  have add: "ngx_event_add_timer st1 e timeout = Some ?st2"
    using st1(3) same st2(1) unset by (simp add: ngx_event_add_timer_def Let_def)
  have ev2: "nt_events ?st2 e = Some ((?f ev)\<lparr>ev_timer_set := 1\<rparr>)" "conn e ((?f ev)\<lparr>ev_timer_set := 1\<rparr>)"
    using ev(2) by (auto simp: conn_def)
  obtain r st3 where st3: "do {
       ev \<leftarrow> nt_events ?st2 e;
       (op, st3) \<leftarrow>
         (if ev_status ev = 1 then Some (EPOLL_CTL_MOD, ?st2)
          else do { st3 \<leftarrow> upd_event ?st2 e (\<lambda>ev. ev\<lparr>ev_status := 1\<rparr>); Some (EPOLL_CTL_ADD, st3) });
       let (r, k) = k_epoll_ctl K (ns_epfd st3) op (ev_fd ev)
         ((if has what NGX_EVENT_READING then EPOLLIN else 0) OR (if has what NGX_EVENT_WRITING then EPOLLOUT else 0)) e (ns_kernel st3);
       Some (if r < 0 then -1 else 0 :: int, st3\<lparr>ns_kernel := k\<rparr>)
     } = Some (r, st3)" "keeps e ?st2 st3"
     "\<exists>op. ns_kernel st3 = snd (k_epoll_ctl K (ns_epfd st1) op (ev_fd ev)
       ((if has what NGX_EVENT_READING then EPOLLIN else 0) OR (if has what NGX_EVENT_WRITING then EPOLLOUT else 0)) e (ns_kernel st1))"
    using event_add_epoll [OF ev2(1), of K "(if has what NGX_EVENT_READING then EPOLLIN else 0) OR (if has what NGX_EVENT_WRITING then EPOLLOUT else 0)"]
    by auto
  have "ngx_event_add K st what timeout e = Some (r, st3)"
    unfolding ngx_event_add_def st1(1) Let_def using what add st3(1) by (simp add: Let_def)
  moreover obtain ev3 where "nt_events st3 = (nt_events st)(e \<mapsto> ev3)" "conn e ev3"
    using st3(2) ev2 same by (auto simp: keeps_def)
  moreover have "nt_msec st3 = nt_msec st" using st3(2) same by (simp add: keeps_def)
  moreover have "ev_fd ev = int e" using ev(2) by (simp add: conn_def)
  ultimately show ?thesis using keeps_inv [OF st2(2) st3(2)] st3(3) st1(4,5) by auto
qed

lemma client_handler_ok:
  assumes K: "short_reads K" and inv: "timers_inv b E st xs" and ev: "nt_events st e = Some ev" "conn e ev" "e \<in> E"
    and e: "node_of e \<notin> fst ` set xs" and key: "nt_msec st + KEEPALIVE_INTVAL_MSEC \<in> window b"
  shows "\<exists>r st' xs' ev'. client_handler K e st = Some (r, st') \<and> timers_inv b E st' xs' \<and>
    nt_msec st' = nt_msec st \<and> nt_events st' = (nt_events st)(e \<mapsto> ev') \<and> conn e ev' \<and>
    (xs' = xs \<or> xs' = place timer_less (node_of e, nt_msec st + KEEPALIVE_INTVAL_MSEC) xs)"
proof -
  have fd: "ev_fd ev = int e" "ev_arg ev \<noteq> 0" if "conn e ev" for ev using that by (simp_all add: conn_def)
  obtain r1 st1 where st1: "(if has (ev_what ev) NGX_EVENT_READING then recv_cb K st (ev_fd ev) (ev_arg ev) else Some (0, st)) = Some (r1, st1)"
      "keeps e st st1"
    using recv_cb_keeps [OF K ev(1,2), of "ev_arg ev"] fd [OF ev(2)] keeps_refl [OF ev(1)] by (cases "has (ev_what ev) NGX_EVENT_READING") auto
  obtain ev1 where ev1: "nt_events st1 e = Some ev1" "conn e ev1" using keeps_conn [OF st1(2) ev(1,2)] by blast
  obtain r2 st2 where st2: "(if has (ev_what ev1) NGX_EVENT_WRITING then send_cb K st1 (ev_fd ev1) (ev_arg ev1) else Some (r1, st1)) = Some (r2, st2)"
      "keeps e st1 st2"
    using send_cb_keeps [OF ev1, of "ev_arg ev1" K] fd [OF ev1(2)] keeps_refl [OF ev1(1)] by (cases "has (ev_what ev1) NGX_EVENT_WRITING") auto
  have k2: "keeps e st st2" using keeps_trans [OF st1(2) st2(2)] .
  obtain ev2 where ev2: "nt_events st2 e = Some ev2" "conn e ev2" using keeps_conn [OF k2 ev(1,2)] by blast
  note run = client_handler_def ev(1) st1(1) ev1(1) st2(1) ev2(1)
  show ?thesis
  proof (cases "has (ev_what ev2) NGX_EVENT_TIMEOUT")
    case False
    then have "client_handler K e st = Some (r2, st2)" by (simp add: run)
    moreover have "nt_events st2 = (nt_events st)(e \<mapsto> ev2)" using k2 ev2(1) by (auto simp: keeps_def)
    ultimately show ?thesis using keeps_inv [OF inv k2] k2 ev2(2) unfolding keeps_def by blast
  next
    case True
    obtain r3 st3 where st3: "timeout_cb K st2 (ev_fd ev2) (ev_last_active ev2) = (r3, st3)" "keeps e st2 st3"
      using timeout_cb_keeps [OF ev2(1)] by blast
    have k3: "keeps e st st3" using keeps_trans [OF k2 st3(2)] .
    obtain ev3 where ev3: "nt_events st3 e = Some ev3" "conn e ev3" using keeps_conn [OF k3 ev(1,2)] by blast
    have same: "nt_msec st3 = nt_msec st" "nt_events st3 = (nt_events st)(e \<mapsto> ev3)" using k3 ev3(1) by (auto simp: keeps_def)
    obtain r4 st4 ev4 where st4: "ngx_event_add K st3 (NGX_EVENT_READING OR NGX_EVENT_TIMEOUT) KEEPALIVE_INTVAL_MSEC e = Some (r4, st4)"
        "timers_inv b E st4 (place timer_less (node_of e, nt_msec st + KEEPALIVE_INTVAL_MSEC) xs)" "nt_msec st4 = nt_msec st"
        "nt_events st4 = (nt_events st3)(e \<mapsto> ev4)" "conn e ev4"
      using event_add_timeout [OF keeps_inv [OF inv k3] ev3 ev(3) e flag_tests(3), of KEEPALIVE_INTVAL_MSEC K] key same by auto
    have "client_handler K e st = Some (r3, st4)" using True st3(1) st4(1) fd [OF ev2(2)] by (simp add: run)
    moreover have "nt_events st4 = (nt_events st)(e \<mapsto> ev4)" using st4(4) same by simp
    ultimately show ?thesis using st4(2,3,5) by blast
  qed
qed

definition server_inv :: "nat set \<Rightarrow> 'k ngx_state \<Rightarrow> bool" where
  "server_inv E st \<longleftrightarrow> (\<forall>e \<in> E. \<exists>ev. nt_events st e = Some ev \<and> conn e ev)"

lemma filter_place: "\<not> P x \<Longrightarrow> filter P (place lt x xs) = filter P xs"
proof -
  assume "\<not> P x"
  then have "filter P (place lt x xs) = filter P (takeWhile (\<lambda>y. \<not> lt (snd x) (snd y)) xs @ dropWhile (\<lambda>y. \<not> lt (snd x) (snd y)) xs)"
    unfolding place_def filter_append by simp
  then show ?thesis by simp
qed

lemma expire_event_conn:
  assumes "server_inv E st" and "expire_event st e = Some st'"
  shows "server_inv E st'"
proof -
  obtain ev where ev: "nt_events st e = Some ev" and
    st': "nt_events st' = (nt_events st)(e \<mapsto> ev\<lparr>ev_timer_set := 0, ev_timedout := ev_timedout ev + 1, ev_what := ev_what ev OR NGX_EVENT_TIMEOUT\<rparr>)"
    using assms(2) by (auto simp: expire_event_def unset_timer_def bind_eq_Some_conv split_def)
  have "conn a (ev\<lparr>ev_timer_set := 0, ev_timedout := ev_timedout ev + 1, ev_what := ev_what ev OR NGX_EVENT_TIMEOUT\<rparr>) = conn a ev" for a
    by (simp add: conn_def)
  then show ?thesis using assms(1) ev unfolding server_inv_def st' by auto
qed

lemma server_handler_ok:
  fixes K :: "'k kernel"
  assumes K: "short_reads K" and key: "now + KEEPALIVE_INTVAL_MSEC \<in> window b"
  shows "handler_ok b E now (server_inv E) (server_call K)"
  unfolding handler_ok_def
proof (intro conjI allI impI)
  fix st :: "'k ngx_state" and xs e
  assume a: "timers_inv b E st xs \<and> server_inv E st \<and> nt_msec st = now \<and> e \<in> E \<and> node_of e \<notin> fst ` set xs"
  then obtain ev where ev: "nt_events st e = Some ev" "conn e ev" by (auto simp: server_inv_def)
  obtain r st' xs' ev' where h: "client_handler K e st = Some (r, st')" "timers_inv b E st' xs'" "nt_msec st' = nt_msec st"
      "nt_events st' = (nt_events st)(e \<mapsto> ev')" "conn e ev'"
      "xs' = xs \<or> xs' = place timer_less (node_of e, nt_msec st + KEEPALIVE_INTVAL_MSEC) xs"
    using client_handler_ok [OF K _ ev, of b E xs] a key by blast
  have "ev_handler ev = Client_Handler" using ev(2) by (simp add: conn_def)
  then have "server_call K e st = Some st'" using ev(1) h(1) by (simp add: server_call_def)
  moreover have "server_inv E st'" using a h(4,5) by (auto simp: server_inv_def)
  moreover have "\<not> due now (node_of e, now + KEEPALIVE_INTVAL_MSEC)" by (simp add: due_def KEEPALIVE_INTVAL_MSEC_def)
  then have "filter (due now) xs' = filter (due now) xs" using h(6) a by (auto simp: filter_place)
  ultimately show "\<exists>st' xs'. server_call K e st = Some st' \<and> timers_inv b E st' xs' \<and> server_inv E st' \<and>
      nt_msec st' = now \<and> filter (due now) xs' = filter (due now) xs"
    using h(2,3) a by auto
next
  fix st e and st' :: "'k ngx_state"
  assume "server_inv E st \<and> expire_event st e = Some st'"
  then show "server_inv E st'" using expire_event_conn by blast
qed

section \<open>Properties of the server\<close>

definition demo_conn :: "nat \<Rightarrow> int \<Rightarrow> ngx_event" where
  "demo_conn e ts = \<lparr>ev_fd = int e, ev_arg = 1, ev_what = NGX_EVENT_READING, ev_status = 1,
     ev_buffer = replicate BUFFER_LENGTH 0, ev_length = 0, ev_last_active = 0, ev_timer_set = ts, ev_timedout = 0,
     ev_handler = Client_Handler\<rparr>"

definition demo_state :: "u64 \<Rightarrow> int list ngx_state" where
  "demo_state now = \<lparr>nt_heap = demo_heap,
     nt_tree = \<lparr>rbt_root = 2, rbt_sentinel = 1, rbt_insert = ngx_rbtree_insert_timer_value\<rparr>,
     nt_events = [0 \<mapsto> demo_conn 0 1, 1 \<mapsto> demo_conn 1 1, 2 \<mapsto> demo_conn 2 1, 3 \<mapsto> (demo_conn 3 0)\<lparr>ev_what := NGX_EVENT_READING OR NGX_EVENT_TIMEOUT\<rparr>],
     nt_msec = now, ns_epfd = 7, ns_kernel = []\<rparr>"

lemma demo_state_inv: "timers_inv 0 {0, 1, 2, 3} (demo_state now) [(3, 3), (2, 5), (4, 9)]"
proof -
  have "rb_contents timer_less (window 0) (node_of ` {0, 1, 2, 3}) (demo_heap, nt_tree (demo_timers now)) [(3, 3), (2, 5), (4, 9)]"
    using demo_timers_inv [of now, unfolded timers_inv_def, THEN conjunct1] by (simp add: demo_timers_def)
  then show ?thesis
    by (auto simp: timers_inv_def demo_timers_def demo_state_def SENTINEL_def demo_conn_def node_of_def split: if_splits)
qed

lemma demo_server_inv: "server_inv {0, 1, 2, 3} (demo_state now)"
  by (simp add: server_inv_def demo_state_def demo_conn_def conn_def)

lemma demo_short_reads: "short_reads demo_kernel"
  by (simp add: short_reads_def demo_kernel_def BUFFER_LENGTH_def)

text \<open>
  C12. Expiry in the server. When no read fills the whole buffer, the loop that expires timers
  returns for the handlers of the server: every connection whose timer is due is handled
  exactly once, in the order of the timers, with no invalid access; afterwards no timer is
  due (a connection that is handled gets a new timer 5 seconds ahead or none), and timers and
  connections are consistent.
\<close>

theorem server_expiry:
  assumes "short_reads K" and "timers_inv b E st xs" and "server_inv E st"
    and "nt_msec st \<in> window b" and "nt_msec st + KEEPALIVE_INTVAL_MSEC \<in> window b"
  shows "\<exists>st' xs'. ngx_event_expire_timers (server_call K) st = Some st' \<and>
    fire_all (server_call K) (map (\<lambda>x. event_of (fst x)) (filter (due (nt_msec st)) xs)) st = Some st' \<and>
    timers_inv b E st' xs' \<and> server_inv E st' \<and> nt_msec st' = nt_msec st \<and> (\<forall>x \<in> set xs'. \<not> due (nt_msec st) x)"
  using expire_ok [OF server_handler_ok [OF assms(1,5)] assms(2,3) refl assms(4)] .

theorem server_expiry_witness:
  "\<exists>st' xs'. ngx_event_expire_timers (server_call demo_kernel) (demo_state 6) = Some st' \<and>
    fire_all (server_call demo_kernel) [1, 0] (demo_state 6) = Some st' \<and>
    timers_inv 0 {0, 1, 2, 3} st' xs' \<and> (\<forall>x \<in> set xs'. \<not> due 6 x)"
proof -
  have "nt_msec (demo_state 6) = 6" "6 \<in> window 0" "6 + KEEPALIVE_INTVAL_MSEC \<in> window 0"
    by (simp_all add: demo_state_def window_def KEEPALIVE_INTVAL_MSEC_def)
  moreover have "map (\<lambda>x. event_of (fst x)) (filter (due 6) [(3, 3), (2, 5), (4, 9)]) = [1, 0]"
    by (simp add: due_def event_of_def)
  ultimately show ?thesis
    using server_expiry [OF demo_short_reads demo_state_inv demo_server_inv, of 6] by auto
qed

text \<open>
  C13. The keep-alive check closes idle connections too early. The flag \<open>NGX_EVENT_READING\<close> says
  both that the event is interested in input and that input has arrived. When the timer of
  an idle connection expires, the handler therefore calls \<open>recv\<close> although there is nothing to
  read; the error it reports on the non-blocking socket makes the handler close the
  connection, whatever the time since its last activity, and then sets the timer again and
  registers the closed descriptor.
\<close>

theorem idle_timeout_closes:
  assumes "timers_inv b E st xs" and "e \<in> E" and "node_of e \<notin> fst ` set xs"
    and "nt_events st e = Some ev" and "conn e ev" and "ev_what ev = NGX_EVENT_READING OR NGX_EVENT_TIMEOUT"
    and "k_recv K (int e) BUFFER_LENGTH (ns_kernel st) = ((-1, []), k1)"
    and "nt_msec st - ev_last_active ev < KEEPALIVE_INTVAL_MSEC * KEEPALIVE_INTVAL_PROBES"
    and "nt_msec st + KEEPALIVE_INTVAL_MSEC \<in> window b"
  shows "\<exists>st' k2 op. client_handler K e st = Some (0, st') \<and>
    ns_kernel st' = snd (k_epoll_ctl K (ns_epfd st) op (int e) EPOLLIN e (k_close K (int e) k2)) \<and>
    timers_inv b E st' (place timer_less (node_of e, nt_msec st + KEEPALIVE_INTVAL_MSEC) xs)"
proof -
  obtain r k c where del: "ngx_event_del K (st\<lparr>ns_kernel := k1, nt_events := (nt_events st)(e \<mapsto> ev)\<rparr>) e =
      Some (r, st\<lparr>nt_events := (nt_events st)(e \<mapsto> ev\<lparr>ev_status := c\<rparr>), ns_kernel := k\<rparr>)"
    using event_del_run [of "st\<lparr>ns_kernel := k1, nt_events := (nt_events st)(e \<mapsto> ev)\<rparr>" e ev K] by auto
  let ?ev = "ev\<lparr>ev_status := c\<rparr>"
  let ?st = "st\<lparr>nt_events := (nt_events st)(e \<mapsto> ?ev), ns_kernel := k_close K (int e) k\<rparr>"
  have fd: "ev_fd ev = int e" "ev_arg ev \<noteq> 0" using assms(5) by (simp_all add: conn_def)
  have upd: "upd_event (st\<lparr>ns_kernel := k1\<rparr>) e (\<lambda>ev. ev\<lparr>ev_buffer := fill_buffer [] (ev_buffer ev)\<rparr>) =
      Some (st\<lparr>ns_kernel := k1, nt_events := (nt_events st)(e \<mapsto> ev)\<rparr>)"
    using assms(4) by (simp add: upd_event_def fill_buffer_def)
  have recv: "recv_cb K st (int e) (ev_arg ev) = Some (-1, ?st)"
    by (simp add: recv_cb_def ev_index_def assms(7) upd del close_ev_def fd)
  have keep: "keeps e st ?st" using assms(4,5) by (auto simp: keeps_def conn_def)
  have ev': "nt_events ?st e = Some ?ev" "conn e ?ev" using assms(5) by (simp_all add: conn_def)
  have flags: "has (NGX_EVENT_READING OR NGX_EVENT_TIMEOUT) NGX_EVENT_READING"
      "\<not> has (NGX_EVENT_READING OR NGX_EVENT_TIMEOUT) NGX_EVENT_WRITING"
    by (simp_all add: has_def NGX_EVENT_READING_def NGX_EVENT_WRITING_def NGX_EVENT_TIMEOUT_def)
  obtain r' st' op where st': "ngx_event_add K ?st (NGX_EVENT_READING OR NGX_EVENT_TIMEOUT) KEEPALIVE_INTVAL_MSEC e = Some (r', st')"
      "timers_inv b E st' (place timer_less (node_of e, nt_msec st + KEEPALIVE_INTVAL_MSEC) xs)"
      "ns_kernel st' = snd (k_epoll_ctl K (ns_epfd st) op (int e) EPOLLIN e (k_close K (int e) k))"
    using event_add_timeout [OF keeps_inv [OF assms(1) keep] ev' assms(2,3) flag_tests(3), of KEEPALIVE_INTVAL_MSEC K] assms(9) flags
    by auto
  have "timeout_cb K ?st (int e) (ev_last_active ev) = (0, ?st)"
    using assms(8) by (simp add: timeout_cb_def Let_def not_le)
  then have "client_handler K e st = Some (0, st')"
    using assms(4,6) recv flags flag_tests(3) fd st'(1) by (simp add: client_handler_def)
  with st' show ?thesis by blast
qed

theorem idle_timeout_closes_witness:
  "\<exists>st' k2. client_handler demo_kernel 3 (demo_state 6) = Some (0, st') \<and> ns_kernel st' = 3 # k2"
proof -
  have ev: "nt_events (demo_state 6) 3 = Some ((demo_conn 3 0)\<lparr>ev_what := NGX_EVENT_READING OR NGX_EVENT_TIMEOUT\<rparr>)" (is "_ = Some ?ev")
    and now: "nt_msec (demo_state 6) = 6" "ns_kernel (demo_state 6) = []"
    by (simp_all add: demo_state_def)
  have "\<exists>st' k2 op. client_handler demo_kernel 3 (demo_state 6) = Some (0, st') \<and>
      ns_kernel st' = snd (k_epoll_ctl demo_kernel (ns_epfd (demo_state 6)) op (int 3) EPOLLIN 3 (k_close demo_kernel (int 3) k2)) \<and>
      timers_inv 0 {0, 1, 2, 3} st' (place timer_less (node_of 3, nt_msec (demo_state 6) + KEEPALIVE_INTVAL_MSEC) [(3, 3), (2, 5), (4, 9)])"
    by (rule idle_timeout_closes [OF demo_state_inv _ _ ev, where ?k1.0 = "[]"])
      (simp_all add: now node_of_def demo_conn_def conn_def demo_kernel_def window_def KEEPALIVE_INTVAL_MSEC_def KEEPALIVE_INTVAL_PROBES_def)
  then show ?thesis by (auto simp: demo_kernel_def)
qed

text \<open>
  A read that fills the whole buffer, which \<open>recv\<close> may do since it is asked for
  \<open>BUFFER_LENGTH\<close> bytes, makes \<open>recv_cb\<close> write the terminating zero behind the buffer.
\<close>

lemma recv_full_buffer:
  assumes "nt_events st e = Some ev" and "length (ev_buffer ev) = BUFFER_LENGTH"
    and "k_recv K (int e) BUFFER_LENGTH (ns_kernel st) = ((int BUFFER_LENGTH, data), k)" and "length data = BUFFER_LENGTH"
  shows "recv_cb K st (int e) arg = None"
proof -
  let ?ev = "ev\<lparr>ev_buffer := fill_buffer data (ev_buffer ev)\<rparr>"
  let ?st = "st\<lparr>ns_kernel := k, nt_events := (nt_events st)(e \<mapsto> ?ev)\<rparr>"
  have "upd_event (st\<lparr>ns_kernel := k\<rparr>) e (\<lambda>ev. ev\<lparr>ev_buffer := fill_buffer data (ev_buffer ev)\<rparr>) = Some ?st"
    using assms(1) by (simp add: upd_event_def)
  moreover obtain r k' c where "ngx_event_del K ?st e = Some (r, ?st\<lparr>nt_events := (nt_events ?st)(e \<mapsto> ?ev\<lparr>ev_status := c\<rparr>), ns_kernel := k'\<rparr>)"
    using event_del_run [of ?st e ?ev K] by auto
  moreover have "terminate (ev_buffer ?ev) (int BUFFER_LENGTH) = None"
    using assms(2,4) by (simp add: terminate_def fill_buffer_def)
  ultimately show ?thesis using assms(3) by (simp add: recv_cb_def ev_index_def BUFFER_LENGTH_def)
qed

text \<open>
  \<open>accept_cb\<close> indexes the array of events with the descriptor without a check: a descriptor of
  \<open>MAX_EPOLL_EVENTS\<close> or more is an access outside the array when some entry is free, and when none
  is free the final message reads the entry behind the array.
\<close>

lemma accept_out_of_bounds:
  assumes "dom (nt_events st) = {..< MAX_EPOLL_EVENTS}" and "arg \<noteq> 0"
    and "k_accept K fd (ns_kernel st) = (int c, k)" and "fst (k_set_nonblock K (int c) k) \<ge> 0"
    and "MAX_EPOLL_EVENTS \<le> c \<or> (\<forall>e ev. nt_events st e = Some ev \<longrightarrow> ev_status ev \<noteq> 0)"
  shows "accept_cb K st fd arg = None"
proof -
  have free: "\<exists>i. find_free (st\<lparr>ns_kernel := k\<rparr>) j = Some i \<and> i \<le> MAX_EPOLL_EVENTS \<and>
      ((\<forall>e ev. nt_events st e = Some ev \<longrightarrow> ev_status ev \<noteq> 0) \<longrightarrow> i = MAX_EPOLL_EVENTS)" if "j \<le> MAX_EPOLL_EVENTS" for j
    using that
  proof (induction "MAX_EPOLL_EVENTS - j" arbitrary: j)
    case 0
    then show ?case by simp
  next
    case (Suc n)
    then have j: "j < MAX_EPOLL_EVENTS" by simp
    then obtain ev where ev: "nt_events st j = Some ev" using assms(1) by auto
    have "n = MAX_EPOLL_EVENTS - Suc j" "Suc j \<le> MAX_EPOLL_EVENTS" using Suc.hyps(2) j by auto
    from Suc.hyps(1) [OF this] j ev show ?case by (subst find_free.simps) auto
  qed
  have out: "nt_events st MAX_EPOLL_EVENTS = None" using assms(1) by auto
  obtain i where i: "find_free (st\<lparr>ns_kernel := k\<rparr>) 0 = Some i" "i \<le> MAX_EPOLL_EVENTS"
      "(\<forall>e ev. nt_events st e = Some ev \<longrightarrow> ev_status ev \<noteq> 0) \<longrightarrow> i = MAX_EPOLL_EVENTS"
    using free [of 0] by blast
  show ?thesis
  proof (cases "i = MAX_EPOLL_EVENTS")
    case True
    then show ?thesis using assms(2,3) i(1) out by (simp add: accept_cb_def del: find_free.simps)
  next
    case False
    then have "MAX_EPOLL_EVENTS \<le> c" using assms(5) i(3) by blast
    then have "c \<notin> dom (nt_events st)" unfolding assms(1) by simp
    then have "nt_events st c = None" by (simp add: domIff)
    then show ?thesis using assms(2-4) i(1) False
      by (simp add: accept_cb_def split_def Let_def ev_index_def ngx_event_set_def upd_event_def not_less del: find_free.simps)
  qed
qed

definition clock_ok :: "u64 \<Rightarrow> 'k kernel \<Rightarrow> bool" where
  "clock_ok b K \<longleftrightarrow> (\<forall>k. case k_gettimeofday K k of ((sec, usec), k') \<Rightarrow>
     sec * 1000 + usec div 1000 \<in> window b \<and> sec * 1000 + usec div 1000 + KEEPALIVE_INTVAL_MSEC \<in> window b)"

lemma time_update_inv:
  "timers_inv b E (ngx_time_update K st) xs = timers_inv b E st xs" "server_inv E (ngx_time_update K st) = server_inv E st"
  "timers_inv b E (st\<lparr>ns_kernel := k\<rparr>) xs = timers_inv b E st xs" "server_inv E (st\<lparr>ns_kernel := k\<rparr>) = server_inv E st"
  by (simp_all add: timers_inv_def server_inv_def ngx_time_update_def split_def)

text \<open>
  C15. One iteration of the event loop in which no descriptor is ready. The loop waits for the
  time of the earliest timer, reads the clock and, when the clock has moved, expires timers:
  the iteration returns, keeps timers and connections consistent, and when the clock has
  moved no timer is due at the new time. Two conditions on the system calls: every \<open>recv\<close> returns
  less than a full buffer (\<open>short_reads\<close>; a full read overruns the buffer, lemma \<open>recv_full_buffer\<close>),
  and the readings of the clock, also with the keep-alive interval added, lie in one half of the range of the
  timer keys (\<open>clock_ok\<close>), so that the wrap-around order on keys is a linear order.
\<close>

theorem idle_iteration:
  assumes K: "short_reads K" "clock_ok b K" and inv: "timers_inv b E st xs" "server_inv E st"
    and idle: "\<And>tmo. fst (fst (k_epoll_wait K (ns_epfd st) tmo (ns_kernel st))) = 0"
  shows "\<exists>st' xs'. loop_body K (server_call K) st = Some st' \<and> timers_inv b E st' xs' \<and> server_inv E st' \<and>
    (nt_msec st' \<noteq> nt_msec st \<longrightarrow> (\<forall>x \<in> set xs'. \<not> due (nt_msec st') x))"
proof -
  obtain timer where timer: "ngx_event_find_timer st = Some timer" using find_timer_ok [OF inv(1)] by blast
  obtain evs k where wait: "k_epoll_wait K (ns_epfd st) (sint (ucast timer :: u32)) (ns_kernel st) = ((0, evs), k)"
    using idle [of "sint (ucast timer :: u32)"] by (metis prod.collapse)
  let ?st = "ngx_time_update K (st\<lparr>ns_kernel := k\<rparr>)"
  have inv': "timers_inv b E ?st xs" "server_inv E ?st" using inv by (simp_all add: time_update_inv)
  have body: "loop_body K (server_call K) st =
      (if nt_msec ?st - nt_msec st \<noteq> 0 then ngx_event_expire_timers (server_call K) ?st else Some ?st)"
    by (simp add: loop_body_def timer wait Let_def)
  have now: "nt_msec ?st \<in> window b" "nt_msec ?st + KEEPALIVE_INTVAL_MSEC \<in> window b"
    using K(2) [unfolded clock_ok_def, THEN spec, of k] by (simp_all add: ngx_time_update_def split_def)
  show ?thesis
  proof (cases "nt_msec ?st = nt_msec st")
    case True
    then show ?thesis using body inv' by (intro exI [of _ ?st] exI [of _ xs]) simp
  next
    case False
    then show ?thesis
      using body expire_ok [OF server_handler_ok [OF K(1) now(2)] inv' refl now(1)] by auto
  qed
qed

theorem idle_iteration_witness:
  "\<exists>st' xs'. loop_body (demo_kernel\<lparr>k_gettimeofday := (\<lambda>k. ((0, 6000), k))\<rparr>) (server_call (demo_kernel\<lparr>k_gettimeofday := (\<lambda>k. ((0, 6000), k))\<rparr>))
      (demo_state 0) = Some st' \<and> timers_inv 0 {0, 1, 2, 3} st' xs'"
proof -
  let ?K = "demo_kernel\<lparr>k_gettimeofday := (\<lambda>k. ((0, 6000), k))\<rparr>"
  have "short_reads ?K" using demo_short_reads by (simp add: short_reads_def)
  moreover have "clock_ok 0 ?K" by (simp add: clock_ok_def window_def KEEPALIVE_INTVAL_MSEC_def)
  moreover have "fst (fst (k_epoll_wait ?K (ns_epfd (demo_state 0)) tmo (ns_kernel (demo_state 0)))) = 0" for tmo
    by (simp add: demo_kernel_def)
  ultimately show ?thesis using idle_iteration [OF _ _ demo_state_inv demo_server_inv, of ?K 0] by auto
qed

end
