(* ===== verification/Heartbeat_Client.thy ===== *)
theory Heartbeat_Client
  imports Reactor
begin

text \<open>
  The heartbeat client of \<open>src/heartbeat/ngx_client.c\<close>: callbacks, handler and start-up. The
  names of the code are prefixed with \<open>client_\<close>, since the server has callbacks of the same
  names. The global variable \<open>ngx_event_timer_rbtree\<close> is zero before
  \<open>ngx_event_timer_init\<close>: null pointers, and a null function pointer whose call is \<^const>\<open>None\<close>.
\<close>

unbundle bit_operations_syntax

section \<open>Callbacks\<close>

definition CLIENT_KEEPALIVE_INTVAL_MSEC :: u64 where "CLIENT_KEEPALIVE_INTVAL_MSEC = 5000"

definition client_recv_cb :: "'k kernel \<Rightarrow> 'k ngx_state \<Rightarrow> int \<Rightarrow> nat \<Rightarrow> (int \<times> 'k ngx_state) option" where
  "client_recv_cb K st fd arg = do {
     e \<leftarrow> ev_index fd;
     let ((len, data), k) = k_recv K fd BUFFER_LENGTH (ns_kernel st);
     st1 \<leftarrow> upd_event (st\<lparr>ns_kernel := k\<rparr>) e (\<lambda>ev. ev\<lparr>ev_buffer := fill_buffer data (ev_buffer ev)\<rparr>);
     (r, st2) \<leftarrow> ngx_event_del K st1 e;
     if len > 0 then do {
       ev \<leftarrow> nt_events st2 e;
       buf \<leftarrow> terminate (ev_buffer ev) len;
       st3 \<leftarrow> upd_event st2 e (\<lambda>ev. ev\<lparr>ev_length := len, ev_buffer := buf, ev_last_active := nt_msec st2\<rparr>);
       st4 \<leftarrow> ngx_event_set st3 e fd Handler arg;
       (r, st5) \<leftarrow> ngx_event_add K st4 (NGX_EVENT_WRITING OR NGX_EVENT_TIMEOUT) CLIENT_KEEPALIVE_INTVAL_MSEC e;
       Some (len, st5)
     } else do {
       st3 \<leftarrow> close_ev K st2 e;
       Some (len, st3)
     }
   }"

definition client_send_cb :: "'k kernel \<Rightarrow> 'k ngx_state \<Rightarrow> int \<Rightarrow> nat \<Rightarrow> (int \<times> 'k ngx_state) option" where
  "client_send_cb K st fd arg = do {
     e \<leftarrow> ev_index fd;
     ev \<leftarrow> nt_events st e;
     data \<leftarrow> (if 0 \<le> ev_length ev \<and> nat (ev_length ev) \<le> length (ev_buffer ev)
              then Some (take (nat (ev_length ev)) (ev_buffer ev)) else None);
     let (len, k) = k_send K fd data (ns_kernel st);
     let st1 = st\<lparr>ns_kernel := k\<rparr>;
     if len > 0 then do {
       (r, st2) \<leftarrow> ngx_event_del K st1 e;
       st3 \<leftarrow> ngx_event_set st2 e fd Handler arg;
       (r, st4) \<leftarrow> ngx_event_add K st3 (NGX_EVENT_READING OR NGX_EVENT_TIMEOUT) CLIENT_KEEPALIVE_INTVAL_MSEC e;
       Some (len, st4)
     } else do {
       st2 \<leftarrow> close_ev K st1 e;
       (r, st3) \<leftarrow> ngx_event_del K st2 e;
       Some (len, st3)
     }
   }"

text \<open>\<open>timeout_cb\<close> only prints; sending a heartbeat is marked as to be done.\<close>

definition client_timeout_cb :: "'k ngx_state \<Rightarrow> int \<Rightarrow> u64 \<Rightarrow> int \<times> 'k ngx_state" where
  "client_timeout_cb st fd last_active = (0, st)"

section \<open>Handler and start-up\<close>

definition client_event_handler :: "'k kernel \<Rightarrow> nat \<Rightarrow> 'k ngx_state \<Rightarrow> (int \<times> 'k ngx_state) option" where
  "client_event_handler K e st = do {
     ev \<leftarrow> nt_events st e;
     (ret1, st1) \<leftarrow>
       (if has (ev_what ev) NGX_EVENT_READING then client_recv_cb K st (ev_fd ev) (ev_arg ev) else Some (0, st));
     ev1 \<leftarrow> nt_events st1 e;
     (ret2, st2) \<leftarrow>
       (if has (ev_what ev1) NGX_EVENT_WRITING then client_send_cb K st1 (ev_fd ev1) (ev_arg ev1) else Some (ret1, st1));
     ev2 \<leftarrow> nt_events st2 e;
     if has (ev_what ev2) NGX_EVENT_TIMEOUT then do {
       let (ret3, st3) = client_timeout_cb st2 (ev_fd ev2) (ev_last_active ev2);
       if ev_arg ev2 = 0 then Some (-1, st3)
       else do {
         st4 \<leftarrow> upd_event st3 e (\<lambda>ev. ev\<lparr>ev_timer_set := 0\<rparr>);
         (r, st5) \<leftarrow> ngx_event_add K st4 (NGX_EVENT_READING OR NGX_EVENT_TIMEOUT) CLIENT_KEEPALIVE_INTVAL_MSEC e;
         Some (ret3, st5)
       }
     } else Some (ret2, st2)
   }"

definition client_call :: "'k kernel \<Rightarrow> nat \<Rightarrow> 'k ngx_state \<Rightarrow> 'k ngx_state option" where
  "client_call K e st = do {
     ev \<leftarrow> nt_events st e;
     (r, st1) \<leftarrow> (case ev_handler ev of Handler \<Rightarrow> client_event_handler K e st | _ \<Rightarrow> None);
     Some st1
   }"

text \<open>\<open>main\<close> from the connected socket to the call of the event loop.\<close>

definition client_start ::
  "'k kernel \<Rightarrow> ((nat \<Rightarrow> ngx_event) \<times> (nat \<Rightarrow> rbnode)) option \<Rightarrow> int \<Rightarrow> nat \<Rightarrow> 'k ngx_state \<Rightarrow> 'k ngx_state option" where
  "client_start K memory sockfd reactor st = do {
     let st1 = ngx_time_update K st;
     let (r, st2) = ngx_reactor_init K reactor memory st1;
     e \<leftarrow> ev_index sockfd;
     st3 \<leftarrow> ngx_event_set st2 e sockfd Handler reactor;
     (r, st4) \<leftarrow> ngx_event_add K st3 (NGX_EVENT_READING OR NGX_EVENT_TIMEOUT) CLIENT_KEEPALIVE_INTVAL_MSEC e;
     Some st4
   }"

definition client_main ::
  "nat \<Rightarrow> 'k kernel \<Rightarrow> ((nat \<Rightarrow> ngx_event) \<times> (nat \<Rightarrow> rbnode)) option \<Rightarrow> int \<Rightarrow> nat \<Rightarrow> 'k ngx_state \<Rightarrow> 'k loop_result option" where
  "client_main n K memory sockfd reactor st = do {
     st1 \<leftarrow> client_start K memory sockfd reactor st;
     res \<leftarrow> ngx_reactor_loop n reactor True K (client_call K) st1;
     case res of
       Running st2 \<Rightarrow> Some (Running st2)
     | Returned r st2 \<Rightarrow> do {
         st3 \<leftarrow> ngx_reactor_destory K reactor st2;
         Some (Returned 0 (st3\<lparr>ns_kernel := k_close K sockfd (ns_kernel st3)\<rparr>))
       }
   }"

section \<open>The first timer\<close>

definition zero_tree :: rbtree where
  "zero_tree = \<lparr>rbt_root = NULL, rbt_sentinel = NULL, rbt_insert = (\<lambda>h temp node sentinel. None)\<rparr>"

text \<open>A timer added to the zero tree becomes its root, with null pointers as its children.\<close>

lemma add_timer_zero:
  assumes "nt_tree st = zero_tree" and "nt_events st e = Some ev" and "ev_timer_set ev = 0" and "nt_heap st (node_of e) = Some n"
  shows "ngx_event_add_timer st e timer = Some (st\<lparr>
    nt_heap := (nt_heap st)(node_of e \<mapsto> \<lparr>rb_key = nt_msec st + timer, rb_left = NULL, rb_right = NULL, rb_parent = NULL, rb_color = False\<rparr>),
    nt_tree := zero_tree\<lparr>rbt_root := node_of e\<rparr>, nt_events := (nt_events st)(e \<mapsto> ev\<lparr>ev_timer_set := 1\<rparr>)\<rparr>)"
proof -
  have "ngx_rbtree_insert ((nt_heap st)(node_of e \<mapsto> n\<lparr>rb_key := nt_msec st + timer\<rparr>)) zero_tree (node_of e) =
      Some ((nt_heap st)(node_of e \<mapsto> \<lparr>rb_key = nt_msec st + timer, rb_left = NULL, rb_right = NULL, rb_parent = NULL, rb_color = False\<rparr>),
        zero_tree\<lparr>rbt_root := node_of e\<rparr>)"
    by (cases n) (simp add: ngx_rbtree_insert_def zero_tree_def heap_exec Let_def)
  with assms show ?thesis by (simp add: ngx_event_add_timer_def arm_timer_def Let_def heap_exec)
qed

text \<open>A node with null children in a tree with another sentinel cannot be deleted.\<close>

lemma delete_null_children:
  assumes "h a = Some \<lparr>rb_key = k, rb_left = NULL, rb_right = NULL, rb_parent = p, rb_color = c\<rparr>"
    and "rbt_sentinel t \<noteq> NULL" and "h NULL = None"
  shows "ngx_rbtree_delete h t a = None"
proof -
  have "ngx_rbtree_min h NULL (rbt_sentinel t) = Some NULL" by (subst ngx_rbtree_min.simps) simp
  then have "delete_choose h (rbt_sentinel t) a = None"
    using assms by (simp add: delete_choose_def rd_Some) (simp add: rd_def)
  then show ?thesis by (simp add: ngx_rbtree_delete_def Let_def)
qed

text \<open>\<open>ngx_event_add\<close> behind the timer changes nothing but the status of the event and the kernel.\<close>

lemma event_add_run:
  assumes "nt_events st e = Some ev" and "has what NGX_EVENT_TIMEOUT"
    and "ngx_event_add_timer (st\<lparr>nt_events := (nt_events st)(e \<mapsto> ev\<lparr>ev_what := ev_what ev OR what\<rparr>)\<rparr>) e timeout = Some st2"
    and "nt_events st2 e = Some ev2"
  shows "\<exists>r k c. ngx_event_add K st what timeout e =
    Some (r, st2\<lparr>nt_events := (nt_events st2)(e \<mapsto> ev2\<lparr>ev_status := c\<rparr>), ns_kernel := k\<rparr>)"
proof (cases "ev_status ev2 = 1")
  case True
  then have "ev2\<lparr>ev_status := 1\<rparr> = ev2" by simp
  then have same: "(nt_events st2)(e \<mapsto> ev2\<lparr>ev_status := 1\<rparr>) = nt_events st2" using assms(4) by (simp add: fun_upd_idem)
  obtain r k where ctl: "k_epoll_ctl K (ns_epfd st2) EPOLL_CTL_MOD (ev_fd ev2)
      ((if has what NGX_EVENT_READING then EPOLLIN else 0) OR (if has what NGX_EVENT_WRITING then EPOLLOUT else 0)) e (ns_kernel st2) = (r, k)"
    by (metis prod.exhaust)
  show ?thesis
    by (intro exI [of _ "if r < 0 then -1 else 0"] exI [of _ k] exI [of _ 1])
      (use True assms in \<open>simp add: ngx_event_add_def upd_event_def Let_def ctl same\<close>)
next
  case False
  with assms show ?thesis by (auto simp: ngx_event_add_def upd_event_def Let_def split_def)
qed

text \<open>
  C14. The first timer of the client is lost. \<open>main\<close> adds the timer of the connection before the
  event loop initialises the timer tree. After the initialisation the event is still marked
  as having a timer, but the tree is empty, so that the loop waits without a limit; and when
  the client later sets the timer again, more than 300 ms from the old one, the deletion of
  the old timer follows a null pointer.
\<close>

theorem client_timer_lost:
  assumes memory: "e < MAX_EPOLL_EVENTS" "ev_timer_set (evs e) = 0"
    and os: "fst (k_epoll_create K (ns_kernel (ngx_time_update K st))) > 0" and reactor: "reactor \<noteq> NULL"
    and globals: "nt_tree st = zero_tree" "nt_heap st SENTINEL = Some n" "nt_heap st NULL = None"
  defines "key \<equiv> nt_msec (ngx_time_update K st) + CLIENT_KEEPALIVE_INTVAL_MSEC"
  shows "\<exists>st1 st2 ev. client_start K (Some (evs, nodes)) (int e) reactor st = Some st1 \<and>
    ngx_event_timer_init st1 = Some st2 \<and> ngx_event_find_timer st2 = Some NGX_TIMER_INFINITE \<and>
    nt_events st2 e = Some ev \<and> ev_timer_set ev = 1 \<and>
    (\<forall>now. \<not> lazy (now + CLIENT_KEEPALIVE_INTVAL_MSEC) key \<longrightarrow>
       ngx_event_add_timer (st2\<lparr>nt_msec := now\<rparr>) e CLIENT_KEEPALIVE_INTVAL_MSEC = None)"
proof -
  obtain st0 where st0: "snd (ngx_reactor_init K reactor (Some (evs, nodes)) (ngx_time_update K st)) = st0"
      "nt_events st0 e = Some (evs e)" "nt_tree st0 = zero_tree" "nt_heap st0 (node_of e) = Some (nodes e)"
      "nt_heap st0 SENTINEL = Some n" "nt_heap st0 NULL = None" "nt_msec st0 = nt_msec (ngx_time_update K st)"
    using memory(1) os reactor globals
    by (simp add: ngx_reactor_init_def ngx_time_update_def split_def Let_def not_le node_of_def event_of_def SENTINEL_def)
  let ?ev = "(evs e)\<lparr>ev_fd := int e, ev_handler := Handler, ev_what := 0, ev_arg := reactor, ev_last_active := nt_msec st0\<rparr>"
  let ?what = "NGX_EVENT_READING OR NGX_EVENT_TIMEOUT"
  let ?st = "st0\<lparr>nt_events := (nt_events st0)(e \<mapsto> ?ev)\<rparr>" and ?ev1 = "?ev\<lparr>ev_what := ev_what ?ev OR ?what\<rparr>"
  let ?node = "\<lparr>rb_key = key, rb_left = NULL, rb_right = NULL, rb_parent = NULL, rb_color = False\<rparr>"
  have set: "ngx_event_set st0 e (int e) Handler reactor = Some ?st" using st0(2) by (simp add: ngx_event_set_def upd_event_def)
  let ?st1 = "?st\<lparr>nt_events := (nt_events ?st)(e \<mapsto> ?ev1)\<rparr>"
  let ?st2 = "?st1\<lparr>nt_heap := (nt_heap st0)(node_of e \<mapsto> ?node), nt_tree := zero_tree\<lparr>rbt_root := node_of e\<rparr>,
      nt_events := (nt_events ?st1)(e \<mapsto> ?ev1\<lparr>ev_timer_set := 1\<rparr>)\<rparr>"
  have "ngx_event_add_timer ?st1 e CLIENT_KEEPALIVE_INTVAL_MSEC = Some ?st2"
    using add_timer_zero [of ?st1 e ?ev1 "nodes e" CLIENT_KEEPALIVE_INTVAL_MSEC] st0 memory(2) by (simp add: key_def)
  moreover have "has ?what NGX_EVENT_TIMEOUT" by (simp add: has_def NGX_EVENT_READING_def NGX_EVENT_TIMEOUT_def)
  ultimately obtain r k c where add: "ngx_event_add K ?st ?what CLIENT_KEEPALIVE_INTVAL_MSEC e =
      Some (r, ?st2\<lparr>nt_events := (nt_events ?st2)(e \<mapsto> (?ev1\<lparr>ev_timer_set := 1\<rparr>)\<lparr>ev_status := c\<rparr>), ns_kernel := k\<rparr>)"
    using event_add_run [of ?st e ?ev ?what CLIENT_KEEPALIVE_INTVAL_MSEC ?st2 "?ev1\<lparr>ev_timer_set := 1\<rparr>" K] by auto
  let ?st3 = "?st2\<lparr>nt_events := (nt_events ?st2)(e \<mapsto> (?ev1\<lparr>ev_timer_set := 1\<rparr>)\<lparr>ev_status := c\<rparr>), ns_kernel := k\<rparr>"
  let ?tree = "\<lparr>rbt_root = SENTINEL, rbt_sentinel = SENTINEL, rbt_insert = ngx_rbtree_insert_timer_value\<rparr>"
  let ?h = "(nt_heap st0)(node_of e \<mapsto> ?node, SENTINEL \<mapsto> n\<lparr>rb_color := False\<rparr>)"
  let ?st4 = "?st3\<lparr>nt_heap := ?h, nt_tree := ?tree\<rparr>"
  have ne: "node_of e \<noteq> SENTINEL" "SENTINEL \<noteq> NULL" by (simp_all add: node_of_def SENTINEL_def)
  have start: "client_start K (Some (evs, nodes)) (int e) reactor st = Some ?st3"
    using st0(1) set add by (simp add: client_start_def split_def Let_def ev_index_def)
  have init: "ngx_event_timer_init ?st3 = Some ?st4"
    using st0(5) ne by (simp add: ngx_event_timer_init_def ngx_rbtree_init_def heap_exec)
  have "ngx_event_add_timer (?st4\<lparr>nt_msec := now\<rparr>) e CLIENT_KEEPALIVE_INTVAL_MSEC = None"
    if "\<not> lazy (now + CLIENT_KEEPALIVE_INTVAL_MSEC) key" for now
  proof -
    have "ngx_rbtree_delete ?h ?tree (node_of e) = None"
      by (rule delete_null_children) (use st0(6) ne in \<open>simp_all add: node_of_def\<close>)
    then show ?thesis using that ne
      by (simp add: ngx_event_add_timer_def ngx_event_del_timer_def unset_timer_def Let_def lazy_def rd_Some)
  qed
  then show ?thesis using start init
    by (intro exI [of _ ?st3] exI [of _ ?st4] exI [of _ "(?ev1\<lparr>ev_timer_set := 1\<rparr>)\<lparr>ev_status := c\<rparr>"])
      (simp add: ngx_event_find_timer_def)
qed

theorem client_timer_lost_witness:
  "\<exists>st1 st2. client_start demo_kernel (Some (\<lambda>_. demo_event 0 0, \<lambda>_. the (demo_heap 5))) 3 1
      \<lparr>nt_heap = [1 \<mapsto> the (demo_heap 1)], nt_tree = zero_tree, nt_events = Map.empty, nt_msec = 0, ns_epfd = 0, ns_kernel = []\<rparr> = Some st1 \<and>
    ngx_event_timer_init st1 = Some st2 \<and> ngx_event_find_timer st2 = Some NGX_TIMER_INFINITE \<and>
    ngx_event_add_timer (st2\<lparr>nt_msec := 1000\<rparr>) 3 5000 = None"
proof -
  let ?st = "\<lparr>nt_heap = [1 \<mapsto> the (demo_heap 1)], nt_tree = zero_tree, nt_events = Map.empty, nt_msec = 0, ns_epfd = 0, ns_kernel = []\<rparr> :: int list ngx_state"
  let ?key = "nt_msec (ngx_time_update demo_kernel ?st) + CLIENT_KEEPALIVE_INTVAL_MSEC"
  have "\<not> lazy (1000 + CLIENT_KEEPALIVE_INTVAL_MSEC) ?key"
    by (simp add: lazy_def ngx_abs_def NGX_TIMER_LAZY_DELAY_def ngx_time_update_def demo_kernel_def CLIENT_KEEPALIVE_INTVAL_MSEC_def)
  moreover have "\<exists>st1 st2 ev. client_start demo_kernel (Some (\<lambda>_. demo_event 0 0, \<lambda>_. the (demo_heap 5))) (int 3) 1 ?st = Some st1 \<and>
    ngx_event_timer_init st1 = Some st2 \<and> ngx_event_find_timer st2 = Some NGX_TIMER_INFINITE \<and>
    nt_events st2 3 = Some ev \<and> ev_timer_set ev = 1 \<and>
    (\<forall>now. \<not> lazy (now + CLIENT_KEEPALIVE_INTVAL_MSEC) ?key \<longrightarrow>
       ngx_event_add_timer (st2\<lparr>nt_msec := now\<rparr>) 3 CLIENT_KEEPALIVE_INTVAL_MSEC = None)"
    by (rule client_timer_lost)
      (simp_all add: MAX_EPOLL_EVENTS_def demo_event_def demo_kernel_def ngx_time_update_def SENTINEL_def)
  ultimately show ?thesis unfolding CLIENT_KEEPALIVE_INTVAL_MSEC_def by auto
qed

end
