(* ===== verification/Heartbeat_Fields.thy ===== *)
theory Heartbeat_Fields
  imports Byte_Words
begin

text \<open>
  The fields of a message in network byte order: \<open>src/heartbeat/ngx_filed.c\<close>. With the types of
  \<open>ngx_config.h\<close> \<open>ngx_int_t\<close> and \<open>ngx_long_t\<close> have 64 bits, \<open>ngx_short_t\<close> has 16; a signed value is
  its bit pattern. A buffer is the object it points into and an offset. The machine is
  little-endian, which the code tests for with the first byte of a variable that holds 42.
\<close>

unbundle bit_operations_syntax

definition ngx_get_filed_int :: "u8 list \<Rightarrow> int \<Rightarrow> u64 option" where
  "ngx_get_filed_int buffer off = do {
     bs \<leftarrow> memcpy (replicate 8 0) 0 buffer off 8;
     let filed = (le_word bs :: u64);
     Some (ucast (htonl (ucast filed)))
   }"

definition ngx_set_filed_int :: "u8 list \<Rightarrow> int \<Rightarrow> u64 \<Rightarrow> u8 list option" where
  "ngx_set_filed_int buffer off filed =
     (let filed = (ucast (htonl (ucast filed)) :: u64) in memcpy buffer off (le_bytes 8 filed) 0 8)"

definition ngx_get_filed_short :: "u8 list \<Rightarrow> int \<Rightarrow> u16 option" where
  "ngx_get_filed_short buffer off = do {
     bs \<leftarrow> memcpy (replicate 2 0) 0 buffer off 2;
     Some (htons (le_word bs))
   }"

definition ngx_set_filed_short :: "u8 list \<Rightarrow> int \<Rightarrow> u16 \<Rightarrow> u8 list option" where
  "ngx_set_filed_short buffer off filed = memcpy buffer off (le_bytes 2 (htons filed)) 0 2"

definition little_endian :: bool where
  "little_endian \<longleftrightarrow> le_bytes 8 (42 :: u64) ! 0 = 42"

definition ngx_get_filed_long :: "u8 list \<Rightarrow> int \<Rightarrow> u64 option" where
  "ngx_get_filed_long buffer off = do {
     bs \<leftarrow> memcpy (replicate 8 0) 0 buffer off 8;
     let filed = (le_word bs :: u64);
     Some (if little_endian
       then ucast (htonl (ucast (drop_bit 32 filed AND 0xffffffff))) OR
         push_bit 32 (ucast (htonl (ucast (filed AND 0xffffffff))))
       else filed)
   }"

definition ngx_set_filed_long :: "u8 list \<Rightarrow> int \<Rightarrow> u64 \<Rightarrow> u8 list option" where
  "ngx_set_filed_long buffer off filed =
     (let filed = (if little_endian
        then push_bit 32 (ucast (htonl (ucast (drop_bit 32 (push_bit 32 filed))))) OR ucast (htonl (ucast (drop_bit 32 filed)))
        else filed)
      in memcpy buffer off (le_bytes 8 filed) 0 8)"

section \<open>Lemmas\<close>

lemma memcpy_in: "off + length xs \<le> length buf \<Longrightarrow>
    memcpy buf (int off) xs 0 (int (length xs)) = Some (overwrite buf off xs)"
  by (subst memcpy_overwrite) auto

lemma memcpy_out:
  assumes "off + length xs \<le> length buf" and "length z = length xs" and "0 < length xs"
  shows "memcpy z 0 (overwrite buf off xs) (int off) (int (length xs)) = Some xs"
proof -
  have "take (length xs) (drop off (overwrite buf off xs)) = xs"
    using assms by (simp add: overwrite_def)
  then show ?thesis using assms by (simp add: memcpy_def)
qed

lemma little_endian_holds [simp]: little_endian
  by (simp add: little_endian_def le_bytes_nth)

lemma split_word: "push_bit 32 (ucast (ucast (drop_bit 32 w) :: u32)) OR ucast (ucast w :: u32) = (w :: u64)"
  by (rule bit_word_eqI) (auto simp: bit_simps)

lemma high_word: "(ucast (drop_bit 32 (push_bit 32 (ucast x) OR ucast y :: u64)) :: u32) = x" for x y :: u32
  by (rule bit_word_eqI) (auto simp: bit_simps dest: bit_imp_le_length)

lemma low_word: "(ucast (push_bit 32 (ucast x) OR ucast y :: u64) :: u32) = y" for x y :: u32
  by (rule bit_word_eqI) (auto simp: bit_simps)

lemma mask_words:
  "(ucast (w AND 0xffffffff :: u64) :: u32) = ucast w"
  "(ucast (drop_bit 32 (push_bit 32 w :: u64)) :: u32) = ucast w"
proof -
  have "(0xffffffff :: u64) = mask 32" by (simp add: mask_eq_exp_minus_1)
  then show "(ucast (w AND 0xffffffff :: u64) :: u32) = ucast w"
    by (simp only: take_bit_eq_mask [symmetric]) (intro bit_word_eqI, simp add: bit_simps)
  show "(ucast (drop_bit 32 (push_bit 32 w :: u64)) :: u32) = ucast w"
    by (rule bit_word_eqI) (auto simp: bit_simps)
qed

lemma le_bytes_pair: "le_bytes 8 (push_bit 32 (ucast x) OR ucast y :: u64) = le_bytes 4 y @ le_bytes 4 x" for x y :: u32
proof -
  let ?w = "push_bit 32 (ucast x) OR ucast y :: u64"
  have "le_bytes 8 ?w = le_bytes 4 ?w @ le_bytes 4 (drop_bit 32 ?w)"
    using le_bytes_split [of 4 4 ?w] by simp
  also have "le_bytes 4 ?w = le_bytes 4 y"
    using le_bytes_ucast [of 4 ?w, where 'b = 32] unfolding low_word by simp
  also have "le_bytes 4 (drop_bit 32 ?w) = le_bytes 4 x"
    using le_bytes_ucast [of 4 "drop_bit 32 ?w", where 'b = 32] unfolding high_word by simp
  finally show ?thesis .
qed

text \<open>The big-endian bytes of a word: the order on the wire.\<close>

definition be_bytes :: "nat \<Rightarrow> 'a::len word \<Rightarrow> u8 list" where
  "be_bytes n w = rev (le_bytes n w)"

lemma be_bytes_long: "be_bytes 8 w = be_bytes 4 (ucast (drop_bit 32 w) :: u32) @ be_bytes 4 (ucast w :: u32)"
  for w :: u64
  using le_bytes_pair [of "ucast (drop_bit 32 w)" "ucast w"] unfolding split_word by (simp add: be_bytes_def)

lemma set_short: "off + 2 \<le> length buf \<Longrightarrow> ngx_set_filed_short buf (int off) v = Some (overwrite buf off (be_bytes 2 v))"
  using memcpy_in [of off "le_bytes 2 (htons v)" buf] by (simp add: ngx_set_filed_short_def be_bytes_def)

lemma set_long: "off + 8 \<le> length buf \<Longrightarrow> ngx_set_filed_long buf (int off) v = Some (overwrite buf off (be_bytes 8 v))"
  using memcpy_in [of off "be_bytes 8 v" buf]
  by (simp add: ngx_set_filed_long_def mask_words le_bytes_pair be_bytes_long be_bytes_def [where n = 4])

lemma le_bytes_low: "le_bytes 8 (ucast y :: u64) = le_bytes 4 (y :: u32) @ [0, 0, 0, 0]"
  using le_bytes_pair [of 0 y] by (simp add: numeral_eq_Suc)

lemma set_int: "off + 8 \<le> length buf \<Longrightarrow>
    ngx_set_filed_int buf (int off) v = Some (overwrite buf off (be_bytes 4 (ucast v :: u32) @ [0, 0, 0, 0]))"
  using memcpy_in [of off "be_bytes 4 (ucast v :: u32) @ [0, 0, 0, 0]" buf]
  by (simp add: ngx_set_filed_int_def le_bytes_low be_bytes_def)

lemma get_short: "off + 2 \<le> length buf \<Longrightarrow> ngx_get_filed_short (overwrite buf off (be_bytes 2 v)) (int off) = Some v"
  using memcpy_out [of off "be_bytes 2 v" buf "replicate 2 0"]
  by (simp add: ngx_get_filed_short_def be_bytes_def)

lemma le_word_pair: "le_word (le_bytes 4 y @ le_bytes 4 x) = (push_bit 32 (ucast x) OR ucast y :: u64)" for x y :: u32
  by (simp flip: le_bytes_pair)

lemma be_bytes_htonl: "be_bytes 4 w = le_bytes 4 (htonl w)"
  by (simp add: be_bytes_def)

lemma get_long: "off + 8 \<le> length buf \<Longrightarrow> ngx_get_filed_long (overwrite buf off (be_bytes 8 v)) (int off) = Some v"
proof -
  assume "off + 8 \<le> length buf"
  then have "memcpy (replicate 8 0) 0 (overwrite buf off (be_bytes 8 v)) (int off) 8 = Some (be_bytes 8 v)"
    using memcpy_out [of off "be_bytes 8 v" buf "replicate 8 0"] by (simp add: be_bytes_def)
  moreover have "(le_word (be_bytes 8 v) :: u64) =
      push_bit 32 (ucast (htonl (ucast v))) OR ucast (htonl (ucast (drop_bit 32 v)))"
    unfolding be_bytes_long be_bytes_htonl le_word_pair ..
  ultimately show ?thesis
    unfolding ngx_get_filed_long_def mask_words by (simp only: bind.bind_lunit Let_def high_word low_word htonl_htonl)
      (use split_word [of v] in \<open>simp add: or.commute\<close>)
qed

lemma get_int: "off + 8 \<le> length buf \<Longrightarrow>
    ngx_get_filed_int (overwrite buf off (be_bytes 4 w @ [0, 0, 0, 0])) (int off) = Some (ucast (w :: u32))"
proof -
  assume "off + 8 \<le> length buf"
  then have "memcpy (replicate 8 0) 0 (overwrite buf off (be_bytes 4 w @ [0, 0, 0, 0])) (int off) 8 = Some (be_bytes 4 w @ [0, 0, 0, 0])"
    using memcpy_out [of off "be_bytes 4 w @ [0, 0, 0, 0]" buf "replicate 8 0"] by (simp add: be_bytes_def)
  moreover have "(le_word (be_bytes 4 w @ [0, 0, 0, 0]) :: u64) = ucast (htonl w)"
    unfolding be_bytes_htonl le_bytes_low [symmetric] by simp
  moreover have "(ucast (ucast (htonl w) :: u64) :: u32) = htonl w" by (rule bit_word_eqI) (simp add: bit_simps)
  ultimately show ?thesis by (simp add: ngx_get_filed_int_def)
qed

section \<open>Properties\<close>

text \<open>
  C24. Fields are written in network byte order and read back. Short and long fields keep every
  value. An integer field keeps a value below \<open>2 ^ 32\<close> only: \<open>ngx_int_t\<close> has 64 bits, the upper 32 are
  lost, and the write clears the four bytes after the field. The other bytes of the buffer do
  not change, and nothing outside the buffer is accessed.
\<close>

theorem field_roundtrip:
  assumes "off + 8 \<le> length buf"
  shows "\<exists>b1 b2 b3. ngx_set_filed_short buf (int off) s = Some b1 \<and> ngx_get_filed_short b1 (int off) = Some s \<and>
      b1 = overwrite buf off (be_bytes 2 s) \<and>
    ngx_set_filed_long buf (int off) l = Some b2 \<and> ngx_get_filed_long b2 (int off) = Some l \<and>
      b2 = overwrite buf off (be_bytes 8 l) \<and>
    ngx_set_filed_int buf (int off) i = Some b3 \<and> ngx_get_filed_int b3 (int off) = Some (take_bit 32 i) \<and>
      b3 = overwrite buf off (be_bytes 4 (ucast i :: u32) @ [0, 0, 0, 0])"
proof -
  have "(ucast (ucast i :: u32) :: u64) = take_bit 32 i" by (rule bit_word_eqI) (auto simp: bit_simps)
  then show ?thesis
    using assms set_short [of off buf s] get_short [of off buf s] set_long [of off buf l] get_long [of off buf l]
      set_int [of off buf i] get_int [of off buf "ucast i"] by simp
qed

theorem field_roundtrip_witness:
  "\<exists>b1 b2 b3. ngx_set_filed_short (replicate 10 7) (int 1) 0x0102 = Some b1 \<and> ngx_get_filed_short b1 (int 1) = Some 0x0102 \<and>
      b1 = overwrite (replicate 10 7) 1 (be_bytes 2 (0x0102 :: u16)) \<and>
    ngx_set_filed_long (replicate 10 7) (int 1) 5 = Some b2 \<and> ngx_get_filed_long b2 (int 1) = Some 5 \<and>
      b2 = overwrite (replicate 10 7) 1 (be_bytes 8 (5 :: u64)) \<and>
    ngx_set_filed_int (replicate 10 7) (int 1) (-1) = Some b3 \<and> ngx_get_filed_int b3 (int 1) = Some (take_bit 32 (-1)) \<and>
      b3 = overwrite (replicate 10 7) 1 (be_bytes 4 (ucast (-1 :: u64) :: u32) @ [0, 0, 0, 0])"
  by (rule field_roundtrip) simp

end
