(* ===== verification/Bloom_Filter.thy ===== *)
theory Bloom_Filter
  imports Byte_Words
begin

text \<open>
  The Bloom filter of \<open>src/BloomFilter/bloomfilter.h\<close>: MurmurHash2, double hashing, the operations
  on the filter and its file format.

  A pointer to allocated memory is null, dangling after a \<open>free\<close>, or a block; a second \<open>free\<close>
  of a dangling pointer and an access outside a block are \<^const>\<open>None\<close>. A number of type \<open>double\<close>
  is its 64-bit pattern; the floating-point computations that choose the size of the filter
  and the number of hash functions are parameters (\<open>fp\<close>). The machine is little-endian. A file
  is the list of its bytes. The output of \<open>printf\<close> and \<open>perror\<close> is left out.
\<close>

unbundle bit_operations_syntax

section \<open>Data\<close>

datatype 'a ptr = Null | Dangling | Block "'a list"

fun c_free :: "'a ptr \<Rightarrow> 'a ptr option" where
  "c_free Null = Some Null"
| "c_free Dangling = None"
| "c_free (Block xs) = Some Dangling"

record BaseBloomFilter =
  cInitFlag :: u8
  dwMaxItems :: u32
  dProbFalse :: u64
  dwFilterBits :: u32
  dwHashFuncs :: u32
  dwSeed :: u32
  dwCount :: u32
  dwFilterSize :: u32
  pstFilter :: "u8 ptr"
  pdwHashPos :: "u32 ptr"

record BloomFileHead =
  hMagicCode :: u32
  hSeed :: u32
  hCount :: u32
  hMaxItems :: u32
  hProbFalse :: u64
  hFilterBits :: u32
  hHashFuncs :: u32
  hFileCrc :: u32
  hFilterSize :: u32

definition MGAIC_CODE :: u32 where "MGAIC_CODE = 0x01464C42"

text \<open>
  The floating-point computations: whether a probability passes the check of
  \<open>InitBloomFilter\<close>, the number \<open>(uint32_t) ceil(-1.0 * n * log(p) / 0.480453)\<close> and the number
  \<open>round(0.69314 * m / n)\<close>.
\<close>

record fp =
  fp_unit :: "u64 \<Rightarrow> bool"
  fp_bits :: "u32 \<Rightarrow> u64 \<Rightarrow> u32"
  fp_funcs :: "u32 \<Rightarrow> u32 \<Rightarrow> u32"

section \<open>Initialisation and release\<close>

definition CalcBloomFilterParam :: "fp \<Rightarrow> u32 \<Rightarrow> u64 \<Rightarrow> u32 \<times> u32" where
  "CalcBloomFilterParam F n p =
     (let m = fp_bits F n p; m = (m - m mod 64) + 64; k = fp_funcs F m n in (m, k))"

text \<open>The array of positions in a fresh block of memory.\<close>

definition words_of :: "nat \<Rightarrow> u8 list \<Rightarrow> u32 list" where
  "words_of k blk = map (\<lambda>i. le_word (take 4 (drop (4 * i) blk))) [0..<k]"

definition zero_filter :: BaseBloomFilter where
  "zero_filter = \<lparr>cInitFlag = 0, dwMaxItems = 0, dProbFalse = 0, dwFilterBits = 0, dwHashFuncs = 0, dwSeed = 0,
     dwCount = 0, dwFilterSize = 0, pstFilter = Null, pdwHashPos = Null\<rparr>"

definition InitBloomFilter ::
  "fp \<Rightarrow> allocator \<Rightarrow> BaseBloomFilter option \<Rightarrow> u32 \<Rightarrow> u32 \<Rightarrow> u64 \<Rightarrow> (int \<times> BaseBloomFilter option) option" where
  "InitBloomFilter F alloc bf seed maxItems probFalse =
     (case bf of None \<Rightarrow> Some (-1, None)
      | Some f \<Rightarrow>
          if \<not> fp_unit F probFalse then Some (-2, bf)
          else do {
            p \<leftarrow> c_free (pstFilter f);
            q \<leftarrow> c_free (pdwHashPos f);
            let (m, k) = CalcBloomFilterParam F maxItems probFalse;
            let f1 = zero_filter\<lparr>dwMaxItems := maxItems, dProbFalse := probFalse, dwSeed := seed,
              dwFilterBits := m, dwHashFuncs := k, dwFilterSize := m div 8\<rparr>;
            case alloc (uint (m div 8)) of None \<Rightarrow> Some (-100, Some f1)
            | Some blk \<Rightarrow>
                let f2 = f1\<lparr>pstFilter := Block blk\<rparr> in
                (case alloc (4 * uint k) of None \<Rightarrow> Some (-200, Some f2)
                 | Some pos \<Rightarrow>
                     Some (0, Some (f2\<lparr>pdwHashPos := Block (words_of (unat k) pos),
                       pstFilter := Block (replicate (unat (m div 8)) 0), cInitFlag := 1\<rparr>)))
          })"

definition FreeBloomFilter :: "BaseBloomFilter option \<Rightarrow> (int \<times> BaseBloomFilter option) option" where
  "FreeBloomFilter bf =
     (case bf of None \<Rightarrow> Some (-1, None)
      | Some f \<Rightarrow> do {
          p \<leftarrow> c_free (pstFilter f);
          q \<leftarrow> c_free (pdwHashPos f);
          Some (0, Some (f\<lparr>cInitFlag := 0, dwCount := 0, pstFilter := Null, pdwHashPos := Null\<rparr>))
        })"

definition ResetBloomFilter :: "BaseBloomFilter option \<Rightarrow> int \<times> BaseBloomFilter option" where
  "ResetBloomFilter bf =
     (case bf of None \<Rightarrow> (-1, None) | Some f \<Rightarrow> (0, Some (f\<lparr>cInitFlag := 0, dwCount := 0\<rparr>)))"

text \<open>\<open>memset\<close> of the filter with zeroes.\<close>

definition clear_filter :: "BaseBloomFilter \<Rightarrow> BaseBloomFilter option" where
  "clear_filter f =
     (case pstFilter f of
        Block fl \<Rightarrow> if unat (dwFilterSize f) \<le> length fl
          then Some (f\<lparr>pstFilter := Block (overwrite fl 0 (replicate (unat (dwFilterSize f)) 0))\<rparr>) else None
      | _ \<Rightarrow> None)"

definition RealResetBloomFilter :: "BaseBloomFilter option \<Rightarrow> (int \<times> BaseBloomFilter option) option" where
  "RealResetBloomFilter bf =
     (case bf of None \<Rightarrow> Some (-1, None)
      | Some f \<Rightarrow> do {
          f1 \<leftarrow> clear_filter f;
          Some (0, Some (f1\<lparr>cInitFlag := 1, dwCount := 0\<rparr>))
        })"

section \<open>Hashing\<close>

definition MURMUR_M :: u64 where "MURMUR_M = 0xc6a4a7935bd1e995"

text \<open>The mixing of one 64-bit block, and the loop over the blocks.\<close>

definition murmur_mix :: "u64 \<Rightarrow> u64" where
  "murmur_mix k = (let k1 = k * MURMUR_M; k2 = k1 XOR drop_bit 47 k1 in k2 * MURMUR_M)"

fun murmur_blocks :: "nat \<Rightarrow> u8 list \<Rightarrow> u64 \<Rightarrow> (u64 \<times> u8 list) option" where
  "murmur_blocks 0 data h = Some (h, data)"
| "murmur_blocks (Suc n) data h =
     (if 8 \<le> length data
      then murmur_blocks n (drop 8 data) ((h XOR murmur_mix (le_word (take 8 data))) * MURMUR_M)
      else None)"

text \<open>The cases of the switch that fall through: bytes \<open>n - 1\<close> down to 0.\<close>

fun murmur_tail :: "nat \<Rightarrow> u8 list \<Rightarrow> u64 \<Rightarrow> u64 option" where
  "murmur_tail 0 data h = Some h"
| "murmur_tail (Suc i) data h =
     (if i < length data then murmur_tail i data (h XOR push_bit (8 * i) (ucast (data ! i))) else None)"

definition MurmurHash2_x64 :: "u8 list \<Rightarrow> int \<Rightarrow> u32 \<Rightarrow> u64 option" where
  "MurmurHash2_x64 key len seed =
     (if len < 0 then None
      else do {
        (h, data) \<leftarrow> murmur_blocks (nat len div 8) key (ucast seed XOR (word_of_int len * MURMUR_M));
        h1 \<leftarrow> murmur_tail (nat len mod 8) data h;
        let h2 = (if nat len mod 8 \<noteq> 0 then h1 * MURMUR_M else h1);
        let h3 = (h2 XOR drop_bit 47 h2) * MURMUR_M;
        Some (h3 XOR drop_bit 47 h3)
      })"

definition MIX_UINT64 :: "u64 \<Rightarrow> u32" where
  "MIX_UINT64 v = ucast (drop_bit 32 v XOR v)"

text \<open>
  The loop that fills the array of positions: \<open>i\<close> counts up, the first argument is the number
  of iterations left. A remainder by zero is undefined.
\<close>

fun hash_loop :: "nat \<Rightarrow> nat \<Rightarrow> u64 \<Rightarrow> u64 \<Rightarrow> u32 \<Rightarrow> u32 list \<Rightarrow> u32 list option" where
  "hash_loop 0 i hash1 hash2 bits pos = Some pos"
| "hash_loop (Suc r) i hash1 hash2 bits pos =
     (if bits = 0 then None
      else do {
        pos1 \<leftarrow> store pos (int i) (ucast ((hash1 + of_nat i * hash2) mod ucast bits));
        hash_loop r (Suc i) hash1 hash2 bits pos1
      })"

text \<open>The number of iterations of the loops: the unsigned number of functions read as \<open>int\<close>.\<close>

definition hash_funcs :: "BaseBloomFilter \<Rightarrow> nat" where
  "hash_funcs f = nat (sint (dwHashFuncs f))"

definition bloom_hash :: "BaseBloomFilter \<Rightarrow> u8 list \<Rightarrow> int \<Rightarrow> BaseBloomFilter option" where
  "bloom_hash f key len = do {
     hash1 \<leftarrow> MurmurHash2_x64 key len (dwSeed f);
     hash2 \<leftarrow> MurmurHash2_x64 key len (MIX_UINT64 hash1);
     if hash_funcs f = 0 then Some f
     else case pdwHashPos f of
       Block pos \<Rightarrow> do {
         pos1 \<leftarrow> hash_loop (hash_funcs f) 0 hash1 hash2 (dwFilterBits f) pos;
         Some (f\<lparr>pdwHashPos := Block pos1\<rparr>)
       }
     | _ \<Rightarrow> None
   }"

section \<open>Adding and checking\<close>

definition SETBIT :: "u8 list \<Rightarrow> u32 \<Rightarrow> u8 list option" where
  "SETBIT fl n = do {
     b \<leftarrow> load fl (uint (n div 8));
     store fl (uint (n div 8)) (b OR push_bit (unat (n mod 8)) 1)
   }"

definition GETBIT :: "u8 list \<Rightarrow> u32 \<Rightarrow> u8 option" where
  "GETBIT fl n = do {
     b \<leftarrow> load fl (uint (n div 8));
     Some (b AND push_bit (unat (n mod 8)) 1)
   }"

fun set_loop :: "nat \<Rightarrow> nat \<Rightarrow> u32 list \<Rightarrow> u8 list \<Rightarrow> u8 list option" where
  "set_loop 0 i pos fl = Some fl"
| "set_loop (Suc r) i pos fl = do {
     n \<leftarrow> load pos (int i);
     fl1 \<leftarrow> SETBIT fl n;
     set_loop r (Suc i) pos fl1
   }"

fun check_loop :: "nat \<Rightarrow> nat \<Rightarrow> u32 list \<Rightarrow> u8 list \<Rightarrow> int option" where
  "check_loop 0 i pos fl = Some 0"
| "check_loop (Suc r) i pos fl = do {
     n \<leftarrow> load pos (int i);
     b \<leftarrow> GETBIT fl n;
     if b = 0 then Some 1 else check_loop r (Suc i) pos fl
   }"

definition blocks_of :: "BaseBloomFilter \<Rightarrow> (u32 list \<times> u8 list) option" where
  "blocks_of f = (case (pdwHashPos f, pstFilter f) of (Block pos, Block fl) \<Rightarrow> Some (pos, fl) | _ \<Rightarrow> None)"

definition BloomFilter_Add ::
  "BaseBloomFilter option \<Rightarrow> u8 list option \<Rightarrow> int \<Rightarrow> (int \<times> BaseBloomFilter option) option" where
  "BloomFilter_Add bf key len =
     (case (bf, key) of
        (Some f, Some k) \<Rightarrow>
          if len \<le> 0 then Some (-1, bf)
          else do {
            f1 \<leftarrow> (if cInitFlag f \<noteq> 1
                   then do { f1 \<leftarrow> clear_filter f; Some (f1\<lparr>cInitFlag := 1\<rparr>) } else Some f);
            f2 \<leftarrow> bloom_hash f1 k len;
            f3 \<leftarrow> (if hash_funcs f2 = 0 then Some f2
                   else do {
                     (pos, fl) \<leftarrow> blocks_of f2;
                     fl1 \<leftarrow> set_loop (hash_funcs f2) 0 pos fl;
                     Some (f2\<lparr>pstFilter := Block fl1\<rparr>)
                   });
            let f4 = f3\<lparr>dwCount := dwCount f3 + 1\<rparr>;
            Some (if dwCount f4 \<le> dwMaxItems f4 then 0 else 1, Some f4)
          }
      | _ \<Rightarrow> Some (-1, bf))"

definition BloomFilter_Check ::
  "BaseBloomFilter option \<Rightarrow> u8 list option \<Rightarrow> int \<Rightarrow> (int \<times> BaseBloomFilter option) option" where
  "BloomFilter_Check bf key len =
     (case (bf, key) of
        (Some f, Some k) \<Rightarrow>
          if len \<le> 0 then Some (-1, bf)
          else do {
            f1 \<leftarrow> bloom_hash f k len;
            if hash_funcs f1 = 0 then Some (0, Some f1)
            else do {
              (pos, fl) \<leftarrow> blocks_of f1;
              r \<leftarrow> check_loop (hash_funcs f1) 0 pos fl;
              Some (r, Some f1)
            }
          }
      | _ \<Rightarrow> Some (-1, bf))"

section \<open>Files\<close>

text \<open>The packed header, 64 bytes; the six reserved words are zero.\<close>

definition encode_head :: "BloomFileHead \<Rightarrow> u8 list" where
  "encode_head fh = le_bytes 4 (hMagicCode fh) @ le_bytes 4 (hSeed fh) @ le_bytes 4 (hCount fh) @
     le_bytes 4 (hMaxItems fh) @ le_bytes 8 (hProbFalse fh) @ le_bytes 4 (hFilterBits fh) @
     le_bytes 4 (hHashFuncs fh) @ replicate 24 0 @ le_bytes 4 (hFileCrc fh) @ le_bytes 4 (hFilterSize fh)"

definition decode_head :: "u8 list \<Rightarrow> BloomFileHead" where
  "decode_head bs = \<lparr>hMagicCode = le_word (take 4 bs), hSeed = le_word (take 4 (drop 4 bs)),
     hCount = le_word (take 4 (drop 8 bs)), hMaxItems = le_word (take 4 (drop 12 bs)),
     hProbFalse = le_word (take 8 (drop 16 bs)), hFilterBits = le_word (take 4 (drop 24 bs)),
     hHashFuncs = le_word (take 4 (drop 28 bs)), hFileCrc = le_word (take 4 (drop 56 bs)),
     hFilterSize = le_word (take 4 (drop 60 bs))\<rparr>"

text \<open>
  Saving: \<open>opens\<close> says whether the file can be opened, \<open>space\<close> is the number of bytes that can be
  written. The result is the return value and the contents of the file.
\<close>

definition SaveBloomFilterToFile ::
  "bool \<Rightarrow> nat \<Rightarrow> BaseBloomFilter option \<Rightarrow> string option \<Rightarrow> (int \<times> u8 list option) option" where
  "SaveBloomFilterToFile opens space bf szFileName =
     (case (bf, szFileName) of
        (Some f, Some name) \<Rightarrow>
          if \<not> opens then Some (-11, None)
          else
            let fh = encode_head \<lparr>hMagicCode = MGAIC_CODE, hSeed = dwSeed f, hCount = dwCount f, hMaxItems = dwMaxItems f,
              hProbFalse = dProbFalse f, hFilterBits = dwFilterBits f, hHashFuncs = dwHashFuncs f, hFileCrc = 0,
              hFilterSize = dwFilterSize f\<rparr> in
            if space < length fh then Some (-21, Some (take space fh))
            else case pstFilter f of
              Block fl \<Rightarrow>
                if length fl < unat (dwFilterSize f) then None
                else
                  let data = take (space - length fh) (take (unat (dwFilterSize f)) fl) in
                  if length data \<noteq> unat (dwFilterSize f) then Some (-31, Some (fh @ data))
                  else Some (0, Some (fh @ data))
            | _ \<Rightarrow> if dwFilterSize f = 0 then Some (0, Some fh) else None
      | _ \<Rightarrow> Some (-1, None))"

definition LoadBloomFilterFromFile ::
  "allocator \<Rightarrow> u8 list option \<Rightarrow> BaseBloomFilter option \<Rightarrow> string option \<Rightarrow>
   (int \<times> BaseBloomFilter option) option" where
  "LoadBloomFilterFromFile alloc file bf szFileName =
     (case (bf, szFileName) of
        (Some f, Some name) \<Rightarrow> do {
          p \<leftarrow> c_free (pstFilter f);
          q \<leftarrow> c_free (pdwHashPos f);
          let f1 = f\<lparr>pstFilter := p, pdwHashPos := q\<rparr>;
          case file of None \<Rightarrow> Some (-11, Some f1)
          | Some bs \<Rightarrow>
              if length bs < 64 then Some (-21, Some f1)
              else
                let fh = decode_head bs in
                if hMagicCode fh \<noteq> MGAIC_CODE \<or> hFilterBits fh \<noteq> hFilterSize fh * 8 then Some (-50, Some f1)
                else
                  let f2 = f1\<lparr>dwMaxItems := hMaxItems fh, dProbFalse := hProbFalse fh, dwFilterBits := hFilterBits fh,
                    dwHashFuncs := hHashFuncs fh, dwSeed := hSeed fh, dwCount := hCount fh, dwFilterSize := hFilterSize fh\<rparr> in
                  (case alloc (uint (hFilterSize fh)) of None \<Rightarrow> Some (-100, Some (f2\<lparr>pstFilter := Null\<rparr>))
                   | Some blk \<Rightarrow>
                      (case alloc (4 * uint (hHashFuncs fh)) of
                         None \<Rightarrow> Some (-200, Some (f2\<lparr>pstFilter := Block blk, pdwHashPos := Null\<rparr>))
                       | Some pos \<Rightarrow>
                          let data = take (unat (hFilterSize fh)) (drop 64 bs);
                              f3 = f2\<lparr>pstFilter := Block (overwrite blk 0 data),
                                pdwHashPos := Block (words_of (unat (hHashFuncs fh)) pos)\<rparr> in
                          if length data \<noteq> unat (hFilterSize fh) then Some (-31, Some f3)
                          else Some (0, Some (f3\<lparr>cInitFlag := 1\<rparr>))))
        }
      | _ \<Rightarrow> Some (-1, bf))"


section \<open>Hashing: the reference computation\<close>

text \<open>
  The hash of a block in one line: the 64-bit little-endian words of the key are mixed in one
  after the other, then the remaining bytes as one word.
\<close>

fun chunks :: "nat \<Rightarrow> 'a list \<Rightarrow> 'a list list" where
  "chunks 0 xs = []"
| "chunks (Suc n) xs = take 8 xs # chunks n (drop 8 xs)"

definition murmur_step :: "u64 \<Rightarrow> u64 \<Rightarrow> u64" where
  "murmur_step h k = (h XOR murmur_mix k) * MURMUR_M"

definition murmur_final :: "u64 \<Rightarrow> u64" where
  "murmur_final h = (let g = (h XOR drop_bit 47 h) * MURMUR_M in g XOR drop_bit 47 g)"

definition murmur_spec :: "u8 list \<Rightarrow> u32 \<Rightarrow> u64" where
  "murmur_spec bs seed =
     (let n = length bs div 8;
          h = fold (\<lambda>c h. murmur_step h (le_word c)) (chunks n bs) (ucast seed XOR of_nat (length bs) * MURMUR_M);
          rest = drop (8 * n) bs
      in murmur_final (if rest = [] then h else (h XOR le_word rest) * MURMUR_M))"

lemma murmur_blocks_fold:
  "8 * n \<le> length bs \<Longrightarrow>
   murmur_blocks n (bs @ ys) h = Some (fold (\<lambda>c h. murmur_step h (le_word c)) (chunks n bs) h, drop (8 * n) bs @ ys)"
proof (induction n arbitrary: bs h)
  case (Suc n)
  then have "8 * n \<le> length (drop 8 bs)" by simp
  from Suc.IH [OF this] Suc.prems show ?case by (simp add: murmur_step_def add.commute)
qed simp

lemma murmur_tail_word:
  "n \<le> length data \<Longrightarrow> murmur_tail n data h = Some (h XOR le_word (take n data))"
proof (induction n arbitrary: h)
  case (Suc n)
  then show ?case
    by (simp add: take_Suc_conv_app_nth le_word_snoc_xor xor.assoc xor.left_commute xor.commute)
qed simp

lemma murmur_tail_append: "length xs = n \<Longrightarrow> murmur_tail n (xs @ ys) h = Some (h XOR le_word xs)"
  by (simp add: murmur_tail_word)

lemma murmur_computes:
  assumes "0 \<le> len" and "len \<le> int (length key)"
  shows "MurmurHash2_x64 key len seed = Some (murmur_spec (take (nat len) key) seed)"
proof -
  let ?bs = "take (nat len) key" and ?ys = "drop (nat len) key" and ?n = "nat len div 8"
  have len: "length ?bs = nat len" using assms by simp
  have key: "key = ?bs @ ?ys" by simp
  have rest: "length (drop (8 * ?n) ?bs) = nat len mod 8" using len by (simp add: minus_mult_div_eq_mod)
  have blocks: "murmur_blocks ?n key h = Some (fold (\<lambda>c h. murmur_step h (le_word c)) (chunks ?n ?bs) h,
      drop (8 * ?n) ?bs @ ?ys)" for h
    by (subst key, rule murmur_blocks_fold, unfold len) simp
  have tail: "murmur_tail (nat len mod 8) (drop (8 * ?n) ?bs @ ?ys) h = Some (h XOR le_word (drop (8 * ?n) ?bs))" for h
    by (rule murmur_tail_append [OF rest])
  have w: "(word_of_int len :: u64) = of_nat (nat len)" using assms(1) by (simp add: of_nat_nat)
  have e: "drop (8 * ?n) ?bs = [] \<longleftrightarrow> nat len mod 8 = 0" using rest by (metis length_0_conv)
  show ?thesis
  proof (cases "nat len mod 8 = 0")
    case True
    with e have "drop (8 * ?n) ?bs = []" by blast
    with True assms(1) tail show ?thesis
      unfolding MurmurHash2_x64_def murmur_spec_def murmur_final_def blocks len w
      by (simp add: Let_def del: drop_take)
  next
    case False
    with e have "drop (8 * ?n) ?bs \<noteq> []" by blast
    with False assms(1) show ?thesis
      unfolding MurmurHash2_x64_def murmur_spec_def murmur_final_def blocks len w
      by (simp add: Let_def tail del: drop_take drop_eq_Nil)
  qed
qed

section \<open>The bits of a filter\<close>

text \<open>The state of a filter that can be used, the set of its bits, and the positions of a key.\<close>

definition filter_wf :: "BaseBloomFilter \<Rightarrow> bool" where
  "filter_wf f \<longleftrightarrow>
     (case (pstFilter f, pdwHashPos f) of
        (Block fl, Block ps) \<Rightarrow> length fl = unat (dwFilterSize f) \<and> length ps = unat (dwHashFuncs f)
      | _ \<Rightarrow> False) \<and> dwFilterSize f \<noteq> 0 \<and> unat (dwFilterBits f) = 8 * unat (dwFilterSize f)"

definition set_bits_of :: "u8 list \<Rightarrow> nat set" where
  "set_bits_of fl = {n. n < 8 * length fl \<and> bit (fl ! (n div 8)) (n mod 8)}"

definition filter_bits :: "BaseBloomFilter \<Rightarrow> nat set" where
  "filter_bits f = (case pstFilter f of Block fl \<Rightarrow> set_bits_of fl | _ \<Rightarrow> {})"

definition hash_at :: "u64 \<Rightarrow> u64 \<Rightarrow> u32 \<Rightarrow> nat \<Rightarrow> u32" where
  "hash_at hash1 hash2 bits i = ucast ((hash1 + of_nat i * hash2) mod ucast bits)"

definition key_positions :: "u32 \<Rightarrow> u32 \<Rightarrow> u32 \<Rightarrow> u8 list \<Rightarrow> u32 list" where
  "key_positions seed bits funcs bs =
     (let hash1 = murmur_spec bs seed; hash2 = murmur_spec bs (MIX_UINT64 hash1)
      in map (hash_at hash1 hash2 bits) [0..<nat (sint funcs)])"

definition positions :: "BaseBloomFilter \<Rightarrow> u8 list \<Rightarrow> nat set" where
  "positions f bs = unat ` set (key_positions (dwSeed f) (dwFilterBits f) (dwHashFuncs f) bs)"

text \<open>What a sequence of additions and checks keeps.\<close>

definition same_params :: "BaseBloomFilter \<Rightarrow> BaseBloomFilter \<Rightarrow> bool" where
  "same_params f g \<longleftrightarrow> dwSeed g = dwSeed f \<and> dwFilterBits g = dwFilterBits f \<and> dwHashFuncs g = dwHashFuncs f \<and>
     dwFilterSize g = dwFilterSize f \<and> dwMaxItems g = dwMaxItems f"

lemma positions_same: "same_params f g \<Longrightarrow> positions g = positions f"
  by (simp add: same_params_def positions_def fun_eq_iff)

lemma filter_wfE:
  assumes "filter_wf f"
  obtains fl ps where "pstFilter f = Block fl" and "pdwHashPos f = Block ps" and "length fl = unat (dwFilterSize f)"
    and "length ps = unat (dwHashFuncs f)" and "dwFilterSize f \<noteq> 0" and "unat (dwFilterBits f) = 8 * unat (dwFilterSize f)"
  using assms by (auto simp: filter_wf_def split: ptr.splits)

lemma hash_funcs_le: "hash_funcs f \<le> unat (dwHashFuncs f)"
proof -
  have "take_bit 32 (uint w) = uint w" for w :: u32
    using unsigned_less [of w] by (intro take_bit_int_eq_self) simp_all
  then have "sint (dwHashFuncs f) \<le> uint (dwHashFuncs f)"
    by (simp add: sint_uint signed_take_bit_eq_take_bit_minus)
  then show ?thesis by (simp add: hash_funcs_def nat_le_iff)
qed

lemma hash_at_bound: "bits \<noteq> 0 \<Longrightarrow> unat (hash_at h1 h2 bits i) < unat bits"
proof -
  assume "bits \<noteq> 0"
  let ?x = "h1 + of_nat i * h2" and ?m = "ucast bits :: u64"
  have m: "unat ?m = unat bits" by (simp add: unsigned_ucast_eq take_bit_nat_eq_self order.strict_trans [OF unsigned_less])
  have "unat (?x mod ?m) = unat ?x mod unat bits" by (simp add: unat_mod_distrib m)
  also have "\<dots> < unat bits" using \<open>bits \<noteq> 0\<close> by (simp add: unat_gt_0)
  finally have lt: "unat (?x mod ?m) < unat bits" .
  moreover have "unat (hash_at h1 h2 bits i) \<le> unat (?x mod ?m)"
    by (simp add: hash_at_def unsigned_ucast_eq take_bit_eq_mod)
  ultimately show ?thesis by simp
qed

lemma hash_loop_fills:
  "bits \<noteq> 0 \<Longrightarrow> i + r \<le> length pos \<Longrightarrow>
   hash_loop r i h1 h2 bits pos = Some (take i pos @ map (hash_at h1 h2 bits) [i..<i + r] @ drop (i + r) pos)"
proof (induction r arbitrary: i pos)
  case (Suc r)
  then have "store pos (int i) (hash_at h1 h2 bits i) = Some (pos[i := hash_at h1 h2 bits i])"
    by (simp add: store_Some)
  moreover have "take (Suc i) (pos[i := v]) = take i pos @ [v]" for v
    using Suc.prems by (simp add: take_Suc_conv_app_nth)
  ultimately show ?case
    using Suc.prems Suc.IH [of "Suc i" "pos[i := hash_at h1 h2 bits i]"]
    by (simp add: hash_at_def [symmetric] upt_rec [of i])
qed simp

lemma bloom_hash_Some:
  assumes "filter_wf f" and "0 \<le> len" and "len \<le> int (length key)"
  obtains ps where "bloom_hash f key len = Some (f\<lparr>pdwHashPos := Block ps\<rparr>)"
    and "length ps = unat (dwHashFuncs f)"
    and "take (hash_funcs f) ps = key_positions (dwSeed f) (dwFilterBits f) (dwHashFuncs f) (take (nat len) key)"
proof -
  obtain fl qs where f: "pstFilter f = Block fl" "pdwHashPos f = Block qs" "length qs = unat (dwHashFuncs f)"
    and z: "dwFilterSize f \<noteq> 0" "unat (dwFilterBits f) = 8 * unat (dwFilterSize f)"
    using assms(1) by (rule filter_wfE) blast
  have bits: "dwFilterBits f \<noteq> 0" using z by (auto simp: unat_eq_0)
  let ?h = "murmur_spec (take (nat len) key) (dwSeed f)"
  let ?g = "murmur_spec (take (nat len) key) (MIX_UINT64 ?h)"
  let ?ps = "map (hash_at ?h ?g (dwFilterBits f)) [0..<hash_funcs f] @ drop (hash_funcs f) qs"
  have loop: "hash_loop (hash_funcs f) 0 ?h ?g (dwFilterBits f) qs = Some ?ps"
    using hash_loop_fills [OF bits, of 0 "hash_funcs f" qs] hash_funcs_le [of f] f(3) by simp
  have same: "f\<lparr>pdwHashPos := Block qs\<rparr> = f" using f(2) by (metis BaseBloomFilter.surjective BaseBloomFilter.update_convs(10))
  show ?thesis
  proof (rule that [of ?ps])
    show "bloom_hash f key len = Some (f\<lparr>pdwHashPos := Block ?ps\<rparr>)"
      using f(2) loop same by (simp add: bloom_hash_def murmur_computes assms(2,3) Let_def)
    show "length ?ps = unat (dwHashFuncs f)" using f(3) hash_funcs_le [of f] by simp
    show "take (hash_funcs f) ?ps = key_positions (dwSeed f) (dwFilterBits f) (dwHashFuncs f) (take (nat len) key)"
      by (simp add: key_positions_def hash_funcs_def Let_def)
  qed
qed

lemma positions_bound: "filter_wf f \<Longrightarrow> n \<in> positions f bs \<Longrightarrow> n < unat (dwFilterBits f)"
proof -
  assume "filter_wf f" "n \<in> positions f bs"
  moreover from this have "dwFilterBits f \<noteq> 0" by (auto elim!: filter_wfE simp: unat_eq_0)
  ultimately show ?thesis by (auto simp: positions_def key_positions_def Let_def hash_at_bound)
qed

lemma set_bits_of_update:
  assumes "n < 8 * length fl"
  shows "set_bits_of (fl[n div 8 := fl ! (n div 8) OR 2 ^ (n mod 8)]) = insert n (set_bits_of fl)"
proof (rule set_eqI)
  fix m
  have l: "n div 8 < length fl" using assms by auto
  have b: "bit (x OR 2 ^ k) j \<longleftrightarrow> bit x j \<or> j = k \<and> k < 8" for x :: u8 and j k
    by (auto simp: bit_simps)
  show "m \<in> set_bits_of (fl[n div 8 := fl ! (n div 8) OR 2 ^ (n mod 8)]) \<longleftrightarrow> m \<in> insert n (set_bits_of fl)"
  proof (cases "m div 8 = n div 8")
    case True
    then have "m = n \<longleftrightarrow> m mod 8 = n mod 8" by (metis div_mult_mod_eq)
    then show ?thesis using True l assms by (simp add: set_bits_of_def b) blast
  next
    case False
    then have "m \<noteq> n" by auto
    then show ?thesis using False by (simp add: set_bits_of_def)
  qed
qed

lemma unat_div8: "unat (n div 8 :: u32) = unat n div 8" and unat_mod8: "unat (n mod 8 :: u32) = unat n mod 8"
  by (simp_all add: unat_div_distrib unat_mod_distrib)

lemma uint_div8: "uint (n div 8 :: u32) = int (unat n div 8)"
  by (simp flip: unat_div8)

lemma SETBIT_Some:
  assumes "unat n < 8 * length fl"
  obtains fl' where "SETBIT fl n = Some fl'" and "length fl' = length fl" and "set_bits_of fl' = insert (unat n) (set_bits_of fl)"
proof (rule that)
  have l: "unat n div 8 < length fl" using assms by auto
  then show "SETBIT fl n = Some (fl[unat n div 8 := fl ! (unat n div 8) OR 2 ^ (unat n mod 8)])"
    by (simp add: SETBIT_def uint_div8 load_Some store_Some unat_mod8 flip: of_nat_div)
qed (simp_all add: set_bits_of_update assms)

lemma GETBIT_Some:
  assumes "unat n < 8 * length fl"
  shows "\<exists>b. GETBIT fl n = Some b \<and> (b = 0 \<longleftrightarrow> unat n \<notin> set_bits_of fl)"
proof -
  have l: "unat n div 8 < length fl" using assms by auto
  have "(x AND push_bit k 1 = 0) = (\<not> bit x k)" if "k < 8" for x :: u8 and k
    using that by (metis and_exp_eq_0_iff_not_bit push_bit_of_1)
  then show ?thesis using l assms
    by (simp add: GETBIT_def uint_div8 load_Some unat_mod8 set_bits_of_def flip: of_nat_div)
qed

lemma set_loop_bits:
  assumes "i + r \<le> length pos" and "\<forall>n \<in> set pos. unat n < 8 * length fl \<or> n \<notin> set (take r (drop i pos))"
  shows "\<exists>fl'. set_loop r i pos fl = Some fl' \<and> length fl' = length fl \<and>
    set_bits_of fl' = set_bits_of fl \<union> unat ` set (take r (drop i pos))"
  using assms
proof (induction r arbitrary: i fl)
  case (Suc r)
  let ?n = "pos ! i"
  have dr: "drop i pos = ?n # drop (Suc i) pos" using Suc.prems(1) by (simp add: Cons_nth_drop_Suc)
  have "?n \<in> set pos" using Suc.prems(1) by simp
  then have "unat ?n < 8 * length fl" using Suc.prems(2) dr by auto
  then obtain fl1 where fl1: "SETBIT fl ?n = Some fl1" "length fl1 = length fl" "set_bits_of fl1 = insert (unat ?n) (set_bits_of fl)"
    by (rule SETBIT_Some)
  have ld: "load pos (int i) = Some ?n" using Suc.prems(1) by (simp add: load_Some)
  have "\<forall>n \<in> set pos. unat n < 8 * length fl1 \<or> n \<notin> set (take r (drop (Suc i) pos))"
    using Suc.prems(2) fl1(2) dr by auto
  from Suc.IH [OF _ this] Suc.prems(1) fl1 show ?case by (auto simp: ld dr)
qed simp

lemma check_loop_bits:
  assumes "i + r \<le> length pos" and "\<forall>n \<in> set (take r (drop i pos)). unat n < 8 * length fl"
  shows "check_loop r i pos fl = Some (if unat ` set (take r (drop i pos)) \<subseteq> set_bits_of fl then 0 else 1)"
  using assms
proof (induction r arbitrary: i)
  case (Suc r)
  let ?n = "pos ! i"
  have dr: "drop i pos = ?n # drop (Suc i) pos" using Suc.prems(1) by (simp add: Cons_nth_drop_Suc)
  obtain b where "GETBIT fl ?n = Some b" "b = 0 \<longleftrightarrow> unat ?n \<notin> set_bits_of fl"
    using GETBIT_Some [of ?n fl] Suc.prems(2) by (auto simp: dr)
  moreover have "load pos (int i) = Some ?n" using Suc.prems(1) by (simp add: load_Some)
  moreover have "Suc i + r \<le> length pos" "\<forall>n \<in> set (take r (drop (Suc i) pos)). unat n < 8 * length fl"
    using Suc.prems by (auto simp: dr)
  ultimately show ?case using Suc.IH [of "Suc i"] by (simp add: dr)
qed simp

section \<open>One addition, one check\<close>

text \<open>The bits an addition starts from: none when the filter was reset.\<close>

definition live_bits :: "BaseBloomFilter \<Rightarrow> nat set" where
  "live_bits f = (if cInitFlag f = 1 then filter_bits f else {})"

lemma set_bits_of_zero [simp]: "set_bits_of (replicate n 0) = {}"
  by (auto simp: set_bits_of_def)

lemma clear_filter_Some:
  assumes "filter_wf f"
  shows "clear_filter f = Some (f\<lparr>pstFilter := Block (replicate (unat (dwFilterSize f)) 0)\<rparr>)"
  using assms by (auto elim!: filter_wfE simp: clear_filter_def overwrite_def)

lemma filter_wf_positions: "filter_wf f \<Longrightarrow> length ps = unat (dwHashFuncs f) \<Longrightarrow> filter_wf (f\<lparr>pdwHashPos := Block ps\<rparr>)"
  by (auto simp: filter_wf_def split: ptr.splits)

lemma filter_wf_filter: "filter_wf f \<Longrightarrow> length fl = unat (dwFilterSize f) \<Longrightarrow> filter_wf (f\<lparr>pstFilter := Block fl\<rparr>)"
  by (auto simp: filter_wf_def split: ptr.splits)

lemma filter_wf_other [simp]:
  "filter_wf (f\<lparr>cInitFlag := c\<rparr>) = filter_wf f" "filter_wf (f\<lparr>dwCount := n\<rparr>) = filter_wf f"
  by (simp_all add: filter_wf_def split: ptr.splits)

lemma BloomFilter_Check_Some:
  assumes "filter_wf f" and "0 < len" and "len \<le> int (length key)"
  obtains ps where "BloomFilter_Check (Some f) (Some key) len =
      Some (if positions f (take (nat len) key) \<subseteq> filter_bits f then 0 else 1, Some (f\<lparr>pdwHashPos := Block ps\<rparr>))"
    and "filter_wf (f\<lparr>pdwHashPos := Block ps\<rparr>)"
proof -
  obtain ps where hash: "bloom_hash f key len = Some (f\<lparr>pdwHashPos := Block ps\<rparr>)" and ps: "length ps = unat (dwHashFuncs f)"
    and keys: "take (hash_funcs f) ps = key_positions (dwSeed f) (dwFilterBits f) (dwHashFuncs f) (take (nat len) key)"
    using assms by (auto elim: bloom_hash_Some [of f len key])
  obtain fl where fl: "pstFilter f = Block fl" "8 * length fl = unat (dwFilterBits f)"
    using assms(1) by (auto elim!: filter_wfE)
  have pos: "positions f (take (nat len) key) = unat ` set (take (hash_funcs f) ps)"
    by (simp add: positions_def keys)
  have "\<forall>n \<in> set (take (hash_funcs f) (drop 0 ps)). unat n < 8 * length fl"
    using positions_bound [OF assms(1), of _ "take (nat len) key"] unfolding fl(2) pos by auto
  then have loop: "check_loop (hash_funcs f) 0 ps fl = Some (if positions f (take (nat len) key) \<subseteq> set_bits_of fl then 0 else 1)"
    using check_loop_bits [of 0 "hash_funcs f" ps fl] hash_funcs_le [of f] ps by (simp add: pos)
  have funcs: "hash_funcs (f\<lparr>pdwHashPos := Block ps\<rparr>) = hash_funcs f" by (simp add: hash_funcs_def)
  show ?thesis
  proof (rule that [of ps])
    show "filter_wf (f\<lparr>pdwHashPos := Block ps\<rparr>)" using assms(1) ps by (rule filter_wf_positions)
    show "BloomFilter_Check (Some f) (Some key) len =
        Some (if positions f (take (nat len) key) \<subseteq> filter_bits f then 0 else 1, Some (f\<lparr>pdwHashPos := Block ps\<rparr>))"
      using assms(2) loop fl(1) pos
      by (simp add: BloomFilter_Check_def hash funcs blocks_of_def filter_bits_def)
  qed
qed

text \<open>The state after the lazy clearing at the start of an addition.\<close>

lemma lazy_clear:
  assumes "filter_wf f"
  obtains g where "(if cInitFlag f \<noteq> 1 then do { f1 \<leftarrow> clear_filter f; Some (f1\<lparr>cInitFlag := 1\<rparr>) } else Some f) = Some g"
    and "filter_wf g" and "cInitFlag g = 1" and "filter_bits g = live_bits f" and "same_params f g" and "dwCount g = dwCount f"
proof (cases "cInitFlag f = 1")
  case True
  then show ?thesis using assms by (intro that [of f]) (simp_all add: live_bits_def same_params_def)
next
  case False
  show ?thesis
  proof (rule that)
    let ?g = "f\<lparr>pstFilter := Block (replicate (unat (dwFilterSize f)) 0), cInitFlag := 1\<rparr>"
    show "(if cInitFlag f \<noteq> 1 then do { f1 \<leftarrow> clear_filter f; Some (f1\<lparr>cInitFlag := 1\<rparr>) } else Some f) = Some ?g"
      using False by (simp add: clear_filter_Some [OF assms])
  qed (use False assms in \<open>simp_all add: filter_wf_filter filter_bits_def live_bits_def same_params_def\<close>)
qed

lemma BloomFilter_Add_Some:
  assumes "filter_wf f" and "0 < len" and "len \<le> int (length key)"
  obtains f' where "BloomFilter_Add (Some f) (Some key) len =
      Some (if dwCount f + 1 \<le> dwMaxItems f then 0 else 1, Some f')"
    and "filter_wf f'" and "cInitFlag f' = 1" and "same_params f f'" and "dwCount f' = dwCount f + 1"
    and "filter_bits f' = live_bits f \<union> positions f (take (nat len) key)"
proof -
  obtain g where g: "(if cInitFlag f \<noteq> 1 then do { f1 \<leftarrow> clear_filter f; Some (f1\<lparr>cInitFlag := 1\<rparr>) } else Some f) = Some g"
    and gw: "filter_wf g" "cInitFlag g = 1" "filter_bits g = live_bits f" "same_params f g" "dwCount g = dwCount f"
    using assms(1) by (rule lazy_clear)
  obtain ps where hash: "bloom_hash g key len = Some (g\<lparr>pdwHashPos := Block ps\<rparr>)" and ps: "length ps = unat (dwHashFuncs g)"
    and keys: "take (hash_funcs g) ps = key_positions (dwSeed g) (dwFilterBits g) (dwHashFuncs g) (take (nat len) key)"
    using gw(1) assms by (auto elim: bloom_hash_Some [of g len key])
  obtain fl where fl: "pstFilter g = Block fl" "length fl = unat (dwFilterSize g)" "8 * length fl = unat (dwFilterBits g)"
    using gw(1) by (auto elim!: filter_wfE)
  have pos: "positions g (take (nat len) key) = unat ` set (take (hash_funcs g) ps)"
    by (simp add: positions_def keys)
  have "\<forall>n \<in> set ps. unat n < 8 * length fl \<or> n \<notin> set (take (hash_funcs g) (drop 0 ps))"
    using positions_bound [OF gw(1), of _ "take (nat len) key"] unfolding fl(3) pos by auto
  then obtain fl1 where loop: "set_loop (hash_funcs g) 0 ps fl = Some fl1" "length fl1 = length fl"
      "set_bits_of fl1 = set_bits_of fl \<union> positions g (take (nat len) key)"
    using set_loop_bits [of 0 "hash_funcs g" ps fl] hash_funcs_le [of g] ps by (auto simp: pos)
  let ?f = "g\<lparr>pdwHashPos := Block ps, pstFilter := Block fl1, dwCount := dwCount g + 1\<rparr>"
  have funcs: "hash_funcs (g\<lparr>pdwHashPos := Block ps\<rparr>) = hash_funcs g" by (simp add: hash_funcs_def)
  have zero: "hash_funcs g = 0 \<Longrightarrow> fl1 = fl" using loop(1) by simp
  have same: "g\<lparr>pdwHashPos := Block ps, pstFilter := Block fl, dwCount := n\<rparr> = g\<lparr>pdwHashPos := Block ps, dwCount := n\<rparr>" for n
    using fl(1) by (cases g) simp
  have max: "dwMaxItems g = dwMaxItems f" using gw(4) by (simp add: same_params_def)
  show ?thesis
  proof (rule that [of ?f])
    show "BloomFilter_Add (Some f) (Some key) len = Some (if dwCount f + 1 \<le> dwMaxItems f then 0 else 1, Some ?f)"
      unfolding BloomFilter_Add_def using assms(2) g
      by (cases "hash_funcs g = 0")
        (simp_all add: hash funcs blocks_of_def fl(1) loop(1) Let_def max gw(5) same zero del: if_split_asm)
    show "filter_wf ?f" using gw(1) ps loop(2) fl(2) by (simp add: filter_wf_positions filter_wf_filter)
    show "cInitFlag ?f = 1" "dwCount ?f = dwCount f + 1" "same_params f ?f" using gw(2,4,5) by (simp_all add: same_params_def)
    show "filter_bits ?f = live_bits f \<union> positions f (take (nat len) key)"
      using loop(3) gw(3) fl(1) positions_same [OF gw(4)] by (simp add: filter_bits_def)
  qed
qed

section \<open>Sequences of operations\<close>

text \<open>
  The contract of a bit filter: an addition adds the positions of the key to the set of bits, a
  check asks whether they are all in it. The abstract filter of the locale is that set.
\<close>

datatype 'k filter_op = Add 'k | Check 'k

fun run_ops :: "('s \<Rightarrow> 'k \<Rightarrow> 's option) \<Rightarrow> ('s \<Rightarrow> 'k \<Rightarrow> (bool \<times> 's) option) \<Rightarrow> 'k filter_op list \<Rightarrow> 's \<Rightarrow>
    (bool list \<times> 's) option" where
  "run_ops add query [] s = Some ([], s)"
| "run_ops add query (Add k # ops) s = do { s1 \<leftarrow> add s k; run_ops add query ops s1 }"
| "run_ops add query (Check k # ops) s = do {
     (b, s1) \<leftarrow> query s k;
     (bs, s2) \<leftarrow> run_ops add query ops s1;
     Some (b # bs, s2)
   }"

fun spec_ops :: "('k \<Rightarrow> nat set) \<Rightarrow> 'k filter_op list \<Rightarrow> nat set \<Rightarrow> bool list \<times> nat set" where
  "spec_ops hash [] B = ([], B)"
| "spec_ops hash (Add k # ops) B = spec_ops hash ops (B \<union> hash k)"
| "spec_ops hash (Check k # ops) B = (let (bs, B') = spec_ops hash ops B in ((hash k \<subseteq> B) # bs, B'))"

fun op_key :: "'k filter_op \<Rightarrow> 'k" where
  "op_key (Add k) = k"
| "op_key (Check k) = k"

lemma spec_ops_mono: "B \<subseteq> snd (spec_ops hash ops B)"
  by (induction hash ops B rule: spec_ops.induct) (auto simp: split_def Let_def)

lemma spec_ops_append:
  "spec_ops hash (xs @ ys) B = (let (bs, B1) = spec_ops hash xs B; (cs, B2) = spec_ops hash ys B1 in (bs @ cs, B2))"
  by (induction hash xs B rule: spec_ops.induct) (auto simp: split_def Let_def)

locale bit_filter =
  fixes inv :: "'s \<Rightarrow> bool"
    and bits :: "'s \<Rightarrow> nat set"
    and hash :: "'s \<Rightarrow> 'k \<Rightarrow> nat set"
    and key_ok :: "'k \<Rightarrow> bool"
    and add :: "'s \<Rightarrow> 'k \<Rightarrow> 's option"
    and query :: "'s \<Rightarrow> 'k \<Rightarrow> (bool \<times> 's) option"
  assumes add_law: "inv s \<Longrightarrow> key_ok k \<Longrightarrow> \<exists>s'. add s k = Some s' \<and> inv s' \<and> hash s' = hash s \<and> bits s' = bits s \<union> hash s k"
    and query_law: "inv s \<Longrightarrow> key_ok k \<Longrightarrow>
      \<exists>s'. query s k = Some (hash s k \<subseteq> bits s, s') \<and> inv s' \<and> hash s' = hash s \<and> bits s' = bits s"
begin

lemma run_refines:
  assumes "inv s" and "\<forall>x \<in> set ops. key_ok (op_key x)"
  shows "\<exists>s'. run_ops add query ops s = Some (fst (spec_ops (hash s) ops (bits s)), s') \<and> inv s' \<and> hash s' = hash s \<and>
    bits s' = snd (spec_ops (hash s) ops (bits s))"
  using assms
proof (induction ops arbitrary: s)
  case (Cons x ops)
  show ?case
  proof (cases x)
    case (Add k)
    then obtain s1 where s1: "add s k = Some s1" "inv s1" "hash s1 = hash s" "bits s1 = bits s \<union> hash s k"
      using Cons.prems add_law [of s k] by auto
    from Cons.IH [OF s1(2)] Cons.prems show ?thesis by (auto simp: Add s1)
  next
    case (Check k)
    then obtain s1 where s1: "query s k = Some (hash s k \<subseteq> bits s, s1)" "inv s1" "hash s1 = hash s" "bits s1 = bits s"
      using Cons.prems query_law [of s k] by auto
    from Cons.IH [OF s1(2)] Cons.prems show ?thesis by (auto simp: Check s1 split_def Let_def)
  qed
qed simp

lemma run_finds:
  assumes "inv s" and "\<forall>x \<in> set (xs @ ys). key_ok (op_key x)" and "key_ok k"
  shows "\<exists>bs s'. run_ops add query (xs @ Add k # ys @ [Check k]) s = Some (bs @ [True], s')"
proof -
  let ?ops = "xs @ Add k # ys @ [Check k]" and ?B = "snd (spec_ops (hash s) xs (bits s)) \<union> hash s k"
  have "hash s k \<subseteq> snd (spec_ops (hash s) ys ?B)" using spec_ops_mono [of ?B "hash s" ys] by simp
  then have "\<exists>bs. fst (spec_ops (hash s) ?ops (bits s)) = bs @ [True]"
    by (simp add: spec_ops_append split_def Let_def)
  moreover obtain s' where "run_ops add query ?ops s = Some (fst (spec_ops (hash s) ?ops (bits s)), s')"
    using run_refines [of s ?ops] assms by auto
  ultimately show ?thesis by auto
qed

end

text \<open>The filter of the code behind this interface; keys are non-empty and their length is an \<open>int\<close>.\<close>

definition bloom_key :: "u8 list \<Rightarrow> bool" where
  "bloom_key k \<longleftrightarrow> k \<noteq> [] \<and> int (length k) \<le> INT_MAX"

definition bloom_ready :: "BaseBloomFilter \<Rightarrow> bool" where
  "bloom_ready f \<longleftrightarrow> filter_wf f \<and> cInitFlag f = 1"

definition bloom_add :: "BaseBloomFilter \<Rightarrow> u8 list \<Rightarrow> BaseBloomFilter option" where
  "bloom_add f k = do { (r, bf) \<leftarrow> BloomFilter_Add (Some f) (Some k) (int (length k)); bf }"

definition bloom_query :: "BaseBloomFilter \<Rightarrow> u8 list \<Rightarrow> (bool \<times> BaseBloomFilter) option" where
  "bloom_query f k = do {
     (r, bf) \<leftarrow> BloomFilter_Check (Some f) (Some k) (int (length k));
     f1 \<leftarrow> bf;
     Some (r = 0, f1)
   }"

lemma bloom_add_law:
  assumes "bloom_ready f" and "bloom_key k"
  shows "\<exists>f'. bloom_add f k = Some f' \<and> bloom_ready f' \<and> positions f' = positions f \<and>
    filter_bits f' = filter_bits f \<union> positions f k"
proof -
  obtain f' where "BloomFilter_Add (Some f) (Some k) (int (length k)) =
      Some (if dwCount f + 1 \<le> dwMaxItems f then 0 else 1, Some f')"
    "filter_wf f'" "cInitFlag f' = 1" "same_params f f'" "filter_bits f' = live_bits f \<union> positions f k"
    using assms BloomFilter_Add_Some [of f "int (length k)" k] by (force simp: bloom_ready_def bloom_key_def)
  then show ?thesis using assms positions_same
    by (auto simp: bloom_add_def bloom_ready_def live_bits_def)
qed

lemma bloom_query_law:
  assumes "bloom_ready f" and "bloom_key k"
  shows "\<exists>f'. bloom_query f k = Some (positions f k \<subseteq> filter_bits f, f') \<and> bloom_ready f' \<and> positions f' = positions f \<and>
    filter_bits f' = filter_bits f"
proof -
  obtain ps where "BloomFilter_Check (Some f) (Some k) (int (length k)) =
      Some (if positions f k \<subseteq> filter_bits f then 0 else 1, Some (f\<lparr>pdwHashPos := Block ps\<rparr>))"
    "filter_wf (f\<lparr>pdwHashPos := Block ps\<rparr>)"
    using assms BloomFilter_Check_Some [of f "int (length k)" k] by (force simp: bloom_ready_def bloom_key_def)
  moreover have "positions (f\<lparr>pdwHashPos := Block ps\<rparr>) = positions f" "filter_bits (f\<lparr>pdwHashPos := Block ps\<rparr>) = filter_bits f"
    by (simp_all add: positions_def fun_eq_iff filter_bits_def)
  ultimately show ?thesis using assms by (auto simp: bloom_query_def bloom_ready_def)
qed

interpretation bloom: bit_filter bloom_ready filter_bits positions bloom_key bloom_add bloom_query
  by unfold_locales (fact bloom_add_law, fact bloom_query_law)

lemma div8_unat: "64 dvd unat (m::u32) \<Longrightarrow> unat m = 8 * unat (m div 8)"
  by (auto simp: unat_div8 dvd_def)

lemma dvd_word_times: "64 dvd unat (64 * y :: u32)"
  unfolding unat_word_ariths by (rule dvd_mod) simp_all

text \<open>What a successful initialisation gives: an empty filter of the computed size.\<close>

lemma init_ready:
  assumes "allocator_ok alloc" and "InitBloomFilter F alloc bf seed n p = Some (0, Some f)"
    and "fst (CalcBloomFilterParam F n p) \<noteq> 0"
  shows "bloom_ready f \<and> filter_bits f = {} \<and> dwCount f = 0 \<and> dwMaxItems f = n \<and> dwSeed f = seed \<and>
    (dwFilterBits f, dwHashFuncs f) = CalcBloomFilterParam F n p"
proof -
  obtain m k where mk: "CalcBloomFilterParam F n p = (m, k)" by fastforce
  have "m = 64 * (fp_bits F n p div 64 + 1)"
    using mk by (simp add: CalcBloomFilterParam_def Let_def minus_mod_eq_mult_div distrib_left)
  then have dvd: "64 dvd unat m" by (simp only: dvd_word_times)
  obtain g where "bf = Some g" "fp_unit F p" using assms(2) by (auto simp: InitBloomFilter_def split: option.splits if_splits)
  with assms(2) mk obtain blk pos where a: "alloc (uint (m div 8)) = Some blk" "alloc (4 * uint k) = Some pos"
    and f: "f = zero_filter\<lparr>dwMaxItems := n, dProbFalse := p, dwSeed := seed, dwFilterBits := m, dwHashFuncs := k,
      dwFilterSize := m div 8, pdwHashPos := Block (words_of (unat k) pos),
      pstFilter := Block (replicate (unat (m div 8)) 0), cInitFlag := 1\<rparr>"
    by (auto simp: InitBloomFilter_def Let_def split: bind_splits option.splits)
  have "m \<noteq> 0" using assms(3) mk by simp
  then have "m div 8 \<noteq> 0" using div8_unat [OF dvd] by (auto simp: unat_eq_0)
  then show ?thesis
    using div8_unat [OF dvd] by (simp add: f mk bloom_ready_def filter_wf_def zero_filter_def filter_bits_def words_of_def)
qed

section \<open>The file format\<close>

lemma encode_head_length [simp]: "length (encode_head fh) = 64"
  by (simp add: encode_head_def)

lemma decode_encode [simp]: "decode_head (encode_head fh @ ys) = fh"
  by (simp add: decode_head_def encode_head_def)

lemma save_ready:
  assumes "bloom_ready f"
  obtains bytes fl where "SaveBloomFilterToFile True (64 + unat (dwFilterSize f)) (Some f) (Some name) = Some (0, Some bytes)"
    and "pstFilter f = Block fl" and "length fl = unat (dwFilterSize f)"
    and "bytes = encode_head \<lparr>hMagicCode = MGAIC_CODE, hSeed = dwSeed f, hCount = dwCount f, hMaxItems = dwMaxItems f,
              hProbFalse = dProbFalse f, hFilterBits = dwFilterBits f, hHashFuncs = dwHashFuncs f, hFileCrc = 0,
              hFilterSize = dwFilterSize f\<rparr> @ fl"
  using assms unfolding bloom_ready_def
  by (elim conjE filter_wfE) (simp add: SaveBloomFilterToFile_def Let_def)

lemma bits_word_eq: "unat (b :: u32) = 8 * unat (s :: u32) \<Longrightarrow> b = s * 8"
proof -
  assume "unat b = 8 * unat s"
  then have "(of_nat (unat b) :: u32) = of_nat (8 * unat s)" by simp
  then show ?thesis by (simp add: mult.commute)
qed

lemma c_free_Some: "p \<noteq> Dangling \<Longrightarrow> \<exists>q. c_free p = Some q"
  by (cases p) auto

lemma load_saved:
  assumes "bloom_ready f" and "allocator_ok alloc" and "alloc (uint (dwFilterSize f)) = Some blk"
    and "alloc (4 * uint (dwHashFuncs f)) = Some pos" and "pstFilter g \<noteq> Dangling" and "pdwHashPos g \<noteq> Dangling"
    and "pstFilter f = Block fl" and "length fl = unat (dwFilterSize f)"
  shows "LoadBloomFilterFromFile alloc (Some (encode_head \<lparr>hMagicCode = MGAIC_CODE, hSeed = dwSeed f, hCount = dwCount f,
      hMaxItems = dwMaxItems f, hProbFalse = dProbFalse f, hFilterBits = dwFilterBits f, hHashFuncs = dwHashFuncs f,
      hFileCrc = 0, hFilterSize = dwFilterSize f\<rparr> @ fl)) (Some g) (Some name) =
    Some (0, Some (f\<lparr>pdwHashPos := Block (words_of (unat (dwHashFuncs f)) pos)\<rparr>))"
proof -
  have bits: "dwFilterBits f = dwFilterSize f * 8" using assms(1) by (auto simp: bloom_ready_def elim!: filter_wfE intro: bits_word_eq)
  obtain p where free: "c_free (pstFilter g) = Some p" using c_free_Some [OF assms(5)] ..
  obtain q where free': "c_free (pdwHashPos g) = Some q" using c_free_Some [OF assms(6)] ..
  have blk: "length blk = length fl" using allocator_ok_length [OF assms(2,3)] assms(8) by (simp flip: of_nat_eq_iff [where 'a = int])
  show ?thesis
  proof (cases f)
    case (fields c mi pr fb hf sd ct fs pf ph)
    then show ?thesis
      using free free' bits blk assms(1,3,4,7,8)
      by (simp add: LoadBloomFilterFromFile_def Let_def overwrite_def bloom_ready_def)
  qed
qed

section \<open>Properties\<close>

text \<open>A small filter for the witnesses: 128 bits and three hash functions.\<close>

definition demo_fp :: fp where
  "demo_fp = \<lparr>fp_unit = (\<lambda>_. True), fp_bits = (\<lambda>_ _. 64), fp_funcs = (\<lambda>_ _. 3)\<rparr>"

definition demo_filter :: BaseBloomFilter where
  "demo_filter = zero_filter\<lparr>dwMaxItems := 10, dwFilterBits := 128, dwHashFuncs := 3, dwFilterSize := 16,
     pdwHashPos := Block [0, 0, 0], pstFilter := Block (replicate 16 0), cInitFlag := 1\<rparr>"

lemma demo_filter_ready [simp]: "bloom_ready demo_filter"
  by (simp add: bloom_ready_def filter_wf_def demo_filter_def zero_filter_def)

lemma demo_words: "words_of 3 (replicate 12 0) = [0, 0, 0]"
  by (simp add: words_of_def upt_rec numeral_eq_Suc)

lemma demo_init: "InitBloomFilter demo_fp calloc_all (Some zero_filter) 0 10 0 = Some (0, Some demo_filter)"
  using demo_words
  by (simp add: InitBloomFilter_def demo_fp_def demo_filter_def zero_filter_def CalcBloomFilterParam_def calloc_all_def)

text \<open>
  C20. Refinement of the Bloom filter to a set of bit positions. After a successful
  initialisation with a size that does not wrap to zero, any sequence of additions and checks
  of non-empty keys runs to its end, no access leaves the filter or the array of positions,
  and the answers and the bits are those of the abstract filter that starts empty: an addition
  adds the positions of the key, a check asks whether all of them are there.
\<close>

theorem bloom_refines:
  assumes "allocator_ok alloc" and "InitBloomFilter F alloc bf seed n p = Some (0, Some f)"
    and "fst (CalcBloomFilterParam F n p) \<noteq> 0" and "\<forall>x \<in> set ops. bloom_key (op_key x)"
  shows "\<exists>f'. run_ops bloom_add bloom_query ops f = Some (fst (spec_ops (positions f) ops {}), f') \<and>
    filter_wf f' \<and> filter_bits f' = snd (spec_ops (positions f) ops {})"
  using init_ready [OF assms(1,2,3)] bloom.run_refines [of f ops] assms(4) by (auto simp: bloom_ready_def)

theorem bloom_refines_witness:
  "\<exists>f'. run_ops bloom_add bloom_query [Check [1], Add [1, 2], Check [1, 2]] demo_filter =
      Some (fst (spec_ops (positions demo_filter) [Check [1], Add [1, 2], Check [1, 2]] {}), f') \<and>
    filter_wf f' \<and> filter_bits f' = snd (spec_ops (positions demo_filter) [Check [1], Add [1, 2], Check [1, 2]] {})"
  by (rule bloom_refines [OF allocator_ok_calloc demo_init])
    (simp_all add: bloom_key_def INT_MAX_def CalcBloomFilterParam_def demo_fp_def)

text \<open>
  C21. No false negatives, across a file: a key that was added to a filter is found after any
  further additions and checks, and also in the filter that \<open>LoadBloomFilterFromFile\<close> reads
  from the file \<open>SaveBloomFilterToFile\<close> wrote, again after any further additions and checks.
\<close>

theorem bloom_no_false_negatives:
  assumes "bloom_ready f" and "bloom_key k" and "\<forall>x \<in> set (xs @ ys @ zs). bloom_key (op_key x)"
    and "allocator_ok alloc" and "\<And>n. 0 \<le> n \<Longrightarrow> alloc n \<noteq> None"
    and "pstFilter g \<noteq> Dangling" and "pdwHashPos g \<noteq> Dangling"
  shows "\<exists>bs f' bytes g' cs g''. run_ops bloom_add bloom_query (xs @ Add k # ys @ [Check k]) f = Some (bs @ [True], f') \<and>
    SaveBloomFilterToFile True (64 + unat (dwFilterSize f')) (Some f') (Some name) = Some (0, Some bytes) \<and>
    LoadBloomFilterFromFile alloc (Some bytes) (Some g) (Some name) = Some (0, Some g') \<and>
    run_ops bloom_add bloom_query (zs @ [Check k]) g' = Some (cs @ [True], g'')"
proof -
  let ?ops = "xs @ Add k # ys @ [Check k]" and ?zs = "zs @ [Check k]"
  have keys: "\<forall>x \<in> set ?ops. bloom_key (op_key x)" "\<forall>x \<in> set ?zs. bloom_key (op_key x)" using assms(2,3) by auto
  obtain bs f1 where run1: "run_ops bloom_add bloom_query ?ops f = Some (bs @ [True], f1)"
    using bloom.run_finds [of f xs ys k] assms(1-3) by auto
  obtain f' where "run_ops bloom_add bloom_query ?ops f = Some (fst (spec_ops (positions f) ?ops (filter_bits f)), f')"
    and f': "bloom_ready f'" "positions f' = positions f" "filter_bits f' = snd (spec_ops (positions f) ?ops (filter_bits f))"
    using bloom.run_refines [OF assms(1) keys(1)] by blast
  then have run: "run_ops bloom_add bloom_query ?ops f = Some (bs @ [True], f')" using run1 by simp
  let ?B = "snd (spec_ops (positions f) xs (filter_bits f)) \<union> positions f k"
  have "positions f k \<subseteq> filter_bits f'"
    using spec_ops_mono [of ?B "positions f" ys] by (simp add: f'(3) spec_ops_append split_def Let_def)
  then have in': "positions f' k \<subseteq> filter_bits f'" by (simp add: f'(2))
  obtain bytes fl where save: "SaveBloomFilterToFile True (64 + unat (dwFilterSize f')) (Some f') (Some name) = Some (0, Some bytes)"
    and fl: "pstFilter f' = Block fl" "length fl = unat (dwFilterSize f')"
    and bytes: "bytes = encode_head \<lparr>hMagicCode = MGAIC_CODE, hSeed = dwSeed f', hCount = dwCount f', hMaxItems = dwMaxItems f',
              hProbFalse = dProbFalse f', hFilterBits = dwFilterBits f', hHashFuncs = dwHashFuncs f', hFileCrc = 0,
              hFilterSize = dwFilterSize f'\<rparr> @ fl"
    using f'(1) by (rule save_ready)
  obtain blk pos where al: "alloc (uint (dwFilterSize f')) = Some blk" "alloc (4 * uint (dwHashFuncs f')) = Some pos"
    using assms(5) [of "uint (dwFilterSize f')"] assms(5) [of "4 * uint (dwHashFuncs f')"] by auto
  let ?g = "f'\<lparr>pdwHashPos := Block (words_of (unat (dwHashFuncs f')) pos)\<rparr>"
  have load: "LoadBloomFilterFromFile alloc (Some bytes) (Some g) (Some name) = Some (0, Some ?g)"
    unfolding bytes by (rule load_saved [OF f'(1) assms(4) al assms(6,7) fl])
  have g: "bloom_ready ?g" "positions ?g = positions f'" "filter_bits ?g = filter_bits f'"
    using f'(1) by (auto simp: bloom_ready_def positions_def filter_bits_def fun_eq_iff words_of_def intro!: filter_wf_positions)
  then obtain g'' where run2: "run_ops bloom_add bloom_query ?zs ?g = Some (fst (spec_ops (positions f') ?zs (filter_bits f')), g'')"
    using bloom.run_refines [OF g(1) keys(2)] by auto
  have "positions f' k \<subseteq> snd (spec_ops (positions f') zs (filter_bits f'))"
    using in' spec_ops_mono by (rule order_trans)
  then have "fst (spec_ops (positions f') ?zs (filter_bits f')) = fst (spec_ops (positions f') zs (filter_bits f')) @ [True]"
    by (simp add: spec_ops_append split_def Let_def)
  with run save load run2 show ?thesis by auto
qed

theorem bloom_no_false_negatives_witness:
  "\<exists>bs f' bytes g' cs g''. run_ops bloom_add bloom_query ([Add [9]] @ Add [1, 2, 3] # [Check [7]] @ [Check [1, 2, 3]]) demo_filter =
      Some (bs @ [True], f') \<and>
    SaveBloomFilterToFile True (64 + unat (dwFilterSize f')) (Some f') (Some ''dump.bin'') = Some (0, Some bytes) \<and>
    LoadBloomFilterFromFile calloc_all (Some bytes) (Some zero_filter) (Some ''dump.bin'') = Some (0, Some g') \<and>
    run_ops bloom_add bloom_query ([Add [5]] @ [Check [1, 2, 3]]) g' = Some (cs @ [True], g'')"
  by (rule bloom_no_false_negatives) (auto simp: bloom_key_def INT_MAX_def calloc_all_def zero_filter_def)

text \<open>
  \<open>ResetBloomFilter\<close> clears nothing by itself: until the next addition a check still
  reports every key that was there before. The next addition starts from no bits.
\<close>

lemma reset_is_lazy:
  assumes "bloom_ready f" and "bloom_key k" and "positions f k \<subseteq> filter_bits f" and "bloom_key j"
  shows "\<exists>g q f'. ResetBloomFilter (Some f) = (0, Some g) \<and> dwCount g = 0 \<and> bloom_query g k = Some (True, q) \<and>
    bloom_add q j = Some f' \<and> bloom_ready f' \<and> dwCount f' = 1 \<and> filter_bits f' = positions f j"
proof -
  let ?g = "f\<lparr>cInitFlag := 0, dwCount := 0\<rparr>"
  have g: "filter_wf ?g" "positions ?g = positions f" "filter_bits ?g = filter_bits f"
    using assms(1) by (simp_all add: bloom_ready_def positions_def filter_bits_def fun_eq_iff)
  have lens: "0 < int (length k)" "0 < int (length j)" using assms(2,4) by (simp_all add: bloom_key_def)
  obtain ps where q: "BloomFilter_Check (Some ?g) (Some k) (int (length k)) =
      Some (if positions ?g (take (nat (int (length k))) k) \<subseteq> filter_bits ?g then 0 else 1, Some (?g\<lparr>pdwHashPos := Block ps\<rparr>))"
    "filter_wf (?g\<lparr>pdwHashPos := Block ps\<rparr>)" (is "filter_wf ?q")
    by (rule BloomFilter_Check_Some [OF g(1) lens(1) order_refl])
  obtain f' where f': "BloomFilter_Add (Some ?q) (Some j) (int (length j)) =
      Some (if dwCount ?q + 1 \<le> dwMaxItems ?q then 0 else 1, Some f')"
    "filter_wf f'" "cInitFlag f' = 1" "dwCount f' = dwCount ?q + 1" "filter_bits f' = live_bits ?q \<union> positions ?q (take (nat (int (length j))) j)"
    by (rule BloomFilter_Add_Some [OF q(2) lens(2) order_refl])
  have pos: "positions ?q = positions f" by (simp add: positions_def fun_eq_iff)
  show ?thesis
  proof (intro exI conjI)
    show "ResetBloomFilter (Some f) = (0, Some ?g)" by (simp add: ResetBloomFilter_def)
    show "bloom_query ?g k = Some (True, ?q)" using q(1) assms(3) unfolding g by (simp add: bloom_query_def)
    show "bloom_add ?q j = Some f'" using f'(1) by (simp add: bloom_add_def)
  qed (use f' pos in \<open>simp_all add: bloom_ready_def live_bits_def\<close>)
qed

definition full_filter :: BaseBloomFilter where
  "full_filter = demo_filter\<lparr>pstFilter := Block (replicate 16 255)\<rparr>"

lemma reset_is_lazy_witness:
  "\<exists>g q f'. ResetBloomFilter (Some full_filter) = (0, Some g) \<and> dwCount g = 0 \<and> bloom_query g [1] = Some (True, q) \<and>
    bloom_add q [2] = Some f' \<and> bloom_ready f' \<and> dwCount f' = 1 \<and> filter_bits f' = positions full_filter [2]"
proof (rule reset_is_lazy)
  show r: "bloom_ready full_filter"
    by (simp add: full_filter_def bloom_ready_def filter_wf_def demo_filter_def zero_filter_def)
  have "(255 :: u8) = mask 8" by (simp add: mask_eq_exp_minus_1)
  then have "bit (255 :: u8) (n mod 8)" for n by (simp only: bit_mask_iff) simp
  then have "set_bits_of (replicate 16 255) = {n. n < 128}" by (auto simp: set_bits_of_def)
  moreover have "n \<in> positions full_filter [1] \<Longrightarrow> n < 128" for n
    using positions_bound [of full_filter n "[1]"] r by (simp add: bloom_ready_def full_filter_def demo_filter_def zero_filter_def)
  ultimately show "positions full_filter [1] \<subseteq> filter_bits full_filter"
    by (auto simp: full_filter_def filter_bits_def)
qed (simp_all add: bloom_key_def INT_MAX_def)

text \<open>
  Loading from a file that cannot be opened leaves dangling pointers: the blocks of the
  filter are freed and the pointers kept. Every later attempt to load, to initialise again or
  to release the filter frees them a second time.
\<close>

lemma load_missing_double_free:
  assumes "pstFilter f = Block fl" and "pdwHashPos f = Block ps"
  shows "\<exists>g. LoadBloomFilterFromFile alloc None (Some f) (Some name) = Some (-11, Some g) \<and>
    LoadBloomFilterFromFile alloc' bytes (Some g) (Some name') = None \<and> FreeBloomFilter (Some g) = None \<and>
    (fp_unit F p \<longrightarrow> InitBloomFilter F alloc' (Some g) seed n p = None)"
  using assms by (simp add: LoadBloomFilterFromFile_def FreeBloomFilter_def InitBloomFilter_def)

text \<open>
  All calls on a filter in memory. An initialisation brings its own allocator, since each \<open>malloc\<close> may fail; a call on
  the null pointer is a call with the filter \<^const>\<open>None\<close>.
\<close>

datatype bloom_request = Call_Init allocator u32 u32 u64 | Call_Free | Call_Reset | Call_RealReset | Call_Add "u8 list" | Call_Check "u8 list"

fun bloom_call :: "fp \<Rightarrow> bloom_request \<Rightarrow> BaseBloomFilter option \<Rightarrow> (int \<times> BaseBloomFilter option) option" where
  "bloom_call F (Call_Init alloc seed n p) bf = InitBloomFilter F alloc bf seed n p"
| "bloom_call F Call_Free bf = FreeBloomFilter bf"
| "bloom_call F Call_Reset bf = Some (ResetBloomFilter bf)"
| "bloom_call F Call_RealReset bf = RealResetBloomFilter bf"
| "bloom_call F (Call_Add k) bf = BloomFilter_Add bf (Some k) (int (length k))"
| "bloom_call F (Call_Check k) bf = BloomFilter_Check bf (Some k) (int (length k))"

fun run_calls :: "('c \<Rightarrow> 's \<Rightarrow> ('r \<times> 's) option) \<Rightarrow> 'c list \<Rightarrow> 's \<Rightarrow> ('r list \<times> 's) option" where
  "run_calls f [] s = Some ([], s)"
| "run_calls f (c # cs) s = do { (r, s1) \<leftarrow> f c s; (rs, s2) \<leftarrow> run_calls f cs s1; Some (r # rs, s2) }"

text \<open>
  The abstract filter: the null pointer, a structure without a filter, or a filter with the positions of a
  key, the set of bits, whether the next addition clears it first, and the number of additions and their limit. A call
  that is not allowed has no result: adding, checking and clearing without a filter, and a size that wraps to zero.
\<close>

datatype abs_bloom = No_Object | No_Filter | Filter "u8 list \<Rightarrow> nat set" "nat set" bool u32 u32

fun abs_call :: "fp \<Rightarrow> bloom_request \<Rightarrow> abs_bloom \<Rightarrow> (int \<times> abs_bloom) option" where
  "abs_call F c No_Object = Some (-1, No_Object)"
| "abs_call F (Call_Init alloc seed n p) A =
     (if \<not> fp_unit F p then Some (-2, A)
      else let (m, k) = CalcBloomFilterParam F n p in
        if alloc (uint (m div 8)) = None then Some (-100, No_Filter)
        else if alloc (4 * uint k) = None then Some (-200, No_Filter)
        else if m = 0 then None
        else Some (0, Filter (\<lambda>bs. unat ` set (key_positions seed m k bs)) {} False 0 n))"
| "abs_call F Call_Free A = Some (0, No_Filter)"
| "abs_call F Call_Reset (Filter P S lazy c mx) = Some (0, Filter P S True 0 mx)"
| "abs_call F Call_Reset No_Filter = Some (0, No_Filter)"
| "abs_call F Call_RealReset (Filter P S lazy c mx) = Some (0, Filter P {} False 0 mx)"
| "abs_call F (Call_Add k) (Filter P S lazy c mx) =
     (if k = [] then Some (-1, Filter P S lazy c mx)
      else Some (if c + 1 \<le> mx then 0 else 1, Filter P ((if lazy then {} else S) \<union> P k) False (c + 1) mx))"
| "abs_call F (Call_Check k) (Filter P S lazy c mx) =
     Some (if k = [] then -1 else if P k \<subseteq> S then 0 else 1, Filter P S lazy c mx)"
| "abs_call F c No_Filter = None"

fun represents :: "abs_bloom \<Rightarrow> BaseBloomFilter option \<Rightarrow> bool" where
  "represents No_Object bf \<longleftrightarrow> bf = None"
| "represents No_Filter bf \<longleftrightarrow> (\<exists>f. bf = Some f \<and> pstFilter f \<noteq> Dangling \<and> pdwHashPos f \<noteq> Dangling)"
| "represents (Filter P S lazy c mx) bf \<longleftrightarrow> (\<exists>f. bf = Some f \<and> filter_wf f \<and> positions f = P \<and> filter_bits f = S \<and>
     (lazy \<longleftrightarrow> cInitFlag f \<noteq> 1) \<and> dwCount f = c \<and> dwMaxItems f = mx)"

lemma represents_free:
  assumes "represents A (Some f)"
  shows "\<exists>p q. c_free (pstFilter f) = Some p \<and> c_free (pdwHashPos f) = Some q"
proof -
  have wf: "pstFilter f \<noteq> Dangling \<and> pdwHashPos f \<noteq> Dangling" if "filter_wf f" using that by (rule filter_wfE) simp
  have "pstFilter f \<noteq> Dangling \<and> pdwHashPos f \<noteq> Dangling" using assms wf by (cases A) simp_all
  then show ?thesis using c_free_Some [of "pstFilter f"] c_free_Some [of "pdwHashPos f"] by simp
qed

lemma call_init_refines:
  assumes "represents A (Some f)" and "abs_call F (Call_Init alloc seed n p) A = Some (r, B)" and "allocator_ok alloc"
  shows "\<exists>bf. InitBloomFilter F alloc (Some f) seed n p = Some (r, bf) \<and> represents B bf"
proof -
  have A: "A \<noteq> No_Object" using assms(1) by auto
  obtain p' q' where free: "c_free (pstFilter f) = Some p'" "c_free (pdwHashPos f) = Some q'" using represents_free [OF assms(1)] by blast
  obtain m k where mk: "CalcBloomFilterParam F n p = (m, k)" by fastforce
  consider "\<not> fp_unit F p" | "fp_unit F p" "alloc (uint (m div 8)) = None \<or> alloc (4 * uint k) = None"
    | blk pos where "fp_unit F p" "alloc (uint (m div 8)) = Some blk" "alloc (4 * uint k) = Some pos" by fastforce
  then show ?thesis
  proof cases
    case 1
    then show ?thesis using assms(1,2) A by (cases A) (auto simp: InitBloomFilter_def)
  next
    case 2
    then show ?thesis using assms(2) A free mk
      by (cases A) (auto simp: InitBloomFilter_def Let_def zero_filter_def split: option.splits if_splits)
  next
    case 3
    then have r: "r = 0" "m \<noteq> 0" "B = Filter (\<lambda>bs. unat ` set (key_positions seed m k bs)) {} False 0 n"
      using assms(2) A mk by (cases A; auto split: if_splits)+
    obtain g where init: "InitBloomFilter F alloc (Some f) seed n p = Some (0, Some g)"
      using 3 free mk by (simp add: InitBloomFilter_def Let_def)
    have g: "bloom_ready g \<and> filter_bits g = {} \<and> dwCount g = 0 \<and> dwMaxItems g = n \<and> dwSeed g = seed \<and> (dwFilterBits g, dwHashFuncs g) = (m, k)"
      using init_ready [OF assms(3) init] mk r(2) by simp
    then have "positions g = (\<lambda>bs. unat ` set (key_positions seed m k bs))" by (auto simp: positions_def fun_eq_iff)
    with g init r show ?thesis by (simp add: bloom_ready_def)
  qed
qed

fun call_ok :: "bloom_request \<Rightarrow> bool" where
  "call_ok (Call_Init alloc seed n p) \<longleftrightarrow> allocator_ok alloc"
| "call_ok (Call_Add k) \<longleftrightarrow> int (length k) \<le> INT_MAX"
| "call_ok (Call_Check k) \<longleftrightarrow> int (length k) \<le> INT_MAX"
| "call_ok _ \<longleftrightarrow> True"

lemma call_add_refines:
  assumes "filter_wf f" and "k \<noteq> []"
  shows "\<exists>g. BloomFilter_Add (Some f) (Some k) (int (length k)) = Some (if dwCount f + 1 \<le> dwMaxItems f then 0 else 1, Some g) \<and>
    represents (Filter (positions f) ((if cInitFlag f \<noteq> 1 then {} else filter_bits f) \<union> positions f k) False (dwCount f + 1) (dwMaxItems f)) (Some g)"
proof -
  have l: "0 < int (length k)" using assms(2) by simp
  obtain g where g: "BloomFilter_Add (Some f) (Some k) (int (length k)) = Some (if dwCount f + 1 \<le> dwMaxItems f then 0 else 1, Some g)"
    "filter_wf g" "cInitFlag g = 1" "same_params f g" "dwCount g = dwCount f + 1" "filter_bits g = live_bits f \<union> positions f (take (nat (int (length k))) k)"
    by (rule BloomFilter_Add_Some [OF assms(1) l order_refl])
  with positions_same [OF g(4)] show ?thesis by (auto simp: live_bits_def same_params_def)
qed

lemma call_check_refines:
  assumes "filter_wf f" and "k \<noteq> []"
  shows "\<exists>g. BloomFilter_Check (Some f) (Some k) (int (length k)) = Some (if positions f k \<subseteq> filter_bits f then 0 else 1, Some g) \<and>
    represents (Filter (positions f) (filter_bits f) (cInitFlag f \<noteq> 1) (dwCount f) (dwMaxItems f)) (Some g)"
proof -
  have l: "0 < int (length k)" using assms(2) by simp
  obtain ps where "BloomFilter_Check (Some f) (Some k) (int (length k)) =
      Some (if positions f (take (nat (int (length k))) k) \<subseteq> filter_bits f then 0 else 1, Some (f\<lparr>pdwHashPos := Block ps\<rparr>))"
    "filter_wf (f\<lparr>pdwHashPos := Block ps\<rparr>)"
    by (rule BloomFilter_Check_Some [OF assms(1) l order_refl])
  then show ?thesis by (simp add: positions_def filter_bits_def fun_eq_iff)
qed

lemma call_refines:
  assumes "represents A bf" and "abs_call F c A = Some (r, B)" and "call_ok c"
  shows "\<exists>bf1. bloom_call F c bf = Some (r, bf1) \<and> represents B bf1"
proof (cases bf)
  case None
  then have "A = No_Object" using assms(1) by (cases A) auto
  with None assms(2) show ?thesis
    by (cases c) (auto simp: InitBloomFilter_def FreeBloomFilter_def ResetBloomFilter_def RealResetBloomFilter_def BloomFilter_Add_def BloomFilter_Check_def)
next
  case (Some f)
  then have rep: "represents A (Some f)" and A: "A \<noteq> No_Object" using assms(1) by auto
  obtain p' q' where free: "c_free (pstFilter f) = Some p'" "c_free (pdwHashPos f) = Some q'" using represents_free [OF rep] by blast
  show ?thesis
  proof (cases c)
    case (Call_Init alloc seed n p)
    with call_init_refines [OF rep] assms(2,3) Some show ?thesis by simp
  next
    case Call_Free
    then show ?thesis using assms(2) A free Some by (cases A) (auto simp: FreeBloomFilter_def)
  next
    case Call_Reset
    then show ?thesis using assms(2) A rep Some
      by (cases A) (auto simp: ResetBloomFilter_def positions_def filter_bits_def fun_eq_iff)
  next
    case Call_RealReset
    then show ?thesis using assms(2) A rep Some
      by (cases A) (auto simp: RealResetBloomFilter_def clear_filter_Some filter_wf_filter positions_def filter_bits_def fun_eq_iff)
  next
    case (Call_Add k)
    then obtain P S lz cnt mx where F: "A = Filter P S lz cnt mx" using assms(2) A by (cases A) auto
    have f: "filter_wf f" "P = positions f" "S = filter_bits f" "lz \<longleftrightarrow> cInitFlag f \<noteq> 1" "cnt = dwCount f" "mx = dwMaxItems f" using rep F by auto
    show ?thesis
    proof (cases "k = []")
      case True
      with assms(2) rep Some Call_Add F show ?thesis by (auto simp: BloomFilter_Add_def)
    next
      case False
      with assms(2) Call_Add F have "r = (if dwCount f + 1 \<le> dwMaxItems f then 0 else 1)"
        "B = Filter (positions f) ((if cInitFlag f \<noteq> 1 then {} else filter_bits f) \<union> positions f k) False (dwCount f + 1) (dwMaxItems f)"
        unfolding f(2-6) by simp_all
      note rb = this
      show ?thesis using call_add_refines [OF f(1) False] unfolding Call_Add Some rb bloom_call.simps by blast
    qed
  next
    case (Call_Check k)
    then obtain P S lz cnt mx where F: "A = Filter P S lz cnt mx" using assms(2) A by (cases A) auto
    have f: "filter_wf f" "P = positions f" "S = filter_bits f" "lz \<longleftrightarrow> cInitFlag f \<noteq> 1" "cnt = dwCount f" "mx = dwMaxItems f" using rep F by auto
    show ?thesis
    proof (cases "k = []")
      case True
      with assms(2) rep Some Call_Check F show ?thesis by (auto simp: BloomFilter_Check_def)
    next
      case False
      have lz: "lz = (cInitFlag f \<noteq> 1)" using f(4) by simp
      from assms(2) Call_Check F False have "r = (if positions f k \<subseteq> filter_bits f then 0 else 1)"
        "B = Filter (positions f) (filter_bits f) (cInitFlag f \<noteq> 1) (dwCount f) (dwMaxItems f)"
        unfolding f(2,3,5,6) lz by simp_all
      note rb = this
      show ?thesis using call_check_refines [OF f(1) False] unfolding Call_Check Some rb bloom_call.simps by blast
    qed
  qed
qed

lemma run_calls_simulation:
  assumes "\<And>c a b r s. R a s \<Longrightarrow> f c a = Some (r, b) \<Longrightarrow> ok c \<Longrightarrow> \<exists>t. g c s = Some (r, t) \<and> R b t"
  shows "R a s \<Longrightarrow> run_calls f cs a = Some (rs, b) \<Longrightarrow> list_all ok cs \<Longrightarrow> \<exists>t. run_calls g cs s = Some (rs, t) \<and> R b t"
proof (induction cs arbitrary: a s rs)
  case (Cons c cs)
  from Cons.prems(2) obtain r a1 rs1 where "f c a = Some (r, a1)" "run_calls f cs a1 = Some (rs1, b)" "rs = r # rs1" by (auto split: bind_splits)
  with assms [OF Cons.prems(1), of c r a1] Cons.IH [of a1 _ rs1] Cons.prems(3) show ?case by fastforce
qed simp

text \<open>
  C22. The life of a filter: initialisation, which may fail at the probability or at each of its two allocations
  and may be repeated on a filter in use, release, both kinds of reset, additions and checks, in any order the
  abstract filter allows, run without a double release and without an access outside a block; every return value is
  the one of the abstract filter, and the bits are always its bits. On the null pointer every call returns -1. Keys have
  at most \<open>INT_MAX\<close> bytes, and memory from the allocator has arbitrary contents.
\<close>

theorem bloom_life:
  assumes "run_calls (abs_call F) cs A = Some (rs, B)" and "represents A bf" and "list_all call_ok cs"
  shows "\<exists>bf1. run_calls (bloom_call F) cs bf = Some (rs, bf1) \<and> represents B bf1"
proof (rule run_calls_simulation [where R = represents and f = "abs_call F" and ok = call_ok, OF _ assms(2,1,3)])
  show "\<exists>t. bloom_call F c s = Some (r, t) \<and> represents b t" if "represents a s" "abs_call F c a = Some (r, b)" "call_ok c" for c a b r s
    using that by (rule call_refines)
qed

theorem bloom_life_witness:
  "\<exists>bf1. run_calls (bloom_call demo_fp) [Call_Init (\<lambda>_. None) 0 10 0, Call_Init calloc_all 0 10 0, Call_Add [1], Call_Check [], Call_Reset, Call_Add [2], Call_RealReset, Call_Init calloc_all 7 20 0, Call_Free, Call_Free]
      (Some zero_filter) = Some ([-100, 0, 0, -1, 0, 0, 0, 0, 0, 0], bf1) \<and> represents No_Filter bf1"
  by (rule bloom_life [where A = No_Filter])
    (simp_all add: allocator_ok_def calloc_all_def CalcBloomFilterParam_def demo_fp_def zero_filter_def INT_MAX_def)

text \<open>
  C23. \<open>MurmurHash2_x64\<close>, with its loop over 64-bit words and its switch with seven cases that
  fall through, reads only the first \<open>len\<close> bytes of the key and computes the reference: a fold
  over the little-endian words of the key and one last word of the remaining bytes.
\<close>

theorem murmur_reference:
  assumes "0 \<le> len" and "len \<le> int (length key)"
  shows "MurmurHash2_x64 key len seed = Some (murmur_spec (take (nat len) key) seed)"
  using assms by (rule murmur_computes)

theorem murmur_reference_witness:
  "MurmurHash2_x64 [1, 2, 3, 4, 5, 6, 7, 8, 9, 10] 9 5 = Some (murmur_spec [1, 2, 3, 4, 5, 6, 7, 8, 9] 5)"
  using murmur_reference [of 9 "[1, 2, 3, 4, 5, 6, 7, 8, 9, 10]" 5] by (simp add: numeral_eq_Suc)
end
