(* ===== verification/Huffman_File.thy ===== *)
theory Huffman_File
  imports Byte_Words "HOL-Library.Multiset"
begin

text \<open>
  File compression with Huffman codes: \<open>src/HuffmanDecompression/HuffmanTree.hpp\<close> and \<open>FileCompress.hpp\<close>. A file is
  the list of its bytes. \<open>std::priority_queue\<close> leaves open which of several least elements is on top, so its operations
  are a parameter; the tree that is built from the table of the compressed file is the one that was built
  from the counts because both run the same operations on the same elements.

  \<^const>\<open>None\<close> is an access through the null pointer, to the top of an empty queue, or a loop that does not end; behind
  the end of a truncated table the code reads the same entry again and again. The names of the files and the
  printing of statistics are left out.
\<close>

unbundle bit_operations_syntax

section \<open>Trees\<close>

text \<open>A node without children is a leaf with its character; the others have a weight and two children.\<close>

datatype huffman_tree = HLeaf (leaf_ch: u8) (leaf_count: u32) | HNode u32 huffman_tree huffman_tree

fun tree_count :: "huffman_tree \<Rightarrow> u32" where
  "tree_count (HLeaf c n) = n"
| "tree_count (HNode n l r) = n"

record 'q priority_queue =
  pq_empty :: 'q
  pq_push :: "huffman_tree \<Rightarrow> 'q \<Rightarrow> 'q"
  pq_top :: "'q \<Rightarrow> huffman_tree"
  pq_pop :: "'q \<Rightarrow> 'q"
  pq_size :: "'q \<Rightarrow> nat"

text \<open>The loop of \<open>_CreateHuffmantree\<close>; each iteration takes one tree out of the queue, so its size bounds their number.\<close>

fun merge_trees :: "nat \<Rightarrow> 'q priority_queue \<Rightarrow> 'q \<Rightarrow> huffman_tree option" where
  "merge_trees 0 Q hp = None"
| "merge_trees (Suc n) Q hp =
     (if pq_size Q hp > 1 then
        let left = pq_top Q hp;
            hp1 = pq_pop Q hp;
            right = pq_top Q hp1;
            hp2 = pq_pop Q hp1
        in merge_trees n Q (pq_push Q (HNode (tree_count left + tree_count right) left right) hp2)
      else if pq_size Q hp = 0 then None
      else Some (pq_top Q hp))"

record char_info =
  ci_ch :: u8
  ci_count :: u32
  ci_code :: string

definition CreateHuffmantree :: "'q priority_queue \<Rightarrow> char_info list \<Rightarrow> u32 \<Rightarrow> huffman_tree option" where
  "CreateHuffmantree Q infos invalid =
     (let hp = fold (\<lambda>x hp. if ci_count x \<noteq> invalid then pq_push Q (HLeaf (ci_ch x) (ci_count x)) hp else hp) infos (pq_empty Q)
      in merge_trees (pq_size Q hp + 1) Q hp)"

section \<open>Compression\<close>

definition new_infos :: "char_info list" where
  "new_infos = map (\<lambda>i. \<lparr>ci_ch = of_nat i, ci_count = 0, ci_code = ''''\<rparr>) [0..<256]"

definition upd_info :: "char_info list \<Rightarrow> u8 \<Rightarrow> (char_info \<Rightarrow> char_info) \<Rightarrow> char_info list" where
  "upd_info infos c f = infos[unat c := f (infos ! unat c)]"

fun GenerateHuffmanCode :: "huffman_tree \<Rightarrow> string \<Rightarrow> char_info list \<Rightarrow> char_info list" where
  "GenerateHuffmanCode (HLeaf c n) code infos = upd_info infos c (\<lambda>x. x\<lparr>ci_code := code\<rparr>)"
| "GenerateHuffmanCode (HNode n l r) code infos = GenerateHuffmanCode r (code @ ''1'') (GenerateHuffmanCode l (code @ ''0'') infos)"

definition count_chars :: "u8 list \<Rightarrow> char_info list \<Rightarrow> char_info list" where
  "count_chars file infos = fold (\<lambda>c infos. upd_info infos c (\<lambda>x. x\<lparr>ci_count := ci_count x + 1\<rparr>)) file infos"

text \<open>An entry of the table as \<open>fwrite\<close> stores a \<open>TmpInfo\<close>: the character, three bytes of padding, the count.\<close>

definition tmp_info :: "u8 list \<Rightarrow> u8 \<Rightarrow> u32 \<Rightarrow> u8 list" where
  "tmp_info pad ch n = ch # take 3 pad @ le_bytes 4 n"

definition write_table :: "u8 list \<Rightarrow> u8 \<Rightarrow> char_info list \<Rightarrow> u8 list" where
  "write_table pad junk infos =
     concat (map (\<lambda>x. if ci_count x > 0 then tmp_info pad (ci_ch x) (ci_count x) else []) infos) @ tmp_info pad junk (-1)"

text \<open>One character of a code goes into the bit \<open>pos\<close> of \<open>value\<close>; a full byte is written.\<close>

fun put_bits :: "string \<Rightarrow> u8 \<times> nat \<times> u8 list \<Rightarrow> (u8 \<times> nat \<times> u8 list) option" where
  "put_bits [] s = Some s"
| "put_bits (b # code) (val, pos, written) =
     (if b \<noteq> CHR ''0'' \<and> b \<noteq> CHR ''1'' then None
      else let v = (if b = CHR ''1'' then val OR push_bit pos 1 else val AND NOT (push_bit pos 1)) in
        if pos + 1 = 8 then put_bits code (0, 0, written @ [v]) else put_bits code (v, pos + 1, written))"

fun put_file :: "char_info list \<Rightarrow> u8 list \<Rightarrow> u8 \<times> nat \<times> u8 list \<Rightarrow> (u8 \<times> nat \<times> u8 list) option" where
  "put_file infos [] s = Some s"
| "put_file infos (c # file) s = do { s1 \<leftarrow> put_bits (ci_code (infos ! unat c)) s; put_file infos file s1 }"

definition Compress :: "'q priority_queue \<Rightarrow> u8 list \<Rightarrow> u8 \<Rightarrow> char_info list \<Rightarrow> u8 list \<Rightarrow> (char_info list \<times> u8 list) option" where
  "Compress Q pad junk infos file = do {
     let infos1 = count_chars file infos;
     tree \<leftarrow> CreateHuffmantree Q infos1 0;
     let infos2 = GenerateHuffmanCode tree '''' infos1;
     (val, pos, data) \<leftarrow> put_file infos2 file (0, 0, []);
     Some (infos2, write_table pad junk infos2 @ data @ (if pos > 0 then [val] else []))
   }"

section \<open>Decompression\<close>

function read_table :: "char_info list \<Rightarrow> u8 list \<Rightarrow> (char_info list \<times> u8 list) option" where
  "read_table infos file =
     (if length file < 8 then None
      else let ch = file ! 0; n = le_word (take 4 (drop 4 file)) :: u32 in
        if n = -1 then Some (infos, drop 8 file)
        else read_table (upd_info infos ch (\<lambda>x. x\<lparr>ci_ch := ch, ci_count := n\<rparr>)) (drop 8 file))"
  by pat_completeness auto
termination by (relation "measure (\<lambda>(infos, file). length file)") auto

declare read_table.simps [simp del]

text \<open>
  The eight bits of a byte from the bit \<open>i\<close> on. The node \<open>cur\<close> is left through one of its children; at a leaf the
  character is written, and the loop ends with the last one.
\<close>

fun byte_loop :: "nat \<Rightarrow> huffman_tree \<Rightarrow> u8 \<Rightarrow> nat \<Rightarrow> huffman_tree \<times> u32 \<times> u8 list \<Rightarrow> (huffman_tree \<times> u32 \<times> u8 list) option" where
  "byte_loop 0 root ch i s = Some s"
| "byte_loop (Suc k) root ch i (cur, n, written) =
     (case cur of HLeaf _ _ \<Rightarrow> None
      | HNode _ l r \<Rightarrow>
          (case (if \<not> bit ch i then l else r) of
             HLeaf c _ \<Rightarrow> if n - 1 = 0 then Some (root, 0, written @ [c]) else byte_loop k root ch (i + 1) (root, n - 1, written @ [c])
           | HNode m l' r' \<Rightarrow> byte_loop k root ch (i + 1) (HNode m l' r', n, written)))"

text \<open>\<open>fgetc\<close> into a \<open>char\<close>: the end of the file becomes the byte 255, which is also what \<open>ch != EOF\<close> compares with.\<close>

definition get_char :: "u8 list \<Rightarrow> u8 \<times> u8 list" where
  "get_char file = (case file of [] \<Rightarrow> (255, []) | b # rest \<Rightarrow> (b, rest))"

partial_function (option) uncompress_loop :: "huffman_tree \<Rightarrow> u8 \<Rightarrow> u8 list \<Rightarrow> huffman_tree \<times> u32 \<times> u8 list \<Rightarrow> u8 list option" where
  "uncompress_loop root ch rest s =
     (if ch \<noteq> 255 \<or> fst (snd s) > 0 then do {
        s1 \<leftarrow> byte_loop 8 root ch 0 s;
        let (ch1, rest1) = get_char rest;
        uncompress_loop root ch1 rest1 s1
      }
      else Some (snd (snd s)))"

definition Uncompress :: "'q priority_queue \<Rightarrow> char_info list \<Rightarrow> u8 list \<Rightarrow> u8 list option" where
  "Uncompress Q infos file = do {
     (infos1, rest) \<leftarrow> read_table infos file;
     root \<leftarrow> CreateHuffmantree Q infos1 0;
     let (ch, rest1) = get_char rest;
     uncompress_loop root ch rest1 (root, tree_count root, [])
   }"

section \<open>The tree\<close>

text \<open>What a priority queue promises: \<open>items\<close> gives its elements, the top is a least one, and \<open>pop\<close> removes it.\<close>

definition pq_ok :: "'q priority_queue \<Rightarrow> ('q \<Rightarrow> huffman_tree multiset) \<Rightarrow> bool" where
  "pq_ok Q items \<longleftrightarrow> items (pq_empty Q) = {#} \<and> (\<forall>t q. items (pq_push Q t q) = add_mset t (items q)) \<and> (\<forall>q. pq_size Q q = size (items q)) \<and>
     (\<forall>q. items q \<noteq> {#} \<longrightarrow> pq_top Q q \<in># items q \<and> (\<forall>t\<in>#items q. tree_count (pq_top Q q) \<le> tree_count t) \<and>
        items (pq_pop Q q) = items q - {#pq_top Q q#})"

lemma pq_okD:
  assumes "pq_ok Q items"
  shows "items (pq_empty Q) = {#}" "items (pq_push Q t q) = add_mset t (items q)" "pq_size Q q = size (items q)"
    "items q \<noteq> {#} \<Longrightarrow> items q = add_mset (pq_top Q q) (items (pq_pop Q q))"
  using assms by (auto simp: pq_ok_def)

fun tree_leaves :: "huffman_tree \<Rightarrow> (u8 \<times> u32) list" where
  "tree_leaves (HLeaf c n) = [(c, n)]"
| "tree_leaves (HNode n l r) = tree_leaves l @ tree_leaves r"

fun counts_ok :: "huffman_tree \<Rightarrow> bool" where
  "counts_ok (HLeaf c n) = True"
| "counts_ok (HNode n l r) \<longleftrightarrow> n = tree_count l + tree_count r \<and> counts_ok l \<and> counts_ok r"

lemma counts_sum: "counts_ok t \<Longrightarrow> tree_count t = sum_list (map snd (tree_leaves t))"
  by (induction t) auto

definition is_node :: "huffman_tree \<Rightarrow> bool" where
  "is_node t \<longleftrightarrow> (\<exists>n l r. t = HNode n l r)"

lemma is_node_simps [simp]: "is_node (HNode n l r)" "\<not> is_node (HLeaf c n)"
  by (simp_all add: is_node_def)

definition forest_leaves :: "huffman_tree multiset \<Rightarrow> (u8 \<times> u32) multiset" where
  "forest_leaves M = (\<Sum>t\<in>#M. mset (tree_leaves t))"

lemma merge_spec:
  assumes Q: "pq_ok Q items"
  shows "items hp \<noteq> {#} \<Longrightarrow> size (items hp) \<le> n \<Longrightarrow> \<forall>t\<in>#items hp. counts_ok t \<Longrightarrow>
    \<exists>t. merge_trees n Q hp = Some t \<and> mset (tree_leaves t) = forest_leaves (items hp) \<and> counts_ok t \<and> (size (items hp) > 1 \<or> (\<forall>t\<in>#items hp. is_node t) \<longrightarrow> is_node t)"
proof (induction n arbitrary: hp)
  case (Suc n)
  note D = pq_okD [OF Q]
  let ?l = "pq_top Q hp" and ?hp1 = "pq_pop Q hp"
  have hp: "items hp = add_mset ?l (items ?hp1)" using D(4) [OF Suc.prems(1)] .
  show ?case
  proof (cases "items ?hp1 = {#}")
    case True
    with hp have "items hp = {#?l#}" by simp
    with Suc.prems show ?thesis by (simp add: D(3) forest_leaves_def)
  next
    case False
    let ?r = "pq_top Q ?hp1" and ?hp2 = "pq_pop Q ?hp1"
    let ?t = "HNode (tree_count ?l + tree_count ?r) ?l ?r"
    have hp1: "items ?hp1 = add_mset ?r (items ?hp2)" using D(4) [OF False] .
    have size: "pq_size Q hp > 1" using hp hp1 by (simp add: D(3))
    let ?hp3 = "pq_push Q ?t ?hp2"
    have it: "items ?hp3 = add_mset ?t (items ?hp2)" by (simp add: D(2))
    have fl: "forest_leaves (items ?hp3) = forest_leaves (items hp)" using hp hp1 it by (simp add: forest_leaves_def ac_simps)
    have ok: "\<forall>t\<in>#items ?hp3. counts_ok t" using Suc.prems(3) hp hp1 it by auto
    have "\<exists>t. merge_trees n Q ?hp3 = Some t \<and> mset (tree_leaves t) = forest_leaves (items ?hp3) \<and> counts_ok t \<and>
        (size (items ?hp3) > 1 \<or> (\<forall>t\<in>#items ?hp3. is_node t) \<longrightarrow> is_node t)"
      by (rule Suc.IH) (use it hp hp1 Suc.prems(2) ok in auto)
    then obtain t where t: "merge_trees n Q ?hp3 = Some t" "mset (tree_leaves t) = forest_leaves (items hp)" "counts_ok t"
      "size (items ?hp3) > 1 \<or> (\<forall>t\<in>#items ?hp3. is_node t) \<longrightarrow> is_node t" using fl by auto
    have "size (items ?hp3) > 1 \<or> (\<forall>t\<in>#items ?hp3. is_node t)" using it by (cases "items ?hp2") auto
    with t(4) have "is_node t" by blast
    moreover have "merge_trees (Suc n) Q hp = Some t" using size t(1) by (simp add: Let_def)
    ultimately show ?thesis using t(2,3) by blast
  qed
qed simp

definition entries :: "char_info list \<Rightarrow> (u8 \<times> u32) list" where
  "entries infos = map (\<lambda>x. (ci_ch x, ci_count x)) (filter (\<lambda>x. ci_count x \<noteq> 0) infos)"

definition fill_queue :: "'q priority_queue \<Rightarrow> char_info list \<Rightarrow> 'q \<Rightarrow> 'q" where
  "fill_queue Q infos hp = fold (\<lambda>x hp. if ci_count x \<noteq> 0 then pq_push Q (HLeaf (ci_ch x) (ci_count x)) hp else hp) infos hp"

lemma fill_items:
  assumes "pq_ok Q items"
  shows "items (fill_queue Q infos hp) = mset (map (\<lambda>(c, n). HLeaf c n) (entries infos)) + items hp"
  unfolding fill_queue_def by (induction infos arbitrary: hp) (simp_all add: entries_def pq_okD(2) [OF assms])

lemma fill_cong: "map (\<lambda>x. (ci_ch x, ci_count x)) infos' = map (\<lambda>x. (ci_ch x, ci_count x)) infos \<Longrightarrow> fill_queue Q infos' hp = fill_queue Q infos hp"
  unfolding fill_queue_def
proof (induction infos' arbitrary: infos hp)
  case (Cons x infos')
  then obtain y ys where y: "infos = y # ys" "ci_ch x = ci_ch y" "ci_count x = ci_count y"
    "map (\<lambda>x. (ci_ch x, ci_count x)) infos' = map (\<lambda>x. (ci_ch x, ci_count x)) ys" by (cases infos) auto
  show ?case unfolding y(1) using Cons.IH [OF y(4)] y(2,3) by simp
qed simp

lemma create_cong:
  "map (\<lambda>x. (ci_ch x, ci_count x)) infos' = map (\<lambda>x. (ci_ch x, ci_count x)) infos \<Longrightarrow> CreateHuffmantree Q infos' 0 = CreateHuffmantree Q infos 0"
  using fill_cong [of infos' infos Q "pq_empty Q"] by (simp add: CreateHuffmantree_def fill_queue_def)

lemma create_spec:
  assumes "pq_ok Q items" and "entries infos \<noteq> []"
  shows "\<exists>t. CreateHuffmantree Q infos 0 = Some t \<and> mset (tree_leaves t) = mset (entries infos) \<and> counts_ok t \<and> (length (entries infos) > 1 \<longrightarrow> is_node t)"
proof -
  let ?hp = "fill_queue Q infos (pq_empty Q)"
  have it: "items ?hp = mset (map (\<lambda>(c, n). HLeaf c n) (entries infos))" using fill_items [OF assms(1)] by (simp add: pq_okD(1) [OF assms(1)])
  have "(\<Sum>t\<in>#mset (map (\<lambda>(c, n). HLeaf c n) es). mset (tree_leaves t)) = mset es" for es by (induction es) auto
  then have fl: "forest_leaves (items ?hp) = mset (entries infos)" unfolding it forest_leaves_def .
  have "\<exists>t. merge_trees (pq_size Q ?hp + 1) Q ?hp = Some t \<and> mset (tree_leaves t) = forest_leaves (items ?hp) \<and> counts_ok t \<and>
      (size (items ?hp) > 1 \<or> (\<forall>t\<in>#items ?hp. is_node t) \<longrightarrow> is_node t)"
    by (rule merge_spec [OF assms(1)]) (use it assms(2) in \<open>auto simp: pq_okD(3) [OF assms(1)]\<close>)
  then show ?thesis using it fl by (auto simp: CreateHuffmantree_def fill_queue_def)
qed

section \<open>Codes\<close>

lemma byte_index: "unat (c :: u8) < 256"
  using unsigned_less [of c, where 'a = nat] by simp

lemma upd_info_simps [simp]:
  "length (upd_info infos a f) = length infos"
  "a \<noteq> c \<Longrightarrow> upd_info infos a f ! unat c = infos ! unat c"
  "length infos = 256 \<Longrightarrow> upd_info infos c f ! unat c = f (infos ! unat c)"
proof -
  show "upd_info infos a f ! unat c = infos ! unat c" if "a \<noteq> c"
    unfolding upd_info_def by (rule nth_list_update_neq) (use that in \<open>simp add: word_unat_eq_iff\<close>)
qed (use byte_index [of c] in \<open>simp_all add: upd_info_def\<close>)

text \<open>The way from the root to each leaf; a 1 is written for the right child.\<close>

fun paths :: "huffman_tree \<Rightarrow> (u8 \<times> bool list) list" where
  "paths (HLeaf c n) = [(c, [])]"
| "paths (HNode n l r) = map (\<lambda>(c, p). (c, False # p)) (paths l) @ map (\<lambda>(c, p). (c, True # p)) (paths r)"

definition code_of :: "bool list \<Rightarrow> string" where
  "code_of p = map (\<lambda>b. if b then CHR ''1'' else CHR ''0'') p"

lemma paths_chars: "map fst (paths t) = map fst (tree_leaves t)"
  by (induction t) (auto simp: comp_def case_prod_beta)

lemma paths_node: "(c, p) \<in> set (paths t) \<Longrightarrow> is_node t \<longleftrightarrow> p \<noteq> []"
  by (cases t) auto

lemma gen_keeps:
  "length (GenerateHuffmanCode t code infos) = length infos"
  "map (\<lambda>x. (ci_ch x, ci_count x)) (GenerateHuffmanCode t code infos) = map (\<lambda>x. (ci_ch x, ci_count x)) infos"
proof -
  have l: "length (GenerateHuffmanCode t code infos) = length infos" for t code infos
    by (induction t arbitrary: code infos) (simp_all add: upd_info_def)
  then show "length (GenerateHuffmanCode t code infos) = length infos" .
  show "map (\<lambda>x. (ci_ch x, ci_count x)) (GenerateHuffmanCode t code infos) = map (\<lambda>x. (ci_ch x, ci_count x)) infos"
  proof (induction t arbitrary: code infos)
    case (HLeaf c n)
    show ?case by (cases "unat c < length infos") (simp_all add: upd_info_def map_update list_update_same_conv list_update_beyond)
  qed simp
qed

lemma gen_other: "c \<notin> fst ` set (paths t) \<Longrightarrow> GenerateHuffmanCode t code infos ! unat c = infos ! unat c"
  by (induction t arbitrary: code infos) (auto simp: image_Un image_image case_prod_beta)

lemma gen_code:
  "length infos = 256 \<Longrightarrow> distinct (map fst (paths t)) \<Longrightarrow> (c, p) \<in> set (paths t) \<Longrightarrow>
    ci_code (GenerateHuffmanCode t code infos ! unat c) = code @ code_of p"
proof (induction t arbitrary: code infos p)
  case (HLeaf c' n)
  then show ?case by (simp add: code_of_def)
next
  case (HNode n l r)
  have d: "distinct (map fst (paths l))" "distinct (map fst (paths r))" "fst ` set (paths l) \<inter> fst ` set (paths r) = {}"
    using HNode.prems(2) by (auto simp: comp_def case_prod_beta image_image)
  from HNode.prems(3) consider (left) q where "(c, q) \<in> set (paths l)" "p = False # q" | (right) q where "(c, q) \<in> set (paths r)" "p = True # q" by auto
  then show ?case
  proof cases
    case left
    then have "c \<notin> fst ` set (paths r)" using d(3) by force
    with left HNode.IH(1) [OF HNode.prems(1) d(1) left(1), of "code @ ''0''"] show ?thesis by (simp add: gen_other code_of_def)
  next
    case right
    from right HNode.IH(2) [OF _ d(2) right(1), of "GenerateHuffmanCode l (code @ ''0'') infos" "code @ ''1''"] HNode.prems(1)
    show ?thesis by (simp add: gen_keeps(1) code_of_def)
  qed
qed

section \<open>The table\<close>

text \<open>The array of characters: one entry per byte, at its index.\<close>

definition infos_ok :: "char_info list \<Rightarrow> bool" where
  "infos_ok infos \<longleftrightarrow> length infos = 256 \<and> (\<forall>c. ci_ch (infos ! unat c) = c)"

lemma infos_okD: "infos_ok infos \<Longrightarrow> length infos = 256" "infos_ok infos \<Longrightarrow> ci_ch (infos ! unat c) = c"
  by (simp_all add: infos_ok_def)

lemma new_infos_ok: "infos_ok new_infos" "ci_count (new_infos ! unat c) = 0" "ci_code (new_infos ! unat c) = ''''" for c :: u8
  using byte_index by (simp_all add: infos_ok_def new_infos_def)

lemma infos_eqI:
  assumes "length xs = 256" and "length ys = 256" and "\<And>c :: u8. f (xs ! unat c) = g (ys ! unat c)"
  shows "map f xs = map g ys"
proof (rule nth_equalityI)
  fix i
  assume "i < length (map f xs)"
  then have i: "i < 256" using assms(1) by simp
  then have "unat (of_nat i :: u8) = i" by (simp add: unat_of_nat)
  with assms(3) [of "of_nat i"] i assms(1,2) show "map f xs ! i = map g ys ! i" by (simp only: nth_map)
qed (use assms in simp)

lemma chars_of_infos: "infos_ok infos \<Longrightarrow> map ci_ch infos = map of_nat [0..<256]"
proof -
  assume ok: "infos_ok infos"
  have "map ci_ch infos = map ci_ch new_infos" by (rule infos_eqI) (use ok new_infos_ok(1) in \<open>simp_all add: infos_ok_def\<close>)
  then show ?thesis by (simp add: new_infos_def comp_def)
qed

lemma chars_distinct: "infos_ok infos \<Longrightarrow> distinct (map ci_ch infos)"
proof -
  assume ok: "infos_ok infos"
  have "inj_on (of_nat :: nat \<Rightarrow> u8) {0..<256}" by (rule inj_onI) (auto simp: word_unat_eq_iff unat_of_nat)
  then show ?thesis unfolding chars_of_infos [OF ok] by (simp add: distinct_map)
qed

lemma entries_distinct:
  assumes "infos_ok infos"
  shows "distinct (map fst (entries infos))"
proof -
  have "map fst (entries infos) = map ci_ch (filter (\<lambda>x. ci_count x \<noteq> 0) infos)" by (simp add: entries_def comp_def)
  with chars_distinct [OF assms] show ?thesis by (simp add: distinct_map_filter)
qed

lemma in_infos:
  assumes "infos_ok infos" and "x \<in> set infos"
  shows "x = infos ! unat (ci_ch x)"
proof -
  obtain i where i: "i < 256" "x = infos ! i" using assms by (auto simp: in_set_conv_nth infos_ok_def)
  then have "unat (of_nat i :: u8) = i" by (simp add: unat_of_nat)
  with infos_okD(2) [OF assms(1), of "of_nat i"] i(2) show ?thesis by (metis)
qed

lemma entries_chars:
  assumes "infos_ok infos"
  shows "set (map fst (entries infos)) = {c. ci_count (infos ! unat c) \<noteq> 0}"
proof -
  have "c \<in> set (map fst (entries infos))" if "ci_count (infos ! unat c) \<noteq> 0" for c
  proof -
    have "infos ! unat c \<in> set infos" using byte_index [of c] assms by (simp add: infos_ok_def)
    with that infos_okD(2) [OF assms, of c] show ?thesis by (force simp: entries_def)
  qed
  moreover have "ci_count (infos ! unat c) \<noteq> 0" if "c \<in> set (map fst (entries infos))" for c
    using that in_infos [OF assms] by (auto simp: entries_def)
  ultimately show ?thesis by blast
qed

definition restore :: "char_info list \<Rightarrow> char_info list \<Rightarrow> char_info list" where
  "restore xs infos = fold (\<lambda>x infos. if ci_count x > 0 then upd_info infos (ci_ch x) (\<lambda>y. y\<lparr>ci_ch := ci_ch x, ci_count := ci_count x\<rparr>) else infos) xs infos"

lemma restore_length [simp]: "length (restore xs infos) = length infos"
  unfolding restore_def by (induction xs arbitrary: infos) simp_all

lemma restore_other: "c \<notin> ci_ch ` set xs \<Longrightarrow> restore xs infos ! unat c = infos ! unat c"
  unfolding restore_def by (induction xs arbitrary: infos) auto

lemma restore_at:
  assumes "length infos = 256" and "distinct (map ci_ch xs)" and "x \<in> set xs" and "ci_ch x = c" and "ci_ch (infos ! unat c) = c"
  shows "ci_ch (restore xs infos ! unat c) = c \<and> ci_count (restore xs infos ! unat c) = (if ci_count x > 0 then ci_count x else ci_count (infos ! unat c))"
  using assms
proof (induction xs arbitrary: infos)
  case (Cons y ys)
  let ?infos = "if ci_count y > 0 then upd_info infos (ci_ch y) (\<lambda>z. z\<lparr>ci_ch := ci_ch y, ci_count := ci_count y\<rparr>) else infos"
  have step: "restore (y # ys) infos = restore ys ?infos" by (simp add: restore_def)
  show ?case
  proof (cases "y = x")
    case True
    then have "c \<notin> ci_ch ` set ys" using Cons.prems(2,4) by auto
    then have "restore ys ?infos ! unat c = ?infos ! unat c" by (rule restore_other)
    then show ?thesis unfolding step using True Cons.prems(1,4,5) by simp
  next
    case False
    then have x: "x \<in> set ys" using Cons.prems(3) by simp
    then have "ci_ch y \<noteq> c" using Cons.prems(2,4) by auto
    then have "?infos ! unat c = infos ! unat c" "length ?infos = 256" using Cons.prems(1) by simp_all
    with Cons.IH [of ?infos] Cons.prems x show ?thesis unfolding step by simp
  qed
qed simp

lemma read_entry:
  assumes "3 \<le> length pad"
  shows "read_table infos (tmp_info pad ch n @ rest) =
    (if n = -1 then Some (infos, rest) else read_table (upd_info infos ch (\<lambda>x. x\<lparr>ci_ch := ch, ci_count := n\<rparr>)) rest)"
proof -
  let ?f = "tmp_info pad ch n @ rest"
  have l: "length (tmp_info pad ch n) = 8" using assms by (simp add: tmp_info_def)
  then have "length ?f \<ge> 8" "drop 8 ?f = rest" by simp_all
  moreover have "?f ! 0 = ch" by (simp add: tmp_info_def)
  moreover have "take 4 (drop 4 ?f) = le_bytes 4 n" using assms by (simp add: tmp_info_def)
  ultimately show ?thesis by (subst read_table.simps) (auto simp del: drop_append take_append length_append)
qed

lemma read_entries:
  assumes "3 \<le> length pad"
  shows "\<forall>x\<in>set xs. ci_count x \<noteq> -1 \<Longrightarrow>
    read_table infos (concat (map (\<lambda>x. if ci_count x > 0 then tmp_info pad (ci_ch x) (ci_count x) else []) xs) @ tmp_info pad junk (-1) @ rest) =
    Some (restore xs infos, rest)"
proof (induction xs arbitrary: infos)
  case Nil
  then show ?case using read_entry [OF assms, of infos junk "-1" rest] by (simp add: restore_def)
next
  case (Cons x xs)
  then show ?case by (cases "ci_count x > 0") (simp_all add: read_entry [OF assms] restore_def)
qed

lemma read_written:
  assumes "3 \<le> length pad" and "infos_ok infos" and "\<And>c :: u8. ci_count (infos ! unat c) \<noteq> -1"
  shows "\<exists>infos'. read_table new_infos (write_table pad junk infos @ rest) = Some (infos', rest) \<and>
    map (\<lambda>x. (ci_ch x, ci_count x)) infos' = map (\<lambda>x. (ci_ch x, ci_count x)) infos"
proof -
  have "ci_count x \<noteq> -1" if "x \<in> set infos" for x
    using arg_cong [OF in_infos [OF assms(2) that], of ci_count] assms(3) by (rule ssubst)
  then have "read_table new_infos (write_table pad junk infos @ rest) = Some (restore infos new_infos, rest)"
    using read_entries [OF assms(1), of infos new_infos junk rest] by (simp add: write_table_def)
  moreover have "map (\<lambda>x. (ci_ch x, ci_count x)) (restore infos new_infos) = map (\<lambda>x. (ci_ch x, ci_count x)) infos"
  proof (rule infos_eqI)
    fix c
    have x: "infos ! unat c \<in> set infos" "ci_ch (infos ! unat c) = c" using byte_index [of c] assms(2) by (simp_all add: infos_ok_def)
    from restore_at [OF _ chars_distinct [OF assms(2)] x, of new_infos] new_infos_ok
    show "(ci_ch (restore infos new_infos ! unat c), ci_count (restore infos new_infos ! unat c)) = (ci_ch (infos ! unat c), ci_count (infos ! unat c))"
      by (auto simp: x(2) infos_ok_def word_gt_0)
  qed (use assms(2) new_infos_ok(1) in \<open>simp_all add: infos_ok_def\<close>)
  ultimately show ?thesis by blast
qed

section \<open>Counting\<close>

lemma sum_upd:
  assumes "infos_ok infos"
  shows "sum_list (map ci_count (upd_info infos b (\<lambda>x. x\<lparr>ci_count := ci_count x + 1\<rparr>))) = sum_list (map ci_count infos) + 1"
proof -
  have "i < length xs \<Longrightarrow> sum_list (map ci_count (xs[i := (xs ! i)\<lparr>ci_count := ci_count (xs ! i) + 1\<rparr>])) = sum_list (map ci_count xs) + 1"
    for xs :: "char_info list" and i
  proof (induction xs arbitrary: i)
    case (Cons x xs)
    then show ?case by (cases i) simp_all
  qed simp
  with assms byte_index [of b] show ?thesis by (simp add: upd_info_def infos_ok_def)
qed

lemma count_step:
  assumes "infos_ok infos"
  shows "infos_ok (upd_info infos b (\<lambda>x. x\<lparr>ci_count := ci_count x + 1\<rparr>))"
    "ci_count (upd_info infos b (\<lambda>x. x\<lparr>ci_count := ci_count x + 1\<rparr>) ! unat c) = ci_count (infos ! unat c) + (if b = c then 1 else 0)"
proof -
  have at: "upd_info infos b (\<lambda>x. x\<lparr>ci_count := ci_count x + 1\<rparr>) ! unat c =
      (if b = c then (infos ! unat c)\<lparr>ci_count := ci_count (infos ! unat c) + 1\<rparr> else infos ! unat c)" for c
    using infos_okD(1) [OF assms] by auto
  show "infos_ok (upd_info infos b (\<lambda>x. x\<lparr>ci_count := ci_count x + 1\<rparr>))" using assms by (simp add: infos_ok_def at)
  show "ci_count (upd_info infos b (\<lambda>x. x\<lparr>ci_count := ci_count x + 1\<rparr>) ! unat c) = ci_count (infos ! unat c) + (if b = c then 1 else 0)"
    unfolding at by simp
qed

lemma count_spec:
  "infos_ok infos \<Longrightarrow> infos_ok (count_chars bs infos) \<and>
    (\<forall>c. ci_count (count_chars bs infos ! unat c) = ci_count (infos ! unat c) + of_nat (count_list bs c)) \<and>
    sum_list (map ci_count (count_chars bs infos)) = sum_list (map ci_count infos) + of_nat (length bs)"
proof (induction bs arbitrary: infos)
  case Nil
  then show ?case by (simp add: count_chars_def)
next
  case (Cons b bs)
  have "count_chars (b # bs) infos = count_chars bs (upd_info infos b (\<lambda>x. x\<lparr>ci_count := ci_count x + 1\<rparr>))" by (simp add: count_chars_def)
  with Cons.IH [OF count_step(1) [OF Cons.prems]] sum_upd [OF Cons.prems] count_step(2) [OF Cons.prems] show ?case by simp
qed

lemma entries_sum: "sum_list (map snd (entries infos)) = sum_list (map ci_count infos)"
  by (induction infos) (auto simp: entries_def)

section \<open>Bits\<close>

definition byte_bits :: "u8 \<Rightarrow> bool list" where
  "byte_bits b = map (bit b) [0..<8]"

lemma byte_bits_length [simp]: "length (byte_bits b) = 8"
  by (simp add: byte_bits_def)

definition packed :: "u8 \<times> nat \<times> u8 list \<Rightarrow> bool list \<Rightarrow> bool" where
  "packed s bs \<longleftrightarrow> (case s of (val, pos, written) \<Rightarrow> pos < 8 \<and> bs = concat (map byte_bits written) @ map (bit val) [0..<pos] \<and> (\<forall>i\<ge>pos. \<not> bit val i))"

lemma put_bit:
  assumes "pos < 8" and "\<forall>i\<ge>pos. \<not> bit (val :: u8) i"
    and "v = (if b then val OR push_bit pos 1 else val AND NOT (push_bit pos 1))"
  shows "map (bit v) [0..<pos + 1] = map (bit val) [0..<pos] @ [b]" "\<forall>i\<ge>pos + 1. \<not> bit v i"
proof -
  have v: "bit v i \<longleftrightarrow> (if i = pos then b else bit val i)" for i
    using assms(1,2) unfolding assms(3) by (auto simp: bit_or_iff bit_and_iff bit_not_iff bit_push_bit_iff bit_1_iff bit_exp_iff possible_bit_word dest: bit_imp_le_length)
  show "map (bit v) [0..<pos + 1] = map (bit val) [0..<pos] @ [b]" by (simp add: v)
  show "\<forall>i\<ge>pos + 1. \<not> bit v i" using assms(2) by (auto simp: v)
qed

lemma put_bits_packed: "packed s bs \<Longrightarrow> \<exists>s1. put_bits (code_of p) s = Some s1 \<and> packed s1 (bs @ p)"
proof (induction p arbitrary: s bs)
  case Nil
  then show ?case by (simp add: code_of_def)
next
  case (Cons b p)
  obtain val pos written where s: "s = (val, pos, written)" by (cases s)
  with Cons.prems have pos: "pos < 8" and bs: "bs = concat (map byte_bits written) @ map (bit val) [0..<pos]" and hi: "\<forall>i\<ge>pos. \<not> bit val i"
    by (simp_all add: packed_def)
  let ?v = "if b then val OR push_bit pos 1 else val AND NOT (push_bit pos 1)"
  note B = put_bit [OF pos hi refl, of b]
  let ?s1 = "if pos + 1 = 8 then (0, 0, written @ [?v]) else (?v, pos + 1, written)"
  have "packed ?s1 (bs @ [b])"
  proof (cases "pos + 1 = 8")
    case True
    then have "byte_bits ?v = map (bit val) [0..<pos] @ [b]" using B(1) by (simp add: byte_bits_def)
    with True bs show ?thesis by (simp add: packed_def)
  next
    case False
    with pos B bs show ?thesis by (simp add: packed_def)
  qed
  from Cons.IH [OF this] obtain s2 where "put_bits (code_of p) ?s1 = Some s2" "packed s2 ((bs @ [b]) @ p)" by blast
  moreover have "put_bits (code_of (b # p)) s = put_bits (code_of p) ?s1" using s by (simp add: code_of_def Let_def)
  ultimately show ?case by auto
qed

lemma put_file_packed:
  assumes "\<And>c. c \<in> set fs \<Longrightarrow> ci_code (infos ! unat c) = code_of (code c)"
  shows "packed s bs \<Longrightarrow> \<exists>s1. put_file infos fs s = Some s1 \<and> packed s1 (bs @ concat (map code fs))"
  using assms
proof (induction fs arbitrary: s bs)
  case (Cons c fs)
  obtain s1 where s1: "put_bits (code_of (code c)) s = Some s1" "packed s1 (bs @ code c)" using put_bits_packed [OF Cons.prems(1)] by blast
  obtain s2 where "put_file infos fs s1 = Some s2" "packed s2 ((bs @ code c) @ concat (map code fs))" using Cons.IH [OF s1(2)] Cons.prems(2) by auto
  with s1 Cons.prems(2) show ?case by simp
qed simp

lemma packed_bytes:
  assumes "packed (val, pos, written) bs"
  shows "\<exists>tail. concat (map byte_bits (written @ (if pos > 0 then [val] else []))) = bs @ tail \<and> length tail < 8"
proof (cases "pos > 0")
  case True
  have "byte_bits val = map (bit val) [0..<pos] @ map (bit val) [pos..<8]"
    using assms upt_add_eq_append [of 0 pos "8 - pos"] by (simp add: byte_bits_def packed_def flip: map_append)
  with True assms show ?thesis by (auto simp: packed_def)
next
  case False
  with assms show ?thesis by (auto simp: packed_def)
qed

section \<open>Decoding\<close>

text \<open>
  The decoder stands at the node \<open>cur\<close>, \<open>q\<close> leads from there to the next character, and the codes of the others follow.
\<close>

lemma byte_loop_spec:
  assumes root: "is_node root" "\<And>c. c \<in> set (x # xs) \<Longrightarrow> (c, code c) \<in> set (paths root)"
  shows "(x, q) \<in> set (paths cur) \<Longrightarrow> q \<noteq> [] \<Longrightarrow> map (bit ch) [i..<i + k] @ S = q @ concat (map code xs) @ tail \<Longrightarrow> length (x # xs) < 2 ^ 32 \<Longrightarrow>
    byte_loop k root ch i (cur, of_nat (length (x # xs)), out) = Some (root, 0, out @ x # xs) \<and> length (q @ concat (map code xs)) \<le> k \<or>
    (\<exists>done y ys cur1 q1. byte_loop k root ch i (cur, of_nat (length (x # xs)), out) = Some (cur1, of_nat (length (y # ys)), out @ done) \<and>
      x # xs = done @ y # ys \<and> (y, q1) \<in> set (paths cur1) \<and> q1 \<noteq> [] \<and> S = q1 @ concat (map code ys) @ tail)"
  using root(2)
proof (induction k arbitrary: i cur q x xs out)
  case 0
  then show ?case by (auto intro: exI [of _ "[]"])
next
  case (Suc k)
  obtain b q2 where q: "q = b # q2" using Suc.prems(2) by (cases q) auto
  have "is_node cur" using paths_node [OF Suc.prems(1)] Suc.prems(2) by simp
  then obtain m l r where cur: "cur = HNode m l r" by (auto simp: is_node_def)
  have "map (bit ch) [i..<i + Suc k] = bit ch i # map (bit ch) [i + 1..<i + 1 + k]" by (simp add: upt_conv_Cons del: upt_Suc)
  with Suc.prems(3) q have b: "bit ch i = b" and S: "map (bit ch) [i + 1..<i + 1 + k] @ S = q2 @ concat (map code xs) @ tail" by (simp_all del: upt_Suc)
  let ?t = "if \<not> bit ch i then l else r"
  have t: "(x, q2) \<in> set (paths ?t)" using Suc.prems(1) q cur b by (cases b) auto
  let ?n = "of_nat (length (x # xs)) :: u32"
  show ?case
  proof (cases "q2 = []")
    case False
    then obtain m' l' r' where t': "?t = HNode m' l' r'" using paths_node [OF t] by (auto simp: is_node_def)
    then have step: "byte_loop (Suc k) root ch i (cur, ?n, out) = byte_loop k root ch (i + 1) (?t, ?n, out)" using cur by simp
    from Suc.IH [OF t False S Suc.prems(4), of out] Suc.prems(5) q show ?thesis unfolding step by auto
  next
    case True
    then obtain n' where t': "?t = HLeaf x n'" using t by (cases "?t") auto
    have n1: "?n - 1 = of_nat (length xs)" by simp
    show ?thesis
    proof (cases xs)
      case Nil
      then show ?thesis using cur t' q True by simp
    next
      case (Cons y ys)
      have nz: "?n - 1 \<noteq> 0" unfolding n1 using Suc.prems(4) Cons by (simp add: word_unat_eq_iff unat_of_nat del: of_nat_Suc)
      have step: "byte_loop (Suc k) root ch i (cur, ?n, out) = byte_loop k root ch (i + 1) (root, of_nat (length (y # ys)), out @ [x])"
        using cur t' nz n1 Cons by simp
      have y: "(y, code y) \<in> set (paths root)" "code y \<noteq> []" using Suc.prems(5) Cons paths_node [of y "code y" root] root(1) by auto
      have S': "map (bit ch) [i + 1..<i + 1 + k] @ S = code y @ concat (map code ys) @ tail" using S True Cons by simp
      have "length (y # ys) < 2 ^ 32" using Suc.prems(4) Cons by simp
      from Suc.IH [OF y S' this, of "out @ [x]"] Suc.prems(5) Cons have
        "byte_loop k root ch (i + 1) (root, of_nat (length (y # ys)), out @ [x]) = Some (root, 0, (out @ [x]) @ y # ys) \<and> length (code y @ concat (map code ys)) \<le> k \<or>
        (\<exists>done z zs cur1 q1. byte_loop k root ch (i + 1) (root, of_nat (length (y # ys)), out @ [x]) = Some (cur1, of_nat (length (z # zs)), (out @ [x]) @ done) \<and>
          y # ys = done @ z # zs \<and> (z, q1) \<in> set (paths cur1) \<and> q1 \<noteq> [] \<and> S = q1 @ concat (map code zs) @ tail)" by auto
      then show ?thesis
      proof (elim disjE exE conjE)
        assume "byte_loop k root ch (i + 1) (root, of_nat (length (y # ys)), out @ [x]) = Some (root, 0, (out @ [x]) @ y # ys)" "length (code y @ concat (map code ys)) \<le> k"
        then show ?thesis unfolding step using Cons q True by simp
      next
        fix dn z zs cur1 q1
        assume a: "byte_loop k root ch (i + 1) (root, of_nat (length (y # ys)), out @ [x]) = Some (cur1, of_nat (length (z # zs)), (out @ [x]) @ dn)"
          "y # ys = dn @ z # zs" "(z, q1) \<in> set (paths cur1)" "q1 \<noteq> []" "S = q1 @ concat (map code zs) @ tail"
        then show ?thesis unfolding step using Cons by (intro disjI2 exI [of _ "x # dn"] exI [of _ z] exI [of _ zs] exI [of _ cur1] exI [of _ q1]) simp
      qed
    qed
  qed
qed

lemma decode_spec:
  assumes root: "is_node root"
  shows "(\<And>c. c \<in> set (x # xs) \<Longrightarrow> (c, code c) \<in> set (paths root)) \<Longrightarrow> (x, q) \<in> set (paths cur) \<Longrightarrow> q \<noteq> [] \<Longrightarrow>
    concat (map byte_bits (ch # rest)) = q @ concat (map code xs) @ tail \<Longrightarrow> length tail < 8 \<Longrightarrow> length (x # xs) < 2 ^ 32 \<Longrightarrow>
    uncompress_loop root ch rest (cur, of_nat (length (x # xs)), out) = Some (out @ x # xs)"
proof (induction rest arbitrary: ch cur q x xs out)
  case Nil
  have n: "(0 :: u32) < of_nat (length (x # xs))" using Nil.prems(6) by (simp add: word_gt_0 word_unat_eq_iff unat_of_nat del: of_nat_Suc)
  have bits: "map (bit ch) [0..<0 + 8] @ [] = q @ concat (map code xs) @ tail" using Nil.prems(4) by (simp add: byte_bits_def)
  from byte_loop_spec [OF root Nil.prems(1-3) bits Nil.prems(6), of out]
  have "byte_loop 8 root ch 0 (cur, of_nat (length (x # xs)), out) = Some (root, 0, out @ x # xs)" by auto
  then show ?case using n by (subst uncompress_loop.simps) (simp add: get_char_def uncompress_loop.simps)
next
  case (Cons b rest)
  have n: "(0 :: u32) < of_nat (length (x # xs))" using Cons.prems(6) by (simp add: word_gt_0 word_unat_eq_iff unat_of_nat del: of_nat_Suc)
  have bits: "map (bit ch) [0..<0 + 8] @ concat (map byte_bits (b # rest)) = q @ concat (map code xs) @ tail" using Cons.prems(4) by (simp add: byte_bits_def [of ch])
  have len: "16 \<le> length (q @ concat (map code xs)) + length tail" using arg_cong [OF Cons.prems(4), of length] by simp
  then have "\<not> length (q @ concat (map code xs)) \<le> 8" using Cons.prems(5) by linarith
  with byte_loop_spec [OF root Cons.prems(1-3) bits Cons.prems(6), of out] obtain dn y ys cur1 q1
    where s: "byte_loop 8 root ch 0 (cur, of_nat (length (x # xs)), out) = Some (cur1, of_nat (length (y # ys)), out @ dn)"
      "x # xs = dn @ y # ys" "(y, q1) \<in> set (paths cur1)" "q1 \<noteq> []" "concat (map byte_bits (b # rest)) = q1 @ concat (map code ys) @ tail" by blast
  have sub: "set (y # ys) \<subseteq> set (x # xs)" and l: "length (y # ys) < 2 ^ 32" using s(2) Cons.prems(6) by auto
  have "uncompress_loop root b rest (cur1, of_nat (length (y # ys)), out @ dn) = Some ((out @ dn) @ y # ys)"
    by (rule Cons.IH [OF _ s(3,4,5) Cons.prems(5) l]) (use Cons.prems(1) sub in blast)
  then show ?case using n s(1,2) by (subst uncompress_loop.simps) (simp add: get_char_def)
qed

section \<open>The round trip\<close>

lemma count_list_bound: "count_list xs c \<le> length xs"
  by (induction xs) auto

lemma pairs_nth:
  assumes "map (\<lambda>x. (ci_ch x, ci_count x)) infos' = map (\<lambda>x. (ci_ch x, ci_count x)) infos" and "infos_ok infos"
  shows "infos_ok infos'" "ci_count (infos' ! unat (c :: u8)) = ci_count (infos ! unat c)"
proof -
  have len: "length infos' = 256" "length infos = 256" using arg_cong [OF assms(1), of length] assms(2) by (simp_all add: infos_ok_def)
  have at: "ci_ch (infos' ! unat c) = ci_ch (infos ! unat c) \<and> ci_count (infos' ! unat c) = ci_count (infos ! unat c)" for c :: u8
    using arg_cong [OF assms(1), of "\<lambda>l. l ! unat c"] len byte_index [of c] by simp
  show "infos_ok infos'" "ci_count (infos' ! unat c) = ci_count (infos ! unat c)" using at len assms(2) by (simp_all add: infos_ok_def)
qed

text \<open>The counts of a file, the tree they give and the codes of its characters.\<close>

lemma counted_tree:
  assumes Q: "pq_ok Q items" and two: "2 \<le> card (set bs)" and len: "length bs < 2 ^ 32"
  defines "infos \<equiv> count_chars bs new_infos"
  obtains t code where "CreateHuffmantree Q infos 0 = Some t" and "is_node t" and "tree_count t = of_nat (length bs)"
    and "\<And>c. c \<in> set bs \<Longrightarrow> (c, code c) \<in> set (paths t)" and "distinct (map fst (paths t))" and "infos_ok infos"
    and "\<And>c. ci_count (infos ! unat c) = of_nat (count_list bs c)"
proof -
  note C = count_spec [OF new_infos_ok(1), of bs, folded infos_def]
  have ok: "infos_ok infos" using C by blast
  have cnt: "ci_count (infos ! unat c) = of_nat (count_list bs c)" for c using C new_infos_ok(2) by simp
  have nz: "ci_count (infos ! unat c) \<noteq> 0 \<longleftrightarrow> c \<in> set bs" for c
    unfolding cnt using count_list_bound [of bs c] len by (simp add: word_unat_eq_iff unat_of_nat count_list_0_iff)
  have chars: "set (map fst (entries infos)) = set bs" using entries_chars [OF ok] nz by auto
  have "card (set (map fst (entries infos))) \<le> length (entries infos)" by (metis card_length length_map)
  then have more: "length (entries infos) > 1" using two chars by simp
  then have ne: "entries infos \<noteq> []" by auto
  obtain t where t: "CreateHuffmantree Q infos 0 = Some t" "mset (tree_leaves t) = mset (entries infos)" "counts_ok t" "is_node t"
    using create_spec [OF Q ne] more by auto
  have "sum_list (map ci_count new_infos) = 0" by (simp add: new_infos_def comp_def)
  then have "sum_list (map snd (entries infos)) = of_nat (length bs)" using C entries_sum [of infos] by simp
  moreover have "sum_list (map snd (tree_leaves t)) = sum_list (map snd (entries infos))" using t(2) by (metis mset_map sum_mset_sum_list)
  ultimately have n: "tree_count t = of_nat (length bs)" using counts_sum [OF t(3)] by simp
  have m: "mset (map fst (paths t)) = mset (map fst (entries infos))" by (simp only: paths_chars mset_map t(2))
  then have d: "distinct (map fst (paths t))" using entries_distinct [OF ok] by (metis distinct_count_atmost_1 mset_eq_imp_distinct_iff)
  have code: "(c, the (map_of (paths t) c)) \<in> set (paths t)" if "c \<in> set bs" for c
  proof -
    have "c \<in> fst ` set (paths t)" using that chars m by (metis list.set_map set_mset_mset)
    then obtain p where "(c, p) \<in> set (paths t)" by auto
    with d show ?thesis by simp
  qed
  show thesis by (rule that [OF t(1,4) n code d ok cnt])
qed

section \<open>Properties\<close>

text \<open>
  C25. Round trip of files: what \<open>Compress\<close> writes for a file of at least two different bytes and fewer than 4294967295
  bytes, \<open>Uncompress\<close> reads back to the same file, whatever the padding of the table entries contains and whichever of
  several least elements the priority queue prefers.
\<close>

theorem huffman_roundtrip:
  assumes "pq_ok Q items" and "3 \<le> length pad" and "2 \<le> card (set bs)" and "length bs < 2 ^ 32 - 1"
  shows "\<exists>infos data. Compress Q pad junk new_infos bs = Some (infos, data) \<and> Uncompress Q new_infos data = Some bs"
proof -
  let ?infos = "count_chars bs new_infos"
  have len: "length bs < 2 ^ 32" using assms(4) by simp
  obtain t code where t: "CreateHuffmantree Q ?infos 0 = Some t" "is_node t" "tree_count t = of_nat (length bs)"
    "\<And>c. c \<in> set bs \<Longrightarrow> (c, code c) \<in> set (paths t)" "distinct (map fst (paths t))" "infos_ok ?infos"
    "\<And>c. ci_count (?infos ! unat c) = of_nat (count_list bs c)"
    by (rule counted_tree [OF assms(1,3) len]) blast
  let ?infos2 = "GenerateHuffmanCode t '''' ?infos"
  note G = gen_keeps(2) [of t "''''" ?infos] and P = pairs_nth [OF gen_keeps(2) t(6)]
  have codes: "ci_code (?infos2 ! unat c) = code_of (code c)" if "c \<in> set bs" for c
    using gen_code [OF infos_okD(1) [OF t(6)] t(5) t(4) [OF that]] by simp
  have "packed (0, 0, []) []" by (simp add: packed_def)
  from put_file_packed [of bs, OF codes this] obtain val pos written
    where put: "put_file ?infos2 bs (0, 0, []) = Some (val, pos, written)" "packed (val, pos, written) (concat (map code bs))" by auto
  let ?data = "written @ (if pos > 0 then [val] else [])"
  obtain tail where bits: "concat (map byte_bits ?data) = concat (map code bs) @ tail" "length tail < 8" using packed_bytes [OF put(2)] by blast
  have comp: "Compress Q pad junk new_infos bs = Some (?infos2, write_table pad junk ?infos2 @ ?data)" using t(1) put(1) by (simp add: Compress_def Let_def)
  have "ci_count (?infos2 ! unat c) \<noteq> -1" for c :: u8
  proof -
    have "count_list bs c < 2 ^ 32 - 1" using count_list_bound [of bs c] assms(4) by linarith
    then show ?thesis unfolding P(2) t(7) by (simp add: word_unat_eq_iff unat_of_nat unsigned_minus_1_eq_mask mask_eq_exp_minus_1)
  qed
  from read_written [OF assms(2) P(1) this] obtain infos' where rd: "read_table new_infos (write_table pad junk ?infos2 @ ?data) = Some (infos', ?data)"
    "map (\<lambda>x. (ci_ch x, ci_count x)) infos' = map (\<lambda>x. (ci_ch x, ci_count x)) ?infos2" by blast
  have tree: "CreateHuffmantree Q infos' 0 = Some t" using create_cong [of infos' ?infos Q] rd(2) G t(1) by simp
  obtain x xs where bs: "bs = x # xs" using assms(3) by (cases bs) auto
  have x: "(x, code x) \<in> set (paths t)" "code x \<noteq> []" using t(4) [of x] bs paths_node [of x "code x" t] t(2) by auto
  then obtain ch rest where d: "?data = ch # rest" using bits(1) bs by (cases ?data) auto
  have stream: "concat (map byte_bits (ch # rest)) = code x @ concat (map code xs) @ tail" using bits(1) bs unfolding d by simp
  have "uncompress_loop t ch rest (t, of_nat (length (x # xs)), []) = Some ([] @ x # xs)"
    by (rule decode_spec [OF t(2) _ x stream bits(2)]) (use t(4) bs assms(4) in auto)
  then have "Uncompress Q new_infos (write_table pad junk ?infos2 @ ?data) = Some bs"
    unfolding Uncompress_def rd(1) by (simp add: tree d get_char_def t(3) bs)
  with comp show ?thesis by blast
qed

text \<open>A queue that is an unordered list, searched for a least element.\<close>

fun least_tree :: "huffman_tree \<Rightarrow> huffman_tree list \<Rightarrow> huffman_tree" where
  "least_tree t [] = t"
| "least_tree t (u # us) = least_tree (if tree_count u < tree_count t then u else t) us"

definition list_queue :: "huffman_tree list priority_queue" where
  "list_queue = \<lparr>pq_empty = [], pq_push = (#), pq_top = (\<lambda>q. least_tree (hd q) (tl q)),
     pq_pop = (\<lambda>q. remove1 (least_tree (hd q) (tl q)) q), pq_size = length\<rparr>"

lemma least_tree: "least_tree t us \<in> set (t # us)" "u \<in> set (t # us) \<Longrightarrow> tree_count (least_tree t us) \<le> tree_count u"
proof -
  have "least_tree t us \<in> set (t # us) \<and> tree_count (least_tree t us) \<le> tree_count t \<and> (\<forall>u\<in>set us. tree_count (least_tree t us) \<le> tree_count u)"
  proof (induction us arbitrary: t)
    case (Cons u us)
    from Cons.IH [of t] Cons.IH [of u] show ?case by (auto dest: order.trans)
  qed simp
  then show "least_tree t us \<in> set (t # us)" "u \<in> set (t # us) \<Longrightarrow> tree_count (least_tree t us) \<le> tree_count u" by auto
qed

lemma list_queue_ok: "pq_ok list_queue mset"
proof -
  have "least_tree (hd q) (tl q) \<in> set q" "\<forall>t\<in>set q. tree_count (least_tree (hd q) (tl q)) \<le> tree_count t" if "q \<noteq> []" for q
    using that least_tree [where t = "hd q" and us = "tl q"] by (metis list.collapse)+
  then show ?thesis by (auto simp: pq_ok_def list_queue_def)
qed

theorem huffman_roundtrip_witness:
  "\<exists>infos data. Compress list_queue [0, 0, 0] 0 new_infos [97, 98, 97] = Some (infos, data) \<and> Uncompress list_queue new_infos data = Some [97, 98, 97]"
  by (rule huffman_roundtrip [OF list_queue_ok]) (simp_all add: card_insert_if)

text \<open>An empty file leaves no tree in the queue; \<open>_CreateHuffmantree\<close> still takes the top of it.\<close>

lemma compress_empty:
  assumes "pq_ok Q items"
  shows "Compress Q pad junk new_infos [] = None"
proof -
  have "entries new_infos = []" by (auto simp: entries_def new_infos_def filter_empty_conv)
  then have "pq_size Q (fill_queue Q new_infos (pq_empty Q)) = 0"
    using fill_items [OF assms, of new_infos "pq_empty Q"] by (simp add: pq_okD(1,3) [OF assms])
  then show ?thesis by (simp add: Compress_def count_chars_def CreateHuffmantree_def fill_queue_def)
qed

text \<open>The tree of a file with one character is a leaf; \<open>Uncompress\<close> looks for the children of its null child.\<close>

lemma uncompress_leaf:
  assumes "read_table infos bs = Some (infos1, rest)" and "CreateHuffmantree Q infos1 0 = Some (HLeaf c n)" and "n > 0"
  shows "Uncompress Q infos bs = None"
proof -
  have "byte_loop 8 (HLeaf c n) ch 0 (HLeaf c n, n, []) = None" for ch by (simp add: numeral_eq_Suc)
  then have "uncompress_loop (HLeaf c n) ch rest1 (HLeaf c n, n, []) = None" for ch rest1
    using assms(3) by (subst uncompress_loop.simps) simp
  then show ?thesis using assms(1,2) by (simp add: Uncompress_def split: prod.split)
qed

end
