(* ===== verification/Cjson_String.thy ===== *)
theory Cjson_String
  imports Prelude
begin

text \<open>
  The strings of the JSON library in \<open>src/cJSON/demo1/cJSON.c\<close>: reading a string literal with its
  escape sequences (\<open>parse_hex4\<close>, \<open>utf16_literal_to_utf8\<close>, \<open>parse_string\<close>) and printing one
  (\<open>ensure\<close>, \<open>print_string_ptr\<close>).

  A pointer is an index into the object it points into; an access outside the object is
  \<^const>\<open>None\<close>. Sizes and offsets (\<open>size_t\<close>) are natural numbers, since they stay below the sizes
  of the objects. A \<open>goto fail\<close> is a value of the result. The functions \<open>allocate\<close> and
  \<open>reallocate\<close> of the hooks are parameters; a \<open>deallocate\<close> has no effect on the model.
\<close>

unbundle bit_operations_syntax

section \<open>Data\<close>

record internal_hooks =
  allocate :: "nat \<Rightarrow> u8 list option"
  reallocate :: "(u8 list \<Rightarrow> nat \<Rightarrow> u8 list option) option"

text \<open>The constants of \<open>cJSON.h\<close>, which is not part of the sources.\<close>

record cjson_h =
  cJSON_Invalid :: u32
  cJSON_False :: u32
  cJSON_True :: u32
  cJSON_NULL :: u32
  cJSON_Number :: u32
  cJSON_String :: u32
  cJSON_Array :: u32
  cJSON_Object :: u32
  cJSON_Raw :: u32
  cJSON_IsReference :: u32
  cJSON_StringIsConst :: u32
  CJSON_NESTING_LIMIT :: nat

text \<open>The value fields of an item; strings are the blocks they are stored in, \<open>NULL\<close> is \<^const>\<open>None\<close>.\<close>

record cJSON =
  item_type :: u32
  valuestring :: "u8 list option"
  valueint :: int
  valuedouble :: u64
  item_string :: "u8 list option"

record parse_buffer =
  content :: "u8 list"
  in_length :: nat
  in_offset :: nat
  in_depth :: nat

record printbuffer =
  pbuffer :: "u8 list option"
  plength :: nat
  poffset :: nat
  pdepth :: nat
  noalloc :: bool
  format :: bool

definition byte_at :: "u8 list \<Rightarrow> nat \<Rightarrow> u8 option" where
  "byte_at c i = (if i < length c then Some (c ! i) else None)"

definition put_at :: "u8 list \<Rightarrow> nat \<Rightarrow> u8 \<Rightarrow> u8 list option" where
  "put_at c i b = (if i < length c then Some (c[i := b]) else None)"

definition can_access_at_index :: "parse_buffer \<Rightarrow> nat \<Rightarrow> bool" where
  "can_access_at_index b i \<longleftrightarrow> in_offset b + i < in_length b"

section \<open>Escape sequences\<close>

definition hex_digit :: "u8 \<Rightarrow> u32 option" where
  "hex_digit c =
     (if 48 \<le> c \<and> c \<le> 57 then Some (ucast c - 48)
      else if 65 \<le> c \<and> c \<le> 70 then Some (10 + ucast c - 65)
      else if 97 \<le> c \<and> c \<le> 102 then Some (10 + ucast c - 97)
      else None)"

fun hex4_loop :: "nat \<Rightarrow> u8 list \<Rightarrow> nat \<Rightarrow> nat \<Rightarrow> u32 \<Rightarrow> u32 option" where
  "hex4_loop 0 c p i h = Some h"
| "hex4_loop (Suc r) c p i h = do {
     b \<leftarrow> byte_at c (p + i);
     case hex_digit b of None \<Rightarrow> Some 0
     | Some d \<Rightarrow> let h1 = h + d in hex4_loop r c p (Suc i) (if i < 3 then push_bit 4 h1 else h1)
   }"

definition parse_hex4 :: "u8 list \<Rightarrow> nat \<Rightarrow> u32 option" where
  "parse_hex4 c p = hex4_loop 4 c p 0 0"

text \<open>The continuation bytes of an encoding, from the last to the second; the rest of the code point is returned.\<close>

fun utf8_loop :: "nat \<Rightarrow> u8 list \<Rightarrow> nat \<Rightarrow> u64 \<Rightarrow> (u8 list \<times> u64) option" where
  "utf8_loop 0 out o_pos cp = Some (out, cp)"
| "utf8_loop (Suc k) out o_pos cp = do {
     out1 \<leftarrow> put_at out (o_pos + Suc k) (ucast ((cp OR 0x80) AND 0xBF));
     utf8_loop k out1 o_pos (drop_bit 6 cp)
   }"

definition utf8_form :: "u64 \<Rightarrow> (nat \<times> u64) option" where
  "utf8_form cp =
     (if cp < 0x80 then Some (1, 0)
      else if cp < 0x800 then Some (2, 0xC0)
      else if cp < 0x10000 then Some (3, 0xE0)
      else if cp \<le> 0x10FFFF then Some (4, 0xF0)
      else None)"

definition utf8_write :: "u64 \<Rightarrow> u8 list \<Rightarrow> nat \<Rightarrow> (u8 list \<times> nat) option option" where
  "utf8_write codepoint out o_pos =
     (case utf8_form codepoint of None \<Rightarrow> Some None
      | Some (utf8_length, first_byte_mark) \<Rightarrow> do {
          (out1, cp) \<leftarrow> utf8_loop (utf8_length - 1) out o_pos codepoint;
          out2 \<leftarrow> put_at out1 o_pos (if utf8_length > 1 then ucast ((cp OR first_byte_mark) AND 0xFF) else ucast (cp AND 0x7F));
          Some (Some (out2, o_pos + utf8_length))
        })"

text \<open>The code point of the literal at \<open>inp\<close> and its length; \<^const>\<open>None\<close> inside for the label \<open>fail\<close>.\<close>

definition utf16_codepoint :: "u8 list \<Rightarrow> nat \<Rightarrow> nat \<Rightarrow> (u64 \<times> nat) option option" where
  "utf16_codepoint c inp inp_end =
     (if int inp_end - int inp < 6 then Some None
      else do {
        first_code \<leftarrow> parse_hex4 c (inp + 2);
        if 0xDC00 \<le> first_code \<and> first_code \<le> 0xDFFF then Some None
        else if 0xD800 \<le> first_code \<and> first_code \<le> 0xDBFF then
          (if int inp_end - int (inp + 6) < 6 then Some None
           else do {
             s0 \<leftarrow> byte_at c (inp + 6);
             s1 \<leftarrow> (if s0 \<noteq> 92 then Some 0 else byte_at c (inp + 7));
             if s0 \<noteq> 92 \<or> s1 \<noteq> 117 then Some None
             else do {
               second_code \<leftarrow> parse_hex4 c (inp + 8);
               if second_code < 0xDC00 \<or> 0xDFFF < second_code then Some None
               else Some (Some (ucast (0x10000 + (push_bit 10 (first_code AND 0x3FF) OR (second_code AND 0x3FF))), 12))
             }
           })
        else Some (Some (ucast first_code, 6))
      })"

text \<open>The length of the literal, 0 on failure, the output and the position in it.\<close>

definition utf16_literal_to_utf8 :: "u8 list \<Rightarrow> nat \<Rightarrow> nat \<Rightarrow> u8 list \<Rightarrow> nat \<Rightarrow> (nat \<times> u8 list \<times> nat) option" where
  "utf16_literal_to_utf8 c inp inp_end out o_pos = do {
     r \<leftarrow> utf16_codepoint c inp inp_end;
     case r of None \<Rightarrow> Some (0, out, o_pos)
     | Some (codepoint, sequence_length) \<Rightarrow> do {
         w \<leftarrow> utf8_write codepoint out o_pos;
         case w of None \<Rightarrow> Some (0, out, o_pos)
         | Some (out1, o_pos1) \<Rightarrow> Some (sequence_length, out1, o_pos1)
       }
   }"

section \<open>Reading a string\<close>

text \<open>
  The loop that looks for the closing quote: the position where it stops and the number of
  escapes; \<^const>\<open>None\<close> inside when the last byte of the input is a backslash.
\<close>

function scan_end :: "u8 list \<Rightarrow> nat \<Rightarrow> nat \<Rightarrow> nat \<Rightarrow> (nat \<times> nat) option option" where
  "scan_end c len p skipped =
     (if \<not> p < len then Some (Some (p, skipped))
      else case byte_at c p of None \<Rightarrow> None
      | Some b \<Rightarrow>
          if b = 34 then Some (Some (p, skipped))
          else if b = 92 then (if p + 1 \<ge> len then Some None else scan_end c len (p + 2) (skipped + 1))
          else scan_end c len (p + 1) skipped)"
  by pat_completeness auto
termination by (relation "measure (\<lambda>(c, len, p, _). len - p)") auto

definition simple_escape :: "u8 \<Rightarrow> u8 option" where
  "simple_escape e =
     (if e = 98 then Some 8 else if e = 102 then Some 12 else if e = 110 then Some 10
      else if e = 114 then Some 13 else if e = 116 then Some 9
      else if e = 34 \<or> e = 92 \<or> e = 47 then Some e else None)"

text \<open>
  One iteration of the loop over the literal, and the loop: \<open>Inl\<close> is the position of the input
  pointer at a failure, \<open>Inr\<close> the input position, the output and the output position.
\<close>

definition decode_step :: "u8 list \<Rightarrow> nat \<Rightarrow> nat \<Rightarrow> u8 list \<Rightarrow> nat \<Rightarrow> (nat + nat \<times> u8 list \<times> nat) option" where
  "decode_step c inp_end inp out o_pos = do {
     b \<leftarrow> byte_at c inp;
     if b \<noteq> 92 then do { out1 \<leftarrow> put_at out o_pos b; Some (Inr (inp + 1, out1, o_pos + 1)) }
     else if int inp_end - int inp < 1 then Some (Inl inp)
     else do {
       e \<leftarrow> byte_at c (inp + 1);
       if e = 117 then do {
         (sequence_length, out1, o_pos1) \<leftarrow> utf16_literal_to_utf8 c inp inp_end out o_pos;
         Some (if sequence_length = 0 then Inl inp else Inr (inp + sequence_length, out1, o_pos1))
       }
       else case simple_escape e of None \<Rightarrow> Some (Inl inp)
       | Some v \<Rightarrow> do { out1 \<leftarrow> put_at out o_pos v; Some (Inr (inp + 2, out1, o_pos + 1)) }
     }
   }"

function decode_loop :: "u8 list \<Rightarrow> nat \<Rightarrow> nat \<Rightarrow> u8 list \<Rightarrow> nat \<Rightarrow> (nat + u8 list \<times> nat) option" where
  "decode_loop c inp_end inp out o_pos =
     (if \<not> inp < inp_end then Some (Inr (out, o_pos))
      else case decode_step c inp_end inp out o_pos of None \<Rightarrow> None
      | Some (Inl p) \<Rightarrow> Some (Inl p)
      | Some (Inr (inp1, out1, o_pos1)) \<Rightarrow> decode_loop c inp_end inp1 out1 o_pos1)"
  by pat_completeness auto

lemma decode_step_advances: "decode_step c e inp out o_pos = Some (Inr (inp1, out1, o_pos1)) \<Longrightarrow> inp < inp1"
  by (auto simp: decode_step_def split: bind_splits if_splits option.splits)

termination decode_loop
  by (relation "measure (\<lambda>(c, inp_end, inp, _). inp_end - inp)") (auto dest!: decode_step_advances)

definition parse_string ::
  "cjson_h \<Rightarrow> internal_hooks \<Rightarrow> cJSON \<Rightarrow> parse_buffer \<Rightarrow> (bool \<times> cJSON \<times> parse_buffer) option" where
  "parse_string H hooks item buf = do {
     let inp = in_offset buf + 1;
     let failed = (\<lambda>p. Some (False, item, buf\<lparr>in_offset := p\<rparr>));
     q \<leftarrow> byte_at (content buf) (in_offset buf);
     if q \<noteq> 34 then failed inp
     else do {
       r \<leftarrow> scan_end (content buf) (in_length buf) inp 0;
       case r of None \<Rightarrow> failed inp
       | Some (inp_end, skipped_bytes) \<Rightarrow>
           if inp_end \<ge> in_length buf then failed inp
           else do {
             e \<leftarrow> byte_at (content buf) inp_end;
             if e \<noteq> 34 then failed inp
             else
               let allocation_length = (inp_end - in_offset buf) - skipped_bytes in
               (case allocate hooks (allocation_length + 1) of None \<Rightarrow> failed inp
                | Some output \<Rightarrow> do {
                    d \<leftarrow> decode_loop (content buf) inp_end inp output 0;
                    case d of Inl p \<Rightarrow> failed p
                    | Inr (out, o_pos) \<Rightarrow> do {
                        out1 \<leftarrow> put_at out o_pos 0;
                        Some (True, item\<lparr>item_type := cJSON_String H, valuestring := Some out1\<rparr>,
                          buf\<lparr>in_offset := inp_end + 1\<rparr>)
                      }
                  })
           }
     }
   }"

section \<open>Memory safety of the reader\<close>

text \<open>
  The first loop splits the literal into tokens: a plain byte or a backslash with the byte after
  it. The second loop need not respect these tokens, since an escape sequence \<open>\u\<close> swallows four
  bytes even when they are no hexadecimal digits. The output still fits: every iteration writes at
  most as many bytes as tokens start in the bytes it reads, with one byte of credit while the
  input pointer is inside a token.
\<close>

function tokens :: "u8 list \<Rightarrow> nat \<Rightarrow> nat \<Rightarrow> nat" where
  "tokens c e p = (if p < e then Suc (tokens c e (if c ! p = 92 then p + 2 else p + 1)) else 0)"
  by pat_completeness auto
termination by (relation "measure (\<lambda>(c, e, p). e - p)") auto

function token_end :: "u8 list \<Rightarrow> nat \<Rightarrow> nat \<Rightarrow> bool" where
  "token_end c e p = (if p < e then token_end c e (if c ! p = 92 then p + 2 else p + 1) else p = e)"
  by pat_completeness auto
termination by (relation "measure (\<lambda>(c, e, p). e - p)") auto

declare tokens.simps [simp del] token_end.simps [simp del] scan_end.simps [simp del] decode_loop.simps [simp del]

lemma token_step:
  assumes "token_end c e p" and "p < e"
  shows "c ! p \<noteq> 92 \<Longrightarrow> token_end c e (p + 1) \<and> tokens c e p = Suc (tokens c e (p + 1))"
    and "c ! p = 92 \<Longrightarrow> token_end c e (p + 2) \<and> tokens c e p = Suc (tokens c e (p + 2))"
  using assms token_end.simps [of c e p] tokens.simps [of c e p] by simp_all

lemma token_le: "token_end c e p \<Longrightarrow> p \<le> e"
  by (subst (asm) token_end.simps) (auto split: if_splits)

text \<open>Any position is the start of a token or the second byte of one.\<close>

lemma token_jump:
  assumes "token_end c e p" and "p + n \<le> e"
  shows "token_end c e (p + n) \<and> tokens c e (p + n) \<le> tokens c e p \<or>
    token_end c e (p + n + 1) \<and> tokens c e (p + n + 1) + 1 \<le> tokens c e p"
  using assms
proof (induction n arbitrary: p rule: less_induct)
  case (less n)
  show ?case
  proof (cases n)
    case (Suc m)
    then have p: "p < e" using less.prems by simp
    show ?thesis
    proof (cases "c ! p = 92")
      case False
      from token_step(1) [OF less.prems(1) p False] less.IH [of m "p + 1"] less.prems(2) Suc show ?thesis by auto
    next
      case True
      note t = token_step(2) [OF less.prems(1) p True]
      show ?thesis
      proof (cases m)
        case 0
        with t Suc show ?thesis by auto
      next
        case (Suc k)
        with t less.IH [of k "p + 2"] less.prems(2) \<open>n = Suc m\<close> show ?thesis by auto
      qed
    qed
  qed (use less.prems in simp)
qed

lemma scan_end_spec:
  assumes "scan_end c len p sk = Some (Some (e, sk'))" and "len \<le> length c" and "e < len" and "c ! e = 34"
  shows "p \<le> e \<and> sk \<le> sk' \<and> token_end c e p \<and> e + sk = p + tokens c e p + sk'"
  using assms
proof (induction c len p sk rule: scan_end.induct)
  case (1 c len p sk)
  have b: "byte_at c p = Some (c ! p)" if "p < len" using that "1.prems"(2) by (simp add: byte_at_def)
  consider "p = e" | "p < len" "c ! p = 92" "scan_end c len (p + 2) (sk + 1) = Some (Some (e, sk'))"
    | "p < len" "c ! p \<noteq> 92" "c ! p \<noteq> 34" "scan_end c len (p + 1) sk = Some (Some (e, sk'))"
    using "1.prems"(1) "1.prems"(3) b by (subst (asm) scan_end.simps) (auto split: if_splits)
  then show ?case
  proof cases
    case 1
    then have "scan_end c len p sk = Some (Some (e, sk))" using b "1.prems"(3,4)
      by (subst scan_end.simps) simp
    with 1 \<open>scan_end c len p sk = Some (Some (e, sk'))\<close> show ?thesis
      by (simp add: tokens.simps [of c e e] token_end.simps [of c e e])
  next
    case 2
    from "1.IH"(1) [of "c ! p"] 2 b "1.prems" have ih: "p + 2 \<le> e" "sk + 1 \<le> sk'" "token_end c e (p + 2)"
      "e + (sk + 1) = p + 2 + tokens c e (p + 2) + sk'" by (auto simp: scan_end.simps [of c len p] split: if_splits)
    then show ?thesis using 2 by (simp add: tokens.simps [of c e p] token_end.simps [of c e p])
  next
    case 3
    from "1.IH"(2) [of "c ! p"] 3 b "1.prems" have ih: "p + 1 \<le> e" "sk \<le> sk'" "token_end c e (p + 1)"
      "e + sk = p + 1 + tokens c e (p + 1) + sk'" by auto
    then show ?thesis using 3 by (simp add: tokens.simps [of c e p] token_end.simps [of c e p])
  qed
qed

lemma scan_end_total: "len \<le> length c \<Longrightarrow> \<exists>r. scan_end c len p sk = Some r"
proof (induction c len p sk rule: scan_end.induct)
  case (1 c len p sk)
  then show ?case by (subst scan_end.simps) (simp add: byte_at_def)
qed

lemma byte_at_Some: "i < length c \<Longrightarrow> byte_at c i = Some (c ! i)"
  by (simp add: byte_at_def)

lemma put_at_Some: "i < length c \<Longrightarrow> put_at c i b = Some (c[i := b])"
  by (simp add: put_at_def)

lemmas at_simps = byte_at_Some put_at_Some

text \<open>A property of all bytes by evaluation.\<close>

lemma all_bytes: "list_all (\<lambda>n. P (of_nat n)) [0..<256] \<Longrightarrow> P (b :: u8)"
proof -
  have "unat b < 256" using unsigned_less [of b] by simp
  then have "unat b \<in> set [0..<256]" by simp
  moreover assume "list_all (\<lambda>n. P (of_nat n)) [0..<256]"
  ultimately have "P (of_nat (unat b))" unfolding list_all_iff by blast
  then show ?thesis by simp
qed

definition hex_value_ok :: "u8 \<Rightarrow> bool" where
  "hex_value_ok b \<longleftrightarrow> (case hex_digit b of None \<Rightarrow> True | Some d \<Rightarrow> d < 16 \<and> b \<noteq> 92)"

lemma hex_digit_bound: "hex_digit b = Some d \<Longrightarrow> d < 16 \<and> b \<noteq> 92"
proof -
  have "list_all (\<lambda>n. hex_value_ok (of_nat n)) [0..<256]" by code_simp
  then have "hex_value_ok b" by (rule all_bytes)
  then show "hex_digit b = Some d \<Longrightarrow> d < 16 \<and> b \<noteq> 92" by (simp add: hex_value_ok_def)
qed

lemma parse_hex4_unfold:
  assumes "p + 4 \<le> length c"
  shows "parse_hex4 c p = Some (case (hex_digit (c ! p), hex_digit (c ! (p + 1)), hex_digit (c ! (p + 2)), hex_digit (c ! (p + 3))) of
      (Some d0, Some d1, Some d2, Some d3) \<Rightarrow> push_bit 4 (push_bit 4 (push_bit 4 d0 + d1) + d2) + d3 | _ \<Rightarrow> 0)"
  using assms
  by (simp add: parse_hex4_def numeral_eq_Suc at_simps Let_def split: option.split)

lemma hex4_value:
  assumes "d0 < 16" and "d1 < 16" and "d2 < 16" and "d3 < (16 :: u32)"
  shows "unat (push_bit 4 (push_bit 4 (push_bit 4 d0 + d1) + d2) + d3) = ((unat d0 * 16 + unat d1) * 16 + unat d2) * 16 + unat d3"
proof -
  have n: "unat d0 < 16" "unat d1 < 16" "unat d2 < 16" "unat d3 < 16" using assms by (simp_all add: word_less_nat_alt)
  have mul: "unat (push_bit 4 x) = unat x * 16" if "unat x < 2 ^ 20" for x :: u32
    using that by (simp add: push_bit_eq_mult unat_word_ariths)
  have add: "unat (x + y) = unat x + unat y" if "unat x < 2 ^ 20" "unat y < 16" for x y :: u32
    using that by (simp add: unat_word_ariths)
  have s0: "unat (push_bit 4 d0) = unat d0 * 16" using n by (intro mul) simp
  have s1: "unat (push_bit 4 d0 + d1) = unat d0 * 16 + unat d1" using n s0 by (subst add) simp_all
  have s2: "unat (push_bit 4 (push_bit 4 d0 + d1)) = (unat d0 * 16 + unat d1) * 16" using n s1 by (subst mul) simp_all
  have s3: "unat (push_bit 4 (push_bit 4 d0 + d1) + d2) = (unat d0 * 16 + unat d1) * 16 + unat d2"
    using n s2 by (subst add) simp_all
  have s4: "unat (push_bit 4 (push_bit 4 (push_bit 4 d0 + d1) + d2)) = ((unat d0 * 16 + unat d1) * 16 + unat d2) * 16"
    using n s3 by (subst mul) simp_all
  show ?thesis using n s4 by (subst add) simp_all
qed

lemma hex_shift: "x < m \<Longrightarrow> d < 16 \<Longrightarrow> x * 16 + d < m * (16 :: nat)"
  by linarith

lemma hex4_less: "a < 16 \<Longrightarrow> b < 16 \<Longrightarrow> c < 16 \<Longrightarrow> d < 16 \<Longrightarrow> ((a * 16 + b) * 16 + c) * 16 + d < (65536 :: nat)"
  using hex_shift [OF hex_shift [OF hex_shift [of a 16 b], of c], of d] by simp

lemma parse_hex4_spec:
  assumes "p + 4 \<le> length c"
  obtains w where "parse_hex4 c p = Some w" and "unat w < 65536"
    and "w \<noteq> 0 \<Longrightarrow> \<forall>i < 4. c ! (p + i) \<noteq> 92"
proof -
  consider "parse_hex4 c p = Some 0" | d0 d1 d2 d3 where "hex_digit (c ! p) = Some d0" "hex_digit (c ! (p + 1)) = Some d1"
    "hex_digit (c ! (p + 2)) = Some d2" "hex_digit (c ! (p + 3)) = Some d3"
    unfolding parse_hex4_unfold [OF assms]
    by (cases "hex_digit (c ! p)"; cases "hex_digit (c ! (p + 1))"; cases "hex_digit (c ! (p + 2))"; cases "hex_digit (c ! (p + 3))") auto
  then show ?thesis
  proof cases
    case 1
    then show ?thesis using that by simp
  next
    case 2
    let ?w = "push_bit 4 (push_bit 4 (push_bit 4 d0 + d1) + d2) + d3"
    have b: "d0 < 16" "d1 < 16" "d2 < 16" "d3 < 16" and n: "c ! p \<noteq> 92" "c ! (p + 1) \<noteq> 92" "c ! (p + 2) \<noteq> 92" "c ! (p + 3) \<noteq> 92"
      using 2 hex_digit_bound by blast+
    have "unat ?w < 65536"
      unfolding hex4_value [OF b] using b by (intro hex4_less) (simp_all add: word_less_nat_alt)
    moreover have "\<forall>i < 4. c ! (p + i) \<noteq> 92" using n by (auto simp: numeral_eq_Suc less_Suc_eq)
    moreover have "parse_hex4 c p = Some ?w" using 2 parse_hex4_unfold [OF assms] by simp
    ultimately show ?thesis using that by blast
  qed
qed

lemma utf8_loop_total:
  "o_pos + k < length out \<Longrightarrow> \<exists>out1 cp1. utf8_loop k out o_pos cp = Some (out1, cp1) \<and> length out1 = length out"
proof (induction k arbitrary: out cp)
  case (Suc k)
  from Suc.prems Suc.IH [of "out[o_pos + Suc k := ucast ((cp OR 0x80) AND 0xBF)]" "drop_bit 6 cp"]
  show ?case by (simp add: at_simps)
qed simp

lemma utf8_write_total:
  assumes "utf8_form cp = Some (k, m)" and "o_pos + k \<le> length out"
  shows "\<exists>out1. utf8_write cp out o_pos = Some (Some (out1, o_pos + k)) \<and> length out1 = length out"
proof -
  have k: "0 < k" using assms(1) by (auto simp: utf8_form_def split: if_splits)
  then have "o_pos + (k - 1) < length out" using assms(2) by linarith
  then obtain out1 cp1 where l: "utf8_loop (k - 1) out o_pos cp = Some (out1, cp1)" "length out1 = length out"
    using utf8_loop_total by blast
  with k assms show ?thesis by (simp add: utf8_write_def at_simps)
qed

text \<open>The code point: nothing outside the literal is read; a pair or a valid code of three bytes has plain hexadecimal digits.\<close>

lemma utf8_form_bmp: "cp < 0x10000 \<Longrightarrow> \<exists>k m. utf8_form cp = Some (k, m) \<and> 0 < k \<and> k \<le> 3"
  by (auto simp: utf8_form_def)

lemma utf8_form_zero: "utf8_form 0 = Some (1, 0)"
  by (simp add: utf8_form_def)

lemma pair_codepoint:
  "unat (0x10000 + (push_bit 10 (x AND 0x3FF) OR (y AND 0x3FF)) :: u32) =
   65536 + (unat x mod 1024) * 1024 + unat y mod 1024"
proof -
  have m: "(0x3FF :: u32) = mask 10" by (simp add: mask_eq_exp_minus_1)
  have "push_bit 10 (take_bit 10 x) OR take_bit 10 y = push_bit 10 (take_bit 10 x) + take_bit 10 (y :: u32)"
    by (rule disjunctive_add [symmetric]) (auto simp: bit_simps)
  moreover have "unat (take_bit 10 z) = unat z mod 1024" for z :: u32
    by (simp add: take_bit_eq_mod unat_mod_distrib)
  moreover have "unat z mod 1024 < 1024" for z :: u32 by simp
  ultimately show ?thesis
    unfolding m take_bit_eq_mask [symmetric] by (simp add: unat_word_ariths push_bit_eq_mult)
qed

lemma utf16_codepoint_spec:
  assumes "inp_end \<le> length c"
  shows "utf16_codepoint c inp inp_end = Some None \<or>
    (\<exists>cp. utf16_codepoint c inp inp_end = Some (Some (cp, 6)) \<and> inp + 6 \<le> inp_end \<and> cp < 0x10000 \<and>
       (cp \<noteq> 0 \<longrightarrow> (\<forall>i < 4. c ! (inp + 2 + i) \<noteq> 92))) \<or>
    (\<exists>cp. utf16_codepoint c inp inp_end = Some (Some (cp, 12)) \<and> inp + 12 \<le> inp_end \<and> 0x10000 \<le> cp \<and> cp \<le> 0x10FFFF \<and>
       (\<forall>i < 4. c ! (inp + 2 + i) \<noteq> 92) \<and> c ! (inp + 6) = 92 \<and> c ! (inp + 7) = 117 \<and> (\<forall>i < 4. c ! (inp + 8 + i) \<noteq> 92))"
proof (cases "int inp_end - int inp < 6")
  case False
  then have in6: "inp + 6 \<le> inp_end" by linarith
  obtain w where w: "parse_hex4 c (inp + 2) = Some w" "unat w < 65536" "w \<noteq> 0 \<Longrightarrow> \<forall>i < 4. c ! (inp + 2 + i) \<noteq> 92"
    using parse_hex4_spec [of "inp + 2" c] assms in6 by auto
  have uw: "unat (ucast w :: u64) = unat w" using w(2) by (simp add: unsigned_ucast_eq take_bit_nat_eq_self)
  then have small: "ucast w < (0x10000 :: u64)" using w(2) by (simp add: word_less_nat_alt)
  have zero: "(ucast w :: u64) = 0 \<longleftrightarrow> w = 0" using uw by (metis unat_eq_0)
  consider "0xDC00 \<le> w \<and> w \<le> 0xDFFF" | "\<not> (0xDC00 \<le> w \<and> w \<le> 0xDFFF)" "\<not> (0xD800 \<le> w \<and> w \<le> 0xDBFF)"
    | "\<not> (0xDC00 \<le> w \<and> w \<le> 0xDFFF)" "0xD800 \<le> w \<and> w \<le> 0xDBFF" by blast
  then show ?thesis
  proof cases
    case 1
    with False w(1) show ?thesis by (simp add: utf16_codepoint_def)
  next
    case 2
    with False w(1) have "utf16_codepoint c inp inp_end = Some (Some (ucast w, 6))" by (auto simp: utf16_codepoint_def)
    with small zero w(3) in6 show ?thesis by blast
  next
    case 3
    then have "w \<noteq> 0" by auto
    show ?thesis
    proof (cases "int inp_end - int (inp + 6) < 6 \<or> c ! (inp + 6) \<noteq> 92 \<or> c ! (inp + 7) \<noteq> 117")
      case True
      with False 3 w(1) in6 assms show ?thesis by (auto simp: utf16_codepoint_def at_simps)
    next
      case F: False
      then have in12: "inp + 12 \<le> inp_end" by linarith
      obtain v where v: "parse_hex4 c (inp + 8) = Some v" "v \<noteq> 0 \<Longrightarrow> \<forall>i < 4. c ! (inp + 8 + i) \<noteq> 92"
        using parse_hex4_spec [of "inp + 8" c] assms in12 by auto
      let ?cp = "0x10000 + (push_bit 10 (w AND 0x3FF) OR (v AND 0x3FF)) :: u32"
      have u: "unat ?cp = 65536 + (unat w mod 1024) * 1024 + unat v mod 1024" by (rule pair_codepoint)
      have lt: "unat w mod 1024 < 1024" "unat v mod 1024 < 1024" by simp_all
      have uc: "unat (ucast ?cp :: u64) = unat ?cp" by (simp add: unsigned_ucast_eq take_bit_nat_eq_self order.strict_trans [OF unsigned_less])
      have cp: "0x10000 \<le> (ucast ?cp :: u64)" "(ucast ?cp :: u64) \<le> 0x10FFFF"
        unfolding word_le_nat_alt uc u using lt by simp_all
      show ?thesis
      proof (cases "v < 0xDC00 \<or> 0xDFFF < v")
        case True
        with False 3 F w(1) v(1) in12 assms show ?thesis by (simp add: utf16_codepoint_def at_simps)
      next
        case G: False
        then have "v \<noteq> 0" by auto
        moreover have "utf16_codepoint c inp inp_end = Some (Some (ucast ?cp, 12))"
          using False 3 F G w(1) v(1) in12 assms by (simp add: utf16_codepoint_def at_simps)
        ultimately show ?thesis using cp in12 v(2) w(3) \<open>w \<noteq> 0\<close> F by blast
      qed
    qed
  qed
qed (simp add: utf16_codepoint_def)

text \<open>The invariant of the second loop: \<open>B\<close> is the number of tokens of the literal.\<close>

definition fits :: "u8 list \<Rightarrow> nat \<Rightarrow> nat \<Rightarrow> nat \<Rightarrow> nat \<Rightarrow> bool" where
  "fits c e B p o_pos \<longleftrightarrow> o_pos \<le> B \<and>
     (p < e \<longrightarrow> token_end c e p \<and> o_pos + tokens c e p \<le> B \<or>
                token_end c e (p + 1) \<and> o_pos + 1 + tokens c e (p + 1) \<le> B)"

lemma fits_aligned: "token_end c e p \<Longrightarrow> o_pos + tokens c e p \<le> B \<Longrightarrow> fits c e B p o_pos"
  by (simp add: fits_def)

lemma fits_inside: "token_end c e (p + 1) \<Longrightarrow> o_pos + 1 + tokens c e (p + 1) \<le> B \<Longrightarrow> fits c e B p o_pos"
  by (simp add: fits_def)

lemma fits_jump:
  assumes "token_end c e p" and "p + n \<le> e" and "o_pos + tokens c e p \<le> B"
  shows "fits c e B (p + n) o_pos"
  using token_jump [OF assms(1,2)] assms(3) by (auto intro: fits_aligned fits_inside)

lemma tokens_plain:
  assumes "token_end c e p" and "p + n \<le> e" and "\<forall>i < n. c ! (p + i) \<noteq> 92"
  shows "token_end c e (p + n) \<and> tokens c e p = n + tokens c e (p + n)"
  using assms
proof (induction n)
  case (Suc n)
  then have ih: "token_end c e (p + n)" "tokens c e p = n + tokens c e (p + n)" by auto
  with token_step(1) [OF ih(1)] Suc.prems show ?case by simp
qed simp

lemma fits_plain:
  assumes "fits c e B p o_pos" and "p < e" and "c ! p \<noteq> 92"
  shows "fits c e B (p + 1) (o_pos + 1) \<and> o_pos < B"
  using assms(1) unfolding fits_def [of c e B p]
proof (elim conjE impE disjE)
  show "p < e" by (rule assms(2))
next
  assume t: "token_end c e p" "o_pos + tokens c e p \<le> B"
  from token_step(1) [OF t(1) assms(2,3)] t(2) show ?thesis by (auto intro: fits_aligned)
next
  assume t: "token_end c e (p + 1)" "o_pos + 1 + tokens c e (p + 1) \<le> B"
  then show ?thesis by (auto intro: fits_aligned)
qed

text \<open>After a backslash and a byte that is written or starts a literal \<open>\u\<close>.\<close>

lemma fits_escape:
  assumes "fits c e B p o_pos" and "p < e" and "c ! p = 92"
  shows "fits c e B (p + 2) (o_pos + 1) \<and> o_pos < B"
  using assms(1) unfolding fits_def [of c e B p]
proof (elim conjE impE disjE)
  show "p < e" by (rule assms(2))
next
  assume t: "token_end c e p" "o_pos + tokens c e p \<le> B"
  from token_step(2) [OF t(1) assms(2,3)] t(2) show ?thesis by (auto intro: fits_aligned)
next
  assume t: "token_end c e (p + 1)" "o_pos + 1 + tokens c e (p + 1) \<le> B"
  show ?thesis
  proof (cases "p + 1 < e")
    case True
    show ?thesis
    proof (cases "c ! (p + 1) = 92")
      case C: True
      from token_step(2) [OF t(1) True C] t(2) show ?thesis by (auto intro!: fits_inside simp: numeral_eq_Suc)
    next
      case C: False
      from token_step(1) [OF t(1) True C] t(2) show ?thesis by (auto intro!: fits_aligned simp: numeral_eq_Suc)
    qed
  next
    case False
    then show ?thesis using t(2) by (auto simp: fits_def)
  qed
qed

lemma fits_literal:
  assumes "fits c e B p o_pos" and "p + 2 \<le> e" and "c ! p = 92" and "c ! (p + 1) = 117"
  shows "token_end c e (p + 2) \<and> o_pos + 1 + tokens c e (p + 2) \<le> B"
  using assms(1) unfolding fits_def [of c e B p]
proof (elim conjE impE disjE)
  show "p < e" using assms(2) by simp
next
  assume t: "token_end c e p" "o_pos + tokens c e p \<le> B"
  from token_step(2) [OF t(1) _ assms(3)] t(2) assms(2) show ?thesis by auto
next
  assume t: "token_end c e (p + 1)" "o_pos + 1 + tokens c e (p + 1) \<le> B"
  have "c ! (p + 1) \<noteq> 92" using assms(4) by simp
  from token_step(1) [OF t(1) _ this] t(2) assms(2) show ?thesis by simp
qed

lemma shift_sums: "p + 2 + 4 = p + (6 :: nat)" "p + 6 + 2 = p + (8 :: nat)" "p + 8 + 4 = p + (12 :: nat)"
  by simp_all

lemma literal_six:
  assumes "fits c e B p o_pos" and "p + 6 \<le> e" and "c ! p = 92" and "c ! (p + 1) = 117"
    and "\<forall>i < 4. c ! (p + 2 + i) \<noteq> 92" and "k \<le> 3"
  shows "fits c e B (p + 6) (o_pos + k) \<and> o_pos + k \<le> B"
proof -
  from fits_literal [OF assms(1) _ assms(3,4)] assms(2)
  have t: "token_end c e (p + 2)" "o_pos + 1 + tokens c e (p + 2) \<le> B" by auto
  have "token_end c e (p + 6)" "tokens c e (p + 2) = 4 + tokens c e (p + 6)"
    using tokens_plain [OF t(1), of 4] assms(2,5) unfolding shift_sums by auto
  with t(2) assms(6) show ?thesis by (auto intro: fits_aligned)
qed

lemma literal_zero:
  assumes "fits c e B p o_pos" and "p + 6 \<le> e" and "c ! p = 92" and "c ! (p + 1) = 117"
  shows "fits c e B (p + 6) (o_pos + 1) \<and> o_pos + 1 \<le> B"
proof -
  from fits_literal [OF assms(1) _ assms(3,4)] assms(2)
  have t: "token_end c e (p + 2)" "o_pos + 1 + tokens c e (p + 2) \<le> B" by auto
  have "p + 2 + 4 \<le> e" using assms(2) by simp
  from fits_jump [OF t(1) this t(2)] t(2) show ?thesis unfolding shift_sums by simp
qed

lemma literal_twelve:
  assumes "fits c e B p o_pos" and "p + 12 \<le> e" and "c ! p = 92" and "c ! (p + 1) = 117"
    and "\<forall>i < 4. c ! (p + 2 + i) \<noteq> 92" and "c ! (p + 6) = 92" and "\<forall>i < 4. c ! (p + 8 + i) \<noteq> 92"
  shows "fits c e B (p + 12) (o_pos + 4) \<and> o_pos + 4 \<le> B"
proof -
  from fits_literal [OF assms(1) _ assms(3,4)] assms(2)
  have t: "token_end c e (p + 2)" "o_pos + 1 + tokens c e (p + 2) \<le> B" by auto
  have t6: "token_end c e (p + 6)" "tokens c e (p + 2) = 4 + tokens c e (p + 6)"
    using tokens_plain [OF t(1), of 4] assms(2,5) unfolding shift_sums by auto
  have t8: "token_end c e (p + 8)" "tokens c e (p + 6) = Suc (tokens c e (p + 8))"
    using token_step(2) [OF t6(1) _ assms(6)] assms(2) unfolding shift_sums by auto
  have "token_end c e (p + 12)" "tokens c e (p + 8) = 4 + tokens c e (p + 12)"
    using tokens_plain [OF t8(1), of 4] assms(2,7) unfolding shift_sums by auto
  with t(2) t6(2) t8(2) show ?thesis by (auto intro: fits_aligned)
qed

lemma utf16_literal_safe:
  assumes "fits c e B p o_pos" and "p < e" and "e < length c" and "c ! p = 92" and "c ! (p + 1) = 117" and "B \<le> length out"
  obtains n out1 o_pos1 where "utf16_literal_to_utf8 c p e out o_pos = Some (n, out1, o_pos1)" and "length out1 = length out"
    and "n = 0 \<or> fits c e B (p + n) o_pos1"
proof -
  note result = that
  have le: "e \<le> length c" using assms(3) by simp
  have wr: thesis if cp: "utf16_codepoint c p e = Some (Some (cp, n))" and k: "utf8_form cp = Some (k, m)"
    and f: "fits c e B (p + n) (o_pos + k) \<and> o_pos + k \<le> B" for cp n k m
  proof -
    obtain out1 where w: "utf8_write cp out o_pos = Some (Some (out1, o_pos + k))" "length out1 = length out"
      using utf8_write_total [OF k, of o_pos out] f assms(6) by auto
    show thesis by (rule result [of n out1 "o_pos + k"]) (use cp w f in \<open>simp_all add: utf16_literal_to_utf8_def\<close>)
  qed
  from utf16_codepoint_spec [OF le, of p] consider "utf16_codepoint c p e = Some None"
    | cp where "utf16_codepoint c p e = Some (Some (cp, 6))" "p + 6 \<le> e" "cp < 0x10000" "cp \<noteq> 0 \<longrightarrow> (\<forall>i < 4. c ! (p + 2 + i) \<noteq> 92)"
    | cp where "utf16_codepoint c p e = Some (Some (cp, 12))" "p + 12 \<le> e" "0x10000 \<le> cp" "cp \<le> 0x10FFFF"
       "\<forall>i < 4. c ! (p + 2 + i) \<noteq> 92" "c ! (p + 6) = 92" "\<forall>i < 4. c ! (p + 8 + i) \<noteq> 92" by blast
  then show thesis
  proof cases
    case 1
    then show thesis using result [of 0 out o_pos] by (simp add: utf16_literal_to_utf8_def)
  next
    case 2
    show thesis
    proof (cases "cp = 0")
      case True
      with 2 utf8_form_zero literal_zero [OF assms(1) 2(2) assms(4,5)] show thesis by (intro wr [of cp 6 1 0]) simp_all
    next
      case False
      obtain k m where "utf8_form cp = Some (k, m)" "k \<le> 3" using utf8_form_bmp [OF 2(3)] by blast
      with False 2 literal_six [OF assms(1) 2(2) assms(4,5)] show thesis by (intro wr [of cp 6]) simp_all
    qed
  next
    case 3
    then have "\<not> cp < 0x80" "\<not> cp < 0x800" "\<not> cp < 0x10000" by (auto simp: word_le_nat_alt word_less_nat_alt)
    then have "utf8_form cp = Some (4, 0xF0)" using 3(4) by (simp add: utf8_form_def)
    with 3 literal_twelve [OF assms(1) 3(2) assms(4,5) 3(5,6,7)] show thesis by (intro wr [of cp 12]) simp_all
  qed
qed

lemma decode_step_safe:
  assumes "fits c e B p o_pos" and "p < e" and "e < length c" and "B \<le> length out"
  shows "(\<exists>q \<le> e. decode_step c e p out o_pos = Some (Inl q) \<and> p \<le> q) \<or>
    (\<exists>p1 out1 o_pos1. decode_step c e p out o_pos = Some (Inr (p1, out1, o_pos1)) \<and> length out1 = length out \<and> fits c e B p1 o_pos1)"
proof (cases "c ! p = 92")
  case False
  with fits_plain [OF assms(1,2) False] assms show ?thesis by (simp add: decode_step_def at_simps)
next
  case True
  show ?thesis
  proof (cases "c ! (p + 1) = 117")
    case U: True
    obtain n out1 o_pos1 where u: "utf16_literal_to_utf8 c p e out o_pos = Some (n, out1, o_pos1)" "length out1 = length out"
      "n = 0 \<or> fits c e B (p + n) o_pos1"
      using assms(1-3) True U assms(4) by (rule utf16_literal_safe)
    with True U assms(2,3) show ?thesis by (cases "n = 0") (simp_all add: decode_step_def at_simps)
  next
    case U: False
    with True fits_escape [OF assms(1,2) True] assms(2-4) show ?thesis
      by (cases "simple_escape (c ! (p + 1))") (simp_all add: decode_step_def at_simps)
  qed
qed

lemma decode_loop_safe:
  assumes "fits c e B p o_pos" and "e < length c" and "B \<le> length out"
  shows "(\<exists>q \<le> e. decode_loop c e p out o_pos = Some (Inl q) \<and> p \<le> q) \<or>
    (\<exists>out1 o_pos1. decode_loop c e p out o_pos = Some (Inr (out1, o_pos1)) \<and> length out1 = length out \<and> o_pos1 \<le> B)"
  using assms
proof (induction c e p out o_pos rule: decode_loop.induct)
  case (1 c e p out o_pos)
  show ?case
  proof (cases "p < e")
    case False
    with 1(2) show ?thesis by (subst (1 2) decode_loop.simps) (simp add: fits_def)
  next
    case True
    from decode_step_safe [OF "1.prems"(1) True "1.prems"(2,3)] show ?thesis
    proof (elim disjE exE conjE)
      fix q assume "q \<le> e" "decode_step c e p out o_pos = Some (Inl q)" "p \<le> q"
      with True show ?thesis by (subst (1 2) decode_loop.simps) simp
    next
      fix p1 out1 o_pos1
      assume s: "decode_step c e p out o_pos = Some (Inr (p1, out1, o_pos1))" "length out1 = length out" "fits c e B p1 o_pos1"
      have "p < p1" using s(1) by (rule decode_step_advances)
      then show ?thesis using "1.IH" [OF _ s(1) refl refl refl] True s "1.prems"(2,3)
        by (subst (1 2) decode_loop.simps) (auto intro: order_trans less_imp_le)
    qed
  qed
qed

text \<open>What the code relies on: a block has the requested size, and \<open>realloc\<close> keeps the old contents.\<close>

definition hooks_ok :: "internal_hooks \<Rightarrow> bool" where
  "hooks_ok hooks \<longleftrightarrow> (\<forall>n blk. allocate hooks n = Some blk \<longrightarrow> length blk = n) \<and>
     (\<forall>f old n blk. reallocate hooks = Some f \<longrightarrow> f old n = Some blk \<longrightarrow>
        length blk = n \<and> take (min n (length old)) blk = take n old)"

definition buffer_ok :: "parse_buffer \<Rightarrow> bool" where
  "buffer_ok buf \<longleftrightarrow> in_length buf \<le> length (content buf) \<and> in_offset buf < in_length buf"

text \<open>A block that holds a string with a terminating zero byte.\<close>

definition c_string :: "u8 list \<Rightarrow> u8 list" where
  "c_string blk = takeWhile (\<lambda>b. b \<noteq> 0) blk"

lemma parse_string_cases:
  assumes "hooks_ok hooks" and "buffer_ok buf"
  shows "(\<exists>q. parse_string H hooks item buf = Some (False, item, buf\<lparr>in_offset := q\<rparr>) \<and> in_offset buf < q \<and> q \<le> in_length buf) \<or>
    (\<exists>blk q. parse_string H hooks item buf =
        Some (True, item\<lparr>item_type := cJSON_String H, valuestring := Some blk\<rparr>, buf\<lparr>in_offset := q\<rparr>) \<and>
      in_offset buf + 1 < q \<and> q \<le> in_length buf \<and> 0 \<in> set blk)"
proof -
  let ?c = "content buf" and ?p = "in_offset buf + 1" and ?len = "in_length buf"
  have off: "in_offset buf < length ?c" "?len \<le> length ?c" "?p \<le> ?len" using assms(2) by (simp_all add: buffer_ok_def)
  have failed: ?thesis if "parse_string H hooks item buf = Some (False, item, buf\<lparr>in_offset := q\<rparr>)" "?p \<le> q" "q \<le> ?len" for q
    using that by (intro disjI1 exI [of _ q]) simp
  obtain r where r: "scan_end ?c ?len ?p 0 = Some r" using scan_end_total [OF off(2)] by blast
  have ps: "parse_string H hooks item buf = Some (False, item, buf\<lparr>in_offset := ?p\<rparr>)" if "?c ! in_offset buf \<noteq> 34 \<or> r = None"
    using that r off(1) by (auto simp: parse_string_def at_simps)
  show ?thesis
  proof (cases "?c ! in_offset buf \<noteq> 34 \<or> r = None")
    case True
    from failed [OF ps [OF True] order_refl off(3)] show ?thesis .
  next
    case False
    then obtain e sk where e: "?c ! in_offset buf = 34" "r = Some (e, sk)" by auto
    show ?thesis
    proof (cases "?len \<le> e \<or> ?c ! e \<noteq> 34")
      case True
      then have "parse_string H hooks item buf = Some (False, item, buf\<lparr>in_offset := ?p\<rparr>)"
        using e r off by (cases "?len \<le> e") (simp_all add: parse_string_def at_simps)
      from failed [OF this order_refl off(3)] show ?thesis .
    next
      case F: False
      then have e_in: "e < ?len" "?c ! e = 34" "e < length ?c" using off(2) by auto
      have sc: "scan_end ?c ?len ?p 0 = Some (Some (e, sk))" using r e(2) by simp
      have tk: "?p \<le> e" "token_end ?c e ?p" "e = ?p + tokens ?c e ?p + sk"
        using scan_end_spec [OF sc off(2) e_in(1,2)] by simp_all
      let ?n = "e - in_offset buf - sk + 1"
      show ?thesis
      proof (cases "allocate hooks ?n")
        case None
        then have "parse_string H hooks item buf = Some (False, item, buf\<lparr>in_offset := ?p\<rparr>)"
          using e r off e_in by (simp add: parse_string_def at_simps Let_def)
        from failed [OF this order_refl off(3)] show ?thesis .
      next
        case (Some out)
        then have lo: "length out = tokens ?c e ?p + 2" using assms(1) tk(3) by (auto simp: hooks_ok_def)
        have eq: "parse_string H hooks item buf = do {
            d \<leftarrow> decode_loop ?c e ?p out 0;
            case d of Inl p \<Rightarrow> Some (False, item, buf\<lparr>in_offset := p\<rparr>)
            | Inr (out, o_pos) \<Rightarrow> do {
                out1 \<leftarrow> put_at out o_pos 0;
                Some (True, item\<lparr>item_type := cJSON_String H, valuestring := Some out1\<rparr>, buf\<lparr>in_offset := e + 1\<rparr>)
              }
          }"
          using e r off e_in Some by (simp add: parse_string_def at_simps Let_def)
        have "fits ?c e (tokens ?c e ?p) ?p 0" using tk(2) by (intro fits_aligned) simp_all
        from decode_loop_safe [OF this e_in(3), of out] lo consider
          q where "q \<le> e" "decode_loop ?c e ?p out 0 = Some (Inl q)" "?p \<le> q"
          | out1 o_pos1 where "decode_loop ?c e ?p out 0 = Some (Inr (out1, o_pos1))" "length out1 = length out" "o_pos1 \<le> tokens ?c e ?p"
          by auto
        then show ?thesis
        proof cases
          case 1
          with eq have "parse_string H hooks item buf = Some (False, item, buf\<lparr>in_offset := q\<rparr>)" by simp
          from failed [OF this 1(3)] 1(1) e_in(1) show ?thesis by simp
        next
          case 2
          then have l1: "o_pos1 < length out1" using lo by simp
          with eq 2 have "parse_string H hooks item buf = Some (True, item\<lparr>item_type := cJSON_String H,
              valuestring := Some (out1[o_pos1 := 0])\<rparr>, buf\<lparr>in_offset := e + 1\<rparr>)" by (simp add: at_simps)
          moreover have "0 \<in> set (out1[o_pos1 := 0])" using l1 by (rule set_update_memI)
          ultimately show ?thesis using tk(1) e_in(1) 
            by (intro disjI2 exI [where x = "out1[o_pos1 := 0]"] exI [where x = "e + 1"] conjI) simp_all
        qed
      qed
    qed
  qed
qed
end
