(* ===== verification/Cjson_Print.thy ===== *)
theory Cjson_Print
  imports Cjson_String
begin

text \<open>
  Printing strings with \<open>src/cJSON/demo1/cJSON.c\<close>: the growing output buffer (\<open>ensure\<close>,
  \<open>update_offset\<close>) and \<open>print_string_ptr\<close>. The lemmas show that the printed text is the quoted
  string, that it stays inside the buffer, and that \<open>parse_string\<close> reads the same string back.
\<close>

unbundle bit_operations_syntax

section \<open>Printing a string\<close>

text \<open>
  The position where \<open>needed\<close> more bytes can be written, \<^const>\<open>None\<close> inside for the null pointer.
\<close>

definition MAX_SIZE :: nat where "MAX_SIZE = 2147483647"

definition ensure :: "internal_hooks \<Rightarrow> printbuffer \<Rightarrow> nat \<Rightarrow> (nat option \<times> printbuffer) option" where
  "ensure hooks p needed =
     (case pbuffer p of None \<Rightarrow> Some (None, p)
      | Some buf \<Rightarrow>
          if plength p > 0 \<and> poffset p \<ge> plength p then Some (None, p)
          else if needed > MAX_SIZE then Some (None, p)
          else let needed = needed + (poffset p + 1) in
          if needed \<le> plength p then Some (Some (poffset p), p)
          else if noalloc p then Some (None, p)
          else if needed > MAX_SIZE div 2 \<and> \<not> needed \<le> MAX_SIZE then Some (None, p)
          else let newsize = (if needed > MAX_SIZE div 2 then MAX_SIZE else needed * 2) in
          (case reallocate hooks of
             Some f \<Rightarrow>
               (case f buf newsize of None \<Rightarrow> Some (None, p\<lparr>plength := 0, pbuffer := None\<rparr>)
                | Some newbuffer \<Rightarrow> Some (Some (poffset p), p\<lparr>plength := newsize, pbuffer := Some newbuffer\<rparr>))
           | None \<Rightarrow>
               (case allocate hooks newsize of None \<Rightarrow> Some (None, p\<lparr>plength := 0, pbuffer := None\<rparr>)
                | Some newbuffer \<Rightarrow> do {
                    newbuffer1 \<leftarrow> memcpy newbuffer 0 buf 0 (int (poffset p) + 1);
                    Some (Some (poffset p), p\<lparr>plength := newsize, pbuffer := Some newbuffer1\<rparr>)
                  })))"

text \<open>\<open>strlen\<close> from a position on, and the update of the offset after printing.\<close>

function strlen_at :: "u8 list \<Rightarrow> nat \<Rightarrow> nat option" where
  "strlen_at c p = (case byte_at c p of None \<Rightarrow> None | Some b \<Rightarrow> if b = 0 then Some 0 else map_option Suc (strlen_at c (p + 1)))"
  by pat_completeness auto
termination by (relation "measure (\<lambda>(c, p). length c - p)") (auto simp: byte_at_def split: if_splits)

definition update_offset :: "printbuffer \<Rightarrow> printbuffer option" where
  "update_offset p =
     (case pbuffer p of None \<Rightarrow> Some p
      | Some buf \<Rightarrow> do { n \<leftarrow> strlen_at buf (poffset p); Some (p\<lparr>poffset := poffset p + n\<rparr>) })"

fun put_all :: "u8 list \<Rightarrow> nat \<Rightarrow> u8 list \<Rightarrow> u8 list option" where
  "put_all c i [] = Some c"
| "put_all c i (b # bs) = do { c1 \<leftarrow> put_at c i b; put_all c1 (Suc i) bs }"

definition escape_size :: "u8 \<Rightarrow> nat" where
  "escape_size b = (if b \<in> {34, 92, 8, 12, 10, 13, 9} then 1 else if b < 32 then 5 else 0)"

function count_escapes :: "u8 list \<Rightarrow> nat \<Rightarrow> nat \<Rightarrow> (nat \<times> nat) option" where
  "count_escapes c p n =
     (case byte_at c p of None \<Rightarrow> None
      | Some b \<Rightarrow> if b = 0 then Some (p, n) else count_escapes c (p + 1) (n + escape_size b))"
  by pat_completeness auto
termination by (relation "measure (\<lambda>(c, p, n). length c - p)") (auto simp: byte_at_def split: if_splits)

definition escape_letter :: "u8 \<Rightarrow> u8 option" where
  "escape_letter b =
     (if b = 92 then Some 92 else if b = 34 then Some 34 else if b = 8 then Some 98 else if b = 12 then Some 102
      else if b = 10 then Some 110 else if b = 13 then Some 114 else if b = 9 then Some 116 else None)"

text \<open>\<open>sprintf\<close> of \<open>u%04x\<close> for one byte.\<close>

definition hex_char :: "u8 \<Rightarrow> u8" where
  "hex_char d = (if d < 10 then 48 + d else 87 + d)"

definition sprintf_u04x :: "u8 \<Rightarrow> u8 list" where
  "sprintf_u04x b = [117, 48, 48, hex_char (drop_bit 4 b), hex_char (b AND 15), 0]"

function escape_loop :: "u8 list \<Rightarrow> nat \<Rightarrow> u8 list \<Rightarrow> nat \<Rightarrow> u8 list option" where
  "escape_loop c p out o_pos =
     (case byte_at c p of None \<Rightarrow> None
      | Some b \<Rightarrow>
          if b = 0 then Some out
          else if b > 31 \<and> b \<noteq> 34 \<and> b \<noteq> 92 then
            (case put_at out o_pos b of None \<Rightarrow> None | Some out1 \<Rightarrow> escape_loop c (p + 1) out1 (o_pos + 1))
          else
            (case put_at out o_pos 92 of None \<Rightarrow> None
             | Some out1 \<Rightarrow>
                 (case escape_letter b of
                    Some l \<Rightarrow>
                      (case put_at out1 (o_pos + 1) l of None \<Rightarrow> None | Some out2 \<Rightarrow> escape_loop c (p + 1) out2 (o_pos + 2))
                  | None \<Rightarrow>
                      (case put_all out1 (o_pos + 1) (sprintf_u04x b) of None \<Rightarrow> None
                       | Some out2 \<Rightarrow> escape_loop c (p + 1) out2 (o_pos + 6)))))"
  by pat_completeness auto
termination by (relation "measure (\<lambda>(c, p, out, o_pos). length c - p)") (auto simp: byte_at_def split: if_splits)

definition print_string_ptr :: "internal_hooks \<Rightarrow> u8 list option \<Rightarrow> printbuffer \<Rightarrow> (bool \<times> printbuffer) option" where
  "print_string_ptr hooks input_str p =
     (case input_str of
        None \<Rightarrow> do {
          (r, p1) \<leftarrow> ensure hooks p 3;
          case (r, pbuffer p1) of
            (Some o_pos, Some buf) \<Rightarrow> do { buf1 \<leftarrow> put_all buf o_pos [34, 34, 0]; Some (True, p1\<lparr>pbuffer := Some buf1\<rparr>) }
          | _ \<Rightarrow> Some (False, p1)
        }
      | Some c \<Rightarrow> do {
          (n, escape_characters) \<leftarrow> count_escapes c 0 0;
          let output_length = n + escape_characters;
          (r, p1) \<leftarrow> ensure hooks p (output_length + 3);
          case (r, pbuffer p1) of
            (Some o_pos, Some buf) \<Rightarrow>
              if escape_characters = 0 then do {
                buf1 \<leftarrow> put_at buf o_pos 34;
                buf2 \<leftarrow> memcpy buf1 (int o_pos + 1) c 0 (int output_length);
                buf3 \<leftarrow> put_at buf2 (o_pos + output_length + 1) 34;
                buf4 \<leftarrow> put_at buf3 (o_pos + output_length + 2) 0;
                Some (True, p1\<lparr>pbuffer := Some buf4\<rparr>)
              }
              else do {
                buf1 \<leftarrow> put_at buf o_pos 34;
                buf2 \<leftarrow> escape_loop c 0 buf1 (o_pos + 1);
                buf3 \<leftarrow> put_at buf2 (o_pos + output_length + 1) 34;
                buf4 \<leftarrow> put_at buf3 (o_pos + output_length + 2) 0;
                Some (True, p1\<lparr>pbuffer := Some buf4\<rparr>)
              }
          | _ \<Rightarrow> Some (False, p1)
        })"

definition print_string :: "internal_hooks \<Rightarrow> cJSON \<Rightarrow> printbuffer \<Rightarrow> (bool \<times> printbuffer) option" where
  "print_string hooks item p = print_string_ptr hooks (valuestring item) p"

section \<open>The printed text\<close>

declare count_escapes.simps [simp del] escape_loop.simps [simp del] strlen_at.simps [simp del]

definition enc :: "u8 \<Rightarrow> u8 list" where
  "enc b = (case escape_letter b of Some l \<Rightarrow> [92, l]
    | None \<Rightarrow> if b < 32 then 92 # take 5 (sprintf_u04x b) else [b])"

definition json_quote :: "u8 list \<Rightarrow> u8 list" where
  "json_quote s = 34 # concat (map enc s) @ [34]"

lemma above_31: "31 < b \<longleftrightarrow> \<not> b < (32 :: u8)"
  by (simp add: word_less_nat_alt) linarith

lemma enc_length [simp]: "length (enc b) = 1 + escape_size b"
  by (auto simp: enc_def escape_size_def escape_letter_def sprintf_u04x_def)

lemma enc_plain: "escape_letter b = None \<and> \<not> b < 32 \<longleftrightarrow> b > 31 \<and> b \<noteq> 34 \<and> b \<noteq> 92"
  by (auto simp: above_31 escape_letter_def)

lemma enc_same: "escape_size b = 0 \<Longrightarrow> enc b = [b]"
  by (auto simp: enc_def escape_size_def escape_letter_def split: if_splits)

lemma quote_length: "length (concat (map enc s)) = length s + sum_list (map escape_size s)"
  by (induction s) simp_all

lemma concat_enc_same: "sum_list (map escape_size s) = 0 \<Longrightarrow> concat (map enc s) = s"
  by (induction s) (simp_all add: enc_same)

lemma count_escapes_spec:
  "0 \<notin> set s \<Longrightarrow> count_escapes (xs @ s @ 0 # ys) (length xs) n = Some (length xs + length s, n + sum_list (map escape_size s))"
proof (induction s arbitrary: xs n)
  case Nil
  then show ?case by (subst count_escapes.simps) (simp add: byte_at_def)
next
  case (Cons b s)
  then show ?case using Cons.IH [of "xs @ [b]" "n + escape_size b"]
    by (subst count_escapes.simps) (simp add: byte_at_def)
qed

lemma put_all_spec: "i + length bs \<le> length c \<Longrightarrow> put_all c i bs = Some (overwrite c i bs)"
proof (induction bs arbitrary: c i)
  case (Cons b bs)
  have "overwrite (c[i := b]) (Suc i) bs = overwrite c i (b # bs)"
    using Cons.prems by (simp add: overwrite_def take_Suc_conv_app_nth)
  then show ?case using Cons by (simp add: at_simps)
qed simp

lemma put_at_overwrite: "i < length c \<Longrightarrow> put_at c i b = Some (overwrite c i [b])"
  using put_all_spec [of i "[b]" c] by (auto simp: bind_eq_Some_conv)

text \<open>
  Writing one character: the encoding, and perhaps a zero byte after it.
\<close>

definition writes :: "u8 list \<Rightarrow> nat \<Rightarrow> u8 list \<Rightarrow> u8 list \<Rightarrow> bool" where
  "writes out i bs out1 \<longleftrightarrow> length out1 = length out \<and> take (i + length bs) out1 = take i out @ bs \<and>
     drop (i + length bs + 1) out1 = drop (i + length bs + 1) out"

lemma writes_overwrite: "i + length bs \<le> length out \<Longrightarrow> writes out i bs (overwrite out i bs)"
  by (simp add: writes_def overwrite_def)

lemma writes_terminated:
  assumes "i + length bs < length out"
  shows "writes out i bs (overwrite out i (bs @ [z]))"
  using assms by (simp add: writes_def overwrite_def)

lemma writes_trans:
  assumes "writes out i bs out1" and "writes out1 (i + length bs) cs out2"
  shows "writes out i (bs @ cs) out2"
proof -
  let ?n = "i + length bs + length cs + 1"
  have "drop ?n out2 = drop ?n out1" using assms(2) by (simp add: writes_def add.assoc)
  also have "\<dots> = drop (length cs) (drop (i + length bs + 1) out1)" by (simp add: add.commute)
  also have "\<dots> = drop (length cs) (drop (i + length bs + 1) out)" using assms(1) by (simp add: writes_def)
  finally have "drop ?n out2 = drop ?n out" by (simp add: add.commute)
  then show ?thesis using assms by (simp add: writes_def add.assoc)
qed

lemma overwrite_Cons:
  "i < length c \<Longrightarrow> overwrite (c[i := b]) (Suc i) bs = overwrite c i (b # bs)"
  by (simp add: overwrite_def take_Suc_conv_app_nth)

lemma list_update_overwrite: "i < length c \<Longrightarrow> c[i := b] = overwrite c i [b]"
  by (simp add: overwrite_def upd_conv_take_nth_drop)

lemma escape_loop_spec:
  assumes "0 \<notin> set s" and "o_pos + length (concat (map enc s)) < length out"
  shows "\<exists>out1. escape_loop (xs @ s @ 0 # ys) (length xs) out o_pos = Some out1 \<and> writes out o_pos (concat (map enc s)) out1"
  using assms
proof (induction s arbitrary: xs out o_pos)
  case Nil
  then show ?case by (subst escape_loop.simps) (simp add: byte_at_def writes_def)
next
  case (Cons b s)
  let ?c = "xs @ (b # s) @ 0 # ys"
  have c: "byte_at ?c (length xs) = Some b" by (simp add: byte_at_def)
  have b0: "b \<noteq> 0" using Cons.prems by auto
  obtain out1 where out1: "escape_loop ?c (length xs) out o_pos = escape_loop ?c (length xs + 1) out1 (o_pos + length (enc b))"
    and w1: "writes out o_pos (enc b) out1"
  proof (cases "escape_letter b = None \<and> \<not> b < 32")
    case True
    then have e: "enc b = [b]" by (simp add: enc_def)
    have p: "b > 31 \<and> b \<noteq> 34 \<and> b \<noteq> 92" using True enc_plain by blast
    have l: "o_pos < length out" using Cons.prems(2) by simp
    show ?thesis
      by (rule that [of "overwrite out o_pos [b]"])
        (use c b0 p l e in \<open>simp_all add: escape_loop.simps [of ?c "length xs"] put_at_overwrite writes_overwrite del: append.simps enc_length\<close>)
  next
    case F: False
    then have p: "\<not> (b > 31 \<and> b \<noteq> 34 \<and> b \<noteq> 92)" using enc_plain by blast
    show ?thesis
    proof (cases "escape_letter b")
      case (Some l)
      have e: "enc b = [92, l]" using Some by (simp add: enc_def)
      have lt: "Suc o_pos < length out" using Cons.prems(2) e by simp
      have ov: "out[o_pos := 92, Suc o_pos := l] = overwrite out o_pos [92, l]"
        using lt overwrite_Cons [of o_pos out 92 "[l]"] by (simp add: list_update_overwrite)
      show ?thesis
      proof (rule that)
        show "escape_loop ?c (length xs) out o_pos =
            escape_loop ?c (length xs + 1) (overwrite out o_pos [92, l]) (o_pos + length (enc b))"
          using c b0 p lt Some unfolding ov [symmetric] e
          by (auto simp: escape_loop.simps [of ?c "length xs"] at_simps simp del: append.simps)
        show "writes out o_pos (enc b) (overwrite out o_pos [92, l])"
          unfolding e using lt by (intro writes_overwrite) simp
      qed
    next
      case None
      with F have e: "enc b = 92 # take 5 (sprintf_u04x b)" by (simp add: enc_def)
      have lt: "o_pos + 6 < length out" using Cons.prems(2) e by (simp add: sprintf_u04x_def)
      have six: "sprintf_u04x b = take 5 (sprintf_u04x b) @ [0]" by (simp add: sprintf_u04x_def)
      have "put_all (out[o_pos := 92]) (o_pos + 1) (sprintf_u04x b) = Some (overwrite out o_pos (92 # sprintf_u04x b))"
        using lt by (subst put_all_spec) (simp_all add: sprintf_u04x_def overwrite_Cons)
      moreover have "92 # sprintf_u04x b = enc b @ [0]" using e six by simp
      ultimately have pa: "put_all (out[o_pos := 92]) (o_pos + 1) (sprintf_u04x b) = Some (overwrite out o_pos (enc b @ [0]))" by simp
      have l6: "length (enc b) = 6" using e by (simp add: sprintf_u04x_def)
      show ?thesis
      proof (rule that)
        show "escape_loop ?c (length xs) out o_pos =
            escape_loop ?c (length xs + 1) (overwrite out o_pos (enc b @ [0])) (o_pos + length (enc b))"
          using c b0 p lt None pa unfolding l6
          by (auto simp: escape_loop.simps [of ?c "length xs"] at_simps simp del: append.simps)
        show "writes out o_pos (enc b) (overwrite out o_pos (enc b @ [0]))"
          using lt l6 by (intro writes_terminated) simp
      qed
    qed
  qed
  have "o_pos + length (enc b) + length (concat (map enc s)) < length out1"
    using Cons.prems(2) w1 by (simp add: writes_def)
  with Cons.IH [of "o_pos + length (enc b)" out1 "xs @ [b]"] Cons.prems(1) obtain out2 where
    "escape_loop ((xs @ [b]) @ s @ 0 # ys) (length (xs @ [b])) out1 (o_pos + length (enc b)) = Some out2"
    and w2: "writes out1 (o_pos + length (enc b)) (concat (map enc s)) out2" by auto
  then have "escape_loop ?c (length xs) out o_pos = Some out2" using out1 by simp
  with writes_trans [OF w1 w2] show ?case by simp
qed

section \<open>The output buffer\<close>

definition printbuffer_ok :: "printbuffer \<Rightarrow> bool" where
  "printbuffer_ok p \<longleftrightarrow> (case pbuffer p of None \<Rightarrow> False | Some buf \<Rightarrow> length buf = plength p \<and> poffset p < plength p)"

text \<open>What a successful \<open>ensure\<close> gives: the room asked for, the printed text kept.\<close>

definition room :: "printbuffer \<Rightarrow> nat \<Rightarrow> printbuffer \<Rightarrow> bool" where
  "room p needed p1 \<longleftrightarrow> printbuffer_ok p1 \<and> poffset p1 = poffset p \<and> poffset p + needed + 1 \<le> plength p1 \<and>
     (\<exists>buf buf1. pbuffer p = Some buf \<and> pbuffer p1 = Some buf1 \<and> take (poffset p) buf1 = take (poffset p) buf)"

lemma newsize_ok:
  "n \<le> MAX_SIZE \<Longrightarrow> n \<le> (if MAX_SIZE div 2 < n then MAX_SIZE else n * 2)"
  by simp

lemma hooks_realloc:
  assumes "hooks_ok hooks" and "reallocate hooks = Some f" and "f buf n = Some blk" and "k \<le> length buf" and "length buf \<le> n"
  shows "length blk = n \<and> take k blk = take k buf"
proof -
  have "length blk = n \<and> take (min n (length buf)) blk = take n buf"
    using assms(1-3) unfolding hooks_ok_def by blast
  then have l: "length blk = n" and t: "take (length buf) blk = buf" using assms(5) by (simp_all add: min_absorb2)
  have "take k blk = take k (take (length buf) blk)" using assms(4) by (simp add: min_absorb1)
  then show ?thesis using l t by simp
qed

lemma ensure_spec:
  assumes "hooks_ok hooks" and "printbuffer_ok p"
  shows "(\<exists>p1. ensure hooks p needed = Some (None, p1)) \<and> (plength p < poffset p + needed + 1 \<or> MAX_SIZE < needed) \<or>
    (\<exists>p1. ensure hooks p needed = Some (Some (poffset p), p1) \<and> room p needed p1)"
proof -
  obtain buf where buf: "pbuffer p = Some buf" "length buf = plength p" "poffset p < plength p"
    using assms(2) by (auto simp: printbuffer_ok_def split: option.splits)
  let ?n = "needed + (poffset p + 1)"
  show ?thesis
  proof (cases "?n \<le> plength p \<and> needed \<le> MAX_SIZE")
    case True
    with buf have "ensure hooks p needed = Some (Some (poffset p), p)" by (simp add: ensure_def)
    moreover have "room p needed p" using True buf assms(2) by (simp add: room_def)
    ultimately show ?thesis by blast
  next
    case False
    then have small: "plength p < poffset p + needed + 1 \<or> MAX_SIZE < needed" by auto
    show ?thesis
    proof (cases "MAX_SIZE < needed \<or> noalloc p \<or> MAX_SIZE < ?n")
      case True
      with False buf have "ensure hooks p needed = Some (None, p)" by (auto simp: ensure_def Let_def)
      with small show ?thesis by blast
    next
      case grow: False
      let ?size = "if MAX_SIZE div 2 < ?n then MAX_SIZE else ?n * 2"
      have size: "?n \<le> ?size" using grow by (intro newsize_ok) simp
      have more: "plength p < ?n" using False grow by simp
      have new: "room p needed (p\<lparr>plength := ?size, pbuffer := Some blk\<rparr>)"
        if "length blk = ?size" "take (poffset p) blk = take (poffset p) buf" for blk
        using that size buf by (auto simp: room_def printbuffer_ok_def)
      show ?thesis
      proof (cases "reallocate hooks")
        case (Some f)
        then have eq: "ensure hooks p needed = (case f buf ?size of None \<Rightarrow> Some (None, p\<lparr>plength := 0, pbuffer := None\<rparr>)
            | Some blk \<Rightarrow> Some (Some (poffset p), p\<lparr>plength := ?size, pbuffer := Some blk\<rparr>))"
          using buf more grow by (auto simp: ensure_def Let_def split: option.split)
        show ?thesis
        proof (cases "f buf ?size")
          case None
          then show ?thesis using eq small by simp
        next
          case (Some blk)
          have "length blk = ?size \<and> take (poffset p) blk = take (poffset p) buf"
            using hooks_realloc [OF assms(1) \<open>reallocate hooks = Some f\<close> Some, of "poffset p"] buf(2,3) more size by linarith
          with new [of blk] Some eq show ?thesis by simp
        qed
      next
        case None
        then have eq: "ensure hooks p needed = (case allocate hooks ?size of None \<Rightarrow> Some (None, p\<lparr>plength := 0, pbuffer := None\<rparr>)
            | Some blk \<Rightarrow> do {
                blk1 \<leftarrow> memcpy blk 0 buf 0 (int (poffset p) + 1);
                Some (Some (poffset p), p\<lparr>plength := ?size, pbuffer := Some blk1\<rparr>)
              })"
          using buf more grow by (auto simp: ensure_def Let_def split: option.split)
        show ?thesis
        proof (cases "allocate hooks ?size")
          case None
          then show ?thesis using eq small by simp
        next
          case (Some blk)
          then have l: "length blk = ?size" using assms(1) by (simp add: hooks_ok_def)
          let ?b = "overwrite blk 0 (take (poffset p + 1) buf)"
          have cp: "memcpy blk 0 buf 0 (int (poffset p) + 1) = Some ?b"
            using l size buf by (subst memcpy_overwrite) (auto simp: nat_add_distrib)
          have "length ?b = ?size \<and> take (poffset p) ?b = take (poffset p) buf"
            using l size buf by (auto simp: overwrite_def take_append)
          with new [of ?b] Some eq cp show ?thesis by simp
        qed
      qed
    qed
  qed
qed

section \<open>The printed string\<close>

lemma overwrite_take: "i + length xs \<le> length c \<Longrightarrow> take i (overwrite c i xs) = take i c"
  by (simp add: overwrite_def)

text \<open>The bytes from \<open>i\<close> on after the quotes and the zero byte are in place.\<close>

lemma finish_quote:
  assumes "writes out (i + 1) bs out1" and "i + length bs + 3 \<le> length out" and "out ! i = 34"
  shows "\<exists>out2 out3. put_at out1 (i + length bs + 1) 34 = Some out2 \<and> put_at out2 (i + length bs + 2) 0 = Some out3 \<and>
    length out3 = length out \<and> take (i + length bs + 3) out3 = take i out @ 34 # bs @ [34, 0]"
proof -
  have l: "length out1 = length out" and t: "take (i + 1 + length bs) out1 = take (i + 1) out @ bs"
    using assms(1) by (simp_all add: writes_def)
  let ?n = "i + length bs + 1"
  let ?out3 = "out1[?n := 34, ?n + 1 := 0]"
  have n: "take ?n out1 = take i out @ 34 # bs"
    using t assms(2,3) by (simp add: take_Suc_conv_app_nth)
  have "take (?n + 2) ?out3 = take ?n out1 @ [34, 0]"
    using assms(2) l by (simp add: take_Suc_conv_app_nth nth_list_update)
  then have "take (i + length bs + 3) ?out3 = take i out @ 34 # bs @ [34, 0]"
    using n by (simp add: add.assoc numeral_3_eq_3)
  with l assms(2) show ?thesis by (simp add: at_simps)
qed

lemma print_string_ptr_spec:
  assumes "hooks_ok hooks" and "printbuffer_ok p" and "0 \<notin> set s" and "pbuffer p = Some buf"
  shows "(\<exists>p1. print_string_ptr hooks (Some (s @ 0 # r)) p = Some (False, p1)) \<and>
      (plength p < poffset p + length (json_quote s) + 2 \<or> MAX_SIZE < length (json_quote s) + 1) \<or>
    (\<exists>p1 buf1. print_string_ptr hooks (Some (s @ 0 # r)) p = Some (True, p1) \<and> pbuffer p1 = Some buf1 \<and>
      printbuffer_ok p1 \<and> poffset p1 = poffset p \<and> poffset p + length (json_quote s) + 2 \<le> plength p1 \<and>
      take (poffset p + length (json_quote s) + 1) buf1 = take (poffset p) buf @ json_quote s @ [0])"
proof -
  define E where "E = sum_list (map escape_size s)"
  let ?L = "length (concat (map enc s))"
  have count: "count_escapes (s @ 0 # r) 0 0 = Some (length s, E)"
    using count_escapes_spec [OF assms(3), of "[]" r 0] by (simp add: E_def)
  have L: "length s + E = ?L" by (simp add: quote_length E_def)
  have q: "length (json_quote s) = ?L + 2" by (simp add: json_quote_def)
  from ensure_spec [OF assms(1,2), of "?L + 3"] show ?thesis
  proof (elim disjE exE conjE)
    fix p1 assume "ensure hooks p (?L + 3) = Some (None, p1)" and small: "plength p < poffset p + (?L + 3) + 1"
    then have "print_string_ptr hooks (Some (s @ 0 # r)) p = Some (False, p1)"
      by (simp add: print_string_ptr_def count L del: length_concat)
    with small q show ?thesis by simp
  next
    fix p1 assume "ensure hooks p (?L + 3) = Some (None, p1)" and small: "MAX_SIZE < ?L + 3"
    then have "print_string_ptr hooks (Some (s @ 0 # r)) p = Some (False, p1)"
      by (simp add: print_string_ptr_def count L del: length_concat)
    with small q show ?thesis by simp
  next
    fix p1 assume en: "ensure hooks p (?L + 3) = Some (Some (poffset p), p1)" and room: "room p (?L + 3) p1"
    then obtain b where b: "pbuffer p1 = Some b" "length b = plength p1" "poffset p + ?L + 4 \<le> length b"
      "take (poffset p) b = take (poffset p) buf" "poffset p1 = poffset p"
      using assms(4) by (auto simp: room_def printbuffer_ok_def split: option.splits)
    let ?i = "poffset p"
    let ?b1 = "b[?i := 34]"
    obtain b2 where b2: "writes ?b1 (?i + 1) (concat (map enc s)) b2"
      and sel: "if E = 0 then memcpy ?b1 (int ?i + 1) (s @ 0 # r) 0 (int ?L) = Some b2
        else escape_loop (s @ 0 # r) 0 ?b1 (?i + 1) = Some b2"
    proof (cases "E = 0")
      case True
      then have e: "concat (map enc s) = s" unfolding E_def by (rule concat_enc_same)
      have n: "nat (int ?i + 1) = ?i + 1" by simp
      show ?thesis
      proof (rule that [of "overwrite ?b1 (?i + 1) s"])
        show "writes ?b1 (?i + 1) (concat (map enc s)) (overwrite ?b1 (?i + 1) s)"
          unfolding e using b(3) e by (intro writes_overwrite) simp
        show "if E = 0 then memcpy ?b1 (int ?i + 1) (s @ 0 # r) 0 (int ?L) = Some (overwrite ?b1 (?i + 1) s)
            else escape_loop (s @ 0 # r) 0 ?b1 (?i + 1) = Some (overwrite ?b1 (?i + 1) s)"
          using True b(3) e by (simp add: memcpy_overwrite n del: length_concat)
      qed
    next
      case False
      have "?i + 1 + ?L < length ?b1" using b(3) by simp
      from escape_loop_spec [OF assms(3) this, of "[]" r, unfolded append_Nil list.size(3)] obtain b2
        where "escape_loop (s @ 0 # r) 0 ?b1 (?i + 1) = Some b2" "writes ?b1 (?i + 1) (concat (map enc s)) b2" by blast
      show ?thesis
      proof (rule that)
        show "writes ?b1 (?i + 1) (concat (map enc s)) b2" by fact
        show "if E = 0 then memcpy ?b1 (int ?i + 1) (s @ 0 # r) 0 (int ?L) = Some b2
            else escape_loop (s @ 0 # r) 0 ?b1 (?i + 1) = Some b2"
          unfolding if_not_P [OF False] by fact
      qed
    qed
    have "?b1 ! ?i = 34" using b(3) by simp
    with finish_quote [OF b2] b(3) obtain b3 b4 where fin: "put_at b2 (?i + ?L + 1) 34 = Some b3" "put_at b3 (?i + ?L + 2) 0 = Some b4"
      "length b4 = length b" "take (?i + ?L + 3) b4 = take ?i b @ 34 # concat (map enc s) @ [34, 0]"
      by (auto simp del: length_concat)
    have p34: "put_at b ?i 34 = Some ?b1" using b(3) by (simp add: at_simps)
    have "print_string_ptr hooks (Some (s @ 0 # r)) p = Some (True, p1\<lparr>pbuffer := Some b4\<rparr>)"
      using count en b(1) p34 sel fin(1,2) L by (cases "E = 0") (simp_all add: print_string_ptr_def Let_def del: length_concat)
    moreover have "printbuffer_ok (p1\<lparr>pbuffer := Some b4\<rparr>)" using room fin(3) b(2,3,5) by (simp add: room_def printbuffer_ok_def)
    moreover have "take (?i + length (json_quote s) + 1) b4 = take ?i buf @ json_quote s @ [0]"
      using fin(4) b(4) unfolding q by (simp add: json_quote_def add.assoc numeral_3_eq_3 del: length_concat)
    ultimately show ?thesis using b q by simp
  qed
qed

section \<open>Reading back\<close>

text \<open>An encoded character is one token, and the reader turns it into the character.\<close>

definition is_escaped :: "u8 \<Rightarrow> bool" where
  "is_escaped b \<longleftrightarrow> escape_size b \<noteq> 0"

definition control_ok :: "u8 \<Rightarrow> bool" where
  "control_ok b \<longleftrightarrow> \<not> b < 32 \<or>
     (case (hex_digit (hex_char (drop_bit 4 b)), hex_digit (hex_char (b AND 15))) of
        (Some d, Some e) \<Rightarrow> push_bit 4 (push_bit 4 (push_bit 4 0 + 0) + d) + e = ucast b \<and>
          (ucast (ucast b :: u32) :: u64) < 0x80 \<and> ucast ((ucast (ucast b :: u32) :: u64) AND 0x7F) = b
      | _ \<Rightarrow> False)"

lemma control_ok: "control_ok b"
proof -
  have "list_all (\<lambda>n. control_ok (of_nat n)) [0..<256]" by code_simp
  then show ?thesis by (rule all_bytes)
qed

lemma enc_cases:
  obtains (plain) "enc b = [b]" "b \<noteq> 34" "b \<noteq> 92" "escape_size b = 0"
    | (letter) l where "enc b = [92, l]" "simple_escape l = Some b" "l \<noteq> 117" "escape_size b = 1"
    | (control) h l where "enc b = [92, 117, 48, 48, h, l]" "h = hex_char (drop_bit 4 b)" "l = hex_char (b AND 15)" "b < 32" "escape_size b = 5"
proof (cases "escape_letter b")
  case (Some l)
  then have "enc b = [92, l]" "escape_size b = 1" by (auto simp: enc_def escape_size_def escape_letter_def split: if_splits)
  moreover have "simple_escape l = Some b" "l \<noteq> 117" using Some by (auto simp: escape_letter_def simple_escape_def split: if_splits)
  ultimately show ?thesis by (intro letter)
next
  case None
  show ?thesis
  proof (cases "b < 32")
    case True
    with None show ?thesis by (intro control) (auto simp: enc_def sprintf_u04x_def escape_size_def escape_letter_def split: if_splits)
  next
    case False
    with None show ?thesis by (intro plain) (auto simp: enc_def escape_size_def escape_letter_def split: if_splits)
  qed
qed

lemma hex_digit_plain: "hex_digit h = Some d \<Longrightarrow> h \<noteq> 34 \<and> h \<noteq> 92"
  by (auto simp: hex_digit_def)

lemma control_digits:
  assumes "b < 32"
  obtains d e where "hex_digit (hex_char (drop_bit 4 b)) = Some d" and "hex_digit (hex_char (b AND 15)) = Some e"
    and "push_bit 4 (push_bit 4 (push_bit 4 0 + 0) + d) + e = ucast b"
    and "(ucast (ucast b :: u32) :: u64) < 0x80" and "ucast ((ucast (ucast b :: u32) :: u64) AND 0x7F) = b"
  using control_ok [of b] assms unfolding control_ok_def
  by (auto split: option.splits)

lemma byte_at_append: "byte_at (xs @ ys) (length xs + i) = byte_at ys i"
  by (simp add: byte_at_def)

lemma scan_plain: "p < len \<Longrightarrow> byte_at c p = Some b \<Longrightarrow> b \<noteq> 34 \<Longrightarrow> b \<noteq> 92 \<Longrightarrow> scan_end c len p sk = scan_end c len (p + 1) sk"
  by (simp add: scan_end.simps [of c len p])

lemma scan_escape: "p + 1 < len \<Longrightarrow> byte_at c p = Some 92 \<Longrightarrow> scan_end c len p sk = scan_end c len (p + 2) (sk + 1)"
  by (simp add: scan_end.simps [of c len p])

lemma scan_quote: "p < len \<Longrightarrow> byte_at c p = Some 34 \<Longrightarrow> scan_end c len p sk = Some (Some (p, sk))"
  by (simp add: scan_end.simps [of c len p])

lemma scan_plains:
  "length xs + length bs \<le> len \<Longrightarrow> \<forall>b \<in> set bs. b \<noteq> 34 \<and> b \<noteq> 92 \<Longrightarrow>
   scan_end (xs @ bs @ ys) len (length xs) sk = scan_end (xs @ bs @ ys) len (length xs + length bs) sk"
proof (induction bs arbitrary: xs)
  case (Cons b bs)
  have "scan_end (xs @ (b # bs) @ ys) len (length xs) sk = scan_end (xs @ (b # bs) @ ys) len (length xs + 1) sk"
    by (rule scan_plain [of _ _ _ b]) (use Cons.prems in \<open>simp_all add: byte_at_def\<close>)
  with Cons.IH [of "xs @ [b]"] Cons.prems show ?case by simp
qed simp

lemma scan_enc:
  assumes "length xs + length (enc b) < len"
  shows "scan_end (xs @ enc b @ ys) len (length xs) sk =
    scan_end (xs @ enc b @ ys) len (length xs + length (enc b)) (sk + (if is_escaped b then 1 else 0))"
proof (cases b rule: enc_cases)
  case plain
  with assms scan_plains [of xs "enc b" len ys sk] show ?thesis by (simp add: is_escaped_def)
next
  case (letter l)
  with assms show ?thesis by (subst scan_escape) (simp_all add: byte_at_def is_escaped_def)
next
  case (control h l)
  from control(4) obtain d e where "hex_digit h = Some d" "hex_digit l = Some e" unfolding control(2,3) by (rule control_digits)
  then have hl: "h \<noteq> 34 \<and> h \<noteq> 92" "l \<noteq> 34 \<and> l \<noteq> 92" using hex_digit_plain by blast+
  have "scan_end (xs @ enc b @ ys) len (length xs) sk = scan_end (xs @ enc b @ ys) len (length xs + 2) (sk + 1)"
    by (rule scan_escape) (use assms control in \<open>simp_all add: byte_at_def del: enc_length\<close>)
  moreover have "scan_end ((xs @ [92, 117]) @ [48, 48, h, l] @ ys) len (length (xs @ [92, 117])) (sk + 1) =
      scan_end ((xs @ [92, 117]) @ [48, 48, h, l] @ ys) len (length (xs @ [92, 117]) + length [48, 48, h, l]) (sk + 1)"
    by (rule scan_plains) (use assms control hl in \<open>simp_all del: enc_length\<close>)
  ultimately show ?thesis using control by (simp add: is_escaped_def del: enc_length)
qed

lemma scan_quoted:
  "length xs + length (concat (map enc s)) < len \<Longrightarrow>
   scan_end (xs @ concat (map enc s) @ 34 # ys) len (length xs) sk =
     Some (Some (length xs + length (concat (map enc s)), sk + length (filter is_escaped s)))"
proof (induction s arbitrary: xs sk)
  case Nil
  then show ?case by (subst scan_quote) (simp_all add: byte_at_def)
next
  case (Cons b s)
  have lt: "length xs + length (enc b) < len" using Cons.prems by simp
  from scan_enc [OF lt, of "concat (map enc s) @ 34 # ys" sk] Cons.IH [of "xs @ enc b"] Cons.prems
  show ?case by (simp add: add.assoc del: enc_length)
qed

lemma decode_enc:
  assumes "length xs + length (enc b) \<le> e" and "e < length (xs @ enc b @ ys)" and "o_pos < length out"
  shows "decode_step (xs @ enc b @ ys) e (length xs) out o_pos = Some (Inr (length xs + length (enc b), out[o_pos := b], o_pos + 1))"
proof (cases b rule: enc_cases)
  case plain
  with assms show ?thesis by (simp add: decode_step_def byte_at_def put_at_def)
next
  case (letter l)
  with assms show ?thesis by (simp add: decode_step_def byte_at_def put_at_def nth_append)
next
  case (control h l)
  let ?c = "xs @ enc b @ ys" and ?p = "length xs"
  obtain d e' where d: "hex_digit h = Some d" "hex_digit l = Some e'"
    "push_bit 4 (push_bit 4 (push_bit 4 0 + 0) + d) + e' = ucast b" "(ucast (ucast b :: u32) :: u64) < 0x80"
    "ucast ((ucast (ucast b :: u32) :: u64) AND 0x7F) = b"
    using control(4) unfolding control(2,3) by (rule control_digits)
  have nth: "?c ! ?p = 92" "?c ! (?p + 1) = 117" "?c ! (?p + 2) = 48" "?c ! (?p + 2 + 1) = 48" "?c ! (?p + 2 + 2) = h" "?c ! (?p + 2 + 3) = l"
    using control(1) by (simp_all add: nth_append numeral_eq_Suc)
  have len: "?p + 6 \<le> e" "e < length ?c" using assms control(1) by simp_all
  have z: "hex_digit 48 = Some 0" by (simp add: hex_digit_def)
  have len4: "?p + 2 + 4 \<le> length ?c" using len by linarith
  have "parse_hex4 ?c (?p + 2) = Some (ucast b)"
    unfolding parse_hex4_unfold [OF len4] nth z d(1,2) using d(3) by simp
  moreover have "\<not> 0xD800 \<le> (ucast b :: u32) \<and> \<not> 0xDC00 \<le> (ucast b :: u32)"
  proof -
    have "unat b < 256" using unsigned_less [of b, where 'a = nat] by simp
    then show ?thesis by (simp add: word_le_nat_alt unsigned_ucast_eq take_bit_nat_eq_self)
  qed
  ultimately have "utf16_codepoint ?c ?p e = Some (Some (ucast (ucast b :: u32), 6))"
    using len by (auto simp: utf16_codepoint_def)
  moreover have "utf8_write (ucast (ucast b :: u32)) out o_pos = Some (Some (out[o_pos := b], o_pos + 1))"
    using d(4,5) assms(3) by (simp add: utf8_write_def utf8_form_def at_simps)
  ultimately have "utf16_literal_to_utf8 ?c ?p e out o_pos = Some (6, out[o_pos := b], o_pos + 1)"
    by (simp add: utf16_literal_to_utf8_def)
  moreover have "length (enc b) = 6" using control(1) by simp
  moreover have pl: "?p < length ?c" "?p + 1 < length ?c" using len by linarith+
  moreover have "byte_at ?c ?p = Some 92" "byte_at ?c (?p + 1) = Some 117"
    unfolding byte_at_Some [OF pl(1)] byte_at_Some [OF pl(2)] nth(1,2) by (rule refl)+
  ultimately show ?thesis using len by (simp add: decode_step_def)
qed

lemma decode_quoted:
  assumes "length xs + length (concat (map enc s)) < length c" and "c = xs @ concat (map enc s) @ ys" and "o_pos + length s \<le> length out"
  shows "decode_loop c (length xs + length (concat (map enc s))) (length xs) out o_pos = Some (Inr (overwrite out o_pos s, o_pos + length s))"
  using assms
proof (induction s arbitrary: xs out o_pos)
  case Nil
  then show ?case by (subst decode_loop.simps) simp
next
  case (Cons b s)
  define e where "e = length xs + length (concat (map enc (b # s)))"
  have c: "c = xs @ enc b @ concat (map enc s) @ ys" using Cons.prems(2) by simp
  have lt: "e < length c" unfolding e_def by (rule Cons.prems(1))
  have e: "e = length (xs @ enc b) + length (concat (map enc s))" by (simp add: e_def)
  have step: "decode_step c e (length xs) out o_pos = Some (Inr (length (xs @ enc b), out[o_pos := b], o_pos + 1))"
    using decode_enc [of xs b e "concat (map enc s) @ ys" o_pos out] lt e Cons.prems(3) unfolding c by simp
  have "decode_loop c e (length xs) out o_pos = decode_loop c e (length (xs @ enc b)) (out[o_pos := b]) (o_pos + 1)"
  proof -
    have "length xs < e" using e by simp
    then show ?thesis by (simp add: decode_loop.simps [of c e "length xs"] step)
  qed
  also have "\<dots> = Some (Inr (overwrite (out[o_pos := b]) (o_pos + 1) s, o_pos + 1 + length s))"
    unfolding e by (rule Cons.IH) (use Cons.prems in simp_all)
  also have "overwrite (out[o_pos := b]) (o_pos + 1) s = overwrite out o_pos (b # s)"
    using Cons.prems(3) overwrite_Cons [of o_pos out b s] by simp
  finally show ?case unfolding e_def by simp
qed

lemma escaped_room: "length s + length (filter is_escaped s) \<le> length (concat (map enc s))"
  by (induction s) (auto simp: is_escaped_def)

lemma c_string_prefix: "0 \<notin> set s \<Longrightarrow> c_string (s @ 0 # r) = s"
  by (induction s) (auto simp: c_string_def)

lemma parse_quoted:
  assumes "hooks_ok hooks" and "\<And>n. allocate hooks n \<noteq> None" and "0 \<notin> set s"
    and "content buf = xs @ json_quote s @ ys" and "in_offset buf = length xs"
    and "length xs + length (json_quote s) \<le> in_length buf" and "in_length buf \<le> length (content buf)"
  shows "\<exists>blk. parse_string H hooks item buf = Some (True, item\<lparr>item_type := cJSON_String H, valuestring := Some blk\<rparr>,
      buf\<lparr>in_offset := length xs + length (json_quote s)\<rparr>) \<and> c_string blk = s"
proof -
  let ?c = "content buf" and ?L = "length (concat (map enc s))" and ?x = "xs @ [34]"
  have c: "?c = ?x @ concat (map enc s) @ 34 # ys" using assms(4) by (simp add: json_quote_def)
  have q: "length (json_quote s) = ?L + 2" by (simp add: json_quote_def)
  let ?e = "length ?x + ?L"
  have e: "?e < in_length buf" using assms(6) q by simp
  have scan: "scan_end ?c (in_length buf) (length ?x) 0 = Some (Some (?e, length (filter is_escaped s)))"
    unfolding c using scan_quoted [OF e, of "34 # ys" 0] scan_quoted [OF e, of ys 0] by simp
  let ?n = "?e - length xs - length (filter is_escaped s) + 1"
  obtain out where out: "allocate hooks ?n = Some out" using assms(2) by blast
  then have lo: "length out = ?n" using assms(1) by (simp add: hooks_ok_def)
  have room: "length s < length out" using lo escaped_room [of s] by simp
  have dec: "decode_loop ?c ?e (length ?x) out 0 = Some (Inr (overwrite out 0 s, 0 + length s))"
    by (rule decode_quoted [where ys = "34 # ys"]) (use e assms(7) c room in simp_all)
  have b: "byte_at ?c (length xs) = Some 34" "byte_at ?c ?e = Some 34"
    unfolding c by (simp_all add: byte_at_def nth_append)
  have put: "put_at (overwrite out 0 s) (length s) 0 = Some (s @ 0 # drop (Suc (length s)) out)"
    using room by (simp add: at_simps overwrite_def list_update_append upd_conv_take_nth_drop)
  have "parse_string H hooks item buf = Some (True, item\<lparr>item_type := cJSON_String H,
      valuestring := Some (s @ 0 # drop (Suc (length s)) out)\<rparr>, buf\<lparr>in_offset := ?e + 1\<rparr>)"
    using b scan out dec put e assms(5) by (simp add: parse_string_def Let_def del: length_concat)
  moreover have "?e + 1 = length xs + length (json_quote s)" using q by simp
  ultimately show ?thesis using c_string_prefix [OF assms(3)] by auto
qed

section \<open>Properties\<close>

text \<open>The constants of version 1.7.13 of the library and a hook that always succeeds, for the witnesses.\<close>

definition demo_h :: cjson_h where
  "demo_h = \<lparr>cJSON_Invalid = 0, cJSON_False = 1, cJSON_True = 2, cJSON_NULL = 4, cJSON_Number = 8, cJSON_String = 16,
     cJSON_Array = 32, cJSON_Object = 64, cJSON_Raw = 128, cJSON_IsReference = 256, cJSON_StringIsConst = 512,
     CJSON_NESTING_LIMIT = 1000\<rparr>"

definition demo_hooks :: internal_hooks where
  "demo_hooks = \<lparr>allocate = (\<lambda>n. Some (replicate n 0)), reallocate = Some (\<lambda>old n. Some (take n old @ replicate (n - length old) 0))\<rparr>"

definition zero_item :: cJSON where
  "zero_item = \<lparr>item_type = 0, valuestring = None, valueint = 0, valuedouble = 0, item_string = None\<rparr>"

lemma demo_hooks_ok [simp]: "hooks_ok demo_hooks"
  by (auto simp: hooks_ok_def demo_hooks_def min_def)

text \<open>
  C26. Reading a string literal is memory safe on every input: \<open>parse_string\<close> returns, reads only
  inside the input and writes only inside the block it allocated, although the size of that block is
  computed by a loop that splits the literal differently from the loop that fills it. On failure
  the item is unchanged; on success the block holds a terminated string and the offset is behind
  the literal and inside the input.
\<close>

theorem parse_string_safe:
  assumes "hooks_ok hooks" and "buffer_ok buf"
  shows "\<exists>ok item1 q. parse_string H hooks item buf = Some (ok, item1, buf\<lparr>in_offset := q\<rparr>) \<and>
    in_offset buf < q \<and> q \<le> in_length buf \<and> (\<not> ok \<longrightarrow> item1 = item) \<and>
    (ok \<longrightarrow> in_offset buf + 1 < q \<and> (\<exists>blk. item1 = item\<lparr>item_type := cJSON_String H, valuestring := Some blk\<rparr> \<and> 0 \<in> set blk))"
  using parse_string_cases [OF assms, of H item]
proof (elim disjE exE conjE)
  fix q
  assume "parse_string H hooks item buf = Some (False, item, buf\<lparr>in_offset := q\<rparr>)" "in_offset buf < q" "q \<le> in_length buf"
  then show ?thesis by (intro exI [of _ False] exI [of _ item] exI [of _ q]) simp
next
  fix blk q
  let ?item = "item\<lparr>item_type := cJSON_String H, valuestring := Some blk\<rparr>"
  assume "parse_string H hooks item buf = Some (True, ?item, buf\<lparr>in_offset := q\<rparr>)" "in_offset buf + 1 < q" "q \<le> in_length buf" "0 \<in> set blk"
  then show ?thesis by (intro exI [of _ True] exI [of _ ?item] exI [of _ q]) auto
qed

definition demo_buffer :: "u8 list \<Rightarrow> parse_buffer" where
  "demo_buffer bs = \<lparr>content = bs, in_length = length bs, in_offset = 0, in_depth = 0\<rparr>"

theorem parse_string_safe_witness:
  "\<exists>ok item1 q. parse_string demo_h demo_hooks zero_item (demo_buffer [34, 92, 117, 97, 98, 99, 92, 92, 34]) =
      Some (ok, item1, (demo_buffer [34, 92, 117, 97, 98, 99, 92, 92, 34])\<lparr>in_offset := q\<rparr>) \<and>
    in_offset (demo_buffer [34, 92, 117, 97, 98, 99, 92, 92, 34]) < q \<and> q \<le> in_length (demo_buffer [34, 92, 117, 97, 98, 99, 92, 92, 34]) \<and>
    (\<not> ok \<longrightarrow> item1 = zero_item) \<and>
    (ok \<longrightarrow> in_offset (demo_buffer [34, 92, 117, 97, 98, 99, 92, 92, 34]) + 1 < q \<and>
      (\<exists>blk. item1 = zero_item\<lparr>item_type := cJSON_String demo_h, valuestring := Some blk\<rparr> \<and> 0 \<in> set blk))"
  by (rule parse_string_safe) (simp_all add: buffer_ok_def demo_buffer_def)

definition demo_print :: printbuffer where
  "demo_print = \<lparr>pbuffer = Some (replicate 8 0), plength = 8, poffset = 0, pdepth = 0, noalloc = False, format = False\<rparr>"

lemma demo_print_ok: "printbuffer_ok demo_print"
  by (simp add: printbuffer_ok_def demo_print_def)

text \<open>
  Round trip of strings: what \<open>print_string_ptr\<close> prints, \<open>parse_string\<close> reads back to the same
  bytes, for every string without a zero byte, control characters, quotes, backslashes and bytes
  above 127 included, wherever in the buffer it was printed.
\<close>

lemma string_roundtrip:
  assumes "hooks_ok hooks" and "printbuffer_ok p" and "0 \<notin> set s"
    and "print_string_ptr hooks (Some (s @ 0 # r)) p = Some (True, p1)"
    and "hooks_ok hooks'" and "\<And>n. allocate hooks' n \<noteq> None"
  shows "\<exists>buf1 blk q. pbuffer p1 = Some buf1 \<and>
    parse_string H hooks' item \<lparr>content = buf1, in_length = length buf1, in_offset = poffset p, in_depth = d\<rparr> =
      Some (True, item\<lparr>item_type := cJSON_String H, valuestring := Some blk\<rparr>,
        \<lparr>content = buf1, in_length = length buf1, in_offset = q, in_depth = d\<rparr>) \<and>
    c_string blk = s \<and> byte_at buf1 q = Some 0"
proof -
  obtain buf where buf: "pbuffer p = Some buf" "length buf = plength p" "poffset p < plength p"
    using assms(2) by (auto simp: printbuffer_ok_def split: option.splits)
  let ?n = "poffset p + length (json_quote s)"
  from print_string_ptr_spec [OF assms(1,2,3) buf(1), of r] assms(4) obtain buf1 where
    b1: "pbuffer p1 = Some buf1" "length buf1 = plength p1" "?n + 2 \<le> plength p1"
      "take (?n + 1) buf1 = take (poffset p) buf @ json_quote s @ [0]"
    by (auto simp: printbuffer_ok_def)
  have c: "buf1 = take (poffset p) buf @ json_quote s @ 0 # drop (?n + 1) buf1"
    using append_take_drop_id [of "?n + 1" buf1] unfolding b1(4) by simp
  have l: "length (take (poffset p) buf) = poffset p" using buf by simp
  let ?buf = "\<lparr>content = buf1, in_length = length buf1, in_offset = poffset p, in_depth = d\<rparr>"
  have "\<exists>blk. parse_string H hooks' item ?buf = Some (True, item\<lparr>item_type := cJSON_String H, valuestring := Some blk\<rparr>,
      ?buf\<lparr>in_offset := length (take (poffset p) buf) + length (json_quote s)\<rparr>) \<and> c_string blk = s"
    by (rule parse_quoted [OF assms(5,6,3)]) (use c l b1(2,3) in simp_all)
  moreover have "byte_at buf1 ?n = Some 0"
  proof -
    have "(take (?n + 1) buf1) ! ?n = 0" unfolding b1(4) using l by (simp add: nth_append)
    then show ?thesis using b1(2,3) by (simp add: byte_at_def)
  qed
  ultimately show ?thesis using b1(1) l by auto
qed

lemma demo_print_True: "\<exists>p1. print_string_ptr demo_hooks (Some ([10] @ 0 # [])) demo_print = Some (True, p1)"
  using print_string_ptr_spec [OF demo_hooks_ok demo_print_ok, of "[10]" "replicate 8 0" "[]"]
  by (auto simp: demo_print_def json_quote_def escape_size_def MAX_SIZE_def)

lemma string_roundtrip_witness:
  "\<exists>p1 buf1 blk q. print_string_ptr demo_hooks (Some ([10] @ 0 # [])) demo_print = Some (True, p1) \<and> pbuffer p1 = Some buf1 \<and>
    parse_string demo_h demo_hooks zero_item \<lparr>content = buf1, in_length = length buf1, in_offset = poffset demo_print, in_depth = 0\<rparr> =
      Some (True, zero_item\<lparr>item_type := cJSON_String demo_h, valuestring := Some blk\<rparr>,
        \<lparr>content = buf1, in_length = length buf1, in_offset = q, in_depth = 0\<rparr>) \<and>
    c_string blk = [10] \<and> byte_at buf1 q = Some 0"
proof -
  obtain p1 where p1: "print_string_ptr demo_hooks (Some ([10] @ 0 # [])) demo_print = Some (True, p1)"
    using demo_print_True by blast
  have "allocate demo_hooks n \<noteq> None" for n by (simp add: demo_hooks_def)
  with string_roundtrip [OF demo_hooks_ok demo_print_ok _ p1 demo_hooks_ok, of demo_h zero_item 0] p1 show ?thesis by auto
qed
end
