(* ===== verification/Cjson_Unicode.thy ===== *)
theory Cjson_Unicode
  imports Cjson_Print
begin

text \<open>
  The escape sequences \<open>\uXXXX\<close> of \<open>src/cJSON/demo1/cJSON.c\<close> against the definitions of Unicode: the
  UTF-16 escape of a code point is read to the UTF-8 bytes of that code point. The reference
  functions \<open>utf16_escape\<close> and \<open>utf8_bytes\<close> are arithmetic on natural numbers.
\<close>

unbundle bit_operations_syntax

section \<open>The reference\<close>

definition hexd :: "nat \<Rightarrow> u8" where
  "hexd d = of_nat (if d < 10 then 48 + d else 87 + d)"

definition hex4 :: "nat \<Rightarrow> u8 list" where
  "hex4 n = [hexd (n div 4096), hexd (n div 256 mod 16), hexd (n div 16 mod 16), hexd (n mod 16)]"

definition utf16_escape :: "nat \<Rightarrow> u8 list" where
  "utf16_escape cp =
     (if cp < 0x10000 then 92 # 117 # hex4 cp
      else 92 # 117 # hex4 (0xD800 + (cp - 0x10000) div 1024) @ 92 # 117 # hex4 (0xDC00 + (cp - 0x10000) mod 1024))"

definition utf8_bytes :: "nat \<Rightarrow> u8 list" where
  "utf8_bytes cp = map of_nat
     (if cp < 0x80 then [cp]
      else if cp < 0x800 then [0xC0 + cp div 64, 0x80 + cp mod 64]
      else if cp < 0x10000 then [0xE0 + cp div 4096, 0x80 + cp div 64 mod 64, 0x80 + cp mod 64]
      else [0xF0 + cp div 262144, 0x80 + cp div 4096 mod 64, 0x80 + cp div 64 mod 64, 0x80 + cp mod 64])"

definition scalar_value :: "nat \<Rightarrow> bool" where
  "scalar_value cp \<longleftrightarrow> cp \<le> 0x10FFFF \<and> \<not> (0xD800 \<le> cp \<and> cp \<le> 0xDFFF)"

section \<open>Hexadecimal digits\<close>

lemma all_below: "list_all P [0..<n] \<Longrightarrow> k < n \<Longrightarrow> P k"
  by (simp add: list_all_iff)

lemma hex_digit_hexd: "d < 16 \<Longrightarrow> hex_digit (hexd d) = Some (of_nat d)"
proof -
  have "list_all (\<lambda>d. hex_digit (hexd d) = Some (of_nat d)) [0..<16]" by code_simp
  then show "d < 16 \<Longrightarrow> hex_digit (hexd d) = Some (of_nat d)" by (rule all_below)
qed

lemma hex_digits_sum:
  assumes "n < (65536 :: nat)"
  shows "((n div 4096 * 16 + n div 256 mod 16) * 16 + n div 16 mod 16) * 16 + n mod 16 = n"
proof -
  have "n div 4096 = n div 256 div 16" using div_mult2_eq [of n 256 16] by simp
  then have "n div 4096 * 16 + n div 256 mod 16 = n div 256" by (simp only: div_mult_mod_eq)
  moreover have "n div 256 = n div 16 div 16" using div_mult2_eq [of n 16 16] by simp
  then have "n div 256 * 16 + n div 16 mod 16 = n div 16" by (simp only: div_mult_mod_eq)
  moreover have "n div 16 * 16 + n mod 16 = n" by (rule div_mult_mod_eq)
  ultimately show ?thesis by (simp only:)
qed

lemma parse_hex4_hex4:
  assumes "n < 65536" and "\<And>i. i < 4 \<Longrightarrow> c ! (p + i) = hex4 n ! i" and "p + 4 \<le> length c"
  shows "parse_hex4 c p = Some (of_nat n)"
proof -
  have nth: "c ! p = hexd (n div 4096)" "c ! (p + 1) = hexd (n div 256 mod 16)" "c ! (p + 2) = hexd (n div 16 mod 16)" "c ! (p + 3) = hexd (n mod 16)"
    using assms(2) [of 0] assms(2) [of 1] assms(2) [of 2] assms(2) [of 3] by (simp_all add: hex4_def)
  have lt: "n div 4096 < 16" using assms(1) by auto
  have small: "(of_nat d :: u32) < 16" and un: "unat (of_nat d :: u32) = d" if "d < 16" for d
    using that by (simp_all add: word_less_nat_alt unsigned_of_nat take_bit_nat_eq_self)
  let ?w = "push_bit 4 (push_bit 4 (push_bit 4 (of_nat (n div 4096)) + of_nat (n div 256 mod 16)) + of_nat (n div 16 mod 16)) + of_nat (n mod 16) :: u32"
  have "unat ?w = n"
    unfolding hex4_value [OF small [OF lt] small small small, of "n div 256 mod 16" "n div 16 mod 16" "n mod 16", simplified]
    using lt hex_digits_sum [OF assms(1)] by (simp add: un)
  moreover have id: "of_nat (unat x) = x" for x :: u32 by simp
  ultimately have "?w = of_nat n" by (metis id)
  then show ?thesis
    unfolding parse_hex4_unfold [OF assms(3)] nth using lt by (simp add: hex_digit_hexd)
qed

section \<open>UTF-8\<close>

fun conts :: "nat \<Rightarrow> u64 \<Rightarrow> u8 list" where
  "conts 0 cp = []"
| "conts (Suc k) cp = conts k (drop_bit 6 cp) @ [ucast ((cp OR 0x80) AND 0xBF)]"

lemma conts_length [simp]: "length (conts k cp) = k"
  by (induction k arbitrary: cp) simp_all

lemma overwrite_snoc:
  "i + length xs < length c \<Longrightarrow> overwrite (c[i + length xs := b]) i xs = overwrite c i (xs @ [b])"
  by (simp add: overwrite_def drop_update_swap Cons_nth_drop_Suc [symmetric])

lemma utf8_loop_conts:
  "o_pos + k < length out \<Longrightarrow> utf8_loop k out o_pos cp = Some (overwrite out (o_pos + 1) (conts k cp), drop_bit (6 * k) cp)"
proof (induction k arbitrary: out cp)
  case (Suc k)
  let ?b = "ucast ((cp OR 0x80) AND 0xBF) :: u8"
  have "overwrite (out[o_pos + Suc k := ?b]) (o_pos + 1) (conts k (drop_bit 6 cp)) = overwrite out (o_pos + 1) (conts (Suc k) cp)"
    using Suc.prems overwrite_snoc [of "o_pos + 1" "conts k (drop_bit 6 cp)" out ?b] by simp
  then show ?case using Suc by (simp add: at_simps drop_bit_drop_bit add.commute)
qed simp

lemma cont_byte: "ucast ((w OR 0x80) AND 0xBF) = (of_nat (0x80 + unat w mod 64) :: u8)" for w :: u64
proof -
  have "list_all (\<lambda>n. ucast ((of_nat n OR 0x80) AND 0xBF :: u64) = (of_nat (0x80 + n) :: u8)) [0..<64]" by code_simp
  then have low: "n < 64 \<Longrightarrow> ucast ((of_nat n OR 0x80) AND 0xBF :: u64) = (of_nat (0x80 + n) :: u8)" for n by (rule all_below)
  have "ucast ((w OR 0x80) AND 0xBF) = (ucast ((take_bit 6 w OR 0x80) AND 0xBF) :: u8)"
  proof (rule bit_word_eqI)
    fix n assume "n < LENGTH(8)"
    then have "n \<in> {0, 1, 2, 3, 4, 5, 6, 7}" by (auto simp: numeral_eq_Suc less_Suc_eq)
    then show "bit (ucast ((w OR 0x80) AND 0xBF) :: u8) n = bit (ucast ((take_bit 6 w OR 0x80) AND 0xBF) :: u8) n"
      by (auto simp: bit_simps)
  qed
  also have "take_bit 6 w = of_nat (unat w mod 64)"
  proof -
    have "unat (take_bit 6 w) = unat w mod 64" by (simp add: take_bit_eq_mod unat_mod_distrib)
    moreover have "of_nat (unat (take_bit 6 w)) = take_bit 6 w" by simp
    ultimately show ?thesis by metis
  qed
  finally show ?thesis using low [of "unat w mod 64"] by simp
qed

lemma lead_bytes:
  "n < 32 \<Longrightarrow> ucast ((of_nat n OR 0xC0) AND 0xFF :: u64) = (of_nat (0xC0 + n) :: u8)"
  "n < 16 \<Longrightarrow> ucast ((of_nat n OR 0xE0) AND 0xFF :: u64) = (of_nat (0xE0 + n) :: u8)"
  "n < 8 \<Longrightarrow> ucast ((of_nat n OR 0xF0) AND 0xFF :: u64) = (of_nat (0xF0 + n) :: u8)"
  "n < 128 \<Longrightarrow> ucast (of_nat n AND 0x7F :: u64) = (of_nat n :: u8)"
proof -
  have "list_all (\<lambda>n. ucast ((of_nat n OR 0xC0) AND 0xFF :: u64) = (of_nat (0xC0 + n) :: u8)) [0..<32]" by code_simp
  then show "n < 32 \<Longrightarrow> ucast ((of_nat n OR 0xC0) AND 0xFF :: u64) = (of_nat (0xC0 + n) :: u8)" by (rule all_below)
  have "list_all (\<lambda>n. ucast ((of_nat n OR 0xE0) AND 0xFF :: u64) = (of_nat (0xE0 + n) :: u8)) [0..<16]" by code_simp
  then show "n < 16 \<Longrightarrow> ucast ((of_nat n OR 0xE0) AND 0xFF :: u64) = (of_nat (0xE0 + n) :: u8)" by (rule all_below)
  have "list_all (\<lambda>n. ucast ((of_nat n OR 0xF0) AND 0xFF :: u64) = (of_nat (0xF0 + n) :: u8)) [0..<8]" by code_simp
  then show "n < 8 \<Longrightarrow> ucast ((of_nat n OR 0xF0) AND 0xFF :: u64) = (of_nat (0xF0 + n) :: u8)" by (rule all_below)
  have "list_all (\<lambda>n. ucast (of_nat n AND 0x7F :: u64) = (of_nat n :: u8)) [0..<128]" by code_simp
  then show "n < 128 \<Longrightarrow> ucast (of_nat n AND 0x7F :: u64) = (of_nat n :: u8)" by (rule all_below)
qed

lemma unat_u64: "n < 4294967296 \<Longrightarrow> unat (of_nat n :: u64) = n"
  by (simp add: unsigned_of_nat take_bit_nat_eq_self)

lemma drop_six: "n < 4294967296 \<Longrightarrow> drop_bit 6 (of_nat n :: u64) = of_nat (n div 64)"
proof -
  assume n: "n < 4294967296"
  have "unat (drop_bit 6 (of_nat n :: u64)) = n div 64"
    using unat_u64 [OF n] by (simp add: drop_bit_eq_div unat_div_distrib)
  moreover have "of_nat (unat (drop_bit 6 (of_nat n :: u64))) = drop_bit 6 (of_nat n :: u64)" by simp
  ultimately show ?thesis by metis
qed

lemma conts_bytes:
  assumes "n < 4294967296"
  shows "conts 1 (of_nat n) = [of_nat (0x80 + n mod 64)]"
    and "conts 2 (of_nat n) = [of_nat (0x80 + n div 64 mod 64), of_nat (0x80 + n mod 64)]"
    and "conts 3 (of_nat n) = [of_nat (0x80 + n div 4096 mod 64), of_nat (0x80 + n div 64 mod 64), of_nat (0x80 + n mod 64)]"
proof -
  have d1: "n div 64 < 4294967296" using assms by auto
  have d2: "n div 4096 < 4294967296" using assms by auto
  have two: "n div 64 div 64 = n div 4096" using div_mult2_eq [of n 64 64] by simp
  have c1: "conts (Suc 0) (of_nat m) = [of_nat (0x80 + m mod 64)]" if "m < 4294967296" for m
    using that unfolding conts.simps cont_byte by (simp only: unat_u64 append_Nil)
  have c2: "conts (Suc (Suc 0)) (of_nat m) = [of_nat (0x80 + m div 64 mod 64), of_nat (0x80 + m mod 64)]"
    if m: "m < 4294967296" for m
  proof -
    have "m div 64 < 4294967296" using m by auto
    then show ?thesis
      unfolding conts.simps(2) [of "Suc 0"] drop_six [OF m] cont_byte c1 [OF \<open>m div 64 < 4294967296\<close>] unat_u64 [OF m] by simp
  qed
  show "conts 1 (of_nat n) = [of_nat (0x80 + n mod 64)]" using c1 [OF assms] by simp
  show "conts 2 (of_nat n) = [of_nat (0x80 + n div 64 mod 64), of_nat (0x80 + n mod 64)]"
    using c2 [OF assms] by (simp add: numeral_2_eq_2)
  show "conts 3 (of_nat n) = [of_nat (0x80 + n div 4096 mod 64), of_nat (0x80 + n div 64 mod 64), of_nat (0x80 + n mod 64)]"
    unfolding numeral_3_eq_3 conts.simps(2) [of "Suc (Suc 0)"] drop_six [OF assms] cont_byte c2 [OF d1] unat_u64 [OF assms] two by simp
qed

lemma drop_sixes: "n < 4294967296 \<Longrightarrow> drop_bit 12 (of_nat n :: u64) = of_nat (n div 4096) \<and> drop_bit 18 (of_nat n :: u64) = of_nat (n div 262144)"
proof -
  assume n: "n < 4294967296"
  have lt: "n div 64 < 4294967296" "n div 64 div 64 < 4294967296" using n by (auto intro: le_less_trans [OF div_le_dividend])
  have e: "n div 64 div 64 = n div 4096" "n div 64 div 64 div 64 = n div 262144"
    using div_mult2_eq [of n 64 64] div_mult2_eq [of n 4096 64] by simp_all
  have "drop_bit 12 (of_nat n :: u64) = drop_bit 6 (drop_bit 6 (of_nat n))"
    "drop_bit 18 (of_nat n :: u64) = drop_bit 6 (drop_bit 6 (drop_bit 6 (of_nat n)))" by (simp_all add: drop_bit_drop_bit)
  moreover have "drop_bit 6 (of_nat (n div 4096) :: u64) = of_nat (n div 262144)" 
    using drop_six [OF lt(2)] div_mult2_eq [of n 4096 64] unfolding e(1) by simp
  ultimately show ?thesis unfolding drop_six [OF n] drop_six [OF lt(1)] e by simp
qed

lemma overwrite_head: "i + length xs < length c \<Longrightarrow> (overwrite c (i + 1) xs)[i := b] = overwrite c i (b # xs)"
  by (simp add: overwrite_def list_update_append take_Suc_conv_app_nth)

lemma utf8_write_bytes:
  assumes "cp \<le> 0x10FFFF" and "o_pos + length (utf8_bytes cp) \<le> length out"
  shows "utf8_write (of_nat cp) out o_pos = Some (Some (overwrite out o_pos (utf8_bytes cp), o_pos + length (utf8_bytes cp)))"
proof -
  have n: "cp < 4294967296" using assms(1) by simp
  have cmp: "(of_nat cp < (of_nat m :: u64)) = (cp < m)" "(of_nat cp \<le> (of_nat m :: u64)) = (cp \<le> m)" if "m < 4294967296" for m
    using n that by (simp_all add: word_less_nat_alt word_le_nat_alt unat_u64)
  have form: "utf8_form (of_nat cp) = (if cp < 0x80 then Some (1, 0) else if cp < 0x800 then Some (2, 0xC0)
      else if cp < 0x10000 then Some (3, 0xE0) else Some (4, 0xF0))"
    using cmp(1) [of "0x80"] cmp(1) [of "0x800"] cmp(1) [of "0x10000"] cmp(2) [of "0x10FFFF"] assms(1) by (simp add: utf8_form_def)
  have multi: "utf8_write (of_nat cp) out o_pos = Some (Some (overwrite out o_pos (b # conts k (of_nat cp)), o_pos + Suc k))"
    if "utf8_form (of_nat cp) = Some (Suc k, m)" "0 < k" "o_pos + k < length out"
      "ucast ((drop_bit (6 * k) (of_nat cp :: u64) OR m) AND 0xFF) = b" for k m and b :: u8
    using that overwrite_head [of o_pos "conts k (of_nat cp)" out b]
    by (simp add: utf8_write_def utf8_loop_conts at_simps)
  consider "cp < 0x80" | "0x80 \<le> cp" "cp < 0x800" | "0x800 \<le> cp" "cp < 0x10000" | "0x10000 \<le> cp" by linarith
  then show ?thesis
  proof cases
    case 1
    then have "utf8_bytes cp = [of_nat cp]" "ucast (of_nat cp AND 0x7F :: u64) = (of_nat cp :: u8)"
      using lead_bytes(4) [of cp] by (simp_all add: utf8_bytes_def)
    with 1 form assms(2) show ?thesis by (simp add: utf8_write_def at_simps list_update_overwrite)
  next
    case 2
    then have b: "utf8_bytes cp = of_nat (0xC0 + cp div 64) # conts 1 (of_nat cp)" unfolding conts_bytes [OF n] by (simp add: utf8_bytes_def)
    have "cp div 64 < 32" using 2 by auto
    from lead_bytes(1) [OF this] 2 form assms(2) b multi [of 1 "0xC0"] drop_six [OF n] show ?thesis by simp
  next
    case 3
    then have b: "utf8_bytes cp = of_nat (0xE0 + cp div 4096) # conts 2 (of_nat cp)" unfolding conts_bytes [OF n] by (simp add: utf8_bytes_def)
    have "cp div 4096 < 16" using 3 by auto
    from lead_bytes(2) [OF this] 3 form assms(2) b multi [of 2 "0xE0"] drop_sixes [OF n] show ?thesis by simp
  next
    case 4
    then have b: "utf8_bytes cp = of_nat (0xF0 + cp div 262144) # conts 3 (of_nat cp)" unfolding conts_bytes [OF n] by (simp add: utf8_bytes_def)
    have "cp div 262144 < 8" using assms(1) by auto
    from lead_bytes(3) [OF this] 4 form assms(2) b multi [of 3 "0xF0"] drop_sixes [OF n] show ?thesis by simp
  qed
qed

section \<open>Properties\<close>

lemma nth_part: "i < length ys \<Longrightarrow> (xs @ ys @ zs) ! (length xs + i) = ys ! i"
  by (simp add: nth_append)

lemma hex4_length [simp]: "length (hex4 n) = 4"
  by (simp add: hex4_def)

lemma codepoint_escape:
  assumes "scalar_value cp" and "length xs + length (utf16_escape cp) \<le> e" and "e \<le> length (xs @ utf16_escape cp @ ys)"
  shows "utf16_codepoint (xs @ utf16_escape cp @ ys) (length xs) e = Some (Some (of_nat cp, length (utf16_escape cp)))"
proof (cases "cp < 0x10000")
  case True
  let ?c = "xs @ utf16_escape cp @ ys"
  have u: "utf16_escape cp = 92 # 117 # hex4 cp" using True by (simp add: utf16_escape_def)
  have p: "parse_hex4 ?c (length xs + 2) = Some (of_nat cp)"
    using True by (intro parse_hex4_hex4) (simp_all add: u nth_append)
  have w: "unat (of_nat cp :: u32) = cp" using True by (simp add: unsigned_of_nat take_bit_nat_eq_self)
  have "(ucast (of_nat cp :: u32) :: u64) = of_nat cp"
    using True by (simp add: unsigned_ucast_eq word_unat_eq_iff unsigned_of_nat take_bit_nat_eq_self)
  moreover have "int e - int (length xs) \<ge> 6" using assms(2) u by simp
  ultimately show ?thesis
    using p w assms(1) u by (auto simp: utf16_codepoint_def word_le_nat_alt scalar_value_def)
next
  case False
  let ?c = "xs @ utf16_escape cp @ ys" and ?d = "cp - 0x10000"
  define hi where "hi = 0xD800 + ?d div 1024"
  define lo where "lo = 0xDC00 + ?d mod 1024"
  have u: "utf16_escape cp = 92 # 117 # hex4 hi @ 92 # 117 # hex4 lo" using False by (simp add: utf16_escape_def hi_def lo_def)
  have d: "?d div 1024 < 1024" using assms(1) by (auto simp: scalar_value_def)
  have hl: "0xD800 \<le> hi" "hi \<le> 0xDBFF" "0xDC00 \<le> lo" "lo \<le> 0xDFFF" using d by (auto simp: hi_def lo_def)
  have len: "length xs + 12 \<le> e" "e \<le> length ?c" using assms(2,3) by (simp_all add: u)
  have p: "parse_hex4 ?c (length xs + 2) = Some (of_nat hi)"
    using hl by (intro parse_hex4_hex4) (simp_all add: u nth_append)
  have eq: "?c = (xs @ 92 # 117 # hex4 hi @ [92, 117]) @ hex4 lo @ ys" by (simp add: u)
  have q: "parse_hex4 ?c (length xs + 8) = Some (of_nat lo)"
    unfolding eq using hl nth_part [of _ "hex4 lo" "xs @ 92 # 117 # hex4 hi @ [92, 117]" ys]
    by (intro parse_hex4_hex4) (simp_all add: add.assoc)
  have n6: "?c ! (length xs + 6) = 92" "?c ! (length xs + 7) = 117"
    by (simp_all add: u nth_append hex4_def)
  have b6: "byte_at ?c (length xs + 6) = Some 92" "byte_at ?c (length xs + 7) = Some 117"
    using n6 byte_at_Some [of "length xs + 6" ?c] byte_at_Some [of "length xs + 7" ?c] len by simp_all
  have w: "unat (of_nat hi :: u32) = hi" "unat (of_nat lo :: u32) = lo" using hl by (simp_all add: unsigned_of_nat take_bit_nat_eq_self)
  let ?w = "0x10000 + (push_bit 10 (of_nat hi AND 0x3FF) OR (of_nat lo AND 0x3FF)) :: u32"
  have "hi mod 1024 = ?d div 1024" "lo mod 1024 = ?d mod 1024" using d by (simp_all add: hi_def lo_def mod_add_eq [symmetric])
  then have "unat ?w = cp" unfolding pair_codepoint w using False by simp
  moreover have "unat (ucast ?w :: u64) = unat ?w" by (simp add: unsigned_ucast_eq take_bit_nat_eq_self order.strict_trans [OF unsigned_less])
  ultimately have "unat (ucast ?w :: u64) = cp" by simp
  moreover have "of_nat (unat (ucast ?w :: u64)) = (ucast ?w :: u64)" by simp
  ultimately have cp: "(ucast ?w :: u64) = of_nat cp" by metis
  show ?thesis
    using p q b6 len hl w cp u by (auto simp: utf16_codepoint_def word_le_nat_alt word_less_nat_alt)
qed

text \<open>
  C27. The escape sequence of a Unicode scalar value, one or two sequences of the form \<open>\uXXXX\<close>, is
  read to the UTF-8 encoding of that value: \<open>utf16_literal_to_utf8\<close> consumes the whole sequence, writes
  exactly those bytes and moves the output pointer behind them.
\<close>

theorem escape_is_utf8:
  assumes "scalar_value cp" and "c = xs @ utf16_escape cp @ ys" and "length xs + length (utf16_escape cp) \<le> e" and "e \<le> length c"
    and "o_pos + length (utf8_bytes cp) \<le> length out"
  shows "utf16_literal_to_utf8 c (length xs) e out o_pos =
    Some (length (utf16_escape cp), overwrite out o_pos (utf8_bytes cp), o_pos + length (utf8_bytes cp))"
proof -
  have "cp \<le> 0x10FFFF" using assms(1) by (simp add: scalar_value_def)
  from utf8_write_bytes [OF this assms(5)] codepoint_escape [OF assms(1,3)] assms(2,4) show ?thesis
    by (simp add: utf16_literal_to_utf8_def)
qed

theorem escape_is_utf8_witness:
  "utf16_literal_to_utf8 ([34] @ utf16_escape 0x1F600 @ [34]) (length [34 :: u8]) 13 (replicate 8 0) 1 =
    Some (length (utf16_escape 0x1F600), overwrite (replicate 8 0) 1 (utf8_bytes 0x1F600), 1 + length (utf8_bytes 0x1F600))"
  by (rule escape_is_utf8) (simp_all add: scalar_value_def utf16_escape_def utf8_bytes_def)

end
