(* ===== verification/Cjson_List.thy ===== *)
theory Cjson_List
  imports Cjson_Print
begin

text \<open>
  The items of \<open>src/cJSON/demo1/cJSON.c\<close> as a linked structure: creation, the doubly linked list of
  the children of an array or object, and its operations (add, detach, insert, replace, look up).

  The items live in a heap, a partial map from addresses to items with 0 the null pointer; an
  access to an address without an item is \<^const>\<open>None\<close>, so is a second release of an item. Strings are
  values of their items. The memory allocator for items (an address that is not in use, or 0), the
  hooks for strings, the constants of \<open>cJSON.h\<close> and the conversion of \<open>double\<close> to \<open>int\<close> are
  parameters, collected in the record \<open>cjson_env\<close>. The global variable \<open>global_hooks\<close> is part of it.
\<close>

unbundle bit_operations_syntax

section \<open>Data\<close>

record item = cJSON +
  nxt :: nat
  prv :: nat
  chd :: nat

type_synonym items = "nat \<Rightarrow> item option"

record cjson_env =
  env_h :: cjson_h
  env_hooks :: internal_hooks
  env_new :: "items \<Rightarrow> nat"
  env_ge_max :: "u64 \<Rightarrow> bool"
  env_le_min :: "u64 \<Rightarrow> bool"
  env_to_int :: "u64 \<Rightarrow> int"

definition jget :: "items \<Rightarrow> nat \<Rightarrow> item option" where
  "jget h p = (if p = 0 then None else h p)"

definition jset :: "items \<Rightarrow> nat \<Rightarrow> (item \<Rightarrow> item) \<Rightarrow> items option" where
  "jset h p f = (case jget h p of None \<Rightarrow> None | Some x \<Rightarrow> Some (h(p \<mapsto> f x)))"

definition jfree :: "items \<Rightarrow> nat \<Rightarrow> items option" where
  "jfree h p = (case jget h p of None \<Rightarrow> None | Some x \<Rightarrow> Some (h(p := None)))"

definition null_item :: item where
  "null_item = \<lparr>item_type = 0, valuestring = None, valueint = 0, valuedouble = 0, item_string = None, nxt = 0, prv = 0, chd = 0\<rparr>"

section \<open>Strings\<close>

definition cJSON_strdup :: "internal_hooks \<Rightarrow> u8 list option \<Rightarrow> u8 list option option" where
  "cJSON_strdup hooks str =
     (case str of None \<Rightarrow> Some None
      | Some s \<Rightarrow> do {
          n \<leftarrow> strlen_at s 0;
          case allocate hooks (n + 1) of None \<Rightarrow> Some None
          | Some copy \<Rightarrow> do { c \<leftarrow> memcpy copy 0 s 0 (int n + 1); Some (Some c) }
        })"

text \<open>\<open>tolower\<close> in the C locale.\<close>

definition c_tolower :: "u8 \<Rightarrow> u8" where
  "c_tolower b = (if 65 \<le> b \<and> b \<le> 90 then b + 32 else b)"

function cmp_loop :: "(u8 \<Rightarrow> u8) \<Rightarrow> u8 list \<Rightarrow> u8 list \<Rightarrow> nat \<Rightarrow> int option" where
  "cmp_loop f s t p =
     (case (byte_at s p, byte_at t p) of
        (Some a, Some b) \<Rightarrow> if f a = f b then (if a = 0 then Some 0 else cmp_loop f s t (p + 1)) else Some (uint (f a) - uint (f b))
      | _ \<Rightarrow> None)"
  by pat_completeness auto
termination by (relation "measure (\<lambda>(f, s, t, p). length s - p)") (auto simp: byte_at_def split: if_splits)

definition case_insensitive_strcmp :: "u8 list option \<Rightarrow> u8 list option \<Rightarrow> int option" where
  "case_insensitive_strcmp string1 string2 =
     (case (string1, string2) of (Some s, Some t) \<Rightarrow> cmp_loop c_tolower s t 0 | _ \<Rightarrow> Some 1)"

definition c_strcmp :: "u8 list \<Rightarrow> u8 list \<Rightarrow> int option" where
  "c_strcmp s t = cmp_loop (\<lambda>b. b) s t 0"

section \<open>Creation and release\<close>

definition cJSON_New_Item :: "cjson_env \<Rightarrow> items \<Rightarrow> nat \<times> items" where
  "cJSON_New_Item E h = (let node = env_new E h in if node = 0 then (0, h) else (node, h(node \<mapsto> null_item)))"

partial_function (option) cJSON_Delete :: "cjson_env \<Rightarrow> items \<Rightarrow> nat \<Rightarrow> items option" where
  "cJSON_Delete E h p =
     (if p = 0 then Some h
      else do {
        x \<leftarrow> jget h p;
        h1 \<leftarrow> (if item_type x AND cJSON_IsReference (env_h E) = 0 \<and> chd x \<noteq> 0 then cJSON_Delete E h (chd x) else Some h);
        h2 \<leftarrow> jfree h1 p;
        cJSON_Delete E h2 (nxt x)
      })"

text \<open>A new item with its type and other fields set, the common part of the creating functions.\<close>

definition create :: "cjson_env \<Rightarrow> (item \<Rightarrow> item) \<Rightarrow> items \<Rightarrow> nat \<times> items" where
  "create E f h = (let (p, h1) = cJSON_New_Item E h in if p = 0 then (0, h1) else (p, h1(p \<mapsto> f null_item)))"

definition cJSON_CreateNull :: "cjson_env \<Rightarrow> items \<Rightarrow> nat \<times> items" where
  "cJSON_CreateNull E h = create E (\<lambda>x. x\<lparr>item_type := cJSON_NULL (env_h E)\<rparr>) h"

definition cJSON_CreateTrue :: "cjson_env \<Rightarrow> items \<Rightarrow> nat \<times> items" where
  "cJSON_CreateTrue E h = create E (\<lambda>x. x\<lparr>item_type := cJSON_True (env_h E)\<rparr>) h"

definition cJSON_CreateFalse :: "cjson_env \<Rightarrow> items \<Rightarrow> nat \<times> items" where
  "cJSON_CreateFalse E h = create E (\<lambda>x. x\<lparr>item_type := cJSON_False (env_h E)\<rparr>) h"

definition cJSON_CreateBool :: "cjson_env \<Rightarrow> bool \<Rightarrow> items \<Rightarrow> nat \<times> items" where
  "cJSON_CreateBool E b h = create E (\<lambda>x. x\<lparr>item_type := (if b then cJSON_True (env_h E) else cJSON_False (env_h E))\<rparr>) h"

definition saturate :: "cjson_env \<Rightarrow> u64 \<Rightarrow> int" where
  "saturate E num = (if env_ge_max E num then INT_MAX else if env_le_min E num then INT_MIN else env_to_int E num)"

definition cJSON_CreateNumber :: "cjson_env \<Rightarrow> u64 \<Rightarrow> items \<Rightarrow> nat \<times> items" where
  "cJSON_CreateNumber E num h =
     create E (\<lambda>x. x\<lparr>item_type := cJSON_Number (env_h E), valuedouble := num, valueint := saturate E num\<rparr>) h"

definition create_text :: "cjson_env \<Rightarrow> u32 \<Rightarrow> u8 list option \<Rightarrow> items \<Rightarrow> (nat \<times> items) option" where
  "create_text E ty str h =
     (let (p, h1) = cJSON_New_Item E h in
      if p = 0 then Some (0, h1)
      else do {
        s \<leftarrow> cJSON_strdup (env_hooks E) str;
        let h2 = h1(p \<mapsto> null_item\<lparr>item_type := ty, valuestring := s\<rparr>);
        if s = None then do { h3 \<leftarrow> cJSON_Delete E h2 p; Some (0, h3) } else Some (p, h2)
      })"

definition cJSON_CreateString :: "cjson_env \<Rightarrow> u8 list option \<Rightarrow> items \<Rightarrow> (nat \<times> items) option" where
  "cJSON_CreateString E str h = create_text E (cJSON_String (env_h E)) str h"

definition cJSON_CreateStringReference :: "cjson_env \<Rightarrow> u8 list option \<Rightarrow> items \<Rightarrow> nat \<times> items" where
  "cJSON_CreateStringReference E str h =
     create E (\<lambda>x. x\<lparr>item_type := cJSON_String (env_h E) OR cJSON_IsReference (env_h E), valuestring := str\<rparr>) h"

definition cJSON_CreateObjectReference :: "cjson_env \<Rightarrow> nat \<Rightarrow> items \<Rightarrow> nat \<times> items" where
  "cJSON_CreateObjectReference E child h =
     create E (\<lambda>x. x\<lparr>item_type := cJSON_Object (env_h E) OR cJSON_IsReference (env_h E), chd := child\<rparr>) h"

definition cJSON_CreateArrayReference :: "cjson_env \<Rightarrow> nat \<Rightarrow> items \<Rightarrow> nat \<times> items" where
  "cJSON_CreateArrayReference E child h =
     create E (\<lambda>x. x\<lparr>item_type := cJSON_Array (env_h E) OR cJSON_IsReference (env_h E), chd := child\<rparr>) h"

definition cJSON_CreateRaw :: "cjson_env \<Rightarrow> u8 list option \<Rightarrow> items \<Rightarrow> (nat \<times> items) option" where
  "cJSON_CreateRaw E raw h = create_text E (cJSON_Raw (env_h E)) raw h"

definition cJSON_CreateArray :: "cjson_env \<Rightarrow> items \<Rightarrow> nat \<times> items" where
  "cJSON_CreateArray E h = create E (\<lambda>x. x\<lparr>item_type := cJSON_Array (env_h E)\<rparr>) h"

definition cJSON_CreateObject :: "cjson_env \<Rightarrow> items \<Rightarrow> nat \<times> items" where
  "cJSON_CreateObject E h = create E (\<lambda>x. x\<lparr>item_type := cJSON_Object (env_h E)\<rparr>) h"

section \<open>Looking up\<close>

partial_function (option) size_loop :: "items \<Rightarrow> nat \<Rightarrow> nat \<Rightarrow> nat option" where
  "size_loop h child n = (if child = 0 then Some n else do { x \<leftarrow> jget h child; size_loop h (nxt x) (n + 1) })"

definition cJSON_GetArraySize :: "items \<Rightarrow> nat \<Rightarrow> int option" where
  "cJSON_GetArraySize h array =
     (if array = 0 then Some 0
      else do { a \<leftarrow> jget h array; n \<leftarrow> size_loop h (chd a) 0; Some (sint (of_nat n :: u32)) })"

fun nth_loop :: "items \<Rightarrow> nat \<Rightarrow> nat \<Rightarrow> nat option" where
  "nth_loop h cur 0 = Some cur"
| "nth_loop h cur (Suc i) = (if cur = 0 then Some 0 else do { x \<leftarrow> jget h cur; nth_loop h (nxt x) i })"

definition get_array_item :: "items \<Rightarrow> nat \<Rightarrow> nat \<Rightarrow> nat option" where
  "get_array_item h array i = (if array = 0 then Some 0 else do { a \<leftarrow> jget h array; nth_loop h (chd a) i })"

definition cJSON_GetArrayItem :: "items \<Rightarrow> nat \<Rightarrow> int \<Rightarrow> nat option" where
  "cJSON_GetArrayItem h array i = (if i < 0 then Some 0 else get_array_item h array (nat i))"

definition key_differs :: "bool \<Rightarrow> u8 list \<Rightarrow> u8 list option \<Rightarrow> bool option" where
  "key_differs case_sensitive name str =
     (if case_sensitive
      then (case str of None \<Rightarrow> Some False | Some s \<Rightarrow> map_option (\<lambda>r. r \<noteq> 0) (c_strcmp name s))
      else map_option (\<lambda>r. r \<noteq> 0) (case_insensitive_strcmp (Some name) str))"

partial_function (option) find_loop :: "items \<Rightarrow> bool \<Rightarrow> u8 list \<Rightarrow> nat \<Rightarrow> nat option" where
  "find_loop h case_sensitive name cur =
     (if cur = 0 then Some 0
      else do {
        x \<leftarrow> jget h cur;
        d \<leftarrow> key_differs case_sensitive name (item_string x);
        if d then find_loop h case_sensitive name (nxt x) else Some cur
      })"

definition get_object_item :: "items \<Rightarrow> nat \<Rightarrow> u8 list option \<Rightarrow> bool \<Rightarrow> nat option" where
  "get_object_item h object name case_sensitive =
     (case name of None \<Rightarrow> Some 0
      | Some nm \<Rightarrow>
          if object = 0 then Some 0
          else do {
            ob \<leftarrow> jget h object;
            cur \<leftarrow> find_loop h case_sensitive nm (chd ob);
            if cur = 0 then Some 0
            else do { x \<leftarrow> jget h cur; Some (if item_string x = None then 0 else cur) }
          })"

definition cJSON_GetObjectItem :: "items \<Rightarrow> nat \<Rightarrow> u8 list option \<Rightarrow> nat option" where
  "cJSON_GetObjectItem h object str = get_object_item h object str False"

definition cJSON_GetObjectItemCaseSensitive :: "items \<Rightarrow> nat \<Rightarrow> u8 list option \<Rightarrow> nat option" where
  "cJSON_GetObjectItemCaseSensitive h object str = get_object_item h object str True"

definition cJSON_HasObjectItem :: "items \<Rightarrow> nat \<Rightarrow> u8 list option \<Rightarrow> int option" where
  "cJSON_HasObjectItem h object str = map_option (\<lambda>p. if p \<noteq> 0 then 1 else 0) (cJSON_GetObjectItem h object str)"

section \<open>Adding\<close>

definition suffix_object :: "items \<Rightarrow> nat \<Rightarrow> nat \<Rightarrow> items option" where
  "suffix_object h prev p = do { h1 \<leftarrow> jset h prev (\<lambda>x. x\<lparr>nxt := p\<rparr>); jset h1 p (\<lambda>x. x\<lparr>prv := prev\<rparr>) }"

definition create_reference :: "cjson_env \<Rightarrow> items \<Rightarrow> nat \<Rightarrow> (nat \<times> items) option" where
  "create_reference E h p =
     (if p = 0 then Some (0, h)
      else let (r, h1) = cJSON_New_Item E h in
        if r = 0 then Some (0, h1)
        else do {
          x \<leftarrow> jget h1 p;
          Some (r, h1(r \<mapsto> x\<lparr>item_string := None, item_type := item_type x OR cJSON_IsReference (env_h E), nxt := 0, prv := 0\<rparr>))
        })"

partial_function (option) last_loop :: "items \<Rightarrow> nat \<Rightarrow> nat option" where
  "last_loop h child = do { x \<leftarrow> jget h child; if nxt x \<noteq> 0 then last_loop h (nxt x) else Some child }"

text \<open>\<open>array->child->prev = item\<close>, with both pointers read again.\<close>

definition set_head_prev :: "items \<Rightarrow> nat \<Rightarrow> nat \<Rightarrow> items option" where
  "set_head_prev h array p = do { a \<leftarrow> jget h array; jset h (chd a) (\<lambda>x. x\<lparr>prv := p\<rparr>) }"

definition add_item_to_array :: "items \<Rightarrow> nat \<Rightarrow> nat \<Rightarrow> (bool \<times> items) option" where
  "add_item_to_array h array p =
     (if p = 0 \<or> array = 0 \<or> array = p then Some (False, h)
      else do {
        a \<leftarrow> jget h array;
        if chd a = 0 then do {
          h1 \<leftarrow> jset h array (\<lambda>x. x\<lparr>chd := p\<rparr>);
          h2 \<leftarrow> jset h1 p (\<lambda>x. x\<lparr>prv := p\<rparr>);
          h3 \<leftarrow> jset h2 p (\<lambda>x. x\<lparr>nxt := 0\<rparr>);
          Some (True, h3)
        }
        else do {
          c \<leftarrow> jget h (chd a);
          l \<leftarrow> (if prv c \<noteq> 0 then Some (prv c) else last_loop h (chd a));
          h1 \<leftarrow> suffix_object h l p;
          h2 \<leftarrow> set_head_prev h1 array p;
          Some (True, h2)
        }
      })"

definition cJSON_AddItemToArray :: "items \<Rightarrow> nat \<Rightarrow> nat \<Rightarrow> (bool \<times> items) option" where
  "cJSON_AddItemToArray h array p = add_item_to_array h array p"

definition add_item_to_object :: "cjson_env \<Rightarrow> items \<Rightarrow> nat \<Rightarrow> u8 list option \<Rightarrow> nat \<Rightarrow> bool \<Rightarrow> (bool \<times> items) option" where
  "add_item_to_object E h object str p constant_key =
     (if object = 0 \<or> str = None \<or> p = 0 \<or> object = p then Some (False, h)
      else do {
        x \<leftarrow> jget h p;
        new_key \<leftarrow> (if constant_key then Some str else cJSON_strdup (env_hooks E) str);
        if new_key = None then Some (False, h)
        else
          let new_type = (if constant_key then item_type x OR cJSON_StringIsConst (env_h E)
                          else item_type x AND NOT (cJSON_StringIsConst (env_h E))) in
          add_item_to_array (h(p \<mapsto> x\<lparr>item_string := new_key, item_type := new_type\<rparr>)) object p
      })"

definition cJSON_AddItemToObject :: "cjson_env \<Rightarrow> items \<Rightarrow> nat \<Rightarrow> u8 list option \<Rightarrow> nat \<Rightarrow> (bool \<times> items) option" where
  "cJSON_AddItemToObject E h object str p = add_item_to_object E h object str p False"

definition cJSON_AddItemToObjectCS :: "cjson_env \<Rightarrow> items \<Rightarrow> nat \<Rightarrow> u8 list option \<Rightarrow> nat \<Rightarrow> (bool \<times> items) option" where
  "cJSON_AddItemToObjectCS E h object str p = add_item_to_object E h object str p True"

definition cJSON_AddItemReferenceToArray :: "cjson_env \<Rightarrow> items \<Rightarrow> nat \<Rightarrow> nat \<Rightarrow> (bool \<times> items) option" where
  "cJSON_AddItemReferenceToArray E h array p =
     (if array = 0 then Some (False, h) else do { (r, h1) \<leftarrow> create_reference E h p; add_item_to_array h1 array r })"

definition cJSON_AddItemReferenceToObject ::
  "cjson_env \<Rightarrow> items \<Rightarrow> nat \<Rightarrow> u8 list option \<Rightarrow> nat \<Rightarrow> (bool \<times> items) option" where
  "cJSON_AddItemReferenceToObject E h object str p =
     (if object = 0 \<or> str = None then Some (False, h)
      else do { (r, h1) \<leftarrow> create_reference E h p; add_item_to_object E h1 object str r False })"

text \<open>The end of the functions that create an item and add it to an object.\<close>

definition add_created :: "cjson_env \<Rightarrow> nat \<Rightarrow> u8 list option \<Rightarrow> nat \<times> items \<Rightarrow> (nat \<times> items) option" where
  "add_created E object name c =
     (let (p, h) = c in do {
        (ok, h1) \<leftarrow> add_item_to_object E h object name p False;
        if ok then Some (p, h1) else do { h2 \<leftarrow> cJSON_Delete E h1 p; Some (0, h2) }
      })"

definition cJSON_AddNullToObject :: "cjson_env \<Rightarrow> items \<Rightarrow> nat \<Rightarrow> u8 list option \<Rightarrow> (nat \<times> items) option" where
  "cJSON_AddNullToObject E h object name = add_created E object name (cJSON_CreateNull E h)"

definition cJSON_AddTrueToObject :: "cjson_env \<Rightarrow> items \<Rightarrow> nat \<Rightarrow> u8 list option \<Rightarrow> (nat \<times> items) option" where
  "cJSON_AddTrueToObject E h object name = add_created E object name (cJSON_CreateTrue E h)"

definition cJSON_AddFalseToObject :: "cjson_env \<Rightarrow> items \<Rightarrow> nat \<Rightarrow> u8 list option \<Rightarrow> (nat \<times> items) option" where
  "cJSON_AddFalseToObject E h object name = add_created E object name (cJSON_CreateFalse E h)"

definition cJSON_AddBoolToObject :: "cjson_env \<Rightarrow> items \<Rightarrow> nat \<Rightarrow> u8 list option \<Rightarrow> bool \<Rightarrow> (nat \<times> items) option" where
  "cJSON_AddBoolToObject E h object name b = add_created E object name (cJSON_CreateBool E b h)"

definition cJSON_AddNumberToObject :: "cjson_env \<Rightarrow> items \<Rightarrow> nat \<Rightarrow> u8 list option \<Rightarrow> u64 \<Rightarrow> (nat \<times> items) option" where
  "cJSON_AddNumberToObject E h object name num = add_created E object name (cJSON_CreateNumber E num h)"

definition cJSON_AddStringToObject ::
  "cjson_env \<Rightarrow> items \<Rightarrow> nat \<Rightarrow> u8 list option \<Rightarrow> u8 list option \<Rightarrow> (nat \<times> items) option" where
  "cJSON_AddStringToObject E h object name str = do { c \<leftarrow> cJSON_CreateString E str h; add_created E object name c }"

definition cJSON_AddRawToObject ::
  "cjson_env \<Rightarrow> items \<Rightarrow> nat \<Rightarrow> u8 list option \<Rightarrow> u8 list option \<Rightarrow> (nat \<times> items) option" where
  "cJSON_AddRawToObject E h object name raw = do { c \<leftarrow> cJSON_CreateRaw E raw h; add_created E object name c }"

definition cJSON_AddObjectToObject :: "cjson_env \<Rightarrow> items \<Rightarrow> nat \<Rightarrow> u8 list option \<Rightarrow> (nat \<times> items) option" where
  "cJSON_AddObjectToObject E h object name = add_created E object name (cJSON_CreateObject E h)"

definition cJSON_AddArrayToObject :: "cjson_env \<Rightarrow> items \<Rightarrow> nat \<Rightarrow> u8 list option \<Rightarrow> (nat \<times> items) option" where
  "cJSON_AddArrayToObject E h object name = add_created E object name (cJSON_CreateArray E h)"

section \<open>Detaching, inserting, replacing\<close>

definition cJSON_DetachItemViaPointer :: "items \<Rightarrow> nat \<Rightarrow> nat \<Rightarrow> (nat \<times> items) option" where
  "cJSON_DetachItemViaPointer h parent p =
     (if parent = 0 \<or> p = 0 then Some (0, h)
      else do {
        a \<leftarrow> jget h parent;
        h1 \<leftarrow> (if p \<noteq> chd a then do { x \<leftarrow> jget h p; jset h (prv x) (\<lambda>y. y\<lparr>nxt := nxt x\<rparr>) } else Some h);
        x1 \<leftarrow> jget h1 p;
        h2 \<leftarrow> (if nxt x1 \<noteq> 0 then jset h1 (nxt x1) (\<lambda>y. y\<lparr>prv := prv x1\<rparr>) else Some h1);
        a2 \<leftarrow> jget h2 parent;
        x2 \<leftarrow> jget h2 p;
        h3 \<leftarrow> (if p = chd a2 then jset h2 parent (\<lambda>y. y\<lparr>chd := nxt x2\<rparr>)
               else if nxt x2 = 0 then set_head_prev h2 parent (prv x2) else Some h2);
        h4 \<leftarrow> jset h3 p (\<lambda>y. y\<lparr>prv := 0\<rparr>);
        h5 \<leftarrow> jset h4 p (\<lambda>y. y\<lparr>nxt := 0\<rparr>);
        Some (p, h5)
      })"

definition cJSON_DetachItemFromArray :: "items \<Rightarrow> nat \<Rightarrow> int \<Rightarrow> (nat \<times> items) option" where
  "cJSON_DetachItemFromArray h array which =
     (if which < 0 then Some (0, h)
      else do { p \<leftarrow> get_array_item h array (nat which); cJSON_DetachItemViaPointer h array p })"

definition cJSON_DeleteItemFromArray :: "cjson_env \<Rightarrow> items \<Rightarrow> nat \<Rightarrow> int \<Rightarrow> items option" where
  "cJSON_DeleteItemFromArray E h array which = do {
     (p, h1) \<leftarrow> cJSON_DetachItemFromArray h array which;
     cJSON_Delete E h1 p
   }"

definition cJSON_DetachItemFromObject :: "items \<Rightarrow> nat \<Rightarrow> u8 list option \<Rightarrow> (nat \<times> items) option" where
  "cJSON_DetachItemFromObject h object str = do {
     p \<leftarrow> cJSON_GetObjectItem h object str;
     cJSON_DetachItemViaPointer h object p
   }"

definition cJSON_DetachItemFromObjectCaseSensitive :: "items \<Rightarrow> nat \<Rightarrow> u8 list option \<Rightarrow> (nat \<times> items) option" where
  "cJSON_DetachItemFromObjectCaseSensitive h object str = do {
     p \<leftarrow> cJSON_GetObjectItemCaseSensitive h object str;
     cJSON_DetachItemViaPointer h object p
   }"

definition cJSON_DeleteItemFromObject :: "cjson_env \<Rightarrow> items \<Rightarrow> nat \<Rightarrow> u8 list option \<Rightarrow> items option" where
  "cJSON_DeleteItemFromObject E h object str = do {
     (p, h1) \<leftarrow> cJSON_DetachItemFromObject h object str;
     cJSON_Delete E h1 p
   }"

definition cJSON_DeleteItemFromObjectCaseSensitive :: "cjson_env \<Rightarrow> items \<Rightarrow> nat \<Rightarrow> u8 list option \<Rightarrow> items option" where
  "cJSON_DeleteItemFromObjectCaseSensitive E h object str = do {
     (p, h1) \<leftarrow> cJSON_DetachItemFromObjectCaseSensitive h object str;
     cJSON_Delete E h1 p
   }"

definition cJSON_InsertItemInArray :: "items \<Rightarrow> nat \<Rightarrow> int \<Rightarrow> nat \<Rightarrow> (bool \<times> items) option" where
  "cJSON_InsertItemInArray h array which newitem =
     (if which < 0 then Some (False, h)
      else do {
        after \<leftarrow> get_array_item h array (nat which);
        if after = 0 then add_item_to_array h array newitem
        else do {
          h1 \<leftarrow> jset h newitem (\<lambda>x. x\<lparr>nxt := after\<rparr>);
          y \<leftarrow> jget h1 after;
          h2 \<leftarrow> jset h1 newitem (\<lambda>x. x\<lparr>prv := prv y\<rparr>);
          h3 \<leftarrow> jset h2 after (\<lambda>x. x\<lparr>prv := newitem\<rparr>);
          a \<leftarrow> jget h3 array;
          h4 \<leftarrow> (if after = chd a then jset h3 array (\<lambda>x. x\<lparr>chd := newitem\<rparr>)
                 else do { n \<leftarrow> jget h3 newitem; jset h3 (prv n) (\<lambda>x. x\<lparr>nxt := newitem\<rparr>) });
          Some (True, h4)
        }
      })"

text \<open>The two middle parts of the replacement: the successor, and the predecessor or the parent.\<close>

definition relink_next :: "items \<Rightarrow> nat \<Rightarrow> items option" where
  "relink_next h replacement = do {
     r \<leftarrow> jget h replacement;
     if nxt r \<noteq> 0 then jset h (nxt r) (\<lambda>y. y\<lparr>prv := replacement\<rparr>) else Some h
   }"

definition relink_parent :: "items \<Rightarrow> nat \<Rightarrow> nat \<Rightarrow> nat \<Rightarrow> items option" where
  "relink_parent h parent p replacement = do {
     a \<leftarrow> jget h parent;
     if chd a = p
     then do {
       c \<leftarrow> jget h (chd a);
       h1 \<leftarrow> (if prv c = chd a then jset h replacement (\<lambda>r. r\<lparr>prv := replacement\<rparr>) else Some h);
       jset h1 parent (\<lambda>a. a\<lparr>chd := replacement\<rparr>)
     }
     else do {
       r \<leftarrow> jget h replacement;
       h1 \<leftarrow> (if prv r \<noteq> 0 then jset h (prv r) (\<lambda>y. y\<lparr>nxt := replacement\<rparr>) else Some h);
       r1 \<leftarrow> jget h1 replacement;
       (if nxt r1 = 0 then set_head_prev h1 parent replacement else Some h1)
     }
   }"

definition cJSON_ReplaceItemViaPointer :: "cjson_env \<Rightarrow> items \<Rightarrow> nat \<Rightarrow> nat \<Rightarrow> nat \<Rightarrow> (bool \<times> items) option" where
  "cJSON_ReplaceItemViaPointer E h parent p replacement =
     (if parent = 0 \<or> replacement = 0 \<or> p = 0 then Some (False, h)
      else if replacement = p then Some (True, h)
      else do {
        x \<leftarrow> jget h p;
        h1 \<leftarrow> jset h replacement (\<lambda>r. r\<lparr>nxt := nxt x\<rparr>);
        x1 \<leftarrow> jget h1 p;
        h2 \<leftarrow> jset h1 replacement (\<lambda>r. r\<lparr>prv := prv x1\<rparr>);
        h3 \<leftarrow> relink_next h2 replacement;
        h4 \<leftarrow> relink_parent h3 parent p replacement;
        h5 \<leftarrow> jset h4 p (\<lambda>y. y\<lparr>nxt := 0\<rparr>);
        h6 \<leftarrow> jset h5 p (\<lambda>y. y\<lparr>prv := 0\<rparr>);
        h7 \<leftarrow> cJSON_Delete E h6 p;
        Some (True, h7)
      })"

definition cJSON_ReplaceItemInArray :: "cjson_env \<Rightarrow> items \<Rightarrow> nat \<Rightarrow> int \<Rightarrow> nat \<Rightarrow> (bool \<times> items) option" where
  "cJSON_ReplaceItemInArray E h array which newitem =
     (if which < 0 then Some (False, h)
      else do { p \<leftarrow> get_array_item h array (nat which); cJSON_ReplaceItemViaPointer E h array p newitem })"

definition replace_item_in_object :: "cjson_env \<Rightarrow> items \<Rightarrow> nat \<Rightarrow> u8 list option \<Rightarrow> nat \<Rightarrow> bool \<Rightarrow> (bool \<times> items) option" where
  "replace_item_in_object E h object str replacement case_sensitive =
     (if replacement = 0 \<or> str = None then Some (False, h)
      else do {
        r \<leftarrow> jget h replacement;
        s \<leftarrow> cJSON_strdup (env_hooks E) str;
        let h1 = h(replacement \<mapsto> r\<lparr>item_string := s, item_type := item_type r AND NOT (cJSON_StringIsConst (env_h E))\<rparr>);
        p \<leftarrow> get_object_item h1 object str case_sensitive;
        cJSON_ReplaceItemViaPointer E h1 object p replacement
      })"

definition cJSON_ReplaceItemInObject :: "cjson_env \<Rightarrow> items \<Rightarrow> nat \<Rightarrow> u8 list option \<Rightarrow> nat \<Rightarrow> (bool \<times> items) option" where
  "cJSON_ReplaceItemInObject E h object str newitem = replace_item_in_object E h object str newitem False"

definition cJSON_ReplaceItemInObjectCaseSensitive ::
  "cjson_env \<Rightarrow> items \<Rightarrow> nat \<Rightarrow> u8 list option \<Rightarrow> nat \<Rightarrow> (bool \<times> items) option" where
  "cJSON_ReplaceItemInObjectCaseSensitive E h object str newitem = replace_item_in_object E h object str newitem True"

section \<open>The list of the children\<close>

text \<open>
  A segment of the list: the links of the items \<open>xs\<close> when the item before them is \<open>p\<close> and the one
  after them is \<open>q\<close>. The children of an array form a segment that ends with 0; the \<open>prev\<close> pointer of
  the first child is the last child, or null in a list that the array constructors built.
\<close>

definition first :: "nat list \<Rightarrow> nat \<Rightarrow> nat" where
  "first xs q = (case xs of [] \<Rightarrow> q | x # _ \<Rightarrow> x)"

definition final :: "nat \<Rightarrow> nat list \<Rightarrow> nat" where
  "final p xs = (if xs = [] then p else last xs)"

fun dseg :: "items \<Rightarrow> nat \<Rightarrow> nat list \<Rightarrow> nat \<Rightarrow> bool" where
  "dseg h p [] q = True"
| "dseg h p (x # xs) q = (case h x of None \<Rightarrow> False | Some n \<Rightarrow> prv n = p \<and> nxt n = first xs q \<and> dseg h x xs q)"

definition kids :: "items \<Rightarrow> nat \<Rightarrow> nat list \<Rightarrow> bool" where
  "kids h a xs \<longleftrightarrow> (case h a of None \<Rightarrow> False | Some n \<Rightarrow> chd n = first xs 0) \<and> distinct (a # xs) \<and> 0 \<notin> set (a # xs) \<and>
     (dseg h 0 xs 0 \<or> dseg h (final 0 xs) xs 0)"

lemma first_simps [simp]: "first [] q = q" "first (x # xs) q = x" "first (xs @ y # ys) q = first xs y"
  by (simp_all add: first_def split: list.split)

lemma final_simps [simp]: "final p [] = p" "final p (xs @ [x]) = x" "final p (x # xs) = final x xs" "final p (xs @ ys) = final (final p xs) ys"
  by (simp_all add: final_def)

lemma first_append: "first (xs @ ys) q = first xs (first ys q)"
  by (simp add: first_def split: list.split)

lemma dseg_append: "dseg h p (xs @ ys) q \<longleftrightarrow> dseg h p xs (first ys q) \<and> dseg h (final p xs) ys q"
  by (induction xs arbitrary: p) (auto simp: first_append split: option.splits)

lemma dseg_frame: "x \<notin> set xs \<Longrightarrow> dseg (h(x := v)) p xs q = dseg h p xs q"
  by (induction xs arbitrary: p) (auto split: option.splits)

lemma dseg_prv:
  "dseg h p (x # xs) q \<Longrightarrow> x \<notin> set xs \<Longrightarrow> h x = Some n \<Longrightarrow> dseg (h(x \<mapsto> n\<lparr>prv := p'\<rparr>)) p' (x # xs) q"
  by (simp add: dseg_frame)

lemma dseg_nxt:
  "dseg h p (xs @ [z]) q \<Longrightarrow> z \<notin> set xs \<Longrightarrow> h z = Some n \<Longrightarrow> dseg (h(z \<mapsto> n\<lparr>nxt := q'\<rparr>)) p (xs @ [z]) q'"
  by (simp add: dseg_append dseg_frame)

lemma dseg_in_heap: "dseg h p xs q \<Longrightarrow> x \<in> set xs \<Longrightarrow> \<exists>n. h x = Some n"
  by (induction xs arbitrary: p) (auto split: option.splits)

lemma jget_Some: "h x = Some n \<Longrightarrow> x \<noteq> 0 \<Longrightarrow> jget h x = Some n"
  by (simp add: jget_def)

lemma jset_Some: "h x = Some n \<Longrightarrow> x \<noteq> 0 \<Longrightarrow> jset h x f = Some (h(x \<mapsto> f n))"
  by (simp add: jset_def jget_def)

lemmas heap_simps = jget_Some jset_Some

lemma kidsE:
  assumes "kids h a xs"
  obtains n p where "h a = Some n" and "chd n = first xs 0" and "distinct (a # xs)" and "a \<noteq> 0" and "0 \<notin> set xs"
    and "dseg h p xs 0" and "p = 0 \<or> p = final 0 xs"
  using assms unfolding kids_def by (auto split: option.splits)

lemma kidsI:
  assumes "h a = Some n" and "chd n = first xs 0" and "distinct (a # xs)" and "0 \<notin> set (a # xs)" and "dseg h p xs 0"
    and "p = 0 \<or> p = final 0 xs"
  shows "kids h a xs"
  using assms unfolding kids_def by auto

lemma last_loop_spec:
  "dseg h p (x # xs) 0 \<Longrightarrow> 0 \<notin> set (x # xs) \<Longrightarrow> last_loop h x = Some (final x xs)"
proof (induction xs arbitrary: x p)
  case Nil
  then show ?case by (subst last_loop.simps) (auto simp: jget_def split: option.splits)
next
  case (Cons y xs)
  then obtain n where n: "h x = Some n" "nxt n = y" "dseg h x (y # xs) 0" by (auto split: option.splits)
  with Cons.IH [OF n(3)] Cons.prems show ?case by (subst last_loop.simps) (simp add: jget_def)
qed

text \<open>The fields other than the links.\<close>

definition same_values :: "items \<Rightarrow> items \<Rightarrow> bool" where
  "same_values h h' \<longleftrightarrow> (\<forall>y. map_option cJSON.truncate (h' y) = map_option cJSON.truncate (h y))"

lemma same_values_refl [simp]: "same_values h h"
  by (simp add: same_values_def)

lemma same_values_upd [simp]:
  "h x = Some n \<Longrightarrow> same_values h (h(x \<mapsto> n\<lparr>nxt := q\<rparr>))"
  "h x = Some n \<Longrightarrow> same_values h (h(x \<mapsto> n\<lparr>prv := q\<rparr>))"
  "h x = Some n \<Longrightarrow> same_values h (h(x \<mapsto> n\<lparr>chd := q\<rparr>))"
  by (auto simp: same_values_def cJSON.defs)

lemma same_values_trans: "same_values h h1 \<Longrightarrow> same_values h1 h2 \<Longrightarrow> same_values h h2"
  by (simp add: same_values_def)

text \<open>An item that can be added: it is in the heap, in no list, and has no successor.\<close>

definition spare :: "items \<Rightarrow> nat \<Rightarrow> nat list \<Rightarrow> nat \<Rightarrow> bool" where
  "spare h a xs x \<longleftrightarrow> x \<noteq> 0 \<and> x \<noteq> a \<and> x \<notin> set xs \<and> (case h x of None \<Rightarrow> False | Some n \<Rightarrow> nxt n = 0)"

text \<open>Nothing outside the list, its parent and the item is touched.\<close>

definition only_changes :: "items \<Rightarrow> items \<Rightarrow> nat set \<Rightarrow> bool" where
  "only_changes h h' S \<longleftrightarrow> (\<forall>y. y \<notin> S \<longrightarrow> h' y = h y) \<and> same_values h h'"

lemma only_changes_refl [simp]: "only_changes h h S"
  by (simp add: only_changes_def)

lemma only_changes_trans: "only_changes h h1 S \<Longrightarrow> only_changes h1 h2 S \<Longrightarrow> only_changes h h2 S"
  by (auto simp: only_changes_def intro: same_values_trans)

lemma only_changes_upd:
  "h x = Some n \<Longrightarrow> x \<in> S \<Longrightarrow> only_changes h (h(x \<mapsto> n\<lparr>nxt := q\<rparr>)) S"
  "h x = Some n \<Longrightarrow> x \<in> S \<Longrightarrow> only_changes h (h(x \<mapsto> n\<lparr>prv := q\<rparr>)) S"
  "h x = Some n \<Longrightarrow> x \<in> S \<Longrightarrow> only_changes h (h(x \<mapsto> n\<lparr>chd := q\<rparr>)) S"
  by (auto simp: only_changes_def)

section \<open>The operations on the list\<close>

lemma spareE:
  assumes "spare h a xs x"
  obtains n where "x \<noteq> 0" and "x \<noteq> a" and "x \<notin> set xs" and "h x = Some n" and "nxt n = 0"
  using assms by (auto simp: spare_def split: option.splits)

lemma dseg_head: "dseg h p (x # xs) q \<Longrightarrow> \<exists>n. h x = Some n \<and> prv n = p \<and> nxt n = first xs q"
  by (auto split: option.splits)

lemma dseg_snoc: "dseg h p (xs @ [z]) q \<Longrightarrow> \<exists>n. h z = Some n \<and> prv n = final p xs \<and> nxt n = q"
  by (auto simp: dseg_append split: option.splits)

lemma add_spec:
  assumes "kids h a xs" and "spare h a xs x"
  shows "\<exists>h'. add_item_to_array h a x = Some (True, h') \<and> kids h' a (xs @ [x]) \<and> only_changes h h' (set (a # x # xs))"
proof -
  obtain n p where a: "h a = Some n" "chd n = first xs 0" "distinct (a # xs)" "a \<noteq> 0" "0 \<notin> set xs"
    and D: "dseg h p xs 0" "p = 0 \<or> p = final 0 xs" using assms(1) by (rule kidsE)
  obtain nx where x: "x \<noteq> 0" "x \<noteq> a" "x \<notin> set xs" "h x = Some nx" "nxt nx = 0" using assms(2) by (rule spareE)
  show ?thesis
  proof (cases xs rule: rev_cases)
    case Nil
    let ?h1 = "h(a \<mapsto> n\<lparr>chd := x\<rparr>)"
    let ?h2 = "?h1(x \<mapsto> nx\<lparr>prv := x\<rparr>)"
    let ?h3 = "?h2(x \<mapsto> nx\<lparr>prv := x, nxt := 0\<rparr>)"
    have "add_item_to_array h a x = Some (True, ?h3)"
      using a x Nil by (simp add: add_item_to_array_def heap_simps)
    moreover have "kids ?h3 a (xs @ [x])" by (rule kidsI [of _ _ "n\<lparr>chd := x\<rparr>" _ x]) (use a x Nil in simp_all)
    moreover have "only_changes h ?h3 (set (a # x # xs))"
      using a(1) x by (intro only_changes_trans [OF only_changes_trans [OF only_changes_upd(3) only_changes_upd(2)] only_changes_upd(1)]) auto
    ultimately show ?thesis by blast
  next
    case (snoc ys z)
    then have "xs \<noteq> []" by simp
    then obtain c cs where c: "xs = c # cs" unfolding neq_Nil_conv by blast
    obtain nz where z: "h z = Some nz" using dseg_snoc D(1) snoc by blast
    obtain nc where nc: "h c = Some nc" "prv nc = p" using dseg_head D(1) c by blast
    have fz: "final q xs = z" for q using snoc by (simp add: final_def)
    have last: "(if prv nc \<noteq> 0 then Some (prv nc) else last_loop h c) = Some z"
      using D nc(2) last_loop_spec [of h p c cs] a(5) fz c by (auto simp: final_def)
    have "c \<noteq> 0" "c \<noteq> a" "c \<noteq> x" "c \<notin> set cs" using a x c by auto
    moreover have "z \<noteq> 0" "z \<noteq> a" "z \<noteq> x" "z \<notin> set ys" using a x snoc by auto
    ultimately have ne: "c \<noteq> 0" "z \<noteq> 0" "c \<noteq> a" "z \<noteq> a" "c \<noteq> x" "z \<noteq> x" "c \<notin> set cs" "z \<notin> set ys" by blast+
    let ?h1 = "h(z \<mapsto> nz\<lparr>nxt := x\<rparr>)"
    let ?h2 = "?h1(x \<mapsto> nx\<lparr>prv := z\<rparr>)"
    obtain m where m: "?h2 c = Some m" using nc(1) ne by (cases "c = z") auto
    let ?h3 = "?h2(c \<mapsto> m\<lparr>prv := x\<rparr>)"
    have "add_item_to_array h a x = Some (True, ?h3)"
    proof -
      have "chd n = c" using a(2) c by simp
      moreover have "suffix_object h z x = Some ?h2" using z x(1,4) ne(2,6) by (simp add: suffix_object_def heap_simps)
      moreover have "set_head_prev ?h2 a x = Some ?h3"
        using a(1,4) x(2) ne m \<open>chd n = c\<close> by (simp add: set_head_prev_def heap_simps del: fun_upd_apply) (simp add: heap_simps)
      ultimately show ?thesis
        using x(1,2) a(1,4) nc(1) ne(1) last by (cases "prv nc = 0") (simp_all add: add_item_to_array_def jget_Some del: fun_upd_apply)
    qed
    moreover have "kids ?h3 a (xs @ [x])"
    proof (rule kidsI [of _ _ n _ x])
      have "dseg ?h1 p xs x" using dseg_nxt [of h p ys z 0 nz x] D(1) z ne snoc by simp
      then have "dseg ?h2 p xs x" using x(3) by (simp add: dseg_frame)
      then have "dseg ?h3 x xs x" using dseg_prv [of ?h2 p c cs x m x] m ne c by simp
      moreover have "dseg ?h3 (final x xs) [x] 0" using x ne fz by simp
      ultimately show "dseg ?h3 x (xs @ [x]) 0" by (simp add: dseg_append)
    qed (use a x ne c in auto)
    moreover have "only_changes h ?h3 (set (a # x # xs))"
    proof (rule only_changes_trans [OF only_changes_trans])
      have "z \<in> set xs" using snoc by simp
      then show "only_changes h ?h1 (set (a # x # xs))" using z by (intro only_changes_upd) simp_all
      show "only_changes ?h1 ?h2 (set (a # x # xs))" using x(4) ne by (intro only_changes_upd) simp_all
      have "c \<in> set xs" using c by simp
      then show "only_changes ?h2 ?h3 (set (a # x # xs))" using m by (intro only_changes_upd) simp_all
    qed
    ultimately show ?thesis by blast
  qed
qed

lemma nth_loop_spec:
  "dseg h p xs 0 \<Longrightarrow> 0 \<notin> set xs \<Longrightarrow> nth_loop h (first xs 0) i = Some (if i < length xs then xs ! i else 0)"
proof (induction xs arbitrary: p i)
  case Nil
  then show ?case by (cases i) simp_all
next
  case (Cons x xs)
  then obtain n where n: "h x = Some n" "nxt n = first xs 0" "dseg h x xs 0" by (auto split: option.splits)
  with Cons.prems Cons.IH [OF n(3)] show ?case by (cases i) (simp_all add: heap_simps)
qed

lemma get_array_item_spec:
  "kids h a xs \<Longrightarrow> get_array_item h a i = Some (if i < length xs then xs ! i else 0)"
  by (elim kidsE) (simp add: get_array_item_def heap_simps nth_loop_spec)

lemma size_loop_spec:
  "dseg h p xs 0 \<Longrightarrow> 0 \<notin> set xs \<Longrightarrow> size_loop h (first xs 0) n = Some (n + length xs)"
proof (induction xs arbitrary: p n)
  case Nil
  then show ?case by (subst size_loop.simps) simp
next
  case (Cons x xs)
  then obtain m where m: "h x = Some m" "nxt m = first xs 0" "dseg h x xs 0" by (auto split: option.splits)
  with Cons.prems Cons.IH [OF m(3)] show ?case by (subst size_loop.simps) (simp add: heap_simps)
qed

lemma kids_at:
  assumes "kids h a (ys @ x # zs)"
  obtains n p nx where "h a = Some n" and "chd n = first ys x" and "a \<noteq> 0" and "0 \<notin> set (ys @ x # zs)" and "distinct (a # ys @ x # zs)"
    and "p = 0 \<or> p = final x zs" and "dseg h p ys x" and "h x = Some nx" and "prv nx = final p ys" and "nxt nx = first zs 0" and "dseg h x zs 0"
proof -
  obtain n p where a: "h a = Some n" "chd n = first (ys @ x # zs) 0" "distinct (a # ys @ x # zs)" "a \<noteq> 0" "0 \<notin> set (ys @ x # zs)"
    and D: "dseg h p (ys @ x # zs) 0" "p = 0 \<or> p = final 0 (ys @ x # zs)" using assms by (rule kidsE)
  then have "dseg h p ys x" "dseg h (final p ys) (x # zs) 0" by (simp_all add: dseg_append)
  then obtain nx where "h x = Some nx" "prv nx = final p ys" "nxt nx = first zs 0" "dseg h x zs 0" by (auto split: option.splits)
  with a D \<open>dseg h p ys x\<close> show ?thesis by (intro that) auto
qed

lemma first_in: "xs \<noteq> [] \<Longrightarrow> first xs q \<in> set xs"
  by (cases xs) simp_all

lemma clear_links: "h x = Some n \<Longrightarrow> x \<noteq> 0 \<Longrightarrow>
    (do { h4 \<leftarrow> jset h x (\<lambda>y. y\<lparr>prv := 0\<rparr>); h5 \<leftarrow> jset h4 x (\<lambda>y. y\<lparr>nxt := 0\<rparr>); Some (x, h5) }) =
    Some (x, h(x \<mapsto> n\<lparr>prv := 0, nxt := 0\<rparr>))"
  by (simp add: heap_simps)

lemma only_changes_links: "h x = Some n \<Longrightarrow> x \<in> S \<Longrightarrow> only_changes h (h(x \<mapsto> n\<lparr>prv := p, nxt := q\<rparr>)) S"
  by (auto simp: only_changes_def same_values_def cJSON.defs)

text \<open>Taking an item out of the list: the links around it, as two updates of its neighbours.\<close>

lemma detach_spec:
  assumes "kids h a (ys @ x # zs)"
  shows "\<exists>h'. cJSON_DetachItemViaPointer h a x = Some (x, h') \<and> kids h' a (ys @ zs) \<and> spare h' a (ys @ zs) x \<and>
    only_changes h h' (set (a # ys @ x # zs))"
proof -
  let ?S = "set (a # ys @ x # zs)"
  obtain n p nx where a: "h a = Some n" "chd n = first ys x" "a \<noteq> 0" "0 \<notin> set (ys @ x # zs)" "distinct (a # ys @ x # zs)"
    and p: "p = 0 \<or> p = final x zs" and D: "dseg h p ys x" "h x = Some nx" "prv nx = final p ys" "nxt nx = first zs 0" "dseg h x zs 0"
    using assms by (rule kids_at)
  have x0: "x \<noteq> 0" "x \<noteq> a" using a by auto
  have g: "jget h a = Some n" "jget h x = Some nx" using a(1,3) D(2) x0(1) by (simp_all add: jget_def)
  show ?thesis
  proof (cases ys rule: rev_cases)
    case Nil
    obtain h2 where h2: "(if nxt nx \<noteq> 0 then jset h (nxt nx) (\<lambda>y. y\<lparr>prv := prv nx\<rparr>) else Some h) = Some h2"
      and k: "dseg h2 p zs 0" "h2 a = Some n" "h2 x = Some nx" and o2: "only_changes h h2 ?S"
    proof (cases zs)
      case Nil
      then show ?thesis using that [of h] D a by simp
    next
      case (Cons z zs')
      then obtain nz where nz: "h z = Some nz" using dseg_head D(5) by blast
      show ?thesis
      proof (rule that)
        show "(if nxt nx \<noteq> 0 then jset h (nxt nx) (\<lambda>y. y\<lparr>prv := prv nx\<rparr>) else Some h) = Some (h(z \<mapsto> nz\<lparr>prv := p\<rparr>))"
          using D Cons nz a \<open>ys = []\<close> by (simp add: heap_simps)
        show "dseg (h(z \<mapsto> nz\<lparr>prv := p\<rparr>)) p zs 0" using dseg_prv [of h x z zs' 0 nz p] D(5) Cons nz a(5) by simp
        show "only_changes h (h(z \<mapsto> nz\<lparr>prv := p\<rparr>)) ?S" using nz Cons by (intro only_changes_upd) auto
      qed (use a D Cons in auto)
    qed
    let ?h3 = "h2(a \<mapsto> n\<lparr>chd := nxt nx\<rparr>)"
    let ?h4 = "?h3(x \<mapsto> nx\<lparr>prv := 0, nxt := 0\<rparr>)"
    have "cJSON_DetachItemViaPointer h a x = Some (x, ?h4)"
      using a D x0 Nil h2 k clear_links [of ?h3 x nx]
      by (simp add: cJSON_DetachItemViaPointer_def heap_simps)
    moreover have "kids ?h4 a (ys @ zs)"
      by (rule kidsI [of _ _ "n\<lparr>chd := nxt nx\<rparr>" _ "if zs = [] then 0 else p"])
        (use a D x0 k Nil p in \<open>auto simp: dseg_frame final_def\<close>)
    moreover have "spare ?h4 a (ys @ zs) x" using a x0 Nil by (simp add: spare_def)
    moreover have "only_changes h ?h4 ?S"
      using o2 k x0 by (intro only_changes_trans [OF only_changes_trans [OF o2 only_changes_upd(3)] only_changes_links]) auto
    ultimately show ?thesis by blast
  next
    case (snoc us w)
    obtain nw where nw: "h w = Some nw" using dseg_snoc D(1) snoc by blast
    have "chd n \<in> set ys" unfolding a(2) using snoc by (intro first_in) simp
    then have w: "prv nx = w" "w \<noteq> 0" "w \<noteq> a" "w \<noteq> x" "w \<notin> set us" "w \<notin> set zs" "x \<noteq> chd n" "x \<notin> set us" "x \<notin> set zs"
      using D(3) a(4,5) snoc by auto
    let ?h1 = "h(w \<mapsto> nw\<lparr>nxt := nxt nx\<rparr>)"
    have k1: "dseg ?h1 p ys (first zs 0)" using dseg_nxt [of h p us w x nw "nxt nx"] D(1,4) nw w snoc by simp
    have k1': "dseg ?h1 x zs 0" using D(5) w by (simp add: dseg_frame)
    have o1: "only_changes h ?h1 ?S" using nw snoc by (intro only_changes_upd) auto
    show ?thesis
    proof (cases zs)
      case (Cons z zs')
      then obtain nz where nz: "?h1 z = Some nz" using dseg_head k1' by blast
      have z: "z \<noteq> 0" "z \<noteq> x" "z \<noteq> a" "z \<notin> set ys" "z \<notin> set zs'" "z \<noteq> w" using a Cons w by auto
      let ?h2 = "?h1(z \<mapsto> nz\<lparr>prv := w\<rparr>)"
      let ?h4 = "?h2(x \<mapsto> nx\<lparr>prv := 0, nxt := 0\<rparr>)"
      have "cJSON_DetachItemViaPointer h a x = Some (x, ?h4)"
      proof -
        have "nxt nx = z" using D(4) Cons by simp
        moreover have "jset h w (\<lambda>y. y\<lparr>nxt := nxt nx\<rparr>) = Some ?h1" using nw w(2) by (simp add: jset_Some)
        moreover have "jset ?h1 z (\<lambda>y. y\<lparr>prv := w\<rparr>) = Some ?h2" using nz z(1) by (simp add: jset_Some del: fun_upd_apply)
        moreover have "jget ?h1 x = Some nx" "jget ?h2 x = Some nx" "jget ?h2 a = Some n"
          using D(2) x0 w(3,4) z(2,3) a(1,3) by (simp_all add: jget_def)
        moreover have "?h2 x = Some nx" using D(2) w(4) z(2) by simp
        ultimately show ?thesis
          using a(1,3) x0 w(1,7) z(1) g clear_links [of ?h2 x nx]
          by (simp add: cJSON_DetachItemViaPointer_def del: fun_upd_apply)
      qed
      moreover have "dseg ?h2 w zs 0" using dseg_prv [of ?h1 x z zs' 0 nz w] k1' Cons nz z by simp
      then have "kids ?h4 a (ys @ zs)"
        by (intro kidsI [of _ _ n _ p])
          (use a x0 k1 w z p snoc Cons in \<open>auto simp: dseg_frame dseg_append final_def\<close>)
      moreover have "spare ?h4 a (ys @ zs) x" using a x0 w snoc by (simp add: spare_def)
      moreover have "only_changes h ?h4 ?S"
      proof (rule only_changes_trans [OF only_changes_trans [OF o1]])
        show "only_changes ?h1 ?h2 ?S" using nz Cons by (intro only_changes_upd) simp_all
        show "only_changes ?h2 ?h4 ?S" using D(2) z(2) w(4) by (intro only_changes_links) simp_all
      qed
      ultimately show ?thesis by blast
    next
      case Nil
      have "ys \<noteq> []" using snoc by simp
      then obtain c cs where c: "ys = c # cs" unfolding neq_Nil_conv by blast
      then obtain nc where nc: "?h1 c = Some nc" using dseg_head k1 by blast
      have c0: "c \<noteq> 0" "c \<noteq> x" "c \<noteq> a" "c \<notin> set cs" "chd n = c" using a c by auto
      let ?h3 = "?h1(c \<mapsto> nc\<lparr>prv := w\<rparr>)"
      let ?h4 = "?h3(x \<mapsto> nx\<lparr>prv := 0, nxt := 0\<rparr>)"
      have "cJSON_DetachItemViaPointer h a x = Some (x, ?h4)"
      proof -
        have "nxt nx = 0" using D(4) Nil by simp
        moreover have "jset h w (\<lambda>y. y\<lparr>nxt := nxt nx\<rparr>) = Some ?h1" using nw w(2) by (simp add: jset_Some)
        moreover have g1: "jget ?h1 x = Some nx" "jget ?h1 a = Some n"
          using D(2) x0 w(3,4) a(1,3) by (simp_all add: jget_def)
        moreover have "set_head_prev ?h1 a w = Some ?h3"
          using nc c0(1,5) g1(2) by (simp add: set_head_prev_def jset_Some del: fun_upd_apply)
        moreover have "?h3 x = Some nx" using D(2) w(4) c0(2) by simp
        ultimately show ?thesis
          using a(1,3) x0 w(1,7) g clear_links [of ?h3 x nx]
          by (simp add: cJSON_DetachItemViaPointer_def del: fun_upd_apply)
      qed
      moreover have "dseg ?h3 w ys 0" using dseg_prv [of ?h1 p c cs 0 nc w] k1 Nil nc c c0 by simp
      then have "kids ?h4 a (ys @ zs)"
        by (intro kidsI [of _ _ n _ w])
          (use a x0 c0 w snoc Nil in \<open>auto simp: dseg_frame dseg_append final_def first_def split: list.splits\<close>)
      moreover have "spare ?h4 a (ys @ zs) x" using a x0 w snoc by (simp add: spare_def)
      moreover have "only_changes h ?h4 ?S"
      proof (rule only_changes_trans [OF only_changes_trans [OF o1]])
        show "only_changes ?h1 ?h3 ?S" using nc c by (intro only_changes_upd) simp_all
        show "only_changes ?h3 ?h4 ?S" using D(2) c0(2) w(4) by (intro only_changes_links) simp_all
      qed
      ultimately show ?thesis by blast
    qed
  qed
qed

lemma first_cong: "xs \<noteq> [] \<Longrightarrow> first xs q = first xs q'"
  by (cases xs) simp_all

lemma insert_spec:
  assumes "kids h a (ys @ y # zs)" and "spare h a (ys @ y # zs) x"
  shows "\<exists>h'. cJSON_InsertItemInArray h a (int (length ys)) x = Some (True, h') \<and> kids h' a (ys @ x # y # zs) \<and>
    only_changes h h' (set (a # x # ys @ y # zs))"
proof -
  let ?S = "set (a # x # ys @ y # zs)"
  obtain n p ny where a: "h a = Some n" "chd n = first ys y" "a \<noteq> 0" "0 \<notin> set (ys @ y # zs)" "distinct (a # ys @ y # zs)"
    and p: "p = 0 \<or> p = final y zs" and D: "dseg h p ys y" "h y = Some ny" "prv ny = final p ys" "nxt ny = first zs 0" "dseg h y zs 0"
    using assms(1) by (rule kids_at)
  obtain nx where x: "x \<noteq> 0" "x \<noteq> a" "x \<notin> set (ys @ y # zs)" "h x = Some nx" using assms(2) by (rule spareE)
  have y: "y \<noteq> 0" "y \<noteq> a" "y \<noteq> x" "y \<notin> set ys" "y \<notin> set zs" using a x by auto
  have get: "get_array_item h a (length ys) = Some y" using get_array_item_spec [OF assms(1), of "length ys"] by simp
  let ?h1 = "h(x \<mapsto> nx\<lparr>nxt := y\<rparr>)"
  let ?h2 = "?h1(x \<mapsto> nx\<lparr>nxt := y, prv := prv ny\<rparr>)"
  let ?h3 = "?h2(y \<mapsto> ny\<lparr>prv := x\<rparr>)"
  have s: "jset h x (\<lambda>i. i\<lparr>nxt := y\<rparr>) = Some ?h1" "jget ?h1 y = Some ny" "jset ?h1 x (\<lambda>i. i\<lparr>prv := prv ny\<rparr>) = Some ?h2"
    "jset ?h2 y (\<lambda>i. i\<lparr>prv := x\<rparr>) = Some ?h3" "jget ?h3 a = Some n" "jget ?h3 x = Some (nx\<lparr>nxt := y, prv := prv ny\<rparr>)"
    using a(1,3) x y D(2) by (simp_all add: heap_simps)
  have o3: "only_changes h ?h3 ?S"
  proof (rule only_changes_trans [OF only_changes_trans])
    show "only_changes h ?h1 ?S" using x(4) by (intro only_changes_upd) simp_all
    show "only_changes ?h1 ?h2 ?S" by (intro only_changes_upd) simp_all
    show "only_changes ?h2 ?h3 ?S" using D(2) y by (intro only_changes_upd) simp_all
  qed
  have d3: "dseg ?h3 p ys y" "dseg ?h3 x (y # zs) 0" using D x y by (simp_all add: dseg_frame)
  show ?thesis
  proof (cases ys rule: rev_cases)
    case Nil
    let ?h4 = "?h3(a \<mapsto> n\<lparr>chd := x\<rparr>)"
    have "jset ?h3 a (\<lambda>i. i\<lparr>chd := x\<rparr>) = Some ?h4" using a(1,3) x(2) y(2) by (simp add: jset_Some)
    then have "cJSON_InsertItemInArray h a (int (length ys)) x = Some (True, ?h4)"
      using s get y(1) a(2) Nil by (simp add: cJSON_InsertItemInArray_def del: fun_upd_apply)
    moreover have "kids ?h4 a (ys @ x # y # zs)"
      by (rule kidsI [of _ _ "n\<lparr>chd := x\<rparr>" _ p])
        (use a x y D p Nil d3 in \<open>auto simp: dseg_frame final_def\<close>)
    moreover have "only_changes h ?h4 ?S"
      using a(1) x(2) y(2) by (intro only_changes_trans [OF o3 only_changes_upd(3)]) auto
    ultimately show ?thesis by blast
  next
    case (snoc us w)
    obtain nw where nw: "h w = Some nw" using dseg_snoc D(1) snoc by blast
    have "chd n \<in> set ys" unfolding a(2) using snoc by (intro first_in) simp
    then have w: "prv ny = w" "w \<noteq> 0" "w \<noteq> a" "w \<noteq> x" "w \<noteq> y" "w \<notin> set us" "w \<notin> set zs" "y \<noteq> chd n"
      using D(3) a(4,5) x(3) snoc by auto
    let ?h4 = "?h3(w \<mapsto> nw\<lparr>nxt := x\<rparr>)"
    have "jset ?h3 w (\<lambda>i. i\<lparr>nxt := x\<rparr>) = Some ?h4" using nw w by (simp add: jset_Some)
    then have "cJSON_InsertItemInArray h a (int (length ys)) x = Some (True, ?h4)"
      using s get y(1) w(1,8) by (simp add: cJSON_InsertItemInArray_def del: fun_upd_apply)
    moreover have "kids ?h4 a (ys @ x # y # zs)"
    proof (rule kidsI [of _ _ n _ p])
      have "dseg ?h4 p ys x"
        using dseg_nxt [of ?h3 p us w y nw x] d3(1) nw w snoc by simp
      moreover have "dseg ?h4 w (x # y # zs) 0" using d3(2) w x y by (simp add: dseg_frame)
      ultimately show "dseg ?h4 p (ys @ x # y # zs) 0" using snoc by (simp add: dseg_append)
      show "chd n = first (ys @ x # y # zs) 0" using a(2) first_cong [of ys y x] snoc by simp
    qed (use a x y w p snoc in \<open>auto simp: final_def\<close>)
    moreover have "only_changes h ?h4 ?S"
    proof (rule only_changes_trans [OF o3])
      show "only_changes ?h3 ?h4 ?S" using nw w(4,5) snoc by (intro only_changes_upd) simp_all
    qed
    ultimately show ?thesis by blast
  qed
qed

text \<open>
  Replacing: the same links with the new item in the place of the old one, which is unlinked and then
  given to \<open>cJSON_Delete\<close>.
\<close>

lemma replace_links:
  assumes "kids h a (ys @ x # zs)" and "r \<noteq> 0" and "r \<noteq> a" and "r \<notin> set (ys @ x # zs)" and "h r = Some nr" and "h x = Some nx"
  shows "\<exists>h'. cJSON_ReplaceItemViaPointer E h a x r = map_option (Pair True) (cJSON_Delete E h' x) \<and> kids h' a (ys @ r # zs) \<and>
    only_changes h h' (set (a # r # ys @ x # zs)) \<and> h' x = Some (nx\<lparr>nxt := 0, prv := 0\<rparr>)"
proof -
  let ?S = "set (a # r # ys @ x # zs)"
  obtain n p nx' where a: "h a = Some n" "chd n = first ys x" "a \<noteq> 0" "0 \<notin> set (ys @ x # zs)" "distinct (a # ys @ x # zs)"
    and p: "p = 0 \<or> p = final x zs" and D': "dseg h p ys x" "h x = Some nx'" "prv nx' = final p ys" "nxt nx' = first zs 0" "dseg h x zs 0"
    using assms(1) by (rule kids_at)
  then have D: "dseg h p ys x" "prv nx = final p ys" "nxt nx = first zs 0" "dseg h x zs 0" using assms(6) by simp_all
  have x: "x \<noteq> 0" "x \<noteq> a" "x \<noteq> r" "x \<notin> set ys" "x \<notin> set zs" using a assms(4) by auto
  have r: "r \<notin> set ys" "r \<notin> set zs" using assms(4) by auto
  let ?h1 = "h(r \<mapsto> nr\<lparr>nxt := nxt nx\<rparr>)"
  let ?r2 = "nr\<lparr>nxt := nxt nx, prv := prv nx\<rparr>"
  let ?h2 = "?h1(r \<mapsto> ?r2)"
  have s2: "jget h x = Some nx" "jset h r (\<lambda>i. i\<lparr>nxt := nxt nx\<rparr>) = Some ?h1" "jget ?h1 x = Some nx"
    "jset ?h1 r (\<lambda>i. i\<lparr>prv := prv nx\<rparr>) = Some ?h2" "jget ?h2 r = Some ?r2"
    using assms(2,5,6) x by (simp_all add: heap_simps)
  have o2: "only_changes h ?h2 ?S"
  proof (rule only_changes_trans)
    show "only_changes h ?h1 ?S" using assms(5) by (intro only_changes_upd) simp_all
    show "only_changes ?h1 ?h2 ?S" by (intro only_changes_upd) simp_all
  qed
  have d2: "dseg ?h2 p ys x" "dseg ?h2 x zs 0" using D r by (simp_all add: dseg_frame)
  have nexteq: "relink_next ?h2 r = (if nxt nx \<noteq> 0 then jset ?h2 (nxt nx) (\<lambda>i. i\<lparr>prv := r\<rparr>) else Some ?h2)"
    using s2(5) by (simp add: relink_next_def del: fun_upd_apply fun_upd_upd)
  obtain h3 where h3: "relink_next ?h2 r = Some h3"
    and k3: "dseg h3 p ys x" "dseg h3 r zs 0" "h3 a = Some n" "h3 x = Some nx" "h3 r = Some ?r2" and o3: "only_changes h h3 ?S"
  proof (cases zs)
    case Nil
    then show ?thesis using that [of ?h2] nexteq D(3) d2 a(1) assms(3,6) x(3) o2 by simp
  next
    case (Cons z zs')
    then obtain nz where nz: "?h2 z = Some nz" using dseg_head d2(2) by blast
    have z: "z \<noteq> 0" "z \<noteq> x" "z \<noteq> a" "z \<noteq> r" "z \<notin> set ys" "z \<notin> set zs'" using a r Cons by auto
    let ?h3 = "?h2(z \<mapsto> nz\<lparr>prv := r\<rparr>)"
    have "nxt nx = z" using D(3) Cons by simp
    moreover have "jset ?h2 z (\<lambda>i. i\<lparr>prv := r\<rparr>) = Some ?h3" using nz z(1) by (simp add: jset_Some del: fun_upd_apply)
    moreover have "dseg ?h3 r zs 0" using dseg_prv [of ?h2 x z zs' 0 nz r] d2(2) Cons nz z by simp
    moreover have "dseg ?h3 p ys x" using d2(1) z(5) by (simp add: dseg_frame)
    moreover have "only_changes h ?h3 ?S"
    proof (rule only_changes_trans [OF o2])
      show "only_changes ?h2 ?h3 ?S" using nz Cons by (intro only_changes_upd) simp_all
    qed
    moreover have "?h3 a = Some n" "?h3 x = Some nx" "?h3 r = Some ?r2" using a(1) assms(3,6) x z by simp_all
    ultimately show ?thesis using that [of ?h3] nexteq z(1) by (simp del: fun_upd_apply fun_upd_upd)
  qed
  have finish: "\<exists>h'. cJSON_ReplaceItemViaPointer E h a x r = map_option (Pair True) (cJSON_Delete E h' x) \<and> kids h' a (ys @ r # zs) \<and>
      only_changes h h' ?S \<and> h' x = Some (nx\<lparr>nxt := 0, prv := 0\<rparr>)"
    if mid: "relink_parent h3 a x r = Some h4" and h4: "kids h4 a (ys @ r # zs)" "only_changes h3 h4 ?S" "h4 x = Some nx" for h4
  proof -
    let ?h5 = "h4(x \<mapsto> nx\<lparr>nxt := 0\<rparr>)"
    let ?h6 = "?h5(x \<mapsto> nx\<lparr>nxt := 0, prv := 0\<rparr>)"
    have t: "jset h4 x (\<lambda>i. i\<lparr>nxt := 0\<rparr>) = Some ?h5" "jset ?h5 x (\<lambda>i. i\<lparr>prv := 0\<rparr>) = Some ?h6"
      using h4(3) x(1) by (simp_all add: heap_simps)
    have eq: "cJSON_ReplaceItemViaPointer E h a x r = map_option (Pair True) (cJSON_Delete E ?h6 x)"
      unfolding cJSON_ReplaceItemViaPointer_def
      using s2(1-4) h3 mid t a(3) assms(2) x(1,3) by (simp add: map_option_case del: fun_upd_apply fun_upd_upd split: option.split)
    have k: "kids ?h6 a (ys @ r # zs)"
    proof -
      have "dseg ?h6 q (ys @ r # zs) 0 = dseg h4 q (ys @ r # zs) 0" for q using x by (simp add: dseg_frame)
      then show ?thesis using h4(1) x(2) unfolding kids_def by simp
    qed
    have "only_changes h4 ?h6 ?S"
    proof (rule only_changes_trans)
      show "only_changes h4 ?h5 ?S" using h4(3) by (intro only_changes_upd) simp_all
      show "only_changes ?h5 ?h6 ?S" by (intro only_changes_upd) simp_all
    qed
    with only_changes_trans [OF only_changes_trans [OF o3 h4(2)]] have "only_changes h ?h6 ?S" .
    with eq k show ?thesis by (intro exI [of _ ?h6]) simp
  qed
  show ?thesis
  proof (cases ys rule: rev_cases)
    case Nil
    let ?r3 = "if p = x then ?r2\<lparr>prv := r\<rparr> else ?r2"
    let ?h31 = "h3(r \<mapsto> ?r3)"
    let ?h4 = "?h31(a \<mapsto> n\<lparr>chd := r\<rparr>)"
    have same: "p \<noteq> x \<Longrightarrow> ?h31 = h3" using k3(5) by auto
    have "jget h3 x = Some nx" "jget h3 r = Some ?r2" using k3 x(1) assms(2) by (simp_all add: jget_def)
    moreover have "(if p = x then jset h3 r (\<lambda>i. i\<lparr>prv := r\<rparr>) else Some h3) = Some ?h31"
      using same k3(5) assms(2) by (simp add: jset_Some)
    moreover have "jset ?h31 a (\<lambda>i. i\<lparr>chd := r\<rparr>) = Some ?h4" using k3(3) a(3) assms(3) by (simp add: jset_Some)
    moreover have "prv nx = p" "chd n = x" using D(2) a(2) Nil by simp_all
    ultimately have mid: "relink_parent h3 a x r = Some ?h4"
      using jget_Some [of h3 a n] k3(3) a(3) by (simp add: relink_parent_def del: fun_upd_apply)
    have zs: "p = x \<Longrightarrow> zs = []" using p x(1,5) by (auto simp: final_def split: if_splits)
    have "kids ?h4 a (ys @ r # zs)"
    proof (rule kidsI [of _ _ "n\<lparr>chd := r\<rparr>" _ "if p = x then r else p"])
      have "dseg ?h4 r zs 0" using k3(2) r(2) a(5) by (simp add: dseg_frame)
      then show "dseg ?h4 (if p = x then r else p) (ys @ r # zs) 0" using Nil assms(3) D(2,3) by simp
      show "(if p = x then r else p) = 0 \<or> (if p = x then r else p) = final 0 (ys @ r # zs)" using p zs Nil by (auto simp: final_def)
    qed (use a assms(2,3) r Nil in auto)
    moreover have "only_changes h3 ?h4 ?S"
    proof (rule only_changes_trans [of _ ?h31])
      show "only_changes h3 ?h31 ?S"
        using only_changes_upd(2) [of h3 r ?r2 ?S r] k3(5) same by (cases "p = x") simp_all
      show "only_changes ?h31 ?h4 ?S" using k3(3) assms(3) by (intro only_changes_upd) simp_all
    qed
    moreover have "?h4 x = Some nx" using k3(4) x(2,3) by simp
    ultimately show ?thesis using finish [OF mid] by blast
  next
    case (snoc us w)
    have "w \<in> set ys" using snoc by simp
    have "chd n \<in> set ys" unfolding a(2) using snoc by (intro first_in) simp
    then have w: "prv nx = w" "w \<noteq> 0" "w \<noteq> a" "w \<noteq> r" "w \<noteq> x" "w \<notin> set us" "w \<notin> set zs" "chd n \<noteq> x" "chd n \<noteq> 0" "chd n \<noteq> a" "chd n \<noteq> r"
      using D(2) a(4,5) r(1) snoc by auto
    obtain nw where nw: "h3 w = Some nw" using dseg_snoc k3(1) snoc by blast
    let ?h31 = "h3(w \<mapsto> nw\<lparr>nxt := r\<rparr>)"
    have d31: "dseg ?h31 p ys r" "dseg ?h31 r zs 0" "?h31 r = Some ?r2" "?h31 a = Some n" "?h31 x = Some nx"
      using dseg_nxt [of h3 p us w x nw r] k3 nw w snoc by (simp_all add: dseg_frame)
    have o31: "only_changes h3 ?h31 ?S" using nw \<open>w \<in> set ys\<close> by (intro only_changes_upd) simp_all
    obtain h4 where h4: "(if nxt ?r2 = 0 then set_head_prev ?h31 a r else Some ?h31) = Some h4"
      and k4: "dseg h4 (if zs = [] then r else p) ys r" "dseg h4 r zs 0" "h4 r = Some ?r2" "h4 a = Some n" "h4 x = Some nx"
      and o4: "only_changes ?h31 h4 ?S"
    proof (cases zs)
      case (Cons z zs')
      then have "nxt nx \<noteq> 0" using D(3) a(4) by simp
      then show ?thesis using that [of ?h31] d31 Cons by (simp del: fun_upd_apply)
    next
      case Nil
      have "ys \<noteq> []" using snoc by simp
      then obtain c cs where c: "ys = c # cs" unfolding neq_Nil_conv by blast
      then obtain nc where nc: "?h31 c = Some nc" using dseg_head d31(1) by blast
      have cn: "chd n = c" "c \<notin> set cs" "c \<noteq> x" using a(2,5) c by auto
      let ?h4 = "?h31(c \<mapsto> nc\<lparr>prv := r\<rparr>)"
      have "set_head_prev ?h31 a r = Some ?h4"
        using nc w(9) cn(1) d31(4) a(3) by (simp add: set_head_prev_def jget_Some jset_Some del: fun_upd_apply)
      moreover have "nxt nx = 0" using D(3) Nil by simp
      moreover have "dseg ?h4 r ys r" using dseg_prv [of ?h31 p c cs r nc r] d31(1) nc c cn(2) by (simp del: fun_upd_apply)
      moreover have "?h4 r = Some ?r2" "?h4 a = Some n" "?h4 x = Some nx" using d31(3-5) w(10,11) cn by simp_all
      moreover have "only_changes ?h31 ?h4 ?S" using nc c by (intro only_changes_upd) simp_all
      ultimately show ?thesis using that [of ?h4] Nil by (simp del: fun_upd_apply)
    qed
    have "jget h3 r = Some ?r2" "jget ?h31 r = Some ?r2" using k3(5) d31(3) assms(2) by (simp_all add: jget_def)
    moreover have "jset h3 w (\<lambda>i. i\<lparr>nxt := r\<rparr>) = Some ?h31" using nw w(2) by (rule jset_Some)
    ultimately have mid: "relink_parent h3 a x r = Some h4"
      using jget_Some [of h3 a n] k3(3) a(3) h4 w(1,2,8) by (simp add: relink_parent_def del: fun_upd_apply)
    have "kids h4 a (ys @ r # zs)"
    proof (rule kidsI [of _ _ n _ "if zs = [] then r else p"])
      have "final q ys = w" for q using snoc by (simp add: final_def)
      moreover have "dseg h4 w (r # zs) 0" using k4(2,3) D(3) w(1) by simp
      ultimately show "dseg h4 (if zs = [] then r else p) (ys @ r # zs) 0" using k4(1) unfolding dseg_append first_simps by simp
      show "chd n = first (ys @ r # zs) 0" using a(2) first_cong [of ys x r] snoc by simp
      show "(if zs = [] then r else p) = 0 \<or> (if zs = [] then r else p) = final 0 (ys @ r # zs)" using p by (auto simp: final_def)
    qed (use a assms(2,3) r k4(4) in auto)
    with finish [OF mid] only_changes_trans [OF o31 o4] k4(5) show ?thesis by blast
  qed
qed

section \<open>Sequences of operations\<close>

text \<open>
  The contract of a list of children towards its users: a state stands for a list of items, an item
  in no list can be appended or inserted, an item of the list can be detached and is free again.
\<close>

datatype list_op = Append nat | Insert nat nat | Detach nat

fun run_list :: "('s \<Rightarrow> nat \<Rightarrow> (bool \<times> 's) option) \<Rightarrow> ('s \<Rightarrow> int \<Rightarrow> nat \<Rightarrow> (bool \<times> 's) option) \<Rightarrow>
    ('s \<Rightarrow> int \<Rightarrow> (nat \<times> 's) option) \<Rightarrow> list_op list \<Rightarrow> 's \<Rightarrow> 's option" where
  "run_list app ins det [] s = Some s"
| "run_list app ins det (Append x # ops) s = do { (ok, s1) \<leftarrow> app s x; if ok then run_list app ins det ops s1 else None }"
| "run_list app ins det (Insert i x # ops) s = do { (ok, s1) \<leftarrow> ins s (int i) x; if ok then run_list app ins det ops s1 else None }"
| "run_list app ins det (Detach i # ops) s = do { (x, s1) \<leftarrow> det s (int i); if x \<noteq> 0 then run_list app ins det ops s1 else None }"

fun spec_list :: "list_op list \<Rightarrow> nat list \<times> nat set \<Rightarrow> (nat list \<times> nat set) option" where
  "spec_list [] (xs, P) = Some (xs, P)"
| "spec_list (Append x # ops) (xs, P) = (if x \<in> P then spec_list ops (xs @ [x], P - {x}) else None)"
| "spec_list (Insert i x # ops) (xs, P) = (if x \<in> P then spec_list ops (take i xs @ x # drop i xs, P - {x}) else None)"
| "spec_list (Detach i # ops) (xs, P) =
     (if i < length xs then spec_list ops (take i xs @ drop (Suc i) xs, insert (xs ! i) P) else None)"

locale child_sequence =
  fixes rep :: "'s \<Rightarrow> nat list \<Rightarrow> bool"
    and unused :: "'s \<Rightarrow> nat list \<Rightarrow> nat \<Rightarrow> bool"
    and app :: "'s \<Rightarrow> nat \<Rightarrow> (bool \<times> 's) option"
    and ins :: "'s \<Rightarrow> int \<Rightarrow> nat \<Rightarrow> (bool \<times> 's) option"
    and det :: "'s \<Rightarrow> int \<Rightarrow> (nat \<times> 's) option"
  assumes app_law: "rep s xs \<Longrightarrow> unused s xs x \<Longrightarrow>
      \<exists>s'. app s x = Some (True, s') \<and> rep s' (xs @ [x]) \<and> (\<forall>y. y \<noteq> x \<longrightarrow> unused s xs y \<longrightarrow> unused s' (xs @ [x]) y)"
    and ins_law: "rep s xs \<Longrightarrow> unused s xs x \<Longrightarrow>
      \<exists>s'. ins s (int i) x = Some (True, s') \<and> rep s' (take i xs @ x # drop i xs) \<and>
        (\<forall>y. y \<noteq> x \<longrightarrow> unused s xs y \<longrightarrow> unused s' (take i xs @ x # drop i xs) y)"
    and det_law: "rep s xs \<Longrightarrow> i < length xs \<Longrightarrow>
      \<exists>s'. det s (int i) = Some (xs ! i, s') \<and> xs ! i \<noteq> 0 \<and> rep s' (take i xs @ drop (Suc i) xs) \<and>
        (\<forall>y. y = xs ! i \<or> unused s xs y \<longrightarrow> unused s' (take i xs @ drop (Suc i) xs) y)"
begin

lemma run_refines:
  "rep s xs \<Longrightarrow> \<forall>x \<in> P. unused s xs x \<Longrightarrow> spec_list ops (xs, P) = Some (ys, Q) \<Longrightarrow>
   \<exists>s'. run_list app ins det ops s = Some s' \<and> rep s' ys \<and> (\<forall>x \<in> Q. unused s' ys x)"
proof (induction ops arbitrary: s xs P)
  case (Cons p ops)
  show ?case
  proof (cases p)
    case (Append x)
    with Cons.prems have "x \<in> P" by (auto split: if_splits)
    with Cons.prems(2) app_law [OF Cons.prems(1), of x] obtain s1 where s1: "app s x = Some (True, s1)" "rep s1 (xs @ [x])"
      "\<forall>y. y \<noteq> x \<longrightarrow> unused s xs y \<longrightarrow> unused s1 (xs @ [x]) y" by blast
    with Cons.IH [OF s1(2), of "P - {x}"] Cons.prems Append show ?thesis by (auto split: if_splits)
  next
    case (Insert i x)
    with Cons.prems have "x \<in> P" by (auto split: if_splits)
    with Cons.prems(2) ins_law [OF Cons.prems(1), of x i] obtain s1 where s1: "ins s (int i) x = Some (True, s1)"
      "rep s1 (take i xs @ x # drop i xs)" "\<forall>y. y \<noteq> x \<longrightarrow> unused s xs y \<longrightarrow> unused s1 (take i xs @ x # drop i xs) y" by blast
    with Cons.IH [OF s1(2), of "P - {x}"] Cons.prems Insert show ?thesis by (auto split: if_splits)
  next
    case (Detach i)
    with Cons.prems have "i < length xs" by (auto split: if_splits)
    with det_law [OF Cons.prems(1)] obtain s1 where s1: "det s (int i) = Some (xs ! i, s1)" "xs ! i \<noteq> 0"
      "rep s1 (take i xs @ drop (Suc i) xs)" "\<forall>y. y = xs ! i \<or> unused s xs y \<longrightarrow> unused s1 (take i xs @ drop (Suc i) xs) y" by blast
    with Cons.IH [OF s1(3), of "insert (xs ! i) P"] Cons.prems Detach show ?thesis by (auto split: if_splits)
  qed
qed simp

end

lemma spare_keep:
  assumes "spare h a xs y" and "only_changes h h' S" and "y \<notin> S" and "y \<notin> set ys"
  shows "spare h' a ys y"
  using assms by (auto simp: spare_def only_changes_def)

definition array_rep :: "items \<Rightarrow> nat \<Rightarrow> items \<Rightarrow> nat list \<Rightarrow> bool" where
  "array_rep h0 a h xs \<longleftrightarrow> kids h a xs \<and> same_values h0 h"

lemma spare_ne: "spare h a xs y \<Longrightarrow> y \<noteq> a \<and> y \<notin> set xs"
  by (simp add: spare_def)

lemma array_app:
  assumes "array_rep h0 a h xs" and "spare h a xs x"
  shows "\<exists>h'. cJSON_AddItemToArray h a x = Some (True, h') \<and> array_rep h0 a h' (xs @ [x]) \<and>
    (\<forall>y. y \<noteq> x \<longrightarrow> spare h a xs y \<longrightarrow> spare h' a (xs @ [x]) y)"
proof -
  obtain h' where "add_item_to_array h a x = Some (True, h')" "kids h' a (xs @ [x])" and oc: "only_changes h h' (set (a # x # xs))"
    using add_spec [OF _ assms(2)] assms(1) unfolding array_rep_def by blast
  moreover have "same_values h0 h'" using oc assms(1) by (auto simp: only_changes_def array_rep_def intro: same_values_trans)
  moreover have "\<forall>y. y \<noteq> x \<longrightarrow> spare h a xs y \<longrightarrow> spare h' a (xs @ [x]) y"
    using spare_keep [OF _ oc] spare_ne [of h a xs] by simp
  ultimately show ?thesis by (simp add: cJSON_AddItemToArray_def array_rep_def)
qed

lemma array_ins:
  assumes "array_rep h0 a h xs" and "spare h a xs x"
  shows "\<exists>h'. cJSON_InsertItemInArray h a (int i) x = Some (True, h') \<and> array_rep h0 a h' (take i xs @ x # drop i xs) \<and>
    (\<forall>y. y \<noteq> x \<longrightarrow> spare h a xs y \<longrightarrow> spare h' a (take i xs @ x # drop i xs) y)"
proof (cases "i < length xs")
  case True
  then have xs: "xs = take i xs @ xs ! i # drop (Suc i) xs" by (rule id_take_nth_drop)
  have i: "length (take i xs) = i" using True by simp
  have k: "kids h a (take i xs @ xs ! i # drop (Suc i) xs)" "spare h a (take i xs @ xs ! i # drop (Suc i) xs) x"
    using assms xs by (simp_all add: array_rep_def)
  obtain h' where "cJSON_InsertItemInArray h a (int i) x = Some (True, h')" "kids h' a (take i xs @ x # xs ! i # drop (Suc i) xs)"
    and oc: "only_changes h h' (set (a # x # take i xs @ xs ! i # drop (Suc i) xs))"
    using insert_spec [OF k] unfolding i by blast
  moreover have "xs ! i # drop (Suc i) xs = drop i xs" using True by (rule Cons_nth_drop_Suc)
  moreover have "set (take i xs @ drop i xs) = set xs" by simp
  moreover have "same_values h0 h'" using oc assms(1) by (auto simp: only_changes_def array_rep_def intro: same_values_trans)
  moreover have oc': "only_changes h h' (set (a # x # xs))" using oc xs by metis
  have "spare h' a (take i xs @ x # drop i xs) y" if "y \<noteq> x" "spare h a xs y" for y
    using that(1) spare_ne [OF that(2)] by (intro spare_keep [OF that(2) oc']) (auto dest: in_set_takeD in_set_dropD)
  ultimately show ?thesis by (simp add: array_rep_def)
next
  case False
  then have "get_array_item h a i = Some 0" using get_array_item_spec [of h a xs i] assms(1) by (simp add: array_rep_def)
  then have "cJSON_InsertItemInArray h a (int i) x = cJSON_AddItemToArray h a x"
    by (simp add: cJSON_InsertItemInArray_def cJSON_AddItemToArray_def)
  with array_app [OF assms] False show ?thesis by simp
qed

lemma array_det:
  assumes "array_rep h0 a h xs" and "i < length xs"
  shows "\<exists>h'. cJSON_DetachItemFromArray h a (int i) = Some (xs ! i, h') \<and> xs ! i \<noteq> 0 \<and> array_rep h0 a h' (take i xs @ drop (Suc i) xs) \<and>
    (\<forall>y. y = xs ! i \<or> spare h a xs y \<longrightarrow> spare h' a (take i xs @ drop (Suc i) xs) y)"
proof -
  have xs: "xs = take i xs @ xs ! i # drop (Suc i) xs" using assms(2) by (rule id_take_nth_drop)
  have k: "kids h a (take i xs @ xs ! i # drop (Suc i) xs)" using assms(1) xs by (simp add: array_rep_def)
  obtain h' where d: "cJSON_DetachItemViaPointer h a (xs ! i) = Some (xs ! i, h')" "kids h' a (take i xs @ drop (Suc i) xs)"
    "spare h' a (take i xs @ drop (Suc i) xs) (xs ! i)" and oc: "only_changes h h' (set (a # take i xs @ xs ! i # drop (Suc i) xs))"
    using detach_spec [OF k] by blast
  have "cJSON_DetachItemFromArray h a (int i) = Some (xs ! i, h')"
    using d(1) get_array_item_spec [of h a xs i] assms by (simp add: cJSON_DetachItemFromArray_def array_rep_def)
  moreover have "xs ! i \<noteq> 0" using d(3) by (simp add: spare_def)
  moreover have "same_values h0 h'" using oc assms(1) by (auto simp: only_changes_def array_rep_def intro: same_values_trans)
  moreover have oc': "only_changes h h' (set (a # xs))" using oc xs by metis
  have "spare h' a (take i xs @ drop (Suc i) xs) y" if "spare h a xs y" for y
    using spare_ne [OF that] by (intro spare_keep [OF that oc']) (auto dest: in_set_takeD in_set_dropD)
  ultimately show ?thesis using d(2,3) by (auto simp: array_rep_def)
qed

interpretation json_array: child_sequence "array_rep h0 a" "\<lambda>h. spare h a" "\<lambda>h. cJSON_AddItemToArray h a"
  "\<lambda>h. cJSON_InsertItemInArray h a" "\<lambda>h. cJSON_DetachItemFromArray h a" for h0 :: items and a :: nat
  by unfold_locales (fact array_app, fact array_ins, fact array_det)

section \<open>Keys\<close>

declare cmp_loop.simps [simp del]

lemma uint_byte_eq: "uint x = uint y \<longleftrightarrow> x = y" for x y :: u8
  by (metis word_of_int_uint)

lemma cmp_loop_spec:
  assumes "\<And>b. f b = 0 \<longleftrightarrow> b = (0 :: u8)" and "length xs = length ys" and "0 \<notin> set s" and "0 \<notin> set t"
  shows "\<exists>k. cmp_loop f (xs @ s @ 0 # r) (ys @ t @ 0 # q) (length xs) = Some k \<and> (k = 0 \<longleftrightarrow> map f s = map f t)"
  using assms(2-)
proof (induction s arbitrary: t xs ys)
  case Nil
  show ?case
  proof (cases t)
    case (Cons b t')
    then have "f 0 \<noteq> f b" using Nil.prems(3) assms(1) by (metis list.set_intros(1))
    then show ?thesis using Nil Cons by (subst cmp_loop.simps) (simp add: byte_at_def nth_append uint_byte_eq)
  qed (use Nil in \<open>subst cmp_loop.simps, simp add: byte_at_def nth_append\<close>)
next
  case (Cons a s)
  then have a: "a \<noteq> 0" by auto
  show ?case
  proof (cases t)
    case Nil
    then have "f a \<noteq> f 0" using a assms(1) by metis
    then show ?thesis using Cons Nil by (subst cmp_loop.simps) (simp add: byte_at_def nth_append uint_byte_eq)
  next
    case t: (Cons b t')
    have ih: "\<exists>k. cmp_loop f ((xs @ [a]) @ s @ 0 # r) ((ys @ [b]) @ t' @ 0 # q) (length (xs @ [a])) = Some k \<and>
        (k = 0 \<longleftrightarrow> map f s = map f t')"
      by (rule Cons.IH) (use Cons.prems t in auto)
    show ?thesis
    proof (cases "f a = f b")
      case True
      with ih a Cons.prems t show ?thesis by (subst cmp_loop.simps) (simp add: byte_at_def nth_append uint_byte_eq)
    next
      case False
      with Cons.prems t show ?thesis by (subst cmp_loop.simps) (simp add: byte_at_def nth_append uint_byte_eq)
    qed
  qed
qed

lemma tolower_zero: "c_tolower b = 0 \<longleftrightarrow> b = 0"
proof -
  have "list_all (\<lambda>n. c_tolower (of_nat n) = 0 \<longleftrightarrow> (of_nat n :: u8) = 0) [0..<256]" by code_simp
  then show ?thesis by (rule all_bytes)
qed

text \<open>A stored string, and when the key of an item is the name that is looked for.\<close>

definition terminated :: "u8 list \<Rightarrow> bool" where
  "terminated s \<longleftrightarrow> 0 \<in> set s"

definition fold_case :: "bool \<Rightarrow> u8 \<Rightarrow> u8" where
  "fold_case case_sensitive b = (if case_sensitive then b else c_tolower b)"

definition key_matches :: "bool \<Rightarrow> u8 list \<Rightarrow> item \<Rightarrow> bool" where
  "key_matches case_sensitive name x =
     (case item_string x of None \<Rightarrow> False
      | Some s \<Rightarrow> map (fold_case case_sensitive) (c_string name) = map (fold_case case_sensitive) (c_string s))"

lemma terminated_split: "terminated s \<Longrightarrow> \<exists>r. s = c_string s @ 0 # r \<and> 0 \<notin> set (c_string s)"
proof (induction s)
  case (Cons b s)
  then show ?case by (cases "b = 0") (auto simp: c_string_def terminated_def)
qed (simp add: terminated_def)

lemma key_differs_spec:
  assumes "terminated name" and "terminated s"
  shows "key_differs cs name (Some s) = Some (map (fold_case cs) (c_string name) \<noteq> map (fold_case cs) (c_string s))"
proof -
  obtain r q where e: "name = c_string name @ 0 # r" "0 \<notin> set (c_string name)" "s = c_string s @ 0 # q" "0 \<notin> set (c_string s)"
    using terminated_split [OF assms(1)] terminated_split [OF assms(2)] by blast
  have "\<exists>k. cmp_loop f name s 0 = Some k \<and> (k = 0 \<longleftrightarrow> map f (c_string name) = map f (c_string s))"
    if "\<And>b. f b = 0 \<longleftrightarrow> b = 0" for f
    using cmp_loop_spec [of f "[]" "[]" "c_string name" "c_string s" r q] that e by (metis append_Nil list.size(3))
  moreover have "fold_case True = (\<lambda>b. b)" "fold_case False = c_tolower" by (simp_all add: fold_case_def fun_eq_iff)
  ultimately show ?thesis
    using tolower_zero by (cases cs) (force simp: key_differs_def c_strcmp_def case_insensitive_strcmp_def)+
qed

text \<open>The children of an object: every one has a key.\<close>

definition has_keys :: "items \<Rightarrow> nat list \<Rightarrow> bool" where
  "has_keys h xs \<longleftrightarrow> (\<forall>x \<in> set xs. case h x of None \<Rightarrow> False
     | Some n \<Rightarrow> (case item_string n of None \<Rightarrow> False | Some s \<Rightarrow> terminated s))"

definition matching :: "items \<Rightarrow> bool \<Rightarrow> u8 list \<Rightarrow> nat \<Rightarrow> bool" where
  "matching h cs name x = (case h x of None \<Rightarrow> False | Some n \<Rightarrow> key_matches cs name n)"

lemma find_loop_spec:
  assumes "terminated name" and "dseg h p xs 0" and "0 \<notin> set xs" and "has_keys h xs"
  shows "find_loop h cs name (first xs 0) = Some (case find (matching h cs name) xs of None \<Rightarrow> 0 | Some x \<Rightarrow> x)"
  using assms(2-)
proof (induction xs arbitrary: p)
  case Nil
  then show ?case by (subst find_loop.simps) simp
next
  case (Cons x xs)
  then obtain n s where n: "h x = Some n" "nxt n = first xs 0" "dseg h x xs 0" "item_string n = Some s" "terminated s"
    by (auto simp: has_keys_def split: option.splits)
  have d: "key_differs cs name (item_string n) = Some (\<not> matching h cs name x)"
    using key_differs_spec [OF assms(1) n(5)] n by (simp add: matching_def key_matches_def)
  have "has_keys h xs" using Cons.prems by (simp add: has_keys_def)
  with Cons.IH [OF n(3)] Cons.prems n d show ?case by (subst find_loop.simps) (simp add: heap_simps)
qed

lemma get_object_item_spec:
  assumes "kids h a xs" and "has_keys h xs" and "terminated name"
  shows "get_object_item h a (Some name) cs = Some (case find (matching h cs name) xs of None \<Rightarrow> 0 | Some x \<Rightarrow> x)"
proof -
  obtain n p where a: "h a = Some n" "chd n = first xs 0" "a \<noteq> 0" "0 \<notin> set xs" "dseg h p xs 0"
    using assms(1) by (rule kidsE)
  have f: "find_loop h cs name (chd n) = Some (case find (matching h cs name) xs of None \<Rightarrow> 0 | Some x \<Rightarrow> x)"
    unfolding a(2) using assms(3) a(5,4) assms(2) by (rule find_loop_spec)
  show ?thesis
  proof (cases "find (matching h cs name) xs")
    case None
    with f a show ?thesis by (simp add: get_object_item_def heap_simps)
  next
    case (Some x)
    then have x: "x \<in> set xs" by (auto simp: find_Some_iff)
    then obtain m s where "h x = Some m" "item_string m = Some s" using assms(2) by (fastforce simp: has_keys_def split: option.splits)
    moreover have "x \<noteq> 0" using x a(4) by metis
    ultimately show ?thesis using f a Some by (simp add: get_object_item_def heap_simps)
  qed
qed

section \<open>Properties\<close>

text \<open>An array with the children 2 and 3, and two items that are in no list.\<close>

definition demo_items :: items where
  "demo_items = (\<lambda>_. None)(1 \<mapsto> null_item\<lparr>chd := 2\<rparr>, 2 \<mapsto> null_item\<lparr>nxt := 3, prv := 3, item_string := Some [97, 0]\<rparr>,
     3 \<mapsto> null_item\<lparr>prv := 2, item_string := Some [66, 0]\<rparr>, 4 \<mapsto> null_item, 5 \<mapsto> null_item)"

lemma demo_kids: "kids demo_items 1 [2, 3]"
  by (simp add: kids_def demo_items_def null_item_def final_def)

lemma demo_spare: "spare demo_items 1 [2, 3] 4" "spare demo_items 1 [2, 3] 5"
  by (simp_all add: spare_def demo_items_def null_item_def)

text \<open>
  C28. The children of an array are a list: any sequence of additions, insertions and detachments that
  is possible on lists runs on the linked items without an invalid access, and the children are
  then the list that the same sequence gives on lists, with the size and the items the look-up
  functions return. Insertion behind the end appends. Detached items can be added again, and the
  values of all items stay the same.
\<close>

theorem children_refine:
  assumes "kids h a xs" and "\<forall>x \<in> P. spare h a xs x" and "spec_list ops (xs, P) = Some (ys, Q)"
  shows "\<exists>h'. run_list (\<lambda>h. cJSON_AddItemToArray h a) (\<lambda>h. cJSON_InsertItemInArray h a) (\<lambda>h. cJSON_DetachItemFromArray h a) ops h = Some h' \<and>
    kids h' a ys \<and> (\<forall>x \<in> Q. spare h' a ys x) \<and> same_values h h' \<and>
    cJSON_GetArraySize h' a = Some (sint (of_nat (length ys) :: u32)) \<and>
    (\<forall>i. cJSON_GetArrayItem h' a i = Some (if 0 \<le> i \<and> i < int (length ys) then ys ! nat i else 0))"
proof -
  have "array_rep h a h xs" using assms(1) by (simp add: array_rep_def)
  from json_array.run_refines [OF this assms(2,3)] obtain h' where
    h': "run_list (\<lambda>h. cJSON_AddItemToArray h a) (\<lambda>h. cJSON_InsertItemInArray h a) (\<lambda>h. cJSON_DetachItemFromArray h a) ops h = Some h'"
      "kids h' a ys" "\<forall>x \<in> Q. spare h' a ys x" "same_values h h'" by (auto simp: array_rep_def)
  moreover have "cJSON_GetArraySize h' a = Some (sint (of_nat (length ys) :: u32))"
    using h'(2) by (elim kidsE) (simp add: cJSON_GetArraySize_def heap_simps size_loop_spec)
  moreover have "cJSON_GetArrayItem h' a i = Some (if 0 \<le> i \<and> i < int (length ys) then ys ! nat i else 0)" for i
    using get_array_item_spec [OF h'(2), of "nat i"] by (auto simp: cJSON_GetArrayItem_def)
  ultimately show ?thesis by blast
qed

theorem children_refine_witness:
  "\<exists>h'. run_list (\<lambda>h. cJSON_AddItemToArray h 1) (\<lambda>h. cJSON_InsertItemInArray h 1) (\<lambda>h. cJSON_DetachItemFromArray h 1)
      [Append 4, Detach 0, Insert 1 2] demo_items = Some h' \<and>
    kids h' 1 [3, 2, 4] \<and> (\<forall>x \<in> {5}. spare h' 1 [3, 2, 4] x) \<and> same_values demo_items h' \<and>
    cJSON_GetArraySize h' 1 = Some (sint (of_nat (length [3, 2, 4 :: nat]) :: u32)) \<and>
    (\<forall>i. cJSON_GetArrayItem h' 1 i = Some (if 0 \<le> i \<and> i < int (length [3, 2, 4 :: nat]) then [3, 2, 4] ! nat i else 0))"
proof (rule children_refine)
  show "kids demo_items 1 [2, 3]" by (rule demo_kids)
  show "\<forall>x \<in> {4, 5}. spare demo_items 1 [2, 3] x" using demo_spare by simp
  have "{4, 5} - {4} = {5 :: nat}" "insert 2 {5} - {2} = {5 :: nat}" by auto
  then show "spec_list [Append 4, Detach 0, Insert 1 2] ([2, 3], {4, 5}) = Some ([3, 2, 4], {5})" by simp
qed

definition demo_env :: cjson_env where
  "demo_env = \<lparr>env_h = demo_h, env_hooks = demo_hooks, env_new = (\<lambda>h. if h 9 = None then 9 else 0),
     env_ge_max = (\<lambda>_. False), env_le_min = (\<lambda>_. False), env_to_int = (\<lambda>_. 0)\<rparr>"

text \<open>
  C30. Looking up a key in an object returns the first child with that key, compared byte by byte or
  without regard to case, and the null pointer when there is none; no access leaves the items.
\<close>

theorem object_lookup:
  assumes "kids h a xs" and "has_keys h xs" and "terminated name"
  shows "get_object_item h a (Some name) cs = Some (case find (matching h cs name) xs of None \<Rightarrow> 0 | Some x \<Rightarrow> x)"
  using assms by (rule get_object_item_spec)

theorem object_lookup_witness:
  "get_object_item demo_items 1 (Some [98, 0]) False =
    Some (case find (matching demo_items False [98, 0]) [2, 3] of None \<Rightarrow> 0 | Some x \<Rightarrow> x)"
  by (rule object_lookup [OF demo_kids]) (simp_all add: has_keys_def terminated_def demo_items_def null_item_def)

text \<open>
  \<open>cJSON_InsertItemInArray\<close> does not check its new item: with a null pointer and a position inside
  the list it dereferences the null pointer, while \<open>cJSON_AddItemToArray\<close> reports the failure.
\<close>

lemma insert_null:
  assumes "kids h a xs" and "i < length xs"
  shows "cJSON_InsertItemInArray h a (int i) 0 = None \<and> cJSON_AddItemToArray h a 0 = Some (False, h)"
proof -
  have "xs ! i \<noteq> 0" using assms by (auto elim!: kidsE simp: in_set_conv_nth)
  moreover have "get_array_item h a i = Some (xs ! i)" using get_array_item_spec [OF assms(1)] assms(2) by simp
  ultimately show ?thesis
    by (simp add: cJSON_InsertItemInArray_def cJSON_AddItemToArray_def add_item_to_array_def jset_def jget_def)
qed

end
