(* ===== verification/Cjson_Tree.thy ===== *)
theory Cjson_Tree
  imports Cjson_List
begin

text \<open>
  Trees of items of \<open>src/cJSON/demo1/cJSON.c\<close>: which trees a heap holds, the JSON value such a tree
  stands for, and the release of a tree by \<open>cJSON_Delete\<close>. The parser, the printer and the copying
  functions are specified with these notions.
\<close>

unbundle bit_operations_syntax

section \<open>Owned trees\<close>

text \<open>
  The addresses of a tree of items. \<open>own\<close> says that the heap holds the tree: the children of each item
  are linked as the operations of \<open>Cjson_List\<close> keep them, and no item is a reference.
\<close>

datatype atree = Nd (root: nat) (subs: "atree list")

fun addrs :: "atree \<Rightarrow> nat list" where
  "addrs (Nd p ts) = p # concat (map addrs ts)"

abbreviation forest_addrs :: "atree list \<Rightarrow> nat list" where
  "forest_addrs ts \<equiv> concat (map addrs ts)"

definition not_reference :: "cjson_h \<Rightarrow> items \<Rightarrow> nat \<Rightarrow> bool" where
  "not_reference H h p \<longleftrightarrow> (case h p of None \<Rightarrow> False | Some x \<Rightarrow> item_type x AND cJSON_IsReference H = 0)"

fun own :: "cjson_h \<Rightarrow> items \<Rightarrow> atree \<Rightarrow> bool" where
  "own H h (Nd p ts) \<longleftrightarrow> kids h p (map root ts) \<and> not_reference H h p \<and> list_all (own H h) ts"

text \<open>The JSON values, and the value a tree of items stands for.\<close>

datatype json = JNull | JFalse | JTrue | JNumber u64 | JString "u8 list" | JArray "json list" | JObject "(u8 list \<times> json) list"

fun json_depth :: "json \<Rightarrow> nat" where
  "json_depth (JArray vs) = Suc (fold max (map json_depth vs) 0)"
| "json_depth (JObject kvs) = Suc (fold max (map (\<lambda>kv. json_depth (snd kv)) kvs) 0)"
| "json_depth _ = 0"

definition c_text :: "u8 list \<Rightarrow> u8 list option" where
  "c_text s = (if 0 \<in> set s then Some (c_string s) else None)"

definition key_at :: "items \<Rightarrow> nat \<Rightarrow> u8 list option" where
  "key_at h p = do { x \<leftarrow> h p; s \<leftarrow> item_string x; c_text s }"

definition scalar_json :: "cjson_h \<Rightarrow> item \<Rightarrow> json option" where
  "scalar_json H x =
     (let ty = item_type x AND 0xFF in
      if ty = cJSON_NULL H then Some JNull
      else if ty = cJSON_False H then Some JFalse
      else if ty = cJSON_True H then Some JTrue
      else if ty = cJSON_Number H then Some (JNumber (valuedouble x))
      else if ty = cJSON_String H then map_option JString (do { s \<leftarrow> valuestring x; c_text s })
      else None)"

fun json_of :: "cjson_h \<Rightarrow> items \<Rightarrow> atree \<Rightarrow> json option" where
  "json_of H h (Nd p ts) = do {
     x \<leftarrow> h p;
     if item_type x AND 0xFF = cJSON_Array H then map_option JArray (those (map (json_of H h) ts))
     else if item_type x AND 0xFF = cJSON_Object H
     then do {
       ks \<leftarrow> those (map (\<lambda>t. key_at h (root t)) ts);
       vs \<leftarrow> those (map (json_of H h) ts);
       Some (JObject (zip ks vs))
     }
     else if ts = [] then scalar_json H x else None
   }"
lemma strlen_from: "0 \<notin> set s \<Longrightarrow> strlen_at (xs @ s @ 0 # r) (length xs) = Some (length s)"
proof (induction s arbitrary: xs)
  case Nil
  then show ?case by (subst strlen_at.simps) (simp add: byte_at_def)
next
  case (Cons b s)
  have "strlen_at (xs @ (b # s) @ 0 # r) (length xs + 1) = Some (length s)" using Cons.IH [of "xs @ [b]"] Cons.prems by simp
  moreover have "byte_at (xs @ (b # s) @ 0 # r) (length xs) = Some b" by (simp add: byte_at_def)
  ultimately show ?case using Cons.prems by (subst strlen_at.simps) simp
qed

lemma strlen_spec: "0 \<notin> set s \<Longrightarrow> strlen_at (s @ 0 # r) 0 = Some (length s)"
  using strlen_from [of s "[]" r] by simp

section \<open>Frame properties\<close>

lemma dseg_cong: "(\<And>y. y \<in> set xs \<Longrightarrow> h' y = h y) \<Longrightarrow> dseg h' p xs q = dseg h p xs q"
  by (induction xs arbitrary: p) (auto split: option.splits)

lemma kids_cong:
  assumes "\<And>y. y \<in> set (a # xs) \<Longrightarrow> h' y = h y"
  shows "kids h' a xs = kids h a xs"
proof -
  have "dseg h' p xs q = dseg h p xs q" for p q by (rule dseg_cong) (use assms in simp)
  with assms show ?thesis by (simp add: kids_def)
qed

lemma root_in_addrs: "root t \<in> set (addrs t)"
  by (cases t) simp

lemma roots_in_addrs: "set (map root ts) \<subseteq> set (forest_addrs ts)"
  using root_in_addrs by fastforce

lemma distinct_roots: "distinct (forest_addrs ts) \<Longrightarrow> distinct (map root ts)"
proof (induction ts)
  case (Cons t ts)
  then have "root t \<notin> set (forest_addrs ts)" using root_in_addrs [of t] by auto
  with Cons roots_in_addrs [of ts] show ?case by auto
qed simp

lemma own_cong: "(\<And>y. y \<in> set (addrs t) \<Longrightarrow> h' y = h y) \<Longrightarrow> own H h' t = own H h t"
proof (induction t)
  case (Nd p ts)
  have "kids h' p (map root ts) = kids h p (map root ts)"
    by (rule kids_cong) (use Nd.prems roots_in_addrs [of ts] in auto)
  moreover have "own H h' t = own H h t" if "t \<in> set ts" for t
    by (rule Nd.IH [OF that]) (use Nd.prems that in auto)
  ultimately show ?case using Nd.prems [of p] by (simp add: not_reference_def list_all_iff)
qed

lemma own_forest_cong:
  assumes "\<And>y. y \<in> set (forest_addrs ts) \<Longrightarrow> h' y = h y"
  shows "list_all (own H h') ts = list_all (own H h) ts"
proof -
  have "own H h' t = own H h t" if "t \<in> set ts" for t by (rule own_cong) (use assms that in auto)
  then show ?thesis by (simp add: list_all_iff)
qed

lemma key_at_cong: "h' p = h p \<Longrightarrow> key_at h' p = key_at h p"
  by (simp add: key_at_def)

lemma json_of_cong: "(\<And>y. y \<in> set (addrs t) \<Longrightarrow> h' y = h y) \<Longrightarrow> json_of H h' t = json_of H h t"
proof (induction t)
  case (Nd p ts)
  have v: "map (json_of H h') ts = map (json_of H h) ts"
    by (rule map_cong [OF refl], rule Nd.IH) (use Nd.prems in auto)
  have "key_at h' (root t) = key_at h (root t)" if "t \<in> set ts" for t
    by (rule key_at_cong, rule Nd.prems) (use that root_in_addrs [of t] in auto)
  then have k: "map (\<lambda>t. key_at h' (root t)) ts = map (\<lambda>t. key_at h (root t)) ts" by simp
  show ?case using Nd.prems [of p] by (simp only: json_of.simps v k) simp
qed

lemma own_root: "own H h t \<Longrightarrow> root t \<noteq> 0 \<and> h (root t) \<noteq> None"
  by (cases t) (auto simp: kids_def split: option.splits)

lemma own_in_heap: "own H h t \<Longrightarrow> y \<in> set (addrs t) \<Longrightarrow> h y \<noteq> None"
proof (induction t)
  case (Nd p ts)
  show ?case
  proof (cases "y = p")
    case True
    with own_root [OF Nd.prems(1)] show ?thesis by simp
  next
    case False
    with Nd.prems obtain t where "t \<in> set ts" "y \<in> set (addrs t)" "own H h t" by (auto simp: list_all_iff)
    with Nd.IH show ?thesis by blast
  qed
qed

section \<open>Release\<close>

lemma delete_null [simp]: "cJSON_Delete E h 0 = Some h"
  by (subst cJSON_Delete.simps) simp

lemma restrict_compl_cong: "y \<notin> A \<Longrightarrow> (h |` (- A)) y = h y"
  by (simp add: restrict_map_def)

text \<open>
  What \<open>cJSON_Delete\<close> releases: a tree whose items are linked, where an item that is a reference has no
  subtree here since its children belong to another item. An owned tree is the case without references.
\<close>

fun disposable :: "cjson_h \<Rightarrow> items \<Rightarrow> atree \<Rightarrow> bool" where
  "disposable H h (Nd p ts) \<longleftrightarrow> p \<noteq> 0 \<and> h p \<noteq> None \<and>
     (if not_reference H h p then kids h p (map root ts) \<and> list_all (disposable H h) ts else ts = [])"

lemma own_disposable: "own H h t \<Longrightarrow> disposable H h t"
proof (induction t)
  case (Nd p ts)
  with own_root [OF Nd.prems] show ?case by (simp add: list_all_iff)
qed

lemma disposable_cong: "(\<And>y. y \<in> set (addrs t) \<Longrightarrow> h' y = h y) \<Longrightarrow> disposable H h' t = disposable H h t"
proof (induction t)
  case (Nd p ts)
  have "kids h' p (map root ts) = kids h p (map root ts)"
    by (rule kids_cong) (use Nd.prems roots_in_addrs [of ts] in auto)
  moreover have "disposable H h' t = disposable H h t" if "t \<in> set ts" for t
    by (rule Nd.IH [OF that]) (use Nd.prems that in auto)
  ultimately show ?case using Nd.prems [of p] by (simp add: not_reference_def list_all_iff)
qed

lemma disposable_forest_cong:
  assumes "\<And>y. y \<in> set (forest_addrs ts) \<Longrightarrow> h' y = h y"
  shows "list_all (disposable H h') ts = list_all (disposable H h) ts"
proof -
  have "disposable H h' t = disposable H h t" if "t \<in> set ts" for t by (rule disposable_cong) (use assms that in auto)
  then show ?thesis by (simp add: list_all_iff)
qed

lemma release_forest:
  assumes "list_all (disposable (env_h E) h) ts" and "distinct (forest_addrs ts)" and "dseg h p (map root ts) 0"
  shows "cJSON_Delete E h (first (map root ts) 0) = Some (h |` (- set (forest_addrs ts)))"
  using assms
proof (induction "length (forest_addrs ts)" arbitrary: ts h p rule: less_induct)
  case less
  show ?case
  proof (cases ts)
    case Nil
    then show ?thesis by (simp add: restrict_map_def)
  next
    case (Cons t rest)
    obtain a cs where t: "t = Nd a cs" by (cases t)
    from less.prems Cons t have disp: "disposable (env_h E) h (Nd a cs)" and d: "distinct (a # forest_addrs cs @ forest_addrs rest)"
      by simp_all
    then obtain n where n: "h a = Some n" "a \<noteq> 0" by auto
    have nx: "nxt n = first (map root rest) 0" "dseg h a (map root rest) 0"
      using less.prems(3) Cons t n(1) by simp_all
    let ?h1 = "h |` (- set (forest_addrs cs))"
    have in1: "?h1 a = Some n" using d n(1) by (simp add: restrict_map_def)
    have h1: "(if item_type n AND cJSON_IsReference (env_h E) = 0 \<and> chd n \<noteq> 0 then cJSON_Delete E h (chd n) else Some h) = Some ?h1"
    proof (cases "not_reference (env_h E) h a")
      case True
      then have kids: "kids h a (map root cs)" and cs: "list_all (disposable (env_h E) h) cs" using disp by simp_all
      from kids obtain n' pr where "h a = Some n'" "chd n' = first (map root cs) 0" "dseg h pr (map root cs) 0" by (rule kidsE)
      with n(1) have c: "chd n = first (map root cs) 0" "dseg h pr (map root cs) 0" by simp_all
      have "cJSON_Delete E h (chd n) = Some ?h1" using less.hyps [OF _ cs _ c(2)] d Cons t c(1) by simp
      then show ?thesis using True n(1) by (auto simp: not_reference_def)
    next
      case False
      with disp n(1) show ?thesis by (simp add: not_reference_def restrict_map_def)
    qed
    let ?h2 = "?h1(a := None)"
    have same: "?h2 y = h y" if "y \<in> set (forest_addrs rest)" for y
      using that d by (auto simp: restrict_map_def)
    have rest: "cJSON_Delete E ?h2 (first (map root rest) 0) = Some (?h2 |` (- set (forest_addrs rest)))"
    proof (rule less.hyps)
      show "length (forest_addrs rest) < length (forest_addrs ts)" using Cons t by simp
      show "list_all (disposable (env_h E) ?h2) rest"
        using less.prems(1) Cons disposable_forest_cong [OF same] by simp
      show "distinct (forest_addrs rest)" using d by simp
      show "dseg ?h2 a (map root rest) 0"
        using nx(2) dseg_cong [of "map root rest" ?h2 h a 0] same roots_in_addrs [of rest] by blast
    qed
    have "cJSON_Delete E h a = cJSON_Delete E ?h2 (nxt n)"
    proof -
      have "cJSON_Delete E h a = do { h1 \<leftarrow> (if item_type n AND cJSON_IsReference (env_h E) = 0 \<and> chd n \<noteq> 0
          then cJSON_Delete E h (chd n) else Some h); h2 \<leftarrow> jfree h1 a; cJSON_Delete E h2 (nxt n) }"
        using n by (subst cJSON_Delete.simps) (simp add: jget_def)
      also have "\<dots> = cJSON_Delete E ?h2 (nxt n)"
        unfolding h1 using in1 n(2) by (simp add: jget_def jfree_def)
      finally show ?thesis .
    qed
    moreover have "?h2 |` (- set (forest_addrs rest)) = h |` (- set (forest_addrs ts))"
      using Cons t by (auto simp: restrict_map_def)
    ultimately show ?thesis using rest nx(1) Cons t by simp
  qed
qed

lemma delete_forest:
  assumes "list_all (own (env_h E) h) ts" and "distinct (forest_addrs ts)" and "dseg h p (map root ts) 0"
  shows "cJSON_Delete E h (first (map root ts) 0) = Some (h |` (- set (forest_addrs ts)))"
  using assms by (intro release_forest) (auto simp: list_all_iff own_disposable)

lemma release_tree:
  assumes "disposable (env_h E) h t" and "distinct (addrs t)" and "h (root t) = Some n" and "nxt n = 0"
  shows "cJSON_Delete E h (root t) = Some (h |` (- set (addrs t)))"
  using release_forest [of E h "[t]" "prv n"] assms by simp

lemma delete_tree:
  assumes "own (env_h E) h t" and "distinct (addrs t)" and "h (root t) = Some n" and "nxt n = 0"
  shows "cJSON_Delete E h (root t) = Some (h |` (- set (addrs t)))"
  using release_tree own_disposable assms by blast

section \<open>Replacement\<close>

text \<open>A tree stays disposable when the links of its root change and nothing below it does.\<close>

lemma disposable_unlinked:
  assumes "disposable H h (Nd x cs)" and "h x = Some nx" and "h' x = Some (nx\<lparr>nxt := b, prv := c\<rparr>)" and "x \<notin> set (forest_addrs cs)"
    and "\<And>y. y \<in> set (forest_addrs cs) \<Longrightarrow> h' y = h y"
  shows "disposable H h' (Nd x cs)"
proof -
  have "kids h' x (map root cs) = kids h x (map root cs)"
  proof -
    have "dseg h' p (map root cs) q = dseg h p (map root cs) q" for p q
      by (rule dseg_cong, rule assms(5)) (use roots_in_addrs [of cs] in blast)
    with assms(2,3) show ?thesis by (simp add: kids_def)
  qed
  moreover have "not_reference H h' x = not_reference H h x" using assms(2,3) by (simp add: not_reference_def)
  ultimately show ?thesis using assms(1,3) disposable_forest_cong [OF assms(5)] by simp
qed

lemma kids_restrict:
  assumes "kids h a xs" and "set (a # xs) \<inter> A = {}"
  shows "kids (h |` (- A)) a xs"
proof -
  have "(h |` (- A)) y = h y" if "y \<in> set (a # xs)" for y by (rule restrict_compl_cong) (use assms(2) that in blast)
  from kids_cong [of a xs, OF this] assms(1) show ?thesis by simp
qed

text \<open>
  C29. Replacing an item of a list: the new item takes its place, for the first, a middle, the last and the
  only child alike, and the old item is released with everything below it, whatever its depth; the children of an item
  that is a reference stay, since they belong to another item. Nothing outside the list, its parent, the new item and the
  released items changes, and the values of all items stay.
\<close>

theorem replace_item:
  assumes "kids h a xs" and "i < length xs" and "h r = Some nr" and "r \<noteq> 0" and "r \<notin> set (a # xs @ addrs t)"
    and "disposable (env_h E) h t" and "root t = xs ! i" and "distinct (addrs t)" and "set (addrs t) \<inter> set (a # xs) = {xs ! i}"
  shows "\<exists>h'. cJSON_ReplaceItemInArray E h a (int i) r = Some (True, h' |` (- set (addrs t))) \<and>
    kids (h' |` (- set (addrs t))) a (xs[i := r]) \<and> only_changes h h' (set (a # r # xs))"
proof -
  let ?x = "xs ! i"
  have xs: "xs = take i xs @ ?x # drop (Suc i) xs" using assms(2) by (rule id_take_nth_drop)
  have upd: "xs[i := r] = take i xs @ r # drop (Suc i) xs" using assms(2) by (rule upd_conv_take_nth_drop)
  have k: "kids h a (take i xs @ ?x # drop (Suc i) xs)" "r \<notin> set (take i xs @ ?x # drop (Suc i) xs)" using assms(1,5) xs by simp_all
  obtain cs where t: "t = Nd ?x cs" using assms(7) by (cases t) simp
  then obtain nx where nx: "h ?x = Some nx" using assms(6) by auto
  obtain h' where h': "cJSON_ReplaceItemViaPointer E h a ?x r = map_option (Pair True) (cJSON_Delete E h' ?x)"
    "kids h' a (xs[i := r])" "only_changes h h' (set (a # r # xs))" "h' ?x = Some (nx\<lparr>nxt := 0, prv := 0\<rparr>)"
    using replace_links [OF k(1) assms(4) _ k(2) assms(3) nx, of E] assms(5) xs upd by auto
  have same: "h' y = h y" if "y \<in> set (forest_addrs cs)" for y
  proof -
    have "y \<noteq> ?x" "y \<in> set (addrs t)" using assms(8) that t by auto
    then have "y \<notin> set (a # r # xs)" using assms(5,9) by auto
    with h'(3) show ?thesis unfolding only_changes_def by blast
  qed
  have "disposable (env_h E) h' t" using disposable_unlinked [OF assms(6) [unfolded t] nx h'(4) _ same] t assms(8) by simp
  then have "cJSON_Delete E h' ?x = Some (h' |` (- set (addrs t)))" using release_tree [of E h' t] assms(7,8) h'(4) by simp
  moreover have "get_array_item h a i = Some ?x" using get_array_item_spec [OF assms(1)] assms(2) by simp
  moreover have "kids (h' |` (- set (addrs t))) a (xs[i := r])"
  proof (rule kids_restrict [OF h'(2)])
    have "distinct xs" "a \<notin> set xs" using assms(1) by (simp_all add: kids_def)
    then have "set (xs[i := r]) = insert r (set xs - {?x})" "a \<noteq> ?x" using assms(2) by (auto simp: set_update_distinct)
    then show "set (a # xs[i := r]) \<inter> set (addrs t) = {}" using assms(5,9) by auto
  qed
  ultimately show ?thesis using h' by (auto simp: cJSON_ReplaceItemInArray_def)
qed

definition demo_nested :: items where
  "demo_nested = demo_items(2 \<mapsto> null_item\<lparr>nxt := 3, prv := 3, chd := 5\<rparr>)"

theorem replace_item_witness:
  "\<exists>h'. cJSON_ReplaceItemInArray demo_env demo_nested 1 (int 0) 4 = Some (True, h' |` (- set (addrs (Nd 2 [Nd 5 []])))) \<and>
    kids (h' |` (- set (addrs (Nd 2 [Nd 5 []])))) 1 ([2, 3][0 := 4]) \<and> only_changes demo_nested h' (set (1 # 4 # [2, 3]))"
proof (rule replace_item [where nr = null_item])
  show "kids demo_nested 1 [2, 3]" by (simp add: kids_def demo_nested_def demo_items_def null_item_def final_def)
  show "disposable (env_h demo_env) demo_nested (Nd 2 [Nd 5 []])"
    by (simp add: kids_def demo_nested_def demo_items_def null_item_def final_def not_reference_def demo_env_def demo_h_def)
qed (simp_all add: demo_nested_def demo_items_def)

section \<open>Values\<close>

text \<open>What the constants of \<open>cJSON.h\<close> promise: types are different values of the low byte, the marks are other bits.\<close>

definition types_ok :: "cjson_h \<Rightarrow> bool" where
  "types_ok H \<longleftrightarrow>
     distinct [cJSON_Invalid H, cJSON_False H, cJSON_True H, cJSON_NULL H, cJSON_Number H, cJSON_String H, cJSON_Array H,
       cJSON_Object H, cJSON_Raw H] \<and>
     list_all (\<lambda>t. t AND 0xFF = t \<and> t AND cJSON_IsReference H = 0 \<and> t AND cJSON_StringIsConst H = 0)
       [cJSON_False H, cJSON_True H, cJSON_NULL H, cJSON_Number H, cJSON_String H, cJSON_Array H, cJSON_Object H, cJSON_Raw H]"

lemma types_ok_bits:
  assumes "types_ok H"
  shows "cJSON_False H AND 0xFF = cJSON_False H" "cJSON_True H AND 0xFF = cJSON_True H" "cJSON_NULL H AND 0xFF = cJSON_NULL H"
    "cJSON_Number H AND 0xFF = cJSON_Number H" "cJSON_String H AND 0xFF = cJSON_String H" "cJSON_Array H AND 0xFF = cJSON_Array H"
    "cJSON_Object H AND 0xFF = cJSON_Object H" "cJSON_Raw H AND 0xFF = cJSON_Raw H"
    "cJSON_False H AND cJSON_IsReference H = 0" "cJSON_True H AND cJSON_IsReference H = 0" "cJSON_NULL H AND cJSON_IsReference H = 0"
    "cJSON_Number H AND cJSON_IsReference H = 0" "cJSON_String H AND cJSON_IsReference H = 0" "cJSON_Array H AND cJSON_IsReference H = 0"
    "cJSON_Object H AND cJSON_IsReference H = 0" "cJSON_Raw H AND cJSON_IsReference H = 0"
  using assms by (simp_all add: types_ok_def)

lemma types_ok_distinct:
  assumes "types_ok H"
  shows "cJSON_False H \<noteq> cJSON_Array H" "cJSON_True H \<noteq> cJSON_Array H" "cJSON_NULL H \<noteq> cJSON_Array H"
    "cJSON_Number H \<noteq> cJSON_Array H" "cJSON_String H \<noteq> cJSON_Array H" "cJSON_Object H \<noteq> cJSON_Array H"
    "cJSON_False H \<noteq> cJSON_Object H" "cJSON_True H \<noteq> cJSON_Object H" "cJSON_NULL H \<noteq> cJSON_Object H"
    "cJSON_Number H \<noteq> cJSON_Object H" "cJSON_String H \<noteq> cJSON_Object H"
    "cJSON_False H \<noteq> cJSON_NULL H" "cJSON_True H \<noteq> cJSON_NULL H" "cJSON_Number H \<noteq> cJSON_NULL H" "cJSON_String H \<noteq> cJSON_NULL H"
    "cJSON_True H \<noteq> cJSON_False H" "cJSON_Number H \<noteq> cJSON_False H" "cJSON_String H \<noteq> cJSON_False H"
    "cJSON_Number H \<noteq> cJSON_True H" "cJSON_String H \<noteq> cJSON_True H" "cJSON_String H \<noteq> cJSON_Number H"
  using assms by (auto simp: types_ok_def)

lemmas types_simps = types_ok_bits types_ok_distinct types_ok_distinct [symmetric]

lemma demo_types_ok [simp]: "types_ok demo_h"
  unfolding types_ok_def demo_h_def by simp

lemma those_snoc: "those (xs @ [x]) = (case those xs of None \<Rightarrow> None | Some vs \<Rightarrow> map_option (\<lambda>v. vs @ [v]) x)"
  by (induction xs) (auto simp: option.map_comp comp_def split: option.splits)

lemma those_length: "those xs = Some vs \<Longrightarrow> length vs = length xs"
  by (induction xs arbitrary: vs) (auto split: option.splits)

lemma those_Some: "those xs = Some vs \<longleftrightarrow> xs = map Some vs"
  by (induction xs arbitrary: vs) (auto split: option.splits)

lemma fold_max_le: "fold max xs a \<le> b \<longleftrightarrow> a \<le> b \<and> (\<forall>x\<in>set xs. x \<le> b)" for a b :: nat
  by (induction xs arbitrary: a) auto

lemma json_depth_array: "json_depth (JArray vs) \<le> Suc n \<longleftrightarrow> (\<forall>v\<in>set vs. json_depth v \<le> n)"
  by (simp add: fold_max_le)

lemma json_depth_object: "json_depth (JObject kvs) \<le> Suc n \<longleftrightarrow> (\<forall>kv\<in>set kvs. json_depth (snd kv) \<le> n)"
  by (auto simp: fold_max_le)

text \<open>Two heaps that differ in the links between siblings only.\<close>

definition unlinked :: "item \<Rightarrow> item" where
  "unlinked x = x\<lparr>nxt := 0, prv := 0\<rparr>"

definition relinked :: "items \<Rightarrow> items \<Rightarrow> bool" where
  "relinked h h' \<longleftrightarrow> (\<forall>y. map_option unlinked (h' y) = map_option unlinked (h y))"

lemma relinked_refl [simp]: "relinked h h"
  by (simp add: relinked_def)

lemma relinked_upd: "relinked h h' \<Longrightarrow> h' p = Some x \<Longrightarrow> unlinked x' = unlinked x \<Longrightarrow> relinked h (h'(p \<mapsto> x'))"
  by (simp add: relinked_def) (metis option.simps(9))

lemma unlinked_upd [simp]: "unlinked (x\<lparr>nxt := a\<rparr>) = unlinked x" "unlinked (x\<lparr>prv := a\<rparr>) = unlinked x"
  by (simp_all add: unlinked_def)

lemma unlinked_fields:
  assumes "unlinked x' = unlinked x"
  shows "item_type x' = item_type x" "valuestring x' = valuestring x" "valueint x' = valueint x" "valuedouble x' = valuedouble x"
    "item_string x' = item_string x" "chd x' = chd x"
  using arg_cong [OF assms, of item_type] arg_cong [OF assms, of valuestring] arg_cong [OF assms, of valueint]
    arg_cong [OF assms, of valuedouble] arg_cong [OF assms, of item_string] arg_cong [OF assms, of chd]
  by (simp_all add: unlinked_def)

lemma relinked_at:
  assumes "relinked h h'" and "h p = Some x"
  obtains x' where "h' p = Some x'" and "unlinked x' = unlinked x"
  using assms by (auto simp: relinked_def dest!: spec [of _ p])

lemma relinked_None: "relinked h h' \<Longrightarrow> h p = None \<Longrightarrow> h' p = None"
  by (auto simp: relinked_def dest: spec [of _ p])

lemma relinked_key:
  assumes "relinked h h'"
  shows "key_at h' p = key_at h p"
proof (cases "h p")
  case None
  with relinked_None [OF assms] show ?thesis by (simp add: key_at_def)
next
  case (Some x)
  with relinked_at [OF assms] obtain x' where x': "h' p = Some x'" "unlinked x' = unlinked x" by blast
  with Some show ?thesis by (simp add: key_at_def unlinked_fields(5) [OF x'(2)])
qed

lemma relinked_json: "relinked h h' \<Longrightarrow> json_of H h' t = json_of H h t"
proof (induction t)
  case (Nd p ts)
  have v: "map (json_of H h') ts = map (json_of H h) ts" using Nd by simp
  have k: "map (\<lambda>t. key_at h' (root t)) ts = map (\<lambda>t. key_at h (root t)) ts" using relinked_key [OF Nd.prems] by simp
  show ?case
  proof (cases "h p")
    case None
    with relinked_None [OF Nd.prems] show ?thesis by simp
  next
    case (Some x)
    with relinked_at [OF Nd.prems] obtain x' where x': "h' p = Some x'" "unlinked x' = unlinked x" by blast
    then have "scalar_json H x' = scalar_json H x" by (simp only: scalar_json_def unlinked_fields [OF x'(2)])
    with Some x' show ?thesis by (simp only: json_of.simps v k) (simp add: unlinked_fields [OF x'(2)])
  qed
qed

lemma relinked_own:
  assumes "relinked h h'" and "\<And>y. y \<in> set (forest_addrs (subs t)) \<Longrightarrow> h' y = h y" and "own H h t"
  shows "own H h' t"
proof -
  obtain p ts where t: "t = Nd p ts" by (cases t)
  with assms(3) obtain x where x: "h p = Some x" "item_type x AND cJSON_IsReference H = 0" "chd x = first (map root ts) 0"
    and k: "kids h p (map root ts)" and o: "list_all (own H h) ts"
    by (auto simp: kids_def not_reference_def split: option.splits)
  obtain x' where x': "h' p = Some x'" "unlinked x' = unlinked x" using relinked_at [OF assms(1) x(1)] .
  have "h' y = h y" if "y \<in> set (map root ts)" for y
    by (rule assms(2)) (use that t roots_in_addrs [of ts] in auto)
  then have "dseg h' q (map root ts) 0 = dseg h q (map root ts) 0" for q by (rule dseg_cong)
  then have "kids h' p (map root ts)" using k x x' by (simp add: kids_def unlinked_fields [OF x'(2)])
  moreover have "list_all (own H h') ts" using own_forest_cong [of ts h' h] assms(2) t o by simp
  ultimately show ?thesis using x x' t by (simp add: not_reference_def unlinked_fields [OF x'(2)])
qed

end
