(* ===== verification/Cjson_Parse.thy ===== *)
theory Cjson_Parse
  imports Cjson_Tree
begin

text \<open>
  The parser of \<open>src/cJSON/demo1/cJSON.c\<close>: white space, numbers, literals, arrays and objects, and the
  functions that parse a whole text. It builds the items in the heap of \<open>Cjson_List\<close>.

  The functions \<open>parse_value\<close>, \<open>parse_array\<close>, \<open>parse_object\<close> call each other; the first argument of
  \<open>parse_value\<close> bounds the depth of these calls and the iterations of each \<open>do ... while\<close> loop, and
  \<^const>\<open>None\<close> stands for an access outside an object, a wild pointer, or the end of that bound. The
  functions that parse a whole text use the length of the text and one more, which is always enough,
  since every element consumes a byte.
  The C library's \<open>strtod\<close> is a parameter: it gives the number and how many bytes it has read.
\<close>

unbundle bit_operations_syntax

section \<open>The parser\<close>

type_synonym strtod = "u8 list \<Rightarrow> u64 \<times> nat"

definition can_read :: "parse_buffer \<Rightarrow> nat \<Rightarrow> bool" where
  "can_read buf n \<longleftrightarrow> in_offset buf + n \<le> in_length buf"

text \<open>\<open>can_access_at_index(buffer, 0) && P(buffer_at_offset(buffer)[0])\<close>\<close>

definition next_is :: "parse_buffer \<Rightarrow> (u8 \<Rightarrow> bool) \<Rightarrow> bool option" where
  "next_is buf P = (if can_access_at_index buf 0 then map_option P (byte_at (content buf) (in_offset buf)) else Some False)"

text \<open>\<open>strncmp\<close> with a literal of that length equals 0; it stops at the first difference.\<close>

fun strncmp_eq :: "u8 list \<Rightarrow> nat \<Rightarrow> u8 list \<Rightarrow> bool option" where
  "strncmp_eq c p [] = Some True"
| "strncmp_eq c p (l # ls) = do { b \<leftarrow> byte_at c p; if b = l then strncmp_eq c (Suc p) ls else Some False }"

function whitespace_loop :: "u8 list \<Rightarrow> nat \<Rightarrow> nat \<Rightarrow> nat option" where
  "whitespace_loop c len p =
     (if p < len then (case byte_at c p of None \<Rightarrow> None | Some b \<Rightarrow> if b \<le> 32 then whitespace_loop c len (p + 1) else Some p)
      else Some p)"
  by pat_completeness auto
termination by (relation "measure (\<lambda>(c, len, p). len - p)") auto

definition buffer_skip_whitespace :: "parse_buffer \<Rightarrow> parse_buffer option" where
  "buffer_skip_whitespace buf =
     (if \<not> can_access_at_index buf 0 then Some buf
      else do {
        p \<leftarrow> whitespace_loop (content buf) (in_length buf) (in_offset buf);
        Some (buf\<lparr>in_offset := (if p = in_length buf then p - 1 else p)\<rparr>)
      })"

definition skip_utf8_bom :: "parse_buffer \<Rightarrow> parse_buffer option option" where
  "skip_utf8_bom buf =
     (if in_offset buf \<noteq> 0 then Some None
      else do {
        m \<leftarrow> (if can_access_at_index buf 4 then strncmp_eq (content buf) (in_offset buf) [0xEF, 0xBB, 0xBF] else Some False);
        Some (Some (if m then buf\<lparr>in_offset := in_offset buf + 3\<rparr> else buf))
      })"

text \<open>
  The bytes of a number, copied to a buffer of 64 bytes with one left for the terminating zero; the
  decimal point is \<open>.\<close> without \<open>ENABLE_LOCALES\<close>.
\<close>

definition get_decimal_point :: u8 where "get_decimal_point = 46"

definition number_byte :: "u8 \<Rightarrow> bool" where
  "number_byte b \<longleftrightarrow> 48 \<le> b \<and> b \<le> 57 \<or> b = 43 \<or> b = 45 \<or> b = 101 \<or> b = 69"

fun number_loop :: "nat \<Rightarrow> u8 list \<Rightarrow> nat \<Rightarrow> nat \<Rightarrow> u8 list option" where
  "number_loop 0 c len p = Some []"
| "number_loop (Suc r) c len p =
     (if p < len then do {
        b \<leftarrow> byte_at c p;
        if number_byte b then map_option ((#) b) (number_loop r c len (p + 1))
        else if b = 46 then map_option ((#) get_decimal_point) (number_loop r c len (p + 1))
        else Some []
      } else Some [])"

definition parse_number ::
  "cjson_env \<Rightarrow> strtod \<Rightarrow> items \<Rightarrow> nat \<Rightarrow> parse_buffer \<Rightarrow> (bool \<times> items \<times> parse_buffer) option" where
  "parse_number E strtod h p buf = do {
     number_c_string \<leftarrow> number_loop 63 (content buf) (in_length buf) (in_offset buf);
     let (num, after_end) = strtod number_c_string;
     if after_end = 0 then Some (False, h, buf)
     else do {
       h1 \<leftarrow> jset h p (\<lambda>x. x\<lparr>valuedouble := num, valueint := saturate E num, item_type := cJSON_Number (env_h E)\<rparr>);
       Some (True, h1, buf\<lparr>in_offset := in_offset buf + after_end\<rparr>)
     }
   }"

text \<open>\<open>parse_string\<close> on an item in the heap.\<close>

definition parse_string_at ::
  "cjson_env \<Rightarrow> items \<Rightarrow> nat \<Rightarrow> parse_buffer \<Rightarrow> (bool \<times> items \<times> parse_buffer) option" where
  "parse_string_at E h p buf = do {
     x \<leftarrow> jget h p;
     (ok, y, buf1) \<leftarrow> parse_string (env_h E) (env_hooks E) (cJSON.truncate x) buf;
     Some (ok, h(p \<mapsto> x\<lparr>item_type := item_type y, valuestring := valuestring y\<rparr>), buf1)
   }"

text \<open>The labels \<open>fail\<close> and \<open>success\<close> of \<open>parse_array\<close> and \<open>parse_object\<close>.\<close>

definition parse_fail :: "cjson_env \<Rightarrow> items \<Rightarrow> nat \<Rightarrow> parse_buffer \<Rightarrow> (bool \<times> items \<times> parse_buffer) option" where
  "parse_fail E h head buf =
     (if head \<noteq> 0 then do { h1 \<leftarrow> cJSON_Delete E h head; Some (False, h1, buf) } else Some (False, h, buf))"

definition parse_success ::
  "u32 \<Rightarrow> items \<Rightarrow> nat \<Rightarrow> nat \<Rightarrow> nat \<Rightarrow> parse_buffer \<Rightarrow> (bool \<times> items \<times> parse_buffer) option" where
  "parse_success ty h p head current_item buf = do {
     h1 \<leftarrow> (if head \<noteq> 0 then jset h head (\<lambda>x. x\<lparr>prv := current_item\<rparr>) else Some h);
     h2 \<leftarrow> jset h1 p (\<lambda>x. x\<lparr>item_type := ty, chd := head\<rparr>);
     Some (True, h2, buf\<lparr>in_depth := in_depth buf - 1, in_offset := in_offset buf + 1\<rparr>)
   }"

text \<open>\<open>attach next item to list\<close>: the new item becomes the head or follows the current item.\<close>

definition attach :: "items \<Rightarrow> nat \<Rightarrow> nat \<Rightarrow> nat \<Rightarrow> (items \<times> nat) option" where
  "attach h head current_item new_item =
     (if head = 0 then Some (h, new_item)
      else do { h1 \<leftarrow> suffix_object h current_item new_item; Some (h1, head) })"

text \<open>\<open>swap valuestring and string, because we parsed the name\<close>\<close>

definition take_name :: "items \<Rightarrow> nat \<Rightarrow> items option" where
  "take_name h p = jset h p (\<lambda>x. x\<lparr>item_string := valuestring x, valuestring := None\<rparr>)"

text \<open>
  \<open>parse_array\<close> and \<open>parse_object\<close> with the recursive call of \<open>parse_value\<close> as the argument \<open>pv\<close>; the
  number in front bounds the iterations of their loops.
\<close>

type_synonym parser = "items \<Rightarrow> nat \<Rightarrow> parse_buffer \<Rightarrow> (bool \<times> items \<times> parse_buffer) option"

fun array_loop :: "nat \<Rightarrow> parser \<Rightarrow> cjson_env \<Rightarrow> items \<Rightarrow> nat \<Rightarrow> nat \<Rightarrow> nat \<Rightarrow> parse_buffer \<Rightarrow> (bool \<times> items \<times> parse_buffer) option" where
  "array_loop 0 pv E h p head current_item buf = None"
| "array_loop (Suc n) pv E h p head current_item buf =
     (let (new_item, h1) = cJSON_New_Item E h in
      if new_item = 0 then parse_fail E h1 head buf
      else do {
        (h2, head1) \<leftarrow> attach h1 head current_item new_item;
        buf1 \<leftarrow> buffer_skip_whitespace (buf\<lparr>in_offset := in_offset buf + 1\<rparr>);
        (ok, h3, buf2) \<leftarrow> pv h2 new_item buf1;
        if \<not> ok then parse_fail E h3 head1 buf2
        else do {
          buf3 \<leftarrow> buffer_skip_whitespace buf2;
          comma \<leftarrow> next_is buf3 (\<lambda>b. b = 44);
          if comma then array_loop n pv E h3 p head1 new_item buf3
          else do {
            close \<leftarrow> next_is buf3 (\<lambda>b. b = 93);
            if \<not> close then parse_fail E h3 head1 buf3
            else parse_success (cJSON_Array (env_h E)) h3 p head1 new_item buf3
          }
        }
      })"

definition parse_array :: "nat \<Rightarrow> parser \<Rightarrow> cjson_env \<Rightarrow> parser" where
  "parse_array n pv E h p buf =
     (if in_depth buf \<ge> CJSON_NESTING_LIMIT (env_h E) then Some (False, h, buf)
      else do {
        let buf1 = buf\<lparr>in_depth := in_depth buf + 1\<rparr>;
        b \<leftarrow> byte_at (content buf1) (in_offset buf1);
        if b \<noteq> 91 then parse_fail E h 0 buf1
        else do {
          buf2 \<leftarrow> buffer_skip_whitespace (buf1\<lparr>in_offset := in_offset buf1 + 1\<rparr>);
          empty \<leftarrow> next_is buf2 (\<lambda>b. b = 93);
          if empty then parse_success (cJSON_Array (env_h E)) h p 0 0 buf2
          else if \<not> can_access_at_index buf2 0 then parse_fail E h 0 (buf2\<lparr>in_offset := in_offset buf2 - 1\<rparr>)
          else array_loop n pv E h p 0 0 (buf2\<lparr>in_offset := in_offset buf2 - 1\<rparr>)
        }
      })"

text \<open>The name, the colon and the value of one member: the body of the loop of \<open>parse_object\<close>.\<close>

definition parse_member :: "parser \<Rightarrow> cjson_env \<Rightarrow> parser" where
  "parse_member pv E h p buf = do {
     (named, h1, buf1) \<leftarrow> parse_string_at E h p buf;
     if \<not> named then Some (False, h1, buf1)
     else do {
       buf2 \<leftarrow> buffer_skip_whitespace buf1;
       h2 \<leftarrow> take_name h1 p;
       colon \<leftarrow> next_is buf2 (\<lambda>b. b = 58);
       if \<not> colon then Some (False, h2, buf2)
       else do {
         buf3 \<leftarrow> buffer_skip_whitespace (buf2\<lparr>in_offset := in_offset buf2 + 1\<rparr>);
         pv h2 p buf3
       }
     }
   }"

fun object_loop :: "nat \<Rightarrow> parser \<Rightarrow> cjson_env \<Rightarrow> items \<Rightarrow> nat \<Rightarrow> nat \<Rightarrow> nat \<Rightarrow> parse_buffer \<Rightarrow> (bool \<times> items \<times> parse_buffer) option" where
  "object_loop 0 pv E h p head current_item buf = None"
| "object_loop (Suc n) pv E h p head current_item buf =
     (let (new_item, h1) = cJSON_New_Item E h in
      if new_item = 0 then parse_fail E h1 head buf
      else do {
        (h2, head1) \<leftarrow> attach h1 head current_item new_item;
        buf1 \<leftarrow> buffer_skip_whitespace (buf\<lparr>in_offset := in_offset buf + 1\<rparr>);
        (ok, h3, buf2) \<leftarrow> parse_member pv E h2 new_item buf1;
        if \<not> ok then parse_fail E h3 head1 buf2
        else do {
          buf3 \<leftarrow> buffer_skip_whitespace buf2;
          comma \<leftarrow> next_is buf3 (\<lambda>b. b = 44);
          if comma then object_loop n pv E h3 p head1 new_item buf3
          else do {
            close \<leftarrow> next_is buf3 (\<lambda>b. b = 125);
            if \<not> close then parse_fail E h3 head1 buf3
            else parse_success (cJSON_Object (env_h E)) h3 p head1 new_item buf3
          }
        }
      })"

definition parse_object :: "nat \<Rightarrow> parser \<Rightarrow> cjson_env \<Rightarrow> parser" where
  "parse_object n pv E h p buf =
     (if in_depth buf \<ge> CJSON_NESTING_LIMIT (env_h E) then Some (False, h, buf)
      else do {
        let buf1 = buf\<lparr>in_depth := in_depth buf + 1\<rparr>;
        brace \<leftarrow> next_is buf1 (\<lambda>b. b = 123);
        if \<not> brace then parse_fail E h 0 buf1
        else do {
          buf2 \<leftarrow> buffer_skip_whitespace (buf1\<lparr>in_offset := in_offset buf1 + 1\<rparr>);
          empty \<leftarrow> next_is buf2 (\<lambda>b. b = 125);
          if empty then parse_success (cJSON_Object (env_h E)) h p 0 0 buf2
          else if \<not> can_access_at_index buf2 0 then parse_fail E h 0 (buf2\<lparr>in_offset := in_offset buf2 - 1\<rparr>)
          else object_loop n pv E h p 0 0 (buf2\<lparr>in_offset := in_offset buf2 - 1\<rparr>)
        }
      })"

text \<open>\<open>can_read(buffer, strlen(lit)) && strncmp(buffer_at_offset(buffer), lit, strlen(lit)) == 0\<close>\<close>

definition at_literal :: "parse_buffer \<Rightarrow> u8 list \<Rightarrow> bool option" where
  "at_literal buf lit = (if can_read buf (length lit) then strncmp_eq (content buf) (in_offset buf) lit else Some False)"

definition parse_literal :: "parse_buffer \<Rightarrow> u8 list \<Rightarrow> (item \<Rightarrow> item) \<Rightarrow> items \<Rightarrow> nat \<Rightarrow> (bool \<times> items \<times> parse_buffer) option" where
  "parse_literal buf lit f h p = do {
     h1 \<leftarrow> jset h p f;
     Some (True, h1, buf\<lparr>in_offset := in_offset buf + length lit\<rparr>)
   }"

definition lit_null :: "u8 list" where "lit_null = [110, 117, 108, 108]"
definition lit_false :: "u8 list" where "lit_false = [102, 97, 108, 115, 101]"
definition lit_true :: "u8 list" where "lit_true = [116, 114, 117, 101]"

definition parse_any :: "nat \<Rightarrow> parser \<Rightarrow> cjson_env \<Rightarrow> strtod \<Rightarrow> parser" where
  "parse_any n pv E strtod h p buf = do {
     is_null \<leftarrow> at_literal buf lit_null;
     if is_null then parse_literal buf lit_null (\<lambda>x. x\<lparr>item_type := cJSON_NULL (env_h E)\<rparr>) h p
     else do {
     is_false \<leftarrow> at_literal buf lit_false;
     if is_false then parse_literal buf lit_false (\<lambda>x. x\<lparr>item_type := cJSON_False (env_h E)\<rparr>) h p
     else do {
     is_true \<leftarrow> at_literal buf lit_true;
     if is_true then parse_literal buf lit_true (\<lambda>x. x\<lparr>item_type := cJSON_True (env_h E), valueint := 1\<rparr>) h p
     else do {
     is_string \<leftarrow> next_is buf (\<lambda>b. b = 34);
     if is_string then parse_string_at E h p buf
     else do {
     is_number \<leftarrow> next_is buf (\<lambda>b. b = 45 \<or> 48 \<le> b \<and> b \<le> 57);
     if is_number then parse_number E strtod h p buf
     else do {
     is_array \<leftarrow> next_is buf (\<lambda>b. b = 91);
     if is_array then parse_array n pv E h p buf
     else do {
     is_object \<leftarrow> next_is buf (\<lambda>b. b = 123);
     if is_object then parse_object n pv E h p buf
     else Some (False, h, buf)
     }}}}}}
   }"

fun parse_value :: "nat \<Rightarrow> cjson_env \<Rightarrow> strtod \<Rightarrow> parser" where
  "parse_value 0 E strtod h p buf = None"
| "parse_value (Suc n) E strtod h p buf = parse_any n (parse_value n E strtod) E strtod h p buf"

section \<open>Whole texts\<close>

text \<open>
  What a call returns and leaves behind: the item (0 for the null pointer), the heap, the global
  error position, \<^const>\<open>None\<close> for a null \<open>json\<close> pointer, and what was stored through
  \<open>return_parse_end\<close>. Pointers into the text are offsets.
\<close>

record parse_result =
  parsed_item :: nat
  parsed_heap :: items
  global_error :: "nat option"
  parse_end :: "nat option"

definition error_position :: "parse_buffer \<Rightarrow> nat" where
  "error_position buf =
     (if in_offset buf < in_length buf then in_offset buf else if in_length buf > 0 then in_length buf - 1 else 0)"

definition text_fail ::
  "cjson_env \<Rightarrow> u8 list option \<Rightarrow> bool \<Rightarrow> items \<Rightarrow> nat \<Rightarrow> parse_buffer \<Rightarrow> parse_result option" where
  "text_fail E val want_end h p buf = do {
     h1 \<leftarrow> (if p \<noteq> 0 then cJSON_Delete E h p else Some h);
     Some (case val of
         None \<Rightarrow> \<lparr>parsed_item = 0, parsed_heap = h1, global_error = None, parse_end = None\<rparr>
       | Some _ \<Rightarrow> \<lparr>parsed_item = 0, parsed_heap = h1, global_error = Some (error_position buf),
           parse_end = (if want_end then Some (error_position buf) else None)\<rparr>)
   }"

definition cJSON_ParseWithLengthOpts ::
  "cjson_env \<Rightarrow> strtod \<Rightarrow> items \<Rightarrow> u8 list option \<Rightarrow> nat \<Rightarrow> bool \<Rightarrow> bool \<Rightarrow> parse_result option" where
  "cJSON_ParseWithLengthOpts E strtod h val buffer_length want_end require_null_terminated =
     (let empty = \<lparr>content = [], in_length = 0, in_offset = 0, in_depth = 0\<rparr> in
      case val of None \<Rightarrow> text_fail E val want_end h 0 empty
      | Some text \<Rightarrow>
          if buffer_length = 0 then text_fail E val want_end h 0 empty
          else
            let buf = \<lparr>content = text, in_length = buffer_length, in_offset = 0, in_depth = 0\<rparr>;
                (p, h1) = cJSON_New_Item E h in
            if p = 0 then text_fail E val want_end h1 0 buf
            else do {
              bom \<leftarrow> skip_utf8_bom buf;
              (ok, h2, buf2) \<leftarrow>
                (case bom of None \<Rightarrow> Some (False, h1, buf)
                 | Some buf1 \<Rightarrow> do {
                     buf2 \<leftarrow> buffer_skip_whitespace buf1;
                     parse_value (buffer_length + 1) E strtod h1 p buf2
                   });
              if \<not> ok then text_fail E val want_end h2 p buf2
              else do {
                buf3 \<leftarrow> (if require_null_terminated then buffer_skip_whitespace buf2 else Some buf2);
                ended \<leftarrow> (if require_null_terminated then next_is buf3 (\<lambda>b. b = 0) else Some True);
                if \<not> ended then text_fail E val want_end h2 p buf3
                else Some \<lparr>parsed_item = p, parsed_heap = h2, global_error = None,
                  parse_end = (if want_end then Some (in_offset buf3) else None)\<rparr>
              }
            })"

definition cJSON_ParseWithOpts ::
  "cjson_env \<Rightarrow> strtod \<Rightarrow> items \<Rightarrow> nat option \<Rightarrow> u8 list option \<Rightarrow> bool \<Rightarrow> bool \<Rightarrow> parse_result option" where
  "cJSON_ParseWithOpts E strtod h err val want_end require_null_terminated =
     (case val of None \<Rightarrow> Some \<lparr>parsed_item = 0, parsed_heap = h, global_error = err, parse_end = None\<rparr>
      | Some text \<Rightarrow> do {
          n \<leftarrow> strlen_at text 0;
          cJSON_ParseWithLengthOpts E strtod h val (n + 1) want_end require_null_terminated
        })"

definition cJSON_Parse :: "cjson_env \<Rightarrow> strtod \<Rightarrow> items \<Rightarrow> nat option \<Rightarrow> u8 list option \<Rightarrow> parse_result option" where
  "cJSON_Parse E strtod h err val = cJSON_ParseWithOpts E strtod h err val False False"

definition cJSON_ParseWithLength :: "cjson_env \<Rightarrow> strtod \<Rightarrow> items \<Rightarrow> u8 list option \<Rightarrow> nat \<Rightarrow> parse_result option" where
  "cJSON_ParseWithLength E strtod h val buffer_length = cJSON_ParseWithLengthOpts E strtod h val buffer_length False False"

text \<open>\<open>cJSON_GetErrorPtr\<close> as an offset; without an error the pointer is null plus 0.\<close>

definition cJSON_GetErrorPtr :: "parse_result \<Rightarrow> nat option" where
  "cJSON_GetErrorPtr r = global_error r"

end
