(* ===== verification/Cjson_Render.thy ===== *)
theory Cjson_Render
  imports Cjson_Parse
begin

text \<open>
  Printing JSON values: \<open>print_number\<close>, \<open>print_value\<close>, \<open>print_array\<close>, \<open>print_object\<close> of \<open>src/cJSON/demo1/cJSON.c\<close>
  and the functions that print a whole tree. The output grows through \<open>ensure\<close> of \<open>Cjson_Print\<close>; the
  items are read from the heap of \<open>Cjson_List\<close>.

  The first argument of \<open>print_value\<close> bounds the depth of the recursion and the number of children that
  are visited; the number of items of the tree is always enough. \<^const>\<open>None\<close> is an access outside an
  object, a wild pointer or the end of that bound. The operations on \<open>double\<close>, \<open>sprintf\<close> and \<open>sscanf\<close> are
  parameters, collected in the record \<open>fp_ops\<close>.
\<close>

unbundle bit_operations_syntax

section \<open>Numbers\<close>

record fp_ops =
  fp_isnan :: "u64 \<Rightarrow> bool"
  fp_isinf :: "u64 \<Rightarrow> bool"
  fp_fabs :: "u64 \<Rightarrow> u64"
  fp_minus :: "u64 \<Rightarrow> u64 \<Rightarrow> u64"
  fp_times :: "u64 \<Rightarrow> u64 \<Rightarrow> u64"
  fp_greater :: "u64 \<Rightarrow> u64 \<Rightarrow> bool"
  fp_le :: "u64 \<Rightarrow> u64 \<Rightarrow> bool"
  DBL_EPSILON :: u64
  sprintf_15g :: "u64 \<Rightarrow> u8 list"
  sprintf_17g :: "u64 \<Rightarrow> u8 list"
  sscanf_lg :: "u8 list \<Rightarrow> u64 option"

definition compare_double :: "fp_ops \<Rightarrow> u64 \<Rightarrow> u64 \<Rightarrow> bool" where
  "compare_double F a b =
     (let maxVal = (if fp_greater F (fp_fabs F a) (fp_fabs F b) then fp_fabs F a else fp_fabs F b)
      in fp_le F (fp_fabs F (fp_minus F a b)) (fp_times F maxVal (DBL_EPSILON F)))"

text \<open>What \<open>sprintf\<close> puts into \<open>number_buffer\<close>; a text that does not fit its 26 bytes overruns it.\<close>

definition into_number_buffer :: "u8 list \<Rightarrow> u8 list option" where
  "into_number_buffer s = (if length s < 26 then Some s else None)"

definition number_text :: "fp_ops \<Rightarrow> u64 \<Rightarrow> u8 list option" where
  "number_text F d =
     (if fp_isnan F d \<or> fp_isinf F d then into_number_buffer [110, 117, 108, 108]
      else do {
        s \<leftarrow> into_number_buffer (sprintf_15g F d);
        case sscanf_lg F s of
          None \<Rightarrow> into_number_buffer (sprintf_17g F d)
        | Some test \<Rightarrow> if \<not> compare_double F test d then into_number_buffer (sprintf_17g F d) else Some s
      })"

section \<open>Output\<close>

text \<open>
  \<open>ensure\<close> some room, write bytes there and advance the offset; the caller returns \<open>false\<close> when there is
  no room.
\<close>

definition emit :: "internal_hooks \<Rightarrow> printbuffer \<Rightarrow> nat \<Rightarrow> u8 list \<Rightarrow> nat \<Rightarrow> (bool \<times> printbuffer) option" where
  "emit hooks p needed bs advance = do {
     (r, p1) \<leftarrow> ensure hooks p needed;
     case r of None \<Rightarrow> Some (False, p1)
     | Some pos \<Rightarrow>
         (case pbuffer p1 of None \<Rightarrow> None
          | Some buf \<Rightarrow> do {
              buf1 \<leftarrow> put_all buf pos bs;
              Some (True, p1\<lparr>pbuffer := Some buf1, poffset := poffset p1 + advance\<rparr>)
            })
   }"

text \<open>One step after another: a failure returns at once.\<close>

definition and_then :: "(bool \<times> printbuffer) option \<Rightarrow> (printbuffer \<Rightarrow> (bool \<times> printbuffer) option) \<Rightarrow> (bool \<times> printbuffer) option" where
  "and_then r f = do { (ok, p) \<leftarrow> r; if ok then f p else Some (False, p) }"

definition dot_bytes :: "u8 list \<Rightarrow> u8 list" where
  "dot_bytes s = map (\<lambda>b. if b = get_decimal_point then 46 else b) s"

definition print_number :: "fp_ops \<Rightarrow> internal_hooks \<Rightarrow> item \<Rightarrow> printbuffer \<Rightarrow> (bool \<times> printbuffer) option" where
  "print_number F hooks x p = do {
     number_buffer \<leftarrow> number_text F (valuedouble x);
     let len = length number_buffer;
     if len > 25 then Some (False, p)
     else emit hooks p (len + 1) (dot_bytes number_buffer @ [0]) len
   }"

definition print_raw :: "internal_hooks \<Rightarrow> item \<Rightarrow> printbuffer \<Rightarrow> (bool \<times> printbuffer) option" where
  "print_raw hooks x p =
     (case valuestring x of None \<Rightarrow> Some (False, p)
      | Some s \<Rightarrow> do { n \<leftarrow> strlen_at s 0; emit hooks p (n + 1) (take (n + 1) s) 0 })"

section \<open>Arrays and objects\<close>

type_synonym printer = "nat \<Rightarrow> printbuffer \<Rightarrow> (bool \<times> printbuffer) option"

fun print_elements :: "nat \<Rightarrow> printer \<Rightarrow> internal_hooks \<Rightarrow> items \<Rightarrow> nat \<Rightarrow> printbuffer \<Rightarrow> (bool \<times> printbuffer) option" where
  "print_elements 0 pv hooks h cur p = None"
| "print_elements (Suc n) pv hooks h cur p =
     (if cur = 0 then Some (True, p)
      else and_then (pv cur p) (\<lambda>p1. do {
        p2 \<leftarrow> update_offset p1;
        x \<leftarrow> jget h cur;
        if nxt x \<noteq> 0
        then let len = (if format p2 then 2 else 1) in
          and_then (emit hooks p2 (len + 1) ([44] @ (if format p2 then [32] else []) @ [0]) len)
            (\<lambda>p3. print_elements n pv hooks h (nxt x) p3)
        else print_elements n pv hooks h (nxt x) p2
      }))"

definition print_array :: "nat \<Rightarrow> printer \<Rightarrow> internal_hooks \<Rightarrow> items \<Rightarrow> item \<Rightarrow> printbuffer \<Rightarrow> (bool \<times> printbuffer) option" where
  "print_array n pv hooks h x p =
     and_then (emit hooks p 1 [91] 1) (\<lambda>p1.
     and_then (print_elements n pv hooks h (chd x) (p1\<lparr>pdepth := pdepth p1 + 1\<rparr>)) (\<lambda>p2.
     and_then (emit hooks p2 2 [93, 0] 0) (\<lambda>p3. Some (True, p3\<lparr>pdepth := pdepth p3 - 1\<rparr>))))"

fun print_members :: "nat \<Rightarrow> printer \<Rightarrow> internal_hooks \<Rightarrow> items \<Rightarrow> nat \<Rightarrow> printbuffer \<Rightarrow> (bool \<times> printbuffer) option" where
  "print_members 0 pv hooks h cur p = None"
| "print_members (Suc n) pv hooks h cur p =
     (if cur = 0 then Some (True, p)
      else do {
        x \<leftarrow> jget h cur;
        and_then (if format p then emit hooks p (pdepth p) (replicate (pdepth p) 9) (pdepth p) else Some (True, p)) (\<lambda>p1.
        and_then (print_string_ptr hooks (item_string x) p1) (\<lambda>p2. do {
          p3 \<leftarrow> update_offset p2;
          and_then (emit hooks p3 (if format p3 then 2 else 1) ([58] @ (if format p3 then [9] else [])) (if format p3 then 2 else 1)) (\<lambda>p4.
          and_then (pv cur p4) (\<lambda>p5. do {
            p6 \<leftarrow> update_offset p5;
            let len = (if format p6 then 1 else 0) + (if nxt x \<noteq> 0 then 1 else 0);
            and_then (emit hooks p6 (len + 1) ((if nxt x \<noteq> 0 then [44] else []) @ (if format p6 then [10] else []) @ [0]) len) (\<lambda>p7.
              print_members n pv hooks h (nxt x) p7)
          }))
        }))
      })"

definition print_object :: "nat \<Rightarrow> printer \<Rightarrow> internal_hooks \<Rightarrow> items \<Rightarrow> item \<Rightarrow> printbuffer \<Rightarrow> (bool \<times> printbuffer) option" where
  "print_object n pv hooks h x p =
     (let len = (if format p then 2 else 1) in
      and_then (emit hooks p (len + 1) ([123] @ (if format p then [10] else [])) len) (\<lambda>p1.
      and_then (print_members n pv hooks h (chd x) (p1\<lparr>pdepth := pdepth p1 + 1\<rparr>)) (\<lambda>p2.
      and_then (emit hooks p2 (if format p2 then pdepth p2 + 1 else 2)
          ((if format p2 then replicate (pdepth p2 - 1) 9 else []) @ [125, 0]) 0) (\<lambda>p3.
        Some (True, p3\<lparr>pdepth := pdepth p3 - 1\<rparr>)))))"

fun print_value :: "nat \<Rightarrow> cjson_env \<Rightarrow> fp_ops \<Rightarrow> items \<Rightarrow> printer" where
  "print_value 0 E F h p pb = None"
| "print_value (Suc n) E F h p pb =
     (if p = 0 then Some (False, pb)
      else do {
        x \<leftarrow> jget h p;
        let ty = item_type x AND 0xFF;
        if ty = cJSON_NULL (env_h E) then emit (env_hooks E) pb 5 ([110, 117, 108, 108] @ [0]) 0
        else if ty = cJSON_False (env_h E) then emit (env_hooks E) pb 6 ([102, 97, 108, 115, 101] @ [0]) 0
        else if ty = cJSON_True (env_h E) then emit (env_hooks E) pb 5 ([116, 114, 117, 101] @ [0]) 0
        else if ty = cJSON_Number (env_h E) then print_number F (env_hooks E) x pb
        else if ty = cJSON_Raw (env_h E) then print_raw (env_hooks E) x pb
        else if ty = cJSON_String (env_h E) then print_string (env_hooks E) (cJSON.truncate x) pb
        else if ty = cJSON_Array (env_h E) then print_array n (print_value n E F h) (env_hooks E) h x pb
        else if ty = cJSON_Object (env_h E) then print_object n (print_value n E F h) (env_hooks E) h x pb
        else Some (False, pb)
      })"

section \<open>Whole trees\<close>

definition empty_buffer :: "u8 list option \<Rightarrow> nat \<Rightarrow> bool \<Rightarrow> bool \<Rightarrow> printbuffer" where
  "empty_buffer buf len na fmt = \<lparr>pbuffer = buf, plength = len, poffset = 0, pdepth = 0, noalloc = na, format = fmt\<rparr>"

text \<open>The printed block in its final size; \<^const>\<open>None\<close> inside is the null pointer.\<close>

definition shrink :: "internal_hooks \<Rightarrow> printbuffer \<Rightarrow> u8 list option option" where
  "shrink hooks p =
     (case pbuffer p of None \<Rightarrow> None
      | Some buf \<Rightarrow>
          (case reallocate hooks of
             Some f \<Rightarrow> Some (f buf (poffset p + 1))
           | None \<Rightarrow>
               (case allocate hooks (poffset p + 1) of None \<Rightarrow> Some None
                | Some printed \<Rightarrow> do {
                    printed1 \<leftarrow> memcpy printed 0 buf 0 (int (min (plength p) (poffset p + 1)));
                    printed2 \<leftarrow> put_at printed1 (poffset p) 0;
                    Some (Some printed2)
                  })))"

definition print :: "nat \<Rightarrow> cjson_env \<Rightarrow> fp_ops \<Rightarrow> items \<Rightarrow> nat \<Rightarrow> bool \<Rightarrow> u8 list option option" where
  "print n E F h p fmt =
     (case allocate (env_hooks E) 256 of None \<Rightarrow> Some None
      | Some buf \<Rightarrow> do {
          (ok, p1) \<leftarrow> print_value n E F h p (empty_buffer (Some buf) 256 False fmt);
          if \<not> ok then Some None
          else do { p2 \<leftarrow> update_offset p1; shrink (env_hooks E) p2 }
        })"

definition cJSON_Print :: "nat \<Rightarrow> cjson_env \<Rightarrow> fp_ops \<Rightarrow> items \<Rightarrow> nat \<Rightarrow> u8 list option option" where
  "cJSON_Print n E F h p = print n E F h p True"

definition cJSON_PrintUnformatted :: "nat \<Rightarrow> cjson_env \<Rightarrow> fp_ops \<Rightarrow> items \<Rightarrow> nat \<Rightarrow> u8 list option option" where
  "cJSON_PrintUnformatted n E F h p = print n E F h p False"

definition cJSON_PrintBuffered :: "nat \<Rightarrow> cjson_env \<Rightarrow> fp_ops \<Rightarrow> items \<Rightarrow> nat \<Rightarrow> int \<Rightarrow> bool \<Rightarrow> u8 list option option" where
  "cJSON_PrintBuffered n E F h p prebuffer fmt =
     (if prebuffer < 0 then Some None
      else case allocate (env_hooks E) (nat prebuffer) of None \<Rightarrow> Some None
      | Some buf \<Rightarrow> do {
          (ok, p1) \<leftarrow> print_value n E F h p (empty_buffer (Some buf) (nat prebuffer) False fmt);
          Some (if ok then pbuffer p1 else None)
        })"

text \<open>The caller's buffer is returned with what was written into it.\<close>

definition cJSON_PrintPreallocated ::
  "nat \<Rightarrow> cjson_env \<Rightarrow> fp_ops \<Rightarrow> items \<Rightarrow> nat \<Rightarrow> u8 list option \<Rightarrow> int \<Rightarrow> bool \<Rightarrow> (bool \<times> u8 list option) option" where
  "cJSON_PrintPreallocated n E F h p buf len fmt =
     (if len < 0 \<or> buf = None then Some (False, buf)
      else do {
        (ok, p1) \<leftarrow> print_value n E F h p (empty_buffer buf (nat len) True fmt);
        Some (ok, pbuffer p1)
      })"

section \<open>The reference text\<close>

fun join :: "'a list \<Rightarrow> 'a list list \<Rightarrow> 'a list" where
  "join sep [] = []"
| "join sep [x] = x"
| "join sep (x # xs) = x @ sep @ join sep xs"

definition tabs :: "nat \<Rightarrow> u8 list" where
  "tabs n = replicate n 9"

text \<open>One member of an object, at nesting depth \<open>d\<close>; the separator after it is a comma unless it is the last.\<close>

definition member_text :: "bool \<Rightarrow> nat \<Rightarrow> u8 list \<Rightarrow> u8 list \<Rightarrow> u8 list" where
  "member_text fmt d key txt = (if fmt then tabs d else []) @ json_quote key @ (if fmt then [58, 9] else [58]) @ txt"

fun json_text :: "fp_ops \<Rightarrow> bool \<Rightarrow> nat \<Rightarrow> json \<Rightarrow> u8 list" where
  "json_text F fmt d JNull = lit_null"
| "json_text F fmt d JFalse = lit_false"
| "json_text F fmt d JTrue = lit_true"
| "json_text F fmt d (JNumber x) = the (number_text F x)"
| "json_text F fmt d (JString s) = json_quote s"
| "json_text F fmt d (JArray vs) = [91] @ join (if fmt then [44, 32] else [44]) (map (json_text F fmt (Suc d)) vs) @ [93]"
| "json_text F fmt d (JObject kvs) =
     [123] @ (if fmt then [10] else []) @
     join (if fmt then [44, 10] else [44]) (map (\<lambda>kv. member_text fmt (Suc d) (fst kv) (json_text F fmt (Suc d) (snd kv))) kvs) @
     (if fmt then (if kvs = [] then [] else [10]) @ tabs d else []) @ [125]"

section \<open>The output buffer\<close>

text \<open>
  \<open>out p txt\<close>: the text so far is \<open>txt\<close> and the offset is behind it. \<open>pending p txt\<close>: the text with a zero
  byte is in the buffer, and \<open>update_offset\<close> will find its end.
\<close>

definition out :: "printbuffer \<Rightarrow> u8 list \<Rightarrow> bool" where
  "out p txt \<longleftrightarrow> (case pbuffer p of None \<Rightarrow> False | Some buf \<Rightarrow> length buf = plength p \<and> length txt < plength p \<and>
     poffset p = length txt \<and> take (length txt) buf = txt)"

definition pending :: "printbuffer \<Rightarrow> u8 list \<Rightarrow> bool" where
  "pending p txt \<longleftrightarrow> (case pbuffer p of None \<Rightarrow> False | Some buf \<Rightarrow> length buf = plength p \<and> length txt < plength p \<and>
     poffset p \<le> length txt \<and> take (Suc (length txt)) buf = txt @ [0] \<and> 0 \<notin> set (drop (poffset p) txt))"

definition kept :: "printbuffer \<Rightarrow> printbuffer \<Rightarrow> bool" where
  "kept p p1 \<longleftrightarrow> format p1 = format p \<and> noalloc p1 = noalloc p \<and> pdepth p1 = pdepth p \<and> (noalloc p \<longrightarrow> plength p1 = plength p)"

text \<open>How large the text can grow: the whole buffer when it is preallocated, \<open>INT_MAX\<close> when no hook ever fails.\<close>

definition unlimited :: "internal_hooks \<Rightarrow> bool" where
  "unlimited hooks \<longleftrightarrow> (\<forall>n. allocate hooks n \<noteq> None) \<and> (\<forall>f old n. reallocate hooks = Some f \<longrightarrow> f old n \<noteq> None)"

definition capacity :: "internal_hooks \<Rightarrow> printbuffer \<Rightarrow> nat" where
  "capacity hooks p = (if noalloc p then min (plength p) MAX_SIZE else if unlimited hooks then MAX_SIZE else 0)"

lemma kept_refl [simp]: "kept p p" and kept_trans: "kept p p1 \<Longrightarrow> kept p1 p2 \<Longrightarrow> kept p p2"
  by (simp_all add: kept_def)

lemma kept_capacity: "kept p p1 \<Longrightarrow> capacity hooks p1 = capacity hooks p"
  by (auto simp: kept_def capacity_def)

lemma ensure_kept: "ensure hooks p n = Some (r, p1) \<Longrightarrow> kept p p1"
  by (auto simp: ensure_def kept_def Let_def split: option.splits if_splits bind_splits)

lemma ensure_capacity:
  assumes "hooks_ok hooks" and "printbuffer_ok p" and "poffset p + needed + 1 \<le> capacity hooks p"
  shows "\<exists>q p1. ensure hooks p needed = Some (Some q, p1)"
proof -
  obtain buf where buf: "pbuffer p = Some buf" "length buf = plength p" "poffset p < plength p"
    using assms(2) by (auto simp: printbuffer_ok_def split: option.splits)
  obtain q p1 where e: "ensure hooks p needed = Some (q, p1)" using ensure_spec [OF assms(1,2), of needed] by auto
  moreover have "q \<noteq> None"
    using assms(3) buf e by (auto simp: ensure_def capacity_def unlimited_def Let_def split: option.splits if_splits bind_splits) (metis option.distinct(1))+
  ultimately show ?thesis by auto
qed

lemma out_ok: "out p txt \<Longrightarrow> printbuffer_ok p"
  by (auto simp: out_def printbuffer_ok_def split: option.splits)

text \<open>What one step of printing does: a success gives the predicate \<open>Q\<close>, and enough capacity gives success.\<close>

definition steps :: "internal_hooks \<Rightarrow> printbuffer \<Rightarrow> nat \<Rightarrow> (printbuffer \<Rightarrow> bool) \<Rightarrow> (bool \<times> printbuffer) option \<Rightarrow> bool" where
  "steps hooks p sz Q r \<longleftrightarrow> (case r of None \<Rightarrow> False
     | Some (ok, p1) \<Rightarrow> (ok \<longrightarrow> Q p1) \<and> (sz \<le> capacity hooks p \<longrightarrow> ok))"

lemma steps_True: "Q p1 \<Longrightarrow> steps hooks p sz Q (Some (True, p1))"
  by (simp add: steps_def)

lemma steps_and_then:
  assumes "steps hooks p n1 Q1 r" and "\<And>p1. Q1 p1 \<Longrightarrow> steps hooks p1 n2 Q (f p1)" and "\<And>p1. Q1 p1 \<Longrightarrow> capacity hooks p \<le> capacity hooks p1"
    and "n1 \<le> n" and "n2 \<le> n"
  shows "steps hooks p n Q (and_then r f)"
proof -
  obtain ok p1 where r: "r = Some (ok, p1)" using assms(1) by (auto simp: steps_def split: option.splits)
  show ?thesis
  proof (cases ok)
    case True
    with assms(1) r have "Q1 p1" by (simp add: steps_def)
    from assms(2,3) [OF this] r True assms(5) show ?thesis by (auto simp: and_then_def steps_def split: option.splits)
  next
    case False
    with assms(1,4) r show ?thesis by (auto simp: and_then_def steps_def)
  qed
qed

lemma put_all_take:
  assumes "i + length bs \<le> length c"
  shows "\<exists>c1. put_all c i bs = Some c1 \<and> length c1 = length c \<and> take (i + length bs) c1 = take i c @ bs"
  using put_all_spec [OF assms] assms by (intro exI [of _ "overwrite c i bs"]) (auto simp: overwrite_def)

lemma emit_spec:
  assumes "hooks_ok hooks" and "out p txt" and "length bs \<le> needed" and "advance \<le> length bs"
  shows "steps hooks p (length txt + needed + 1)
    (\<lambda>p1. kept p p1 \<and> (\<exists>buf. pbuffer p1 = Some buf \<and> length buf = plength p1 \<and> poffset p1 = length txt + advance \<and>
       length txt + needed < plength p1 \<and> take (length txt + length bs) buf = txt @ bs)) (emit hooks p needed bs advance)"
proof -
  have ok: "printbuffer_ok p" using out_ok [OF assms(2)] .
  obtain buf where buf: "pbuffer p = Some buf" "poffset p = length txt" "take (length txt) buf = txt"
    using assms(2) by (auto simp: out_def split: option.splits)
  from ensure_spec [OF assms(1) ok, of needed] consider
      p1 where "ensure hooks p needed = Some (None, p1)"
    | p1 where "ensure hooks p needed = Some (Some (poffset p), p1)" "room p needed p1" by blast
  then show ?thesis
  proof cases
    case 1
    then have "emit hooks p needed bs advance = Some (False, p1)" by (simp add: emit_def)
    moreover have "\<not> length txt + needed + 1 \<le> capacity hooks p"
      using ensure_capacity [OF assms(1) ok, of needed] 1 buf(2) by auto
    ultimately show ?thesis by (auto simp: steps_def)
  next
    case 2
    from 2(2) buf obtain buf1 where b1: "pbuffer p1 = Some buf1" "take (length txt) buf1 = txt" "poffset p1 = length txt"
      "length txt + needed + 1 \<le> plength p1" "length buf1 = plength p1"
      by (auto simp: room_def printbuffer_ok_def split: option.splits)
    obtain buf2 where b2: "put_all buf1 (length txt) bs = Some buf2" "length buf2 = length buf1" "take (length txt + length bs) buf2 = txt @ bs"
      using put_all_take [of "length txt" bs buf1] b1 assms(3) by auto
    have "emit hooks p needed bs advance = Some (True, p1\<lparr>pbuffer := Some buf2, poffset := length txt + advance\<rparr>)"
      using 2(1) b1 b2 buf(2) by (simp add: emit_def)
    moreover have "kept p (p1\<lparr>pbuffer := Some buf2, poffset := length txt + advance\<rparr>)"
      using ensure_kept [OF 2(1)] by (simp add: kept_def)
    ultimately show ?thesis using b1 b2 by (simp add: steps_True)
  qed
qed

lemma emit_out:
  assumes "hooks_ok hooks" and "out p txt" and "length bs \<le> needed"
  shows "steps hooks p (length txt + needed + 1) (\<lambda>p1. kept p p1 \<and> out p1 (txt @ bs)) (emit hooks p needed bs (length bs))"
  using emit_spec [OF assms order_refl] assms(3) by (auto simp: steps_def out_def split: option.splits)

lemma emit_terminated:
  assumes "hooks_ok hooks" and "out p txt" and "length bs < needed" and "0 \<notin> set bs" and "adv = 0 \<or> adv = length bs"
  shows "steps hooks p (length txt + needed + 1)
    (\<lambda>p1. kept p p1 \<and> pending p1 (txt @ bs) \<and> (adv = length bs \<longrightarrow> out p1 (txt @ bs))) (emit hooks p needed (bs @ [0]) adv)"
proof -
  have "take (length (txt @ bs)) buf = txt @ bs" if "take (length txt + length (bs @ [0])) buf = txt @ bs @ [0]" for buf :: "u8 list"
    using arg_cong [OF that, of "take (length (txt @ bs))"] by (simp add: min_def)
  with emit_spec [OF assms(1,2), of "bs @ [0]" needed adv] assms(3-5) show ?thesis
    by (auto simp: steps_def out_def pending_def split: option.splits)
qed

lemma update_offset_spec:
  assumes "pending p txt"
  shows "\<exists>p1. update_offset p = Some p1 \<and> out p1 txt \<and> kept p p1 \<and> pending p1 txt"
proof -
  obtain buf where buf: "pbuffer p = Some buf" "length buf = plength p" "length txt < plength p" "poffset p \<le> length txt"
    "take (Suc (length txt)) buf = txt @ [0]" "0 \<notin> set (drop (poffset p) txt)"
    using assms by (auto simp: pending_def split: option.splits)
  have split: "buf = take (poffset p) txt @ drop (poffset p) txt @ 0 # drop (Suc (length txt)) buf"
    using append_take_drop_id [of "Suc (length txt)" buf] buf(5) append_take_drop_id [of "poffset p" "txt"] by (metis append.assoc append_Cons append_Nil)
  have "strlen_at buf (poffset p) = Some (length txt - poffset p)"
    using strlen_from [OF buf(6), of "take (poffset p) txt" "drop (Suc (length txt)) buf"] split buf(4) by (simp add: min_absorb2)
  then have "update_offset p = Some (p\<lparr>poffset := length txt\<rparr>)" using buf(1,4) by (simp add: update_offset_def)
  moreover have "take (length txt) buf = txt" using arg_cong [OF buf(5), of "take (length txt)"] by (simp add: min_def)
  ultimately show ?thesis using buf by (auto simp: out_def kept_def pending_def)
qed

text \<open>Strings.\<close>

lemma enc_no_zero:
  assumes "b \<noteq> 0"
  shows "0 \<notin> set (enc b)"
proof (cases b rule: enc_cases)
  case control
  obtain d e where "hex_digit (hex_char (drop_bit 4 b)) = Some d" "hex_digit (hex_char (b AND 15)) = Some e"
    using control_digits [OF control(4)] .
  then have "hex_char (drop_bit 4 b) \<noteq> 0" "hex_char (b AND 15) \<noteq> 0" by (auto simp: hex_digit_def)
  with control show ?thesis by auto
qed (use assms in \<open>auto simp: simple_escape_def\<close>)

lemma quote_no_zero: "0 \<notin> set s \<Longrightarrow> 0 \<notin> set (json_quote s)"
  by (induction s) (auto simp: json_quote_def enc_no_zero)

lemma string_ptr_kept: "print_string_ptr hooks s p = Some (ok, p1) \<Longrightarrow> kept p p1"
  by (auto simp: print_string_ptr_def Let_def kept_def dest!: ensure_kept split: option.splits if_splits bind_splits prod.splits)

lemma string_ptr_fails:
  assumes "hooks_ok hooks" and "printbuffer_ok p" and "0 \<notin> set s" and "print_string_ptr hooks (Some (s @ 0 # r)) p = Some (False, p1)"
  shows "\<not> (poffset p + length (json_quote s) + 2 \<le> capacity hooks p)"
proof
  assume g: "poffset p + length (json_quote s) + 2 \<le> capacity hooks p"
  have count: "count_escapes (s @ 0 # r) 0 0 = Some (length s, sum_list (map escape_size s))"
    using count_escapes_spec [OF assms(3), of "[]" r 0] by simp
  have len: "length (json_quote s) + 1 = length s + sum_list (map escape_size s) + 3"
    by (simp add: json_quote_def quote_length del: length_concat)
  obtain q p2 where e: "ensure hooks p (length s + sum_list (map escape_size s) + 3) = Some (Some q, p2)"
  proof -
    have "poffset p + (length (json_quote s) + 1) + 1 \<le> capacity hooks p" using g by simp
    from ensure_capacity [OF assms(1,2) this] that show thesis unfolding len by blast
  qed
  then have "room p (length s + sum_list (map escape_size s) + 3) p2"
    using ensure_spec [OF assms(1,2), of "length s + sum_list (map escape_size s) + 3"] by auto
  then obtain buf where "pbuffer p2 = Some buf" by (auto simp: room_def)
  with assms(4) count e show False
    by (auto simp: print_string_ptr_def Let_def split: option.splits if_splits bind_splits)
qed

lemma c_text_split:
  assumes "c_text blk = Some s"
  obtains r where "blk = s @ 0 # r" and "0 \<notin> set s"
  using assms terminated_split [of blk] by (auto simp: c_text_def terminated_def split: if_splits)

lemma string_steps:
  assumes "hooks_ok hooks" and "out p txt" and "c_text blk = Some s"
  shows "steps hooks p (length txt + length (json_quote s) + 2) (\<lambda>p1. kept p p1 \<and> pending p1 (txt @ json_quote s))
    (print_string_ptr hooks (Some blk) p)"
proof -
  obtain r where blk: "blk = s @ 0 # r" and z: "0 \<notin> set s" using c_text_split [OF assms(3)] .
  have ok: "printbuffer_ok p" using out_ok [OF assms(2)] .
  obtain buf where buf: "pbuffer p = Some buf" "poffset p = length txt" "take (length txt) buf = txt"
    using assms(2) by (auto simp: out_def split: option.splits)
  from print_string_ptr_spec [OF assms(1) ok z buf(1), of r] consider
      p1 where "print_string_ptr hooks (Some blk) p = Some (False, p1)"
    | p1 buf1 where "print_string_ptr hooks (Some blk) p = Some (True, p1)" "pbuffer p1 = Some buf1" "printbuffer_ok p1"
        "poffset p1 = poffset p" "poffset p + length (json_quote s) + 2 \<le> plength p1"
        "take (poffset p + length (json_quote s) + 1) buf1 = take (poffset p) buf @ json_quote s @ [0]"
    unfolding blk by blast
  then show ?thesis
  proof cases
    case 1
    with string_ptr_fails [OF assms(1) ok z, of r p1] blk buf(2) show ?thesis by (simp add: steps_def)
  next
    case 2
    have "pending p1 (txt @ json_quote s)" using 2 buf quote_no_zero [OF z]
      by (auto simp: pending_def printbuffer_ok_def)
    with 2(1) string_ptr_kept [OF 2(1)] show ?thesis by (simp add: steps_def)
  qed
qed

section \<open>Printing a tree\<close>

definition fp_ok :: "fp_ops \<Rightarrow> bool" where
  "fp_ok F \<longleftrightarrow> (\<forall>d. length (sprintf_15g F d) < 26 \<and> 0 \<notin> set (sprintf_15g F d) \<and> length (sprintf_17g F d) < 26 \<and> 0 \<notin> set (sprintf_17g F d))"

text \<open>The contract of a printer: the text of the value is appended, whatever was printed before.\<close>

definition prints :: "internal_hooks \<Rightarrow> fp_ops \<Rightarrow> json \<Rightarrow> printbuffer \<Rightarrow> u8 list \<Rightarrow> (bool \<times> printbuffer) option \<Rightarrow> bool" where
  "prints hooks F v p txt r \<longleftrightarrow> steps hooks p (length txt + length (json_text F (format p) (pdepth p) v) + 3)
     (\<lambda>p1. kept p p1 \<and> pending p1 (txt @ json_text F (format p) (pdepth p) v)) r"

definition tree_printer :: "internal_hooks \<Rightarrow> cjson_h \<Rightarrow> fp_ops \<Rightarrow> items \<Rightarrow> nat \<Rightarrow> printer \<Rightarrow> bool" where
  "tree_printer hooks H F h n pv \<longleftrightarrow> (\<forall>t v p txt. own H h t \<and> json_of H h t = Some v \<and> length (addrs t) \<le> n \<and> out p txt \<longrightarrow>
     prints hooks F v p txt (pv (root t) p))"

lemma steps_mono: "steps hooks p n Q r \<Longrightarrow> n \<le> m \<Longrightarrow> (\<And>p1. Q p1 \<Longrightarrow> Q' p1) \<Longrightarrow> steps hooks p m Q' r"
  by (auto simp: steps_def split: option.splits)

lemma literal_prints:
  assumes "hooks_ok hooks" and "out p txt" and "json_text F (format p) (pdepth p) v = bs" and "0 \<notin> set bs" and "length bs < needed"
    and "needed \<le> length bs + 2" and "adv = 0 \<or> adv = length bs"
  shows "prints hooks F v p txt (emit hooks p needed (bs @ [0]) adv)"
  unfolding prints_def assms(3) by (rule steps_mono [OF emit_terminated [OF assms(1,2,5,4,7)]]) (use assms(6) in auto)

lemma number_text_ok:
  assumes "fp_ok F"
  obtains s where "number_text F d = Some s" and "length s < 26" and "0 \<notin> set s"
proof -
  have "\<exists>s. number_text F d = Some s \<and> length s < 26 \<and> 0 \<notin> set s"
    using assms by (auto simp: fp_ok_def number_text_def into_number_buffer_def split: option.splits)
  then show thesis using that by blast
qed

lemma dot_bytes_id [simp]: "dot_bytes s = s"
  by (simp add: dot_bytes_def get_decimal_point_def map_idI)

lemma number_prints:
  assumes "hooks_ok hooks" and "fp_ok F" and "out p txt"
  shows "prints hooks F (JNumber (valuedouble x)) p txt (print_number F hooks x p)"
proof -
  obtain s where s: "number_text F (valuedouble x) = Some s" "length s < 26" "0 \<notin> set s" using number_text_ok [OF assms(2)] .
  then have "print_number F hooks x p = emit hooks p (length s + 1) (s @ [0]) (length s)" by (simp add: print_number_def Let_def)
  with literal_prints [OF assms(1,3), of F "JNumber (valuedouble x)" s "length s + 1" "length s"] s show ?thesis by simp
qed

lemma string_prints:
  assumes "hooks_ok hooks" and "out p txt" and "c_text blk = Some s"
  shows "prints hooks F (JString s) p txt (print_string_ptr hooks (Some blk) p)"
  unfolding prints_def by (rule steps_mono [OF string_steps [OF assms]]) auto

text \<open>
  Composition: steps that keep the mode and the depth of the buffer. After a printed value or key
  the offset is brought to the end of the text.
\<close>

abbreviation does :: "internal_hooks \<Rightarrow> printbuffer \<Rightarrow> nat \<Rightarrow> (printbuffer \<Rightarrow> bool) \<Rightarrow> (bool \<times> printbuffer) option \<Rightarrow> bool" where
  "does hooks p n Q r \<equiv> steps hooks p n (\<lambda>q. kept p q \<and> Q q) r"

lemma does_then:
  assumes "does hooks p n1 R r" and "\<And>p1. R p1 \<Longrightarrow> kept p p1 \<Longrightarrow> does hooks p1 n Q (f p1)" and "n1 \<le> n"
  shows "does hooks p n Q (and_then r f)"
proof (rule steps_and_then [OF assms(1) _ _ assms(3) order_refl])
  fix p1
  assume p1: "kept p p1 \<and> R p1"
  then have a: "kept p p1" "R p1" by simp_all
  show "steps hooks p1 n (\<lambda>q. kept p q \<and> Q q) (f p1)"
    by (rule steps_mono [OF assms(2) [OF a(2,1)]]) (use kept_trans [OF a(1)] in auto)
  show "capacity hooks p \<le> capacity hooks p1" using kept_capacity [of p p1] p1 by simp
qed

lemma does_update:
  assumes "pending p1 txt" and "\<And>p2. out p2 txt \<Longrightarrow> kept p1 p2 \<Longrightarrow> does hooks p2 n Q (f p2)"
  shows "does hooks p1 n Q (do { p2 \<leftarrow> update_offset p1; f p2 })"
proof -
  obtain p2 where p2: "update_offset p1 = Some p2" "out p2 txt" "kept p1 p2" using update_offset_spec [OF assms(1)] by blast
  have "steps hooks p1 n (\<lambda>q. kept p2 q \<and> Q q) (f p2)"
    using assms(2) [OF p2(2,3)] unfolding steps_def kept_capacity [OF p2(3)] .
  then have "does hooks p1 n Q (f p2)" by (rule steps_mono) (use kept_trans [OF p2(3)] in blast)+
  with p2(1) show ?thesis by simp
qed

lemma does_mono: "does hooks p n Q r \<Longrightarrow> n \<le> m \<Longrightarrow> (\<And>p1. Q p1 \<Longrightarrow> Q' p1) \<Longrightarrow> does hooks p m Q' r"
  by (erule steps_mono) auto

lemma does_emit:
  assumes "hooks_ok hooks" and "out p txt" and "length bs \<le> needed" and "length txt + needed < n" and "adv = length bs"
  shows "does hooks p n (\<lambda>q. out q (txt @ bs)) (emit hooks p needed bs adv)"
  using does_mono [OF emit_out [OF assms(1-3)]] assms(4,5) by simp

lemma does_emit0:
  assumes "hooks_ok hooks" and "out p txt" and "length bs < needed" and "0 \<notin> set bs" and "length txt + needed < n" and "adv = length bs"
  shows "does hooks p n (\<lambda>q. out q (txt @ bs)) (emit hooks p needed (bs @ [0]) adv)"
  using does_mono [OF emit_terminated [OF assms(1-4), of adv]] assms(5,6) by simp

lemma join_Cons: "xs \<noteq> [] \<Longrightarrow> join sep (x # xs) = x @ sep @ join sep xs"
  by (cases xs) simp_all

text \<open>Walking along the children: the first child, its value and the rest.\<close>

lemma walk_Cons:
  assumes "list_all (own H h) (t # ts)" and "dseg h pr (map root (t # ts)) 0"
  obtains x where "root t \<noteq> 0" and "jget h (root t) = Some x" and "nxt x = first (map root ts) 0" and "nxt x \<noteq> 0 \<longleftrightarrow> ts \<noteq> []"
    and "dseg h (root t) (map root ts) 0" and "own H h t" and "list_all (own H h) ts"
proof -
  have r: "root t \<noteq> 0" using own_root [of H h t] assms(1) by simp
  obtain x where x: "h (root t) = Some x" "nxt x = first (map root ts) 0" "dseg h (root t) (map root ts) 0"
    using assms(2) by (auto split: option.splits)
  have "first (map root ts) 0 \<noteq> 0 \<longleftrightarrow> ts \<noteq> []"
  proof (cases ts)
    case (Cons u us)
    then show ?thesis using own_root [of H h u] assms(1) by simp
  qed simp
  with r x assms(1) that show thesis by (simp add: jget_def)
qed

lemma tree_printerD:
  assumes "tree_printer hooks H F h n pv" and "own H h t" and "json_of H h t = Some v" and "length (addrs t) \<le> n" and "out p txt"
    and "format p = fmt" and "pdepth p = d"
  shows "does hooks p (length txt + length (json_text F fmt d v) + 3) (\<lambda>q. pending q (txt @ json_text F fmt d v)) (pv (root t) p)"
  using assms by (auto simp: tree_printer_def prints_def)

definition element_texts :: "fp_ops \<Rightarrow> bool \<Rightarrow> nat \<Rightarrow> json list \<Rightarrow> u8 list" where
  "element_texts F fmt d vs = join (if fmt then [44, 32] else [44]) (map (json_text F fmt d) vs)"

lemma element_texts_simps:
  "element_texts F fmt d [] = []"
  "element_texts F fmt d (v # vs) = json_text F fmt d v @ (if vs = [] then [] else (if fmt then [44, 32] else [44]) @ element_texts F fmt d vs)"
  by (cases vs; simp add: element_texts_def)+

lemma elements_print:
  assumes hooks: "hooks_ok hooks" and pv: "tree_printer hooks H F h n pv"
  shows "list_all (own H h) ts \<Longrightarrow> map (json_of H h) ts = map Some vs \<Longrightarrow> dseg h pr (map root ts) 0 \<Longrightarrow>
    (\<And>t. t \<in> set ts \<Longrightarrow> length (addrs t) \<le> n) \<Longrightarrow> length ts < m \<Longrightarrow> out p txt \<Longrightarrow> format p = fmt \<Longrightarrow> pdepth p = d \<Longrightarrow>
    does hooks p (length txt + length (element_texts F fmt d vs) + 3) (\<lambda>q. out q (txt @ element_texts F fmt d vs))
      (print_elements m pv hooks h (first (map root ts) 0) p)"
proof (induction ts arbitrary: m p "txt" vs pr)
  case Nil
  then obtain m' where "m = Suc m'" by (cases m) auto
  with Nil show ?case by (simp add: steps_def element_texts_simps)
next
  case (Cons t ts)
  obtain m' where m: "m = Suc m'" using Cons.prems(5) by (cases m) auto
  obtain v vs' where vs: "vs = v # vs'" "json_of H h t = Some v" "map (json_of H h) ts = map Some vs'" using Cons.prems(2) by auto
  then have len: "length ts = length vs'" by (metis length_map)
  obtain x where x: "root t \<noteq> 0" "jget h (root t) = Some x" "nxt x = first (map root ts) 0" "nxt x \<noteq> 0 \<longleftrightarrow> ts \<noteq> []"
    "dseg h (root t) (map root ts) 0" "own H h t" "list_all (own H h) ts" using walk_Cons [OF Cons.prems(1,3)] .
  define S where "S = (if ts = [] then [] else if fmt then [44, 32] else [44 :: u8])"
  let ?T = "json_text F fmt d v" and ?sep = "if fmt then [44, 32] else [44 :: u8]"
  have E: "element_texts F fmt d vs = ?T @ S @ element_texts F fmt d vs'"
    using vs(1) len by (auto simp: S_def element_texts_simps)
  let ?n = "length txt + length (element_texts F fmt d vs) + 3"
  have rest: "does hooks p2 ?n (\<lambda>q. out q (txt @ element_texts F fmt d vs)) (print_elements m' pv hooks h (nxt x) p2)"
    if "out p2 ((txt @ ?T) @ S)" "kept p p2" for p2
  proof -
    have "does hooks p2 (length ((txt @ ?T) @ S) + length (element_texts F fmt d vs') + 3)
        (\<lambda>q. out q (((txt @ ?T) @ S) @ element_texts F fmt d vs')) (print_elements m' pv hooks h (first (map root ts) 0) p2)"
      by (rule Cons.IH [OF x(7) vs(3) x(5)]) (use Cons.prems that m in \<open>auto simp: kept_def\<close>)
    then show ?thesis by (simp add: E x(3) add.assoc)
  qed
  have step: "does hooks p2 ?n (\<lambda>q. out q (txt @ element_texts F fmt d vs))
      (if nxt x \<noteq> 0
       then let len = (if format p2 then 2 else 1) in
         and_then (emit hooks p2 (len + 1) ([44] @ (if format p2 then [32] else []) @ [0]) len) (\<lambda>p3. print_elements m' pv hooks h (nxt x) p3)
       else print_elements m' pv hooks h (nxt x) p2)" if p2: "out p2 (txt @ ?T)" "kept p p2" for p2
  proof (cases "ts = []")
    case True
    with rest [of p2] p2 x(4) show ?thesis by (simp add: S_def)
  next
    case False
    have "does hooks p2 ?n (\<lambda>q. out q (txt @ element_texts F fmt d vs))
        (and_then (emit hooks p2 (length S + 1) (S @ [0]) (length S)) (\<lambda>p3. print_elements m' pv hooks h (nxt x) p3))"
    proof (rule does_then [OF does_emit0 [OF hooks p2(1), where n = ?n]])
      fix p3
      assume "out p3 ((txt @ ?T) @ S)" "kept p2 p3"
      then show "does hooks p3 ?n (\<lambda>q. out q (txt @ element_texts F fmt d vs)) (print_elements m' pv hooks h (nxt x) p3)"
        using rest kept_trans [OF p2(2)] by blast
    qed (simp_all add: E S_def)
    moreover have "format p2 = fmt" using p2(2) Cons.prems(7) by (simp add: kept_def)
    ultimately show ?thesis using x(4) False by (cases fmt) (simp_all add: S_def numeral_2_eq_2 numeral_3_eq_3)
  qed
  have "does hooks p (length txt + length ?T + 3) (\<lambda>q. pending q (txt @ ?T)) (pv (root t) p)"
    by (rule tree_printerD [OF pv x(6) vs(2) _ Cons.prems(6-8)]) (use Cons.prems(4) in simp)
  then have "does hooks p ?n (\<lambda>q. out q (txt @ element_texts F fmt d vs))
      (and_then (pv (root t) p) (\<lambda>p1. do { p2 \<leftarrow> update_offset p1;
         if nxt x \<noteq> 0
         then let len = (if format p2 then 2 else 1) in
           and_then (emit hooks p2 (len + 1) ([44] @ (if format p2 then [32] else []) @ [0]) len) (\<lambda>p3. print_elements m' pv hooks h (nxt x) p3)
         else print_elements m' pv hooks h (nxt x) p2 }))"
  proof (rule does_then)
    fix p1
    assume p1: "pending p1 (txt @ ?T)" "kept p p1"
    show "does hooks p1 ?n (\<lambda>q. out q (txt @ element_texts F fmt d vs)) (do { p2 \<leftarrow> update_offset p1;
         if nxt x \<noteq> 0
         then let len = (if format p2 then 2 else 1) in
           and_then (emit hooks p2 (len + 1) ([44] @ (if format p2 then [32] else []) @ [0]) len) (\<lambda>p3. print_elements m' pv hooks h (nxt x) p3)
         else print_elements m' pv hooks h (nxt x) p2 })"
      by (rule does_update [OF p1(1)], rule step) (use kept_trans [OF p1(2)] in auto)
  qed (simp add: E)
  then show ?case using x(1,2) by (simp add: m)
qed

definition member_texts :: "fp_ops \<Rightarrow> bool \<Rightarrow> nat \<Rightarrow> (u8 list \<times> json) list \<Rightarrow> u8 list" where
  "member_texts F fmt d kvs =
     join (if fmt then [44, 10] else [44]) (map (\<lambda>kv. member_text fmt d (fst kv) (json_text F fmt d (snd kv))) kvs) @
     (if fmt \<and> kvs \<noteq> [] then [10] else [])"

lemma member_texts_simps:
  "member_texts F fmt d [] = []"
  "member_texts F fmt d (kv # kvs) = member_text fmt d (fst kv) (json_text F fmt d (snd kv)) @
     (if kvs = [] then [] else [44]) @ (if fmt then [10] else []) @ member_texts F fmt d kvs"
  by (cases kvs; simp add: member_texts_def)+

lemma key_atE:
  assumes "key_at h p = Some k" and "h p = Some x"
  obtains blk where "item_string x = Some blk" and "c_text blk = Some k"
  using assms by (auto simp: key_at_def split: bind_splits)

text \<open>One member up to its value.\<close>

lemma member_head:
  assumes hooks: "hooks_ok hooks" and out: "out p txt" and fmt: "format p = fmt" "pdepth p = d"
    and key: "item_string x = Some blk" "c_text blk = Some k"
    and n: "length txt + length (member_text fmt d k []) + 3 \<le> n"
    and f: "\<And>q. out q (txt @ member_text fmt d k []) \<Longrightarrow> kept p q \<Longrightarrow> does hooks q n Q (f q)"
  shows "does hooks p n Q
    (and_then (if format p then emit hooks p (pdepth p) (replicate (pdepth p) 9) (pdepth p) else Some (True, p)) (\<lambda>p1.
     and_then (print_string_ptr hooks (item_string x) p1) (\<lambda>p2. do {
       p3 \<leftarrow> update_offset p2;
       and_then (emit hooks p3 (if format p3 then 2 else 1) ([58] @ (if format p3 then [9] else [])) (if format p3 then 2 else 1)) f
     })))"
proof (rule does_then [where ?n1.0 = n])
  let ?T = "txt @ (if fmt then tabs d else [])"
  show "does hooks p n (\<lambda>q. out q ?T)
      (if format p then emit hooks p (pdepth p) (replicate (pdepth p) 9) (pdepth p) else Some (True, p))"
  proof (cases fmt)
    case True
    then show ?thesis using does_emit [OF hooks out, of "tabs d" d n d] n fmt by (simp add: tabs_def member_text_def)
  next
    case False
    then show ?thesis using out fmt by (simp add: steps_def)
  qed
  fix p1
  assume p1: "out p1 ?T" "kept p p1"
  show "does hooks p1 n Q (and_then (print_string_ptr hooks (item_string x) p1) (\<lambda>p2. do {
       p3 \<leftarrow> update_offset p2;
       and_then (emit hooks p3 (if format p3 then 2 else 1) ([58] @ (if format p3 then [9] else [])) (if format p3 then 2 else 1)) f
     }))"
    unfolding key(1)
  proof (rule does_then [OF string_steps [OF hooks p1(1) key(2)]])
    fix p2
    assume p2: "pending p2 (?T @ json_quote k)" "kept p1 p2"
    show "does hooks p2 n Q (do { p3 \<leftarrow> update_offset p2;
        and_then (emit hooks p3 (if format p3 then 2 else 1) ([58] @ (if format p3 then [9] else [])) (if format p3 then 2 else 1)) f })"
    proof (rule does_update [OF p2(1)])
      fix p3
      assume p3: "out p3 (?T @ json_quote k)" "kept p2 p3"
      have k3: "kept p p3" using kept_trans [OF kept_trans [OF p1(2) p2(2)] p3(2)] .
      let ?c = "if fmt then [58, 9] else [58 :: u8]"
      have "does hooks p3 n Q (and_then (emit hooks p3 (length ?c) ?c (length ?c)) f)"
      proof (rule does_then [OF does_emit [OF hooks p3(1), where n = n]])
        fix p4
        assume "out p4 ((?T @ json_quote k) @ ?c)" "kept p3 p4"
        then show "does hooks p4 n Q (f p4)" using f [of p4] kept_trans [OF k3, of p4] by (simp add: member_text_def)
      qed (use n in \<open>auto simp: member_text_def\<close>)
      moreover have "format p3 = fmt" using k3 fmt by (simp add: kept_def)
      ultimately show "does hooks p3 n Q
          (and_then (emit hooks p3 (if format p3 then 2 else 1) ([58] @ (if format p3 then [9] else [])) (if format p3 then 2 else 1)) f)"
        by (cases fmt) (simp_all add: numeral_2_eq_2)
    qed
  qed (use n in \<open>simp add: member_text_def\<close>)
qed simp

lemma members_print:
  assumes hooks: "hooks_ok hooks" and pv: "tree_printer hooks H F h n pv"
  shows "list_all (own H h) ts \<Longrightarrow> map (json_of H h) ts = map (\<lambda>kv. Some (snd kv)) kvs \<Longrightarrow> map (\<lambda>t. key_at h (root t)) ts = map (\<lambda>kv. Some (fst kv)) kvs \<Longrightarrow>
    dseg h pr (map root ts) 0 \<Longrightarrow> (\<And>t. t \<in> set ts \<Longrightarrow> length (addrs t) \<le> n) \<Longrightarrow> length ts < m \<Longrightarrow> out p txt \<Longrightarrow> format p = fmt \<Longrightarrow> pdepth p = d \<Longrightarrow>
    does hooks p (length txt + length (member_texts F fmt d kvs) + 3) (\<lambda>q. out q (txt @ member_texts F fmt d kvs))
      (print_members m pv hooks h (first (map root ts) 0) p)"
proof (induction ts arbitrary: m p "txt" kvs pr)
  case Nil
  then obtain m' where "m = Suc m'" by (cases m) auto
  with Nil show ?case by (simp add: steps_def member_texts_simps)
next
  case (Cons t ts)
  obtain m' where m: "m = Suc m'" using Cons.prems(6) by (cases m) auto
  obtain k v kvs' where kvs: "kvs = (k, v) # kvs'" "json_of H h t = Some v" "key_at h (root t) = Some k"
    "map (json_of H h) ts = map (\<lambda>kv. Some (snd kv)) kvs'" "map (\<lambda>t. key_at h (root t)) ts = map (\<lambda>kv. Some (fst kv)) kvs'"
    using Cons.prems(2,3) by (cases kvs) auto
  have len: "length ts = length kvs'" using kvs(4) by (metis length_map)
  obtain x where x: "root t \<noteq> 0" "jget h (root t) = Some x" "nxt x = first (map root ts) 0" "nxt x \<noteq> 0 \<longleftrightarrow> ts \<noteq> []"
    "dseg h (root t) (map root ts) 0" "own H h t" "list_all (own H h) ts" using walk_Cons [OF Cons.prems(1,4)] .
  obtain blk where blk: "item_string x = Some blk" "c_text blk = Some k"
    using key_atE [OF kvs(3), of x] x(1,2) by (auto simp: jget_def)
  define S where "S = (if ts = [] then [] else [44]) @ (if fmt then [10] else [] :: u8 list)"
  let ?M = "member_text fmt d k []" and ?T = "json_text F fmt d v" and ?n = "length txt + length (member_texts F fmt d kvs) + 3"
  have E: "member_texts F fmt d kvs = ?M @ ?T @ S @ member_texts F fmt d kvs'"
    using kvs(1) len by (auto simp: S_def member_texts_simps member_text_def)
  have rest: "does hooks q ?n (\<lambda>q. out q (txt @ member_texts F fmt d kvs)) (print_members m' pv hooks h (nxt x) q)"
    if "out q (((txt @ ?M) @ ?T) @ S)" "kept p q" for q
  proof -
    have "does hooks q (length (((txt @ ?M) @ ?T) @ S) + length (member_texts F fmt d kvs') + 3)
        (\<lambda>q. out q ((((txt @ ?M) @ ?T) @ S) @ member_texts F fmt d kvs')) (print_members m' pv hooks h (first (map root ts) 0) q)"
      by (rule Cons.IH [OF x(7) kvs(4,5) x(5)]) (use Cons.prems that m in \<open>auto simp: kept_def\<close>)
    then show ?thesis by (simp add: E x(3) add.assoc)
  qed
  have tail: "does hooks p6 ?n (\<lambda>q. out q (txt @ member_texts F fmt d kvs))
      (let len = (if format p6 then 1 else 0) + (if nxt x \<noteq> 0 then 1 else 0) in
       and_then (emit hooks p6 (len + 1) ((if nxt x \<noteq> 0 then [44] else []) @ (if format p6 then [10] else []) @ [0]) len) (\<lambda>p7.
         print_members m' pv hooks h (nxt x) p7))" if p6: "out p6 ((txt @ ?M) @ ?T)" "kept p p6" for p6
  proof -
    have "does hooks p6 ?n (\<lambda>q. out q (txt @ member_texts F fmt d kvs))
        (and_then (emit hooks p6 (length S + 1) (S @ [0]) (length S)) (\<lambda>p7. print_members m' pv hooks h (nxt x) p7))"
    proof (rule does_then [OF does_emit0 [OF hooks p6(1), where n = ?n]])
      fix p7
      assume "out p7 (((txt @ ?M) @ ?T) @ S)" "kept p6 p7"
      then show "does hooks p7 ?n (\<lambda>q. out q (txt @ member_texts F fmt d kvs)) (print_members m' pv hooks h (nxt x) p7)"
        using rest kept_trans [OF p6(2)] by blast
    qed (auto simp: E S_def)
    moreover have "format p6 = fmt" using p6(2) Cons.prems(8) by (simp add: kept_def)
    ultimately show ?thesis using x(4) by (cases fmt; cases "ts = []") (simp_all add: S_def)
  qed
  show ?case unfolding m
  proof -
    let ?K = "\<lambda>p4. and_then (pv (root t) p4) (\<lambda>p5. do {
            p6 \<leftarrow> update_offset p5;
            let len = (if format p6 then 1 else 0) + (if nxt x \<noteq> 0 then 1 else 0);
            and_then (emit hooks p6 (len + 1) ((if nxt x \<noteq> 0 then [44] else []) @ (if format p6 then [10] else []) @ [0]) len) (\<lambda>p7.
              print_members m' pv hooks h (nxt x) p7)
          })"
    have K: "does hooks q ?n (\<lambda>q. out q (txt @ member_texts F fmt d kvs)) (?K q)" if q: "out q (txt @ ?M)" "kept p q" for q
    proof (rule does_then)
      show "does hooks q (length (txt @ ?M) + length ?T + 3) (\<lambda>r. pending r ((txt @ ?M) @ ?T)) (pv (root t) q)"
        by (rule tree_printerD [OF pv x(6) kvs(2) _ q(1)]) (use Cons.prems(5,8,9) q(2) in \<open>auto simp: kept_def\<close>)
      fix p5
      assume p5: "pending p5 ((txt @ ?M) @ ?T)" "kept q p5"
      show "does hooks p5 ?n (\<lambda>q. out q (txt @ member_texts F fmt d kvs)) (do {
            p6 \<leftarrow> update_offset p5;
            let len = (if format p6 then 1 else 0) + (if nxt x \<noteq> 0 then 1 else 0);
            and_then (emit hooks p6 (len + 1) ((if nxt x \<noteq> 0 then [44] else []) @ (if format p6 then [10] else []) @ [0]) len) (\<lambda>p7.
              print_members m' pv hooks h (nxt x) p7)
          })"
        by (rule does_update [OF p5(1)], rule tail) (use kept_trans [OF kept_trans [OF q(2) p5(2)]] in auto)
    qed (simp add: E)
    have "does hooks p ?n (\<lambda>q. out q (txt @ member_texts F fmt d kvs))
      (and_then (if format p then emit hooks p (pdepth p) (replicate (pdepth p) 9) (pdepth p) else Some (True, p)) (\<lambda>p1.
       and_then (print_string_ptr hooks (item_string x) p1) (\<lambda>p2. do {
         p3 \<leftarrow> update_offset p2;
         and_then (emit hooks p3 (if format p3 then 2 else 1) ([58] @ (if format p3 then [9] else [])) (if format p3 then 2 else 1)) ?K
       })))"
      by (rule member_head [OF hooks Cons.prems(7-9) blk _ K]) (simp_all add: E)
    then show "does hooks p ?n (\<lambda>q. out q (txt @ member_texts F fmt d kvs)) (print_members (Suc m') pv hooks h (first (map root (t # ts)) 0) p)"
      using x(1,2) by simp
  qed
qed

lemma kept_depth: "kept p p1 \<Longrightarrow> kept (p\<lparr>pdepth := d\<rparr>) (p1\<lparr>pdepth := d\<rparr>)"
  by (simp add: kept_def)

lemma out_depth [simp]: "out (p\<lparr>pdepth := d\<rparr>) txt = out p txt" "pending (p\<lparr>pdepth := d\<rparr>) txt = pending p txt"
  by (simp_all add: out_def pending_def split: option.split)

text \<open>Everything between the brackets of a container is printed one level deeper.\<close>

lemma nested_prints:
  assumes hooks: "hooks_ok hooks" and out: "out p txt" and d: "pdepth p = d"
    and a: "does hooks p n (\<lambda>q. out q (txt @ bs)) r"
    and body: "\<And>q. out q (txt @ bs) \<Longrightarrow> format q = format p \<Longrightarrow> pdepth q = Suc d \<Longrightarrow> does hooks q n (\<lambda>q. out q ((txt @ bs) @ cs)) (f q)"
    and close: "\<And>q. out q ((txt @ bs) @ cs) \<Longrightarrow> format q = format p \<Longrightarrow> pdepth q = Suc d \<Longrightarrow> does hooks q n (\<lambda>q. pending q (((txt @ bs) @ cs) @ ds)) (g q)"
  shows "does hooks p n (\<lambda>q. pending q (txt @ bs @ cs @ ds))
    (and_then r (\<lambda>p1. and_then (f (p1\<lparr>pdepth := pdepth p1 + 1\<rparr>)) (\<lambda>p2. and_then (g p2) (\<lambda>p3. Some (True, p3\<lparr>pdepth := pdepth p3 - 1\<rparr>)))))"
proof (rule does_then [OF a])
  fix p1
  assume p1: "out p1 (txt @ bs)" "kept p p1"
  let ?q = "p1\<lparr>pdepth := pdepth p1 + 1\<rparr>"
  have q: "out ?q (txt @ bs)" "format ?q = format p" "pdepth ?q = Suc d" "capacity hooks ?q = capacity hooks p1"
    using p1 d by (auto simp: kept_def capacity_def)
  have "does hooks ?q n (\<lambda>q. pending q (((txt @ bs) @ cs) @ ds)) (and_then (f ?q) g)"
    by (rule does_then [OF body [OF q(1-3)] _ order_refl], rule close) (use q in \<open>auto simp: kept_def\<close>)
  then have s: "steps hooks p1 n (\<lambda>r. kept ?q r \<and> pending r (((txt @ bs) @ cs) @ ds)) (and_then (f ?q) g)"
    unfolding steps_def q(4) .
  have eq: "and_then (f ?q) (\<lambda>p2. and_then (g p2) (\<lambda>p3. Some (True, p3\<lparr>pdepth := pdepth p3 - 1\<rparr>))) =
      and_then (and_then (f ?q) g) (\<lambda>p3. Some (True, p3\<lparr>pdepth := pdepth p3 - 1\<rparr>))"
    by (simp add: and_then_def split: option.splits bind_splits)
  show "does hooks p1 n (\<lambda>q. pending q (txt @ bs @ cs @ ds))
      (and_then (f ?q) (\<lambda>p2. and_then (g p2) (\<lambda>p3. Some (True, p3\<lparr>pdepth := pdepth p3 - 1\<rparr>))))"
    unfolding eq
    by (rule steps_and_then [OF s, where ?n2.0 = n]) (auto simp: kept_def capacity_def intro!: steps_True)
qed simp

lemma json_of_container:
  assumes "types_ok H" and "own H h t" and "json_of H h t = Some v"
  obtains (array) x vs where "h (root t) = Some x" and "item_type x AND 0xFF = cJSON_Array H" and "v = JArray vs"
      and "map (json_of H h) (subs t) = map Some vs"
  | (object) x kvs where "h (root t) = Some x" and "item_type x AND 0xFF = cJSON_Object H" and "v = JObject kvs"
      and "map (json_of H h) (subs t) = map (\<lambda>kv. Some (snd kv)) kvs" and "map (\<lambda>t. key_at h (root t)) (subs t) = map (\<lambda>kv. Some (fst kv)) kvs"
  | (scalar) x where "h (root t) = Some x" and "item_type x AND 0xFF \<noteq> cJSON_Array H" and "item_type x AND 0xFF \<noteq> cJSON_Object H"
      and "scalar_json H x = Some v"
proof -
  obtain p ts where t: "t = Nd p ts" by (cases t)
  obtain x where x: "h p = Some x" using own_root [OF assms(2)] t by auto
  consider "item_type x AND 0xFF = cJSON_Array H" | "item_type x AND 0xFF = cJSON_Object H"
    | "item_type x AND 0xFF \<noteq> cJSON_Array H" "item_type x AND 0xFF \<noteq> cJSON_Object H" by blast
  then show thesis
  proof cases
    case 1
    with assms(3) t x array show thesis by (auto simp: those_Some)
  next
    case 2
    then obtain ks vs where kv: "map (\<lambda>t. key_at h (root t)) ts = map Some ks" "map (json_of H h) ts = map Some vs" "v = JObject (zip ks vs)"
      using assms(3) t x types_ok_distinct(6) [OF assms(1)] by (auto simp: those_Some split: bind_splits)
    then have "length ks = length vs" by (metis length_map)
    with kv object [of x "zip ks vs"] 2 t x show thesis by (simp add: map_fst_zip_take map_snd_zip_take flip: map_map [of Some fst, unfolded comp_def] map_map [of Some snd, unfolded comp_def])
  next
    case 3
    with assms(3) t x scalar show thesis by (auto split: if_splits)
  qed
qed

lemma array_prints:
  assumes hooks: "hooks_ok hooks" and pv: "tree_printer hooks H F h n pv" and own: "list_all (own H h) ts" "dseg h pr (map root ts) 0"
    and vs: "map (json_of H h) ts = map Some vs" and n: "\<And>t. t \<in> set ts \<Longrightarrow> length (addrs t) \<le> n" "length ts < m"
    and chd: "chd x = first (map root ts) 0" and out: "out p txt"
  shows "prints hooks F (JArray vs) p txt (print_array m pv hooks h x p)"
proof -
  let ?d = "pdepth p" and ?T = "element_texts F (format p) (Suc (pdepth p)) vs"
  let ?n = "length txt + length (json_text F (format p) ?d (JArray vs)) + 3"
  have tx: "json_text F (format p) ?d (JArray vs) = [91] @ ?T @ [93]" by (simp add: element_texts_def)
  have "does hooks p ?n (\<lambda>q. pending q (txt @ [91] @ ?T @ [93])) (print_array m pv hooks h x p)"
    unfolding print_array_def
  proof (rule nested_prints [OF hooks out refl])
    show "does hooks p ?n (\<lambda>q. out q (txt @ [91])) (emit hooks p 1 [91] 1)"
      by (rule does_emit [OF hooks out]) (simp_all add: tx del: json_text.simps)
    show "does hooks q ?n (\<lambda>q. out q ((txt @ [91]) @ ?T)) (print_elements m pv hooks h (chd x) q)"
      if "out q (txt @ [91])" "format q = format p" "pdepth q = Suc ?d" for q
      unfolding chd by (rule does_mono [OF elements_print [OF hooks pv own(1) vs own(2) n that(1,2,3)]]) (simp_all add: tx del: json_text.simps)
    show "does hooks q ?n (\<lambda>q. pending q (((txt @ [91]) @ ?T) @ [93])) (emit hooks q 2 [93, 0] 0)"
      if "out q ((txt @ [91]) @ ?T)" for q
      using does_mono [OF emit_terminated [OF hooks that, of "[93]" 2 0], of ?n "\<lambda>q. pending q (((txt @ [91]) @ ?T) @ [93])"] by (simp add: tx del: json_text.simps)
  qed
  then show ?thesis unfolding prints_def tx by simp
qed

lemma object_prints:
  assumes hooks: "hooks_ok hooks" and pv: "tree_printer hooks H F h n pv" and own: "list_all (own H h) ts" "dseg h pr (map root ts) 0"
    and kvs: "map (json_of H h) ts = map (\<lambda>kv. Some (snd kv)) kvs" "map (\<lambda>t. key_at h (root t)) ts = map (\<lambda>kv. Some (fst kv)) kvs"
    and n: "\<And>t. t \<in> set ts \<Longrightarrow> length (addrs t) \<le> n" "length ts < m"
    and chd: "chd x = first (map root ts) 0" and out: "out p txt"
  shows "prints hooks F (JObject kvs) p txt (print_object m pv hooks h x p)"
proof -
  let ?d = "pdepth p" and ?fmt = "format p" and ?T = "member_texts F (format p) (Suc (pdepth p)) kvs"
  let ?a = "[123] @ (if ?fmt then [10] else [])" and ?z = "(if ?fmt then tabs ?d else []) @ [125]"
  let ?n = "length txt + length (json_text F ?fmt ?d (JObject kvs)) + 3"
  have tx: "json_text F ?fmt ?d (JObject kvs) = ?a @ ?T @ ?z" by (simp add: member_texts_def)
  have "does hooks p ?n (\<lambda>q. pending q (txt @ ?a @ ?T @ ?z)) (print_object m pv hooks h x p)"
    unfolding print_object_def Let_def
  proof (rule nested_prints [OF hooks out refl])
    show "does hooks p ?n (\<lambda>q. out q (txt @ ?a)) (emit hooks p ((if ?fmt then 2 else 1) + 1) ?a (if ?fmt then 2 else 1))"
      by (rule does_emit [OF hooks out]) (auto simp: tx simp del: json_text.simps)
    show "does hooks q ?n (\<lambda>q. out q ((txt @ ?a) @ ?T)) (print_members m pv hooks h (chd x) q)"
      if "out q (txt @ ?a)" "format q = ?fmt" "pdepth q = Suc ?d" for q
      unfolding chd by (rule does_mono [OF members_print [OF hooks pv own(1) kvs own(2) n that(1,2,3)]]) (simp_all add: tx del: json_text.simps)
    show "does hooks q ?n (\<lambda>q. pending q (((txt @ ?a) @ ?T) @ ?z))
        (emit hooks q (if format q then pdepth q + 1 else 2) ((if format q then replicate (pdepth q - 1) 9 else []) @ [125, 0]) 0)"
      if q: "out q ((txt @ ?a) @ ?T)" "format q = ?fmt" "pdepth q = Suc ?d" for q
      using does_mono [OF emit_terminated [OF hooks q(1), of ?z "if ?fmt then ?d + 2 else 2" 0], of ?n "\<lambda>q. pending q (((txt @ ?a) @ ?T) @ ?z)"] q(2,3)
        arg_cong [OF tx, of length]
      by (cases ?fmt) (simp_all add: tabs_def del: json_text.simps)
  qed
  then show ?thesis unfolding prints_def tx by simp
qed

lemma raw_distinct: "types_ok H \<Longrightarrow> cJSON_Raw H \<noteq> cJSON_String H \<and> cJSON_Raw H \<noteq> cJSON_Array H \<and> cJSON_Raw H \<noteq> cJSON_Object H \<and>
    cJSON_String H \<noteq> cJSON_Raw H \<and> cJSON_Array H \<noteq> cJSON_Raw H \<and> cJSON_Object H \<noteq> cJSON_Raw H"
  by (auto simp: types_ok_def)

lemma scalar_cases:
  assumes "scalar_json H x = Some v"
  obtains "item_type x AND 0xFF = cJSON_NULL H" "v = JNull" | "item_type x AND 0xFF = cJSON_False H" "v = JFalse"
    | "item_type x AND 0xFF = cJSON_True H" "v = JTrue" | "item_type x AND 0xFF = cJSON_Number H" "v = JNumber (valuedouble x)"
    | blk s where "item_type x AND 0xFF = cJSON_String H" "v = JString s" "valuestring x = Some blk" "c_text blk = Some s"
  using assms by (auto simp: scalar_json_def Let_def split: if_splits bind_splits)

lemma scalar_prints:
  assumes ok: "types_ok (env_h E)" "hooks_ok (env_hooks E)" "fp_ok F" and x: "h p = Some x" "p \<noteq> 0" and v: "scalar_json (env_h E) x = Some v"
    and out: "out pb txt"
  shows "prints (env_hooks E) F v pb txt (print_value (Suc n) E F h p pb)"
proof -
  have lit: "prints (env_hooks E) F v pb txt (emit (env_hooks E) pb k (bs @ [0]) 0)"
    if "json_text F (format pb) (pdepth pb) v = bs" "0 \<notin> set bs" "k = length bs + 1" for bs k
    by (rule literal_prints [OF ok(2) out that(1,2)]) (simp_all add: that(3))
  show ?thesis
  proof (cases rule: scalar_cases [OF v, case_names null false true num str])
    case null
    then show ?thesis using lit [of lit_null 5] x by (simp add: jget_def types_simps [OF ok(1)] lit_null_def)
  next
    case false
    then show ?thesis using lit [of lit_false 6] x by (simp add: jget_def types_simps [OF ok(1)] lit_false_def)
  next
    case true
    then show ?thesis using lit [of lit_true 5] x by (simp add: jget_def types_simps [OF ok(1)] lit_true_def)
  next
    case num
    then show ?thesis using number_prints [OF ok(2,3) out, of x] x by (simp add: jget_def types_simps [OF ok(1)])
  next
    case (str blk s)
    then show ?thesis using string_prints [OF ok(2) out str(4), of F] x raw_distinct [OF ok(1)]
      by (simp add: jget_def Let_def types_simps [OF ok(1)] print_string_def cJSON.defs)
  qed
qed

lemma addrs_sub: "t \<in> set ts \<Longrightarrow> length (addrs t) \<le> length (forest_addrs ts)"
  by (induction ts) auto

lemma forest_length: "length ts \<le> length (forest_addrs ts)"
proof (induction ts)
  case (Cons t ts)
  then show ?case by (cases t) simp
qed simp

lemma print_value_container:
  assumes "types_ok (env_h E)" and "h p = Some x" and "p \<noteq> 0"
  shows "item_type x AND 0xFF = cJSON_Array (env_h E) \<Longrightarrow>
      print_value (Suc n) E F h p pb = print_array n (print_value n E F h) (env_hooks E) h x pb"
    and "item_type x AND 0xFF = cJSON_Object (env_h E) \<Longrightarrow>
      print_value (Suc n) E F h p pb = print_object n (print_value n E F h) (env_hooks E) h x pb"
  using assms(2,3) raw_distinct [OF assms(1)] by (simp_all add: jget_def Let_def types_simps [OF assms(1)])

lemma value_printer:
  assumes ok: "types_ok (env_h E)" "hooks_ok (env_hooks E)" "fp_ok F"
  shows "tree_printer (env_hooks E) (env_h E) F h n (print_value (Suc n) E F h)"
proof (induction n)
  case 0
  have "addrs t \<noteq> []" for t by (cases t) simp
  then show ?case by (simp add: tree_printer_def)
next
  case (Suc n)
  show ?case
    unfolding tree_printer_def
  proof (intro allI impI, elim conjE)
    fix t v p and "txt" :: "u8 list"
    assume t: "own (env_h E) h t" "json_of (env_h E) h t = Some v" "length (addrs t) \<le> Suc n" "out p txt"
    obtain q ts where q: "t = Nd q ts" by (cases t)
    have r: "root t \<noteq> 0" using own_root [OF t(1)] by simp
    have own: "list_all (own (env_h E) h) ts" and kids: "kids h q (map root ts)" using t(1) q by simp_all
    obtain x pr where x: "h q = Some x" "chd x = first (map root ts) 0" "dseg h pr (map root ts) 0" using kidsE [OF kids] by metis
    have n: "length (addrs u) \<le> n" if "u \<in> set ts" for u using t(3) q addrs_sub [OF that] by simp
    have m: "length ts < Suc n" using t(3) q forest_length [of ts] by simp
    show "prints (env_hooks E) F v p txt (print_value (Suc (Suc n)) E F h (root t) p)"
    proof (cases rule: json_of_container [OF ok(1) t(1,2), case_names array object scalar])
      case (array y vs)
      then show ?thesis using array_prints [OF ok(2) Suc own x(3) _ n m x(2) t(4), of vs] x(1) q r print_value_container [OF ok(1), of h q y]
        by (simp del: print_value.simps)
    next
      case (object y kvs)
      then show ?thesis using object_prints [OF ok(2) Suc own x(3) _ _ n m x(2) t(4), of kvs] x(1) q r print_value_container [OF ok(1), of h q y]
        by (simp del: print_value.simps)
    next
      case (scalar y)
      then show ?thesis using scalar_prints [OF ok, of h q y v p "txt" "Suc n"] t(4) q r by simp
    qed
  qed
qed

text \<open>The printed text has no zero byte inside.\<close>

fun zero_free :: "json \<Rightarrow> bool" where
  "zero_free (JString s) = (0 \<notin> set s)"
| "zero_free (JArray vs) = list_all zero_free vs"
| "zero_free (JObject kvs) = list_all (\<lambda>kv. 0 \<notin> set (fst kv) \<and> zero_free (snd kv)) kvs"
| "zero_free v = True"

lemma c_text_no_zero: "c_text blk = Some s \<Longrightarrow> 0 \<notin> set s"
  by (elim c_text_split)

lemma json_of_zero_free:
  assumes "types_ok H"
  shows "own H h t \<Longrightarrow> json_of H h t = Some v \<Longrightarrow> zero_free v"
proof (induction t arbitrary: v)
  case (Nd p ts)
  have own: "own H h u" if "u \<in> set ts" for u using Nd.prems(1) that by (simp add: list_all_iff)
  have sub: "zero_free w" if "map (json_of H h) ts = map Some vs" "w \<in> set vs" for vs w
  proof -
    have "Some w \<in> set (map (json_of H h) ts)" using that by simp
    then obtain u where "u \<in> set ts" "json_of H h u = Some w" by auto
    with Nd.IH own show ?thesis by blast
  qed
  show ?case
  proof (cases rule: json_of_container [OF assms Nd.prems, case_names array object scalar])
    case (array x vs)
    with sub [of vs] show ?thesis by (simp add: list_all_iff)
  next
    case (object x kvs)
    have "0 \<notin> set (fst kv) \<and> zero_free (snd kv)" if "kv \<in> set kvs" for kv
    proof
      have "Some (fst kv) \<in> set (map (\<lambda>t. key_at h (root t)) ts)" using object(5) that by simp
      then show "0 \<notin> set (fst kv)" by (auto simp: key_at_def split: bind_splits dest: c_text_no_zero [OF sym])
      show "zero_free (snd kv)" using sub [of "map snd kvs" "snd kv"] object(4) that by simp
    qed
    with object(3) show ?thesis by (simp add: list_all_iff)
  next
    case (scalar x)
    from scalar(4) show ?thesis by (cases rule: scalar_cases) (auto dest: c_text_no_zero)
  qed
qed

lemma join_no_zero: "0 \<notin> set sep \<Longrightarrow> list_all (\<lambda>x. 0 \<notin> set x) xs \<Longrightarrow> (0 :: u8) \<notin> set (join sep xs)"
  by (induction sep xs rule: join.induct) auto

lemma text_no_zero: "fp_ok F \<Longrightarrow> zero_free v \<Longrightarrow> 0 \<notin> set (json_text F fmt d v)"
proof (induction F fmt d v rule: json_text.induct)
  case (4 F fmt d x)
  then show ?case using number_text_ok [of F x] by (metis json_text.simps(4) option.sel)
next
  case (6 F fmt d vs)
  have "0 \<notin> set (join (if fmt then [44, 32] else [44]) (map (json_text F fmt (Suc d)) vs))"
    by (rule join_no_zero) (use 6 in \<open>auto simp: list_all_iff\<close>)
  then show ?case by auto
next
  case (7 F fmt d kvs)
  have "0 \<notin> set (join (if fmt then [44, 10] else [44]) (map (\<lambda>kv. member_text fmt (Suc d) (fst kv) (json_text F fmt (Suc d) (snd kv))) kvs))"
    by (rule join_no_zero) (use 7 quote_no_zero in \<open>auto simp: list_all_iff member_text_def tabs_def\<close>)
  then show ?case by (auto simp: tabs_def)
qed (auto simp: lit_null_def lit_false_def lit_true_def quote_no_zero)

text \<open>The block that is returned is the text with its zero byte, nothing more.\<close>

lemma shrink_spec:
  assumes hooks: "hooks_ok hooks" and p: "out p txt" and z: "pending p txt"
  shows "\<exists>r. shrink hooks p = Some r \<and> (\<forall>blk. r = Some blk \<longrightarrow> blk = txt @ [0]) \<and> (unlimited hooks \<longrightarrow> r \<noteq> None)"
proof -
  obtain buf where buf: "pbuffer p = Some buf" "length buf = plength p" "length txt < plength p" "poffset p = length txt"
    "take (Suc (length txt)) buf = txt @ [0]"
    using p z by (auto simp: out_def pending_def split: option.splits)
  show ?thesis
  proof (cases "reallocate hooks")
    case (Some f)
    have "f buf (Suc (length txt)) = Some blk \<Longrightarrow> blk = txt @ [0]" for blk
      using hooks Some buf unfolding hooks_ok_def by fastforce
    with Some buf show ?thesis by (auto simp: shrink_def unlimited_def)
  next
    case None
    show ?thesis
    proof (cases "allocate hooks (Suc (length txt))")
      case (Some blk)
      then have "length blk = Suc (length txt)" using hooks by (simp add: hooks_ok_def)
      then have "memcpy blk 0 buf 0 (int (Suc (length txt))) = Some (txt @ [0])" using buf by (simp add: memcpy_def nat_add_distrib)
      with None Some buf show ?thesis by (simp add: shrink_def put_at_def min_absorb2)
    qed (use None buf in \<open>auto simp: shrink_def unlimited_def\<close>)
  qed
qed
section \<open>Whole trees\<close>

lemma out_empty: "length buf = n \<Longrightarrow> 0 < n \<Longrightarrow> out (empty_buffer (Some buf) n na fmt) []"
  by (simp add: out_def empty_buffer_def)

lemma print_value_prints:
  assumes "types_ok (env_h E)" and "hooks_ok (env_hooks E)" and "fp_ok F" and "own (env_h E) h t" and "json_of (env_h E) h t = Some v"
    and "length (addrs t) < n" and "length buf = len" and "0 < len"
  shows "prints (env_hooks E) F v (empty_buffer (Some buf) len na fmt) [] (print_value n E F h (root t) (empty_buffer (Some buf) len na fmt))"
proof -
  obtain m where m: "n = Suc m" "length (addrs t) \<le> m" using assms(6) by (cases n) auto
  show ?thesis
    using value_printer [OF assms(1-3), of h m] out_empty [OF assms(7,8), of na fmt] assms(4,5) m(2)
    unfolding tree_printer_def m(1) by blast
qed

lemma printsE:
  assumes "prints hooks F v (empty_buffer b n na fmt) [] r"
  obtains ok p1 where "r = Some (ok, p1)"
    and "ok \<Longrightarrow> pending p1 (json_text F fmt 0 v) \<and> kept (empty_buffer b n na fmt) p1"
    and "length (json_text F fmt 0 v) + 3 \<le> (if na then min n MAX_SIZE else if unlimited hooks then MAX_SIZE else 0) \<Longrightarrow> ok"
proof -
  obtain ok p1 where "r = Some (ok, p1)" using assms by (auto simp: prints_def steps_def split: option.splits)
  with assms that [of ok p1] show thesis by (simp add: prints_def steps_def capacity_def empty_buffer_def cong: if_cong)
qed

lemma print_block:
  assumes "types_ok (env_h E)" and "hooks_ok (env_hooks E)" and "fp_ok F" and "own (env_h E) h t" and "json_of (env_h E) h t = Some v"
    and "length (addrs t) < n"
  shows "\<exists>r. print n E F h (root t) fmt = Some r \<and> (r = None \<or> r = Some (json_text F fmt 0 v @ [0])) \<and>
    (unlimited (env_hooks E) \<and> length (json_text F fmt 0 v) + 3 \<le> MAX_SIZE \<longrightarrow> r \<noteq> None)"
proof (cases "allocate (env_hooks E) 256")
  case None
  then show ?thesis by (auto simp: print_def unlimited_def)
next
  case (Some buf)
  let ?p = "empty_buffer (Some buf) 256 False fmt" and ?s = "json_text F fmt 0 v"
  have "length buf = 256" using Some assms(2) by (simp add: hooks_ok_def)
  from print_value_prints [OF assms this zero_less_numeral, of False fmt] obtain ok p1 where
    p1: "print_value n E F h (root t) ?p = Some (ok, p1)" "ok \<Longrightarrow> pending p1 ?s \<and> kept ?p p1"
      "length ?s + 3 \<le> (if False then min 256 MAX_SIZE else if unlimited (env_hooks E) then MAX_SIZE else 0) \<Longrightarrow> ok"
    by (rule printsE) blast
  show ?thesis
  proof (cases ok)
    case True
    obtain p2 where p2: "update_offset p1 = Some p2" "out p2 ?s" "pending p2 ?s" using update_offset_spec p1(2) [OF True] by blast
    show ?thesis using shrink_spec [OF assms(2) p2(2,3)] Some p1(1) p2(1) True by (auto simp: print_def) (metis option.exhaust)
  qed (use Some p1 in \<open>auto simp: print_def\<close>)
qed

text \<open>
  C32. Printing a well-formed tree returns, and what it returns is either the null pointer, when the
  memory ran out, or a block that holds exactly the reference text of the value the tree stands for and
  its zero byte: the names and strings escaped, the separators, line breaks and tabs of the formatted
  form included. When no hook fails and the text is not longer than \<open>INT_MAX\<close> bytes, it succeeds.
\<close>

theorem print_text:
  assumes "types_ok (env_h E)" and "hooks_ok (env_hooks E)" and "fp_ok F" and "own (env_h E) h t" and "json_of (env_h E) h t = Some v"
    and "length (addrs t) < n"
  shows "\<exists>r. print n E F h (root t) fmt = Some r \<and> (r = None \<or> r = Some (json_text F fmt 0 v @ [0])) \<and>
    (unlimited (env_hooks E) \<and> length (json_text F fmt 0 v) + 3 \<le> MAX_SIZE \<longrightarrow> r \<noteq> None)"
  by (rule print_block [OF assms])

definition demo_fp :: fp_ops where
  "demo_fp = \<lparr>fp_isnan = (\<lambda>d. False), fp_isinf = (\<lambda>d. False), fp_fabs = id, fp_minus = (\<lambda>a b. a - b), fp_times = (\<lambda>a b. 0),
     fp_greater = (\<lambda>a b. b < a), fp_le = (\<lambda>a b. a \<le> b), DBL_EPSILON = 0, sprintf_15g = (\<lambda>d. [49]), sprintf_17g = (\<lambda>d. [49]),
     sscanf_lg = (\<lambda>s. Some 1)\<rparr>"

definition demo_node :: "u32 \<Rightarrow> u8 list option \<Rightarrow> u8 list option \<Rightarrow> nat \<Rightarrow> nat \<Rightarrow> nat \<Rightarrow> item" where
  "demo_node ty val key n p c = \<lparr>item_type = ty, valuestring = val, valueint = 0, valuedouble = 1, item_string = key, nxt = n, prv = p, chd = c\<rparr>"

text \<open>The items of \<open>{"k":[true,"a"]}\<close>.\<close>

definition demo_doc :: items where
  "demo_doc = [1 \<mapsto> demo_node (cJSON_Object demo_h) None None 0 0 2, 2 \<mapsto> demo_node (cJSON_Array demo_h) None (Some [107, 0]) 0 2 3,
     3 \<mapsto> demo_node (cJSON_True demo_h) None None 4 4 0, 4 \<mapsto> demo_node (cJSON_String demo_h) (Some [97, 0]) None 0 3 0]"

definition demo_tree :: atree where
  "demo_tree = Nd 1 [Nd 2 [Nd 3 [], Nd 4 []]]"

definition demo_json :: json where
  "demo_json = JObject [([107], JArray [JTrue, JString [97]])]"

lemma demo_doc_ok: "own demo_h demo_doc demo_tree" "json_of demo_h demo_doc demo_tree = Some demo_json"
  by code_simp+

lemma demo_fp_ok: "fp_ok demo_fp"
  by (simp add: fp_ok_def demo_fp_def)

theorem print_text_witness:
  "\<exists>r. print 5 demo_env demo_fp demo_doc (root demo_tree) False = Some r \<and> (r = None \<or> r = Some (json_text demo_fp False 0 demo_json @ [0])) \<and>
    (unlimited (env_hooks demo_env) \<and> length (json_text demo_fp False 0 demo_json) + 3 \<le> MAX_SIZE \<longrightarrow> r \<noteq> None)"
  by (rule print_text) (use demo_doc_ok demo_fp_ok in \<open>simp_all add: demo_env_def demo_tree_def\<close>)

text \<open>
  C33. \<open>cJSON_PrintPreallocated\<close> stays inside the buffer of the caller; when it reports success, the buffer
  begins with the reference text and a zero byte and has its old size; and three bytes more than the
  text needs, its zero byte not counted, are always enough for it to succeed.
\<close>

theorem print_preallocated:
  assumes "types_ok (env_h E)" and "hooks_ok (env_hooks E)" and "fp_ok F" and "own (env_h E) h t" and "json_of (env_h E) h t = Some v"
    and "length (addrs t) < n" and "buf \<noteq> []"
  shows "\<exists>ok b. cJSON_PrintPreallocated n E F h (root t) (Some buf) (int (length buf)) fmt = Some (ok, b) \<and>
    (ok \<longrightarrow> (\<exists>rest. b = Some (json_text F fmt 0 v @ 0 # rest) \<and> length (json_text F fmt 0 v @ 0 # rest) = length buf)) \<and>
    (length (json_text F fmt 0 v) + 3 \<le> length buf \<and> length buf \<le> MAX_SIZE \<longrightarrow> ok)"
proof -
  let ?p = "empty_buffer (Some buf) (length buf) True fmt" and ?s = "json_text F fmt 0 v"
  have "0 < length buf" using assms(7) by simp
  from print_value_prints [OF assms(1-6) refl this, of True fmt] obtain ok p1 where
    p1: "print_value n E F h (root t) ?p = Some (ok, p1)" "ok \<Longrightarrow> pending p1 ?s \<and> kept ?p p1"
      "length ?s + 3 \<le> (if True then min (length buf) MAX_SIZE else if unlimited (env_hooks E) then MAX_SIZE else 0) \<Longrightarrow> ok"
    by (rule printsE) blast
  have "\<exists>rest. pbuffer p1 = Some (?s @ 0 # rest) \<and> length (?s @ 0 # rest) = length buf" if yes: ok
  proof -
    obtain b where b: "pbuffer p1 = Some b" "length b = length buf" "take (Suc (length ?s)) b = ?s @ [0]"
      using p1(2) [OF yes] by (auto simp: pending_def kept_def empty_buffer_def split: option.splits)
    then have "b = ?s @ 0 # drop (Suc (length ?s)) b" by (metis append.assoc append_Cons append_Nil append_take_drop_id)
    with b(1,2) show ?thesis by metis
  qed
  with p1 show ?thesis by (auto simp: cJSON_PrintPreallocated_def)
qed

theorem print_preallocated_witness:
  "\<exists>ok b. cJSON_PrintPreallocated 5 demo_env demo_fp demo_doc (root demo_tree) (Some (replicate 20 0)) (int (length (replicate 20 (0 :: u8)))) False = Some (ok, b) \<and>
    (ok \<longrightarrow> (\<exists>rest. b = Some (json_text demo_fp False 0 demo_json @ 0 # rest) \<and>
      length (json_text demo_fp False 0 demo_json @ 0 # rest) = length (replicate 20 (0 :: u8)))) \<and>
    (length (json_text demo_fp False 0 demo_json) + 3 \<le> length (replicate 20 (0 :: u8)) \<and> length (replicate 20 (0 :: u8)) \<le> MAX_SIZE \<longrightarrow> ok)"
  by (rule print_preallocated) (use demo_doc_ok demo_fp_ok in \<open>simp_all add: demo_env_def demo_tree_def\<close>)
end
