(* ===== verification/Cjson_Minify.thy ===== *)
theory Cjson_Minify
  imports Cjson_Render
begin

text \<open>
  \<open>cJSON_Minify\<close> of \<open>src/cJSON/demo1/cJSON.c\<close>: blanks and comments are removed from a text in place. The
  block is the list of its bytes; the reading and the writing pointer are positions in it, so that the
  overlap of what is read and what is written is part of the model. It is compared with a function on
  strings that needs no memory, and then with the printer.
\<close>

section \<open>The functions\<close>

function oneline_loop :: "u8 list \<Rightarrow> nat \<Rightarrow> nat option" where
  "oneline_loop c i =
     (case byte_at c i of None \<Rightarrow> None
      | Some b \<Rightarrow> if b = 0 then Some i else if b = 10 then Some (i + 1) else oneline_loop c (i + 1))"
  by pat_completeness auto
termination by (relation "measure (\<lambda>(c, i). length c - i)") (auto simp: byte_at_def split: if_splits)

definition skip_oneline_comment :: "u8 list \<Rightarrow> nat \<Rightarrow> nat option" where
  "skip_oneline_comment c i = oneline_loop c (i + 2)"

function multiline_loop :: "u8 list \<Rightarrow> nat \<Rightarrow> nat option" where
  "multiline_loop c i =
     (case byte_at c i of None \<Rightarrow> None
      | Some b \<Rightarrow>
          if b = 0 then Some i
          else if b = 42
          then (case byte_at c (i + 1) of None \<Rightarrow> None
                | Some b1 \<Rightarrow> if b1 = 47 then Some (i + 2) else multiline_loop c (i + 1))
          else multiline_loop c (i + 1))"
  by pat_completeness auto
termination by (relation "measure (\<lambda>(c, i). length c - i)") (auto simp: byte_at_def split: if_splits)

definition skip_multiline_comment :: "u8 list \<Rightarrow> nat \<Rightarrow> nat option" where
  "skip_multiline_comment c i = multiline_loop c (i + 2)"

text \<open>The block and the two pointers after a step.\<close>

type_synonym minifier = "u8 list \<times> nat \<times> nat"

function string_loop :: "u8 list \<Rightarrow> nat \<Rightarrow> nat \<Rightarrow> minifier option" where
  "string_loop c i k =
     (case byte_at c i of None \<Rightarrow> None
      | Some b \<Rightarrow>
          if b = 0 then Some (c, i, k)
          else (case put_at c k b of None \<Rightarrow> None
            | Some c1 \<Rightarrow>
                if byte_at c1 i = Some 34 then map_option (\<lambda>c2. (c2, i + 1, k + 1)) (put_at c1 k 34)
                else if byte_at c1 i = Some 92
                then (case byte_at c1 (i + 1) of None \<Rightarrow> None
                  | Some b1 \<Rightarrow>
                      if b1 = 34
                      then (case put_at c1 (k + 1) b1 of None \<Rightarrow> None | Some c2 \<Rightarrow> string_loop c2 (i + 2) (k + 2))
                      else string_loop c1 (i + 1) (k + 1))
                else string_loop c1 (i + 1) (k + 1)))"
  by pat_completeness auto
termination by (relation "measure (\<lambda>(c, i, k). length c - i)") (auto simp: byte_at_def put_at_def split: if_splits)

definition minify_string :: "u8 list \<Rightarrow> nat \<Rightarrow> nat \<Rightarrow> minifier option" where
  "minify_string c i k = do { b \<leftarrow> byte_at c i; c1 \<leftarrow> put_at c k b; string_loop c1 (i + 1) (k + 1) }"

declare oneline_loop.simps [simp del] multiline_loop.simps [simp del] string_loop.simps [simp del]

lemma oneline_forward: "oneline_loop c i = Some j \<Longrightarrow> i \<le> j"
proof (induction c i rule: oneline_loop.induct)
  case (1 c i)
  from "1.IH" "1.prems" [unfolded oneline_loop.simps [of c i]] show ?case by (auto split: option.splits if_splits)
qed

lemma multiline_forward: "multiline_loop c i = Some j \<Longrightarrow> i \<le> j"
proof (induction c i rule: multiline_loop.induct)
  case (1 c i)
  from "1.IH" "1.prems" [unfolded multiline_loop.simps [of c i]] show ?case
    by (auto split: option.splits if_splits intro: order_trans [of i "Suc i" j])
qed

lemma put_at_length: "put_at c k b = Some c1 \<Longrightarrow> length c1 = length c"
  by (auto simp: put_at_def split: if_splits)

lemma string_forward: "string_loop c i k = Some (c1, j, l) \<Longrightarrow> i \<le> j \<and> length c1 = length c"
proof (induction c i k rule: string_loop.induct)
  case (1 c i k)
  note IH = "1.IH" and r = "1.prems" [unfolded string_loop.simps [of c i k]]
  obtain b where b: "byte_at c i = Some b" using r by (auto split: option.splits)
  show ?case
  proof (cases "b = 0")
    case True
    with r b show ?thesis by simp
  next
    case False
    then obtain d where d: "put_at c k b = Some d" using r b by (auto split: option.splits)
    note len = put_at_length [OF d]
    consider "byte_at d i = Some 34" | b1 where "byte_at d i = Some 92" "byte_at d (i + 1) = Some b1"
      | "byte_at d i \<noteq> Some 34" "byte_at d i \<noteq> Some 92"
      using r b d False by (auto split: option.splits if_splits)
    then show ?thesis
    proof cases
      case 1
      with r b d False len show ?thesis by (auto dest!: put_at_length)
    next
      case 2
      show ?thesis
      proof (cases "b1 = 34")
        case True
        then obtain e where e: "put_at d (k + 1) 34 = Some e" using r b d False 2 by (auto split: option.splits)
        then have "string_loop e (i + 2) (k + 2) = Some (c1, j, l)" using r b d False 2 True by simp
        from IH(1) [OF b False d _ 2 True e [folded True] this] 2(1) put_at_length [OF e] len show ?thesis by simp
      next
        case F: False
        then have "string_loop d (i + 1) (k + 1) = Some (c1, j, l)" using r b d False 2 by simp
        from IH(2) [OF b False d _ 2 F this] 2(1) len show ?thesis by simp
      qed
    next
      case 3
      then have "string_loop d (i + 1) (k + 1) = Some (c1, j, l)" using r b d False by simp
      from IH(3) [OF b False d 3 this] len show ?thesis by simp
    qed
  qed
qed

lemma minify_string_forward: "minify_string c i k = Some r \<Longrightarrow> i < fst (snd r) \<and> length (fst r) = length c"
  by (cases r) (auto simp: minify_string_def split: bind_splits dest!: string_forward put_at_length)

function minify_loop :: "u8 list \<Rightarrow> nat \<Rightarrow> nat \<Rightarrow> u8 list option" where
  "minify_loop c i k =
     (case byte_at c i of None \<Rightarrow> None
      | Some b \<Rightarrow>
          if b = 0 then put_at c k 0
          else if b = 32 \<or> b = 9 \<or> b = 13 \<or> b = 10 then minify_loop c (i + 1) k
          else if b = 47
          then (case byte_at c (i + 1) of None \<Rightarrow> None
            | Some b1 \<Rightarrow>
                if b1 = 47 then (case skip_oneline_comment c i of None \<Rightarrow> None | Some j \<Rightarrow> minify_loop c j k)
                else if b1 = 42 then (case skip_multiline_comment c i of None \<Rightarrow> None | Some j \<Rightarrow> minify_loop c j k)
                else minify_loop c (i + 1) k)
          else if b = 34
          then (case minify_string c i k of None \<Rightarrow> None | Some r \<Rightarrow> minify_loop (fst r) (fst (snd r)) (snd (snd r)))
          else (case put_at c k b of None \<Rightarrow> None | Some c1 \<Rightarrow> minify_loop c1 (i + 1) (k + 1)))"
  by pat_completeness auto
termination
proof (relation "measure (\<lambda>(c, i, k). length c - i)", goal_cases)
  case (6 c i k b r)
  with minify_string_forward [of c i k r] show ?case by (cases r) (auto simp: byte_at_def split: if_splits)
qed (auto simp: byte_at_def put_at_def skip_oneline_comment_def skip_multiline_comment_def split: if_splits
    dest!: oneline_forward multiline_forward)

declare minify_loop.simps [simp del]

text \<open>A null pointer is left alone.\<close>

definition cJSON_Minify :: "u8 list option \<Rightarrow> u8 list option option" where
  "cJSON_Minify json = (case json of None \<Rightarrow> Some None | Some c \<Rightarrow> map_option Some (minify_loop c 0 0))"

section \<open>The reference\<close>

text \<open>What is left after a comment to the end of the line, and after a comment in brackets.\<close>

fun after_line :: "u8 list \<Rightarrow> u8 list" where
  "after_line [] = []"
| "after_line (b # r) = (if b = 10 then r else after_line r)"

fun after_comment :: "u8 list \<Rightarrow> u8 list" where
  "after_comment [] = []"
| "after_comment (b # r) = (if b = 42 \<and> r \<noteq> [] \<and> hd r = 47 then tl r else after_comment r)"

text \<open>The rest of a string behind its opening quote, up to the closing one, and what follows.\<close>

fun quoted :: "u8 list \<Rightarrow> u8 list \<times> u8 list" where
  "quoted [] = ([], [])"
| "quoted (b # r) =
     (if b = 34 then ([34], r)
      else if b = 92 \<and> r \<noteq> [] \<and> hd r = 34 then (let q = quoted (tl r) in (92 # 34 # fst q, snd q))
      else (let q = quoted r in (b # fst q, snd q)))"

lemma quoted_split: "fst (quoted s) @ snd (quoted s) = s"
proof (induction s rule: quoted.induct)
  case (2 b r)
  then show ?case by (cases r) (auto simp: Let_def)
qed simp

lemma quoted_length: "length (snd (quoted s)) \<le> length s"
  using arg_cong [OF quoted_split [of s], of length] by simp

lemma after_lengths: "length (after_line s) \<le> length s" "length (after_comment s) \<le> length s"
  by (induction s) auto

function minify_text :: "u8 list \<Rightarrow> u8 list" where
  "minify_text [] = []"
| "minify_text (b # r) =
     (if b = 32 \<or> b = 9 \<or> b = 13 \<or> b = 10 then minify_text r
      else if b = 47
      then (case r of [] \<Rightarrow> []
        | x # t \<Rightarrow> if x = 47 then minify_text (after_line t) else if x = 42 then minify_text (after_comment t) else minify_text r)
      else if b = 34 then 34 # fst (quoted r) @ minify_text (snd (quoted r))
      else b # minify_text r)"
  by pat_completeness auto
termination by (relation "measure length") (auto simp: less_Suc_eq_le quoted_length after_lengths le_SucI)

section \<open>In place\<close>

text \<open>
  The block is \<open>w @ g @ s @ 0 # z\<close>: what was written, a gap, the rest of the text. Writing the next byte of
  the text behind \<open>w\<close> shifts the gap.
\<close>

definition shift :: "'a list \<Rightarrow> 'a \<Rightarrow> 'a list" where
  "shift g b = (if g = [] then [] else tl g @ [b])"

lemma shift_length [simp]: "length (shift g b) = length g"
  by (simp add: shift_def)

lemma put_gap: "put_at (w @ g @ b # r) (length w) b = Some ((w @ [b]) @ shift g b @ r)"
  by (cases g) (simp_all add: put_at_def shift_def)

lemma byte_gap: "byte_at (w @ g @ b # r) (length w + length g) = Some b"
  by (simp add: byte_at_def nth_append)

lemma byte_written: "byte_at ((w @ [b]) @ shift g b @ r) (length w + length g) = Some b"
  by (cases g rule: rev_cases) (auto simp: byte_at_def shift_def nth_append)

lemma byte_behind: "byte_at ((w @ [b]) @ shift g b @ x # r) (length w + length g + 1) = Some x"
  using byte_gap [of "w @ [b]" "shift g b" x r] by simp

lemma string_in_place:
  "0 \<notin> set s \<Longrightarrow> \<exists>g1. length g1 = length g \<and> string_loop (w @ g @ s @ 0 # z) (length w + length g) (length w) =
     Some ((w @ fst (quoted s)) @ g1 @ snd (quoted s) @ 0 # z, length w + length g + length (fst (quoted s)), length w + length (fst (quoted s)))"
proof (induction s arbitrary: w g rule: quoted.induct)
  case 1
  then show ?case using byte_gap [of w g 0 z] by (simp add: string_loop.simps)
next
  case (2 b r)
  have b: "b \<noteq> 0" and r: "0 \<notin> set r" using "2.prems" by auto
  let ?c = "(w @ [b]) @ shift g b @ r @ 0 # z"
  have put: "put_at (w @ g @ (b # r) @ 0 # z) (length w) b = Some ?c" "byte_at (w @ g @ (b # r) @ 0 # z) (length w + length g) = Some b"
    using put_gap [of w g b "r @ 0 # z"] byte_gap [of w g b "r @ 0 # z"] by simp_all
  have wr: "byte_at ?c (length w + length g) = Some b" using byte_written [of w b g "r @ 0 # z"] by simp
  note unfold = string_loop.simps [of "w @ g @ (b # r) @ 0 # z" "length w + length g" "length w"]
  consider "b = 34" | t where "b = 92" "r = 34 # t" | "b \<noteq> 34" "\<not> (b = 92 \<and> r \<noteq> [] \<and> hd r = 34)" by (cases r) auto
  then show ?case
  proof cases
    case 1
    have "put_at ?c (length w) 34 = Some ?c" using 1 by (simp add: put_at_def)
    with 1 put wr show ?thesis unfolding unfold by (intro exI [of _ "shift g b"]) simp
  next
    case 2
    let ?g = "shift (shift g 92) 34"
    have "byte_at ?c (length w + length g + 1) = Some 34" using byte_behind [of w b g 34 "t @ 0 # z"] 2 by simp
    moreover have "put_at ?c (length w + 1) 34 = Some ((w @ [92, 34]) @ ?g @ t @ 0 # z)" using put_gap [of "w @ [92]" "shift g 92" 34 "t @ 0 # z"] 2 by simp
    ultimately have step: "string_loop (w @ g @ (b # r) @ 0 # z) (length w + length g) (length w) =
        string_loop ((w @ [92, 34]) @ ?g @ t @ 0 # z) (length (w @ [92, 34]) + length ?g) (length (w @ [92, 34]))"
      using put wr 2 unfolding unfold by simp
    from "2.IH"(1) [of ?g "w @ [92, 34]"] obtain g1 where "length g1 = length ?g"
      "string_loop ((w @ [92, 34]) @ ?g @ t @ 0 # z) (length (w @ [92, 34]) + length ?g) (length (w @ [92, 34])) =
        Some (((w @ [92, 34]) @ fst (quoted t)) @ g1 @ snd (quoted t) @ 0 # z, length (w @ [92, 34]) + length ?g + length (fst (quoted t)),
          length (w @ [92, 34]) + length (fst (quoted t)))"
      using 2 r by auto
    with step 2 show ?thesis by (intro exI [of _ g1]) (simp add: Let_def)
  next
    case 3
    have "\<exists>x. byte_at ?c (length w + length g + 1) = Some x \<and> (b = 92 \<longrightarrow> x \<noteq> 34)"
      using byte_behind [of w b g _ "_ @ 0 # z"] byte_behind [of w b g 0 z] 3 by (cases r) auto
    then obtain x where "byte_at ?c (length w + length g + 1) = Some x" "b = 92 \<longrightarrow> x \<noteq> 34" by blast
    then have step: "string_loop (w @ g @ (b # r) @ 0 # z) (length w + length g) (length w) =
        string_loop ((w @ [b]) @ shift g b @ r @ 0 # z) (length (w @ [b]) + length (shift g b)) (length (w @ [b]))"
      using put wr 3 b unfolding unfold by (cases "b = 92") simp_all
    from "2.IH"(2) [OF 3(1,2) r, of "shift g b" "w @ [b]"] obtain g1 where "length g1 = length (shift g b)"
      "string_loop ((w @ [b]) @ shift g b @ r @ 0 # z) (length (w @ [b]) + length (shift g b)) (length (w @ [b])) =
        Some (((w @ [b]) @ fst (quoted r)) @ g1 @ snd (quoted r) @ 0 # z, length (w @ [b]) + length (shift g b) + length (fst (quoted r)),
          length (w @ [b]) + length (fst (quoted r)))" by blast
    with step 3 show ?thesis by (intro exI [of _ g1]) (auto simp: Let_def)
  qed
qed

lemma line_in_place: "0 \<notin> set s \<Longrightarrow> oneline_loop (c @ s @ 0 # z) (length c) = Some (length c + (length s - length (after_line s)))"
proof (induction s arbitrary: c)
  case Nil
  then show ?case by (simp add: oneline_loop.simps byte_at_def)
next
  case (Cons b s)
  have "oneline_loop (c @ (b # s) @ 0 # z) (length (c @ [b])) = Some (length (c @ [b]) + (length s - length (after_line s)))"
    using Cons.IH [of "c @ [b]"] Cons.prems by simp
  then show ?case using Cons.prems after_lengths(1) [of s] by (simp add: oneline_loop.simps [of _ "length c"] byte_at_def Suc_diff_le)
qed

lemma comment_in_place: "0 \<notin> set s \<Longrightarrow> multiline_loop (c @ s @ 0 # z) (length c) = Some (length c + (length s - length (after_comment s)))"
proof (induction s arbitrary: c)
  case Nil
  then show ?case by (simp add: multiline_loop.simps byte_at_def)
next
  case (Cons b s)
  have IH: "multiline_loop (c @ (b # s) @ 0 # z) (length (c @ [b])) = Some (length (c @ [b]) + (length s - length (after_comment s)))"
    using Cons.IH [of "c @ [b]"] Cons.prems by simp
  have x: "byte_at (c @ (b # s) @ 0 # z) (Suc (length c)) = Some (hd (s @ [0]))" by (cases s) (simp_all add: byte_at_def nth_append)
  show ?case using IH x Cons.prems after_lengths(2) [of s]
    by (cases s) (auto simp: multiline_loop.simps [of _ "length c"] byte_at_def Suc_diff_le)
qed

text \<open>The rest after a skipped prefix: the gap has grown.\<close>

lemma after_suffix: "\<exists>a. s = a @ after_line s" "\<exists>a. s = a @ after_comment s"
proof -
  show "\<exists>a. s = a @ after_line s"
  proof (induction s)
    case (Cons b s)
    then obtain a where "s = a @ after_line s" by blast
    then have "b # s = (if b = 10 then [b] else b # a) @ after_line (b # s)" by simp
    then show ?case by blast
  qed simp
  show "\<exists>a. s = a @ after_comment s"
  proof (induction s)
    case (Cons b s)
    then obtain a where a: "s = a @ after_comment s" by blast
    show ?case
    proof (cases "b = 42 \<and> s \<noteq> [] \<and> hd s = 47")
      case True
      then have "b # s = [b, hd s] @ after_comment (b # s)" by (metis after_comment.simps(2) append_Cons append_Nil list.collapse)
      then show ?thesis by blast
    next
      case False
      then have "after_comment (b # s) = after_comment s" by (simp only: after_comment.simps if_False)
      with a have "b # s = (b # a) @ after_comment (b # s)" by (metis append_Cons)
      then show ?thesis by blast
    qed
  qed simp
qed

definition minifies :: "u8 list \<Rightarrow> u8 list \<Rightarrow> nat \<Rightarrow> nat \<Rightarrow> u8 list \<Rightarrow> bool" where
  "minifies c w i k s \<longleftrightarrow> (\<exists>z1. minify_loop c i k = Some (w @ s @ 0 # z1) \<and> length (w @ s @ 0 # z1) = length c)"

lemma end_in_place: "minifies (w @ g @ 0 # z) w (length w + length g) (length w) []"
proof -
  have "put_at (w @ g @ 0 # z) (length w) 0 = Some ((w @ [0]) @ (if g = [] then z else tl g @ 0 # z))"
    by (cases g) (simp_all add: put_at_def)
  then show ?thesis using byte_gap [of w g 0 z] unfolding minifies_def
    by (intro exI [of _ "if g = [] then z else tl g @ 0 # z"]) (simp add: minify_loop.simps)
qed

lemma text_in_place: "0 \<notin> set s \<Longrightarrow> minifies (w @ g @ s @ 0 # z) w (length w + length g) (length w) (minify_text s)"
proof (induction s arbitrary: w g rule: minify_text.induct)
  case 1
  show ?case using end_in_place [of w g z] by simp
next
  case (2 b r)
  have b: "b \<noteq> 0" and r: "0 \<notin> set r" using "2.prems" by auto
  let ?c = "w @ g @ b # r @ 0 # z" and ?i = "length w + length g"
  have byt: "byte_at ?c ?i = Some b" using byte_gap [of w g b "r @ 0 # z"] by simp
  note unfold = minify_loop.simps [of ?c ?i "length w"]
  have skip: "minifies ?c w ?i (length w) (minify_text s)" if "minify_loop ?c ?i (length w) = minify_loop ?c (?i + length a) (length w)" "b # r = a @ s"
      "minifies (w @ (g @ a) @ s @ 0 # z) w (length w + length (g @ a)) (length w) (minify_text s)" for a s
  proof -
    have eq: "?c = w @ (g @ a) @ s @ 0 # z" using arg_cong [OF that(2), of "\<lambda>x. w @ g @ x @ 0 # z"] by simp
    show ?thesis using that(1) [unfolded eq] that(3) unfolding minifies_def eq by (simp add: add.assoc)
  qed
  consider (blank) "b = 32 \<or> b = 9 \<or> b = 13 \<or> b = 10" | (slash_end) "b = 47" "r = []" | (line) t where "b = 47" "r = 47 # t" | (block) t where "b = 47" "r = 42 # t"
    | (slash) x t where "b = 47" "r = x # t" "x \<noteq> 47" "x \<noteq> 42" | (quote) "b = 34" | (plain) "b \<notin> {32, 9, 13, 10, 47, 34}"
    by (cases r) auto
  then show ?case
  proof cases
    case blank
    have "minify_loop ?c ?i (length w) = minify_loop ?c (?i + length [b]) (length w)" unfolding unfold using byt b blank by auto
    from skip [OF this, of r] "2.IH"(1) [OF blank r, of w "g @ [b]"] blank show ?thesis by auto
  next
    case slash_end
    have "byte_at ?c (?i + 1) = Some 0" using slash_end byte_gap [of w "g @ [b]" 0 z] by simp
    then have "minify_loop ?c ?i (length w) = minify_loop ?c (?i + length [b]) (length w)" unfolding unfold using byt slash_end by simp
    from skip [OF this, of "[]"] end_in_place [of w "g @ [b]" z] slash_end show ?thesis by simp
  next
    case (line t)
    obtain a where a: "t = a @ after_line t" using after_suffix(1) by blast
    have la: "length a = length t - length (after_line t)" using arg_cong [OF a, of length] by simp
    have "byte_at ?c (?i + 1) = Some 47" using line byte_gap [of w "g @ [b]" 47 "t @ 0 # z"] by simp
    moreover have "skip_oneline_comment ?c ?i = Some (?i + length ([47, 47] @ a))"
      using line_in_place [of t "w @ g @ [47, 47]" z] r line la by (simp add: skip_oneline_comment_def)
    ultimately have step: "minify_loop ?c ?i (length w) = minify_loop ?c (?i + length ([47, 47] @ a)) (length w)" unfolding unfold using byt line by simp
    have "0 \<notin> set (after_line t)" using r line a by (metis UnCI set_append list.set_intros(2))
    then have "minifies (w @ (g @ [47, 47] @ a) @ after_line t @ 0 # z) w (length w + length (g @ [47, 47] @ a)) (length w) (minify_text (after_line t))"
      using "2.IH"(2) [of 47 t w "g @ [47, 47] @ a"] line by simp
    from skip [OF step _ this] line a show ?thesis by simp
  next
    case (block t)
    obtain a where a: "t = a @ after_comment t" using after_suffix(2) by blast
    have la: "length a = length t - length (after_comment t)" using arg_cong [OF a, of length] by simp
    have "byte_at ?c (?i + 1) = Some 42" using block byte_gap [of w "g @ [b]" 42 "t @ 0 # z"] by simp
    moreover have "skip_multiline_comment ?c ?i = Some (?i + length ([47, 42] @ a))"
      using comment_in_place [of t "w @ g @ [47, 42]" z] r block la by (simp add: skip_multiline_comment_def)
    ultimately have step: "minify_loop ?c ?i (length w) = minify_loop ?c (?i + length ([47, 42] @ a)) (length w)" unfolding unfold using byt block by simp
    have "0 \<notin> set (after_comment t)" using r block a by (metis UnCI set_append list.set_intros(2))
    then have "minifies (w @ (g @ [47, 42] @ a) @ after_comment t @ 0 # z) w (length w + length (g @ [47, 42] @ a)) (length w) (minify_text (after_comment t))"
      using "2.IH"(3) [of 42 t w "g @ [47, 42] @ a"] block by simp
    from skip [OF step _ this] block a show ?thesis by simp
  next
    case (slash x t)
    have "byte_at ?c (?i + 1) = Some x" using slash byte_gap [of w "g @ [b]" x "t @ 0 # z"] by simp
    then have step: "minify_loop ?c ?i (length w) = minify_loop ?c (?i + length [b]) (length w)" unfolding unfold using byt slash by simp
    have "minifies (w @ (g @ [b]) @ r @ 0 # z) w (length w + length (g @ [b])) (length w) (minify_text r)"
      using "2.IH"(4) [of x t w "g @ [b]"] slash r by simp
    from skip [OF step _ this] slash show ?thesis by simp
  next
    case quote
    obtain g1 where g1: "length g1 = length (shift g b)" "string_loop ((w @ [b]) @ shift g b @ r @ 0 # z) (length (w @ [b]) + length (shift g b)) (length (w @ [b])) =
        Some (((w @ [b]) @ fst (quoted r)) @ g1 @ snd (quoted r) @ 0 # z, length (w @ [b]) + length (shift g b) + length (fst (quoted r)),
          length (w @ [b]) + length (fst (quoted r)))"
      using string_in_place [OF r, of "shift g b" "w @ [b]" z] by blast
    let ?w = "(w @ [b]) @ fst (quoted r)"
    have "minify_string ?c ?i (length w) = Some (?w @ g1 @ snd (quoted r) @ 0 # z, length ?w + length g1, length ?w)"
      using byt put_gap [of w g b "r @ 0 # z"] g1 by (simp add: minify_string_def)
    then have step: "minify_loop ?c ?i (length w) = minify_loop (?w @ g1 @ snd (quoted r) @ 0 # z) (length ?w + length g1) (length ?w)"
      using byt quote unfolding unfold by simp
    have "0 \<notin> set (snd (quoted r))" using r quoted_split [of r] by (metis UnCI set_append)
    with "2.IH"(5) [of ?w g1] quote have "minifies (?w @ g1 @ snd (quoted r) @ 0 # z) ?w (length ?w + length g1) (length ?w) (minify_text (snd (quoted r)))" by auto
    moreover have "length (?w @ g1 @ snd (quoted r) @ 0 # z) = length ?c" using g1(1) arg_cong [OF quoted_split [of r], of length] by simp
    ultimately show ?thesis using step quote by (auto simp: minifies_def)
  next
    case plain
    have step: "minify_loop ?c ?i (length w) = minify_loop ((w @ [b]) @ shift g b @ r @ 0 # z) (length (w @ [b]) + length (shift g b)) (length (w @ [b]))"
      using byt put_gap [of w g b "r @ 0 # z"] plain b unfolding unfold by simp
    from "2.IH"(6) [of "w @ [b]" "shift g b"] plain r
    have "minifies ((w @ [b]) @ shift g b @ r @ 0 # z) (w @ [b]) (length (w @ [b]) + length (shift g b)) (length (w @ [b])) (minify_text r)" by auto
    with step plain show ?thesis by (simp add: minifies_def)
  qed
qed

text \<open>
  C35. \<open>cJSON_Minify\<close> works in place, inside the block and always ends, for every string that ends with a
  zero byte: afterwards the block has its old size and holds the text without blanks and comments
  outside of strings, as the reference on strings computes it.
\<close>

theorem minify_in_place:
  assumes "0 \<notin> set s"
  shows "\<exists>z1. cJSON_Minify (Some (s @ 0 # z)) = Some (Some (minify_text s @ 0 # z1)) \<and> length (minify_text s @ 0 # z1) = length (s @ 0 # z)"
  using text_in_place [OF assms, of "[]" "[]" z] by (auto simp: minifies_def cJSON_Minify_def)

theorem minify_in_place_witness:
  "\<exists>z1. cJSON_Minify (Some ([91, 32, 49, 47, 47, 50, 10, 93] @ 0 # [])) = Some (Some (minify_text [91, 32, 49, 47, 47, 50, 10, 93] @ 0 # z1)) \<and>
    length (minify_text [91, 32, 49, 47, 47, 50, 10, 93] @ 0 # z1) = length ([91, 32, 49, 47, 47, 50, 10, 93] @ 0 # ([] :: u8 list))"
  by (rule minify_in_place) simp

section \<open>Printed texts\<close>

text \<open>
  A string that ends with a backslash is printed with two of them before the closing quote;
  \<open>minify_string\<close> takes the second one and the quote for an escaped quote and runs on.
\<close>

definition open_end :: "u8 list \<Rightarrow> bool" where
  "open_end s \<longleftrightarrow> s \<noteq> [] \<and> last s = 92"

lemma quoted_plain: "b \<noteq> 34 \<Longrightarrow> b \<noteq> 92 \<Longrightarrow> quoted (b # r) = (b # fst (quoted r), snd (quoted r))"
  by (simp add: Let_def)

lemma quoted_backslash: "x \<noteq> 34 \<Longrightarrow> quoted (92 # x # r) = (92 # fst (quoted (x # r)), snd (quoted (x # r)))"
  by (simp add: Let_def)

lemma enc_begins: "enc b \<noteq> [] \<and> hd (enc b) \<noteq> 34"
  by (cases b rule: enc_cases) auto

lemma quoted_enc: "\<not> open_end s \<Longrightarrow> quoted (concat (map enc s) @ 34 # r) = (concat (map enc s) @ [34], r)"
proof (induction s)
  case Nil
  then show ?case by simp
next
  case (Cons b s)
  let ?t = "concat (map enc s) @ 34 # r"
  have IH: "quoted ?t = (concat (map enc s) @ [34], r)" using Cons by (cases s) (auto simp: open_end_def)
  show ?case
  proof (cases b rule: enc_cases)
    case plain
    with quoted_plain [of b ?t] IH show ?thesis by simp
  next
    case (letter l)
    show ?thesis
    proof (cases "b = 92")
      case True
      with Cons.prems have "s \<noteq> []" by (auto simp: open_end_def)
      then have "?t \<noteq> []" "hd ?t \<noteq> 34" using enc_begins [of "hd s"] by (cases s; simp)+
      then have "quoted (92 # ?t) = (92 # fst (quoted ?t), snd (quoted ?t))" using quoted_backslash [of "hd ?t" "tl ?t"] by (cases ?t) auto
      moreover have "l = 92" using letter(2) True by (auto simp: simple_escape_def split: if_splits)
      ultimately show ?thesis using letter IH quoted_backslash [of 92 ?t] by simp
    next
      case False
      then have "l = 34 \<or> l \<noteq> 34 \<and> l \<noteq> 92" using letter(2) by (auto simp: simple_escape_def split: if_splits)
      with letter IH quoted_backslash [of l ?t] quoted_plain [of l ?t] show ?thesis by (auto simp: Let_def)
    qed
  next
    case (control h l)
    obtain d e where "hex_digit h = Some d" "hex_digit l = Some e" using control_digits [OF control(4)] control(2,3) by metis
    then have hl: "h \<noteq> 34" "h \<noteq> 92" "l \<noteq> 34" "l \<noteq> 92" using hex_digit_plain by blast+
    with control IH show ?thesis by (simp add: quoted_backslash quoted_plain del: quoted.simps)
  qed
qed

text \<open>The values whose printed form is minified correctly: no string and no name ends with a backslash, numbers are written without blanks, slashes and quotes.\<close>

definition solid :: "u8 \<Rightarrow> bool" where
  "solid b \<longleftrightarrow> b \<notin> {32, 9, 13, 10, 47, 34}"

fun minifiable :: "fp_ops \<Rightarrow> json \<Rightarrow> bool" where
  "minifiable F (JNumber d) = list_all solid (the (number_text F d))"
| "minifiable F (JString s) = (\<not> open_end s)"
| "minifiable F (JArray vs) = list_all (minifiable F) vs"
| "minifiable F (JObject kvs) = list_all (\<lambda>kv. \<not> open_end (fst kv) \<and> minifiable F (snd kv)) kvs"
| "minifiable F v = True"

lemma minify_solid: "list_all solid s \<Longrightarrow> minify_text (s @ r) = s @ minify_text r"
  by (induction s) (auto simp: solid_def)

lemma minify_blanks: "list_all (\<lambda>b. b \<in> {32, 9, 13, 10}) s \<Longrightarrow> minify_text (s @ r) = minify_text r"
  by (induction s) auto

lemma minify_quote: "\<not> open_end s \<Longrightarrow> minify_text (json_quote s @ r) = json_quote s @ minify_text r"
  using quoted_enc [of s r] by (simp add: json_quote_def)

lemma minify_join:
  assumes "\<And>x r. x \<in> set xs \<Longrightarrow> minify_text (f x @ r) = g x @ minify_text r"
    and "\<And>r. minify_text (sep @ r) = sep1 @ minify_text r"
  shows "minify_text (join sep (map f xs) @ r) = join sep1 (map g xs) @ minify_text r"
  using assms(1)
proof (induction xs rule: induct_list012)
  case (3 x y zs)
  then show ?case using assms(2) by simp
qed simp_all

lemma minify_json: "minifiable F v \<Longrightarrow> minify_text (json_text F True d v @ r) = json_text F False e v @ minify_text r"
proof (induction v arbitrary: d e r)
  case (JNumber x)
  then show ?case by (simp add: minify_solid)
next
  case (JString s)
  then show ?case by (simp add: minify_quote)
next
  case (JArray vs)
  have "minify_text (join [44, 32] (map (json_text F True (Suc d)) vs) @ r') = join [44] (map (json_text F False (Suc e)) vs) @ minify_text r'" for r'
    by (rule minify_join) (use JArray in \<open>auto simp: list_all_iff\<close>)
  then show ?case by simp
next
  case (JObject kvs)
  have tabs: "minify_text (tabs n @ r') = minify_text r'" for n r' by (rule minify_blanks) (simp add: tabs_def list_all_iff)
  have m: "minify_text (member_text True (Suc d) (fst kv) (json_text F True (Suc d) (snd kv)) @ r') =
      member_text False (Suc e) (fst kv) (json_text F False (Suc e) (snd kv)) @ minify_text r'" if "kv \<in> set kvs" for kv r'
    using JObject that by (cases kv) (auto simp: member_text_def tabs minify_quote list_all_iff)
  have "minify_text (join [44, 10] (map (\<lambda>kv. member_text True (Suc d) (fst kv) (json_text F True (Suc d) (snd kv))) kvs) @ r') =
      join [44] (map (\<lambda>kv. member_text False (Suc e) (fst kv) (json_text F False (Suc e) (snd kv))) kvs) @ minify_text r'" for r'
    by (rule minify_join) (use m in simp_all)
  then show ?case by (simp add: tabs)
qed (simp_all add: lit_null_def lit_false_def lit_true_def)

text \<open>
  C36. Minifying the formatted text of a document gives its unformatted text: after \<open>cJSON_Print\<close> and
  \<open>cJSON_Minify\<close> the block begins with exactly the block that \<open>cJSON_PrintUnformatted\<close> returns, if no
  string and no name of the document ends with a backslash.
\<close>

theorem minify_printed:
  assumes "types_ok (env_h E)" and "hooks_ok (env_hooks E)" and "unlimited (env_hooks E)" and "fp_ok F" and "own (env_h E) h t"
    and "json_of (env_h E) h t = Some v" and "length (addrs t) < n" and "minifiable F v"
    and "length (json_text F True 0 v) + 3 \<le> MAX_SIZE" and "length (json_text F False 0 v) + 3 \<le> MAX_SIZE"
  shows "\<exists>blk plain z. cJSON_Print n E F h (root t) = Some (Some blk) \<and> cJSON_PrintUnformatted n E F h (root t) = Some (Some plain) \<and>
    cJSON_Minify (Some blk) = Some (Some (plain @ z))"
proof -
  let ?s = "json_text F True 0 v"
  note pr = print_block [OF assms(1,2,4,5,6,7)]
  have "0 \<notin> set ?s" by (rule text_no_zero [OF assms(4) json_of_zero_free [OF assms(1,5,6)]])
  from text_in_place [OF this, of "[]" "[]" "[]"] minify_json [OF assms(8), of 0 "[]" 0]
  obtain z where "cJSON_Minify (Some (?s @ [0])) = Some (Some ((json_text F False 0 v @ [0]) @ z))" by (auto simp: minifies_def cJSON_Minify_def)
  moreover have "cJSON_Print n E F h (root t) = Some (Some (?s @ [0]))" unfolding cJSON_Print_def using pr [of True] assms(3,9) by blast
  moreover have "cJSON_PrintUnformatted n E F h (root t) = Some (Some (json_text F False 0 v @ [0]))"
    unfolding cJSON_PrintUnformatted_def using pr [of False] assms(3,10) by blast
  ultimately show ?thesis by blast
qed

theorem minify_printed_witness:
  "\<exists>blk plain z. cJSON_Print 5 demo_env demo_fp demo_doc (root demo_tree) = Some (Some blk) \<and>
    cJSON_PrintUnformatted 5 demo_env demo_fp demo_doc (root demo_tree) = Some (Some plain) \<and> cJSON_Minify (Some blk) = Some (Some (plain @ z))"
proof (rule minify_printed)
  have "length (json_text demo_fp True 0 demo_json) \<le> 100" "length (json_text demo_fp False 0 demo_json) \<le> 100" by code_simp+
  then show "length (json_text demo_fp True 0 demo_json) + 3 \<le> MAX_SIZE" "length (json_text demo_fp False 0 demo_json) + 3 \<le> MAX_SIZE"
    by (simp_all add: MAX_SIZE_def)
  show "unlimited (env_hooks demo_env)" by (simp add: unlimited_def demo_env_def demo_hooks_def)
  show "minifiable demo_fp demo_json" by (simp add: demo_json_def open_end_def)
qed (use demo_doc_ok demo_fp_ok in \<open>simp_all add: demo_env_def demo_tree_def\<close>)

text \<open>
  Without that condition strings are damaged: of the array \<open>["\\", "a b"]\<close>, printed with formatting,
  the second string loses its blank.
\<close>

lemma minify_backslash:
  "let s = json_text demo_fp True 0 (JArray [JString [92], JString [97, 32, 98]]);
       r = json_text demo_fp True 0 (JArray [JString [92], JString [97, 98]])
   in map_option (map_option c_text) (cJSON_Minify (Some (s @ [0]))) = Some (Some (Some r))"
  by code_simp
end
