(* ===== verification/Cjson_Parse_Safe.thy ===== *)
theory Cjson_Parse_Safe
  imports Cjson_Parse
begin

text \<open>
  Memory safety, termination and absence of leaks of the parser of \<open>Cjson_Parse\<close>. A contract for the
  parser of one element (\<open>element_parser\<close>) is proved for each kind of value; the two list-building loops
  share one proof, in which the trees built so far form a \<open>chain\<close> that can be completed or released.
\<close>

unbundle bit_operations_syntax

section \<open>Reading the text\<close>

text \<open>
  The text a parser may be given: the bytes up to the length are there, and when the last of them is
  a comma, one more byte is, since \<open>parse_object\<close> looks for a name without checking the length.
\<close>

definition text_ok :: "parse_buffer \<Rightarrow> bool" where
  "text_ok buf \<longleftrightarrow> in_length buf \<le> length (content buf) \<and>
     (\<forall>i < in_length buf. content buf ! i = 44 \<longrightarrow> Suc i < length (content buf))"

abbreviation same_text :: "parse_buffer \<Rightarrow> parse_buffer \<Rightarrow> bool" where
  "same_text buf buf' \<equiv> content buf' = content buf \<and> in_length buf' = in_length buf"

lemma text_ok_update [simp]:
  "text_ok (buf\<lparr>in_offset := q\<rparr>) = text_ok buf" "text_ok (buf\<lparr>in_depth := d\<rparr>) = text_ok buf"
  by (simp_all add: text_ok_def)

lemma text_ok_same: "text_ok buf \<Longrightarrow> same_text buf buf' \<Longrightarrow> text_ok buf'"
  by (simp add: text_ok_def)

lemma whitespace_loop_spec:
  "p \<le> len \<Longrightarrow> len \<le> length c \<Longrightarrow> \<exists>q. whitespace_loop c len p = Some q \<and> p \<le> q \<and> q \<le> len"
proof (induction "len - p" arbitrary: p)
  case 0
  then show ?case by simp
next
  case (Suc n)
  then have *: "p < len" "p + 1 \<le> len" "n = len - (p + 1)" "byte_at c p = Some (c ! p)" by (auto simp: byte_at_def)
  from Suc.hyps(1) [OF *(3,2) Suc.prems(2)] obtain q where "whitespace_loop c len (p + 1) = Some q" "p + 1 \<le> q" "q \<le> len" by blast
  with * show ?case by (cases "c ! p \<le> 32") auto
qed

declare whitespace_loop.simps [simp del]

lemma skip_spec:
  assumes "text_ok buf" and "in_offset buf \<le> in_length buf"
  obtains q where "buffer_skip_whitespace buf = Some (buf\<lparr>in_offset := q\<rparr>)" and "in_offset buf \<le> q" and "q \<le> in_length buf"
    and "in_offset buf < in_length buf \<Longrightarrow> q < in_length buf"
proof (cases "in_offset buf < in_length buf")
  case True
  obtain q where q: "whitespace_loop (content buf) (in_length buf) (in_offset buf) = Some q" "in_offset buf \<le> q" "q \<le> in_length buf"
    using whitespace_loop_spec [OF assms(2)] assms(1) by (auto simp: text_ok_def)
  with True show thesis
    by (intro that [of "if q = in_length buf then q - 1 else q"]) (auto simp: buffer_skip_whitespace_def can_access_at_index_def)
next
  case False
  with assms(2) show thesis
    by (intro that [of "in_offset buf"]) (simp_all add: buffer_skip_whitespace_def can_access_at_index_def)
qed

lemma next_is_spec:
  "text_ok buf \<Longrightarrow> next_is buf P = Some (in_offset buf < in_length buf \<and> P (content buf ! in_offset buf))"
  by (simp add: next_is_def can_access_at_index_def text_ok_def byte_at_def)

lemma strncmp_total: "p + length ls \<le> length c \<Longrightarrow> \<exists>r. strncmp_eq c p ls = Some r"
  by (induction ls arbitrary: p) (auto simp: byte_at_def)

lemma at_literal_spec:
  assumes "text_ok buf"
  obtains r where "at_literal buf lit = Some r" and "r \<longrightarrow> in_offset buf + length lit \<le> in_length buf"
proof (cases "can_read buf (length lit)")
  case True
  then have "in_offset buf + length lit \<le> length (content buf)" using assms by (simp add: can_read_def text_ok_def)
  then obtain r where "strncmp_eq (content buf) (in_offset buf) lit = Some r" using strncmp_total by blast
  with True show thesis by (intro that [of r]) (simp_all add: at_literal_def can_read_def)
next
  case False
  then show thesis by (intro that [of False]) (simp_all add: at_literal_def)
qed

lemma number_loop_spec:
  "len \<le> length c \<Longrightarrow> \<exists>s. number_loop r c len p = Some s \<and> (s = [] \<or> p + length s \<le> len)"
proof (induction r arbitrary: p)
  case (Suc r)
  from Suc.IH [OF Suc.prems, of "p + 1"] obtain s where s: "number_loop r c len (p + 1) = Some s" "s = [] \<or> p + 1 + length s \<le> len"
    by auto
  show ?case
  proof (cases "p < len")
    case True
    with Suc.prems have "byte_at c p = Some (c ! p)" by (simp add: byte_at_def)
    with s True show ?thesis by auto
  qed simp
qed simp

section \<open>The contract of a parser of one element\<close>

text \<open>
  \<open>blank\<close>: an item that can be filled. \<open>links_kept\<close>: the links of an item are the old ones. \<open>parsed\<close>: the
  tree at \<open>p\<close> was built from memory that was free before and stands for the value \<open>v\<close>.
\<close>

definition blank :: "cjson_h \<Rightarrow> items \<Rightarrow> nat \<Rightarrow> bool" where
  "blank H h p \<longleftrightarrow> p \<noteq> 0 \<and> (case h p of None \<Rightarrow> False | Some x \<Rightarrow> chd x = 0 \<and> item_type x AND cJSON_IsReference H = 0)"

definition links_kept :: "items \<Rightarrow> items \<Rightarrow> nat \<Rightarrow> bool" where
  "links_kept h h' p \<longleftrightarrow> (case (h p, h' p) of (Some x, Some x') \<Rightarrow> nxt x' = nxt x \<and> prv x' = prv x | _ \<Rightarrow> False)"

definition parsed :: "cjson_h \<Rightarrow> items \<Rightarrow> nat \<Rightarrow> items \<Rightarrow> atree list \<Rightarrow> json \<Rightarrow> bool" where
  "parsed H h p h' ts v \<longleftrightarrow> own H h' (Nd p ts) \<and> distinct (addrs (Nd p ts)) \<and> set (forest_addrs ts) \<inter> dom h = {} \<and>
     (\<forall>y. y \<notin> set (addrs (Nd p ts)) \<longrightarrow> h' y = h y) \<and> links_kept h h' p \<and> json_of H h' (Nd p ts) = Some v"

text \<open>
  The result of parsing one element into \<open>p\<close>: nothing faults; on success the offset has advanced and
  stays inside the text, the nesting is restored, and the element was built within the nesting
  limit; on failure only the values of the item itself may have changed.
\<close>

definition key_rule :: "bool \<Rightarrow> items \<Rightarrow> items \<Rightarrow> nat \<Rightarrow> bool" where
  "key_rule named h h' p \<longleftrightarrow> (if named then key_at h' p \<noteq> None else key_at h' p = key_at h p)"

definition element_result ::
  "bool \<Rightarrow> cjson_h \<Rightarrow> items \<Rightarrow> nat \<Rightarrow> parse_buffer \<Rightarrow> (bool \<times> items \<times> parse_buffer) option \<Rightarrow> bool" where
  "element_result named H h p buf r \<longleftrightarrow> (case r of None \<Rightarrow> False
     | Some (ok, h', buf') \<Rightarrow> same_text buf buf' \<and>
         (if ok then in_offset buf < in_offset buf' \<and> in_offset buf' \<le> in_length buf \<and> in_depth buf' = in_depth buf \<and>
             key_rule named h h' p \<and>
             (\<exists>ts v. parsed H h p h' ts v \<and> json_depth v \<le> CJSON_NESTING_LIMIT H - in_depth buf)
          else blank H h' p \<and> links_kept h h' p \<and> (\<forall>y. y \<noteq> p \<longrightarrow> h' y = h y)))"

definition element_parser :: "bool \<Rightarrow> cjson_h \<Rightarrow> nat \<Rightarrow> parser \<Rightarrow> bool" where
  "element_parser named H n pv \<longleftrightarrow> (\<forall>h p buf. text_ok buf \<and> in_offset buf \<le> in_length buf \<and> blank H h p \<and>
     (named \<longrightarrow> in_offset buf < length (content buf)) \<and> in_length buf - in_offset buf < n \<longrightarrow>
     element_result named H h p buf (pv h p buf))"

lemma element_parserD:
  assumes "element_parser named H n pv" and "text_ok buf" and "in_offset buf \<le> in_length buf" and "blank H h p"
    and "named \<Longrightarrow> in_offset buf < length (content buf)" and "in_length buf - in_offset buf < n"
  shows "element_result named H h p buf (pv h p buf)"
  using assms by (simp add: element_parser_def)

lemma blankE:
  assumes "blank H h p"
  obtains x where "p \<noteq> 0" and "h p = Some x" and "chd x = 0" and "item_type x AND cJSON_IsReference H = 0"
  using assms by (auto simp: blank_def split: option.splits)

lemma failed_unchanged: "blank H h p \<Longrightarrow> same_text buf buf' \<Longrightarrow> element_result named H h p buf (Some (False, h, buf'))"
  by (auto simp: element_result_def links_kept_def blank_def split: option.splits)

lemma element_okI:
  assumes "same_text buf buf'" and "in_offset buf < in_offset buf'" and "in_offset buf' \<le> in_length buf" and "in_depth buf' = in_depth buf"
    and "key_rule named h h' p" and "parsed H h p h' ts v" and "json_depth v \<le> CJSON_NESTING_LIMIT H - in_depth buf"
  shows "element_result named H h p buf (Some (True, h', buf'))"
proof -
  have "\<exists>ts v. parsed H h p h' ts v \<and> json_depth v \<le> CJSON_NESTING_LIMIT H - in_depth buf" using assms(6,7) by blast
  with assms(1-5) show ?thesis by (simp add: element_result_def)
qed

text \<open>An element without children.\<close>

lemma leaf_kids: "h p = Some x \<Longrightarrow> p \<noteq> 0 \<Longrightarrow> kids h p [] \<longleftrightarrow> chd x = 0"
  by (simp add: kids_def)

lemma scalar_parsed:
  assumes "blank H h p" and "h p = Some x" and "chd x' = chd x" and "nxt x' = nxt x" and "prv x' = prv x"
    and "item_type x' AND cJSON_IsReference H = 0" and "json_of H (h(p \<mapsto> x')) (Nd p []) = Some v"
  shows "parsed H h p (h(p \<mapsto> x')) [] v"
proof -
  have "p \<noteq> 0" "chd x = 0" using assms(1,2) by (auto simp: blank_def)
  then have "own H (h(p \<mapsto> x')) (Nd p [])"
    using leaf_kids [of "h(p \<mapsto> x')" p x'] assms(3,6) by (simp add: not_reference_def)
  then show ?thesis using assms(2,4,5,7) by (simp add: parsed_def links_kept_def del: json_of.simps own.simps)
qed

lemma scalar_result:
  assumes "blank H h p" and "h p = Some x" and "same_text buf buf'" and "in_offset buf < in_offset buf'" and "in_offset buf' \<le> in_length buf"
    and "in_depth buf' = in_depth buf" and "chd x' = chd x" and "nxt x' = nxt x" and "prv x' = prv x" and "item_string x' = item_string x"
    and "item_type x' AND cJSON_IsReference H = 0" and "json_of H (h(p \<mapsto> x')) (Nd p []) = Some v" and "json_depth v = 0"
  shows "element_result False H h p buf (Some (True, h(p \<mapsto> x'), buf'))"
proof -
  have "key_rule False h (h(p \<mapsto> x')) p" using assms(2,10) by (simp add: key_rule_def key_at_def)
  then show ?thesis
    using scalar_parsed [OF assms(1,2,7,8,9,11,12)] assms(3-6,13) by (intro element_okI [where ts = "[]" and v = v]) simp_all
qed

section \<open>Scalars\<close>

definition strtod_ok :: "strtod \<Rightarrow> bool" where
  "strtod_ok strtod \<longleftrightarrow> (\<forall>s. snd (strtod s) \<le> length s)"

lemma jset_blank: "h p = Some x \<Longrightarrow> p \<noteq> 0 \<Longrightarrow> jset h p f = Some (h(p \<mapsto> f x))"
  by (simp add: jset_def jget_def)

lemma literal_result:
  assumes "blank H h p" and "in_offset buf + length lit \<le> in_length buf" and "lit \<noteq> []"
    and "\<And>x. chd (f x) = chd x \<and> nxt (f x) = nxt x \<and> prv (f x) = prv x \<and> item_string (f x) = item_string x"
    and "\<And>x. item_type (f x) AND cJSON_IsReference H = 0" and "\<And>x. json_of H (h(p \<mapsto> f x)) (Nd p []) = Some v" and "json_depth v = 0"
  shows "element_result False H h p buf (parse_literal buf lit f h p)"
proof -
  obtain x where x: "p \<noteq> 0" "h p = Some x" using assms(1) by (rule blankE)
  have "parse_literal buf lit f h p = Some (True, h(p \<mapsto> f x), buf\<lparr>in_offset := in_offset buf + length lit\<rparr>)"
    using x by (simp add: parse_literal_def jset_blank)
  moreover have "element_result False H h p buf (Some (True, h(p \<mapsto> f x), buf\<lparr>in_offset := in_offset buf + length lit\<rparr>))"
    by (rule scalar_result [OF assms(1) x(2), where v = v]) (use assms in simp_all)
  ultimately show ?thesis by simp
qed

lemma number_result:
  assumes "types_ok (env_h E)" and "strtod_ok strtod" and "text_ok buf" and "blank (env_h E) h p"
  shows "element_result False (env_h E) h p buf (parse_number E strtod h p buf)"
proof -
  obtain x where x: "p \<noteq> 0" "h p = Some x" using assms(4) by (rule blankE)
  obtain s where s: "number_loop 63 (content buf) (in_length buf) (in_offset buf) = Some s" "s = [] \<or> in_offset buf + length s \<le> in_length buf"
    using number_loop_spec assms(3) unfolding text_ok_def by blast
  obtain num k where st: "strtod s = (num, k)" by fastforce
  with assms(2) have k: "k \<le> length s" unfolding strtod_ok_def by (metis snd_conv)
  show ?thesis
  proof (cases "k = 0")
    case True
    then have "parse_number E strtod h p buf = Some (False, h, buf)" using s st by (simp add: parse_number_def)
    with failed_unchanged [OF assms(4)] show ?thesis by simp
  next
    case False
    let ?x = "x\<lparr>valuedouble := num, valueint := saturate E num, item_type := cJSON_Number (env_h E)\<rparr>"
    have "parse_number E strtod h p buf = Some (True, h(p \<mapsto> ?x), buf\<lparr>in_offset := in_offset buf + k\<rparr>)"
      using False s st x by (simp add: parse_number_def jset_blank)
    moreover have "element_result False (env_h E) h p buf (Some (True, h(p \<mapsto> ?x), buf\<lparr>in_offset := in_offset buf + k\<rparr>))"
      by (rule scalar_result [OF assms(4) x(2), where v = "JNumber num"])
        (use s k False in \<open>auto simp: types_simps [OF assms(1)] scalar_json_def\<close>)
    ultimately show ?thesis by simp
  qed
qed

text \<open>A string, or the name of a member: the item is unchanged on failure.\<close>

lemma parse_string_end:
  assumes "in_offset buf = in_length buf" and "in_offset buf < length (content buf)"
  shows "parse_string H hooks item buf = Some (False, item, buf\<lparr>in_offset := in_offset buf + 1\<rparr>)"
  using assms by (simp add: parse_string_def byte_at_Some scan_end.simps)

lemma string_cases:
  assumes "hooks_ok (env_hooks E)" and "text_ok buf" and "in_offset buf \<le> in_length buf" and "in_offset buf < length (content buf)"
    and "p \<noteq> 0" and "h p = Some x"
  obtains q where "parse_string_at E h p buf = Some (False, h, buf\<lparr>in_offset := q\<rparr>)"
  | blk q where "parse_string_at E h p buf = Some (True, h(p \<mapsto> x\<lparr>item_type := cJSON_String (env_h E), valuestring := Some blk\<rparr>), buf\<lparr>in_offset := q\<rparr>)"
    and "in_offset buf < q" and "q \<le> in_length buf" and "0 \<in> set blk"
proof -
  note outcome = that
  let ?y = "cJSON.truncate x"
  have sel: "item_type ?y = item_type x" "valuestring ?y = valuestring x" by (simp_all add: cJSON.defs)
  have upd: "h(p \<mapsto> x\<lparr>item_type := item_type x, valuestring := valuestring x\<rparr>) = h" using assms(6) by auto
  have failed: thesis if "parse_string (env_h E) (env_hooks E) ?y buf = Some (False, ?y, buf\<lparr>in_offset := q\<rparr>)" for q
    using that assms(5,6) sel upd by (intro outcome(1) [of q]) (simp add: parse_string_at_def jget_def)
  show thesis
  proof (cases "in_offset buf < in_length buf")
    case True
    then have "buffer_ok buf" using assms(2) by (simp add: buffer_ok_def text_ok_def)
    from parse_string_cases [OF assms(1) this, of "env_h E" ?y] consider
        q where "parse_string (env_h E) (env_hooks E) ?y buf = Some (False, ?y, buf\<lparr>in_offset := q\<rparr>)"
      | blk q where "parse_string (env_h E) (env_hooks E) ?y buf =
          Some (True, ?y\<lparr>item_type := cJSON_String (env_h E), valuestring := Some blk\<rparr>, buf\<lparr>in_offset := q\<rparr>)"
          "in_offset buf + 1 < q" "q \<le> in_length buf" "0 \<in> set blk" by blast
    then show thesis
    proof cases
      case 1
      then show ?thesis by (rule failed)
    next
      case 2
      then show ?thesis using assms(5,6) by (intro outcome(2) [of blk q]) (simp_all add: parse_string_at_def jget_def)
    qed
  next
    case False
    with assms(3) have "in_offset buf = in_length buf" by simp
    from parse_string_end [OF this assms(4)] show thesis by (rule failed)
  qed
qed

lemma string_result:
  assumes "types_ok (env_h E)" and "hooks_ok (env_hooks E)" and "text_ok buf" and "in_offset buf < in_length buf" and "blank (env_h E) h p"
  shows "element_result False (env_h E) h p buf (parse_string_at E h p buf)"
proof -
  obtain x where x: "p \<noteq> 0" "h p = Some x" using assms(5) by (rule blankE)
  have off: "in_offset buf \<le> in_length buf" "in_offset buf < length (content buf)" using assms(3,4) by (simp_all add: text_ok_def)
  show ?thesis
  proof (rule string_cases [OF assms(2,3) off, of p h x])
    show "p \<noteq> 0" "h p = Some x" using x .
  next
    fix q
    assume "parse_string_at E h p buf = Some (False, h, buf\<lparr>in_offset := q\<rparr>)"
    with failed_unchanged [OF assms(5), where buf = buf and buf' = "buf\<lparr>in_offset := q\<rparr>"] show ?thesis by simp
  next
    fix blk q
    let ?x = "x\<lparr>item_type := cJSON_String (env_h E), valuestring := Some blk\<rparr>"
    assume r: "parse_string_at E h p buf = Some (True, h(p \<mapsto> ?x), buf\<lparr>in_offset := q\<rparr>)" "in_offset buf < q" "q \<le> in_length buf" "0 \<in> set blk"
    have "element_result False (env_h E) h p buf (Some (True, h(p \<mapsto> ?x), buf\<lparr>in_offset := q\<rparr>))"
      by (rule scalar_result [OF assms(5) x(2), where v = "JString (c_string blk)"])
        (use r in \<open>simp_all add: types_simps [OF assms(1)] scalar_json_def c_text_def\<close>)
    with r(1) show ?thesis by simp
  qed
qed

section \<open>The list under construction\<close>

text \<open>
  The two loops differ in the parser of one element, the closing byte and the type of the item: both
  are instances of this loop.
\<close>

fun element_loop :: "nat \<Rightarrow> parser \<Rightarrow> u8 \<Rightarrow> u32 \<Rightarrow> cjson_env \<Rightarrow> items \<Rightarrow> nat \<Rightarrow> nat \<Rightarrow> nat \<Rightarrow> parse_buffer \<Rightarrow> (bool \<times> items \<times> parse_buffer) option" where
  "element_loop 0 pe cl ty E h p head current_item buf = None"
| "element_loop (Suc n) pe cl ty E h p head current_item buf =
     (let (new_item, h1) = cJSON_New_Item E h in
      if new_item = 0 then parse_fail E h1 head buf
      else do {
        (h2, head1) \<leftarrow> attach h1 head current_item new_item;
        buf1 \<leftarrow> buffer_skip_whitespace (buf\<lparr>in_offset := in_offset buf + 1\<rparr>);
        (ok, h3, buf2) \<leftarrow> pe h2 new_item buf1;
        if \<not> ok then parse_fail E h3 head1 buf2
        else do {
          buf3 \<leftarrow> buffer_skip_whitespace buf2;
          comma \<leftarrow> next_is buf3 (\<lambda>b. b = 44);
          if comma then element_loop n pe cl ty E h3 p head1 new_item buf3
          else do {
            close \<leftarrow> next_is buf3 (\<lambda>b. b = cl);
            if \<not> close then parse_fail E h3 head1 buf3
            else parse_success ty h3 p head1 new_item buf3
          }
        }
      })"

lemma array_loop_element: "array_loop n pv E = element_loop n pv 93 (cJSON_Array (env_h E)) E"
  by (induction n; intro ext) (simp_all cong: if_cong prod.case_cong)

lemma object_loop_element: "object_loop n pv E = element_loop n (parse_member pv E) 125 (cJSON_Object (env_h E)) E"
  by (induction n; intro ext) (simp_all cong: if_cong prod.case_cong)

definition new_ok :: "cjson_env \<Rightarrow> bool" where
  "new_ok E \<longleftrightarrow> (\<forall>h. env_new E h \<noteq> 0 \<longrightarrow> h (env_new E h) = None)"

text \<open>The trees \<open>ts\<close> were built since the heap was \<open>h0\<close> and are linked; the first has no predecessor yet.\<close>

definition chain :: "cjson_h \<Rightarrow> items \<Rightarrow> items \<Rightarrow> nat \<Rightarrow> atree list \<Rightarrow> bool" where
  "chain H h0 h p ts \<longleftrightarrow> list_all (own H h) ts \<and> distinct (p # forest_addrs ts) \<and> set (forest_addrs ts) \<inter> dom h0 = {} \<and>
     dseg h 0 (map root ts) 0 \<and> (\<forall>y. y \<notin> set (forest_addrs ts) \<longrightarrow> h y = h0 y)"

definition chain_values :: "bool \<Rightarrow> cjson_h \<Rightarrow> items \<Rightarrow> atree list \<Rightarrow> json list \<Rightarrow> bool" where
  "chain_values named H h ts vs \<longleftrightarrow> those (map (json_of H h) ts) = Some vs \<and>
     (named \<longrightarrow> (\<forall>t\<in>set ts. key_at h (root t) \<noteq> None))"

lemma chain_Nil: "p \<noteq> 0 \<Longrightarrow> chain H h h p []"
  by (simp add: chain_def)

lemma chain_roots: "chain H h0 h p ts \<Longrightarrow> 0 \<notin> set (map root ts)"
  using own_root [of H h] by (fastforce simp: chain_def list_all_iff)

lemma first_root_zero: "chain H h0 h p ts \<Longrightarrow> first (map root ts) 0 = 0 \<longleftrightarrow> ts = []"
  using chain_roots [of H h0 h p ts] by (cases ts) auto

lemma chainD:
  assumes "chain H h0 h p ts"
  shows "list_all (own H h) ts" "distinct (p # forest_addrs ts)" "set (forest_addrs ts) \<inter> dom h0 = {}" "dseg h 0 (map root ts) 0"
    "\<And>y. y \<notin> set (forest_addrs ts) \<Longrightarrow> h y = h0 y"
  using assms unfolding chain_def by blast+

text \<open>Releasing the list gives the old heap back: nothing leaks.\<close>

lemma chain_release:
  assumes "chain (env_h E) h0 h p ts"
  shows "parse_fail E h (first (map root ts) 0) buf = Some (False, h0, buf)"
proof -
  have "h |` (- set (forest_addrs ts)) = h0"
  proof
    fix y
    show "(h |` (- set (forest_addrs ts))) y = h0 y"
    proof (cases "y \<in> set (forest_addrs ts)")
      case True
      then have "y \<notin> dom h0" using assms unfolding chain_def by blast
      with True show ?thesis by (auto simp: restrict_map_def)
    next
      case False
      then have "h y = h0 y" using assms unfolding chain_def by blast
      with False show ?thesis by (simp add: restrict_map_def)
    qed
  qed
  moreover have "cJSON_Delete E h (first (map root ts) 0) = Some (h |` (- set (forest_addrs ts)))"
    by (rule delete_forest [OF chainD(1) [OF assms] _ chainD(4) [OF assms]]) (use chainD(2) [OF assms] in simp)
  ultimately show ?thesis by (cases "first (map root ts) 0 = 0") (simp_all add: parse_fail_def del: set_concat set_map)
qed

text \<open>A new item at the end of the list.\<close>

definition appended :: "cjson_h \<Rightarrow> items \<Rightarrow> items \<Rightarrow> atree list \<Rightarrow> nat \<Rightarrow> bool" where
  "appended H h h2 ts q \<longleftrightarrow> list_all (own H h2) ts \<and> dseg h2 0 (map root ts @ [q]) 0 \<and> blank H h2 q \<and>
     (\<forall>y. y \<noteq> q \<longrightarrow> y \<notin> set (forest_addrs ts) \<longrightarrow> h2 y = h y) \<and> (\<forall>t\<in>set ts. json_of H h2 t = json_of H h t \<and> key_at h2 (root t) = key_at h (root t))"

lemma blank_new: "q \<noteq> 0 \<Longrightarrow> h q = Some (null_item\<lparr>prv := a\<rparr>) \<Longrightarrow> blank H h q"
  by (simp add: blank_def null_item_def)

lemma attach_first:
  assumes "q \<noteq> 0"
  shows "attach (h(q \<mapsto> null_item)) 0 0 q = Some (h(q \<mapsto> null_item), q) \<and> appended H h (h(q \<mapsto> null_item)) [] q"
  using assms blank_new [of q "h(q \<mapsto> null_item)" 0] by (simp add: attach_def appended_def null_item_def)

lemma json_of_fresh:
  assumes "own H h t" and "h q = None"
  shows "own H (h(q \<mapsto> x)) t" "json_of H (h(q \<mapsto> x)) t = json_of H h t" "key_at (h(q \<mapsto> x)) (root t) = key_at h (root t)"
proof -
  have *: "(h(q \<mapsto> x)) y = h y" if "y \<in> set (addrs t)" for y using own_in_heap [OF assms(1) that] assms(2) by auto
  show "own H (h(q \<mapsto> x)) t" using own_cong [of t "h(q \<mapsto> x)" h H] * assms(1) by blast
  show "json_of H (h(q \<mapsto> x)) t = json_of H h t" by (rule json_of_cong) (rule *)
  show "key_at (h(q \<mapsto> x)) (root t) = key_at h (root t)" by (rule key_at_cong) (rule * [OF root_in_addrs])
qed

lemma attach_next:
  assumes c: "chain H h0 h p (ts @ [t])" and q: "h q = None" "q \<noteq> 0" "q \<noteq> p"
  shows "\<exists>h2. attach (h(q \<mapsto> null_item)) (first (map root (ts @ [t])) 0) (root t) q = Some (h2, first (map root (ts @ [t])) 0) \<and>
    appended H h h2 (ts @ [t]) q"
proof -
  let ?c = "root t" and ?us = "ts @ [t]" and ?h1 = "h(q \<mapsto> null_item)"
  note own = chainD(1) [OF c] and dist = chainD(2) [OF c] and seg = chainD(4) [OF c]
  have t: "own H h t" "?c \<noteq> 0" "h ?c \<noteq> None" using own own_root [of H h t] by (simp_all add: list_all_iff)
  then obtain x where x: "h ?c = Some x" by blast
  have ne: "?c \<noteq> q" using x q(1) by auto
  let ?h2 = "?h1(?c \<mapsto> x\<lparr>nxt := q\<rparr>, q \<mapsto> null_item\<lparr>prv := ?c\<rparr>)"
  have head: "first (map root ?us) 0 \<noteq> 0" using first_root_zero [OF c] by simp
  have att: "attach ?h1 (first (map root ?us) 0) ?c q = Some (?h2, first (map root ?us) 0)"
    using head x ne t(2) q(2) by (simp add: attach_def suffix_object_def jset_def jget_def del: map_append)
  have own1: "own H ?h1 u" "json_of H ?h1 u = json_of H h u" "key_at ?h1 (root u) = key_at h (root u)" if "u \<in> set ?us" for u
  proof -
    have "own H h u" using own that unfolding list_all_iff by blast
    from json_of_fresh [OF this q(1)] show "own H ?h1 u" "json_of H ?h1 u = json_of H h u" "key_at ?h1 (root u) = key_at h (root u)" .
  qed
  have rel: "relinked ?h1 ?h2"
    by (rule relinked_upd [where x = null_item], rule relinked_upd [where x = x]) (use x ne in simp_all)
  have outside: "?h2 y = ?h1 y" if "y \<noteq> ?c" "y \<noteq> q" for y using that by simp
  have "own H ?h2 u" if u: "u \<in> set ?us" for u
  proof (rule relinked_own [OF rel _ own1(1) [OF u]])
    fix y
    assume y: "y \<in> set (forest_addrs (subs u))"
    have yu: "y \<in> set (addrs u)" using y by (cases u) simp
    then have "h y \<noteq> None" using own_in_heap [of H h u] own u by (auto simp: list_all_iff)
    then have yq: "y \<noteq> q" using q(1) by auto
    have "y \<noteq> ?c"
    proof
      assume yc: "y = ?c"
      show False
      proof (cases "u = t")
        case True
        have "distinct (addrs t)" using dist by simp
        with y yc True show False by (cases t) auto
      next
        case False
        with u have "u \<in> set ts" by simp
        with dist yu yc root_in_addrs [of t] show False by auto
      qed
    qed
    from outside [OF this yq] show "?h2 y = ?h1 y" .
  qed
  then have "list_all (own H ?h2) ?us" by (simp add: list_all_iff)
  moreover have "dseg ?h2 0 (map root ?us @ [q]) 0"
  proof -
    have dr: "distinct (map root ts @ [?c])" using distinct_roots [of ?us] dist by simp
    have "?h2 y = h y" if "y \<in> set (map root ts)" for y
    proof -
      have "y \<noteq> ?c" using dr that by (simp, metis imageI)
      moreover have "y \<noteq> q" using dseg_in_heap [OF seg, of y] that q(1) by auto
      ultimately show ?thesis by simp
    qed
    then have "dseg ?h2 0 (map root ts) ?c = dseg h 0 (map root ts) ?c" by (rule dseg_cong)
    moreover have "dseg h 0 (map root ts) ?c" "prv x = final 0 (map root ts)" using seg x by (simp_all add: dseg_append)
    ultimately show ?thesis using ne by (simp add: dseg_append null_item_def)
  qed
  moreover have "blank H ?h2 q" using blank_new [OF q(2)] by simp
  ultimately show ?thesis using att outside relinked_json [OF rel] relinked_key [OF rel] own1(2,3) t(2) root_in_addrs [of t]
    by (intro exI [of _ ?h2] conjI) (auto simp: appended_def)
qed

text \<open>Both cases together: the new item after any list.\<close>

lemma attach_new:
  assumes c: "chain H h0 h p ts" and q: "h q = None" "q \<noteq> 0" "q \<noteq> p"
  shows "\<exists>h2. attach (h(q \<mapsto> null_item)) (first (map root ts) 0) (final 0 (map root ts)) q = Some (h2, first (map root ts @ [q]) 0) \<and>
    appended H h h2 ts q"
proof (cases ts rule: rev_cases)
  case Nil
  with attach_first [OF q(2), of h H] show ?thesis by auto
next
  case (snoc us u)
  from attach_next [OF c [unfolded snoc] q] obtain h2 where
    "attach (h(q \<mapsto> null_item)) (first (map root (us @ [u])) 0) (root u) q = Some (h2, first (map root (us @ [u])) 0)" "appended H h h2 (us @ [u]) q"
    by blast
  moreover have "first (map root ts @ [q]) 0 = first (map root ts) 0" using snoc by (cases us) simp_all
  ultimately show ?thesis using snoc by auto
qed

lemma appendedD:
  assumes "appended H h h2 ts q"
  shows "list_all (own H h2) ts" "dseg h2 0 (map root ts @ [q]) 0" "blank H h2 q"
    "\<And>y. y \<noteq> q \<Longrightarrow> y \<notin> set (forest_addrs ts) \<Longrightarrow> h2 y = h y"
    "\<And>t. t \<in> set ts \<Longrightarrow> json_of H h2 t = json_of H h t" "\<And>t. t \<in> set ts \<Longrightarrow> key_at h2 (root t) = key_at h (root t)"
  using assms unfolding appended_def by blast+

text \<open>The list grows by the tree that was built at the new item.\<close>

lemma chain_grows:
  assumes c: "chain H h0 h p ts" and a: "appended H h h2 ts q" and q: "h q = None" "q \<noteq> p"
    and own: "own H h3 (Nd q us)" and dist: "distinct (addrs (Nd q us))" and fresh: "set (forest_addrs us) \<inter> dom h2 = {}"
    and same: "\<And>y. y \<notin> set (addrs (Nd q us)) \<Longrightarrow> h3 y = h2 y" and links: "links_kept h2 h3 q" and p: "h p \<noteq> None"
  shows "chain H h0 h3 p (ts @ [Nd q us])"
    and "t \<in> set ts \<Longrightarrow> json_of H h3 t = json_of H h t \<and> key_at h3 (root t) = key_at h (root t)"
proof -
  note D = chainD [OF c] and A = appendedD [OF a]
  have in2: "h2 y \<noteq> None" if "y \<in> set (forest_addrs ts)" for y
    using that A(1) own_in_heap [of H h2 _ y] by (auto simp: list_all_iff)
  have in1: "h y \<noteq> None" if "y \<in> set (forest_addrs ts)" for y
    using that D(1) own_in_heap [of H h _ y] by (auto simp: list_all_iff)
  have disj: "y \<notin> set (addrs (Nd q us))" if "y \<in> set (forest_addrs ts)" for y
    using in1 [OF that] in2 [OF that] q(1) fresh by auto
  have same_ts: "h3 y = h2 y" if "y \<in> set (forest_addrs ts)" for y using same disj [OF that] .
  have pn: "p \<noteq> q" "h2 p = h p" using q p A(4) [of p] D(2) by auto
  have p_us: "p \<notin> set (forest_addrs us)" using fresh p pn by auto
  have q0: "h0 q = None" using D(5) [of q] in1 [of q] q(1) by metis
  have us0: "h0 y = None" if "y \<in> set (forest_addrs us)" for y
  proof -
    have "h2 y = None" using that fresh by blast
    moreover have "y \<notin> set (forest_addrs ts)" using in2 calculation by blast
    moreover have "y \<noteq> q" using that dist by auto
    ultimately show ?thesis using A(4) D(5) by metis
  qed
  have "list_all (own H h3) (ts @ [Nd q us])"
    using own_forest_cong [of ts h3 h2 H, OF same_ts] A(1) own by simp
  moreover have "distinct (p # forest_addrs (ts @ [Nd q us]))"
  proof -
    have "set (forest_addrs ts) \<inter> set (addrs (Nd q us)) = {}" using disj by blast
    with D(2) dist pn p_us show ?thesis by auto
  qed
  moreover have "set (forest_addrs (ts @ [Nd q us])) \<inter> dom h0 = {}"
  proof -
    have "set (forest_addrs us) \<inter> dom h0 = {}" by (simp add: disjoint_iff domIff us0 del: set_concat)
    with D(3) q0 show ?thesis by auto
  qed
  moreover have "dseg h3 0 (map root (ts @ [Nd q us])) 0"
  proof -
    have "h3 y = h2 y" if "y \<in> set (map root ts)" for y using same_ts roots_in_addrs [of ts] that by blast
    then have "dseg h3 0 (map root ts) q = dseg h2 0 (map root ts) q" by (rule dseg_cong)
    with A(2) links show ?thesis by (auto simp: dseg_append links_kept_def split: option.splits)
  qed
  moreover have "h3 y = h0 y" if "y \<notin> set (forest_addrs (ts @ [Nd q us]))" for y
    using that same [of y] A(4) [of y] D(5) [of y] by simp
  ultimately show "chain H h0 h3 p (ts @ [Nd q us])" unfolding chain_def by blast
  show "json_of H h3 t = json_of H h t \<and> key_at h3 (root t) = key_at h (root t)" if t: "t \<in> set ts"
  proof -
    have "h3 y = h2 y" if "y \<in> set (addrs t)" for y using same_ts t that by auto
    then have "json_of H h3 t = json_of H h2 t" "h3 (root t) = h2 (root t)" using json_of_cong root_in_addrs by blast+
    with A(5,6) [OF t] key_at_cong show ?thesis by metis
  qed
qed

text \<open>The end of a list: its head gets the last item as predecessor and becomes the child of the item.\<close>

lemma subs_not_root:
  assumes "distinct (forest_addrs ts)" and "t \<in> set ts" and "u \<in> set ts" and "y \<in> set (forest_addrs (subs u))"
  shows "y \<noteq> root t"
proof (cases "t = u")
  case True
  have "distinct (addrs u)" using assms(1,3) by (auto simp: distinct_concat_iff)
  with True assms(4) show ?thesis by (cases u) auto
next
  case False
  have yu: "y \<in> set (addrs u)" using assms(4) by (cases u) auto
  from split_list [OF assms(2)] obtain xs ys where ts: "ts = xs @ t # ys" by blast
  with assms(1,3) False yu root_in_addrs [of t] show ?thesis by auto
qed

lemma close_head:
  assumes c: "chain H h0 h p ts"
  shows "\<exists>h1. (if first (map root ts) 0 \<noteq> 0 then jset h (first (map root ts) 0) (\<lambda>x. x\<lparr>prv := final 0 (map root ts)\<rparr>) else Some h) = Some h1 \<and>
    list_all (own H h1) ts \<and> relinked h h1 \<and> dseg h1 (final 0 (map root ts)) (map root ts) 0 \<and>
    (\<forall>y. y \<notin> set (forest_addrs ts) \<longrightarrow> h1 y = h y)"
proof (cases ts)
  case Nil
  then show ?thesis by simp
next
  case (Cons t us)
  note D = chainD [OF c]
  let ?r = "root t"
  have r: "?r \<noteq> 0" "h ?r \<noteq> None" using D(1) Cons own_root [of H h t] by simp_all
  then obtain x where x: "h ?r = Some x" by blast
  let ?h1 = "h(?r \<mapsto> x\<lparr>prv := final 0 (map root ts)\<rparr>)"
  have rel: "relinked h ?h1" by (rule relinked_upd [where h' = h and x = x]) (use x in simp_all)
  have "own H ?h1 u" if u: "u \<in> set ts" for u
  proof (rule relinked_own [OF rel])
    show "?h1 y = h y" if "y \<in> set (forest_addrs (subs u))" for y
      using subs_not_root [OF _ _ u that, of t] D(2) Cons by simp
    show "own H h u" using D(1) u by (simp add: list_all_iff)
  qed
  then have "list_all (own H ?h1) ts" by (simp add: list_all_iff)
  moreover have "dseg ?h1 (final 0 (map root ts)) (map root ts) 0"
  proof -
    have "?r \<notin> set (map root us)" using distinct_roots [of ts] D(2) Cons by simp
    with D(4) Cons x dseg_prv [of h 0 ?r "map root us" 0 x] show ?thesis by simp
  qed
  moreover have "?h1 y = h y" if "y \<notin> set (forest_addrs ts)" for y using that Cons root_in_addrs [of t] by auto
  ultimately show ?thesis using r(1) x rel Cons by (intro exI [of _ ?h1]) (simp add: jset_def jget_def)
qed

lemma container_value:
  assumes "types_ok H" and "chain_values named H h ts vs" and "h p = Some x" and "item_type x = (if named then cJSON_Object H else cJSON_Array H)"
    and "\<And>v. v \<in> set vs \<Longrightarrow> json_depth v \<le> n"
  shows "\<exists>v. json_of H h (Nd p ts) = Some v \<and> json_depth v \<le> Suc n"
proof -
  have vs: "those (map (json_of H h) ts) = Some vs" using assms(2) by (simp add: chain_values_def)
  show ?thesis
  proof (cases named)
    case True
    define ks where "ks = map (\<lambda>t. the (key_at h (root t))) ts"
    have "map (\<lambda>t. key_at h (root t)) ts = map Some ks"
      using assms(2) True by (auto simp: ks_def chain_values_def)
    then have "those (map (\<lambda>t. key_at h (root t)) ts) = Some ks" by (simp only: those_Some)
    then have "json_of H h (Nd p ts) = Some (JObject (zip ks vs))"
      using assms(3,4) True vs by (simp add: types_simps [OF assms(1)])
    moreover have "json_depth (JObject (zip ks vs)) \<le> Suc n"
      unfolding json_depth_object using assms(5) by (auto dest: set_zip_rightD)
    ultimately show ?thesis by blast
  next
    case False
    then have "json_of H h (Nd p ts) = Some (JArray vs)" using assms(3,4) vs by (simp add: types_simps [OF assms(1)])
    moreover have "json_depth (JArray vs) \<le> Suc n" unfolding json_depth_array using assms(5) by blast
    ultimately show ?thesis by blast
  qed
qed

text \<open>The tree that is completed: the children keep what they stand for, and only the item itself and they differ from the old heap.\<close>

lemma success_tree:
  assumes ty: "ty AND cJSON_IsReference H = 0" and c: "chain H h0 h p ts" and p: "blank H h0 p" "h0 p = Some x"
  obtains h2 where "parse_success ty h p (first (map root ts) 0) (final 0 (map root ts)) buf =
      Some (True, h2, buf\<lparr>in_depth := in_depth buf - 1, in_offset := in_offset buf + 1\<rparr>)"
    and "h2 p = Some (x\<lparr>item_type := ty, chd := first (map root ts) 0\<rparr>)"
    and "\<And>t. t \<in> set ts \<Longrightarrow> json_of H h2 t = json_of H h t \<and> key_at h2 (root t) = key_at h (root t)"
    and "\<And>v. json_of H h2 (Nd p ts) = Some v \<Longrightarrow> parsed H h0 p h2 ts v"
proof -
  note D = chainD [OF c]
  have p0: "p \<noteq> 0" using p(1) by (simp add: blank_def)
  have pn: "p \<notin> set (forest_addrs ts)" using D(2) by simp
  obtain h1 where h1: "(if first (map root ts) 0 \<noteq> 0 then jset h (first (map root ts) 0) (\<lambda>x. x\<lparr>prv := final 0 (map root ts)\<rparr>) else Some h) = Some h1"
    and own1: "list_all (own H h1) ts" and rel: "relinked h h1" and seg1: "dseg h1 (final 0 (map root ts)) (map root ts) 0"
    and out1: "\<And>y. y \<notin> set (forest_addrs ts) \<Longrightarrow> h1 y = h y" using close_head [OF c] by blast
  have p1: "h1 p = Some x" using out1 [OF pn] D(5) [OF pn] p(2) by simp
  let ?x = "x\<lparr>item_type := ty, chd := first (map root ts) 0\<rparr>"
  let ?h2 = "h1(p \<mapsto> ?x)"
  have same: "?h2 y = h1 y" if "y \<in> set (forest_addrs ts)" for y using that pn by auto
  have res: "parse_success ty h p (first (map root ts) 0) (final 0 (map root ts)) buf =
      Some (True, ?h2, buf\<lparr>in_depth := in_depth buf - 1, in_offset := in_offset buf + 1\<rparr>)"
    unfolding parse_success_def h1 using p1 p0 by (simp add: jset_def jget_def)
  have roots: "h2 y = h1 y" if "\<And>y. y \<in> set (forest_addrs ts) \<Longrightarrow> h2 y = h1 y" "y \<in> set (map root ts)" for y h2
    using that roots_in_addrs [of ts] by blast
  have "dseg ?h2 (final 0 (map root ts)) (map root ts) 0"
    using dseg_cong [of "map root ts" ?h2 h1 "final 0 (map root ts)" 0] roots [of ?h2] same seg1 by blast
  moreover have "p \<notin> set (map root ts)" using pn roots_in_addrs [of ts] by blast
  ultimately have kids: "kids ?h2 p (map root ts)"
    using p0 chain_roots [OF c] distinct_roots [of ts] D(2) by (intro kidsI [of _ _ ?x _ "final 0 (map root ts)"]) simp_all
  have own: "own H ?h2 (Nd p ts)"
    using kids own_forest_cong [of ts ?h2 h1 H] same own1 ty by (simp add: not_reference_def)
  have vals: "json_of H ?h2 t = json_of H h t \<and> key_at ?h2 (root t) = key_at h (root t)" if t: "t \<in> set ts" for t
  proof -
    have *: "?h2 y = h1 y" if "y \<in> set (addrs t)" for y
    proof -
      have "y \<in> set (forest_addrs ts)" using t that by auto
      then show ?thesis by (rule same)
    qed
    show ?thesis using json_of_cong [of t ?h2 h1 H] * relinked_json [OF rel, of H t]
        key_at_cong [of ?h2 "root t" h1] * [OF root_in_addrs] relinked_key [OF rel] by metis
  qed
  have "?h2 y = h0 y" if "y \<notin> set (addrs (Nd p ts))" for y using that out1 [of y] D(5) [of y] by simp
  with own D(2,3) p(2) have "parsed H h0 p ?h2 ts v" if "json_of H ?h2 (Nd p ts) = Some v" for v
    unfolding parsed_def using that by (simp add: links_kept_def del: json_of.simps own.simps)
  with res vals that [of ?h2] show thesis by auto
qed

lemma success_result:
  assumes ty: "types_ok H" "ty = (if named then cJSON_Object H else cJSON_Array H)"
    and c: "chain H h0 h p ts" and p: "blank H h0 p" and vs: "chain_values named H h ts vs"
    and buf: "same_text buf0 buf" "in_offset buf0 \<le> in_offset buf" "in_offset buf < in_length buf0" "in_depth buf = in_depth buf0 + 1"
    and dp: "in_depth buf0 < CJSON_NESTING_LIMIT H" "\<And>v. v \<in> set vs \<Longrightarrow> json_depth v \<le> CJSON_NESTING_LIMIT H - (in_depth buf0 + 1)"
  shows "element_result False H h0 p buf0 (parse_success ty h p (first (map root ts) 0) (final 0 (map root ts)) buf)"
proof -
  obtain x where x: "h0 p = Some x" using p by (rule blankE)
  have ref: "ty AND cJSON_IsReference H = 0" using ty(2) by (simp add: types_simps [OF ty(1)])
  obtain h2 where h2: "parse_success ty h p (first (map root ts) 0) (final 0 (map root ts)) buf =
      Some (True, h2, buf\<lparr>in_depth := in_depth buf - 1, in_offset := in_offset buf + 1\<rparr>)"
      "h2 p = Some (x\<lparr>item_type := ty, chd := first (map root ts) 0\<rparr>)"
    and vals: "\<And>t. t \<in> set ts \<Longrightarrow> json_of H h2 t = json_of H h t \<and> key_at h2 (root t) = key_at h (root t)"
    and tree: "\<And>v. json_of H h2 (Nd p ts) = Some v \<Longrightarrow> parsed H h0 p h2 ts v"
    by (rule success_tree [OF ref c p x, of buf]) blast
  have "chain_values named H h2 ts vs" using vs vals by (simp add: chain_values_def cong: map_cong)
  from container_value [OF ty(1) this h2(2), of "CJSON_NESTING_LIMIT H - (in_depth buf0 + 1)"] ty(2) dp(2)
  obtain v where v: "json_of H h2 (Nd p ts) = Some v" "json_depth v \<le> Suc (CJSON_NESTING_LIMIT H - (in_depth buf0 + 1))" by auto
  show ?thesis unfolding h2(1) using buf v(2) dp(1) x h2(2)
    by (intro element_okI [OF _ _ _ _ _ tree [OF v(1)]]) (auto simp: key_rule_def key_at_def)
qed

section \<open>The loops\<close>

lemma new_item_cases:
  assumes "new_ok E"
  obtains "cJSON_New_Item E h = (0, h)" | q where "cJSON_New_Item E h = (q, h(q \<mapsto> null_item))" and "q \<noteq> 0" and "h q = None"
  using assms by (cases "env_new E h = 0") (auto simp: cJSON_New_Item_def new_ok_def Let_def)

lemma blank_leaf:
  assumes "blank H h q"
  shows "own H h (Nd q [])"
proof -
  obtain x where "q \<noteq> 0" "h q = Some x" "chd x = 0" "item_type x AND cJSON_IsReference H = 0" using assms by (rule blankE)
  then show ?thesis using leaf_kids [of h q x] by (simp add: not_reference_def)
qed

lemma chain_values_snoc:
  assumes "chain_values named H h ts vs" and "json_of H h3 t = Some v" and "named \<Longrightarrow> key_at h3 (root t) \<noteq> None"
    and "\<And>t. t \<in> set ts \<Longrightarrow> json_of H h3 t = json_of H h t \<and> key_at h3 (root t) = key_at h (root t)"
  shows "chain_values named H h3 (ts @ [t]) (vs @ [v])"
  using assms by (simp add: chain_values_def those_snoc cong: map_cong)

lemma element_fail:
  assumes "chain (env_h E) h0 h p ts" and "blank (env_h E) h0 p" and "same_text buf0 buf"
  shows "element_result False (env_h E) h0 p buf0 (parse_fail E h (first (map root ts) 0) buf)"
  unfolding chain_release [OF assms(1)] by (rule failed_unchanged [OF assms(2,3)])

text \<open>One iteration up to the separator: the list has grown, or everything is released.\<close>

lemma element_step:
  assumes ok: "H = env_h E" "new_ok E" and ep: "element_parser named H m pe" and p: "blank H h0 p"
    and c: "chain H h0 h p ts" "chain_values named H h ts vs"
    and buf: "text_ok buf" "in_offset buf < in_length buf" "named \<Longrightarrow> Suc (in_offset buf) < length (content buf)" "in_length buf - in_offset buf \<le> m"
  obtains (failed) b where "element_loop (Suc n) pe cl ty E h p (first (map root ts) 0) (final 0 (map root ts)) buf = Some (False, h0, b)"
      and "same_text buf b"
  | (grown) q us v h3 b where "element_loop (Suc n) pe cl ty E h p (first (map root ts) 0) (final 0 (map root ts)) buf = do {
        comma \<leftarrow> next_is b (\<lambda>b. b = 44);
        if comma then element_loop n pe cl ty E h3 p (first (map root (ts @ [Nd q us])) 0) q b
        else do {
          close \<leftarrow> next_is b (\<lambda>b. b = cl);
          if \<not> close then parse_fail E h3 (first (map root (ts @ [Nd q us])) 0) b
          else parse_success ty h3 p (first (map root (ts @ [Nd q us])) 0) q b
        }
      }" and "same_text buf b" and "in_offset buf + 1 < in_offset b" and "in_offset b \<le> in_length buf" and "in_depth b = in_depth buf"
      and "chain H h0 h3 p (ts @ [Nd q us])" and "chain_values named H h3 (ts @ [Nd q us]) (vs @ [v])"
      and "json_depth v \<le> CJSON_NESTING_LIMIT H - in_depth buf"
proof (cases rule: new_item_cases [OF ok(2), of h, case_names none some])
  case none
  then have "element_loop (Suc n) pe cl ty E h p (first (map root ts) 0) (final 0 (map root ts)) buf = Some (False, h0, buf)"
    using chain_release [OF c(1) [unfolded ok(1)]] by simp
  then show thesis by (rule failed) simp
next
  case (some q)
  have pin: "h p \<noteq> None" using chainD(2,5) [OF c(1)] p by (auto simp: blank_def split: option.splits)
  then have qp: "q \<noteq> p" using some(3) by auto
  obtain h2 where att: "attach (h(q \<mapsto> null_item)) (first (map root ts) 0) (final 0 (map root ts)) q = Some (h2, first (map root ts @ [q]) 0)"
    and app: "appended H h h2 ts q" using attach_new [OF c(1) some(3,2) qp] by blast
  have in1: "text_ok (buf\<lparr>in_offset := in_offset buf + 1\<rparr>)" "in_offset (buf\<lparr>in_offset := in_offset buf + 1\<rparr>) \<le> in_length (buf\<lparr>in_offset := in_offset buf + 1\<rparr>)"
    using buf by simp_all
  obtain o1 where o1: "buffer_skip_whitespace (buf\<lparr>in_offset := in_offset buf + 1\<rparr>) = Some (buf\<lparr>in_offset := o1\<rparr>)"
    "in_offset buf + 1 \<le> o1" "o1 \<le> in_length buf" "in_offset buf + 1 < in_length buf \<Longrightarrow> o1 < in_length buf"
    using skip_spec [OF in1] by auto
  let ?b1 = "buf\<lparr>in_offset := o1\<rparr>"
  have readable: "named \<Longrightarrow> o1 < length (content buf)" using o1 buf(1,2,3) by (cases "in_offset buf + 1 < in_length buf") (auto simp: text_ok_def)
  have er: "element_result named H h2 q ?b1 (pe h2 q ?b1)"
    by (rule element_parserD [OF ep]) (use buf o1 readable appendedD(3) [OF app] in auto)
  then obtain ok3 h3 b2 where pe: "pe h2 q ?b1 = Some (ok3, h3, b2)" by (auto simp: element_result_def split: option.splits)
  have st: "same_text buf b2" using er pe by (simp add: element_result_def)
  have unfolded: "element_loop (Suc n) pe cl ty E h p (first (map root ts) 0) (final 0 (map root ts)) buf =
      (if \<not> ok3 then parse_fail E h3 (first (map root ts @ [q]) 0) b2
       else do {
         buf3 \<leftarrow> buffer_skip_whitespace b2;
         comma \<leftarrow> next_is buf3 (\<lambda>b. b = 44);
         if comma then element_loop n pe cl ty E h3 p (first (map root ts @ [q]) 0) q buf3
         else do {
           close \<leftarrow> next_is buf3 (\<lambda>b. b = cl);
           if \<not> close then parse_fail E h3 (first (map root ts @ [q]) 0) buf3
           else parse_success ty h3 p (first (map root ts @ [q]) 0) q buf3
         }
       })"
    using some(1,2) att o1(1) pe by (simp cong: if_cong)
  show thesis
  proof (cases ok3)
    case False
    with er pe have f: "blank H h3 q" "links_kept h2 h3 q" "\<And>y. y \<noteq> q \<Longrightarrow> h3 y = h2 y" by (simp_all add: element_result_def)
    have "chain H h0 h3 p (ts @ [Nd q []])"
      by (rule chain_grows(1) [OF c(1) app some(3) qp blank_leaf [OF f(1)] _ _ _ f(2) pin]) (use f(3) in simp_all)
    from chain_release [OF this [unfolded ok(1)], of b2] unfolded False show thesis
      by (intro failed [of b2]) (use st in simp_all)
  next
    case True
    with er pe obtain us v where t: "o1 < in_offset b2" "in_offset b2 \<le> in_length buf" "in_depth b2 = in_depth buf" "key_rule named h2 h3 q"
      "parsed H h2 q h3 us v" "json_depth v \<le> CJSON_NESTING_LIMIT H - in_depth buf" by (auto simp: element_result_def)
    note P = t(5) [unfolded parsed_def]
    have g: "chain H h0 h3 p (ts @ [Nd q us])"
      "\<And>t. t \<in> set ts \<Longrightarrow> json_of H h3 t = json_of H h t \<and> key_at h3 (root t) = key_at h (root t)"
      using chain_grows [OF c(1) app some(3) qp _ _ _ _ _ pin, of h3 us] P by blast+
    have "chain_values named H h3 (ts @ [Nd q us]) (vs @ [v])"
      by (rule chain_values_snoc [OF c(2) _ _ g(2)]) (use P t(4) in \<open>simp_all add: key_rule_def del: json_of.simps\<close>)
    moreover obtain o3 where o3: "buffer_skip_whitespace b2 = Some (b2\<lparr>in_offset := o3\<rparr>)" "in_offset b2 \<le> o3" "o3 \<le> in_length buf"
      using skip_spec [of b2] text_ok_same [OF buf(1) st] t(2) st by auto
    ultimately show thesis using unfolded True g(1) t st o1(2)
      by (intro grown [of "b2\<lparr>in_offset := o3\<rparr>" h3 q us v]) (simp_all cong: if_cong)
  qed
qed

lemma element_loop_result:
  assumes ok: "H = env_h E" "types_ok H" "new_ok E" and ep: "element_parser named H m pe" and p: "blank H h0 p"
    and ty: "ty = (if named then cJSON_Object H else cJSON_Array H)" and lim: "in_depth buf0 < CJSON_NESTING_LIMIT H"
  shows "chain H h0 h p ts \<Longrightarrow> chain_values named H h ts vs \<Longrightarrow> (\<And>v. v \<in> set vs \<Longrightarrow> json_depth v \<le> CJSON_NESTING_LIMIT H - (in_depth buf0 + 1)) \<Longrightarrow>
    text_ok buf \<Longrightarrow> same_text buf0 buf \<Longrightarrow> in_offset buf0 \<le> in_offset buf \<Longrightarrow> in_offset buf < in_length buf \<Longrightarrow>
    in_depth buf = in_depth buf0 + 1 \<Longrightarrow> (named \<Longrightarrow> Suc (in_offset buf) < length (content buf)) \<Longrightarrow>
    in_length buf - in_offset buf \<le> n \<Longrightarrow> in_length buf - in_offset buf \<le> m \<Longrightarrow>
    element_result False H h0 p buf0 (element_loop n pe cl ty E h p (first (map root ts) 0) (final 0 (map root ts)) buf)"
proof (induction n arbitrary: h ts vs buf)
  case 0
  then show ?case by simp
next
  case (Suc n)
  show ?case
  proof (rule element_step [OF ok(1,3) ep p Suc.prems(1,2,4,7,9,11), where n = n and cl = cl and ty = ty])
    fix b
    assume "element_loop (Suc n) pe cl ty E h p (first (map root ts) 0) (final 0 (map root ts)) buf = Some (False, h0, b)" "same_text buf b"
    then show ?thesis using failed_unchanged [OF p, where buf = buf0 and buf' = b] Suc.prems(5) by simp
  next
    fix q us v h3 b
    let ?us = "ts @ [Nd q us]"
    assume eq: "element_loop (Suc n) pe cl ty E h p (first (map root ts) 0) (final 0 (map root ts)) buf = do {
        comma \<leftarrow> next_is b (\<lambda>b. b = 44);
        if comma then element_loop n pe cl ty E h3 p (first (map root ?us) 0) q b
        else do {
          close \<leftarrow> next_is b (\<lambda>b. b = cl);
          if \<not> close then parse_fail E h3 (first (map root ?us) 0) b
          else parse_success ty h3 p (first (map root ?us) 0) q b
        }
      }" and b: "same_text buf b" "in_offset buf + 1 < in_offset b" "in_offset b \<le> in_length buf" "in_depth b = in_depth buf"
      and c3: "chain H h0 h3 p ?us" "chain_values named H h3 ?us (vs @ [v])" and dv: "json_depth v \<le> CJSON_NESTING_LIMIT H - in_depth buf"
    have tb: "text_ok b" using text_ok_same [OF Suc.prems(4) b(1)] .
    have st: "same_text buf0 b" using Suc.prems(5) b(1) by simp
    have dp: "w \<in> set (vs @ [v]) \<Longrightarrow> json_depth w \<le> CJSON_NESTING_LIMIT H - (in_depth buf0 + 1)" for w
      using Suc.prems(3,8) dv by auto
    have fin: "final 0 (map root ?us) = q" by simp
    consider "in_offset b < in_length b" "content b ! in_offset b = 44"
      | "\<not> (in_offset b < in_length b \<and> content b ! in_offset b = 44)" "in_offset b < in_length b" "content b ! in_offset b = cl"
      | "\<not> (in_offset b < in_length b \<and> content b ! in_offset b = 44)" "\<not> (in_offset b < in_length b \<and> content b ! in_offset b = cl)" by blast
    then show ?thesis
    proof cases
      case 1
      have "element_result False H h0 p buf0 (element_loop n pe cl ty E h3 p (first (map root ?us) 0) (final 0 (map root ?us)) b)"
        by (rule Suc.IH [OF c3 dp tb st]) (use 1 b Suc.prems tb in \<open>auto simp: text_ok_def\<close>)
      with eq 1 tb fin show ?thesis by (simp add: next_is_spec)
    next
      case 2
      have "element_result False H h0 p buf0 (parse_success ty h3 p (first (map root ?us) 0) (final 0 (map root ?us)) b)"
        by (rule success_result [OF ok(2) ty c3(1) p c3(2) st _ _ _ lim dp]) (use 2 b Suc.prems in auto)
      with eq 2 tb fin show ?thesis by (simp add: next_is_spec)
    next
      case 3
      with eq tb element_fail [OF c3(1) [unfolded ok(1)] p [unfolded ok(1)] st] ok(1) show ?thesis by (simp add: next_is_spec)
    qed
  qed
qed

section \<open>Members, arrays and objects\<close>

lemma named_result:
  assumes r: "element_result False H (h(p \<mapsto> x2)) p buf3 r" and x: "h p = Some x" "nxt x2 = nxt x" "prv x2 = prv x" "item_string x2 = Some blk" "0 \<in> set blk"
    and b: "same_text buf buf3" "in_offset buf \<le> in_offset buf3" "in_depth buf3 = in_depth buf"
  shows "element_result True H h p buf r"
proof -
  obtain ok h' b' where r': "r = Some (ok, h', b')" using r by (auto simp: element_result_def split: option.splits)
  have links: "links_kept h h' p" if "links_kept (h(p \<mapsto> x2)) h' p" using that x by (auto simp: links_kept_def split: option.splits)
  show ?thesis
  proof (cases ok)
    case True
    with r r' obtain ts v where t: "parsed H (h(p \<mapsto> x2)) p h' ts v" "json_depth v \<le> CJSON_NESTING_LIMIT H - in_depth buf"
      "key_at h' p = key_at (h(p \<mapsto> x2)) p" "same_text buf b'" "in_offset buf < in_offset b'" "in_offset b' \<le> in_length buf" "in_depth b' = in_depth buf"
      using b by (auto simp: element_result_def key_rule_def)
    note P = t(1) [unfolded parsed_def]
    have "set (forest_addrs ts) \<inter> dom h = {}" using P x(1) by (simp only: dom_fun_upd) auto
    moreover have "\<forall>y. y \<notin> set (addrs (Nd p ts)) \<longrightarrow> h' y = h y" using P by auto
    ultimately have "parsed H h p h' ts v" using P links unfolding parsed_def by blast
    then show ?thesis unfolding r' using t(2-7) x(4,5) True by (auto intro!: element_okI simp: key_rule_def key_at_def c_text_def)
  next
    case False
    with r r' b have "same_text buf b'" "blank H h' p" "links_kept (h(p \<mapsto> x2)) h' p" "\<forall>y. y \<noteq> p \<longrightarrow> h' y = h y"
      by (auto simp: element_result_def)
    with False r' links show ?thesis by (simp add: element_result_def)
  qed
qed

lemma member_parser:
  assumes ok: "types_ok (env_h E)" "hooks_ok (env_hooks E)" and pv: "element_parser False (env_h E) n pv"
  shows "element_parser True (env_h E) n (parse_member pv E)"
  unfolding element_parser_def
proof (intro allI impI, elim conjE)
  fix h p and buf :: parse_buffer
  let ?H = "env_h E"
  assume tb: "text_ok buf" and ob: "in_offset buf \<le> in_length buf" and bl: "blank ?H h p"
    and rb: "True \<longrightarrow> in_offset buf < length (content buf)" and fuel: "in_length buf - in_offset buf < n"
  obtain x where x: "p \<noteq> 0" "h p = Some x" "chd x = 0" using bl by (rule blankE)
  show "element_result True ?H h p buf (parse_member pv E h p buf)"
  proof (rule string_cases [OF ok(2) tb ob _ x(1), of h x])
    show "in_offset buf < length (content buf)" "h p = Some x" using rb x by simp_all
  next
    fix q
    assume "parse_string_at E h p buf = Some (False, h, buf\<lparr>in_offset := q\<rparr>)"
    then show ?thesis using failed_unchanged [OF bl, where buf = buf and buf' = "buf\<lparr>in_offset := q\<rparr>"] by (simp add: parse_member_def)
  next
    fix blk q
    let ?x2 = "x\<lparr>item_type := cJSON_String ?H, item_string := Some blk, valuestring := None\<rparr>"
    let ?h2 = "h(p \<mapsto> ?x2)"
    assume ps: "parse_string_at E h p buf = Some (True, h(p \<mapsto> x\<lparr>item_type := cJSON_String ?H, valuestring := Some blk\<rparr>), buf\<lparr>in_offset := q\<rparr>)"
      and q: "in_offset buf < q" "q \<le> in_length buf" "0 \<in> set blk"
    have take: "take_name (h(p \<mapsto> x\<lparr>item_type := cJSON_String ?H, valuestring := Some blk\<rparr>)) p = Some ?h2"
      using x by (simp add: take_name_def jset_def jget_def)
    obtain o2 where o2: "buffer_skip_whitespace (buf\<lparr>in_offset := q\<rparr>) = Some (buf\<lparr>in_offset := o2\<rparr>)" "q \<le> o2" "o2 \<le> in_length buf"
      using skip_spec [of "buf\<lparr>in_offset := q\<rparr>"] tb q(2) by auto
    have bl2: "blank ?H ?h2 p" using x types_simps(13) [OF ok(1)] by (simp add: blank_def)
    show ?thesis
    proof (cases "o2 < in_length buf \<and> content buf ! o2 = 58")
      case False
      then have "parse_member pv E h p buf = Some (False, ?h2, buf\<lparr>in_offset := o2\<rparr>)"
        using ps o2 take tb by (simp add: parse_member_def next_is_spec)
      then show ?thesis using bl2 x by (simp add: element_result_def links_kept_def)
    next
      case True
      obtain o3 where o3: "buffer_skip_whitespace (buf\<lparr>in_offset := o2 + 1\<rparr>) = Some (buf\<lparr>in_offset := o3\<rparr>)" "o2 + 1 \<le> o3" "o3 \<le> in_length buf"
        using skip_spec [of "buf\<lparr>in_offset := o2 + 1\<rparr>"] tb True by auto
      have "parse_member pv E h p buf = pv ?h2 p (buf\<lparr>in_offset := o3\<rparr>)"
        using ps o2 o3 take tb True by (simp add: parse_member_def next_is_spec)
      moreover have "element_result False ?H ?h2 p (buf\<lparr>in_offset := o3\<rparr>) (pv ?h2 p (buf\<lparr>in_offset := o3\<rparr>))"
        by (rule element_parserD [OF pv _ _ bl2]) (use tb o3 o2 q fuel in auto)
      ultimately show ?thesis using named_result [of ?H h p ?x2 "buf\<lparr>in_offset := o3\<rparr>" _ x blk buf] x(2) o3 o2 q by auto
    qed
  qed
qed

lemma opened_buffer:
  assumes "text_ok buf" and "in_offset buf < in_length buf"
  obtains q where "buffer_skip_whitespace (buf\<lparr>in_depth := d, in_offset := in_offset buf + 1\<rparr>) = Some (buf\<lparr>in_depth := d, in_offset := q\<rparr>)"
    and "in_offset buf + 1 \<le> q" and "q \<le> in_length buf"
  using skip_spec [of "buf\<lparr>in_depth := d, in_offset := in_offset buf + 1\<rparr>"] assms by auto

text \<open>What follows the opening bracket, for both kinds of containers.\<close>

lemma container_result:
  assumes ok: "H = env_h E" "types_ok H" "new_ok E" and ep: "element_parser named H m pe" and p: "blank H h p"
    and ty: "ty = (if named then cJSON_Object H else cJSON_Array H)" and lim: "in_depth buf < CJSON_NESTING_LIMIT H"
    and tb: "text_ok buf" and ob: "in_offset buf < in_length buf" and fuel: "in_length buf - in_offset buf \<le> n" "in_length buf - in_offset buf \<le> m"
  shows "element_result False H h p buf (do {
      buf2 \<leftarrow> buffer_skip_whitespace (buf\<lparr>in_depth := in_depth buf + 1, in_offset := in_offset buf + 1\<rparr>);
      empty \<leftarrow> next_is buf2 (\<lambda>b. b = cl);
      if empty then parse_success ty h p 0 0 buf2
      else if \<not> can_access_at_index buf2 0 then parse_fail E h 0 (buf2\<lparr>in_offset := in_offset buf2 - 1\<rparr>)
      else element_loop n pe cl ty E h p 0 0 (buf2\<lparr>in_offset := in_offset buf2 - 1\<rparr>)
    })"
proof -
  obtain q where q: "buffer_skip_whitespace (buf\<lparr>in_depth := in_depth buf + 1, in_offset := in_offset buf + 1\<rparr>) =
      Some (buf\<lparr>in_depth := in_depth buf + 1, in_offset := q\<rparr>)" "in_offset buf + 1 \<le> q" "q \<le> in_length buf"
    using opened_buffer [OF tb ob] .
  let ?b = "\<lambda>o'. buf\<lparr>in_depth := in_depth buf + 1, in_offset := o'\<rparr>"
  have c: "chain H h h p []" "chain_values named H h [] []" using p by (auto simp: chain_Nil chain_values_def blank_def)
  have nx: "next_is (?b q) (\<lambda>b. b = cl) = Some (q < in_length buf \<and> content buf ! q = cl)" using next_is_spec [of "?b q"] tb by simp
  consider "q < in_length buf" "content buf ! q = cl" | "q = in_length buf" | "q < in_length buf" "content buf ! q \<noteq> cl"
    using q(3) by linarith
  then show ?thesis
  proof cases
    case 1
    have "element_result False H h p buf (parse_success ty h p (first (map root []) 0) (final 0 (map root [])) (?b q))"
      by (rule success_result [OF ok(2) ty c(1) p c(2) _ _ _ _ lim]) (use 1 q in simp_all)
    with 1 q nx show ?thesis by simp
  next
    case 2
    with q nx failed_unchanged [OF p, where buf = buf and buf' = "?b (q - 1)"] show ?thesis
      by (simp add: parse_fail_def can_access_at_index_def)
  next
    case 3
    have "element_result False H h p buf (element_loop n pe cl ty E h p (first (map root []) 0) (final 0 (map root [])) (?b (q - 1)))"
      by (rule element_loop_result [OF ok ep p ty lim c]) (use 3 q tb fuel in \<open>auto simp: text_ok_def\<close>)
    with 3 q nx show ?thesis by (simp add: can_access_at_index_def)
  qed
qed

lemma array_result:
  assumes ok: "types_ok (env_h E)" "new_ok E" and pv: "element_parser False (env_h E) n pv" and p: "blank (env_h E) h p"
    and tb: "text_ok buf" and ob: "in_offset buf < in_length buf" and fuel: "in_length buf - in_offset buf \<le> n"
  shows "element_result False (env_h E) h p buf (parse_array n pv E h p buf)"
proof (cases "CJSON_NESTING_LIMIT (env_h E) \<le> in_depth buf")
  case True
  then show ?thesis using failed_unchanged [OF p, where buf = buf and buf' = buf] by (simp add: parse_array_def)
next
  case False
  have byt: "byte_at (content buf) (in_offset buf) = Some (content buf ! in_offset buf)" using tb ob by (simp add: byte_at_def text_ok_def)
  show ?thesis
  proof (cases "content buf ! in_offset buf = 91")
    case True
    with False byt container_result [OF refl ok pv p, where cl = 93 and ty = "cJSON_Array (env_h E)" and n = n, OF _ _ tb ob fuel fuel]
    show ?thesis by (simp add: parse_array_def array_loop_element cong: if_cong)
  next
    case F: False
    with False byt failed_unchanged [OF p, where buf = buf and buf' = "buf\<lparr>in_depth := in_depth buf + 1\<rparr>"]
    show ?thesis by (simp add: parse_array_def parse_fail_def)
  qed
qed

lemma object_result:
  assumes ok: "types_ok (env_h E)" "new_ok E" "hooks_ok (env_hooks E)" and pv: "element_parser False (env_h E) n pv" and p: "blank (env_h E) h p"
    and tb: "text_ok buf" and ob: "in_offset buf < in_length buf" and fuel: "in_length buf - in_offset buf \<le> n"
  shows "element_result False (env_h E) h p buf (parse_object n pv E h p buf)"
proof (cases "CJSON_NESTING_LIMIT (env_h E) \<le> in_depth buf")
  case True
  then show ?thesis using failed_unchanged [OF p, where buf = buf and buf' = buf] by (simp add: parse_object_def)
next
  case False
  have nx: "next_is (buf\<lparr>in_depth := in_depth buf + 1\<rparr>) (\<lambda>b. b = 123) = Some (content buf ! in_offset buf = 123)"
    using next_is_spec [of "buf\<lparr>in_depth := in_depth buf + 1\<rparr>"] tb ob by simp
  show ?thesis
  proof (cases "content buf ! in_offset buf = 123")
    case True
    with False nx container_result [OF refl ok(1,2) member_parser [OF ok(1,3) pv] p, where cl = 125 and ty = "cJSON_Object (env_h E)" and n = n, OF _ _ tb ob fuel fuel]
    show ?thesis by (simp add: parse_object_def object_loop_element cong: if_cong)
  next
    case F: False
    with False nx failed_unchanged [OF p, where buf = buf and buf' = "buf\<lparr>in_depth := in_depth buf + 1\<rparr>"]
    show ?thesis by (simp add: parse_object_def parse_fail_def)
  qed
qed

text \<open>Any value, by induction on the bound: it is enough when it exceeds the length of the rest of the text.\<close>

lemma any_result:
  assumes ok: "types_ok (env_h E)" "new_ok E" "hooks_ok (env_hooks E)" "strtod_ok strtod" and pv: "element_parser False (env_h E) n pv"
    and p: "blank (env_h E) h p" and tb: "text_ok buf" and fuel: "in_length buf - in_offset buf \<le> n"
  shows "element_result False (env_h E) h p buf (parse_any n pv E strtod h p buf)"
proof -
  let ?H = "env_h E" and ?b = "content buf ! in_offset buf" and ?in = "in_offset buf < in_length buf"
  obtain rn where rn: "at_literal buf lit_null = Some rn" "rn \<longrightarrow> in_offset buf + length lit_null \<le> in_length buf" by (rule at_literal_spec [OF tb, of lit_null])
  obtain rf where rf: "at_literal buf lit_false = Some rf" "rf \<longrightarrow> in_offset buf + length lit_false \<le> in_length buf" by (rule at_literal_spec [OF tb, of lit_false])
  obtain rt where rt: "at_literal buf lit_true = Some rt" "rt \<longrightarrow> in_offset buf + length lit_true \<le> in_length buf" by (rule at_literal_spec [OF tb, of lit_true])
  note nx = next_is_spec [OF tb]
  have n: "element_result False ?H h p buf (parse_literal buf lit_null (\<lambda>x. x\<lparr>item_type := cJSON_NULL ?H\<rparr>) h p)" if rn
    by (rule literal_result [OF p rn(2) [rule_format, OF that], where v = JNull]) (simp_all add: lit_null_def scalar_json_def types_simps [OF ok(1)])
  have f: "element_result False ?H h p buf (parse_literal buf lit_false (\<lambda>x. x\<lparr>item_type := cJSON_False ?H\<rparr>) h p)" if rf
    by (rule literal_result [OF p rf(2) [rule_format, OF that], where v = JFalse]) (simp_all add: lit_false_def scalar_json_def types_simps [OF ok(1)])
  have t: "element_result False ?H h p buf (parse_literal buf lit_true (\<lambda>x. x\<lparr>item_type := cJSON_True ?H, valueint := 1\<rparr>) h p)" if rt
    by (rule literal_result [OF p rt(2) [rule_format, OF that], where v = JTrue]) (simp_all add: lit_true_def scalar_json_def types_simps [OF ok(1)])
  have s: "element_result False ?H h p buf (parse_string_at E h p buf)" if ?in by (rule string_result [OF ok(1,3) tb that p])
  have m: "element_result False ?H h p buf (parse_number E strtod h p buf)" by (rule number_result [OF ok(1,4) tb p])
  have a: "element_result False ?H h p buf (parse_array n pv E h p buf)" if ?in by (rule array_result [OF ok(1,2) pv p tb that fuel])
  have o: "element_result False ?H h p buf (parse_object n pv E h p buf)" if ?in by (rule object_result [OF ok(1,2,3) pv p tb that fuel])
  have e: "element_result False ?H h p buf (Some (False, h, buf))" by (rule failed_unchanged [OF p]) simp
  show ?thesis using n f t s m a o e unfolding parse_any_def rn(1) rf(1) rt(1) nx by simp
qed

lemma value_parser:
  assumes "types_ok (env_h E)" "new_ok E" "hooks_ok (env_hooks E)" "strtod_ok strtod"
  shows "element_parser False (env_h E) n (parse_value n E strtod)"
proof (induction n)
  case 0
  then show ?case by (simp add: element_parser_def)
next
  case (Suc n)
  then show ?case
    unfolding element_parser_def parse_value.simps using any_result [OF assms Suc] by (auto simp: less_Suc_eq_le)
qed

section \<open>Whole texts\<close>

text \<open>
  The outcome of parsing a text in the heap \<open>h\<close>: nothing was built, nothing leaks and the error
  position is inside the text; or a tree was built from free memory, for a value nested within the
  limit.
\<close>

definition parse_failed :: "items \<Rightarrow> nat \<Rightarrow> parse_result \<Rightarrow> bool" where
  "parse_failed h n r \<longleftrightarrow> parsed_item r = 0 \<and> parsed_heap r = h \<and> (case global_error r of None \<Rightarrow> False | Some k \<Rightarrow> k < n)"

definition parse_succeeded :: "cjson_h \<Rightarrow> items \<Rightarrow> parse_result \<Rightarrow> atree \<Rightarrow> json \<Rightarrow> bool" where
  "parse_succeeded H h r t v \<longleftrightarrow> parsed_item r = root t \<and> root t \<noteq> 0 \<and> global_error r = None \<and> own H (parsed_heap r) t \<and>
     distinct (addrs t) \<and> set (addrs t) \<inter> dom h = {} \<and> (\<forall>y. y \<notin> set (addrs t) \<longrightarrow> parsed_heap r y = h y) \<and>
     (\<forall>x. parsed_heap r (root t) = Some x \<longrightarrow> nxt x = 0 \<and> prv x = 0) \<and> json_of H (parsed_heap r) t = Some v"

lemma text_fail_new:
  assumes "own (env_h E) h2 (Nd p ts)" and "distinct (addrs (Nd p ts))" and "h2 p = Some x" and "nxt x = 0" and "n = in_length buf" and "0 < n"
    and "\<And>y. y \<notin> set (addrs (Nd p ts)) \<Longrightarrow> h2 y = h y" and "set (addrs (Nd p ts)) \<inter> dom h = {}" and "p \<noteq> 0"
  shows "\<exists>r. text_fail E (Some text) w h2 p buf = Some r \<and> parse_failed h n r"
proof -
  have "cJSON_Delete E h2 p = Some (h2 |` (- set (addrs (Nd p ts))))" using delete_tree [OF assms(1,2)] assms(3,4) by simp
  moreover have "h2 |` (- set (addrs (Nd p ts))) = h"
  proof
    fix y
    show "(h2 |` (- set (addrs (Nd p ts)))) y = h y"
    proof (cases "y \<in> set (addrs (Nd p ts))")
      case True
      then have "h y = None" using assms(8) by blast
      with True show ?thesis by (auto simp: restrict_map_def)
    next
      case False
      with assms(7) [OF this] show ?thesis by (simp add: restrict_map_def)
    qed
  qed
  ultimately show ?thesis using assms(5,6,9)
    by (auto simp: text_fail_def parse_failed_def error_position_def)
qed

lemma skip_bom_spec:
  assumes "text_ok buf" and "in_offset buf = 0"
  obtains k where "skip_utf8_bom buf = Some (Some (buf\<lparr>in_offset := k\<rparr>))" and "k \<le> in_length buf"
proof (cases "can_access_at_index buf 4")
  case True
  then have len: "4 < in_length buf" "3 \<le> length (content buf)" using assms by (simp_all add: can_access_at_index_def text_ok_def)
  then obtain r where "strncmp_eq (content buf) (in_offset buf) [0xEF, 0xBB, 0xBF] = Some r"
    using strncmp_total [of "in_offset buf" "[0xEF, 0xBB, 0xBF]" "content buf"] assms(2) by auto
  with True len assms(2) show thesis by (intro that [of "if r then 3 else 0"]) (auto simp: skip_utf8_bom_def)
next
  case False
  with assms(2) show thesis by (intro that [of 0]) (auto simp: skip_utf8_bom_def)
qed

lemma parse_with_length:
  assumes ok: "types_ok (env_h E)" "new_ok E" "hooks_ok (env_hooks E)" "strtod_ok strtod"
    and txt_ok: "n \<le> length text" "0 < n" "text ! (n - 1) = 44 \<Longrightarrow> n < length text"
  shows "\<exists>r. cJSON_ParseWithLengthOpts E strtod h (Some text) n w z = Some r \<and>
    (parse_failed h n r \<or> (\<exists>t v. parse_succeeded (env_h E) h r t v \<and> json_depth v \<le> CJSON_NESTING_LIMIT (env_h E)))"
proof -
  let ?H = "env_h E" and ?buf = "\<lparr>content = text, in_length = n, in_offset = 0, in_depth = 0\<rparr>"
  have tb: "text_ok ?buf"
  proof -
    have "Suc i < length text" if "i < n" "text ! i = 44" for i
      using that txt_ok by (cases "i = n - 1") auto
    then show ?thesis using txt_ok by (simp add: text_ok_def)
  qed
  show ?thesis
  proof (cases rule: new_item_cases [OF ok(2), of h, case_names none some])
    case none
    with txt_ok show ?thesis by (simp add: cJSON_ParseWithLengthOpts_def text_fail_def parse_failed_def error_position_def)
  next
    case (some p)
    let ?h1 = "h(p \<mapsto> null_item)"
    have bl: "blank ?H ?h1 p" using blank_new [OF some(2), of ?h1 0] by (simp add: null_item_def)
    obtain k where k: "skip_utf8_bom ?buf = Some (Some (?buf\<lparr>in_offset := k\<rparr>))" "k \<le> n" using skip_bom_spec [OF tb] by auto
    obtain o1 where o1: "buffer_skip_whitespace (?buf\<lparr>in_offset := k\<rparr>) = Some (?buf\<lparr>in_offset := o1\<rparr>)" "o1 \<le> n"
      by (rule skip_spec [of "?buf\<lparr>in_offset := k\<rparr>"]) (use tb k in \<open>auto simp: text_ok_def\<close>)
    let ?b1 = "?buf\<lparr>in_offset := o1\<rparr>"
    have er: "element_result False ?H ?h1 p ?b1 (parse_value (n + 1) E strtod ?h1 p ?b1)"
      by (rule element_parserD [OF value_parser [OF ok] _ _ bl]) (use tb o1 in \<open>auto simp: text_ok_def\<close>)
    then obtain okv h2 b2 where pv: "parse_value (n + 1) E strtod ?h1 p ?b1 = Some (okv, h2, b2)"
      by (auto simp: element_result_def split: option.splits)
    have st: "content b2 = text" "in_length b2 = n" using er pv by (simp_all add: element_result_def)
    have unfolded: "cJSON_ParseWithLengthOpts E strtod h (Some text) n w z =
        (if \<not> okv then text_fail E (Some text) w h2 p b2
         else do {
           buf3 \<leftarrow> (if z then buffer_skip_whitespace b2 else Some b2);
           ended \<leftarrow> (if z then next_is buf3 (\<lambda>b. b = 0) else Some True);
           if \<not> ended then text_fail E (Some text) w h2 p buf3
           else Some \<lparr>parsed_item = p, parsed_heap = h2, global_error = None, parse_end = (if w then Some (in_offset buf3) else None)\<rparr>
         })"
      using some txt_ok(2) k(1) o1(1) pv by (simp add: cJSON_ParseWithLengthOpts_def cong: if_cong)
    show ?thesis
    proof (cases okv)
      case False
      with er pv have f: "blank ?H h2 p" "links_kept ?h1 h2 p" "\<And>y. y \<noteq> p \<Longrightarrow> h2 y = ?h1 y" by (simp_all add: element_result_def)
      obtain x where x: "h2 p = Some x" "nxt x = 0" using f(2) by (auto simp: links_kept_def null_item_def split: option.splits)
      have "\<exists>r. text_fail E (Some text) w h2 p b2 = Some r \<and> parse_failed h n r"
        by (rule text_fail_new [OF blank_leaf [OF f(1)] _ x]) (use st txt_ok f(3) some in auto)
      with unfolded False show ?thesis by auto
    next
      case True
      with er pv obtain ts v where t: "parsed ?H ?h1 p h2 ts v" "json_depth v \<le> CJSON_NESTING_LIMIT ?H" "in_offset b2 \<le> n"
        by (auto simp: element_result_def)
      note P = t(1) [unfolded parsed_def]
      obtain x where x: "h2 p = Some x" "nxt x = 0" "prv x = 0"
        using P by (auto simp: links_kept_def null_item_def split: option.splits)
      have own: "own ?H h2 (Nd p ts)" "distinct (addrs (Nd p ts))" using P by blast+
      have out: "h2 y = h y" if "y \<notin> set (addrs (Nd p ts))" for y using P that by auto
      have fresh: "set (addrs (Nd p ts)) \<inter> dom h = {}"
      proof -
        have "set (forest_addrs ts) \<inter> dom ?h1 = {}" using P by blast
        then have "set (forest_addrs ts) \<inter> dom h = {}" by (simp only: dom_fun_upd) auto
        with some(3) show ?thesis by auto
      qed
      have tb2: "text_ok b2" using text_ok_same [OF tb, of b2] st by simp
      obtain o3 where o3: "buffer_skip_whitespace b2 = Some (b2\<lparr>in_offset := o3\<rparr>)"
        by (rule skip_spec [OF tb2]) (use st t(3) in auto)
      obtain b3 where b3: "(if z then buffer_skip_whitespace b2 else Some b2) = Some b3" "same_text b2 b3"
        by (rule that [of "if z then b2\<lparr>in_offset := o3\<rparr> else b2"]) (use o3 in simp_all)
      have tb3: "text_ok b3" using text_ok_same [OF tb, of b3] b3(2) st by simp
      let ?e = "(if z then next_is b3 (\<lambda>b. b = 0) else Some True)"
      obtain e where e: "?e = Some e" 
        by (rule that [of "z \<longrightarrow> in_offset b3 < in_length b3 \<and> content b3 ! in_offset b3 = 0"]) (simp add: next_is_spec [OF tb3])
      show ?thesis
      proof (cases e)
        case True
        let ?r = "\<lparr>parsed_item = p, parsed_heap = h2, global_error = None, parse_end = (if w then Some (in_offset b3) else None)\<rparr>"
        have "parse_succeeded ?H h ?r (Nd p ts) v"
          unfolding parse_succeeded_def using P x out fresh some(2) by (simp del: json_of.simps own.simps addrs.simps)
        with t(2) unfolded \<open>okv\<close> b3 e True show ?thesis by auto
      next
        case False
        have "\<exists>r. text_fail E (Some text) w h2 p b3 = Some r \<and> parse_failed h n r"
          by (rule text_fail_new [OF own x(1,2) _ txt_ok(2) out fresh some(2)]) (use st b3(2) in simp_all)
        with unfolded \<open>okv\<close> b3 e False show ?thesis by auto
      qed
    qed
  qed
qed

section \<open>Properties\<close>

declare cJSON_Delete.simps [code]

text \<open>An environment with 49 addresses, and a conversion that reads leading digits, for the witnesses.\<close>

definition seq_env :: cjson_env where
  "seq_env = \<lparr>env_h = demo_h, env_hooks = demo_hooks,
     env_new = (\<lambda>h. case find (\<lambda>p. Option.is_none (h p)) [1..<50] of None \<Rightarrow> 0 | Some p \<Rightarrow> p),
     env_ge_max = (\<lambda>_. False), env_le_min = (\<lambda>_. False), env_to_int = uint\<rparr>"

definition demo_strtod :: strtod where
  "demo_strtod s = (let ds = takeWhile (\<lambda>b. 48 \<le> b \<and> b \<le> 57) s in (foldl (\<lambda>n d. 10 * n + ucast (d - 48)) 0 ds, length ds))"

lemma seq_env_ok [simp]: "new_ok seq_env" "types_ok (env_h seq_env)" "hooks_ok (env_hooks seq_env)" "strtod_ok demo_strtod"
proof -
  show "new_ok seq_env"
    by (auto simp: new_ok_def seq_env_def find_Some_iff Option.is_none_def split: option.splits)
  show "strtod_ok demo_strtod" using length_takeWhile_le by (auto simp: strtod_ok_def demo_strtod_def Let_def)
qed (simp_all add: seq_env_def)

text \<open>
  C31. Parsing a terminated string is memory safe, terminates and does not leak, whatever the string
  holds and wherever an allocation fails: either the result is the null pointer, the heap of items is
  exactly the old one and the reported error position is inside the string; or the result is a tree
  of new items, correctly linked, that stands for a JSON value nested no deeper than the limit, and
  nothing else has changed.
\<close>

theorem parse_safe:
  assumes "types_ok (env_h E)" and "new_ok E" and "hooks_ok (env_hooks E)" and "strtod_ok strtod" and "0 \<notin> set s"
  shows "\<exists>r. cJSON_ParseWithOpts E strtod h err (Some (s @ 0 # rest)) want_end require_null_terminated = Some r \<and>
    (parse_failed h (length s + 1) r \<or>
     (\<exists>t v. parse_succeeded (env_h E) h r t v \<and> json_depth v \<le> CJSON_NESTING_LIMIT (env_h E)))"
proof -
  have "cJSON_ParseWithOpts E strtod h err (Some (s @ 0 # rest)) want_end require_null_terminated =
      cJSON_ParseWithLengthOpts E strtod h (Some (s @ 0 # rest)) (length s + 1) want_end require_null_terminated"
    using strlen_spec [OF assms(5)] by (simp add: cJSON_ParseWithOpts_def)
  then show ?thesis
    using parse_with_length [OF assms(1-4), of "length s + 1" "s @ 0 # rest" h want_end require_null_terminated] by simp
qed

theorem parse_safe_witness:
  "\<exists>r. cJSON_ParseWithOpts seq_env demo_strtod Map.empty None (Some ([91, 49, 44] @ 0 # [])) True True = Some r \<and>
    (parse_failed Map.empty (length [91, 49, 44 :: u8] + 1) r \<or>
     (\<exists>t v. parse_succeeded (env_h seq_env) Map.empty r t v \<and> json_depth v \<le> CJSON_NESTING_LIMIT (env_h seq_env)))"
  by (rule parse_safe) simp_all

text \<open>
  \<open>cJSON_ParseWithLength\<close> can read behind the buffer it is given: the text \<open>{"":null,\<close> without a byte
  after it makes \<open>parse_object\<close> look for the next name at the end of the buffer, and the access has no
  defined result, although the same call with one byte more in memory reports an error.
\<close>

definition cut_text :: "u8 list" where
  "cut_text = [123, 34, 34, 58, 110, 117, 108, 108, 44]"

lemma parse_length_overread:
  "cJSON_ParseWithLength seq_env demo_strtod Map.empty (Some cut_text) 9 = None \<and>
   map_option global_error (cJSON_ParseWithLength seq_env demo_strtod Map.empty (Some (cut_text @ [0])) 9) = Some (Some 8)"
  by (intro conjI) code_simp+

end
