(* ===== verification/Cjson_Roundtrip.thy ===== *)
theory Cjson_Roundtrip
  imports Cjson_Parse_Safe Cjson_Render
begin

text \<open>
  Parsing what was printed: the parser of \<open>Cjson_Parse\<close> on the texts of \<open>Cjson_Render\<close>. A contract for the
  parser of one element (\<open>reads\<close>) says that it accepts a given text and builds a tree for a given value;
  it is proved for each kind of value, formatted or not, and gives the round trip of whole documents.
\<close>

unbundle bit_operations_syntax

declare whitespace_loop.simps [simp del]

section \<open>Reading a known text\<close>

text \<open>The buffer stands in front of the text \<open>s\<close>, which ends with a byte that cannot belong to a number.\<close>

definition number_end :: "u8 \<Rightarrow> bool" where
  "number_end b \<longleftrightarrow> \<not> number_byte b \<and> b \<noteq> 46"

definition at_text :: "parse_buffer \<Rightarrow> u8 list \<Rightarrow> bool" where
  "at_text buf s \<longleftrightarrow> text_ok buf \<and> (\<exists>pre b r. content buf = pre @ s @ b # r \<and> in_offset buf = length pre \<and>
     length pre + length s < in_length buf \<and> number_end b)"

abbreviation blanks :: "u8 list \<Rightarrow> bool" where
  "blanks w \<equiv> list_all (\<lambda>b. b \<le> 32) w"

lemma byte_at_here [simp]: "byte_at (xs @ b # ys) (length xs) = Some b"
  by (simp add: byte_at_def)

lemma whitespace_exact:
  "blanks w \<Longrightarrow> 32 < b \<Longrightarrow> length pre + length w < len \<Longrightarrow>
   whitespace_loop (pre @ w @ b # r) len (length pre) = Some (length pre + length w)"
proof (induction w arbitrary: pre)
  case Nil
  then have "\<not> b \<le> 32" by simp
  with Nil show ?case by (simp add: whitespace_loop.simps)
next
  case (Cons a w)
  have "byte_at (pre @ a # w @ b # r) (length pre) = Some a" by simp
  moreover have "whitespace_loop (pre @ a # w @ b # r) len (Suc (length pre)) = Some (Suc (length pre) + length w)"
    using Cons.IH [of "pre @ [a]"] Cons.prems by simp
  ultimately show ?case using Cons.prems by (simp add: whitespace_loop.simps)
qed

lemma skip_exact:
  assumes "content buf = pre @ w @ b # r" and "in_offset buf = length pre" and "blanks w" and "32 < b" and "length pre + length w < in_length buf"
  shows "buffer_skip_whitespace buf = Some (buf\<lparr>in_offset := length pre + length w\<rparr>)"
  using assms by (simp add: buffer_skip_whitespace_def can_access_at_index_def whitespace_exact)

lemma next_exact:
  assumes "content buf = pre @ b # r" and "in_offset buf = length pre" and "length pre < in_length buf"
  shows "next_is buf P = Some (P b)"
  using assms by (simp add: next_is_def can_access_at_index_def)

lemma strncmp_exact: "strncmp_eq (pre @ l @ r) (length pre) l = Some True"
proof (induction l arbitrary: pre)
  case (Cons a l)
  then show ?case using Cons.IH [of "pre @ [a]"] by simp
qed simp

lemma literal_exact:
  assumes "content buf = pre @ l @ r" and "in_offset buf = length pre" and "length pre + length l \<le> in_length buf"
  shows "at_literal buf l = Some True"
  using assms by (simp add: at_literal_def can_read_def strncmp_exact)

lemma literal_other:
  assumes "content buf = pre @ a # r" and "in_offset buf = length pre" and "l \<noteq> []" and "hd l \<noteq> a"
  shows "at_literal buf l = Some False"
  using assms by (cases l) (simp_all add: at_literal_def)

lemma number_exact:
  "list_all (\<lambda>b. \<not> number_end b) s \<Longrightarrow> number_end b \<Longrightarrow> length s < n \<Longrightarrow> length pre + length s \<le> len \<Longrightarrow>
   number_loop n (pre @ s @ b # r) len (length pre) = Some s"
proof (induction s arbitrary: n pre)
  case Nil
  then obtain m where "n = Suc m" by (cases n) auto
  with Nil show ?case by (simp add: number_end_def)
next
  case (Cons a s)
  then obtain m where m: "n = Suc m" by (cases n) auto
  have "number_loop m (pre @ a # s @ b # r) len (Suc (length pre)) = Some s"
    using Cons.IH [of m "pre @ [a]"] Cons.prems m by simp
  then show ?case using Cons.prems(1,4) m by (auto simp: number_end_def get_decimal_point_def)
qed

section \<open>The contract\<close>

text \<open>A parser accepts the text \<open>s\<close> as the value \<open>v\<close>; \<open>k\<close> is the name when the text has one.\<close>

definition reads :: "cjson_env \<Rightarrow> parser \<Rightarrow> u8 list \<Rightarrow> u8 list option \<Rightarrow> json \<Rightarrow> bool" where
  "reads E pe s k v \<longleftrightarrow> (\<forall>h p buf. at_text buf s \<and> blank (env_h E) h p \<and> finite (dom h) \<and>
     in_depth buf + json_depth v \<le> CJSON_NESTING_LIMIT (env_h E) \<longrightarrow>
     (\<exists>h' ts. pe h p buf = Some (True, h', buf\<lparr>in_offset := in_offset buf + length s\<rparr>) \<and> parsed (env_h E) h p h' ts v \<and>
        key_at h' p = (case k of None \<Rightarrow> key_at h p | Some _ \<Rightarrow> k)))"

lemma readsI:
  assumes "\<And>h p buf pre b r x. text_ok buf \<Longrightarrow> content buf = pre @ s @ b # r \<Longrightarrow> in_offset buf = length pre \<Longrightarrow>
      length pre + length s < in_length buf \<Longrightarrow> number_end b \<Longrightarrow> blank (env_h E) h p \<Longrightarrow> p \<noteq> 0 \<Longrightarrow> h p = Some x \<Longrightarrow> finite (dom h) \<Longrightarrow>
      in_depth buf + json_depth v \<le> CJSON_NESTING_LIMIT (env_h E) \<Longrightarrow>
      \<exists>h' ts. pe h p buf = Some (True, h', buf\<lparr>in_offset := length pre + length s\<rparr>) \<and> parsed (env_h E) h p h' ts v \<and>
        key_at h' p = (case k of None \<Rightarrow> key_at h p | Some _ \<Rightarrow> k)"
  shows "reads E pe s k v"
  unfolding reads_def at_text_def
proof (intro allI impI, elim conjE exE)
  fix h p buf pre b r
  assume a: "blank (env_h E) h p" and *: "in_offset buf = length pre" "text_ok buf" "content buf = pre @ s @ b # r"
    "length pre + length s < in_length buf" "number_end b" "finite (dom h)" "in_depth buf + json_depth v \<le> CJSON_NESTING_LIMIT (env_h E)"
  obtain x where "p \<noteq> 0" "h p = Some x" using a by (rule blankE)
  from assms [OF *(2,3,1,4,5) a this *(6,7)] *(1)
  show "\<exists>h' ts. pe h p buf = Some (True, h', buf\<lparr>in_offset := in_offset buf + length s\<rparr>) \<and> parsed (env_h E) h p h' ts v \<and>
      key_at h' p = (case k of None \<Rightarrow> key_at h p | Some _ \<Rightarrow> k)" by simp
qed

lemma readsD:
  assumes "reads E pe s k v" and "text_ok buf" and "content buf = pre @ s @ b # r" and "in_offset buf = length pre"
    and "length pre + length s < in_length buf" and "number_end b" and "blank (env_h E) h p" and "finite (dom h)"
    and "in_depth buf + json_depth v \<le> CJSON_NESTING_LIMIT (env_h E)"
  obtains h' ts where "pe h p buf = Some (True, h', buf\<lparr>in_offset := length pre + length s\<rparr>)" and "parsed (env_h E) h p h' ts v"
    and "key_at h' p = (case k of None \<Rightarrow> key_at h p | Some _ \<Rightarrow> k)"
proof -
  have "at_text buf s" using assms(2-6) by (auto simp: at_text_def)
  with assms(1,4,7-9) that show thesis unfolding reads_def by metis
qed

section \<open>Scalars\<close>

lemma scalar_reads:
  assumes pe: "\<And>h p buf pre b r x. text_ok buf \<Longrightarrow> content buf = pre @ s @ b # r \<Longrightarrow> in_offset buf = length pre \<Longrightarrow>
      length pre + length s < in_length buf \<Longrightarrow> number_end b \<Longrightarrow> p \<noteq> 0 \<Longrightarrow> h p = Some x \<Longrightarrow>
      \<exists>x'. pe h p buf = Some (True, h(p \<mapsto> x'), buf\<lparr>in_offset := length pre + length s\<rparr>) \<and> chd x' = chd x \<and> nxt x' = nxt x \<and>
        prv x' = prv x \<and> item_string x' = item_string x \<and> item_type x' AND cJSON_IsReference (env_h E) = 0 \<and>
        json_of (env_h E) (h(p \<mapsto> x')) (Nd p []) = Some v"
  shows "reads E pe s None v"
proof (rule readsI)
  fix h p buf pre b r x
  assume t: "text_ok buf" "content buf = pre @ s @ b # r" "in_offset buf = length pre" "length pre + length s < in_length buf" "number_end b"
    and bl: "blank (env_h E) h p" and p: "p \<noteq> 0" "h p = Some x"
  from pe [of buf pre b r p h x, OF t p] obtain x' where x': "pe h p buf = Some (True, h(p \<mapsto> x'), buf\<lparr>in_offset := length pre + length s\<rparr>)"
    "chd x' = chd x" "nxt x' = nxt x" "prv x' = prv x" "item_string x' = item_string x" "item_type x' AND cJSON_IsReference (env_h E) = 0"
    "json_of (env_h E) (h(p \<mapsto> x')) (Nd p []) = Some v" by blast
  have "key_at (h(p \<mapsto> x')) p = key_at h p" using p(2) x'(5) by (simp add: key_at_def)
  with x'(1) scalar_parsed [OF bl p(2) x'(2-4,6,7)] show
    "\<exists>h' ts. pe h p buf = Some (True, h', buf\<lparr>in_offset := length pre + length s\<rparr>) \<and> parsed (env_h E) h p h' ts v \<and>
      key_at h' p = (case None of None \<Rightarrow> key_at h p | Some _ \<Rightarrow> None)" by auto
qed

lemma literal_reads:
  assumes "\<And>h p buf pre b r. content buf = pre @ l @ b # r \<Longrightarrow> in_offset buf = length pre \<Longrightarrow> length pre + length l < in_length buf \<Longrightarrow>
      pe h p buf = parse_literal buf l f h p"
    and "\<And>x. chd (f x) = chd x \<and> nxt (f x) = nxt x \<and> prv (f x) = prv x \<and> item_string (f x) = item_string x \<and>
      item_type (f x) AND cJSON_IsReference (env_h E) = 0 \<and> scalar_json (env_h E) (f x) = Some v \<and>
      item_type (f x) AND 0xFF \<noteq> cJSON_Array (env_h E) \<and> item_type (f x) AND 0xFF \<noteq> cJSON_Object (env_h E)"
  shows "reads E pe l None v"
proof (rule scalar_reads)
  fix h :: items and p and buf :: parse_buffer and pre b r x
  assume t: "content buf = pre @ l @ b # r" "in_offset buf = length pre" "length pre + length l < in_length buf" and p: "p \<noteq> 0" "h p = Some x"
  show "\<exists>x'. pe h p buf = Some (True, h(p \<mapsto> x'), buf\<lparr>in_offset := length pre + length l\<rparr>) \<and> chd x' = chd x \<and> nxt x' = nxt x \<and>
      prv x' = prv x \<and> item_string x' = item_string x \<and> item_type x' AND cJSON_IsReference (env_h E) = 0 \<and>
      json_of (env_h E) (h(p \<mapsto> x')) (Nd p []) = Some v"
    unfolding assms(1) [OF t] using p t(2) assms(2) [of x] by (intro exI [of _ "f x"]) (simp add: parse_literal_def jset_blank)
qed

lemma literal_differs:
  assumes "content buf = pre @ m @ b # r" and "in_offset buf = length pre" and "m \<noteq> []" and "l \<noteq> []" and "hd l \<noteq> hd m"
  shows "at_literal buf l = Some False"
  using literal_other [of buf pre "hd m" "tl m @ b # r" l] assms by (cases m) auto

lemma literals_read:
  assumes "types_ok (env_h E)"
  shows "reads E (parse_any n pv E strtod) lit_null None JNull" "reads E (parse_any n pv E strtod) lit_false None JFalse"
    "reads E (parse_any n pv E strtod) lit_true None JTrue"
proof -
  have lits: "lit_null \<noteq> []" "lit_false \<noteq> []" "lit_true \<noteq> []" "hd lit_null = 110" "hd lit_false = 102" "hd lit_true = 116"
    by (simp_all add: lit_null_def lit_false_def lit_true_def)
  show "reads E (parse_any n pv E strtod) lit_null None JNull"
    by (rule literal_reads [where f = "\<lambda>x. x\<lparr>item_type := cJSON_NULL (env_h E)\<rparr>"])
      (simp_all add: parse_any_def literal_exact scalar_json_def types_simps [OF assms])
  show "reads E (parse_any n pv E strtod) lit_false None JFalse"
    by (rule literal_reads [where f = "\<lambda>x. x\<lparr>item_type := cJSON_False (env_h E)\<rparr>"])
      (simp_all add: parse_any_def lits literal_differs [of _ _ lit_false] literal_exact scalar_json_def types_simps [OF assms])
  show "reads E (parse_any n pv E strtod) lit_true None JTrue"
    by (rule literal_reads [where f = "\<lambda>x. x\<lparr>item_type := cJSON_True (env_h E), valueint := 1\<rparr>"])
      (simp_all add: parse_any_def lits literal_differs [of _ _ lit_true] literal_exact scalar_json_def types_simps [OF assms])
qed

text \<open>
  Numbers: the printed text consists of bytes of numbers, begins with a digit or a minus sign and is
  read back as the number.
\<close>

definition number_ok :: "fp_ops \<Rightarrow> strtod \<Rightarrow> u64 \<Rightarrow> bool" where
  "number_ok F strtod x \<longleftrightarrow> (case number_text F x of None \<Rightarrow> False | Some s \<Rightarrow> s \<noteq> [] \<and> (hd s = 45 \<or> 48 \<le> hd s \<and> hd s \<le> 57) \<and>
     length s < 26 \<and> list_all (\<lambda>b. \<not> number_end b) s \<and> strtod s = (x, length s))"

lemma number_reads:
  assumes ty: "types_ok (env_h E)" and num: "number_ok F strtod d"
  shows "reads E (parse_any n pv E strtod) (the (number_text F d)) None (JNumber d)"
proof -
  obtain s where s: "number_text F d = Some s" "s \<noteq> []" "hd s = 45 \<or> 48 \<le> hd s \<and> hd s \<le> 57" "length s < 26"
    "list_all (\<lambda>b. \<not> number_end b) s" "strtod s = (d, length s)"
    using num by (auto simp: number_ok_def split: option.splits)
  have first: "hd s \<noteq> 110" "hd s \<noteq> 102" "hd s \<noteq> 116" "hd s \<noteq> 34" using s(3) by auto
  have "reads E (parse_any n pv E strtod) s None (JNumber d)"
  proof (rule scalar_reads)
    fix h :: items and p buf pre b r x
    assume t: "text_ok buf" "content buf = pre @ s @ b # r" "in_offset buf = length pre" "length pre + length s < in_length buf" "number_end b"
      and p: "p \<noteq> 0" "h p = Some x"
    let ?x = "x\<lparr>valuedouble := d, valueint := saturate E d, item_type := cJSON_Number (env_h E)\<rparr>"
    have c: "content buf = pre @ hd s # tl s @ b # r" using t(2) s(2) by simp
    have lit: "at_literal buf l = Some False" if "l \<noteq> []" "hd l \<noteq> hd s" for l by (rule literal_differs [OF t(2,3) s(2) that])
    note nx = next_exact [OF c t(3)]
    have "parse_any n pv E strtod h p buf = parse_number E strtod h p buf"
      using lit [of lit_null] lit [of lit_false] lit [of lit_true] first s(3) t(4) nx
      by (simp add: parse_any_def lit_null_def lit_false_def lit_true_def)
    also have "\<dots> = Some (True, h(p \<mapsto> ?x), buf\<lparr>in_offset := length pre + length s\<rparr>)"
      using number_exact [OF s(5) t(5), of 63 pre "in_length buf" r] s(2,4,6) t(2-4) p
      by (simp add: parse_number_def jset_blank)
    finally show "\<exists>x'. parse_any n pv E strtod h p buf = Some (True, h(p \<mapsto> x'), buf\<lparr>in_offset := length pre + length s\<rparr>) \<and> chd x' = chd x \<and> nxt x' = nxt x \<and>
        prv x' = prv x \<and> item_string x' = item_string x \<and> item_type x' AND cJSON_IsReference (env_h E) = 0 \<and>
        json_of (env_h E) (h(p \<mapsto> x')) (Nd p []) = Some (JNumber d)"
      by (intro exI [of _ ?x]) (simp add: scalar_json_def types_simps [OF ty])
  qed
  with s(1) show ?thesis by simp
qed

text \<open>Strings, and the names of members.\<close>

lemma quoted_at:
  assumes "hooks_ok (env_hooks E)" and "unlimited (env_hooks E)" and "0 \<notin> set s"
    and "text_ok buf" "content buf = pre @ json_quote s @ r" "in_offset buf = length pre" "length pre + length (json_quote s) \<le> in_length buf"
    and "p \<noteq> 0" and "h p = Some x"
  obtains blk where "parse_string_at E h p buf = Some (True, h(p \<mapsto> x\<lparr>item_type := cJSON_String (env_h E), valuestring := Some blk\<rparr>),
      buf\<lparr>in_offset := length pre + length (json_quote s)\<rparr>)" and "c_text blk = Some s"
proof -
  have "\<And>n. allocate (env_hooks E) n \<noteq> None" using assms(2) by (simp add: unlimited_def)
  from parse_quoted [OF assms(1) this assms(3) assms(5-7), of "env_h E" "cJSON.truncate x"] assms(4)
  obtain blk where "parse_string (env_h E) (env_hooks E) (cJSON.truncate x) buf = Some (True, (cJSON.truncate x)\<lparr>item_type := cJSON_String (env_h E), valuestring := Some blk\<rparr>,
      buf\<lparr>in_offset := length pre + length (json_quote s)\<rparr>)" "c_string blk = s" by (auto simp: text_ok_def)
  then have e: "parse_string_at E h p buf = Some (True, h(p \<mapsto> x\<lparr>item_type := cJSON_String (env_h E), valuestring := Some blk\<rparr>),
      buf\<lparr>in_offset := length pre + length (json_quote s)\<rparr>)" and s: "c_string blk = s"
    using assms(8,9) by (simp_all add: parse_string_at_def jget_def)
  have off: "in_offset buf \<le> in_length buf" "in_offset buf < length (content buf)" using assms(5-7) by (simp_all add: json_quote_def)
  have "0 \<in> set blk"
  proof (rule string_cases [where E = E and buf = buf and p = p and h = h and x = x, OF assms(1,4) off assms(8,9)])
    fix c q
    assume "parse_string_at E h p buf = Some (True, h(p \<mapsto> x\<lparr>item_type := cJSON_String (env_h E), valuestring := Some c\<rparr>), buf\<lparr>in_offset := q\<rparr>)"
      and c: "0 \<in> set c"
    with e have "(h(p \<mapsto> x\<lparr>item_type := cJSON_String (env_h E), valuestring := Some c\<rparr>)) p =
        (h(p \<mapsto> x\<lparr>item_type := cJSON_String (env_h E), valuestring := Some blk\<rparr>)) p" by simp
    then have "valuestring (x\<lparr>item_type := cJSON_String (env_h E), valuestring := Some c\<rparr>) =
        valuestring (x\<lparr>item_type := cJSON_String (env_h E), valuestring := Some blk\<rparr>)" by simp
    with c show ?thesis by simp
  qed (use e in simp)
  with e s that show thesis by (simp add: c_text_def)
qed

lemma string_reads:
  assumes ty: "types_ok (env_h E)" and ok: "hooks_ok (env_hooks E)" "unlimited (env_hooks E)" and s: "0 \<notin> set s"
  shows "reads E (parse_any n pv E strtod) (json_quote s) None (JString s)"
proof (rule scalar_reads)
  fix h :: items and p buf pre b r x
  assume t: "text_ok buf" "content buf = pre @ json_quote s @ b # r" "in_offset buf = length pre" "length pre + length (json_quote s) < in_length buf"
    and p: "p \<noteq> 0" "h p = Some x"
  have q: "json_quote s \<noteq> []" "hd (json_quote s) = 34" by (simp_all add: json_quote_def)
  have c: "content buf = pre @ 34 # tl (json_quote s) @ b # r" using t(2) q by (cases "json_quote s") simp_all
  have lit: "at_literal buf l = Some False" if "l \<noteq> []" "hd l \<noteq> 34" for l using literal_differs [OF t(2,3) q(1) that(1)] q(2) that(2) by simp
  obtain blk where blk: "parse_string_at E h p buf = Some (True, h(p \<mapsto> x\<lparr>item_type := cJSON_String (env_h E), valuestring := Some blk\<rparr>),
      buf\<lparr>in_offset := length pre + length (json_quote s)\<rparr>)" "c_text blk = Some s"
    using quoted_at [where h = h and p = p and x = x, OF ok s t(1,2,3) less_imp_le [OF t(4)] p] .
  have "parse_any n pv E strtod h p buf = parse_string_at E h p buf"
    using lit [of lit_null] lit [of lit_false] lit [of lit_true] t(4) next_exact [OF c t(3)]
    by (simp add: parse_any_def lit_null_def lit_false_def lit_true_def)
  with blk show "\<exists>x'. parse_any n pv E strtod h p buf = Some (True, h(p \<mapsto> x'), buf\<lparr>in_offset := length pre + length (json_quote s)\<rparr>) \<and> chd x' = chd x \<and> nxt x' = nxt x \<and>
      prv x' = prv x \<and> item_string x' = item_string x \<and> item_type x' AND cJSON_IsReference (env_h E) = 0 \<and>
      json_of (env_h E) (h(p \<mapsto> x')) (Nd p []) = Some (JString s)"
    by (intro exI [of _ "x\<lparr>item_type := cJSON_String (env_h E), valuestring := Some blk\<rparr>"]) (simp add: scalar_json_def types_simps [OF ty])
qed

section \<open>Lists of elements\<close>

text \<open>
  The texts of the elements, each with blanks in front and separated by commas, the blanks before the
  closing byte, and that byte.
\<close>

fun listing :: "u8 \<Rightarrow> u8 list \<Rightarrow> (u8 list \<times> u8 list \<times> 'a) list \<Rightarrow> u8 list" where
  "listing cl u [] = u @ [cl]"
| "listing cl u [(w, s, x)] = w @ s @ u @ [cl]"
| "listing cl u ((w, s, x) # e # es) = w @ s @ 44 # listing cl u (e # es)"

definition stands :: "cjson_h \<Rightarrow> items \<Rightarrow> atree \<Rightarrow> u8 list option \<times> json \<Rightarrow> bool" where
  "stands H h t kv \<longleftrightarrow> json_of H h t = Some (snd kv) \<and> (fst kv \<noteq> None \<longrightarrow> key_at h (root t) = fst kv)"

text \<open>Memory for an item is there as long as finitely many items exist.\<close>

definition never_full :: "cjson_env \<Rightarrow> bool" where
  "never_full E \<longleftrightarrow> (\<forall>h. finite (dom h) \<longrightarrow> env_new E h \<noteq> 0)"

lemma finite_dom_agree:
  assumes "finite (dom h)" and "finite S" and "\<And>y. y \<notin> S \<Longrightarrow> h' y = h y"
  shows "finite (dom h')"
proof (rule finite_subset)
  show "dom h' \<subseteq> dom h \<union> S" using assms(3) by force
qed (use assms(1,2) in simp)

lemma blank_number_end: "b \<le> 32 \<Longrightarrow> number_end b"
  by (auto simp: number_end_def number_byte_def dest: order_trans)

text \<open>One element: the list grows, and the parser stands behind the text of the element.\<close>

lemma element_exact:
  assumes ok: "new_ok E" "never_full E" and rd: "reads E pe s k v" and p: "blank (env_h E) h0 p" "finite (dom h0)"
    and c: "chain (env_h E) h0 h p ts" "list_all2 (stands (env_h E) h) ts kvs"
    and buf: "text_ok buf" "content buf = pre @ b0 # w @ s @ b # r" "in_offset buf = length pre" "length pre + length w + length s + 1 < in_length buf"
    and tx: "blanks w" "s \<noteq> []" "32 < hd s" "number_end b" and dp: "in_depth buf + json_depth v \<le> CJSON_NESTING_LIMIT (env_h E)"
  obtains q us h3 where "element_loop (Suc n) pe cl ty E h p (first (map root ts) 0) (final 0 (map root ts)) buf = do {
        buf3 \<leftarrow> buffer_skip_whitespace (buf\<lparr>in_offset := length pre + length w + length s + 1\<rparr>);
        comma \<leftarrow> next_is buf3 (\<lambda>b. b = 44);
        if comma then element_loop n pe cl ty E h3 p (first (map root (ts @ [Nd q us])) 0) q buf3
        else do {
          close \<leftarrow> next_is buf3 (\<lambda>b. b = cl);
          if \<not> close then parse_fail E h3 (first (map root (ts @ [Nd q us])) 0) buf3
          else parse_success ty h3 p (first (map root (ts @ [Nd q us])) 0) q buf3
        }
      }" and "chain (env_h E) h0 h3 p (ts @ [Nd q us])" and "list_all2 (stands (env_h E) h3) (ts @ [Nd q us]) (kvs @ [(k, v)])"
proof -
  note outcome = that
  let ?H = "env_h E"
  have fin: "finite (dom h)" by (rule finite_dom_agree [OF p(2), of "set (forest_addrs ts)"]) (use chainD(5) [OF c(1)] in \<open>simp_all del: set_concat set_map\<close>)
  obtain q where q: "cJSON_New_Item E h = (q, h(q \<mapsto> null_item))" "q \<noteq> 0" "h q = None"
    using ok fin by (cases rule: new_item_cases [OF ok(1), of h]) (auto simp: never_full_def cJSON_New_Item_def Let_def split: if_splits)
  have pin: "h p \<noteq> None" using chainD(2,5) [OF c(1)] p(1) by (auto simp: blank_def split: option.splits)
  then have qp: "q \<noteq> p" using q(3) by auto
  obtain h2 where att: "attach (h(q \<mapsto> null_item)) (first (map root ts) 0) (final 0 (map root ts)) q = Some (h2, first (map root ts @ [q]) 0)"
    and app: "appended ?H h h2 ts q" using attach_new [OF c(1) q(3,2) qp] by blast
  have fin2: "finite (dom h2)"
    by (rule finite_dom_agree [OF fin, of "insert q (set (forest_addrs ts))"]) (use appendedD(4) [OF app] in \<open>simp_all del: set_concat set_map\<close>)
  have c1: "content (buf\<lparr>in_offset := in_offset buf + 1\<rparr>) = (pre @ [b0]) @ w @ hd s # tl s @ b # r" using buf(2) tx(2) by simp
  have skip: "buffer_skip_whitespace (buf\<lparr>in_offset := in_offset buf + 1\<rparr>) = Some (buf\<lparr>in_offset := length pre + 1 + length w\<rparr>)"
    using skip_exact [OF c1 _ tx(1,3)] buf(3,4) by simp
  let ?b1 = "buf\<lparr>in_offset := length pre + 1 + length w\<rparr>"
  have b1: "text_ok ?b1" "content ?b1 = (pre @ b0 # w) @ s @ b # r" "in_offset ?b1 = length (pre @ b0 # w)"
    "length (pre @ b0 # w) + length s < in_length ?b1" "in_depth ?b1 + json_depth v \<le> CJSON_NESTING_LIMIT ?H"
    using buf dp by simp_all
  obtain h3 us where h3: "pe h2 q ?b1 = Some (True, h3, ?b1\<lparr>in_offset := length (pre @ b0 # w) + length s\<rparr>)" "parsed ?H h2 q h3 us v"
    "key_at h3 q = (case k of None \<Rightarrow> key_at h2 q | Some _ \<Rightarrow> k)"
    using readsD [OF rd b1(1-4) tx(4) appendedD(3) [OF app] fin2 b1(5)] .
  note P = h3(2) [unfolded parsed_def]
  have g: "chain ?H h0 h3 p (ts @ [Nd q us])"
    "\<And>t. t \<in> set ts \<Longrightarrow> json_of ?H h3 t = json_of ?H h t \<and> key_at h3 (root t) = key_at h (root t)"
    using chain_grows [OF c(1) app q(3) qp _ _ _ _ _ pin, of h3 us] P by blast+
  have "list_all2 (stands ?H h3) ts kvs"
    by (rule list.rel_mono_strong [OF c(2)]) (use g(2) in \<open>auto simp: stands_def\<close>)
  moreover have "stands ?H h3 (Nd q us) (k, v)" using P h3(3) by (auto simp: stands_def simp del: json_of.simps split: option.splits)
  ultimately have "list_all2 (stands ?H h3) (ts @ [Nd q us]) (kvs @ [(k, v)])" by (intro list_all2_appendI) simp_all
  with g(1) q(1,2) att skip h3(1) show thesis by (intro outcome [of h3 q us]) (simp_all add: add_ac cong: if_cong)
qed

lemma listing_Cons: "es \<noteq> [] \<Longrightarrow> listing cl u ((w, s, x) # es) = w @ s @ 44 # listing cl u es"
  by (cases es) simp_all

lemma listing_exact:
  assumes ok: "new_ok E" "never_full E" and p: "blank (env_h E) h0 p" "finite (dom h0)"
    and cl: "32 < cl" "cl \<noteq> 44" "number_end cl" "blanks u" and ne: "es \<noteq> []"
  shows "list_all (\<lambda>(w, s, k, v). reads E pe s k v \<and> blanks w \<and> s \<noteq> [] \<and> 32 < hd s \<and>
        in_depth buf + json_depth v \<le> CJSON_NESTING_LIMIT (env_h E)) es \<Longrightarrow> length es \<le> n \<Longrightarrow>
      chain (env_h E) h0 h p ts \<Longrightarrow> list_all2 (stands (env_h E) h) ts kvs \<Longrightarrow> text_ok buf \<Longrightarrow>
      content buf = pre @ b0 # listing cl u es @ r \<Longrightarrow> in_offset buf = length pre \<Longrightarrow> length pre + length (listing cl u es) < in_length buf \<Longrightarrow>
    \<exists>h3 us. element_loop n pe cl ty E h p (first (map root ts) 0) (final 0 (map root ts)) buf =
        parse_success ty h3 p (first (map root us) 0) (final 0 (map root us)) (buf\<lparr>in_offset := length pre + length (listing cl u es)\<rparr>) \<and>
      chain (env_h E) h0 h3 p us \<and> list_all2 (stands (env_h E) h3) us (kvs @ map (\<lambda>e. snd (snd e)) es)"
  using ne
proof (induction es arbitrary: n h ts kvs buf pre b0 rule: list_nonempty_induct)
  case (single e)
  obtain w s k v where e: "e = (w, s, k, v)" by (cases e)
  obtain m where n: "n = Suc m" using single.prems(2) by (cases n) auto
  have el: "reads E pe s k v" "blanks w" "s \<noteq> []" "32 < hd s" "in_depth buf + json_depth v \<le> CJSON_NESTING_LIMIT (env_h E)"
    using single.prems(1) e by simp_all
  define b where "b = hd (u @ [cl])"
  have uc: "u @ [cl] = b # tl (u @ [cl])" by (simp add: b_def)
  have b: "number_end b" using cl(3,4) blank_number_end by (cases u) (auto simp: b_def)
  have "content buf = pre @ b0 # w @ s @ (u @ [cl]) @ r" using single.prems(6) e by simp
  then have c1: "content buf = pre @ b0 # w @ s @ b # tl (u @ [cl]) @ r" by (metis uc append_Cons)
  have len: "length pre + length w + length s + 1 < in_length buf" using single.prems(8) e by simp
  obtain q us h3 where st: "element_loop (Suc m) pe cl ty E h p (first (map root ts) 0) (final 0 (map root ts)) buf = do {
        buf3 \<leftarrow> buffer_skip_whitespace (buf\<lparr>in_offset := length pre + length w + length s + 1\<rparr>);
        comma \<leftarrow> next_is buf3 (\<lambda>b. b = 44);
        if comma then element_loop m pe cl ty E h3 p (first (map root (ts @ [Nd q us])) 0) q buf3
        else do {
          close \<leftarrow> next_is buf3 (\<lambda>b. b = cl);
          if \<not> close then parse_fail E h3 (first (map root (ts @ [Nd q us])) 0) buf3
          else parse_success ty h3 p (first (map root (ts @ [Nd q us])) 0) q buf3
        }
      }" "chain (env_h E) h0 h3 p (ts @ [Nd q us])" "list_all2 (stands (env_h E) h3) (ts @ [Nd q us]) (kvs @ [(k, v)])"
    using element_exact [OF ok el(1) p single.prems(3,4,5) c1 single.prems(7) len el(2,3,4) b el(5)] .
  let ?b3 = "buf\<lparr>in_offset := length pre + length (listing cl u [e])\<rparr>"
  have c3: "content (buf\<lparr>in_offset := length pre + length w + length s + 1\<rparr>) = (pre @ b0 # w @ s) @ u @ cl # r" using single.prems(6) e by simp
  have "buffer_skip_whitespace (buf\<lparr>in_offset := length pre + length w + length s + 1\<rparr>) = Some ?b3"
    using skip_exact [OF c3 _ cl(4,1)] single.prems(8) e by (simp add: add_ac)
  moreover have "next_is ?b3 P = Some (P cl)" for P
    by (rule next_exact [where pre = "pre @ b0 # w @ s @ u" and r = r]) (use single.prems(6,8) e in simp_all)
  ultimately have "element_loop (Suc m) pe cl ty E h p (first (map root ts) 0) (final 0 (map root ts)) buf =
      parse_success ty h3 p (first (map root (ts @ [Nd q us])) 0) (final 0 (map root (ts @ [Nd q us]))) ?b3"
    using st(1) cl(2) by (simp cong: if_cong)
  with st(2,3) show ?case unfolding n by (intro exI [of _ h3] exI [of _ "ts @ [Nd q us]"]) (simp add: e del: element_loop.simps)
next
  case (cons e es)
  obtain w s k v where e: "e = (w, s, k, v)" by (cases e)
  obtain m where n: "n = Suc m" using cons.prems(2) by (cases n) auto
  have el: "reads E pe s k v" "blanks w" "s \<noteq> []" "32 < hd s" "in_depth buf + json_depth v \<le> CJSON_NESTING_LIMIT (env_h E)"
    using cons.prems(1) e by simp_all
  note L = listing_Cons [OF cons.hyps, of cl u w s "(k, v)"]
  have c1: "content buf = pre @ b0 # w @ s @ 44 # listing cl u es @ r" using cons.prems(6) e L by simp
  have len: "length pre + length w + length s + 1 < in_length buf" using cons.prems(8) e L by simp
  have b: "number_end 44" by (simp add: number_end_def number_byte_def)
  obtain q us h3 where st: "element_loop (Suc m) pe cl ty E h p (first (map root ts) 0) (final 0 (map root ts)) buf = do {
        buf3 \<leftarrow> buffer_skip_whitespace (buf\<lparr>in_offset := length pre + length w + length s + 1\<rparr>);
        comma \<leftarrow> next_is buf3 (\<lambda>b. b = 44);
        if comma then element_loop m pe cl ty E h3 p (first (map root (ts @ [Nd q us])) 0) q buf3
        else do {
          close \<leftarrow> next_is buf3 (\<lambda>b. b = cl);
          if \<not> close then parse_fail E h3 (first (map root (ts @ [Nd q us])) 0) buf3
          else parse_success ty h3 p (first (map root (ts @ [Nd q us])) 0) q buf3
        }
      }" "chain (env_h E) h0 h3 p (ts @ [Nd q us])" "list_all2 (stands (env_h E) h3) (ts @ [Nd q us]) (kvs @ [(k, v)])"
    using element_exact [OF ok el(1) p cons.prems(3,4,5) c1 cons.prems(7) len el(2,3,4) b el(5)] .
  let ?b3 = "buf\<lparr>in_offset := length pre + length w + length s + 1\<rparr>"
  have c3: "content ?b3 = (pre @ b0 # w @ s) @ [] @ 44 # listing cl u es @ r" using c1 by simp
  have "(32 :: u8) < 44" by simp
  from skip_exact [OF c3 _ _ this] have "buffer_skip_whitespace ?b3 = Some ?b3" using len by (simp add: add_ac)
  moreover have "next_is ?b3 P = Some (P 44)" for P
    by (rule next_exact [where pre = "pre @ b0 # w @ s" and r = "listing cl u es @ r"]) (use c3 len in simp_all)
  ultimately have e1: "element_loop (Suc m) pe cl ty E h p (first (map root ts) 0) (final 0 (map root ts)) buf =
      element_loop m pe cl ty E h3 p (first (map root (ts @ [Nd q us])) 0) (final 0 (map root (ts @ [Nd q us]))) ?b3"
    using st(1) by (simp cong: if_cong)
  have "\<exists>h4 us'. element_loop m pe cl ty E h3 p (first (map root (ts @ [Nd q us])) 0) (final 0 (map root (ts @ [Nd q us]))) ?b3 =
        parse_success ty h4 p (first (map root us') 0) (final 0 (map root us')) (?b3\<lparr>in_offset := length (pre @ b0 # w @ s) + length (listing cl u es)\<rparr>) \<and>
      chain (env_h E) h0 h4 p us' \<and> list_all2 (stands (env_h E) h4) us' ((kvs @ [(k, v)]) @ map (\<lambda>e. snd (snd e)) es)"
    by (rule cons.IH [where ?b0.0 = 44]) (use cons.prems e n c1 L st in simp_all)
  with e1 show ?case unfolding n e L by (simp add: add.assoc del: element_loop.simps)
qed

section \<open>Arrays and objects\<close>

text \<open>What follows the opening bracket: blanks, the elements, the closing bracket.\<close>

lemma container_exact:
  assumes ok: "new_ok E" "never_full E" and p: "blank (env_h E) h p" "finite (dom h)" "h p = Some x" and ty: "ty AND cJSON_IsReference (env_h E) = 0"
    and cl: "32 < cl" "cl \<noteq> 44" "number_end cl" "blanks u" "blanks w"
    and es: "list_all (\<lambda>(w, s, k, v). reads E pe s k v \<and> blanks w \<and> s \<noteq> [] \<and> 32 < hd s \<and> hd s \<noteq> cl \<and>
        Suc (in_depth buf) + json_depth v \<le> CJSON_NESTING_LIMIT (env_h E)) es" "length es \<le> n"
      "es = [] \<Longrightarrow> u = []" "es \<noteq> [] \<Longrightarrow> fst (hd es) = []"
    and buf: "text_ok buf" "content buf = pre @ b0 # w @ listing cl u es @ r" "in_offset buf = length pre"
      "length pre + length w + length (listing cl u es) < in_length buf"
  obtains h2 us x' where "(do {
      buf2 \<leftarrow> buffer_skip_whitespace (buf\<lparr>in_depth := in_depth buf + 1, in_offset := in_offset buf + 1\<rparr>);
      empty \<leftarrow> next_is buf2 (\<lambda>b. b = cl);
      if empty then parse_success ty h p 0 0 buf2
      else if \<not> can_access_at_index buf2 0 then parse_fail E h 0 (buf2\<lparr>in_offset := in_offset buf2 - 1\<rparr>)
      else element_loop n pe cl ty E h p 0 0 (buf2\<lparr>in_offset := in_offset buf2 - 1\<rparr>)
    }) = Some (True, h2, buf\<lparr>in_offset := length pre + 1 + length w + length (listing cl u es)\<rparr>)"
    and "h2 p = Some x'" and "item_type x' = ty" and "item_string x' = item_string x"
    and "list_all2 (stands (env_h E) h2) us (map (\<lambda>e. snd (snd e)) es)"
    and "\<And>v. json_of (env_h E) h2 (Nd p us) = Some v \<Longrightarrow> parsed (env_h E) h p h2 us v"
proof -
  note outcome = that
  let ?H = "env_h E" and ?d = "\<lambda>q. buf\<lparr>in_depth := in_depth buf + 1, in_offset := q\<rparr>"
  define c where "c = hd (listing cl u es)"
  have c: "listing cl u es = c # tl (listing cl u es)" "32 < c" "c = cl \<longleftrightarrow> es = []"
  proof -
    have "listing cl u es \<noteq> [] \<and> 32 < c \<and> (c = cl \<longleftrightarrow> es = [])"
    proof (cases es)
      case (Cons e es')
      obtain w1 s k v where e: "e = (w1, s, k, v)" by (cases e)
      with Cons es(1,4) have s: "w1 = []" "s \<noteq> []" "32 < hd s" "hd s \<noteq> cl" by simp_all
      have "\<exists>t. listing cl u es = s @ t" using Cons e s(1) by (cases es') simp_all
      with s Cons show ?thesis by (auto simp: c_def)
    qed (use es(3) cl(1) in \<open>simp add: c_def\<close>)
    then show "listing cl u es = c # tl (listing cl u es)" "32 < c" "c = cl \<longleftrightarrow> es = []" by (simp_all add: c_def)
  qed
  have pos: "0 < length (listing cl u es)" using c(1) by (metis length_greater_0_conv list.distinct(1))
  with buf(4) have ins: "length pre + 1 + length w < in_length buf" by linarith
  define l where "l = tl (listing cl u es)"
  have bl: "content (?d (in_offset buf + 1)) = (pre @ [b0]) @ w @ c # l @ r" using buf(2) c(1) by (simp add: l_def)
  have skip: "buffer_skip_whitespace (?d (in_offset buf + 1)) = Some (?d (length pre + 1 + length w))"
    using skip_exact [OF bl _ cl(5) c(2)] buf(3) ins by simp
  have nx: "next_is (?d (length pre + 1 + length w)) P = Some (P c)" for P
    by (rule next_exact [where pre = "pre @ b0 # w" and r = "l @ r"]) (use bl ins in simp_all)
  have depth: "(?d q)\<lparr>in_depth := in_depth (?d q) - 1, in_offset := in_offset (?d q) + 1\<rparr> = buf\<lparr>in_offset := q + 1\<rparr>" for q by simp
  have fin: thesis if "chain ?H h h3 p us" "list_all2 (stands ?H h3) us (map (\<lambda>e. snd (snd e)) es)"
      "(do {
      buf2 \<leftarrow> buffer_skip_whitespace (?d (in_offset buf + 1));
      empty \<leftarrow> next_is buf2 (\<lambda>b. b = cl);
      if empty then parse_success ty h p 0 0 buf2
      else if \<not> can_access_at_index buf2 0 then parse_fail E h 0 (buf2\<lparr>in_offset := in_offset buf2 - 1\<rparr>)
      else element_loop n pe cl ty E h p 0 0 (buf2\<lparr>in_offset := in_offset buf2 - 1\<rparr>)
    }) = parse_success ty h3 p (first (map root us) 0) (final 0 (map root us)) (?d (length pre + length w + length (listing cl u es)))" for h3 us
  proof (rule success_tree [OF ty that(1) p(1,3), of "?d (length pre + length w + length (listing cl u es))"])
    fix h2
    assume h2: "parse_success ty h3 p (first (map root us) 0) (final 0 (map root us)) (?d (length pre + length w + length (listing cl u es))) =
        Some (True, h2, (?d (length pre + length w + length (listing cl u es)))\<lparr>in_depth := in_depth (?d (length pre + length w + length (listing cl u es))) - 1,
          in_offset := in_offset (?d (length pre + length w + length (listing cl u es))) + 1\<rparr>)"
      "h2 p = Some (x\<lparr>item_type := ty, chd := first (map root us) 0\<rparr>)"
      and vals: "\<And>t. t \<in> set us \<Longrightarrow> json_of ?H h2 t = json_of ?H h3 t \<and> key_at h2 (root t) = key_at h3 (root t)"
      and tree: "\<And>v. json_of ?H h2 (Nd p us) = Some v \<Longrightarrow> parsed ?H h p h2 us v"
    have "list_all2 (stands ?H h2) us (map (\<lambda>e. snd (snd e)) es)"
      by (rule list.rel_mono_strong [OF that(2)]) (use vals in \<open>simp add: stands_def\<close>)
    with h2 tree that(3) show thesis unfolding depth by (intro outcome [of h2 "x\<lparr>item_type := ty, chd := first (map root us) 0\<rparr>" us]) (simp_all add: add_ac del: json_of.simps)
  qed
  show thesis
  proof (cases "es = []")
    case True
    then show thesis using skip nx c(3) es(3) chain_Nil [of p ?H h] p(1) by (intro fin [of h "[]"]) (simp_all add: blank_def)
  next
    case False
    have l2: "\<exists>p2 b2. pre @ b0 # w = p2 @ [b2]" by (cases w rule: rev_cases) auto
    then obtain p2 b2 where p2: "pre @ b0 # w = p2 @ [b2]" by blast
    have "length p2 = length pre + length w" using arg_cong [OF p2, of length] by simp
    moreover have "content buf = (pre @ b0 # w) @ listing cl u es @ r" using buf(2) by simp
    ultimately have c2: "content (?d (length pre + length w)) = p2 @ b2 # listing cl u es @ r" "length p2 = length pre + length w"
      unfolding p2 by simp_all
    have "\<exists>h3 us. element_loop n pe cl ty E h p (first (map root []) 0) (final 0 (map root [])) (?d (length pre + length w)) =
        parse_success ty h3 p (first (map root us) 0) (final 0 (map root us)) ((?d (length pre + length w))\<lparr>in_offset := length p2 + length (listing cl u es)\<rparr>) \<and>
      chain ?H h h3 p us \<and> list_all2 (stands ?H h3) us ([] @ map (\<lambda>e. snd (snd e)) es)"
      by (rule listing_exact [OF ok p(1,2) cl(1-4) False])
        (use es(1,2) buf(1,4) c2 chain_Nil [of p ?H h] p(1) in \<open>auto simp: blank_def list_all_iff\<close>)
    then obtain h3 us where "element_loop n pe cl ty E h p 0 0 (?d (length pre + length w)) =
        parse_success ty h3 p (first (map root us) 0) (final 0 (map root us)) (?d (length pre + length w + length (listing cl u es)))"
      "chain ?H h h3 p us" "list_all2 (stands ?H h3) us (map (\<lambda>e. snd (snd e)) es)" using c2(2) by auto
    then show thesis using skip nx c(3) False ins by (intro fin [of h3 us]) (simp_all add: can_access_at_index_def)
  qed
qed

definition elements :: "u8 list \<Rightarrow> (u8 list \<times> 'a) list \<Rightarrow> (u8 list \<times> u8 list \<times> 'a) list" where
  "elements w xs = (case xs of [] \<Rightarrow> [] | x # ys \<Rightarrow> ([], x) # map (Pair w) ys)"

lemma elements_simps [simp]:
  "elements w xs = [] \<longleftrightarrow> xs = []" "length (elements w xs) = length xs" "map (\<lambda>e. snd (snd e)) (elements w xs) = map snd xs"
  "xs \<noteq> [] \<Longrightarrow> fst (hd (elements w xs)) = []"
  by (auto simp: elements_def split: list.split)

lemma elements_all: "(\<And>x. x \<in> set xs \<Longrightarrow> P ([], x) \<and> P (w, x)) \<Longrightarrow> list_all P (elements w xs)"
  by (auto simp: elements_def list_all_iff split: list.split)

lemma listing_Pair: "listing cl u (map (Pair w) (x # xs)) = w @ join (44 # w) (map fst (x # xs)) @ u @ [cl]"
proof (induction xs arbitrary: x)
  case Nil
  then show ?case by (cases x) simp
next
  case (Cons y ys)
  then show ?case by (cases x) simp
qed

lemma listing_elements: "listing cl u (elements w xs) = join (44 # w) (map fst xs) @ u @ [cl]"
proof (cases xs)
  case (Cons x ys)
  show ?thesis
  proof (cases ys)
    case Nil
    with Cons show ?thesis by (cases x) (simp add: elements_def)
  next
    case (Cons y zs)
    with \<open>xs = x # ys\<close> listing_Pair [of cl u w y zs] show ?thesis by (cases x) (simp add: elements_def)
  qed
qed (simp add: elements_def)

lemma dispatch_container:
  assumes "content buf = pre @ b # r" and "in_offset buf = length pre" and "length pre < in_length buf"
  shows "b = 91 \<Longrightarrow> parse_any n pv E strtod h p buf = parse_array n pv E h p buf"
    and "b = 123 \<Longrightarrow> parse_any n pv E strtod h p buf = parse_object n pv E h p buf"
  using literal_other [OF assms(1,2), of lit_null] literal_other [OF assms(1,2), of lit_false] literal_other [OF assms(1,2), of lit_true]
    next_exact [OF assms]
  by (simp_all add: parse_any_def lit_null_def lit_false_def lit_true_def)

lemma depth_room:
  assumes "in_depth buf + json_depth v \<le> n" and "v = JArray vs \<or> v = JObject kvs \<and> map snd kvs = vs"
  shows "in_depth buf < n" and "w \<in> set vs \<Longrightarrow> Suc (in_depth buf) + json_depth w \<le> n"
proof -
  have d: "0 < json_depth v" using assms(2) by auto
  then obtain m where m: "json_depth v = Suc m" by (cases "json_depth v") auto
  show "in_depth buf < n" using assms(1) d by linarith
  have "json_depth w \<le> m" if "w \<in> set vs"
    using assms(2)
  proof
    assume "v = JArray vs"
    with m json_depth_array [of vs m] that show ?thesis by simp
  next
    assume "v = JObject kvs \<and> map snd kvs = vs"
    with m json_depth_object [of kvs m] that show ?thesis by auto
  qed
  then show "w \<in> set vs \<Longrightarrow> Suc (in_depth buf) + json_depth w \<le> n" using assms(1) m by fastforce
qed

lemma stands_values:
  assumes "list_all2 (stands H h) us kvs"
  shows "map (json_of H h) us = map Some (map snd kvs)"
    and "(\<And>kv. kv \<in> set kvs \<Longrightarrow> fst kv \<noteq> None) \<Longrightarrow> map (\<lambda>t. key_at h (root t)) us = map fst kvs"
  using assms by (induction rule: list_all2_induct) (auto simp: stands_def)

lemma array_reads:
  assumes ok: "types_ok (env_h E)" "new_ok E" "never_full E"
    and es: "\<And>s v. (s, v) \<in> set svs \<Longrightarrow> reads E pv s None v \<and> s \<noteq> [] \<and> 32 < hd s \<and> hd s \<noteq> 93" "length svs \<le> n" and w: "blanks w"
  shows "reads E (parse_any n pv E strtod) (91 # join (44 # w) (map fst svs) @ [93]) None (JArray (map snd svs))"
proof (rule readsI)
  fix h :: items and p buf pre b r x
  let ?H = "env_h E" and ?es = "elements w (map (\<lambda>(s, v). (s, None :: u8 list option, v)) svs)" and ?vs = "map snd svs"
  have L: "91 # join (44 # w) (map fst svs) @ [93] = 91 # listing 93 [] ?es"
    by (simp add: listing_elements comp_def case_prod_beta)
  assume t: "text_ok buf" "content buf = pre @ (91 # join (44 # w) (map fst svs) @ [93]) @ b # r" "in_offset buf = length pre"
      "length pre + length (91 # join (44 # w) (map fst svs) @ [93]) < in_length buf" "number_end b"
    and p: "blank ?H h p" "p \<noteq> 0" "h p = Some x" "finite (dom h)" and d: "in_depth buf + json_depth (JArray ?vs) \<le> CJSON_NESTING_LIMIT ?H"
  note room = depth_room [where vs = ?vs and kvs = "[]", OF d]
  have c: "content buf = pre @ 91 # [] @ listing 93 [] ?es @ b # r" using t(2) L by simp
  have len: "length pre + length ([] :: u8 list) + length (listing 93 [] ?es) < in_length buf" "length pre < in_length buf" using t(4) by (simp_all add: listing_elements comp_def case_prod_beta)
  have all: "list_all (\<lambda>(w, s, k, v). reads E pv s k v \<and> blanks w \<and> s \<noteq> [] \<and> 32 < hd s \<and> hd s \<noteq> 93 \<and>
      Suc (in_depth buf) + json_depth v \<le> CJSON_NESTING_LIMIT ?H) ?es"
    by (rule elements_all) (use es(1) w room(2) in force)
  have ref: "cJSON_Array ?H AND cJSON_IsReference ?H = 0" by (simp add: types_simps [OF ok(1)])
  have side: "(32 :: u8) < 93" "(93 :: u8) \<noteq> 44" "number_end 93" "blanks []" "length ?es \<le> n" "?es \<noteq> [] \<Longrightarrow> fst (hd ?es) = []"
    using es(2) by (simp_all add: number_end_def number_byte_def)
  obtain h2 us x' where r: "(do {
      buf2 \<leftarrow> buffer_skip_whitespace (buf\<lparr>in_depth := in_depth buf + 1, in_offset := in_offset buf + 1\<rparr>);
      empty \<leftarrow> next_is buf2 (\<lambda>b. b = 93);
      if empty then parse_success (cJSON_Array ?H) h p 0 0 buf2
      else if \<not> can_access_at_index buf2 0 then parse_fail E h 0 (buf2\<lparr>in_offset := in_offset buf2 - 1\<rparr>)
      else element_loop n pv 93 (cJSON_Array ?H) E h p 0 0 (buf2\<lparr>in_offset := in_offset buf2 - 1\<rparr>)
    }) = Some (True, h2, buf\<lparr>in_offset := length pre + 1 + length ([] :: u8 list) + length (listing 93 [] ?es)\<rparr>)"
    "h2 p = Some x'" "item_type x' = cJSON_Array ?H" "item_string x' = item_string x" "list_all2 (stands ?H h2) us (map (\<lambda>e. snd (snd e)) ?es)"
    and tree: "\<And>v. json_of ?H h2 (Nd p us) = Some v \<Longrightarrow> parsed ?H h p h2 us v"
    by (rule container_exact [where pe = pv and es = ?es, OF ok(2,3) p(1,4,3) ref side(1-3,4,4) all side(5) refl side(6) t(1) c t(3) len(1)]) blast+
  have "map (json_of ?H h2) us = map Some ?vs" using stands_values(1) [OF r(5)] by (simp add: comp_def case_prod_beta)
  then have "json_of ?H h2 (Nd p us) = Some (JArray ?vs)" using r(2,3) by (simp add: types_simps [OF ok(1)] those_Some)
  moreover have "parse_any n pv E strtod h p buf = Some (True, h2, buf\<lparr>in_offset := length pre + length (91 # join (44 # w) (map fst svs) @ [93])\<rparr>)"
  proof -
    have "parse_any n pv E strtod h p buf = parse_array n pv E h p buf" by (rule dispatch_container(1) [OF c t(3) len(2) refl])
    also have "\<dots> = Some (True, h2, buf\<lparr>in_offset := length pre + 1 + length (listing 93 [] ?es)\<rparr>)"
      using r(1) room(1) t(3) c by (simp add: parse_array_def array_loop_element cong: if_cong)
    finally show ?thesis unfolding L by simp
  qed
  moreover have "key_at h2 p = key_at h p" using r(2,4) p(3) by (simp add: key_at_def)
  ultimately show "\<exists>h' ts. parse_any n pv E strtod h p buf = Some (True, h', buf\<lparr>in_offset := length pre + length (91 # join (44 # w) (map fst svs) @ [93])\<rparr>) \<and>
      parsed ?H h p h' ts (JArray ?vs) \<and> key_at h' p = (case None of None \<Rightarrow> key_at h p | Some _ \<Rightarrow> None)"
    using tree by auto
qed

text \<open>Members: the name, a colon, blanks, the value.\<close>

lemma parsed_upd:
  assumes "parsed H (h(p \<mapsto> y)) p h' ts v" and "h p = Some x" and "nxt y = nxt x" and "prv y = prv x"
  shows "parsed H h p h' ts v"
proof -
  note P = assms(1) [unfolded parsed_def]
  have "links_kept h h' p" using P assms(2-4) by (auto simp: links_kept_def split: option.splits)
  moreover have "set (forest_addrs ts) \<inter> dom h = {}" using P assms(2) by (simp only: dom_fun_upd) auto
  moreover have "\<forall>y. y \<notin> set (addrs (Nd p ts)) \<longrightarrow> h' y = h y" using P by auto
  ultimately show ?thesis using P unfolding parsed_def by blast
qed

lemma member_reads:
  assumes ty: "types_ok (env_h E)" and ok: "hooks_ok (env_hooks E)" "unlimited (env_hooks E)" and k: "0 \<notin> set k"
    and rd: "reads E pv s None v" "s \<noteq> []" "32 < hd s" and w: "blanks w"
  shows "reads E (parse_member pv E) (json_quote k @ 58 # w @ s) (Some k) v"
proof (rule readsI)
  fix h :: items and p buf pre b r x
  let ?H = "env_h E" and ?q = "json_quote k"
  assume t: "text_ok buf" "content buf = pre @ (?q @ 58 # w @ s) @ b # r" "in_offset buf = length pre"
      "length pre + length (?q @ 58 # w @ s) < in_length buf" "number_end b"
    and p: "blank ?H h p" "p \<noteq> 0" "h p = Some x" "finite (dom h)" and d: "in_depth buf + json_depth v \<le> CJSON_NESTING_LIMIT ?H"
  have c: "content buf = pre @ ?q @ 58 # w @ s @ b # r" "length pre + length ?q \<le> in_length buf" using t(2,4) by simp_all
  obtain blk where blk: "parse_string_at E h p buf = Some (True, h(p \<mapsto> x\<lparr>item_type := cJSON_String ?H, valuestring := Some blk\<rparr>),
      buf\<lparr>in_offset := length pre + length ?q\<rparr>)" "c_text blk = Some k"
    using quoted_at [where h = h and p = p and x = x, OF ok k t(1) c(1) t(3) c(2) p(2,3)] .
  let ?x = "x\<lparr>item_type := cJSON_String ?H, item_string := Some blk, valuestring := None\<rparr>"
  let ?h = "h(p \<mapsto> ?x)" and ?b1 = "buf\<lparr>in_offset := length pre + length ?q\<rparr>" and ?b3 = "buf\<lparr>in_offset := length pre + length ?q + 1 + length w\<rparr>"
  have c1: "content ?b1 = (pre @ ?q) @ [] @ 58 # w @ s @ b # r" using c by simp
  have "(32 :: u8) < 58" by simp
  from skip_exact [OF c1 _ _ this] have s1: "buffer_skip_whitespace ?b1 = Some ?b1" using t(4) by simp
  have n1: "next_is ?b1 P = Some (P 58)" for P
    by (rule next_exact [where pre = "pre @ ?q" and r = "w @ s @ b # r"]) (use c t(4) in simp_all)
  have c2: "content (?b1\<lparr>in_offset := in_offset ?b1 + 1\<rparr>) = (pre @ ?q @ [58]) @ w @ hd s # tl s @ b # r" using c rd(2) by simp
  have s2: "buffer_skip_whitespace (?b1\<lparr>in_offset := in_offset ?b1 + 1\<rparr>) = Some ?b3" using skip_exact [OF c2 _ w rd(3)] t(4) by simp
  have "take_name (h(p \<mapsto> x\<lparr>item_type := cJSON_String ?H, valuestring := Some blk\<rparr>)) p = Some ?h"
    using p(2) by (simp add: take_name_def jset_def jget_def)
  then have e: "parse_member pv E h p buf = pv ?h p ?b3" using blk(1) s1 n1 s2 by (simp add: parse_member_def)
  have c3: "content ?b3 = (pre @ ?q @ 58 # w) @ s @ b # r" "in_offset ?b3 = length (pre @ ?q @ 58 # w)"
    "length (pre @ ?q @ 58 # w) + length s < in_length ?b3" "text_ok ?b3" "in_depth ?b3 + json_depth v \<le> CJSON_NESTING_LIMIT ?H" "finite (dom ?h)"
    using c t d p(4) by simp_all
  have bl: "blank ?H ?h p" using p(1-3) by (simp add: blank_def types_simps [OF ty])
  obtain h' ts where h': "pv ?h p ?b3 = Some (True, h', ?b3\<lparr>in_offset := length (pre @ ?q @ 58 # w) + length s\<rparr>)" "parsed ?H ?h p h' ts v"
    "key_at h' p = key_at ?h p"
    by (rule readsD [OF rd(1) c3(4,1,2,3) t(5) bl c3(6,5)]) simp
  have "key_at h' p = Some k" using h'(3) blk(2) by (simp add: key_at_def)
  moreover have "parsed ?H h p h' ts v" by (rule parsed_upd [OF h'(2) p(3)]) simp_all
  ultimately show "\<exists>h' ts. parse_member pv E h p buf = Some (True, h', buf\<lparr>in_offset := length pre + length (?q @ 58 # w @ s)\<rparr>) \<and>
      parsed ?H h p h' ts v \<and> key_at h' p = (case Some k of None \<Rightarrow> key_at h p | Some _ \<Rightarrow> Some k)"
    unfolding e h'(1) by (auto simp: add_ac)
qed

lemma object_reads:
  assumes ok: "types_ok (env_h E)" "new_ok E" "never_full E"
    and es: "\<And>s k v. (s, k, v) \<in> set ms \<Longrightarrow> reads E (parse_member pv E) s (Some k) v \<and> s \<noteq> [] \<and> hd s = 34" "length ms \<le> n"
    and w: "blanks w0" "blanks w" "blanks u" "ms = [] \<Longrightarrow> u = []"
  shows "reads E (parse_any n pv E strtod) (123 # w0 @ join (44 # w) (map fst ms) @ u @ [125]) None (JObject (map snd ms))"
proof (rule readsI)
  fix h :: items and p buf pre b r x
  let ?H = "env_h E" and ?es = "elements w (map (\<lambda>(s, k, v). (s, Some k, v)) ms)" and ?kvs = "map snd ms"
  let ?t = "123 # w0 @ join (44 # w) (map fst ms) @ u @ [125]"
  have L: "?t = 123 # w0 @ listing 125 u ?es" by (simp add: listing_elements comp_def case_prod_beta)
  assume t: "text_ok buf" "content buf = pre @ ?t @ b # r" "in_offset buf = length pre"
      "length pre + length ?t < in_length buf" "number_end b"
    and p: "blank ?H h p" "p \<noteq> 0" "h p = Some x" "finite (dom h)" and d: "in_depth buf + json_depth (JObject ?kvs) \<le> CJSON_NESTING_LIMIT ?H"
  note room = depth_room [where vs = "map snd ?kvs" and kvs = ?kvs, OF d]
  have c: "content buf = pre @ 123 # w0 @ listing 125 u ?es @ b # r" using t(2) L by simp
  have len: "length pre + length w0 + length (listing 125 u ?es) < in_length buf" "length pre < in_length buf"
    using t(4) by (simp_all add: listing_elements comp_def case_prod_beta)
  have all: "list_all (\<lambda>(w, s, k, v). reads E (parse_member pv E) s k v \<and> blanks w \<and> s \<noteq> [] \<and> 32 < hd s \<and> hd s \<noteq> 125 \<and>
      Suc (in_depth buf) + json_depth v \<le> CJSON_NESTING_LIMIT ?H) ?es"
    by (rule elements_all) (use es(1) w room(2) in force)
  have ref: "cJSON_Object ?H AND cJSON_IsReference ?H = 0" by (simp add: types_simps [OF ok(1)])
  have side: "(32 :: u8) < 125" "(125 :: u8) \<noteq> 44" "number_end 125" "length ?es \<le> n" "?es = [] \<Longrightarrow> u = []" "?es \<noteq> [] \<Longrightarrow> fst (hd ?es) = []"
    using es(2) w(4) by (simp_all add: number_end_def number_byte_def)
  obtain h2 us x' where r: "(do {
      buf2 \<leftarrow> buffer_skip_whitespace (buf\<lparr>in_depth := in_depth buf + 1, in_offset := in_offset buf + 1\<rparr>);
      empty \<leftarrow> next_is buf2 (\<lambda>b. b = 125);
      if empty then parse_success (cJSON_Object ?H) h p 0 0 buf2
      else if \<not> can_access_at_index buf2 0 then parse_fail E h 0 (buf2\<lparr>in_offset := in_offset buf2 - 1\<rparr>)
      else element_loop n (parse_member pv E) 125 (cJSON_Object ?H) E h p 0 0 (buf2\<lparr>in_offset := in_offset buf2 - 1\<rparr>)
    }) = Some (True, h2, buf\<lparr>in_offset := length pre + 1 + length w0 + length (listing 125 u ?es)\<rparr>)"
    "h2 p = Some x'" "item_type x' = cJSON_Object ?H" "item_string x' = item_string x" "list_all2 (stands ?H h2) us (map (\<lambda>e. snd (snd e)) ?es)"
    and tree: "\<And>v. json_of ?H h2 (Nd p us) = Some v \<Longrightarrow> parsed ?H h p h2 us v"
    by (rule container_exact [where pe = "parse_member pv E" and es = ?es, OF ok(2,3) p(1,4,3) ref side(1-3) w(3,1) all side(4-6) t(1) c t(3) len(1)]) blast+
  have keys: "fst kv \<noteq> None" if "kv \<in> set (map (\<lambda>e. snd (snd e)) ?es)" for kv using that unfolding elements_simps by auto
  have "map (json_of ?H h2) us = map Some (map snd ?kvs)" "map (\<lambda>t. key_at h2 (root t)) us = map Some (map fst ?kvs)"
    using stands_values(1) [OF r(5)] stands_values(2) [OF r(5) keys] by (simp_all add: comp_def case_prod_beta)
  then have "json_of ?H h2 (Nd p us) = Some (JObject (zip (map fst ?kvs) (map snd ?kvs)))"
    unfolding those_Some [symmetric] using r(2,3) by (simp add: types_simps [OF ok(1)])
  then have v: "json_of ?H h2 (Nd p us) = Some (JObject ?kvs)" by (simp only: zip_map_fst_snd)
  have e: "parse_any n pv E strtod h p buf = Some (True, h2, buf\<lparr>in_offset := length pre + length ?t\<rparr>)"
  proof -
    have nx: "next_is (buf\<lparr>in_depth := in_depth buf + 1\<rparr>) P = Some (P 123)" for P
      by (rule next_exact [where pre = pre]) (use c t(3) len in simp_all)
    have "parse_any n pv E strtod h p buf = parse_object n pv E h p buf" by (rule dispatch_container(2) [OF c t(3) len(2) refl])
    also have "\<dots> = Some (True, h2, buf\<lparr>in_offset := length pre + 1 + length w0 + length (listing 125 u ?es)\<rparr>)"
      using r(1) room(1) nx by (simp add: parse_object_def object_loop_element cong: if_cong)
    finally show ?thesis unfolding L by simp
  qed
  have "key_at h2 p = key_at h p" using r(2,4) p(3) by (simp add: key_at_def)
  with e tree [OF v] show "\<exists>h' ts. parse_any n pv E strtod h p buf = Some (True, h', buf\<lparr>in_offset := length pre + length ?t\<rparr>) \<and>
      parsed ?H h p h' ts (JObject ?kvs) \<and> key_at h' p = (case None of None \<Rightarrow> key_at h p | Some _ \<Rightarrow> None)" by auto
qed

section \<open>Any value\<close>

text \<open>The values that can be read back: every number is, and no string has a zero byte inside.\<close>

fun readable :: "fp_ops \<Rightarrow> strtod \<Rightarrow> json \<Rightarrow> bool" where
  "readable F strtod (JNumber d) = number_ok F strtod d"
| "readable F strtod (JString s) = (0 \<notin> set s)"
| "readable F strtod (JArray vs) = list_all (readable F strtod) vs"
| "readable F strtod (JObject kvs) = list_all (\<lambda>kv. 0 \<notin> set (fst kv) \<and> readable F strtod (snd kv)) kvs"
| "readable F strtod v = True"

lemma text_begins:
  assumes "readable F strtod v"
  shows "json_text F fmt d v \<noteq> []" "32 < hd (json_text F fmt d v)" "hd (json_text F fmt d v) < 128" "hd (json_text F fmt d v) \<noteq> 93"
proof -
  have "json_text F fmt d v \<noteq> [] \<and> 32 < hd (json_text F fmt d v) \<and> hd (json_text F fmt d v) < 128 \<and> hd (json_text F fmt d v) \<noteq> 93"
  proof (cases v)
    case (JNumber x)
    with assms obtain s where s: "number_text F x = Some s" "s \<noteq> []" "hd s = 45 \<or> 48 \<le> hd s \<and> hd s \<le> 57"
      by (auto simp: number_ok_def split: option.splits)
    have "32 < hd s \<and> hd s < 128 \<and> hd s \<noteq> 93" using s(3)
    proof
      assume b: "48 \<le> hd s \<and> hd s \<le> 57"
      then have "32 < hd s" "hd s < 128" "hd s < 93" by (auto intro: less_le_trans [of _ 48] le_less_trans [of _ 57])
      then show ?thesis by auto
    qed simp
    with s JNumber show ?thesis by simp
  qed (simp_all add: lit_null_def lit_false_def lit_true_def json_quote_def)
  then show "json_text F fmt d v \<noteq> []" "32 < hd (json_text F fmt d v)" "hd (json_text F fmt d v) < 128" "hd (json_text F fmt d v) \<noteq> 93" by simp_all
qed

lemma join_lengths: "x \<in> set xs \<Longrightarrow> length x \<le> length (join sep xs)" "length xs \<le> length (join (a # sep) xs) + 1"
proof -
  show "x \<in> set xs \<Longrightarrow> length x \<le> length (join sep xs)" by (induction sep xs rule: join.induct) auto
  have "b = a # sep \<Longrightarrow> length xs \<le> length (join b xs) + 1" for b by (induction b xs rule: join.induct) auto
  then show "length xs \<le> length (join (a # sep) xs) + 1" by simp
qed

lemma join_prefix: "xs \<noteq> [] \<Longrightarrow> join sep (map (\<lambda>x. a @ f x) xs) = a @ join (sep @ a) (map f xs)"
proof (induction xs rule: list_nonempty_induct)
  case (cons x xs)
  then show ?case by (cases xs) simp_all
qed simp

text \<open>The text of a member without the indentation, and the text of an object in these terms.\<close>

definition member_body :: "fp_ops \<Rightarrow> bool \<Rightarrow> nat \<Rightarrow> u8 list \<times> json \<Rightarrow> u8 list" where
  "member_body F fmt d kv = json_quote (fst kv) @ 58 # (if fmt then [9] else []) @ json_text F fmt d (snd kv)"

lemma object_text:
  obtains w0 w u where "json_text F fmt d (JObject kvs) = 123 # w0 @ join (44 # w) (map (member_body F fmt (Suc d)) kvs) @ u @ [125]"
    and "blanks w0" and "blanks w" and "blanks u" and "kvs = [] \<Longrightarrow> u = []"
proof (cases "fmt \<and> kvs \<noteq> []")
  case True
  let ?w = "10 # tabs (Suc d)"
  have "member_text True (Suc d) (fst kv) (json_text F True (Suc d) (snd kv)) = tabs (Suc d) @ member_body F True (Suc d) kv" for kv
    by (simp add: member_text_def member_body_def)
  then have "json_text F fmt d (JObject kvs) = 123 # ?w @ join (44 # ?w) (map (member_body F fmt (Suc d)) kvs) @ (10 # tabs d) @ [125]"
    using True join_prefix [of kvs "[44, 10]" "tabs (Suc d)" "member_body F True (Suc d)"] by simp
  then show thesis by (rule that) (use True in \<open>simp_all add: tabs_def list_all_iff\<close>)
next
  case False
  let ?w = "if fmt then 10 # tabs d else []"
  have "json_text F fmt d (JObject kvs) = 123 # ?w @ join (44 # []) (map (member_body F fmt (Suc d)) kvs) @ [] @ [125]"
    using False by (auto simp: member_text_def member_body_def [abs_def])
  then show thesis by (rule that) (auto simp: tabs_def list_all_iff)
qed

lemma value_reads:
  assumes ok: "types_ok (env_h E)" "new_ok E" "never_full E" "hooks_ok (env_hooks E)" "unlimited (env_hooks E)"
  shows "readable F strtod v \<Longrightarrow> length (json_text F fmt d v) < n \<Longrightarrow> reads E (parse_value n E strtod) (json_text F fmt d v) None v"
proof (induction n arbitrary: v d)
  case (Suc n)
  have pv: "parse_value (Suc n) E strtod = parse_any n (parse_value n E strtod) E strtod" by (intro ext) simp
  show ?case
    unfolding pv
  proof (cases v)
    case (JNumber x)
    with Suc.prems number_reads [OF ok(1)] show "reads E (parse_any n (parse_value n E strtod) E strtod) (json_text F fmt d v) None v" by simp
  next
    case (JString s)
    with Suc.prems string_reads [OF ok(1,4,5)] show "reads E (parse_any n (parse_value n E strtod) E strtod) (json_text F fmt d v) None v" by simp
  next
    case (JArray vs)
    let ?t = "json_text F fmt (Suc d)" and ?w = "if fmt then [32] else []"
    let ?svs = "map (\<lambda>v. (?t v, v)) vs"
    have tx: "json_text F fmt d v = 91 # join (44 # ?w) (map fst ?svs) @ [93]" "JArray (map snd ?svs) = v" using JArray by (simp_all add: comp_def)
    have n: "length (join (44 # ?w) (map fst ?svs)) + 2 \<le> n" using Suc.prems(2) unfolding tx(1) by simp
    have "reads E (parse_any n (parse_value n E strtod) E strtod) (91 # join (44 # ?w) (map fst ?svs) @ [93]) None (JArray (map snd ?svs))"
    proof (rule array_reads [OF ok(1-3)])
      show "reads E (parse_value n E strtod) s None u \<and> s \<noteq> [] \<and> 32 < hd s \<and> hd s \<noteq> 93" if "(s, u) \<in> set ?svs" for s u
      proof -
        have u: "s = ?t u" "readable F strtod u" using that Suc.prems(1) JArray by (auto simp: list_all_iff)
        moreover have "length s < n" using join_lengths(1) [of s "map fst ?svs" "44 # ?w"] that n by force
        ultimately show ?thesis using Suc.IH [of u "Suc d"] text_begins [of F strtod u fmt "Suc d"] by simp
      qed
      show "length ?svs \<le> n" using join_lengths(2) [of "map fst ?svs" 44 ?w] n by simp
    qed simp
    then show "reads E (parse_any n (parse_value n E strtod) E strtod) (json_text F fmt d v) None v" unfolding tx .
  next
    case (JObject kvs)
    obtain w0 w u where tx: "json_text F fmt d v = 123 # w0 @ join (44 # w) (map (member_body F fmt (Suc d)) kvs) @ u @ [125]"
      and w: "blanks w0" "blanks w" "blanks u" "kvs = [] \<Longrightarrow> u = []" using object_text JObject by metis
    let ?ms = "map (\<lambda>kv. (member_body F fmt (Suc d) kv, kv)) kvs"
    have n: "length (join (44 # w) (map fst ?ms)) + 2 \<le> n" using Suc.prems(2) unfolding tx by (simp add: comp_def)
    have "reads E (parse_any n (parse_value n E strtod) E strtod) (123 # w0 @ join (44 # w) (map fst ?ms) @ u @ [125]) None (JObject (map snd ?ms))"
    proof (rule object_reads [OF ok(1-3) _ _ w(1-3)])
      show "reads E (parse_member (parse_value n E strtod) E) s (Some k) x \<and> s \<noteq> [] \<and> hd s = 34" if "(s, k, x) \<in> set ?ms" for s k x
      proof -
        have x: "s = json_quote k @ 58 # (if fmt then [9] else []) @ json_text F fmt (Suc d) x" "readable F strtod x" "0 \<notin> set k"
          using that Suc.prems(1) JObject by (auto simp: list_all_iff member_body_def)
        moreover have "length s \<le> length (join (44 # w) (map fst ?ms))" using join_lengths(1) [of s "map fst ?ms" "44 # w"] that by force
        then have "length (json_text F fmt (Suc d) x) < n" using n x(1) by simp
        ultimately show ?thesis
          using member_reads [OF ok(1,4,5) x(3) Suc.IH [of x "Suc d"], of "if fmt then [9] else []"] text_begins [of F strtod x fmt "Suc d"]
          by (simp add: json_quote_def)
      qed
      show "length ?ms \<le> n" using join_lengths(2) [of "map fst ?ms" 44 w] n by simp
    qed (use w(4) in simp)
    then show "reads E (parse_any n (parse_value n E strtod) E strtod) (json_text F fmt d v) None v" unfolding tx using JObject by (simp add: comp_def)
  qed (simp_all add: literals_read [OF ok(1)])
qed simp

section \<open>Whole documents\<close>

lemma parsed_succeeded:
  assumes p: "p \<noteq> 0" "h p = None" and P: "parsed H (h(p \<mapsto> null_item)) p h2 ts v"
  shows "parse_succeeded H h \<lparr>parsed_item = p, parsed_heap = h2, global_error = None, parse_end = e\<rparr> (Nd p ts) v"
proof -
  note P = P [unfolded parsed_def]
  have x: "nxt x = 0 \<and> prv x = 0" if "h2 p = Some x" for x using P that by (auto simp: links_kept_def null_item_def split: option.splits)
  have "set (forest_addrs ts) \<inter> dom (h(p \<mapsto> null_item)) = {}" using P by blast
  then have "set (forest_addrs ts) \<inter> dom h = {}" by (simp only: dom_fun_upd) auto
  with p(2) have "set (addrs (Nd p ts)) \<inter> dom h = {}" by auto
  moreover have "h2 y = h y" if "y \<notin> set (addrs (Nd p ts))" for y using P that by auto
  ultimately show ?thesis unfolding parse_succeeded_def using P x p(1) by (simp del: json_of.simps own.simps addrs.simps)
qed

lemma parse_text:
  assumes ok: "types_ok (env_h E)" "new_ok E" "never_full E" and fin: "finite (dom h)" and dp: "json_depth v \<le> CJSON_NESTING_LIMIT (env_h E)"
    and rd: "\<And>n. length s < n \<Longrightarrow> reads E (parse_value n E strtod) s None v"
    and s: "s \<noteq> []" "32 < hd s" "hd s < 128" "0 \<notin> set s"
  shows "\<exists>r t. cJSON_ParseWithOpts E strtod h err (Some (s @ [0])) want_end z = Some r \<and> parse_succeeded (env_h E) h r t v"
proof -
  let ?buf = "\<lparr>content = s @ [0], in_length = length s + 1, in_offset = 0, in_depth = 0\<rparr>" and ?stop = "\<lparr>content = s @ [0], in_length = length s + 1, in_offset = length s, in_depth = 0\<rparr>"
  obtain p where p: "cJSON_New_Item E h = (p, h(p \<mapsto> null_item))" "p \<noteq> 0" "h p = None"
    using ok fin by (cases rule: new_item_cases [OF ok(2), of h]) (auto simp: never_full_def cJSON_New_Item_def Let_def split: if_splits)
  have bl: "blank (env_h E) (h(p \<mapsto> null_item)) p" using blank_new [OF p(2), of "h(p \<mapsto> null_item)" 0] by (simp add: null_item_def)
  have c: "content ?buf = [] @ [] @ hd s # tl s @ [0]" using s(1) by simp
  have "hd s \<noteq> 0xEF" using s(3) by auto
  then have bom: "skip_utf8_bom ?buf = Some (Some ?buf)" using s(1) by (cases s) (simp_all add: skip_utf8_bom_def byte_at_def)
  have skip: "buffer_skip_whitespace ?buf = Some ?buf" using skip_exact [OF c _ _ s(2)] by simp
  have tb: "text_ok ?buf" by (auto simp: text_ok_def nth_append split: if_splits)
  have n: "reads E (parse_value (length s + 1 + 1) E strtod) s None v" by (rule rd) simp
  have side: "content ?buf = [] @ s @ 0 # []" "in_offset ?buf = length []" "length [] + length s < in_length ?buf" "number_end 0"
    by (simp_all add: number_end_def number_byte_def)
  obtain h2 ts where h2: "parse_value (length s + 1 + 1) E strtod (h(p \<mapsto> null_item)) p ?buf = Some (True, h2, ?stop)"
    "parsed (env_h E) (h(p \<mapsto> null_item)) p h2 ts v"
    by (rule readsD [OF n tb side bl]) (use fin dp in simp_all)
  have "buffer_skip_whitespace ?stop = Some ?stop"
    by (simp add: buffer_skip_whitespace_def can_access_at_index_def whitespace_loop.simps)
  moreover have "next_is ?stop (\<lambda>b. b = 0) = Some True" by (simp add: next_is_def can_access_at_index_def)
  moreover have "strlen_at (s @ [0]) 0 = Some (length s)" using strlen_spec [OF s(4)] by simp
  ultimately have "cJSON_ParseWithOpts E strtod h err (Some (s @ [0])) want_end z =
      Some \<lparr>parsed_item = p, parsed_heap = h2, global_error = None, parse_end = (if want_end then Some (length s) else None)\<rparr>"
    using p(1,2) bom skip h2(1) by (simp add: cJSON_ParseWithOpts_def cJSON_ParseWithLengthOpts_def)
  with parsed_succeeded [OF p(2,3) h2(2)] show ?thesis by blast
qed

lemma readable_zero_free: "readable F strtod v \<Longrightarrow> zero_free v"
  by (induction v) (auto simp: list_all_iff)

text \<open>
  C34. The round trip of whole documents. A well-formed tree is printed, formatted or not, and the
  printed text is parsed: both succeed when memory does not run out, and the tree that is built stands
  for the same JSON value. The strings may hold any bytes but zero; the numbers have to be those that
  \<open>strtod\<close> reads back from their printed text, and the nesting is within the limit of the parser.
\<close>

theorem print_parse_roundtrip:
  assumes "types_ok (env_h E)" and "new_ok E" and "never_full E" and "hooks_ok (env_hooks E)" and "unlimited (env_hooks E)" and "fp_ok F"
    and "own (env_h E) h t" and "json_of (env_h E) h t = Some v" and "length (addrs t) < n" and "length (json_text F fmt 0 v) + 3 \<le> MAX_SIZE"
    and "readable F strtod v" and "json_depth v \<le> CJSON_NESTING_LIMIT (env_h E)" and "finite (dom h1)"
  shows "\<exists>blk r t1. print n E F h (root t) fmt = Some (Some blk) \<and>
    cJSON_ParseWithOpts E strtod h1 err (Some blk) want_end require_null_terminated = Some r \<and> parse_succeeded (env_h E) h1 r t1 v"
proof -
  have "print n E F h (root t) fmt = Some (Some (json_text F fmt 0 v @ [0]))"
    using print_block [OF assms(1,4,6,7,8,9)] assms(5,10) by blast
  moreover have "\<exists>r t1. cJSON_ParseWithOpts E strtod h1 err (Some (json_text F fmt 0 v @ [0])) want_end require_null_terminated = Some r \<and>
      parse_succeeded (env_h E) h1 r t1 v"
    by (rule parse_text [OF assms(1-3,13,12) value_reads [OF assms(1-5,11)] text_begins(1-3) [OF assms(11)] text_no_zero [OF assms(6) readable_zero_free [OF assms(11)]]])
  ultimately show ?thesis by blast
qed

text \<open>An environment whose memory never ends, for the witness: the first free address, if there is one.\<close>

definition first_free :: "items \<Rightarrow> nat" where
  "first_free h = (if \<exists>p. p \<noteq> 0 \<and> h p = None then LEAST p. p \<noteq> 0 \<and> h p = None else 0)"

definition endless_env :: cjson_env where
  "endless_env = demo_env\<lparr>env_new := first_free\<rparr>"

lemma first_free_None:
  assumes "first_free h \<noteq> 0"
  shows "h (first_free h) = None"
proof -
  have ex: "\<exists>p. p \<noteq> 0 \<and> h p = None" using assms unfolding first_free_def by presburger
  then have "first_free h = (LEAST p. p \<noteq> 0 \<and> h p = None)" by (simp only: first_free_def if_True)
  with LeastI_ex [OF ex] show ?thesis by simp
qed

lemma first_free_finite:
  assumes "finite (dom h)"
  shows "first_free h \<noteq> 0"
proof -
  obtain q where "q \<notin> insert 0 (dom h)" using ex_new_if_finite [OF infinite_UNIV_nat, of "insert 0 (dom h)"] assms by auto
  then have "\<exists>p. p \<noteq> 0 \<and> h p = None" by auto
  with LeastI_ex [OF this] show ?thesis by (simp add: first_free_def)
qed

lemma endless_env_ok: "new_ok endless_env" "never_full endless_env" "types_ok (env_h endless_env)" "hooks_ok (env_hooks endless_env)"
    "unlimited (env_hooks endless_env)" "env_h endless_env = demo_h"
proof -
  show "new_ok endless_env" using first_free_None by (simp add: new_ok_def endless_env_def)
  show "never_full endless_env" using first_free_finite by (simp add: never_full_def endless_env_def)
  show "unlimited (env_hooks endless_env)" by (simp add: unlimited_def endless_env_def demo_env_def demo_hooks_def)
qed (simp_all add: endless_env_def demo_env_def)

theorem print_parse_roundtrip_witness:
  "\<exists>blk r t1. print 5 endless_env demo_fp demo_doc (root demo_tree) True = Some (Some blk) \<and>
    cJSON_ParseWithOpts endless_env demo_strtod demo_doc None (Some blk) True True = Some r \<and>
    parse_succeeded (env_h endless_env) demo_doc r t1 demo_json"
proof (rule print_parse_roundtrip)
  have "length (json_text demo_fp True 0 demo_json) \<le> 100" by code_simp
  then show "length (json_text demo_fp True 0 demo_json) + 3 \<le> MAX_SIZE" by (simp add: MAX_SIZE_def)
  show "readable demo_fp demo_strtod demo_json" by (simp add: demo_json_def)
  show "json_depth demo_json \<le> CJSON_NESTING_LIMIT (env_h endless_env)"
    unfolding endless_env_ok(6) by (simp add: demo_json_def demo_h_def)
  show "finite (dom demo_doc)" by (simp add: demo_doc_def)
  show "own (env_h endless_env) demo_doc demo_tree" "json_of (env_h endless_env) demo_doc demo_tree = Some demo_json"
    unfolding endless_env_ok(6) by (rule demo_doc_ok)+
  show "length (addrs demo_tree) < 5" by (simp add: demo_tree_def)
qed (rule endless_env_ok demo_fp_ok)+

end
