(* ===== verification/Cjson_Copy.thy ===== *)
theory Cjson_Copy
  imports Cjson_Roundtrip
begin

text \<open>
  \<open>cJSON_Duplicate\<close> and the constructors of arrays of \<open>src/cJSON/demo1/cJSON.c\<close>: both build a tree of new
  items child by child. The tree under construction is a well-formed tree at every moment
  (\<open>building\<close>), so that it can be released when memory runs out.

  The first argument of \<open>cJSON_Duplicate\<close> bounds the depth of the recursion and the number of children;
  the number of items of the tree and one more is always enough.
\<close>

unbundle bit_operations_syntax

section \<open>Duplication\<close>

text \<open>A child behind the last one, or the first child of its parent.\<close>

definition link_child :: "items \<Rightarrow> nat \<Rightarrow> nat \<Rightarrow> nat \<Rightarrow> items option" where
  "link_child h parent prev child =
     (if prev \<noteq> 0 then suffix_object h prev child else jset h parent (\<lambda>x. x\<lparr>chd := child\<rparr>))"

definition duplicate_fail :: "cjson_env \<Rightarrow> items \<Rightarrow> nat \<Rightarrow> (nat \<times> items) option" where
  "duplicate_fail E h newitem = do { h1 \<leftarrow> cJSON_Delete E h newitem; Some (0, h1) }"

text \<open>The texts of the item \<open>x\<close>: the value is copied, the name is copied unless it is constant.\<close>

definition copy_text :: "cjson_env \<Rightarrow> bool \<Rightarrow> u8 list option \<Rightarrow> (bool \<times> u8 list option) option" where
  "copy_text E shared str =
     (case str of None \<Rightarrow> Some (True, None)
      | Some s \<Rightarrow> if shared then Some (True, Some s) else do { r \<leftarrow> cJSON_strdup (env_hooks E) (Some s); Some (r \<noteq> None, r) })"

definition copy_texts :: "cjson_env \<Rightarrow> items \<Rightarrow> nat \<Rightarrow> item \<Rightarrow> (bool \<times> items) option" where
  "copy_texts E h newitem x = do {
     (ok, v) \<leftarrow> copy_text E False (valuestring x);
     h1 \<leftarrow> jset h newitem (\<lambda>y. y\<lparr>valuestring := v\<rparr>);
     if \<not> ok then Some (False, h1)
     else do {
       (ok1, k) \<leftarrow> copy_text E (item_type x AND cJSON_StringIsConst (env_h E) \<noteq> 0) (item_string x);
       h2 \<leftarrow> jset h1 newitem (\<lambda>y. y\<lparr>item_string := k\<rparr>);
       Some (ok1, h2)
     }
   }"

fun duplicate_loop ::
  "nat \<Rightarrow> (items \<Rightarrow> nat \<Rightarrow> (nat \<times> items) option) \<Rightarrow> items \<Rightarrow> nat \<Rightarrow> nat \<Rightarrow> nat \<Rightarrow> (bool \<times> items) option" where
  "duplicate_loop 0 dup h newitem prev child = None"
| "duplicate_loop (Suc n) dup h newitem prev child =
     (if child = 0 then Some (True, h)
      else do {
        (newchild, h1) \<leftarrow> dup h child;
        if newchild = 0 then Some (False, h1)
        else do {
          h2 \<leftarrow> link_child h1 newitem prev newchild;
          x \<leftarrow> jget h2 child;
          duplicate_loop n dup h2 newitem newchild (nxt x)
        }
      })"

fun cJSON_Duplicate :: "nat \<Rightarrow> cjson_env \<Rightarrow> items \<Rightarrow> nat \<Rightarrow> bool \<Rightarrow> (nat \<times> items) option" where
  "cJSON_Duplicate 0 E h p recurse = None"
| "cJSON_Duplicate (Suc n) E h p recurse =
     (if p = 0 then Some (0, h)
      else let (newitem, h1) = cJSON_New_Item E h in
        if newitem = 0 then Some (0, h1)
        else do {
          x \<leftarrow> jget h1 p;
          h2 \<leftarrow> jset h1 newitem (\<lambda>y. y\<lparr>item_type := item_type x AND NOT (cJSON_IsReference (env_h E)), valueint := valueint x,
            valuedouble := valuedouble x\<rparr>);
          (ok, h3) \<leftarrow> copy_texts E h2 newitem x;
          if \<not> ok then duplicate_fail E h3 newitem
          else if \<not> recurse then Some (newitem, h3)
          else do {
            (ok1, h4) \<leftarrow> duplicate_loop n (\<lambda>h c. cJSON_Duplicate n E h c True) h3 newitem 0 (chd x);
            if ok1 then Some (newitem, h4) else duplicate_fail E h4 newitem
          }
        })"

section \<open>Arrays of values\<close>

text \<open>The loop of the constructors: each element is created and linked, or everything is released.\<close>

fun fill_array :: "cjson_env \<Rightarrow> (items \<Rightarrow> (nat \<times> items) option) list \<Rightarrow> items \<Rightarrow> nat \<Rightarrow> nat \<Rightarrow> (nat \<times> items) option" where
  "fill_array E [] h a p = Some (a, h)"
| "fill_array E (c # cs) h a p = do {
     (n, h1) \<leftarrow> c h;
     if n = 0 then duplicate_fail E h1 a
     else do { h2 \<leftarrow> link_child h1 a p n; fill_array E cs h2 a n }
   }"

definition create_array_of :: "cjson_env \<Rightarrow> ('a \<Rightarrow> items \<Rightarrow> (nat \<times> items) option) \<Rightarrow> 'a list option \<Rightarrow> int \<Rightarrow> items \<Rightarrow> (nat \<times> items) option" where
  "create_array_of E mk values count h =
     (case values of None \<Rightarrow> Some (0, h)
      | Some vs \<Rightarrow>
          if count < 0 then Some (0, h)
          else let (a, h1) = cJSON_CreateArray E h in
            if a = 0 then Some (0, h1)
            else fill_array E (map (\<lambda>i h. do { v \<leftarrow> load vs i; mk v h }) [0..count - 1]) h1 a 0)"

text \<open>The conversions from \<open>int\<close> and \<open>float\<close> to \<open>double\<close> are parameters.\<close>

definition cJSON_CreateIntArray :: "cjson_env \<Rightarrow> (int \<Rightarrow> u64) \<Rightarrow> int list option \<Rightarrow> int \<Rightarrow> items \<Rightarrow> (nat \<times> items) option" where
  "cJSON_CreateIntArray E of_int_value numbers count h = create_array_of E (\<lambda>i h. Some (cJSON_CreateNumber E (of_int_value i) h)) numbers count h"

definition cJSON_CreateFloatArray :: "cjson_env \<Rightarrow> (u32 \<Rightarrow> u64) \<Rightarrow> u32 list option \<Rightarrow> int \<Rightarrow> items \<Rightarrow> (nat \<times> items) option" where
  "cJSON_CreateFloatArray E of_float numbers count h = create_array_of E (\<lambda>f h. Some (cJSON_CreateNumber E (of_float f) h)) numbers count h"

definition cJSON_CreateDoubleArray :: "cjson_env \<Rightarrow> u64 list option \<Rightarrow> int \<Rightarrow> items \<Rightarrow> (nat \<times> items) option" where
  "cJSON_CreateDoubleArray E numbers count h = create_array_of E (\<lambda>d h. Some (cJSON_CreateNumber E d h)) numbers count h"

definition cJSON_CreateStringArray :: "cjson_env \<Rightarrow> u8 list option list option \<Rightarrow> int \<Rightarrow> items \<Rightarrow> (nat \<times> items) option" where
  "cJSON_CreateStringArray E strings count h = create_array_of E (\<lambda>s h. cJSON_CreateString E s h) strings count h"

section \<open>Building a tree\<close>

text \<open>A tree of new items whose root is linked to nothing; a tree that is still being built has a first child without predecessor.\<close>

definition fresh_tree :: "cjson_h \<Rightarrow> items \<Rightarrow> items \<Rightarrow> atree \<Rightarrow> bool" where
  "fresh_tree H h h1 t \<longleftrightarrow> own H h1 t \<and> distinct (addrs t) \<and> set (addrs t) \<inter> dom h = {} \<and> (\<forall>y. y \<notin> set (addrs t) \<longrightarrow> h1 y = h y) \<and>
     (\<exists>x. h1 (root t) = Some x \<and> nxt x = 0 \<and> prv x = 0)"

definition building :: "cjson_h \<Rightarrow> items \<Rightarrow> items \<Rightarrow> nat \<Rightarrow> atree list \<Rightarrow> bool" where
  "building H h h1 q us \<longleftrightarrow> fresh_tree H h h1 (Nd q us) \<and> dseg h1 0 (map root us) 0"

lemma fresh_treeD:
  assumes "fresh_tree H h h1 t"
  shows "own H h1 t" "distinct (addrs t)" "set (addrs t) \<inter> dom h = {}" "\<And>y. y \<notin> set (addrs t) \<Longrightarrow> h1 y = h y"
    "\<exists>x. h1 (root t) = Some x \<and> nxt x = 0 \<and> prv x = 0"
  using assms unfolding fresh_tree_def by blast+

lemma fresh_release:
  assumes "fresh_tree (env_h E) h h1 t"
  shows "cJSON_Delete E h1 (root t) = Some h"
proof -
  note D = fresh_treeD [OF assms]
  obtain x where "h1 (root t) = Some x" "nxt x = 0" using D(5) by blast
  from delete_tree [OF D(1,2) this] have "cJSON_Delete E h1 (root t) = Some (h1 |` (- set (addrs t)))" .
  moreover have "h1 |` (- set (addrs t)) = h"
  proof
    fix y
    show "(h1 |` (- set (addrs t))) y = h y" using D(3) D(4) [of y] by (cases "y \<in> set (addrs t)") (auto simp: restrict_map_def, metis disjoint_iff domIff)
  qed
  ultimately show ?thesis by simp
qed

lemma building_one:
  assumes "q \<noteq> 0" and "h q = None" and "chd x = 0" and "nxt x = 0" and "prv x = 0" and "item_type x AND cJSON_IsReference H = 0"
  shows "building H h (h(q \<mapsto> x)) q []"
  using assms leaf_kids [of "h(q \<mapsto> x)" q x] by (auto simp: building_def fresh_tree_def not_reference_def)

lemma buildingI:
  assumes "h1 q = Some x" and "q \<noteq> 0" and "chd x = first (map root us) 0" and "nxt x = 0" and "prv x = 0" and "item_type x AND cJSON_IsReference H = 0"
    and "list_all (own H h1) us" and "distinct (q # forest_addrs us)" and "set (q # forest_addrs us) \<inter> dom h = {}"
    and "\<And>y. y \<notin> set (q # forest_addrs us) \<Longrightarrow> h1 y = h y" and "dseg h1 0 (map root us) 0"
  shows "building H h h1 q us"
proof -
  have "0 \<notin> set (map root us)" using assms(7) own_root by (fastforce simp: list_all_iff)
  moreover have "distinct (q # map root us)" using assms(8) distinct_roots [of us] roots_in_addrs [of us] by auto
  ultimately have "kids h1 q (map root us)" using assms(1-3,11) by (intro kidsI [of h1 q x _ 0]) simp_all
  then show ?thesis unfolding building_def fresh_tree_def using assms by (auto simp: not_reference_def)
qed

lemma buildingE:
  assumes "building H h h1 q us"
  obtains x where "h1 q = Some x" and "q \<noteq> 0" and "chd x = first (map root us) 0" and "nxt x = 0" and "prv x = 0"
    and "item_type x AND cJSON_IsReference H = 0" and "list_all (own H h1) us" and "distinct (q # forest_addrs us)"
    and "set (q # forest_addrs us) \<inter> dom h = {}" and "\<And>y. y \<notin> set (q # forest_addrs us) \<Longrightarrow> h1 y = h y" and "dseg h1 0 (map root us) 0"
proof -
  have f: "fresh_tree H h h1 (Nd q us)" and s: "dseg h1 0 (map root us) 0" using assms by (simp_all add: building_def)
  note D = fresh_treeD [OF f]
  obtain x where x: "h1 q = Some x" "nxt x = 0" "prv x = 0" using D(5) by auto
  have "q \<noteq> 0" "chd x = first (map root us) 0" "item_type x AND cJSON_IsReference H = 0" "list_all (own H h1) us"
    using D(1) x(1) by (auto simp: kids_def not_reference_def)
  with x s D show ?thesis by (intro that [of x]) auto
qed

lemma building_agree: "building H h h1 q us \<Longrightarrow> y \<in> dom h \<Longrightarrow> h1 y = h y"
  by (erule buildingE) blast

lemma fresh_before:
  assumes "A \<inter> dom h = {}" and "A \<inter> S = {}" and "\<And>y. y \<notin> S \<Longrightarrow> h y = h0 y"
  shows "A \<inter> dom h0 = {}"
proof -
  have "h0 y = None" if "y \<in> A" for y
  proof -
    have "y \<notin> S" "y \<notin> dom h" using assms(1,2) that by blast+
    with assms(3) [of y] show ?thesis by (simp add: domIff)
  qed
  then show ?thesis by auto
qed

text \<open>The first child is hung below its parent; a later one is linked with the last.\<close>

lemma link_first:
  assumes b: "building H h0 h q []" and u: "fresh_tree H h h1 u"
  shows "\<exists>h2. link_child h1 q 0 (root u) = Some h2 \<and> building H h0 h2 q [u] \<and> same_values h1 h2"
proof -
  note U = fresh_treeD [OF u]
  obtain x where x: "h q = Some x" "q \<noteq> 0" "nxt x = 0" "prv x = 0" "item_type x AND cJSON_IsReference H = 0" "q \<notin> dom h0"
    "\<And>y. y \<noteq> q \<Longrightarrow> h y = h0 y" using b by (rule buildingE) auto
  have q: "q \<notin> set (addrs u)" using U(3) x(1) by blast
  then have q1: "h1 q = Some x" using U(4) x(1) by simp
  let ?h2 = "h1(q \<mapsto> x\<lparr>chd := root u\<rparr>)"
  have link: "link_child h1 q 0 (root u) = Some ?h2" using q1 x(2) by (simp add: link_child_def heap_simps)
  have "?h2 y = h1 y" if "y \<in> set (addrs u)" for y using that q by auto
  with own_cong [of u ?h2 h1 H] have own: "own H ?h2 u" using U(1) by blast
  have fresh: "set (addrs u) \<inter> dom h0 = {}" by (rule fresh_before [OF U(3), of "{q}"]) (use q x(7) in auto)
  obtain r where r: "h1 (root u) = Some r" "nxt r = 0" "prv r = 0" using U(5) by blast
  have "root u \<noteq> q" using q root_in_addrs by metis
  then have "building H h0 ?h2 q [u]"
    using own fresh r x q q1 U(2,4) by (intro buildingI [where x = "x\<lparr>chd := root u\<rparr>"]) auto
  with link q1 show ?thesis by auto
qed

lemma link_next:
  assumes b: "building H h0 h q (vs @ [v])" and u: "fresh_tree H h h1 u"
  shows "\<exists>h2. link_child h1 q (root v) (root u) = Some h2 \<and> building H h0 h2 q (vs @ [v, u]) \<and> same_values h1 h2"
proof -
  let ?us = "vs @ [v]" and ?c = "root v" and ?d = "root u"
  note U = fresh_treeD [OF u]
  obtain x where x: "h q = Some x" "q \<noteq> 0" "chd x = first (map root ?us) 0" "nxt x = 0" "prv x = 0" "item_type x AND cJSON_IsReference H = 0"
    and own: "list_all (own H h) ?us" and dist: "distinct (q # forest_addrs ?us)" and old: "set (q # forest_addrs ?us) \<inter> dom h0 = {}"
    and agree: "\<And>y. y \<notin> set (q # forest_addrs ?us) \<Longrightarrow> h y = h0 y" and seg: "dseg h 0 (map root ?us) 0"
    using b by (rule buildingE) blast
  have inh: "y \<in> dom h" if "y \<in> set (q # forest_addrs ?us)" for y
    using that x(1) own own_in_heap by (fastforce simp: list_all_iff)
  have apart: "set (addrs u) \<inter> set (q # forest_addrs ?us) = {}" using inh U(3) by blast
  have same: "h1 y = h y" if "y \<in> set (q # forest_addrs ?us)" for y using U(4) [of y] apart that by blast
  have own1: "own H h1 w" if "w \<in> set ?us" for w
    using own_cong [of w h1 h H] same own that by (fastforce simp: list_all_iff)
  obtain r where r: "h1 ?d = Some r" "nxt r = 0" "prv r = 0" using U(5) by blast
  obtain z where z: "h ?c = Some z" using own own_root [of H h v] by auto
  have inc: "?c \<in> set (forest_addrs ?us)" using root_in_addrs [of v] by simp
  have z1: "h1 ?c = Some z" using same [of ?c] z inc by simp
  have "?d \<notin> set (q # forest_addrs ?us)" using apart root_in_addrs [of u] by blast
  with inc have ne: "?c \<noteq> ?d" "?d \<noteq> q" by (metis list.set_intros(2), metis list.set_intros(1))
  have ne0: "?d \<noteq> 0" "?c \<noteq> 0" using own_root [OF U(1)] own own_root [of H h v] by simp_all
  have neq: "?c \<noteq> q" using inc dist by (metis distinct.simps(2))
  note ne = ne ne0 neq
  let ?h2 = "h1(?c \<mapsto> z\<lparr>nxt := ?d\<rparr>, ?d \<mapsto> r\<lparr>prv := ?c\<rparr>)"
  have link: "link_child h1 q ?c ?d = Some ?h2" using ne z1 r by (simp add: link_child_def suffix_object_def heap_simps)
  have rel: "relinked h1 ?h2" by (rule relinked_upd [where x = r], rule relinked_upd [where x = z]) (use z1 r ne in simp_all)
  have dall: "distinct (q # forest_addrs (?us @ [u]))" using dist U(2) apart by auto
  have own2: "own H ?h2 w" if w: "w \<in> set (?us @ [u])" for w
  proof (rule relinked_own [OF rel])
    show "own H h1 w" using w own1 U(1) by auto
    fix y
    assume y: "y \<in> set (forest_addrs (subs w))"
    have "y \<noteq> root w'" if "w' \<in> set (?us @ [u])" for w'
      by (rule subs_not_root [OF _ that w y]) (use dall in simp)
    then show "?h2 y = h1 y" by simp
  qed
  have seg2: "dseg ?h2 0 (map root (?us @ [u])) 0"
  proof -
    have dr: "distinct (map root ?us)" using distinct_roots [of ?us] dist by simp
    have eq: "?h2 y = h y" if "y \<in> set (map root vs)" for y
    proof -
      have "y \<noteq> ?c" using dr that by (simp, metis imageI)
      moreover have "y \<in> set (forest_addrs ?us)" using that roots_in_addrs [of vs] by auto
      moreover then have "y \<noteq> ?d" using apart root_in_addrs [of u] by auto
      ultimately show ?thesis using same [of y] by simp
    qed
    have "dseg ?h2 0 (map root vs) ?c = dseg h 0 (map root vs) ?c" by (rule dseg_cong) (rule eq)
    moreover have "dseg h 0 (map root vs) ?c" "prv z = final 0 (map root vs)" using seg z by (simp_all add: dseg_append)
    ultimately show ?thesis using ne r by (simp add: dseg_append)
  qed
  have fresh: "set (addrs u) \<inter> dom h0 = {}" by (rule fresh_before [OF U(3) apart agree])
  have out: "?h2 y = h0 y" if "y \<notin> set (q # forest_addrs (?us @ [u]))" for y
  proof -
    have "y \<noteq> ?c" "y \<noteq> ?d" using that inc root_in_addrs [of u] by auto
    with that U(4) [of y] agree [of y] show ?thesis by simp
  qed
  have "building H h0 ?h2 q (?us @ [u])"
  proof (rule buildingI [where x = x])
    show "?h2 q = Some x" using ne same [of q] x(1) by simp
    show "chd x = first (map root (?us @ [u])) 0" using x(3) by (cases vs) simp_all
    show "list_all (own H ?h2) (?us @ [u])" using own2 unfolding list_all_iff by blast
    show "set (q # forest_addrs (?us @ [u])) \<inter> dom h0 = {}" using old fresh by auto
  qed (use x dall out seg2 in blast)+
  moreover have "same_values h1 ?h2"
    by (rule same_values_trans [of _ "h1(?c \<mapsto> z\<lparr>nxt := ?d\<rparr>)"]) (use z1 r ne in simp_all)
  ultimately show ?thesis using link by auto
qed

lemma link_grows:
  assumes "building H h0 h q us" and "fresh_tree H h h1 u"
  shows "\<exists>h2. link_child h1 q (final 0 (map root us)) (root u) = Some h2 \<and> building H h0 h2 q (us @ [u]) \<and> same_values h1 h2"
proof (cases us rule: rev_cases)
  case Nil
  with link_first assms show ?thesis by auto
next
  case (snoc vs v)
  with link_next assms show ?thesis by fastforce
qed

section \<open>What a tree shows\<close>

text \<open>All that a reader sees of a tree: the values and the texts of each item, and the order of the children.\<close>

datatype 'a shape = View (top_of: 'a) (parts: "'a shape list")

type_synonym node_content = "u32 \<times> int \<times> u64 \<times> u8 list option option \<times> u8 list option option"

definition node_view :: "item \<Rightarrow> node_content" where
  "node_view x = (item_type x, valueint x, valuedouble x, map_option c_text (valuestring x), map_option c_text (item_string x))"

fun view :: "items \<Rightarrow> atree \<Rightarrow> node_content option shape" where
  "view h (Nd p ts) = View (map_option node_view (h p)) (map (view h) ts)"

lemma view_cong: "(\<And>y. y \<in> set (addrs t) \<Longrightarrow> h' y = h y) \<Longrightarrow> view h' t = view h t"
  by (induction t) auto

lemma node_view_truncate: "cJSON.truncate x' = cJSON.truncate x \<Longrightarrow> node_view x' = node_view x"
  by (cases x; cases x') (simp add: node_view_def cJSON.defs)

lemma view_at_values:
  assumes "same_values h h'"
  shows "map_option node_view (h' p) = map_option node_view (h p)"
  using assms [unfolded same_values_def, rule_format, of p] by (cases "h p"; cases "h' p") (auto intro: node_view_truncate)

lemma view_values: "same_values h h' \<Longrightarrow> view h' t = view h t"
  by (induction t) (simp add: view_at_values)

lemma node_view_scalar: "node_view x' = node_view x \<Longrightarrow> scalar_json H x' = scalar_json H x"
  unfolding scalar_json_def node_view_def by (cases "valuestring x"; cases "valuestring x'") (simp_all add: Let_def)

lemma key_at_view: "map_option node_view (h' q) = map_option node_view (h p) \<Longrightarrow> key_at h' q = key_at h p"
proof (cases "h p"; cases "h' q")
  fix x x'
  assume "map_option node_view (h' q) = map_option node_view (h p)" "h p = Some x" "h' q = Some x'"
  then show ?thesis by (cases "item_string x"; cases "item_string x'") (auto simp: key_at_def node_view_def)
qed (simp_all add: key_at_def)

lemma view_key: "view h' u = view h t \<Longrightarrow> key_at h' (root u) = key_at h (root t)"
  by (cases t; cases u) (auto intro: key_at_view)

text \<open>In particular the view gives the JSON value.\<close>

lemma view_json: "view h' u = view h t \<Longrightarrow> json_of H h' u = json_of H h t"
proof (induction t arbitrary: u)
  case (Nd p ts)
  obtain q us where u: "u = Nd q us" by (cases u)
  with Nd.prems have root: "map_option node_view (h' q) = map_option node_view (h p)" and us: "map (view h') us = map (view h) ts" by simp_all
  have len: "length us = length ts" using arg_cong [OF us, of length] by simp
  have part: "view h' (us ! i) = view h (ts ! i)" if "i < length ts" for i
    using arg_cong [OF us, of "\<lambda>l. l ! i"] that len by simp
  have v: "map (json_of H h') us = map (json_of H h) ts"
    by (rule nth_equalityI) (use len in \<open>auto intro!: Nd.IH part\<close>)
  have k: "map (\<lambda>t. key_at h' (root t)) us = map (\<lambda>t. key_at h (root t)) ts"
    by (rule nth_equalityI) (use len in \<open>auto intro!: view_key part\<close>)
  have empty: "us = [] \<longleftrightarrow> ts = []" using len by auto
  show ?case
  proof (cases "h p")
    case None
    with root u show ?thesis by simp
  next
    case (Some x)
    with root obtain x' where x': "h' q = Some x'" "node_view x' = node_view x" by auto
    then have "item_type x' = item_type x" "scalar_json H x' = scalar_json H x" using node_view_scalar [OF x'(2)] by (simp_all add: node_view_def)
    with Some x' u show ?thesis by (simp only: json_of.simps v k empty) simp
  qed
qed

section \<open>Copies of texts\<close>

definition texts_ok :: "item \<Rightarrow> bool" where
  "texts_ok x \<longleftrightarrow> pred_option terminated (valuestring x) \<and> pred_option terminated (item_string x)"

definition tree_texts :: "items \<Rightarrow> atree \<Rightarrow> bool" where
  "tree_texts h t \<longleftrightarrow> list_all (\<lambda>y. pred_option texts_ok (h y)) (addrs t)"

lemma strdup_spec:
  assumes "hooks_ok hooks" and "terminated s"
  shows "cJSON_strdup hooks (Some s) = Some None \<and> \<not> unlimited hooks \<or> (\<exists>c. cJSON_strdup hooks (Some s) = Some (Some c) \<and> c_text c = c_text s)"
proof -
  obtain r where s: "s = c_string s @ 0 # r" "0 \<notin> set (c_string s)" using terminated_split [OF assms(2)] by blast
  let ?t = "c_string s"
  have n: "strlen_at s 0 = Some (length ?t)" using strlen_spec [OF s(2), of r] s(1) by simp
  show ?thesis
  proof (cases "allocate hooks (length ?t + 1)")
    case None
    then show ?thesis using n by (auto simp: cJSON_strdup_def unlimited_def)
  next
    case (Some blk)
    have l: "length blk = length ?t + 1" using assms(1) Some by (simp add: hooks_ok_def)
    have ls: "length ?t + 1 \<le> length s" using arg_cong [OF s(1), of length] by simp
    have "memcpy blk 0 s 0 (int (length ?t) + 1) = Some (overwrite blk 0 (take (length ?t + 1) s))"
      using l ls by (subst memcpy_overwrite) (auto simp: nat_add_distrib)
    moreover have "take (length ?t + 1) s = ?t @ [0]" by (subst s(1)) simp
    moreover have "overwrite blk 0 (?t @ [0]) = ?t @ [0]" using l by (simp add: overwrite_def)
    ultimately have "cJSON_strdup hooks (Some s) = Some (Some (?t @ [0]))" using n Some by (simp add: cJSON_strdup_def)
    moreover have "c_text (?t @ [0]) = c_text s"
      using s assms(2) by (simp add: c_text_def terminated_def c_string_def takeWhile_tail)
    ultimately show ?thesis by blast
  qed
qed

lemma copy_text_spec:
  assumes "hooks_ok (env_hooks E)" and "pred_option terminated str"
  shows "\<exists>ok v. copy_text E shared str = Some (ok, v) \<and> (ok \<longrightarrow> map_option c_text v = map_option c_text str) \<and> (unlimited (env_hooks E) \<longrightarrow> ok)"
proof (cases str)
  case (Some s)
  with strdup_spec [OF assms(1), of s] assms(2) show ?thesis by (auto simp: copy_text_def)
qed (auto simp: copy_text_def)

lemma copy_texts_spec:
  assumes "hooks_ok (env_hooks E)" and "texts_ok x" and "h q = Some y" and "q \<noteq> 0"
  shows "\<exists>ok v k. copy_texts E h q x = Some (ok, h(q \<mapsto> y\<lparr>valuestring := v, item_string := k\<rparr>)) \<and> (unlimited (env_hooks E) \<longrightarrow> ok) \<and>
    (ok \<longrightarrow> map_option c_text v = map_option c_text (valuestring x) \<and> map_option c_text k = map_option c_text (item_string x))"
proof -
  let ?sh = "item_type x AND cJSON_StringIsConst (env_h E) \<noteq> 0"
  obtain ok v where v: "copy_text E False (valuestring x) = Some (ok, v)" "ok \<longrightarrow> map_option c_text v = map_option c_text (valuestring x)"
    "unlimited (env_hooks E) \<longrightarrow> ok" using copy_text_spec [OF assms(1), of "valuestring x" False] assms(2) by (auto simp: texts_ok_def)
  obtain ok1 k where k: "copy_text E ?sh (item_string x) = Some (ok1, k)" "ok1 \<longrightarrow> map_option c_text k = map_option c_text (item_string x)"
    "unlimited (env_hooks E) \<longrightarrow> ok1" using copy_text_spec [OF assms(1), of "item_string x" ?sh] assms(2) by (auto simp: texts_ok_def)
  show ?thesis
  proof (cases ok)
    case True
    then show ?thesis using v k assms(3,4) by (auto simp: copy_texts_def heap_simps)
  next
    case False
    then have "copy_texts E h q x = Some (False, h(q \<mapsto> y\<lparr>valuestring := v, item_string := item_string y\<rparr>))"
      using v assms(3,4) by (simp add: copy_texts_def heap_simps)
    with False v(3) show ?thesis by blast
  qed
qed

section \<open>Duplicates\<close>

definition enough :: "cjson_env \<Rightarrow> items \<Rightarrow> bool" where
  "enough E h \<longleftrightarrow> never_full E \<and> unlimited (env_hooks E) \<and> finite (dom h)"

text \<open>
  The contract of a function that makes a tree: it returns null and changes nothing, which needs a lack
  of memory, or it returns the root of a fresh tree with the property \<open>P\<close>.
\<close>

definition makes :: "cjson_env \<Rightarrow> items \<Rightarrow> (items \<Rightarrow> atree \<Rightarrow> bool) \<Rightarrow> (nat \<times> items) option \<Rightarrow> bool" where
  "makes E h P r \<longleftrightarrow> r = Some (0, h) \<and> \<not> enough E h \<or> (\<exists>u h1. r = Some (root u, h1) \<and> fresh_tree (env_h E) h h1 u \<and> P h1 u)"

lemma building_enough: "building H h0 h q us \<Longrightarrow> enough E h0 \<Longrightarrow> enough E h"
  by (erule buildingE) (auto simp: enough_def intro!: finite_dom_agree [of h0 "set (q # forest_addrs us)" h])

lemma building_view:
  assumes "building H h0 h q us" and "own H h0 t"
  shows "view h t = view h0 t" "own H h t" "tree_texts h t = tree_texts h0 t" "\<And>y. y \<in> set (addrs t) \<Longrightarrow> h y = h0 y"
proof -
  have same: "h y = h0 y" if "y \<in> set (addrs t)" for y
    by (rule building_agree [OF assms(1)]) (use own_in_heap [OF assms(2) that] in blast)
  show "view h t = view h0 t" by (rule view_cong) (rule same)
  show "own H h t" using own_cong [of t h h0 H] same assms(2) by blast
  show "tree_texts h t = tree_texts h0 t" using same by (simp add: tree_texts_def list_all_iff)
  show "\<And>y. y \<in> set (addrs t) \<Longrightarrow> h y = h0 y" by (rule same)
qed

text \<open>A tree that was made becomes one more child of the tree under construction.\<close>

lemma made_child:
  assumes b: "building (env_h E) h0 h q us" and m: "makes E h P r"
  obtains "r = Some (0, h)" and "\<not> enough E h0"
  | u h1 h2 where "r = Some (root u, h1)" and "root u \<noteq> 0" and "P h1 u" and "link_child h1 q (final 0 (map root us)) (root u) = Some h2"
    and "building (env_h E) h0 h2 q (us @ [u])" and "same_values h1 h2" and "map (view h2) us = map (view h) us" and "map_option node_view (h2 q) = map_option node_view (h q)"
proof (cases "r = Some (0, h) \<and> \<not> enough E h")
  case True
  with building_enough [OF b] that(1) show ?thesis by blast
next
  case False
  with m obtain u h1 where u: "r = Some (root u, h1)" "fresh_tree (env_h E) h h1 u" "P h1 u" unfolding makes_def by blast
  obtain h2 where h2: "link_child h1 q (final 0 (map root us)) (root u) = Some h2" "building (env_h E) h0 h2 q (us @ [u])" "same_values h1 h2"
    using link_grows [OF b u(2)] by blast
  note U = fresh_treeD [OF u(2)]
  have "h1 y = h y" if "y \<in> set (q # forest_addrs us)" for y
  proof -
    have "y \<in> dom h" using b that own_in_heap [of "env_h E" h "Nd q us" y] by (auto simp: building_def fresh_tree_def)
    with U(3,4) show ?thesis by blast
  qed
  note same = this
  have "view h2 w = view h w" if "w \<in> set us" for w
  proof -
    have "view h1 w = view h w" by (rule view_cong) (use same that in auto)
    with view_values [OF h2(3)] show ?thesis by simp
  qed
  moreover have "map_option node_view (h2 q) = map_option node_view (h q)" using view_at_values [OF h2(3), of q] same [of q] by simp
  ultimately show ?thesis using that(2) u(1,3) h2 own_root [OF U(1)] by auto
qed

lemma duplicate_loop_spec:
  assumes dup: "\<And>h t. t \<in> set ts \<Longrightarrow> own (env_h E) h t \<Longrightarrow> tree_texts h t \<Longrightarrow> makes E h (\<lambda>h1 u. view h1 u = view h t) (dup h (root t))"
    and "building (env_h E) h0 h q us" and "list_all (own (env_h E) h0) ts" and "list_all (tree_texts h0) ts" and "dseg h0 pr (map root ts) 0"
    and "length ts < n"
  shows "\<exists>ok h1 us1. duplicate_loop n dup h q (final 0 (map root us)) (first (map root ts) 0) = Some (ok, h1) \<and>
    building (env_h E) h0 h1 q us1 \<and> (enough E h0 \<longrightarrow> ok) \<and> (ok \<longrightarrow> map (view h1) us1 = map (view h) us @ map (view h0) ts) \<and>
    map_option node_view (h1 q) = map_option node_view (h q)"
  using assms
proof (induction ts arbitrary: n h us pr)
  case Nil
  then obtain m where "n = Suc m" by (cases n) auto
  with Nil show ?case by auto
next
  case (Cons t ts)
  then obtain m where n: "n = Suc m" by (cases n) auto
  from Cons.prems have own: "own (env_h E) h0 t" "list_all (own (env_h E) h0) ts" and tx: "tree_texts h0 t" "list_all (tree_texts h0) ts" by simp_all
  obtain x where x: "h0 (root t) = Some x" "nxt x = first (map root ts) 0" "dseg h0 (root t) (map root ts) 0"
    using Cons.prems(5) by (auto split: option.splits)
  have t0: "root t \<noteq> 0" using own_root [OF own(1)] by simp
  note B = building_view [OF Cons.prems(2) own(1)]
  have m: "makes E h (\<lambda>h1 u. view h1 u = view h t) (dup h (root t))" by (rule Cons.prems(1)) (use B(2,3) tx in simp_all)
  show ?case
  proof (rule made_child [OF Cons.prems(2) m])
    assume "dup h (root t) = Some (0, h)" "\<not> enough E h0"
    with Cons.prems(2) t0 n show ?thesis by auto
  next
    fix u h1 h2
    assume u: "dup h (root t) = Some (root u, h1)" "root u \<noteq> 0" "view h1 u = view h t" "link_child h1 q (final 0 (map root us)) (root u) = Some h2"
      "building (env_h E) h0 h2 q (us @ [u])" "same_values h1 h2" "map (view h2) us = map (view h) us" "map_option node_view (h2 q) = map_option node_view (h q)"
    have "h2 (root t) = Some x" using building_agree [OF u(5), of "root t"] x(1) by auto
    then have step: "duplicate_loop n dup h q (final 0 (map root us)) (first (map root (t # ts)) 0) =
        duplicate_loop m dup h2 q (final 0 (map root (us @ [u]))) (first (map root ts) 0)"
      using u(1,2,4) t0 x(2) n by (simp add: heap_simps)
    have "view h2 u = view h0 t" using view_values [OF u(6), of u] u(3) B(1) by simp
    then have "map (view h2) (us @ [u]) = map (view h) us @ [view h0 t]" using u(7) by simp
    moreover have "\<exists>ok h1 us1. duplicate_loop m dup h2 q (final 0 (map root (us @ [u]))) (first (map root ts) 0) = Some (ok, h1) \<and>
      building (env_h E) h0 h1 q us1 \<and> (enough E h0 \<longrightarrow> ok) \<and> (ok \<longrightarrow> map (view h1) us1 = map (view h2) (us @ [u]) @ map (view h0) ts) \<and>
      map_option node_view (h1 q) = map_option node_view (h2 q)"
      using Cons.prems(1,6) n by (intro Cons.IH [OF _ u(5) own(2) tx(2) x(3)]) auto
    ultimately show ?thesis unfolding step by (simp add: u(8) del: map_append)
  qed
qed

lemma unset_bits: "x AND m = 0 \<Longrightarrow> x AND NOT m = x" for x m :: "'a :: len word"
  by (auto simp: bit_eq_iff bit_simps)

text \<open>The view of a copy: of the whole tree, or of its root alone.\<close>

definition view_to :: "bool \<Rightarrow> items \<Rightarrow> atree \<Rightarrow> node_content option shape" where
  "view_to recurse h t = (if recurse then view h t else View (top_of (view h t)) [])"

lemma duplicate_makes:
  assumes "new_ok E" and "hooks_ok (env_hooks E)"
  shows "own (env_h E) h t \<Longrightarrow> tree_texts h t \<Longrightarrow> length (addrs t) < n \<Longrightarrow>
    makes E h (\<lambda>h1 u. view h1 u = view_to recurse h t) (cJSON_Duplicate n E h (root t) recurse)"
proof (induction n arbitrary: h t recurse)
  case (Suc n)
  obtain p ts where t: "t = Nd p ts" by (cases t)
  obtain x where x: "h p = Some x" "p \<noteq> 0" "item_type x AND cJSON_IsReference (env_h E) = 0" "chd x = first (map root ts) 0" "list_all (own (env_h E) h) ts"
    using Suc.prems(1) t by (auto simp: kids_def not_reference_def split: option.splits)
  obtain pr where seg: "dseg h pr (map root ts) 0" using Suc.prems(1) t by (auto simp: kids_def)
  have tx: "texts_ok x" "list_all (tree_texts h) ts" using Suc.prems(2) t x(1) by (auto simp: tree_texts_def list_all_iff)
  show ?case
  proof (rule new_item_cases [OF assms(1), of h])
    assume n0: "cJSON_New_Item E h = (0, h)"
    then have "\<not> enough E h" by (auto simp: cJSON_New_Item_def enough_def never_full_def Let_def split: if_splits)
    with n0 x(2) t show ?thesis by (simp add: makes_def)
  next
    fix q
    assume q: "cJSON_New_Item E h = (q, h(q \<mapsto> null_item))" "q \<noteq> 0" "h q = None"
    have pq: "p \<noteq> q" using x(1) q(3) by auto
    let ?y = "null_item\<lparr>item_type := item_type x, valueint := valueint x, valuedouble := valuedouble x\<rparr>"
    obtain ok v k where c: "copy_texts E (h(q \<mapsto> ?y)) q x = Some (ok, h(q \<mapsto> ?y\<lparr>valuestring := v, item_string := k\<rparr>))"
      "unlimited (env_hooks E) \<longrightarrow> ok"
      "ok \<longrightarrow> map_option c_text v = map_option c_text (valuestring x) \<and> map_option c_text k = map_option c_text (item_string x)"
      using copy_texts_spec [OF assms(2) tx(1), of "h(q \<mapsto> ?y)" q ?y] q(2) by auto
    let ?z = "?y\<lparr>valuestring := v, item_string := k\<rparr>" and ?h = "h(q \<mapsto> ?y\<lparr>valuestring := v, item_string := k\<rparr>)"
    have b: "building (env_h E) h ?h q []"
      by (rule building_one) (use q x(3) in \<open>simp_all add: null_item_def\<close>)
    have nv: "ok \<Longrightarrow> node_view ?z = node_view x" using c(3) by (simp add: node_view_def)
    have fail: "duplicate_fail E h1 q = Some (0, h)" if "building (env_h E) h h1 q us" for h1 us
      using fresh_release [of E h h1 "Nd q us"] that by (simp add: duplicate_fail_def building_def)
    have run: "cJSON_Duplicate (Suc n) E h p recurse =
       (if \<not> ok then duplicate_fail E ?h q else if \<not> recurse then Some (q, ?h)
        else do { (ok1, h4) \<leftarrow> duplicate_loop n (\<lambda>h c. cJSON_Duplicate n E h c True) ?h q 0 (chd x);
          if ok1 then Some (q, h4) else duplicate_fail E h4 q })"
      using q pq x c(1) by (simp add: heap_simps unset_bits)
    show ?thesis
    proof (cases "ok \<and> recurse")
      case False
      then show ?thesis
        using run b fail [OF b] c(2) nv t x(1) by (auto simp: makes_def enough_def building_def view_to_def intro!: exI [of _ "Nd q []"])
    next
      case True
      have "\<exists>ok1 h1 us1. duplicate_loop n (\<lambda>h c. cJSON_Duplicate n E h c True) ?h q (final 0 (map root [])) (first (map root ts) 0) = Some (ok1, h1) \<and>
        building (env_h E) h h1 q us1 \<and> (enough E h \<longrightarrow> ok1) \<and> (ok1 \<longrightarrow> map (view h1) us1 = map (view ?h) [] @ map (view h) ts) \<and>
        map_option node_view (h1 q) = map_option node_view (?h q)"
      proof (rule duplicate_loop_spec [OF _ b x(5) tx(2) seg])
        show "length ts < n" using Suc.prems(3) t forest_length [of ts] by simp
        fix h' s
        assume s: "s \<in> set ts" "own (env_h E) h' s" "tree_texts h' s"
        have "length (addrs s) < n" using addrs_sub [OF s(1)] Suc.prems(3) t by simp
        from Suc.IH [OF s(2,3) this, of True] show "makes E h' (\<lambda>h1 u. view h1 u = view h' s) (cJSON_Duplicate n E h' (root s) True)"
          by (simp add: view_to_def)
      qed
      then obtain ok1 h1 us1 where l: "duplicate_loop n (\<lambda>h c. cJSON_Duplicate n E h c True) ?h q 0 (chd x) = Some (ok1, h1)"
        "building (env_h E) h h1 q us1" "enough E h \<longrightarrow> ok1" "ok1 \<longrightarrow> map (view h1) us1 = map (view h) ts"
        "map_option node_view (h1 q) = Some (node_view ?z)" using x(4) by auto
      show ?thesis
        using run l fail [OF l(2)] True nv t x(1) by (cases ok1) (auto simp: makes_def view_to_def building_def intro!: exI [of _ "Nd q us1"])
    qed
  qed
qed simp

section \<open>Arrays of values\<close>

definition makes_value :: "cjson_env \<Rightarrow> json \<Rightarrow> (items \<Rightarrow> (nat \<times> items) option) \<Rightarrow> bool" where
  "makes_value E v c \<longleftrightarrow> (\<forall>h. makes E h (\<lambda>h1 u. json_of (env_h E) h1 u = Some v) (c h))"

text \<open>A new leaf is a fresh tree.\<close>

lemma leaf_fresh:
  assumes "q \<noteq> 0" and "h q = None" and "chd x = 0" and "nxt x = 0" and "prv x = 0" and "item_type x AND cJSON_IsReference H = 0"
  shows "fresh_tree H h (h(q \<mapsto> x)) (Nd q [])"
  using building_one [of q h x H] assms by (simp add: building_def)

lemma new_fails: "cJSON_New_Item E h = (0, h) \<Longrightarrow> \<not> enough E h"
  by (auto simp: cJSON_New_Item_def enough_def never_full_def Let_def split: if_splits)

lemma number_makes:
  assumes "new_ok E" and "types_ok (env_h E)"
  shows "makes_value E (JNumber d) (\<lambda>h. Some (cJSON_CreateNumber E d h))"
  unfolding makes_value_def
proof
  fix h
  let ?x = "null_item\<lparr>item_type := cJSON_Number (env_h E), valuedouble := d, valueint := saturate E d\<rparr>"
  show "makes E h (\<lambda>h1 u. json_of (env_h E) h1 u = Some (JNumber d)) (Some (cJSON_CreateNumber E d h))"
  proof (rule new_item_cases [OF assms(1), of h])
    assume "cJSON_New_Item E h = (0, h)"
    with new_fails [OF this] show ?thesis by (simp add: makes_def cJSON_CreateNumber_def create_def)
  next
    fix q
    assume q: "cJSON_New_Item E h = (q, h(q \<mapsto> null_item))" "q \<noteq> 0" "h q = None"
    have "fresh_tree (env_h E) h (h(q \<mapsto> ?x)) (Nd q [])"
      by (rule leaf_fresh) (use q types_simps [OF assms(2)] in \<open>simp_all add: null_item_def\<close>)
    moreover have "json_of (env_h E) (h(q \<mapsto> ?x)) (Nd q []) = Some (JNumber d)"
      using types_simps [OF assms(2)] by (simp add: scalar_json_def null_item_def)
    ultimately show ?thesis using q by (auto simp: makes_def cJSON_CreateNumber_def create_def intro!: exI [of _ "Nd q []"])
  qed
qed

lemma string_makes:
  assumes "new_ok E" and "types_ok (env_h E)" and "hooks_ok (env_hooks E)" and "terminated s"
  shows "makes_value E (JString (c_string s)) (cJSON_CreateString E (Some s))"
  unfolding makes_value_def
proof
  fix h
  let ?x = "\<lambda>v. null_item\<lparr>item_type := cJSON_String (env_h E), valuestring := v\<rparr>"
  show "makes E h (\<lambda>h1 u. json_of (env_h E) h1 u = Some (JString (c_string s))) (cJSON_CreateString E (Some s) h)"
  proof (rule new_item_cases [OF assms(1), of h])
    assume "cJSON_New_Item E h = (0, h)"
    with new_fails [OF this] show ?thesis by (simp add: makes_def cJSON_CreateString_def create_text_def)
  next
    fix q
    assume q: "cJSON_New_Item E h = (q, h(q \<mapsto> null_item))" "q \<noteq> 0" "h q = None"
    have fresh: "fresh_tree (env_h E) h (h(q \<mapsto> ?x v)) (Nd q [])" for v
      by (rule leaf_fresh) (use q types_simps [OF assms(2)] in \<open>simp_all add: null_item_def\<close>)
    consider "cJSON_strdup (env_hooks E) (Some s) = Some None" "\<not> unlimited (env_hooks E)"
      | c where "cJSON_strdup (env_hooks E) (Some s) = Some (Some c)" "c_text c = c_text s"
      using strdup_spec [OF assms(3,4)] by blast
    then show ?thesis
    proof cases
      case 1
      with q fresh_release [OF fresh [of None]] show ?thesis by (simp add: makes_def cJSON_CreateString_def create_text_def enough_def)
    next
      case (2 c)
      then have "json_of (env_h E) (h(q \<mapsto> ?x (Some c))) (Nd q []) = Some (JString (c_string s))"
        using types_simps [OF assms(2)] assms(4) by (simp add: scalar_json_def null_item_def c_text_def terminated_def)
      then show ?thesis using fresh [of "Some c"] q 2 by (auto simp: makes_def cJSON_CreateString_def create_text_def intro!: exI [of _ "Nd q []"])
    qed
  qed
qed

lemma fill_array_spec:
  assumes "list_all2 (makes_value E) vs cs" and "building (env_h E) h0 h q us" and "map_option node_view (h q) = nv"
  shows "fill_array E cs h q (final 0 (map root us)) = Some (0, h0) \<and> \<not> enough E h0 \<or>
    (\<exists>h1 us1. fill_array E cs h q (final 0 (map root us)) = Some (q, h1) \<and> building (env_h E) h0 h1 q us1 \<and>
      map (json_of (env_h E) h1) us1 = map (json_of (env_h E) h) us @ map Some vs \<and> map_option node_view (h1 q) = nv)"
  using assms
proof (induction vs cs arbitrary: h us rule: list_all2_induct)
  case Nil
  then show ?case by auto
next
  case (Cons v vs c cs)
  have m: "makes E h (\<lambda>h1 u. json_of (env_h E) h1 u = Some v) (c h)" using Cons.hyps(1) by (simp add: makes_value_def)
  show ?case
  proof (rule made_child [OF Cons.prems(1) m])
    assume "c h = Some (0, h)" "\<not> enough E h0"
    moreover have "cJSON_Delete E h q = Some h0" using fresh_release [of E h0 h "Nd q us"] Cons.prems(1) by (simp add: building_def)
    ultimately show ?thesis by (simp add: duplicate_fail_def)
  next
    fix u h1 h2
    assume u: "c h = Some (root u, h1)" "root u \<noteq> 0" "json_of (env_h E) h1 u = Some v" "link_child h1 q (final 0 (map root us)) (root u) = Some h2"
      "building (env_h E) h0 h2 q (us @ [u])" "same_values h1 h2" "map (view h2) us = map (view h) us" "map_option node_view (h2 q) = map_option node_view (h q)"
    have old: "map (json_of (env_h E) h2) us = map (json_of (env_h E) h) us"
      by (rule map_cong [OF refl], rule view_json) (use u(7) in simp)
    have "json_of (env_h E) h2 u = Some v" using view_json [OF view_values [OF u(6)], of "env_h E" u] u(3) by simp
    then have "map (json_of (env_h E) h2) (us @ [u]) @ map Some vs = map (json_of (env_h E) h) us @ map Some (v # vs)" using old by simp
    moreover have "final 0 (map root (us @ [u])) = root u" by simp
    ultimately show ?thesis using Cons.IH [OF u(5)] u(1,2,4,8) Cons.prems(2) by (simp del: map_append map_eq_conv)
  qed
qed

lemma array_makes:
  assumes "new_ok E" and "types_ok (env_h E)" and "\<And>v. v \<in> set vs \<Longrightarrow> makes_value E (f v) (mk v)" and "count \<le> int (length vs)" and "0 \<le> count"
  shows "makes E h (\<lambda>h1 u. json_of (env_h E) h1 u = Some (JArray (map f (take (nat count) vs)))) (create_array_of E mk (Some vs) count h)"
proof (rule new_item_cases [OF assms(1), of h])
  assume "cJSON_New_Item E h = (0, h)"
  with new_fails [OF this] assms(5) show ?thesis by (simp add: makes_def create_array_of_def cJSON_CreateArray_def create_def)
next
  fix q
  assume q: "cJSON_New_Item E h = (q, h(q \<mapsto> null_item))" "q \<noteq> 0" "h q = None"
  let ?x = "null_item\<lparr>item_type := cJSON_Array (env_h E)\<rparr>"
  let ?cs = "map (\<lambda>i h. do { v \<leftarrow> load vs i; mk v h }) [0..count - 1]"
  have b: "building (env_h E) h (h(q \<mapsto> ?x)) q []"
    by (rule building_one) (use q types_simps [OF assms(2)] in \<open>simp_all add: null_item_def\<close>)
  have l: "list_all2 (makes_value E) (map f (take (nat count) vs)) ?cs"
    unfolding list_all2_conv_all_nth using assms(3-5) by (auto simp: load_def nat_less_iff)
  have run: "create_array_of E mk (Some vs) count h = fill_array E ?cs (h(q \<mapsto> ?x)) q 0"
    using q assms(5) by (simp add: create_array_of_def cJSON_CreateArray_def create_def)
  have "fill_array E ?cs (h(q \<mapsto> ?x)) q (final 0 (map root [])) = Some (0, h) \<and> \<not> enough E h \<or>
    (\<exists>h1 us1. fill_array E ?cs (h(q \<mapsto> ?x)) q (final 0 (map root [])) = Some (q, h1) \<and> building (env_h E) h h1 q us1 \<and>
      map (json_of (env_h E) h1) us1 = map (json_of (env_h E) (h(q \<mapsto> ?x))) [] @ map Some (map f (take (nat count) vs)) \<and>
      map_option node_view (h1 q) = Some (node_view ?x))"
    by (rule fill_array_spec [OF l b]) simp
  then consider "create_array_of E mk (Some vs) count h = Some (0, h)" "\<not> enough E h"
    | h1 us1 y where "create_array_of E mk (Some vs) count h = Some (q, h1)" "building (env_h E) h h1 q us1"
      "map (json_of (env_h E) h1) us1 = map Some (map f (take (nat count) vs))" "h1 q = Some y" "item_type y = cJSON_Array (env_h E)"
    unfolding run by (auto simp: node_view_def)
  then show ?thesis
  proof cases
    case 1
    then show ?thesis by (simp add: makes_def)
  next
    case (2 h1 us1 y)
    have "those (map (json_of (env_h E) h1) us1) = Some (map f (take (nat count) vs))" using 2(3) by (simp add: those_Some)
    then have "json_of (env_h E) h1 (Nd q us1) = Some (JArray (map f (take (nat count) vs)))"
      using 2(4,5) types_simps [OF assms(2)] by simp
    with 2(1,2) show ?thesis by (auto simp: makes_def building_def intro!: exI [of _ "Nd q us1"])
  qed
qed

text \<open>
  The array constructors, on a block of at least \<open>count\<close> elements: either the null pointer and the old
  heap, which only happens when an allocation fails, or the root of a well-formed tree of new items that
  stands for the JSON array of the first \<open>count\<close> elements in their order.
\<close>

lemma create_arrays:
  assumes "new_ok E" and "types_ok (env_h E)" and "hooks_ok (env_hooks E)" and "0 \<le> count"
    and "count \<le> int (length ns)" and "count \<le> int (length fs)" and "count \<le> int (length ds)" and "count \<le> int (length ss)" and "list_all terminated ss"
  shows "makes E h (\<lambda>h1 u. json_of (env_h E) h1 u = Some (JArray (map (\<lambda>i. JNumber (of_i i)) (take (nat count) ns)))) (cJSON_CreateIntArray E of_i (Some ns) count h) \<and>
    makes E h (\<lambda>h1 u. json_of (env_h E) h1 u = Some (JArray (map (\<lambda>f. JNumber (of_f f)) (take (nat count) fs)))) (cJSON_CreateFloatArray E of_f (Some fs) count h) \<and>
    makes E h (\<lambda>h1 u. json_of (env_h E) h1 u = Some (JArray (map JNumber (take (nat count) ds)))) (cJSON_CreateDoubleArray E (Some ds) count h) \<and>
    makes E h (\<lambda>h1 u. json_of (env_h E) h1 u = Some (JArray (map (\<lambda>s. JString (c_string s)) (take (nat count) ss))))
      (cJSON_CreateStringArray E (Some (map Some ss)) count h)"
proof (intro conjI)
  note number = number_makes [OF assms(1,2)]
  show "makes E h (\<lambda>h1 u. json_of (env_h E) h1 u = Some (JArray (map (\<lambda>i. JNumber (of_i i)) (take (nat count) ns)))) (cJSON_CreateIntArray E of_i (Some ns) count h)"
    unfolding cJSON_CreateIntArray_def by (rule array_makes [OF assms(1,2) number assms(5,4)])
  show "makes E h (\<lambda>h1 u. json_of (env_h E) h1 u = Some (JArray (map (\<lambda>f. JNumber (of_f f)) (take (nat count) fs)))) (cJSON_CreateFloatArray E of_f (Some fs) count h)"
    unfolding cJSON_CreateFloatArray_def by (rule array_makes [OF assms(1,2) number assms(6,4)])
  show "makes E h (\<lambda>h1 u. json_of (env_h E) h1 u = Some (JArray (map JNumber (take (nat count) ds)))) (cJSON_CreateDoubleArray E (Some ds) count h)"
    unfolding cJSON_CreateDoubleArray_def by (rule array_makes [OF assms(1,2) number assms(7,4)])
  have "makes_value E (JString (c_string (the s))) (cJSON_CreateString E s)" if "s \<in> set (map Some ss)" for s
    using string_makes [OF assms(1-3)] assms(9) that by (auto simp: list_all_iff)
  from array_makes [OF assms(1,2), where vs = "map Some ss" and f = "\<lambda>s. JString (c_string (the s))" and mk = "cJSON_CreateString E" and h = h,
    OF this _ assms(4)] assms(8)
  show "makes E h (\<lambda>h1 u. json_of (env_h E) h1 u = Some (JArray (map (\<lambda>s. JString (c_string s)) (take (nat count) ss))))
      (cJSON_CreateStringArray E (Some (map Some ss)) count h)"
    unfolding cJSON_CreateStringArray_def by (auto simp: take_map comp_def)
qed

section \<open>Properties\<close>

text \<open>
  C37. \<open>cJSON_Duplicate\<close> on a tree whose texts are terminated returns for every bound beyond the number of
  its items. Either it gives the null pointer and the heap is the old one, which only happens when an
  allocation fails; or it gives the root of a well-formed tree of new items with the same values, texts
  and children (only the root when it is not recursive), and no item that existed before is changed. A
  recursive copy stands for the same JSON value.
\<close>

theorem duplicate_copies:
  assumes "new_ok E" and "hooks_ok (env_hooks E)" and "own (env_h E) h t" and "tree_texts h t" and "length (addrs t) < n"
  shows "cJSON_Duplicate n E h (root t) recurse = Some (0, h) \<and> \<not> enough E h \<or>
    (\<exists>u h1. cJSON_Duplicate n E h (root t) recurse = Some (root u, h1) \<and> fresh_tree (env_h E) h h1 u \<and>
      view h1 u = view_to recurse h t \<and> (recurse \<longrightarrow> json_of (env_h E) h1 u = json_of (env_h E) h t))"
proof -
  have "makes E h (\<lambda>h1 u. view h1 u = view_to recurse h t) (cJSON_Duplicate n E h (root t) recurse)"
    by (rule duplicate_makes [OF assms])
  moreover have "json_of (env_h E) h1 u = json_of (env_h E) h t" if "view h1 u = view_to recurse h t" and recurse for h1 u
    using that by (intro view_json) (simp add: view_to_def)
  ultimately show ?thesis unfolding makes_def by blast
qed

lemma demo_texts: "tree_texts demo_doc demo_tree"
  by (simp add: tree_texts_def demo_doc_def demo_tree_def demo_node_def texts_ok_def terminated_def)

lemma demo_enough: "enough endless_env demo_doc"
  unfolding enough_def using endless_env_ok by (simp add: demo_doc_def)

theorem duplicate_copies_witness:
  "\<exists>u h1. cJSON_Duplicate 5 endless_env demo_doc (root demo_tree) True = Some (root u, h1) \<and> fresh_tree (env_h endless_env) demo_doc h1 u \<and>
    json_of (env_h endless_env) h1 u = Some demo_json"
proof -
  have own: "own (env_h endless_env) demo_doc demo_tree" "json_of (env_h endless_env) demo_doc demo_tree = Some demo_json"
    unfolding endless_env_ok(6) by (rule demo_doc_ok)+
  have "length (addrs demo_tree) < 5" by (simp add: demo_tree_def)
  from duplicate_copies [OF endless_env_ok(1,4) own(1) demo_texts this, of True] demo_enough own(2) show ?thesis by auto
qed

end
