(* ===== verification/Cjson_Compare.thy ===== *)
theory Cjson_Compare
  imports Cjson_Copy
begin

text \<open>
  The type predicates, the access functions for values and \<open>cJSON_Compare\<close> of
  \<open>src/cJSON/demo1/cJSON.c\<close>. Comparison is specified by an equality of JSON values; together with
  \<open>Cjson_Copy\<close> this gives that a copy compares equal to its original.

  The first argument of \<open>cJSON_Compare\<close> bounds the depth of the recursion and the number of children that
  are visited; the number of items of both trees is always enough.
\<close>

unbundle bit_operations_syntax

section \<open>Types and values\<close>

definition is_type :: "items \<Rightarrow> nat \<Rightarrow> u32 \<Rightarrow> bool option" where
  "is_type h p ty = (if p = 0 then Some False else do { x \<leftarrow> jget h p; Some (item_type x AND 0xFF = ty) })"

definition cJSON_IsInvalid :: "cjson_h \<Rightarrow> items \<Rightarrow> nat \<Rightarrow> bool option" where
  "cJSON_IsInvalid H h p = is_type h p (cJSON_Invalid H)"

definition cJSON_IsFalse :: "cjson_h \<Rightarrow> items \<Rightarrow> nat \<Rightarrow> bool option" where
  "cJSON_IsFalse H h p = is_type h p (cJSON_False H)"

definition cJSON_IsTrue :: "cjson_h \<Rightarrow> items \<Rightarrow> nat \<Rightarrow> bool option" where
  "cJSON_IsTrue H h p = is_type h p (cJSON_True H)"

definition cJSON_IsBool :: "cjson_h \<Rightarrow> items \<Rightarrow> nat \<Rightarrow> bool option" where
  "cJSON_IsBool H h p =
     (if p = 0 then Some False else do { x \<leftarrow> jget h p; Some (item_type x AND (cJSON_True H OR cJSON_False H) \<noteq> 0) })"

definition cJSON_IsNull :: "cjson_h \<Rightarrow> items \<Rightarrow> nat \<Rightarrow> bool option" where
  "cJSON_IsNull H h p = is_type h p (cJSON_NULL H)"

definition cJSON_IsNumber :: "cjson_h \<Rightarrow> items \<Rightarrow> nat \<Rightarrow> bool option" where
  "cJSON_IsNumber H h p = is_type h p (cJSON_Number H)"

definition cJSON_IsString :: "cjson_h \<Rightarrow> items \<Rightarrow> nat \<Rightarrow> bool option" where
  "cJSON_IsString H h p = is_type h p (cJSON_String H)"

definition cJSON_IsArray :: "cjson_h \<Rightarrow> items \<Rightarrow> nat \<Rightarrow> bool option" where
  "cJSON_IsArray H h p = is_type h p (cJSON_Array H)"

definition cJSON_IsObject :: "cjson_h \<Rightarrow> items \<Rightarrow> nat \<Rightarrow> bool option" where
  "cJSON_IsObject H h p = is_type h p (cJSON_Object H)"

definition cJSON_IsRaw :: "cjson_h \<Rightarrow> items \<Rightarrow> nat \<Rightarrow> bool option" where
  "cJSON_IsRaw H h p = is_type h p (cJSON_Raw H)"

definition cJSON_GetStringValue :: "cjson_h \<Rightarrow> items \<Rightarrow> nat \<Rightarrow> u8 list option option" where
  "cJSON_GetStringValue H h p = do {
     r \<leftarrow> cJSON_IsString H h p;
     if \<not> r then Some None else do { x \<leftarrow> jget h p; Some (valuestring x) }
   }"

text \<open>The constant \<open>NAN\<close> is a parameter.\<close>

definition cJSON_GetNumberValue :: "cjson_h \<Rightarrow> u64 \<Rightarrow> items \<Rightarrow> nat \<Rightarrow> u64 option" where
  "cJSON_GetNumberValue H NAN h p = do {
     r \<leftarrow> cJSON_IsNumber H h p;
     if \<not> r then Some NAN else do { x \<leftarrow> jget h p; Some (valuedouble x) }
   }"

definition cJSON_SetNumberHelper :: "cjson_env \<Rightarrow> items \<Rightarrow> nat \<Rightarrow> u64 \<Rightarrow> (u64 \<times> items) option" where
  "cJSON_SetNumberHelper E h p number = do {
     h1 \<leftarrow> jset h p (\<lambda>x. x\<lparr>valueint := saturate E number, valuedouble := number\<rparr>);
     Some (number, h1)
   }"

text \<open>
  \<open>cJSON_SetValuestring\<close> copies a text that is not longer into the old block, and replaces the block
  otherwise. The result is the block, or the null pointer when nothing was set.
\<close>

definition c_strcpy :: "u8 list \<Rightarrow> u8 list \<Rightarrow> u8 list option" where
  "c_strcpy dest src = do { n \<leftarrow> strlen_at src 0; memcpy dest 0 src 0 (int n + 1) }"

definition cJSON_SetValuestring :: "cjson_env \<Rightarrow> items \<Rightarrow> nat \<Rightarrow> u8 list \<Rightarrow> (u8 list option \<times> items) option" where
  "cJSON_SetValuestring E h p str = do {
     x \<leftarrow> jget h p;
     if item_type x AND cJSON_String (env_h E) = 0 \<or> item_type x AND cJSON_IsReference (env_h E) \<noteq> 0 then Some (None, h)
     else do {
       n \<leftarrow> strlen_at str 0;
       old \<leftarrow> valuestring x;
       m \<leftarrow> strlen_at old 0;
       if n \<le> m then do {
         v \<leftarrow> c_strcpy old str;
         h1 \<leftarrow> jset h p (\<lambda>x. x\<lparr>valuestring := Some v\<rparr>);
         Some (Some v, h1)
       }
       else do {
         copy \<leftarrow> cJSON_strdup (env_hooks E) (Some str);
         case copy of None \<Rightarrow> Some (None, h)
         | Some c \<Rightarrow> do { h1 \<leftarrow> jset h p (\<lambda>x. x\<lparr>valuestring := Some c\<rparr>); Some (Some c, h1) }
       }
     }
   }"

text \<open>
  \<open>cJSON_InitHooks\<close> chooses the functions for memory; functions are compared by their addresses. The
  result holds \<open>allocate\<close>, \<open>deallocate\<close> and \<open>reallocate\<close>, which may be the null pointer.
\<close>

record 'f memory_functions =
  f_malloc :: 'f
  f_free :: 'f
  f_realloc :: 'f

definition cJSON_InitHooks :: "'f memory_functions \<Rightarrow> ('f option \<times> 'f option) option \<Rightarrow> 'f \<times> 'f \<times> 'f option" where
  "cJSON_InitHooks C hooks =
     (case hooks of None \<Rightarrow> (f_malloc C, f_free C, Some (f_realloc C))
      | Some (malloc_fn, free_fn) \<Rightarrow>
          let al = (case malloc_fn of None \<Rightarrow> f_malloc C | Some f \<Rightarrow> f);
              de = (case free_fn of None \<Rightarrow> f_free C | Some f \<Rightarrow> f)
          in (al, de, if al = f_malloc C \<and> de = f_free C then Some (f_realloc C) else None))"

section \<open>Comparison\<close>

fun compare_elements :: "nat \<Rightarrow> (nat \<Rightarrow> nat \<Rightarrow> bool option) \<Rightarrow> items \<Rightarrow> nat \<Rightarrow> nat \<Rightarrow> bool option" where
  "compare_elements 0 cmp h a b = None"
| "compare_elements (Suc n) cmp h a b =
     (if a \<noteq> 0 \<and> b \<noteq> 0 then do {
        r \<leftarrow> cmp a b;
        if \<not> r then Some False
        else do { x \<leftarrow> jget h a; y \<leftarrow> jget h b; compare_elements n cmp h (nxt x) (nxt y) }
      }
      else Some (a = b))"

text \<open>One loop over the members of an object: each is looked up in the other object and compared.\<close>

fun compare_members :: "nat \<Rightarrow> (nat \<Rightarrow> nat \<Rightarrow> bool option) \<Rightarrow> items \<Rightarrow> bool \<Rightarrow> nat \<Rightarrow> nat \<Rightarrow> bool option" where
  "compare_members 0 cmp h cs a other = None"
| "compare_members (Suc n) cmp h cs a other =
     (if a = 0 then Some True
      else do {
        x \<leftarrow> jget h a;
        b \<leftarrow> get_object_item h other (item_string x) cs;
        if b = 0 then Some False
        else do {
          r \<leftarrow> cmp a b;
          if \<not> r then Some False else compare_members n cmp h cs (nxt x) other
        }
      })"

fun cJSON_Compare :: "nat \<Rightarrow> cjson_h \<Rightarrow> fp_ops \<Rightarrow> items \<Rightarrow> nat \<Rightarrow> nat \<Rightarrow> bool \<Rightarrow> bool option" where
  "cJSON_Compare 0 H F h a b cs = None"
| "cJSON_Compare (Suc n) H F h a b cs =
     (if a = 0 \<or> b = 0 then Some False
      else do {
        x \<leftarrow> jget h a;
        y \<leftarrow> jget h b;
        let ty = item_type x AND 0xFF;
        if ty \<noteq> item_type y AND 0xFF \<or> ty = cJSON_Invalid H then Some False
        else if ty \<notin> set [cJSON_False H, cJSON_True H, cJSON_NULL H, cJSON_Number H, cJSON_String H, cJSON_Raw H, cJSON_Array H, cJSON_Object H]
        then Some False
        else if a = b then Some True
        else if ty \<in> set [cJSON_False H, cJSON_True H, cJSON_NULL H] then Some True
        else if ty = cJSON_Number H then Some (compare_double F (valuedouble x) (valuedouble y))
        else if ty \<in> set [cJSON_String H, cJSON_Raw H]
        then (case (valuestring x, valuestring y) of (Some s, Some t) \<Rightarrow> map_option (\<lambda>r. r = 0) (c_strcmp s t) | _ \<Rightarrow> Some False)
        else if ty = cJSON_Array H then compare_elements n (\<lambda>c d. cJSON_Compare n H F h c d cs) h (chd x) (chd y)
        else do {
          r \<leftarrow> compare_members n (\<lambda>c d. cJSON_Compare n H F h c d cs) h cs (chd x) b;
          if \<not> r then Some False
          else compare_members n (\<lambda>c d. cJSON_Compare n H F h c d cs) h cs (chd y) a
        }
      })"

section \<open>Types of values\<close>

primrec json_type :: "cjson_h \<Rightarrow> json \<Rightarrow> u32" where
  "json_type H JNull = cJSON_NULL H"
| "json_type H JFalse = cJSON_False H"
| "json_type H JTrue = cJSON_True H"
| "json_type H (JNumber d) = cJSON_Number H"
| "json_type H (JString s) = cJSON_String H"
| "json_type H (JArray vs) = cJSON_Array H"
| "json_type H (JObject kvs) = cJSON_Object H"

lemma json_typed:
  assumes "types_ok H" and "own H h t" and "json_of H h t = Some v"
  obtains x where "h (root t) = Some x" and "root t \<noteq> 0" and "item_type x AND 0xFF = json_type H v"
proof -
  note r = own_root [OF assms(2)]
  show thesis
  proof (cases rule: json_of_container [OF assms])
    case 1
    with that r show ?thesis by simp
  next
    case 2
    with that r show ?thesis by simp
  next
    case (3 x)
    from 3(4) have "item_type x AND 0xFF = json_type H v" by (rule scalar_cases) simp_all
    with that 3(1) r show ?thesis by blast
  qed
qed

lemma invalid_distinct: "types_ok H \<Longrightarrow> json_type H v \<noteq> cJSON_Invalid H"
  by (cases v) (auto simp: types_ok_def)

section \<open>Equality of values\<close>

text \<open>
  The member that a lookup finds, with or without regard to case, and the equality that \<open>cJSON_Compare\<close>
  implements: numbers up to rounding, arrays element by element, objects by looking up each member of
  one in the other.
\<close>

definition same_key :: "bool \<Rightarrow> u8 list \<Rightarrow> u8 list \<Rightarrow> bool" where
  "same_key cs k l \<longleftrightarrow> map (fold_case cs) k = map (fold_case cs) l"

definition member_of :: "bool \<Rightarrow> u8 list \<Rightarrow> (u8 list \<times> json) list \<Rightarrow> json option" where
  "member_of cs k ls = map_option snd (find (\<lambda>l. same_key cs k (fst l)) ls)"

lemma member_of_size: "member_of cs k ls = Some w \<Longrightarrow> size w < size (JObject ls)"
proof -
  assume "member_of cs k ls = Some w"
  then obtain l where "(l, w) \<in> set ls" by (auto simp: member_of_def find_Some_iff) (metis nth_mem prod.collapse)
  then show ?thesis by (induction ls) auto
qed

lemma member_size: "kv \<in> set kvs \<Longrightarrow> size (snd kv) < size (JObject kvs)"
  by (induction kvs) (auto simp: less_Suc_eq_le)

lemma element_size: "v \<in> set vs \<Longrightarrow> size v < size (JArray vs)"
  by (induction vs) (auto simp: less_Suc_eq_le)

declare list.rel_cong [fundef_cong]

function json_equal :: "fp_ops \<Rightarrow> bool \<Rightarrow> json \<Rightarrow> json \<Rightarrow> bool" where
  "json_equal F cs v w =
     (case (v, w) of
        (JNumber d, JNumber e) \<Rightarrow> compare_double F d e
      | (JArray vs, JArray ws) \<Rightarrow> list_all2 (json_equal F cs) vs ws
      | (JObject ks, JObject ls) \<Rightarrow>
          list_all (\<lambda>kv. case member_of cs (fst kv) ls of None \<Rightarrow> False | Some w' \<Rightarrow> json_equal F cs (snd kv) w') ks \<and>
          list_all (\<lambda>lw. case member_of cs (fst lw) ks of None \<Rightarrow> False | Some v' \<Rightarrow> json_equal F cs (snd lw) v') ls
      | _ \<Rightarrow> v = w)"
  by pat_completeness auto
termination
proof (relation "measure (\<lambda>(F, cs, v, w). size v + size w)")
qed (auto dest!: member_of_size member_size element_size)

declare json_equal.simps [simp del]

lemma json_equal_simps [simp]:
  "json_equal F cs (JNumber d) (JNumber e) = compare_double F d e"
  "json_equal F cs (JString s) (JString t) = (s = t)"
  "json_equal F cs JNull JNull" "json_equal F cs JFalse JFalse" "json_equal F cs JTrue JTrue"
  "json_equal F cs (JArray vs) (JArray ws) = list_all2 (json_equal F cs) vs ws"
  by (subst json_equal.simps; simp)+

definition members_in :: "fp_ops \<Rightarrow> bool \<Rightarrow> (u8 list \<times> json) list \<Rightarrow> (u8 list \<times> json) list \<Rightarrow> bool" where
  "members_in F cs ks ls = list_all (\<lambda>kv. case member_of cs (fst kv) ls of None \<Rightarrow> False | Some w \<Rightarrow> json_equal F cs (snd kv) w) ks"

lemma json_equal_object [simp]: "json_equal F cs (JObject ks) (JObject ls) \<longleftrightarrow> members_in F cs ks ls \<and> members_in F cs ls ks"
  by (subst json_equal.simps) (simp add: members_in_def)

lemma json_equal_type: "json_equal F cs v w \<Longrightarrow> json_type H v = json_type H w"
  by (subst (asm) json_equal.simps) (auto split: json.splits)

section \<open>The comparison computes the equality\<close>

definition compares :: "cjson_h \<Rightarrow> fp_ops \<Rightarrow> bool \<Rightarrow> items \<Rightarrow> (nat \<Rightarrow> nat \<Rightarrow> bool option) \<Rightarrow> atree list \<Rightarrow> atree list \<Rightarrow> bool" where
  "compares H F cs h cmp ts us \<longleftrightarrow> (\<forall>t\<in>set ts. \<forall>u\<in>set us. \<forall>v w. json_of H h t = Some v \<longrightarrow> json_of H h u = Some w \<longrightarrow>
     cmp (root t) (root u) = Some (json_equal F cs v w))"

lemma elements_compare:
  assumes "compares H F cs h cmp ts us" and "dseg h p (map root ts) 0" and "dseg h q (map root us) 0" and "0 \<notin> root ` set ts" and "0 \<notin> root ` set us"
    and "map (json_of H h) ts = map Some vs" and "map (json_of H h) us = map Some ws" and "length ts < n"
  shows "compare_elements n cmp h (first (map root ts) 0) (first (map root us) 0) = Some (list_all2 (json_equal F cs) vs ws)"
  using assms
proof (induction ts arbitrary: us vs ws n p q)
  case Nil
  then obtain m where "n = Suc m" by (cases n) auto
  with Nil show ?case by (cases us) auto
next
  case (Cons t ts)
  then obtain m where n: "n = Suc m" by (cases n) auto
  obtain v vs1 where vs: "vs = v # vs1" "json_of H h t = Some v" "map (json_of H h) ts = map Some vs1" using Cons.prems(6) by (cases vs) auto
  show ?case
  proof (cases us)
    case Nil
    with Cons.prems n vs show ?thesis by auto
  next
    case (Cons u us1)
    obtain w ws1 where ws: "ws = w # ws1" "json_of H h u = Some w" "map (json_of H h) us1 = map Some ws1" using Cons.prems(7) Cons by (cases ws) auto
    obtain x y where x: "h (root t) = Some x" "nxt x = first (map root ts) 0" "dseg h (root t) (map root ts) 0"
      and y: "h (root u) = Some y" "nxt y = first (map root us1) 0" "dseg h (root u) (map root us1) 0"
      using Cons.prems(2,3) Cons by (auto split: option.splits)
    have "compares H F cs h cmp ts us1" using Cons.prems(1) Cons by (simp add: compares_def)
    then have IH: "compare_elements m cmp h (first (map root ts) 0) (first (map root us1) 0) = Some (list_all2 (json_equal F cs) vs1 ws1)"
      using Cons.IH [OF _ x(3) y(3) _ _ vs(3) ws(3)] Cons.prems(4,5,8) Cons n by simp
    have "cmp (root t) (root u) = Some (json_equal F cs v w)" using Cons.prems(1) Cons vs(2) ws(2) by (simp add: compares_def)
    moreover have "root t \<noteq> 0" "root u \<noteq> 0" using Cons.prems(4,5) Cons by auto
    ultimately show ?thesis using IH n vs(1) ws(1) x y Cons by (simp add: heap_simps)
  qed
qed

text \<open>The members of an object: their keys and values.\<close>

definition has_members :: "cjson_h \<Rightarrow> items \<Rightarrow> atree list \<Rightarrow> (u8 list \<times> json) list \<Rightarrow> bool" where
  "has_members H h ts kvs \<longleftrightarrow> list_all2 (\<lambda>t kv. json_of H h t = Some (snd kv) \<and> key_at h (root t) = Some (fst kv)) ts kvs"

lemma has_members_map:
  "map (json_of H h) ts = map (\<lambda>kv. Some (snd kv)) kvs \<Longrightarrow> map (\<lambda>t. key_at h (root t)) ts = map (\<lambda>kv. Some (fst kv)) kvs \<Longrightarrow> has_members H h ts kvs"
  unfolding has_members_def
proof (induction ts arbitrary: kvs)
  case (Cons t ts)
  then show ?case by (cases kvs) auto
qed simp

lemma key_text:
  assumes "key_at h p = Some k"
  obtains x s where "h p = Some x" and "item_string x = Some s" and "terminated s" and "c_string s = k"
  using assms by (auto simp: key_at_def c_text_def terminated_def split: bind_splits if_splits)

lemma members_have_keys: "has_members H h ts kvs \<Longrightarrow> has_keys h (map root ts)"
  unfolding has_members_def has_keys_def
proof
  fix p
  assume m: "list_all2 (\<lambda>t kv. json_of H h t = Some (snd kv) \<and> key_at h (root t) = Some (fst kv)) ts kvs" and p: "p \<in> set (map root ts)"
  then obtain k where "key_at h p = Some k" by (auto simp: list_all2_conv_all_nth in_set_conv_nth)
  then show "case h p of None \<Rightarrow> False | Some n \<Rightarrow> (case item_string n of None \<Rightarrow> False | Some s \<Rightarrow> terminated s)"
    by (rule key_text) simp
qed

lemma find_member:
  assumes "has_members H h us ls" and "terminated name"
  shows "case find (matching h cs name) (map root us) of None \<Rightarrow> member_of cs (c_string name) ls = None
    | Some b \<Rightarrow> \<exists>u w. u \<in> set us \<and> b = root u \<and> json_of H h u = Some w \<and> member_of cs (c_string name) ls = Some w"
  using assms(1)
proof (induction us arbitrary: ls)
  case Nil
  then show ?case by (simp add: has_members_def member_of_def)
next
  case (Cons u us)
  then obtain l ls1 where ls: "ls = l # ls1" "json_of H h u = Some (snd l)" "key_at h (root u) = Some (fst l)" "has_members H h us ls1"
    unfolding has_members_def by (cases ls) auto
  have m: "matching h cs name (root u) \<longleftrightarrow> same_key cs (c_string name) (fst l)"
    using ls(3) by (rule key_text) (auto simp: matching_def key_matches_def same_key_def)
  show ?case
  proof (cases "matching h cs name (root u)")
    case True
    with m ls show ?thesis by (auto simp: member_of_def)
  next
    case False
    with Cons.IH [OF ls(4)] m ls(1) show ?thesis by (auto simp: member_of_def split: option.splits)
  qed
qed

lemma members_compare:
  assumes "compares H F cs h cmp ts us" and "dseg h p (map root ts) 0" and "0 \<notin> root ` set ts" and "kids h b (map root us)" and "0 \<notin> root ` set us"
    and "has_members H h ts ks" and "has_members H h us ls" and "length ts < n"
  shows "compare_members n cmp h cs (first (map root ts) 0) b = Some (members_in F cs ks ls)"
  using assms(1-3,6,8)
proof (induction ts arbitrary: ks n p)
  case Nil
  then obtain m where "n = Suc m" by (cases n) auto
  with Nil show ?case by (simp add: members_in_def has_members_def)
next
  case (Cons t ts)
  then obtain m where n: "n = Suc m" by (cases n) auto
  obtain k ks1 where ks: "ks = k # ks1" "json_of H h t = Some (snd k)" "key_at h (root t) = Some (fst k)" "has_members H h ts ks1"
    using Cons.prems(4) unfolding has_members_def by (cases ks) auto
  obtain x s where x: "h (root t) = Some x" "item_string x = Some s" "terminated s" "c_string s = fst k" using ks(3) by (rule key_text)
  have nx: "nxt x = first (map root ts) 0" "dseg h (root t) (map root ts) 0" using Cons.prems(2) x(1) by simp_all
  have t0: "root t \<noteq> 0" using Cons.prems(3) by auto
  have IH: "compare_members m cmp h cs (first (map root ts) 0) b = Some (members_in F cs ks1 ls)"
    using Cons.IH [OF _ nx(2) _ ks(4)] Cons.prems(1,3,5) n by (simp add: compares_def)
  have look: "get_object_item h b (item_string x) cs = Some (case find (matching h cs s) (map root us) of None \<Rightarrow> 0 | Some x \<Rightarrow> x)"
    unfolding x(2) by (rule get_object_item_spec [OF assms(4) members_have_keys [OF assms(7)] x(3)])
  note F = find_member [OF assms(7) x(3), of cs, unfolded x(4)]
  show ?case
  proof (cases "find (matching h cs s) (map root us)")
    case None
    with F look n x(1) t0 ks(1) show ?thesis by (simp add: heap_simps members_in_def)
  next
    case (Some c)
    with F obtain u w where u: "u \<in> set us" "c = root u" "json_of H h u = Some w" "member_of cs (fst k) ls = Some w" by auto
    have "cmp (root t) (root u) = Some (json_equal F cs (snd k) w)" using Cons.prems(1) u ks(2) by (simp add: compares_def)
    moreover have "root u \<noteq> 0" using assms(5) u(1) by (metis imageI)
    ultimately show ?thesis using look Some IH n x(1) t0 ks(1) u nx(1) by (simp add: heap_simps members_in_def)
  qed
qed

lemma strcmp_spec:
  assumes "c_text s = Some a" and "c_text t = Some b"
  shows "map_option (\<lambda>r. r = 0) (c_strcmp s t) = Some (a = b)"
proof -
  have st: "terminated s" "terminated t" "c_string s = a" "c_string t = b" using assms by (auto simp: c_text_def terminated_def split: if_splits)
  have "fold_case True = (\<lambda>b. b)" by (simp add: fold_case_def fun_eq_iff)
  then have "map_option (\<lambda>r. r \<noteq> 0) (c_strcmp s t) = Some (a \<noteq> b)" using key_differs_spec [OF st(1,2), of True] st(3,4) by (simp add: key_differs_def)
  then show ?thesis by (cases "c_strcmp s t") auto
qed

lemma json_parts:
  assumes "types_ok H" and "own H h t" and "json_of H h t = Some v" and "h (root t) = Some x"
  shows "v = JNumber d \<Longrightarrow> valuedouble x = d"
    and "v = JString s \<Longrightarrow> \<exists>b. valuestring x = Some b \<and> c_text b = Some s"
    and "v = JObject kvs \<Longrightarrow> has_members H h (subs t) kvs"
  by (rule json_of_container [OF assms(1-3)]; use assms(4) in \<open>auto elim!: scalar_cases intro: has_members_map\<close>)+

text \<open>Two trees without common items: the comparison decides the equality of their values.\<close>

lemma compare_values:
  assumes "types_ok H"
  shows "own H h t \<Longrightarrow> own H h u \<Longrightarrow> set (addrs t) \<inter> set (addrs u) = {} \<Longrightarrow> json_of H h t = Some v \<Longrightarrow> json_of H h u = Some w \<Longrightarrow>
    length (addrs t) + length (addrs u) < n \<Longrightarrow> cJSON_Compare n H F h (root t) (root u) cs = Some (json_equal F cs v w)"
proof (induction n arbitrary: t u v w)
  case (Suc n)
  note T = types_simps [OF assms] raw_distinct [OF assms]
  obtain x where x: "h (root t) = Some x" "root t \<noteq> 0" "item_type x AND 0xFF = json_type H v" using json_typed [OF assms Suc.prems(1,4)] .
  obtain y where y: "h (root u) = Some y" "root u \<noteq> 0" "item_type y AND 0xFF = json_type H w" using json_typed [OF assms Suc.prems(2,5)] .
  have ne: "root t \<noteq> root u" using Suc.prems(3) root_in_addrs [of t] root_in_addrs [of u] by auto
  obtain p ts q us where tu: "t = Nd p ts" "u = Nd q us" by (cases t; cases u)
  have kt: "kids h p (map root ts)" "list_all (own H h) ts" and ku: "kids h q (map root us)" "list_all (own H h) us" using Suc.prems(1,2) tu by simp_all
  obtain pr where seg: "dseg h pr (map root ts) 0" "0 \<notin> root ` set ts" "chd x = first (map root ts) 0" using kt(1) x(1) tu by (auto elim!: kidsE)
  obtain pr' where seg': "dseg h pr' (map root us) 0" "0 \<notin> root ` set us" "chd y = first (map root us) 0" using ku(1) y(1) tu by (auto elim!: kidsE)
  let ?cmp = "\<lambda>c d. cJSON_Compare n H F h c d cs"
  have sub: "compares H F cs h ?cmp ts us" "compares H F cs h ?cmp us ts"
  proof -
    have "cJSON_Compare n H F h (root t') (root u') cs = Some (json_equal F cs v' w') \<and> cJSON_Compare n H F h (root u') (root t') cs = Some (json_equal F cs w' v')"
      if s: "t' \<in> set ts" "u' \<in> set us" "json_of H h t' = Some v'" "json_of H h u' = Some w'" for t' u' v' w'
    proof -
      have o: "own H h t'" "own H h u'" using kt(2) ku(2) s(1,2) by (auto simp: list_all_iff)
      have "set (addrs t') \<subseteq> set (addrs t)" "set (addrs u') \<subseteq> set (addrs u)" using s(1,2) tu by auto
      then have d: "set (addrs t') \<inter> set (addrs u') = {}" using Suc.prems(3) by blast
      have l: "length (addrs t') + length (addrs u') < n" using addrs_sub [OF s(1)] addrs_sub [OF s(2)] Suc.prems(6) tu by simp
      show ?thesis using Suc.IH [OF o d s(3,4) l] Suc.IH [OF o(2,1) _ s(4,3)] d l by (auto simp: Int_commute add.commute)
    qed
    then show "compares H F cs h ?cmp ts us" "compares H F cs h ?cmp us ts" unfolding compares_def by blast+
  qed
  have len: "length ts < n" "length us < n" using forest_length [of ts] forest_length [of us] Suc.prems(6) tu by simp_all
  show ?case
  proof (cases "json_type H v = json_type H w")
    case False
    with json_equal_type [of F cs v w H] x y show ?thesis by (auto simp: heap_simps Let_def)
  next
    case True
    note inv = invalid_distinct [OF assms, of w]
    show ?thesis
    proof (cases v)
      case (JArray vs)
      then obtain ws where w: "w = JArray ws" using True T by (cases w) auto
      have "map (json_of H h) ts = map Some vs" "map (json_of H h) us = map Some ws"
        using Suc.prems(4,5) JArray w tu x y T by (auto simp: those_Some split: if_splits)
      from elements_compare [OF sub(1) seg(1) seg'(1) seg(2) seg'(2) this len(1)] show ?thesis
        using x y ne inv JArray w seg(3) seg'(3) T by (simp add: heap_simps Let_def)
    next
      case (JObject ks)
      then obtain ls where w: "w = JObject ls" using True T by (cases w) auto
      have m: "has_members H h ts ks" "has_members H h us ls"
        using json_parts(3) [OF assms Suc.prems(1,4) x(1) JObject] json_parts(3) [OF assms Suc.prems(2,5) y(1) w] tu by simp_all
      have "compare_members n ?cmp h cs (chd x) q = Some (members_in F cs ks ls)" "compare_members n ?cmp h cs (chd y) p = Some (members_in F cs ls ks)"
        unfolding seg(3) seg'(3) using members_compare [OF sub(1) seg(1,2) ku(1) seg'(2) m len(1)] members_compare [OF sub(2) seg'(1,2) kt(1) seg(2) m(2,1) len(2)] by simp_all
      then show ?thesis using x y ne inv JObject w T tu by (simp add: heap_simps Let_def)
    next
      case (JString s)
      then obtain s' where w: "w = JString s'" using True T by (cases w) auto
      obtain b b' where "valuestring x = Some b" "c_text b = Some s" "valuestring y = Some b'" "c_text b' = Some s'"
        using json_parts(2) [OF assms Suc.prems(1,4) x(1) JString] json_parts(2) [OF assms Suc.prems(2,5) y(1) w] by blast
      with strcmp_spec show ?thesis using x y ne inv JString w T by (simp add: heap_simps Let_def)
    next
      case (JNumber d)
      then obtain e where w: "w = JNumber e" using True T by (cases w) auto
      have "valuedouble x = d" "valuedouble y = e"
        using json_parts(1) [OF assms Suc.prems(1,4) x(1) JNumber] json_parts(1) [OF assms Suc.prems(2,5) y(1) w] by simp_all
      then show ?thesis using x y ne inv JNumber w T by (simp add: heap_simps Let_def)
    qed (use True x y ne inv T in \<open>cases w; simp add: heap_simps Let_def\<close>)+
  qed
qed simp

section \<open>Setting a text\<close>

lemma strcpy_spec:
  assumes "terminated str" and "length (c_string str) < length dest"
  shows "\<exists>v. c_strcpy dest str = Some v \<and> c_text v = c_text str"
proof -
  let ?t = "c_string str"
  obtain r where s: "str = ?t @ 0 # r" "0 \<notin> set ?t" using terminated_split [OF assms(1)] by blast
  have n: "strlen_at str 0 = Some (length ?t)" using strlen_spec [OF s(2), of r] s(1) by simp
  have "length ?t + 1 \<le> length str" using arg_cong [OF s(1), of length] by simp
  then have "memcpy dest 0 str 0 (int (length ?t) + 1) = Some (overwrite dest 0 (take (length ?t + 1) str))"
    using assms(2) by (subst memcpy_overwrite) (auto simp: nat_add_distrib)
  moreover have "take (length ?t + 1) str = ?t @ [0]" by (subst s(1)) simp
  moreover have "overwrite dest 0 (?t @ [0]) = ?t @ 0 # drop (length ?t + 1) dest" by (simp add: overwrite_def)
  moreover have "c_text (?t @ 0 # d) = c_text str" for d
    using s assms(1) by (simp add: c_text_def terminated_def c_string_def takeWhile_tail)
  ultimately show ?thesis using n by (simp add: c_strcpy_def)
qed

text \<open>
  On a string item with a text the item has the new text afterwards, or nothing is changed because
  memory ran out. An item that was created without a text is read through the null pointer.
\<close>

lemma set_valuestring:
  assumes "hooks_ok (env_hooks E)" and "h p = Some x" and "p \<noteq> 0" and "item_type x AND cJSON_String (env_h E) \<noteq> 0"
    and "item_type x AND cJSON_IsReference (env_h E) = 0" and "valuestring x = Some old" and "terminated old" and "terminated str"
  shows "cJSON_SetValuestring E h p str = Some (None, h) \<and> \<not> unlimited (env_hooks E) \<or>
    (\<exists>v. cJSON_SetValuestring E h p str = Some (Some v, h(p \<mapsto> x\<lparr>valuestring := Some v\<rparr>)) \<and> c_text v = c_text str)"
proof -
  have len: "strlen_at s 0 = Some (length (c_string s)) \<and> length (c_string s) < length s" if "terminated s" for s
    using terminated_split [OF that] strlen_spec by (metis length_append length_Cons less_add_Suc1 add_Suc_right)
  show ?thesis
  proof (cases "length (c_string str) \<le> length (c_string old)")
    case True
    with strcpy_spec [OF assms(8), of old] len [OF assms(7)] len [OF assms(8)] assms show ?thesis
      by (auto simp: cJSON_SetValuestring_def heap_simps)
  next
    case False
    with strdup_spec [OF assms(1,8)] len [OF assms(7)] len [OF assms(8)] assms show ?thesis
      by (auto simp: cJSON_SetValuestring_def heap_simps)
  qed
qed

lemma set_valuestring_null:
  assumes "h p = Some x" and "p \<noteq> 0" and "item_type x AND cJSON_String (env_h E) \<noteq> 0" and "item_type x AND cJSON_IsReference (env_h E) = 0"
    and "valuestring x = None"
  shows "cJSON_SetValuestring E h p str = None"
  using assms by (simp add: cJSON_SetValuestring_def heap_simps bind_eq_None_conv)

text \<open>\<open>realloc\<close> is used exactly with the standard functions.\<close>

lemma init_hooks_realloc:
  "snd (snd (cJSON_InitHooks C hooks)) = (if fst (cJSON_InitHooks C hooks) = f_malloc C \<and> fst (snd (cJSON_InitHooks C hooks)) = f_free C then Some (f_realloc C) else None)"
  by (auto simp: cJSON_InitHooks_def Let_def split: option.splits)

section \<open>Copies compare equal\<close>

text \<open>
  Values that are equal to themselves: each number is, and the keys of each object differ, also when
  case does not count.
\<close>

fun self_equal :: "fp_ops \<Rightarrow> bool \<Rightarrow> json \<Rightarrow> bool" where
  "self_equal F cs (JNumber d) = compare_double F d d"
| "self_equal F cs (JArray vs) = list_all (self_equal F cs) vs"
| "self_equal F cs (JObject kvs) = (distinct (map (\<lambda>kv. map (fold_case cs) (fst kv)) kvs) \<and> list_all (\<lambda>kv. self_equal F cs (snd kv)) kvs)"
| "self_equal F cs _ = True"

lemma member_of_self:
  assumes "distinct (map (\<lambda>kv. map (fold_case cs) (fst kv)) kvs)" and "kv \<in> set kvs"
  shows "member_of cs (fst kv) kvs = Some (snd kv)"
  using assms
proof (induction kvs)
  case (Cons l kvs)
  show ?case
  proof (cases "kv = l")
    case True
    then show ?thesis by (simp add: member_of_def same_key_def)
  next
    case False
    with Cons have "kv \<in> set kvs" by simp
    with Cons have "\<not> same_key cs (fst kv) (fst l)" by (auto simp: same_key_def image_iff)
    with Cons False show ?thesis by (simp add: member_of_def)
  qed
qed simp

lemma self_equal_refl: "self_equal F cs v \<Longrightarrow> json_equal F cs v v"
proof (induction v)
  case (JArray vs)
  then show ?case by (simp add: list_all_iff list.rel_refl_strong)
next
  case (JObject kvs)
  have "json_equal F cs (snd kv) (snd kv)" if "kv \<in> set kvs" for kv
    by (rule JObject.IH [of kv]) (use that JObject.prems in \<open>auto simp: list_all_iff snds.simps\<close>)
  with JObject.prems show ?case by (auto simp: members_in_def list_all_iff member_of_self)
qed simp_all

lemma view_length: "view h' u = view h t \<Longrightarrow> length (addrs u) = length (addrs t)"
proof (induction t arbitrary: u)
  case (Nd p ts)
  obtain q us where u: "u = Nd q us" by (cases u)
  with Nd.prems have us: "map (view h') us = map (view h) ts" by simp
  have len: "length us = length ts" using arg_cong [OF us, of length] by simp
  have "map (\<lambda>t. length (addrs t)) us = map (\<lambda>t. length (addrs t)) ts"
  proof (rule nth_equalityI)
    fix i
    assume "i < length (map (\<lambda>t. length (addrs t)) us)"
    then have i: "i < length us" "i < length ts" using len by simp_all
    have "view h' (us ! i) = view h (ts ! i)" using arg_cong [OF us, of "\<lambda>l. l ! i"] i by simp
    with Nd.IH [of "ts ! i"] i show "map (\<lambda>t. length (addrs t)) us ! i = map (\<lambda>t. length (addrs t)) ts ! i" by simp
  qed (use len in simp)
  then have "sum_list (map (\<lambda>t. length (addrs t)) us) = sum_list (map (\<lambda>t. length (addrs t)) ts)" by simp
  then show ?case using u by (simp add: length_concat comp_def)
qed

section \<open>Properties\<close>

text \<open>
  C38. \<open>cJSON_Compare\<close> on two well-formed trees without common items returns, and its result is the
  equality of the JSON values they stand for: arrays element by element, objects by looking up each
  member of either in the other, with or without regard to case, numbers up to rounding.
\<close>

theorem compare_equality:
  assumes "types_ok H" and "own H h t" and "own H h u" and "set (addrs t) \<inter> set (addrs u) = {}"
    and "json_of H h t = Some v" and "json_of H h u = Some w" and "length (addrs t) + length (addrs u) < n"
  shows "cJSON_Compare n H F h (root t) (root u) cs = Some (json_equal F cs v w)"
  using assms by (rule compare_values)

text \<open>
  C39. A tree compares equal to what \<open>cJSON_Duplicate\<close> makes of it, with enough memory, when its numbers
  compare equal to themselves and no object has two keys that the comparison does not distinguish.
\<close>

theorem compare_copy:
  assumes "new_ok E" and "hooks_ok (env_hooks E)" and "types_ok (env_h E)" and "enough E h" and "own (env_h E) h t" and "tree_texts h t"
    and "json_of (env_h E) h t = Some v" and "self_equal F cs v" and "length (addrs t) < n" and "2 * length (addrs t) < m"
  shows "\<exists>q h1. cJSON_Duplicate n E h (root t) True = Some (q, h1) \<and> cJSON_Compare m (env_h E) F h1 (root t) q cs = Some True"
proof -
  let ?H = "env_h E"
  have "makes E h (\<lambda>h1 u. view h1 u = view_to True h t) (cJSON_Duplicate n E h (root t) True)"
    using assms(1,2,5,6,9) by (rule duplicate_makes)
  then obtain u h1 where u: "cJSON_Duplicate n E h (root t) True = Some (root u, h1)" "fresh_tree ?H h h1 u" "view h1 u = view h t"
    using assms(4) by (auto simp: makes_def view_to_def)
  note U = fresh_treeD [OF u(2)]
  have "set (addrs t) \<subseteq> dom h" using own_in_heap [OF assms(5)] by blast
  then have d: "set (addrs t) \<inter> set (addrs u) = {}" using U(3) by blast
  then have same: "h1 y = h y" if "y \<in> set (addrs t)" for y using that U(4) by blast
  have "cJSON_Compare m ?H F h1 (root t) (root u) cs = Some (json_equal F cs v v)"
  proof (rule compare_values [OF assms(3) _ U(1) d])
    show "own ?H h1 t" using own_cong [of t h1 h ?H] same assms(5) by blast
    show "json_of ?H h1 t = Some v" using json_of_cong [of t h1 h ?H] same assms(7) by simp
    show "json_of ?H h1 u = Some v" using view_json [OF u(3)] assms(7) by simp
    show "length (addrs t) + length (addrs u) < m" using view_length [OF u(3)] assms(10) by simp
  qed
  with u(1) self_equal_refl [OF assms(8)] show ?thesis by simp
qed

text \<open>A second document for the witnesses: the items 6 and 7 hold an array with one string.\<close>

definition demo_pair :: items where
  "demo_pair = demo_doc(6 \<mapsto> demo_node 32 None None 0 0 7, 7 \<mapsto> demo_node 16 (Some [97, 0]) None 0 7 0)"

lemma demo_pair_ok:
  "own demo_h demo_pair demo_tree" "json_of demo_h demo_pair demo_tree = Some demo_json"
  "own demo_h demo_pair (Nd 6 [Nd 7 []])" "json_of demo_h demo_pair (Nd 6 [Nd 7 []]) = Some (JArray [JString [97]])"
  by code_simp+

theorem compare_equality_witness: "cJSON_Compare 7 demo_h demo_fp demo_pair 1 6 True = Some False"
proof -
  have "cJSON_Compare 7 demo_h demo_fp demo_pair (root demo_tree) (root (Nd 6 [Nd 7 []])) True = Some (json_equal demo_fp True demo_json (JArray [JString [97]]))"
    by (rule compare_equality [OF demo_types_ok demo_pair_ok(1,3) _ demo_pair_ok(2,4)]) (simp_all add: demo_tree_def)
  moreover have "\<not> json_equal demo_fp True demo_json (JArray [JString [97]])"
    using json_equal_type [of demo_fp True demo_json "JArray [JString [97]]" demo_h] by (auto simp: demo_json_def demo_h_def)
  ultimately show ?thesis by (simp add: demo_tree_def)
qed

theorem compare_copy_witness:
  "\<exists>q h1. cJSON_Duplicate 5 endless_env demo_doc (root demo_tree) True = Some (q, h1) \<and>
    cJSON_Compare 9 (env_h endless_env) demo_fp h1 (root demo_tree) q False = Some True"
proof (rule compare_copy [OF endless_env_ok(1,4,3)])
  show "enough endless_env demo_doc" by (rule demo_enough)
  show "own (env_h endless_env) demo_doc demo_tree" "json_of (env_h endless_env) demo_doc demo_tree = Some demo_json"
    unfolding endless_env_ok(6) by (rule demo_doc_ok)+
  show "tree_texts demo_doc demo_tree" by (rule demo_texts)
  show "self_equal demo_fp False demo_json" by (simp add: demo_json_def)
qed (simp_all add: demo_tree_def)

text \<open>What the predicate for both truth values needs of the constants: their bits are in no other type.\<close>

definition bool_bits :: "cjson_h \<Rightarrow> bool" where
  "bool_bits H \<longleftrightarrow> list_all (\<lambda>t. (t AND (cJSON_True H OR cJSON_False H) \<noteq> 0) = (t = cJSON_True H \<or> t = cJSON_False H))
     [cJSON_False H, cJSON_True H, cJSON_NULL H, cJSON_Number H, cJSON_String H, cJSON_Array H, cJSON_Object H]"

lemma is_type_value:
  assumes "types_ok H" and "own H h t" and "json_of H h t = Some v"
  shows "is_type h (root t) ty = Some (json_type H v = ty)"
proof -
  obtain x where "h (root t) = Some x" "root t \<noteq> 0" "item_type x AND 0xFF = json_type H v" using json_typed [OF assms] .
  then show ?thesis by (simp add: is_type_def heap_simps)
qed

lemma is_bool_value:
  assumes "types_ok H" and "bool_bits H" and "own H h t" and "json_of H h t = Some v"
  shows "cJSON_IsBool H h (root t) = Some (v = JTrue \<or> v = JFalse)"
proof -
  let ?m = "cJSON_True H OR cJSON_False H"
  obtain x where x: "h (root t) = Some x" "root t \<noteq> 0" "item_type x AND 0xFF = json_type H v" using json_typed [OF assms(1,3,4)] .
  have m: "0xFF AND ?m = ?m" by (simp only: and.commute [of "0xFF"] bit.conj_disj_distrib2 types_simps(1,2) [OF assms(1)])
  have "item_type x AND ?m = (item_type x AND 0xFF) AND ?m" by (subst m [symmetric]) (rule and.assoc [symmetric])
  then have "item_type x AND ?m \<noteq> 0 \<longleftrightarrow> json_type H v = cJSON_True H \<or> json_type H v = cJSON_False H"
    using assms(2) x(3) by (cases v) (simp_all add: bool_bits_def)
  moreover have "json_type H v = cJSON_True H \<or> json_type H v = cJSON_False H \<longleftrightarrow> v = JTrue \<or> v = JFalse"
    by (cases v) (simp_all add: types_simps [OF assms(1)])
  ultimately show ?thesis using x by (simp add: cJSON_IsBool_def heap_simps)
qed

text \<open>
  C40. The type predicates agree with the JSON value of a tree: exactly the predicate for its form holds,
  none of them is undefined, and \<open>cJSON_GetNumberValue\<close> and \<open>cJSON_GetStringValue\<close> give the number or the
  text of the value, and \<open>NAN\<close> or the null pointer for values of another form.
\<close>

theorem type_predicates:
  assumes "types_ok H" and "bool_bits H" and "own H h t" and "json_of H h t = Some v"
  shows "cJSON_IsInvalid H h (root t) = Some False \<and> cJSON_IsRaw H h (root t) = Some False \<and>
    cJSON_IsNull H h (root t) = Some (v = JNull) \<and> cJSON_IsFalse H h (root t) = Some (v = JFalse) \<and> cJSON_IsTrue H h (root t) = Some (v = JTrue) \<and>
    cJSON_IsBool H h (root t) = Some (v = JTrue \<or> v = JFalse) \<and>
    cJSON_IsNumber H h (root t) = Some (\<exists>d. v = JNumber d) \<and> cJSON_IsString H h (root t) = Some (\<exists>s. v = JString s) \<and>
    cJSON_IsArray H h (root t) = Some (\<exists>vs. v = JArray vs) \<and> cJSON_IsObject H h (root t) = Some (\<exists>kvs. v = JObject kvs) \<and>
    cJSON_GetNumberValue H NAN h (root t) = Some (case v of JNumber d \<Rightarrow> d | _ \<Rightarrow> NAN) \<and>
    map_option (\<lambda>r. do { b \<leftarrow> r; c_text b }) (cJSON_GetStringValue H h (root t)) = Some (case v of JString s \<Rightarrow> Some s | _ \<Rightarrow> None)"
proof -
  note T = types_simps [OF assms(1)] and ty = is_type_value [OF assms(1,3,4)]
  have raw: "json_type H v \<noteq> cJSON_Raw H" using assms(1) by (cases v) (auto simp: types_ok_def)
  obtain x where x: "h (root t) = Some x" "root t \<noteq> 0" using json_typed [OF assms(1,3,4)] .
  note P = json_parts [OF assms(1,3,4) x(1)]
  have forms: "cJSON_IsNull H h (root t) = Some (v = JNull)" "cJSON_IsFalse H h (root t) = Some (v = JFalse)" "cJSON_IsTrue H h (root t) = Some (v = JTrue)"
    "cJSON_IsNumber H h (root t) = Some (\<exists>d. v = JNumber d)" "cJSON_IsString H h (root t) = Some (\<exists>s. v = JString s)"
    "cJSON_IsArray H h (root t) = Some (\<exists>vs. v = JArray vs)" "cJSON_IsObject H h (root t) = Some (\<exists>kvs. v = JObject kvs)"
    unfolding cJSON_IsNull_def cJSON_IsFalse_def cJSON_IsTrue_def cJSON_IsNumber_def cJSON_IsString_def cJSON_IsArray_def cJSON_IsObject_def ty
    by (cases v; simp add: T)+
  have "cJSON_GetNumberValue H NAN h (root t) = Some (case v of JNumber d \<Rightarrow> d | _ \<Rightarrow> NAN)"
    unfolding cJSON_GetNumberValue_def forms using P(1) x by (cases v) (simp_all add: heap_simps)
  moreover have "map_option (\<lambda>r. do { b \<leftarrow> r; c_text b }) (cJSON_GetStringValue H h (root t)) = Some (case v of JString s \<Rightarrow> Some s | _ \<Rightarrow> None)"
    unfolding cJSON_GetStringValue_def forms using P(2) x by (cases v) (auto simp: heap_simps)
  moreover have "cJSON_IsInvalid H h (root t) = Some False" "cJSON_IsRaw H h (root t) = Some False"
    using ty raw invalid_distinct [OF assms(1), of v] by (simp_all add: cJSON_IsInvalid_def cJSON_IsRaw_def)
  ultimately show ?thesis using forms is_bool_value [OF assms] by blast
qed

theorem type_predicates_witness:
  "cJSON_IsObject demo_h demo_doc (root demo_tree) = Some True \<and> cJSON_IsBool demo_h demo_doc (root demo_tree) = Some False \<and>
    cJSON_GetNumberValue demo_h 5 demo_doc (root demo_tree) = Some 5"
proof -
  have "bool_bits demo_h" by (simp add: bool_bits_def demo_h_def)
  from type_predicates [OF demo_types_ok this demo_doc_ok, of 5] show ?thesis by (auto simp: demo_json_def)
qed

end
