(* ===== verification/Spec2Isabelle.thy ===== *)
theory Spec2Isabelle
  imports Udp_Piece Tcp_Reactor Cas_Queue Heartbeat_Server Heartbeat_Client Heartbeat_Fields Bloom_Filter Huffman_File Cjson_Unicode Cjson_Minify Cjson_Compare
begin

text \<open>
  A verification library for the C components of the repository.

  \<^bold>\<open>The program.\<close> The repository is a collection of components that belong to separate articles: a
  library that cuts messages into UDP datagrams and merges them again (\<open>src/udp_piece\<close>); a heartbeat
  server and client on an epoll event loop whose timers are kept in a red-black tree
  (\<open>src/heartbeat\<close>); a TCP echo server on an epoll loop (\<open>src/server-client/reactor.c\<close>); a lock-free queue (\<open>src/cas_queue\<close>); a Bloom filter (\<open>src/BloomFilter\<close>);
  file compression with Huffman codes (\<open>src/HuffmanDecompression\<close>); a copy of the cJSON library
  (\<open>src/cJSON/demo1/cJSON.c\<close>); and many small examples of other libraries. Inside a component the
  parts interact: the merging code stores its pieces through a ring buffer, the event loop asks the
  timers for its waiting time and runs their handlers, the timers rely on the red-black tree, the
  JSON items are printed and parsed through the JSON strings.

  \<^bold>\<open>Conventions.\<close> A C function is a HOL function on explicit state. \<open>int\<close> is \<^typ>\<open>int\<close> with the bounds
  stated where they matter, unsigned types are words. Memory is explicit: a block is a list of
  bytes, a pointer into it an index, a linked structure a partial map from addresses to records. A
  result \<^const>\<open>None\<close> (the outer one where options are nested) is an access outside an object, through a
  null or dangling pointer, a second release, or another use of memory that the C standard leaves
  undefined; so a theorem that a function returns \<^const>\<open>Some\<close> is a theorem of memory safety. The
  allocator, system calls, floating-point functions and constants of headers that are not in the
  repository are arguments of the model, with their documented behaviour as named hypotheses
  (\<open>allocator_ok\<close>, \<open>hooks_ok\<close>, \<open>pq_ok\<close>), each satisfied by a concrete instance in the witnesses. Printing to the
  terminal is left out, except where the UDP server prints what it has received.

  \<^bold>\<open>Theories.\<close>
  \<^item> \<open>Prelude\<close>: machine types, \<open>memcpy\<close>, loads and stores, the allocator, generic lemmas.
  \<^item> \<open>Circular_Buffer\<close>: \<open>circular_buffer.c\<close>. The locale \<open>byte_fifo\<close> states what a byte queue promises;
    its interpretation on the ring buffer gives C1.
  \<^item> \<open>Udp_Piece\<close>: \<open>udp-piece.c\<close> and the loops of its client and server: cutting, merging in any order
    and any split into datagrams (C2 to C4); the lemma \<open>merge_index_unchecked\<close> shows the missing bounds check, and
    \<open>print_unterminated\<close> that a message without a zero byte is printed from beyond its block.
  \<^item> \<open>Rbtree\<close>: \<open>ngx_rbtree.c\<close> on a heap of nodes. \<open>Rbtree_Shape\<close> relates heaps to trees and contexts,
    \<open>Rbtree_Insert\<close> and \<open>Rbtree_Delete\<close> follow the two re-balancing loops, \<open>Rbtree_Queue\<close> states the
    interface the timers use as a locale, interprets it, and gives C5 to C8.
  \<^item> \<open>Event_Timer\<close>: \<open>ngx_event_timer.c\<close> and its header on top of that interface (C9 to C11).
  \<^item> \<open>Reactor\<close>: \<open>ngx_reactor.c\<close>, \<open>ngx_times.c\<close>; system calls are a record of functions on a kernel state.
  \<^item> \<open>Heartbeat_Server\<close>, \<open>Heartbeat_Client\<close>: the callbacks and handlers of \<open>ngx_server.c\<close> and
    \<open>ngx_client.c\<close>, and their composition with the loop and the timers (C12 to C15). C12 and C15
    are for reads that do not fill the buffer (\<open>short_reads\<close>), C15 also for a clock whose readings stay in one half of
    the range of the keys (\<open>clock_ok\<close>); the lemmas \<open>recv_full_buffer\<close> and \<open>accept_out_of_bounds\<close> show the two accesses outside
    of their blocks that remain.
  \<^item> \<open>Tcp_Reactor\<close>: \<open>src/server-client/reactor.c\<close> from \<open>main\<close> to the callbacks; the invariant that ties registered descriptors
    to their events, kept unless \<open>socket\<close>, \<open>accept\<close> or \<open>recv\<close> returns a value that the code does not check (C16), and
    the echo, with the overrun by a full read (C17).
  \<^item> \<open>Cas_Queue\<close>: \<open>queue_cas.h\<close> as a step relation of interleaved accesses; it is a queue for one producer and one
    consumer or for producers only (C18), the lemmas \<open>two_consumers_fault\<close> and \<open>two_producers_fault\<close> show that more threads
    reach released nodes, and the program \<open>queue_cas.cpp\<close> ends (C19).
  \<^item> \<open>Byte_Words\<close>: byte order. \<open>Heartbeat_Fields\<close>: \<open>ngx_filed.c\<close> (C24).
  \<^item> \<open>Bloom_Filter\<close>: \<open>bloomfilter.h\<close>; the locale \<open>bit_filter\<close> and its interpretation, saving and loading,
    the life of a filter against an abstract one, the hash function against a reference (C20 to C23); the lemmas \<open>load_missing_double_free\<close>
    and \<open>reset_is_lazy\<close> show what a failed load leaves behind and that a reset is delayed.
  \<^item> \<open>Huffman_File\<close>: \<open>HuffmanTree.hpp\<close> and \<open>FileCompress.hpp\<close> with \<open>std::priority_queue\<close> as a parameter; decompression
    of a compressed file gives the file (C25).
  \<^item> \<open>Cjson_String\<close>, \<open>Cjson_Print\<close>, \<open>Cjson_Unicode\<close>: reading and printing of JSON strings (C26, C27; the
    round trip is the lemma \<open>string_roundtrip\<close>).
  \<^item> \<open>Cjson_List\<close>: items and lists of children; the locale \<open>child_sequence\<close> and its interpretation
    (C28), and the look-up of keys (C30).
  \<^item> \<open>Cjson_Tree\<close>: trees of items in the heap, the JSON values they stand for, their release, and the replacement of an
    item, which releases the tree below it (C29).
  \<^item> \<open>Cjson_Parse\<close>, \<open>Cjson_Parse_Safe\<close>: the parser; safe, terminating and free of leaks on every
    terminated string (C31); the lemma \<open>parse_length_overread\<close> shows a read behind an unterminated
    buffer.
  \<^item> \<open>Cjson_Render\<close>: the printer; it writes the reference text of the value or runs out of memory (C32),
    and it stays inside a buffer of the caller (C33).
  \<^item> \<open>Cjson_Roundtrip\<close>: the parser on printed texts, and the round trip of whole documents (C34).
  \<^item> \<open>Cjson_Minify\<close>: \<open>cJSON_Minify\<close> in place against a reference on strings (C35), and on printed texts (C36);
    the lemma \<open>minify_backslash\<close> shows a string it damages.
  \<^item> \<open>Cjson_Copy\<close>: \<open>cJSON_Duplicate\<close> (C37) and the array constructors (lemma \<open>create_arrays\<close>), both as
    functions that make a tree of new items or leave the heap alone.
  \<^item> \<open>Cjson_Compare\<close>: the type predicates and value functions, \<open>cJSON_Compare\<close> against an equality of JSON
    values, and its composition with the copies (C38 to C40).

  \<^bold>\<open>Bounds and fuel.\<close> The re-balancing loops, list walks and the release of trees are
  \<open>partial_function (option)\<close>; the theorems show that they return. The event loops never return, so
  their models take the number of iterations to observe. The runs of the lock-free queue are an inductive relation over
  steps of any thread; a bound of their number is part of C19. The JSON parser is bounded by the length of
  the text and one more, which suffices because every nested call and every iteration consumes a
  byte (part of C31). The printer and \<open>cJSON_Duplicate\<close> are bounded by the number of items of the tree and one
  more (C32, C37), \<open>cJSON_Compare\<close> by the number of items of both trees and one more (C38). The
  remaining loops are total functions.

  \<^bold>\<open>Not modelled.\<close> The message codecs of \<open>src/heartbeat\<close> (\<open>ngx_message.c\<close>, \<open>ngx_binary_protocol.c\<close>) do
  not compile. The epoll load client, the HTTP and DNS clients and the demo programs are system calls and
  printing. The examples for ZeroMQ, OpenSSL, jsoncpp, iconv, zlib, protobuf and muduo are calls of
  libraries that are not in the repository, or generated code; \<open>src/tinyxml2\<close> is a copy of a C++ library
  without its header; the Docker, Go, Qt, STL and MySQL directories hold no C code.
\<close>

end
